(* ===== verification/CRuby_Prelude.thy ===== *)
theory CRuby_Prelude
  imports Main "HOL-Library.Word" "HOL-Library.Multiset"
begin

text \<open>
  Shared ground of the development: the C data model the sources are read in, the error
  values of the interpreter, and the generic facts on lists and words that the component
  theories use.

  The data model is LP64, the one of the 64-bit Unix builds: \<^verbatim>\<open>int\<close> has 32 bits, \<^verbatim>\<open>long\<close>,
  \<^verbatim>\<open>long long\<close> and pointers (so \<^verbatim>\<open>VALUE\<close>) have 64 bits, and \<^verbatim>\<open>defines.h\<close> then selects
  \<^verbatim>\<open>unsigned int\<close> for \<^verbatim>\<open>BDIGIT\<close> and a 64-bit \<^verbatim>\<open>BDIGIT_DBL\<close>. Signed overflow is written as
  two's complement wrap-around.
\<close>

unbundle bit_operations_syntax

section \<open>Machine types\<close>

type_synonym byte = "8 word"
type_synonym u32 = "32 word"
type_synonym u64 = "64 word"

text \<open>\<^verbatim>\<open>(int)x\<close>: reduction of an integer to the range of a 32-bit signed \<^verbatim>\<open>int\<close>.\<close>

definition int32 :: "int \<Rightarrow> int" where
  "int32 x = (x + 2 ^ 31) mod 2 ^ 32 - 2 ^ 31"

text \<open>\<^verbatim>\<open>(long)x\<close>: the same for a 64-bit signed \<^verbatim>\<open>long\<close>.\<close>

definition int64 :: "int \<Rightarrow> int" where
  "int64 x = (x + 2 ^ 63) mod 2 ^ 64 - 2 ^ 63"

section \<open>Errors\<close>

text \<open>
  The ways a modelled operation can end other than by returning: the exceptions that the
  sources raise, by class, and what C itself adds: an access outside an object, an integer
  division by zero that reaches the processor, and the read of a variable that was never set.
\<close>

datatype rb_error =
    NoMemError
  | ArgError
  | RangeError
  | IndexError
  | TypeError
  | ZeroDivError
  | SecurityError
  | FrozenError
  | OutOfBounds
  | DivideTrap
  | Uninitialised

text \<open>Sequencing of operations that can fail.\<close>

definition bindR :: "rb_error + 'a \<Rightarrow> ('a \<Rightarrow> rb_error + 'b) \<Rightarrow> rb_error + 'b" where
  "bindR m k = (case m of Inl e \<Rightarrow> Inl e | Inr x \<Rightarrow> k x)"

section \<open>Named collections\<close>

named_theorems word_nat "equations that move a word computation to natural numbers"
named_theorems inv_intro "introduction rules that establish component invariants"

section \<open>Generic lemmas\<close>

lemma bindR_simps [simp]: "bindR (Inl e) k = Inl e" "bindR (Inr x) k = k x"
  by (simp_all add: bindR_def)

lemma bindR_assoc: "bindR (bindR m f) k = bindR m (\<lambda>x. bindR (f x) k)"
  by (cases m) simp_all

lemma int32_id [simp]: "- (2 ^ 31) \<le> x \<Longrightarrow> x < 2 ^ 31 \<Longrightarrow> int32 x = x"
  by (simp add: int32_def)

lemma int64_id [simp]: "- (2 ^ 63) \<le> x \<Longrightarrow> x < 2 ^ 63 \<Longrightarrow> int64 x = x"
  by (simp add: int64_def)

lemma unat_drop_bit [word_nat]: "unat (drop_bit k w) = unat w div 2 ^ k"
  by (subst unsigned_drop_bit_eq) (simp only: drop_bit_eq_div take_bit_nat_eq_self [OF unsigned_less])

lemma mset_concat_update:
  "i < length xss \<Longrightarrow>
   mset (concat (xss[i := ys])) + mset (xss ! i) = mset (concat xss) + mset ys"
  by (induction xss arbitrary: i) (auto split: nat.splits simp: algebra_simps)

lemma length_concat_update:
  "i < length xss \<Longrightarrow>
   length (concat (xss[i := ys])) + length (xss ! i) = length (concat xss) + length ys"
  by (drule mset_concat_update [of _ _ ys], drule arg_cong [of _ _ size]) simp

lemma mset_concat_update_eq:
  assumes "i < length xss" and "mset ys + A = mset (xss ! i) + B"
  shows "mset (concat (xss[i := ys])) + A = mset (concat xss) + B"
proof -
  have "(mset (concat (xss[i := ys])) + A) + mset (xss ! i) =
        (mset (concat (xss[i := ys])) + mset (xss ! i)) + A"
    by (simp only: ac_simps)
  also have "\<dots> = mset (concat xss) + (mset ys + A)"
    by (simp only: mset_concat_update [OF assms(1)] add.assoc)
  also have "\<dots> = (mset (concat xss) + B) + mset (xss ! i)"
    unfolding assms(2) by (simp only: ac_simps)
  finally show ?thesis
    by (simp only: add_right_cancel)
qed

lemma set_concat_nth: "x \<in> set (concat xss) \<longleftrightarrow> (\<exists>i < length xss. x \<in> set (xss ! i))"
  unfolding set_concat UN_iff Bex_def in_set_conv_nth [of _ xss] by auto

lemma nth_update_if: "i < length xs \<Longrightarrow> xs[i := y] ! j = (if i = j then y else xs ! j)"
  by (auto simp: nth_list_update)

lemma mset_take_drop_nth:
  "n < length xs \<Longrightarrow> mset (take n xs @ drop (Suc n) xs) + {#xs ! n#} = mset xs"
  by (induction xs arbitrary: n) (auto split: nat.splits simp: nth_Cons)

lemma subset_add_mset: "A \<subseteq># B \<Longrightarrow> A \<subseteq># add_mset x B"
  by (auto simp: subseteq_mset_def le_SucI)

lemma option_eq_by_Some: "(\<And>v. a = Some v \<longleftrightarrow> b = Some v) \<Longrightarrow> a = b"
  by (cases a; cases b) auto

end
