(* ===== verification/Array_Heap.thy ===== *)
theory Array_Heap
  imports CRuby_Prelude
begin

text \<open>
  The arrays of \<^verbatim>\<open>src/ruby/array.c\<close> as objects in a heap. An array has a length, a pointer into a
  buffer and either a capacity or, after its elements were shared by \<^verbatim>\<open>shift\<close>, a slice or \<^verbatim>\<open>replace\<close>, a
  reference to the root that keeps the common buffer; \<^verbatim>\<open>rb_ary_modify\<close> copies a shared buffer before the
  first write. This theory holds the heap, the memory primitives of \<^verbatim>\<open>src/ruby/gc.c\<close> and
  \<^verbatim>\<open>src/ruby/ruby.h\<close> with their failures, the invariant and the laws that the operations in
  \<^verbatim>\<open>Array_Core\<close> and \<^verbatim>\<open>Array_More\<close> rest on.

  Memory that is allocated and not yet written holds the arbitrary value \<^verbatim>\<open>junk\<close>. An access outside a
  buffer, or through a pointer whose buffer was released, is the error \<^verbatim>\<open>OutOfBounds\<close>. Buffers are never
  reclaimed by the collector. A Ruby value is nil, a reference to an array or another object.
\<close>

section \<open>Data\<close>

datatype 'o rval = Qnil | AryRef nat | Obj 'o

datatype aux = Capa int | Shared nat

record rarray =
  ary_len :: int
  ary_ptr :: "(nat \<times> nat) option"
  ary_aux :: aux
  frozen :: bool
  tmplock :: bool
  tainted :: bool

text \<open>
  \<^verbatim>\<open>roots\<close> are the arrays that \<^verbatim>\<open>ary_make_shared\<close> creates; no Ruby value refers to them. All three maps
  use object numbers below \<^verbatim>\<open>fresh\<close>.
\<close>

record 'o heap =
  arys :: "nat \<Rightarrow> rarray option"
  roots :: "nat \<Rightarrow> rarray option"
  bufs :: "nat \<Rightarrow> 'o rval list option"
  fresh :: nat
  junk :: "'o rval"
  safe_level :: nat

definition ARY_DEFAULT_SIZE :: int where
  "ARY_DEFAULT_SIZE = 16"

text \<open>The union member \<^verbatim>\<open>aux.capa\<close>; of a shared array it reads the reference.\<close>

definition capa :: "rarray \<Rightarrow> int" where
  "capa r = (case ary_aux r of Capa c \<Rightarrow> c | Shared s \<Rightarrow> int s)"

definition elts_shared :: "rarray \<Rightarrow> bool" where
  "elts_shared r = (case ary_aux r of Capa _ \<Rightarrow> False | Shared _ \<Rightarrow> True)"

section \<open>Memory\<close>

text \<open>The bytes a process can be given: the 47-bit user address space.\<close>

definition address_space :: int where
  "address_space = 2 ^ 47"

text \<open>
  \<^verbatim>\<open>ruby_xmalloc\<close> and \<^verbatim>\<open>ruby_xrealloc\<close> of \<^verbatim>\<open>n\<close> cells: \<^verbatim>\<open>sizeof(VALUE)*n\<close> wraps, a negative size is refused
  with the first error, a size the system does not have with NoMemError.
\<close>

definition alloc_cells :: "rb_error \<Rightarrow> int \<Rightarrow> rb_error + nat" where
  "alloc_cells neg n =
     (let bytes = int64 (8 * n)
      in if bytes < 0 then Inl neg
         else if bytes \<ge> address_space then Inl NoMemError
         else Inr (nat bytes div 8))"

definition ALLOC_N :: "'o heap \<Rightarrow> int \<Rightarrow> rb_error + 'o heap \<times> nat" where
  "ALLOC_N h n =
     bindR (alloc_cells NoMemError n) (\<lambda>k.
       Inr (h\<lparr>bufs := (bufs h)(fresh h := Some (replicate k (junk h))), fresh := Suc (fresh h)\<rparr>, fresh h))"

definition with_ary :: "'o heap \<Rightarrow> nat \<Rightarrow> (rarray \<Rightarrow> rb_error + 'b) \<Rightarrow> rb_error + 'b" where
  "with_ary h a k = (case arys h a of None \<Rightarrow> Inl TypeError | Some r \<Rightarrow> k r)"

definition upd_ary :: "'o heap \<Rightarrow> nat \<Rightarrow> (rarray \<Rightarrow> rarray) \<Rightarrow> 'o heap" where
  "upd_ary h a f = h\<lparr>arys := (arys h)(a := map_option f (arys h a))\<rparr>"

definition set_len :: "'o heap \<Rightarrow> nat \<Rightarrow> int \<Rightarrow> 'o heap" where
  "set_len h a n = upd_ary h a (\<lambda>r. r\<lparr>ary_len := n\<rparr>)"

text \<open>
  \<^verbatim>\<open>REALLOC_N(RARRAY(ary)->ptr, VALUE, n)\<close>: the cells move to a new buffer and the old one is gone;
  only the start of a buffer can be reallocated.
\<close>

definition REALLOC_N :: "'o heap \<Rightarrow> nat \<Rightarrow> int \<Rightarrow> rb_error + 'o heap" where
  "REALLOC_N h a n =
     with_ary h a (\<lambda>r.
       case ary_ptr r of
         None \<Rightarrow>
           if int64 (8 * n) < 0 then Inl ArgError
           else bindR (ALLOC_N h n) (\<lambda>(h, b). Inr (upd_ary h a (\<lambda>r. r\<lparr>ary_ptr := Some (b, 0)\<rparr>)))
       | Some (b, off) \<Rightarrow>
           (case bufs h b of
              None \<Rightarrow> Inl OutOfBounds
            | Some cells \<Rightarrow>
                if off \<noteq> 0 then Inl OutOfBounds
                else bindR (alloc_cells ArgError n) (\<lambda>k.
                  Inr (upd_ary
                    (h\<lparr>bufs := (bufs h)(b := None,
                         fresh h := Some (take k cells @ replicate (k - length cells) (junk h))),
                       fresh := Suc (fresh h)\<rparr>)
                    a (\<lambda>r. r\<lparr>ary_ptr := Some (fresh h, 0)\<rparr>)))))"

definition resize :: "'o heap \<Rightarrow> nat \<Rightarrow> int \<Rightarrow> rb_error + 'o heap" where
  "resize h a n = bindR (REALLOC_N h a n) (\<lambda>h. Inr (upd_ary h a (\<lambda>r. r\<lparr>ary_aux := Capa n\<rparr>)))"

text \<open>Reading \<^verbatim>\<open>n\<close> cells and writing a list of cells at \<^verbatim>\<open>RARRAY(ary)->ptr + i\<close>.\<close>

definition read_at :: "'o heap \<Rightarrow> nat \<Rightarrow> int \<Rightarrow> int \<Rightarrow> rb_error + 'o rval list" where
  "read_at h a i n =
     with_ary h a (\<lambda>r.
       if n \<le> 0 then Inr []
       else case ary_ptr r of
         None \<Rightarrow> Inl OutOfBounds
       | Some (b, off) \<Rightarrow>
           (case bufs h b of
              None \<Rightarrow> Inl OutOfBounds
            | Some cells \<Rightarrow>
                if 0 \<le> int off + i \<and> int off + i + n \<le> int (length cells)
                then Inr (take (nat n) (drop (nat (int off + i)) cells))
                else Inl OutOfBounds))"

definition write_at :: "'o heap \<Rightarrow> nat \<Rightarrow> int \<Rightarrow> 'o rval list \<Rightarrow> rb_error + 'o heap" where
  "write_at h a i vs =
     with_ary h a (\<lambda>r.
       if vs = [] then Inr h
       else case ary_ptr r of
         None \<Rightarrow> Inl OutOfBounds
       | Some (b, off) \<Rightarrow>
           (case bufs h b of
              None \<Rightarrow> Inl OutOfBounds
            | Some cells \<Rightarrow>
                let k = nat (int off + i)
                in if 0 \<le> int off + i \<and> int off + i + int (length vs) \<le> int (length cells)
                   then Inr (h\<lparr>bufs := (bufs h)(b := Some (take k cells @ vs @ drop (k + length vs) cells))\<rparr>)
                   else Inl OutOfBounds))"

text \<open>
  \<^verbatim>\<open>memfill\<close> and \<^verbatim>\<open>rb_mem_clear\<close> store the same value \<^verbatim>\<open>size\<close> times, \<^verbatim>\<open>while (size--)\<close>: a negative size counts
  down through the whole range of a \<^verbatim>\<open>long\<close> and leaves every buffer.
\<close>

definition memfill :: "'o heap \<Rightarrow> nat \<Rightarrow> int \<Rightarrow> int \<Rightarrow> 'o rval \<Rightarrow> rb_error + 'o heap" where
  "memfill h a i n val = (if n < 0 then Inl OutOfBounds else write_at h a i (replicate (nat n) val))"

definition rb_mem_clear :: "'o heap \<Rightarrow> nat \<Rightarrow> int \<Rightarrow> int \<Rightarrow> rb_error + 'o heap" where
  "rb_mem_clear h a i n = (if n < 0 then Inl OutOfBounds else write_at h a i (replicate (nat n) Qnil))"

section \<open>Copy on write\<close>

definition rb_ary_modify_check :: "'o heap \<Rightarrow> nat \<Rightarrow> rb_error + unit" where
  "rb_ary_modify_check h a =
     with_ary h a (\<lambda>r.
       if frozen r then Inl FrozenError
       else if tmplock r then Inl TypeError
       else if \<not> tainted r \<and> safe_level h \<ge> 4 then Inl SecurityError
       else Inr ())"

definition rb_ary_modify :: "'o heap \<Rightarrow> nat \<Rightarrow> rb_error + 'o heap" where
  "rb_ary_modify h a =
     bindR (rb_ary_modify_check h a) (\<lambda>_.
       with_ary h a (\<lambda>r.
         if elts_shared r
         then bindR (ALLOC_N h (ary_len r)) (\<lambda>(h1, b).
                bindR (read_at h1 a 0 (ary_len r)) (\<lambda>vs.
                  let h2 = upd_ary h1 a (\<lambda>r. r\<lparr>ary_aux := Capa (ary_len r), ary_ptr := Some (b, 0)\<rparr>)
                  in write_at h2 a 0 vs))
         else Inr h))"

definition ary_make_shared :: "'o heap \<Rightarrow> nat \<Rightarrow> rb_error + 'o heap" where
  "ary_make_shared h a =
     with_ary h a (\<lambda>r.
       if elts_shared r then Inr h
       else let s = fresh h;
                shared = \<lparr>ary_len = ary_len r, ary_ptr = ary_ptr r, ary_aux = Capa (capa r),
                          frozen = False, tmplock = False, tainted = 3 \<le> safe_level h\<rparr>
            in Inr (upd_ary (h\<lparr>roots := (roots h)(s := Some shared), fresh := Suc s\<rparr>)
                      a (\<lambda>r. r\<lparr>ary_aux := Shared s\<rparr>)))"

definition rb_ary_freeze :: "'o heap \<Rightarrow> nat \<Rightarrow> 'o heap" where
  "rb_ary_freeze h a = upd_ary h a (\<lambda>r. r\<lparr>frozen := True\<rparr>)"

definition rb_ary_frozen_p :: "'o heap \<Rightarrow> nat \<Rightarrow> rb_error + bool" where
  "rb_ary_frozen_p h a = with_ary h a (\<lambda>r. Inr (frozen r \<or> tmplock r))"

section \<open>Allocation\<close>

definition new_obj :: "'o heap \<Rightarrow> rarray \<Rightarrow> 'o heap \<times> nat" where
  "new_obj h r = (h\<lparr>arys := (arys h)(fresh h := Some r), fresh := Suc (fresh h)\<rparr>, fresh h)"

definition rb_ary_s_alloc :: "'o heap \<Rightarrow> 'o heap \<times> nat" where
  "rb_ary_s_alloc h =
     new_obj h \<lparr>ary_len = 0, ary_ptr = None, ary_aux = Capa 0,
                frozen = False, tmplock = False, tainted = 3 \<le> safe_level h\<rparr>"

definition ary_new :: "'o heap \<Rightarrow> int \<Rightarrow> rb_error + 'o heap \<times> nat" where
  "ary_new h len =
     (let (h, a) = rb_ary_s_alloc h
      in if len < 0 then Inl ArgError
         else if len > 0 \<and> (8 * len) mod 2 ^ 64 \<le> len then Inl ArgError
         else let len = (if len = 0 then 1 else len)
              in bindR (ALLOC_N h len) (\<lambda>(h, b).
                   Inr (upd_ary h a (\<lambda>r. r\<lparr>ary_ptr := Some (b, 0), ary_aux := Capa len\<rparr>), a)))"

definition rb_ary_new2 :: "'o heap \<Rightarrow> int \<Rightarrow> rb_error + 'o heap \<times> nat" where
  "rb_ary_new2 = ary_new"

definition rb_ary_new :: "'o heap \<Rightarrow> rb_error + 'o heap \<times> nat" where
  "rb_ary_new h = rb_ary_new2 h ARY_DEFAULT_SIZE"

definition rb_ary_new4 :: "'o heap \<Rightarrow> 'o rval list \<Rightarrow> rb_error + 'o heap \<times> nat" where
  "rb_ary_new4 h elts =
     bindR (rb_ary_new2 h (int (length elts))) (\<lambda>(h, a).
       bindR (write_at h a 0 elts) (\<lambda>h. Inr (set_len h a (int (length elts)), a)))"

definition rb_ary_new3 :: "'o heap \<Rightarrow> 'o rval list \<Rightarrow> rb_error + 'o heap \<times> nat" where
  "rb_ary_new3 h args =
     bindR (rb_ary_new2 h (int (length args))) (\<lambda>(h, a).
       bindR (write_at h a 0 args) (\<lambda>h. Inr (set_len h a (int (length args)), a)))"

definition rb_assoc_new :: "'o heap \<Rightarrow> 'o rval \<Rightarrow> 'o rval \<Rightarrow> rb_error + 'o heap \<times> nat" where
  "rb_assoc_new h car cdr =
     bindR (rb_ary_new2 h 2) (\<lambda>(h, a).
       bindR (write_at h a 0 [car]) (\<lambda>h.
         bindR (write_at h a 1 [cdr]) (\<lambda>h. Inr (set_len h a 2, a))))"

definition rb_ary_s_create :: "'o heap \<Rightarrow> 'o rval list \<Rightarrow> rb_error + 'o heap \<times> nat" where
  "rb_ary_s_create h argv =
     (let (h, a) = rb_ary_s_alloc h; argc = int (length argv)
      in bindR (if argc > 0
                then bindR (ALLOC_N h argc) (\<lambda>(h, b).
                       write_at (upd_ary h a (\<lambda>r. r\<lparr>ary_ptr := Some (b, 0)\<rparr>)) a 0 argv)
                else Inr h)
           (\<lambda>h. Inr (upd_ary h a (\<lambda>r. r\<lparr>ary_len := argc, ary_aux := Capa argc\<rparr>), a)))"

section \<open>What an array holds, and the invariant\<close>

definition elems :: "'o heap \<Rightarrow> nat \<Rightarrow> 'o rval list" where
  "elems h a =
     (case arys h a of
        None \<Rightarrow> []
      | Some r \<Rightarrow>
          (case ary_ptr r of
             None \<Rightarrow> []
           | Some (b, off) \<Rightarrow>
               (case bufs h b of
                  None \<Rightarrow> []
                | Some cells \<Rightarrow> take (nat (ary_len r)) (drop off cells))))"

definition buf_of :: "rarray \<Rightarrow> nat option" where
  "buf_of r = map_option fst (ary_ptr r)"

text \<open>
  An array of its own owns a whole buffer and its capacity is the size of it; a shared array reads a part
  of the buffer of its root.
\<close>

definition ary_ok :: "'o heap \<Rightarrow> rarray \<Rightarrow> bool" where
  "ary_ok h r \<longleftrightarrow>
     0 \<le> ary_len r \<and>
     (case ary_ptr r of
        None \<Rightarrow> ary_len r = 0 \<and> (case ary_aux r of Capa c \<Rightarrow> c = 0 | Shared s \<Rightarrow> True)
      | Some (b, off) \<Rightarrow>
          (case bufs h b of
             None \<Rightarrow> False
           | Some cells \<Rightarrow>
               int off + ary_len r \<le> int (length cells) \<and>
               (case ary_aux r of
                  Capa c \<Rightarrow> off = 0 \<and> c = int (length cells)
                | Shared s \<Rightarrow> (\<exists>root. roots h s = Some root \<and> buf_of root = Some b))))"

definition exclusive :: "'o heap \<Rightarrow> bool" where
  "exclusive h \<longleftrightarrow>
     (\<forall>a r b. arys h a = Some r \<and> buf_of r = Some b \<and> \<not> elts_shared r \<longrightarrow>
        (\<forall>a' r'. arys h a' = Some r' \<and> buf_of r' = Some b \<longrightarrow> a' = a) \<and>
        (\<forall>s root. roots h s = Some root \<longrightarrow> buf_of root \<noteq> Some b))"

definition heap_ok :: "'o heap \<Rightarrow> bool" where
  "heap_ok h \<longleftrightarrow>
     (\<forall>a r. arys h a = Some r \<longrightarrow> ary_ok h r) \<and> exclusive h \<and>
     (\<forall>s root b. roots h s = Some root \<and> buf_of root = Some b \<longrightarrow> bufs h b \<noteq> None) \<and>
     (\<forall>i \<ge> fresh h. arys h i = None \<and> roots h i = None \<and> bufs h i = None)"

text \<open>An array that is not shared, with its length and its cells.\<close>

definition owned :: "'o heap \<Rightarrow> nat \<Rightarrow> nat \<Rightarrow> 'o rval list \<Rightarrow> bool" where
  "owned h a n cells \<longleftrightarrow>
     heap_ok h \<and> n \<le> length cells \<and>
     (\<exists>r. arys h a = Some r \<and> ary_len r = int n \<and> ary_aux r = Capa (int (length cells)) \<and>
          (case ary_ptr r of None \<Rightarrow> cells = [] | Some (b, off) \<Rightarrow> off = 0 \<and> bufs h b = Some cells))"

definition flags :: "rarray \<Rightarrow> bool \<times> bool \<times> bool" where
  "flags r = (frozen r, tmplock r, tainted r)"

definition view :: "'o heap \<Rightarrow> nat \<Rightarrow> ('o rval list \<times> (bool \<times> bool \<times> bool)) option" where
  "view h a = map_option (\<lambda>r. (elems h a, flags r)) (arys h a)"

text \<open>What an operation on \<^verbatim>\<open>a\<close> leaves alone: the contents and flags of every other array, the flags of \<^verbatim>\<open>a\<close>.\<close>

definition frame :: "nat \<Rightarrow> 'o heap \<Rightarrow> 'o heap \<Rightarrow> bool" where
  "frame a h h' \<longleftrightarrow>
     (\<forall>a'. a' \<noteq> a \<and> arys h a' \<noteq> None \<longrightarrow> view h' a' = view h a') \<and>
     (arys h a \<noteq> None \<longrightarrow> map_option flags (arys h' a) = map_option flags (arys h a)) \<and>
     safe_level h' = safe_level h"

lemma frame_refl [simp]: "frame a h h"
  by (simp add: frame_def)

lemma frame_trans: "frame a h h1 \<Longrightarrow> frame a h1 h2 \<Longrightarrow> frame a h h2"
proof -
  assume f: "frame a h h1" "frame a h1 h2"
  have n: "arys k x = None \<longleftrightarrow> view k x = None" for k :: "'a heap" and x by (simp add: view_def)
  have "view h2 a' = view h a'" if "a' \<noteq> a" "arys h a' \<noteq> None" for a'
    using f that unfolding frame_def n by simp
  moreover have "map_option flags (arys h2 a) = map_option flags (arys h a)" if "arys h a \<noteq> None"
  proof -
    have e: "map_option flags (arys h1 a) = map_option flags (arys h a)" using f(1) that by (simp add: frame_def)
    then have "arys h1 a \<noteq> None" using that by (cases "arys h1 a") auto
    then show ?thesis using f(2) e by (simp add: frame_def)
  qed
  ultimately show ?thesis using f by (simp add: frame_def)
qed

lemma owned_ok: "owned h a n cells \<Longrightarrow> heap_ok h"
  by (simp add: owned_def)

lemma owned_elems: "owned h a n cells \<Longrightarrow> elems h a = take n cells"
  by (auto simp: owned_def elems_def split: option.splits)

lemma owned_ary: "owned h a n cells \<Longrightarrow> \<exists>r. arys h a = Some r \<and> ary_len r = int n \<and> capa r = int (length cells) \<and> \<not> elts_shared r"
  by (auto simp: owned_def capa_def elts_shared_def)

lemma alloc_cells_ok: "0 \<le> n \<Longrightarrow> n < 2 ^ 44 \<Longrightarrow> alloc_cells e n = Inr (nat n)"
  by (simp add: alloc_cells_def address_space_def Let_def nat_mult_distrib)

lemma exclusive_upd [simp]:
  "exclusive (h\<lparr>bufs := B\<rparr>) = exclusive h" "exclusive (h\<lparr>fresh := k\<rparr>) = exclusive h"
  by (cases h; simp only: exclusive_def heap.simps)+

lemma heap_ok_ary: "heap_ok h \<Longrightarrow> arys h a = Some r \<Longrightarrow> ary_ok h r"
  by (simp add: heap_ok_def)

lemma heap_ok_root: "heap_ok h \<Longrightarrow> roots h s = Some root \<Longrightarrow> buf_of root = Some b \<Longrightarrow> \<exists>cells. bufs h b = Some cells"
  unfolding heap_ok_def by blast

lemma heap_ok_fresh: "heap_ok h \<Longrightarrow> arys h i = Some r \<Longrightarrow> i < fresh h"
  "heap_ok h \<Longrightarrow> roots h i = Some r \<Longrightarrow> i < fresh h"
  "heap_ok h \<Longrightarrow> bufs h i = Some cells \<Longrightarrow> i < fresh h"
  unfolding heap_ok_def by (metis not_le option.distinct(1))+

lemma ary_ok_buf: "ary_ok h r \<Longrightarrow> ary_ptr r = Some (b, off) \<Longrightarrow> \<exists>cells. bufs h b = Some cells"
  by (auto simp: ary_ok_def split: option.splits)

lemma ary_ok_same:
  "ary_ok h r \<Longrightarrow> ary_ptr r' = ary_ptr r \<Longrightarrow> ary_len r' = ary_len r \<Longrightarrow> ary_aux r' = ary_aux r \<Longrightarrow> ary_ok h r'"
  by (simp only: ary_ok_def)

text \<open>An array stays well formed when its buffer keeps its size and its root stays.\<close>

lemma ary_ok_cong:
  assumes ok: "ary_ok h r"
    and b: "\<And>b cells. buf_of r = Some b \<Longrightarrow> bufs h b = Some cells \<Longrightarrow>
              \<exists>cells'. bufs h' b = Some cells' \<and> length cells' = length cells"
    and s: "\<And>s root. roots h s = Some root \<Longrightarrow> roots h' s = Some root"
  shows "ary_ok h' r"
proof (cases "ary_ptr r")
  case None
  then show ?thesis using ok by (simp add: ary_ok_def)
next
  case (Some p)
  obtain b' off where p: "p = (b', off)" by force
  obtain cells where c: "bufs h b' = Some cells" using ary_ok_buf [OF ok] Some p by blast
  obtain cells' where c': "bufs h' b' = Some cells'" "length cells' = length cells"
    using b [OF _ c] Some p by (auto simp: buf_of_def)
  show ?thesis
  proof (cases "ary_aux r")
    case (Capa x1)
    then show ?thesis using ok Some p c c' by (simp add: ary_ok_def)
  next
    case (Shared x2)
    then show ?thesis using ok Some p c c' s by (auto simp: ary_ok_def)
  qed
qed

subsection \<open>Writes\<close>

lemma exclusive_other:
  "heap_ok h \<Longrightarrow> arys h a = Some r \<Longrightarrow> ary_ptr r = Some (b, off) \<Longrightarrow> \<not> elts_shared r \<Longrightarrow>
   arys h a' = Some r' \<Longrightarrow> ary_ptr r' = Some (b, off') \<Longrightarrow> a' = a"
  unfolding heap_ok_def exclusive_def buf_of_def by (metis fst_conv option.simps(9))

lemma owned_write:
  assumes o: "owned h a n cells" and i: "i + length vs \<le> length cells"
  shows "\<exists>h'. write_at h a (int i) vs = Inr h' \<and>
           owned h' a n (take i cells @ vs @ drop (i + length vs) cells) \<and> frame a h h'"
proof (cases "vs = []")
  case True
  then show ?thesis using o by (auto simp: write_at_def with_ary_def owned_def)
next
  case False
  obtain r where r: "arys h a = Some r" "ary_len r = int n" "ary_aux r = Capa (int (length cells))"
    "case ary_ptr r of None \<Rightarrow> cells = [] | Some (b, off) \<Rightarrow> off = 0 \<and> bufs h b = Some cells"
    and ok: "heap_ok h" "n \<le> length cells"
    using o by (auto simp: owned_def)
  have "cells \<noteq> []" using i False by auto
  then obtain b where b: "ary_ptr r = Some (b, 0)" "bufs h b = Some cells"
    using r(4) by (auto split: option.splits)
  have ns: "\<not> elts_shared r" using r(3) by (simp add: elts_shared_def)
  let ?new = "take i cells @ vs @ drop (i + length vs) cells"
  let ?h = "h\<lparr>bufs := (bufs h)(b := Some ?new)\<rparr>"
  have w: "write_at h a (int i) vs = Inr ?h"
    using False r(1) b i by (simp add: write_at_def with_ary_def)
  have len: "length ?new = length cells" using i by simp
  have "ary_ok ?h r'" if "arys h a' = Some r'" for a' r'
    using heap_ok_ary [OF ok(1) that] by (rule ary_ok_cong) (use b(2) len in auto)
  moreover have "exclusive ?h" using ok(1) by (simp add: heap_ok_def)
  ultimately have "heap_ok ?h" using ok(1) b(2) by (auto simp: heap_ok_def)
  moreover have "elems ?h a' = elems h a'" if "a' \<noteq> a" for a'
    using exclusive_other [OF ok(1) r(1) b(1) ns] that by (auto simp: elems_def split: option.splits)
  ultimately show ?thesis
    using w r b ok len by (auto simp: owned_def frame_def view_def)
qed

text \<open>
  An update of one array preserves the invariant when the new description is well formed and its buffer
  is shared with no array in a way that breaks exclusive ownership.
\<close>

lemma heap_ok_update:
  assumes ok: "heap_ok h" and a: "arys h a \<noteq> None" and r': "ary_ok h' r'"
    and arys: "arys h' = (arys h)(a := Some r')"
    and roots: "roots h' = roots h" and fr: "fresh h \<le> fresh h'"
    and bufs: "\<And>b cells a' r. a' \<noteq> a \<Longrightarrow> arys h a' = Some r \<Longrightarrow> buf_of r = Some b \<Longrightarrow> bufs h b = Some cells \<Longrightarrow>
                 bufs h' b = Some cells"
    and rb: "\<And>s root b. roots h s = Some root \<Longrightarrow> buf_of root = Some b \<Longrightarrow> bufs h' b \<noteq> None"
    and dead: "\<And>i. fresh h' \<le> i \<Longrightarrow> bufs h' i = None"
    and ex: "\<And>b a' r. buf_of r' = Some b \<Longrightarrow> a' \<noteq> a \<Longrightarrow> arys h a' = Some r \<Longrightarrow> buf_of r = Some b \<Longrightarrow>
               elts_shared r' \<and> elts_shared r"
    and exr: "\<And>b s root. buf_of r' = Some b \<Longrightarrow> roots h s = Some root \<Longrightarrow> buf_of root = Some b \<Longrightarrow> elts_shared r'"
  shows "heap_ok h'"
proof -
  have "ary_ok h' x" if "arys h' a' = Some x" for a' x
  proof (cases "a' = a")
    case True
    then show ?thesis using that r' arys by simp
  next
    case False
    then have "arys h a' = Some x" using that arys by simp
    from heap_ok_ary [OF ok this] show ?thesis
      by (rule ary_ok_cong) (use bufs [OF False \<open>arys h a' = Some x\<close>] roots in auto)
  qed
  moreover have "exclusive h'"
    unfolding exclusive_def
  proof (intro allI impI conjI)
    fix a1 r1 b a2 r2
    assume 1: "arys h' a1 = Some r1 \<and> buf_of r1 = Some b \<and> \<not> elts_shared r1"
      and 2: "arys h' a2 = Some r2 \<and> buf_of r2 = Some b"
    show "a2 = a1"
      using 1 2 ex [of b a2 r2] ex [of b a1 r1] ok arys
      by (cases "a1 = a"; cases "a2 = a") (auto simp: heap_ok_def exclusive_def)
  next
    fix a1 r1 b s root
    assume 1: "arys h' a1 = Some r1 \<and> buf_of r1 = Some b \<and> \<not> elts_shared r1" and 2: "roots h' s = Some root"
    show "buf_of root \<noteq> Some b"
      using 1 2 exr [of b s root] ok arys roots
      by (cases "a1 = a") (auto simp: heap_ok_def exclusive_def)
  qed
  moreover have "arys h' i = None \<and> roots h' i = None \<and> bufs h' i = None" if "fresh h' \<le> i" for i
    using that fr ok a arys roots dead by (auto simp: heap_ok_def)
  moreover have "bufs h' b \<noteq> None" if "roots h' s = Some root \<and> buf_of root = Some b" for s root b
    using that rb roots by auto
  ultimately show ?thesis unfolding heap_ok_def by blast
qed

lemma elems_cong:
  "arys h' a = arys h a \<Longrightarrow>
   (\<And>r b. arys h a = Some r \<Longrightarrow> buf_of r = Some b \<Longrightarrow> bufs h' b = bufs h b) \<Longrightarrow> elems h' a = elems h a"
  by (auto simp: elems_def buf_of_def split: option.splits)

lemma owned_set_len:
  assumes o: "owned h a n cells" and m: "m \<le> length cells"
  shows "owned (set_len h a (int m)) a m cells \<and> frame a h (set_len h a (int m))"
proof -
  obtain r where r: "arys h a = Some r" "ary_len r = int n" "ary_aux r = Capa (int (length cells))"
    "case ary_ptr r of None \<Rightarrow> cells = [] | Some (b, off) \<Rightarrow> off = 0 \<and> bufs h b = Some cells"
    and ok: "heap_ok h"
    using o by (auto simp: owned_def)
  let ?h = "set_len h a (int m)" and ?r = "r\<lparr>ary_len := int m\<rparr>"
  have h: "arys ?h = (arys h)(a := Some ?r)" "bufs ?h = bufs h" "roots ?h = roots h" "fresh ?h = fresh h"
    "safe_level ?h = safe_level h"
    using r(1) by (simp_all add: set_len_def upd_ary_def)
  have b: "buf_of ?r = buf_of r" "elts_shared ?r = elts_shared r" by (simp_all add: buf_of_def elts_shared_def)
  have ns: "\<not> elts_shared r" using r(3) by (simp add: elts_shared_def)
  have "heap_ok ?h"
  proof (rule heap_ok_update [OF ok, of a _ ?r])
    show "ary_ok ?h ?r" using r m h by (auto simp: ary_ok_def split: option.splits)
  next
    fix x y z assume "buf_of ?r = Some x" "y \<noteq> a" "arys h y = Some z" "buf_of z = Some x"
    then show "elts_shared ?r \<and> elts_shared z"
      using ok r(1) ns b unfolding heap_ok_def exclusive_def by metis
  next
    fix x y z assume "buf_of ?r = Some x" "roots h y = Some z" "buf_of z = Some x"
    then show "elts_shared ?r" using ok r(1) ns b unfolding heap_ok_def exclusive_def by metis
  qed (use h r(1) ok in \<open>auto simp: heap_ok_def\<close>)
  moreover have "elems ?h a' = elems h a'" if "a' \<noteq> a" for a'
    using that h by (intro elems_cong) auto
  ultimately show ?thesis
    using h r m by (auto simp: owned_def frame_def view_def flags_def split: option.splits)
qed

subsection \<open>Moving an array to a buffer of its own\<close>

lemma owned_fresh:
  assumes ok: "heap_ok h" and a: "arys h a = Some r"
    and h': "arys h' = (arys h)(a := Some r')" "roots h' = roots h" "fresh h' = Suc (fresh h)"
      "safe_level h' = safe_level h" "bufs h' (fresh h) = Some cells"
    and bufs: "\<And>b. b \<noteq> fresh h \<Longrightarrow> bufs h' b = bufs h b \<or> bufs h' b = None \<and> \<not> elts_shared r \<and> buf_of r = Some b"
    and r': "ary_ptr r' = Some (fresh h, 0)" "ary_aux r' = Capa (int (length cells))" "ary_len r' = int n"
      "n \<le> length cells" "flags r' = flags r"
  shows "owned h' a n cells \<and> frame a h h'"
proof -
  have new: "buf_of x \<noteq> Some (fresh h)" if "arys h a' = Some x" for a' x
  proof
    assume "buf_of x = Some (fresh h)"
    then obtain off where "ary_ptr x = Some (fresh h, off)" by (auto simp: buf_of_def)
    then show False
      using ary_ok_buf [OF heap_ok_ary [OF ok that]] heap_ok_fresh(3) [OF ok] by blast
  qed
  have newr: "buf_of root \<noteq> Some (fresh h)" if "roots h s = Some root" for s root
    using heap_ok_root [OF ok that] heap_ok_fresh(3) [OF ok, of "fresh h"] by blast
  have keep: "bufs h' b = bufs h b" if "a' \<noteq> a" "arys h a' = Some x" "buf_of x = Some b" for a' x b
    using bufs [of b] new [OF that(2)] that ok a unfolding heap_ok_def exclusive_def by metis
  have "heap_ok h'"
  proof (rule heap_ok_update [OF ok, of a _ r'])
    show "ary_ok h' r'" using r' h'(5) by (simp add: ary_ok_def)
  next
    fix b cells x y assume "x \<noteq> a" "arys h x = Some y" "buf_of y = Some b" "bufs h b = Some cells"
    then show "bufs h' b = Some cells" using keep by simp
  next
    fix s root b assume "roots h s = Some root" "buf_of root = Some b"
    then have "bufs h' b = bufs h b"
      using bufs [of b] newr ok a unfolding heap_ok_def exclusive_def by metis
    then show "bufs h' b \<noteq> None"
      using \<open>roots h s = Some root\<close> \<open>buf_of root = Some b\<close> ok by (auto simp: heap_ok_def)
  next
    fix i assume "fresh h' \<le> i"
    then show "bufs h' i = None" using bufs [of i] h'(3) ok by (auto simp: heap_ok_def)
  next
    fix b x y assume "buf_of r' = Some b" "arys h x = Some y" "buf_of y = Some b"
    then show "elts_shared r' \<and> elts_shared y" using new r'(1) by (auto simp: buf_of_def)
  next
    fix b x y assume "buf_of r' = Some b" "roots h x = Some y" "buf_of y = Some b"
    then show "elts_shared r'" using newr r'(1) by (auto simp: buf_of_def)
  qed (use h' a in auto)
  moreover have "elems h' a' = elems h a'" if "a' \<noteq> a" for a'
    using that h' keep by (intro elems_cong) auto
  ultimately show ?thesis
    using h' a r' by (auto simp: owned_def frame_def view_def)
qed

lemma owned_resize:
  assumes o: "owned h a n cells" and m: "n \<le> m" "m < 2 ^ 44"
  shows "\<exists>h'. resize h a (int m) = Inr h' \<and>
           owned h' a n (take m cells @ replicate (m - length cells) (junk h)) \<and> frame a h h'"
proof -
  obtain r where r: "arys h a = Some r" "ary_len r = int n" "ary_aux r = Capa (int (length cells))"
    "case ary_ptr r of None \<Rightarrow> cells = [] | Some (b, off) \<Rightarrow> off = 0 \<and> bufs h b = Some cells"
    and ok: "heap_ok h"
    using o by (auto simp: owned_def)
  let ?new = "take m cells @ replicate (m - length cells) (junk h)"
  have len: "length ?new = m" by simp
  have ac: "alloc_cells e (int m) = Inr m" for e
    using alloc_cells_ok [of "int m" e] m(2) by simp
  have i64: "int64 (8 * int m) = 8 * int m" using m(2) by simp
  have ns: "\<not> elts_shared r" using r(3) by (simp add: elts_shared_def)
  have "\<exists>h' r'. resize h a (int m) = Inr h' \<and> arys h' = (arys h)(a := Some r') \<and> roots h' = roots h \<and>
      fresh h' = Suc (fresh h) \<and> safe_level h' = safe_level h \<and> bufs h' (fresh h) = Some ?new \<and>
      (\<forall>b. b \<noteq> fresh h \<longrightarrow> bufs h' b = bufs h b \<or> bufs h' b = None \<and> buf_of r = Some b) \<and>
      ary_ptr r' = Some (fresh h, 0) \<and> ary_aux r' = Capa (int m) \<and> ary_len r' = int n \<and> flags r' = flags r"
  proof (cases "ary_ptr r")
    case None
    then show ?thesis
      using r ac i64
      by (simp add: resize_def REALLOC_N_def with_ary_def ALLOC_N_def upd_ary_def flags_def)
        (rule exI [of _ "r\<lparr>ary_ptr := Some (fresh h, 0), ary_aux := Capa (int m)\<rparr>"], simp)
  next
    case (Some p)
    then obtain b where "p = (b, 0)" "bufs h b = Some cells" using r(4) by (cases p) auto
    then show ?thesis
      using Some r ac
      by (simp add: resize_def REALLOC_N_def with_ary_def upd_ary_def flags_def buf_of_def)
        (rule exI [of _ "r\<lparr>ary_ptr := Some (fresh h, 0), ary_aux := Capa (int m)\<rparr>"], simp)
  qed
  then obtain h' r' where h': "resize h a (int m) = Inr h'" "arys h' = (arys h)(a := Some r')" "roots h' = roots h"
    "fresh h' = Suc (fresh h)" "safe_level h' = safe_level h" "bufs h' (fresh h) = Some ?new"
    and bf: "\<forall>b. b \<noteq> fresh h \<longrightarrow> bufs h' b = bufs h b \<or> bufs h' b = None \<and> buf_of r = Some b"
    and r': "ary_ptr r' = Some (fresh h, 0)" "ary_aux r' = Capa (int m)" "ary_len r' = int n" "flags r' = flags r"
    by blast
  have "owned h' a n ?new \<and> frame a h h'"
    by (rule owned_fresh [OF ok r(1) h'(2-6)]) (use bf ns r' m len in auto)
  with h'(1) show ?thesis by blast
qed

definition modifiable :: "'o heap \<Rightarrow> nat \<Rightarrow> bool" where
  "modifiable h a \<longleftrightarrow>
     (\<exists>r. arys h a = Some r \<and> \<not> frozen r \<and> \<not> tmplock r \<and> (tainted r \<or> safe_level h < 4))"

lemma ok_elems_length: "heap_ok h \<Longrightarrow> arys h a = Some r \<Longrightarrow> ary_len r = int (length (elems h a))"
  using heap_ok_ary [of h a r] by (auto simp: elems_def ary_ok_def split: option.splits)

lemma ok_read:
  assumes "heap_ok h" "arys h a = Some r" "bufs h' = bufs h \<or> (\<exists>k. bufs h' = (bufs h)(fresh h := k))" "arys h' a = Some r"
  shows "read_at h' a 0 (ary_len r) = Inr (elems h a)"
proof (cases "ary_ptr r")
  case None
  then show ?thesis using heap_ok_ary [OF assms(1,2)] assms by (simp add: read_at_def with_ary_def ary_ok_def elems_def)
next
  case (Some p)
  obtain b off where p: "p = (b, off)" by force
  obtain cells where c: "bufs h b = Some cells"
    using ary_ok_buf [OF heap_ok_ary [OF assms(1,2)]] Some p by blast
  then have "b \<noteq> fresh h" using heap_ok_fresh(3) [OF assms(1)] by blast
  then have "bufs h' b = Some cells" using assms(3) c by auto
  then show ?thesis
    using heap_ok_ary [OF assms(1,2)] assms Some p c
    by (auto simp: read_at_def with_ary_def ary_ok_def elems_def)
qed

lemma rb_ary_modify_check_ok: "modifiable h a \<Longrightarrow> rb_ary_modify_check h a = Inr ()"
  by (auto simp: modifiable_def rb_ary_modify_check_def with_ary_def)

lemma rb_ary_modify_owned:
  assumes ok: "heap_ok h" and m: "modifiable h a" and small: "length (elems h a) < 2 ^ 44"
  shows "\<exists>h' cells. rb_ary_modify h a = Inr h' \<and> owned h' a (length (elems h a)) cells \<and>
           take (length (elems h a)) cells = elems h a \<and> frame a h h'"
proof -
  obtain r where r: "arys h a = Some r" using m by (auto simp: modifiable_def)
  have len: "ary_len r = int (length (elems h a))" by (rule ok_elems_length [OF ok r])
  show ?thesis
  proof (cases "ary_aux r")
    case (Capa c)
    have "\<exists>cells. owned h a (length (elems h a)) cells"
      using heap_ok_ary [OF ok r] ok r len Capa
      by (cases "ary_ptr r") (auto simp: owned_def ary_ok_def split: option.splits)
    then obtain cells where o: "owned h a (length (elems h a)) cells" by blast
    have "rb_ary_modify h a = Inr h"
      using Capa rb_ary_modify_check_ok [OF m] r by (simp add: rb_ary_modify_def with_ary_def elts_shared_def)
    then show ?thesis using o owned_elems [OF o] by auto
  next
    case (Shared s)
    let ?n = "length (elems h a)"
    let ?cells = "replicate ?n (junk h)"
    let ?h1 = "h\<lparr>bufs := (bufs h)(fresh h := Some ?cells), fresh := Suc (fresh h)\<rparr>"
    let ?h2 = "upd_ary ?h1 a (\<lambda>r. r\<lparr>ary_aux := Capa (ary_len r), ary_ptr := Some (fresh h, 0)\<rparr>)"
    have al: "ALLOC_N h (ary_len r) = Inr (?h1, fresh h)"
      using small len alloc_cells_ok [of "ary_len r" NoMemError] by (simp add: ALLOC_N_def)
    have rd: "read_at ?h1 a 0 (ary_len r) = Inr (elems h a)"
      by (rule ok_read [OF ok r]) (use r in auto)
    have "owned ?h2 a ?n ?cells \<and> frame a h ?h2"
      by (rule owned_fresh [OF ok r, where r' = "r\<lparr>ary_aux := Capa (ary_len r), ary_ptr := Some (fresh h, 0)\<rparr>"])
         (use r len in \<open>auto simp: upd_ary_def flags_def\<close>)
    then obtain h' where h': "write_at ?h2 a 0 (elems h a) = Inr h'" "owned h' a ?n (elems h a)" "frame a ?h2 h'"
      using owned_write [of ?h2 a ?n ?cells 0 "elems h a"] by auto
    have "rb_ary_modify h a = Inr h'"
      using Shared rb_ary_modify_check_ok [OF m] r al rd h'(1)
      by (simp add: rb_ary_modify_def with_ary_def elts_shared_def)
    then show ?thesis using h' \<open>owned ?h2 a ?n ?cells \<and> frame a h ?h2\<close> frame_trans by fastforce
  qed
qed

subsection \<open>Sharing and new arrays\<close>

text \<open>Nothing that existed changes: contents and flags of every array stay.\<close>

definition extends :: "'o heap \<Rightarrow> 'o heap \<Rightarrow> bool" where
  "extends h h' \<longleftrightarrow>
     (\<forall>a. arys h a \<noteq> None \<longrightarrow> view h' a = view h a) \<and> safe_level h' = safe_level h"

lemma extends_refl [simp]: "extends h h"
  by (simp add: extends_def)

lemma view_None: "arys h a = None \<longleftrightarrow> view h a = None"
  by (simp add: view_def)

lemma extends_trans: "extends h h1 \<Longrightarrow> extends h1 h2 \<Longrightarrow> extends h h2"
  unfolding extends_def view_None by simp


lemma frame_extends: "frame a h1 h2 \<Longrightarrow> extends h h1 \<Longrightarrow> arys h a = None \<Longrightarrow> extends h h2"
  unfolding extends_def frame_def view_None by metis

lemma extends_elems: "extends h h' \<Longrightarrow> arys h a = Some r \<Longrightarrow> elems h' a = elems h a \<and> (\<exists>r'. arys h' a = Some r' \<and> flags r' = flags r)"
  unfolding extends_def view_def by fastforce

lemma extends_frame: "extends h h' \<Longrightarrow> frame a h h'"
  using extends_elems [of h h' a] by (fastforce simp: frame_def extends_def)

lemma frame_elems: "frame a h h' \<Longrightarrow> a' \<noteq> a \<Longrightarrow> arys h a' = Some r \<Longrightarrow> elems h' a' = elems h a'"
  unfolding frame_def view_def by fastforce

lemma extends_modifiable: "extends h h' \<Longrightarrow> modifiable h a \<Longrightarrow> modifiable h' a"
proof -
  assume e: "extends h h'" and "modifiable h a"
  then obtain r where r: "arys h a = Some r" "\<not> frozen r" "\<not> tmplock r" "tainted r \<or> safe_level h < 4"
    by (auto simp: modifiable_def)
  obtain r' where "arys h' a = Some r'" "flags r' = flags r" using extends_elems [OF e r(1)] by blast
  then show "modifiable h' a" using r e by (auto simp: modifiable_def flags_def extends_def)
qed

lemma frame_modifiable: "frame a h h' \<Longrightarrow> modifiable h a \<Longrightarrow> modifiable h' a"
  unfolding modifiable_def frame_def flags_def by (auto simp: map_option_case split: option.splits)

lemma heap_ok_add:
  assumes ok: "heap_ok h" and r: "ary_ok h r"
    and ex: "\<And>b a' r'. buf_of r = Some b \<Longrightarrow> arys h a' = Some r' \<Longrightarrow> buf_of r' = Some b \<Longrightarrow>
               elts_shared r \<and> elts_shared r'"
    and exr: "\<And>b s root. buf_of r = Some b \<Longrightarrow> roots h s = Some root \<Longrightarrow> buf_of root = Some b \<Longrightarrow> elts_shared r"
    and new: "new_obj h r = (h', a)"
  shows "heap_ok h' \<and> arys h' a = Some r \<and> arys h a = None \<and> extends h h' \<and> bufs h' = bufs h \<and>
         junk h' = junk h"
proof -
  have h': "arys h' = (arys h)(fresh h := Some r)" "bufs h' = bufs h" "roots h' = roots h"
    "fresh h' = Suc (fresh h)" "safe_level h' = safe_level h" "a = fresh h" "junk h' = junk h"
    using new by (auto simp: new_obj_def)
  have none: "arys h (fresh h) = None" using ok by (simp add: heap_ok_def)
  have "ary_ok h' x" if "ary_ok h x" for x
    using that by (rule ary_ok_cong) (use h' in auto)
  then have "ary_ok h' x" if "arys h' a' = Some x" for a' x
    using that h'(1) r heap_ok_ary [OF ok] by (auto split: if_splits)
  moreover have "exclusive h'"
    unfolding exclusive_def
  proof (intro allI impI conjI)
    fix a1 r1 b a2 r2
    assume 1: "arys h' a1 = Some r1 \<and> buf_of r1 = Some b \<and> \<not> elts_shared r1"
      and 2: "arys h' a2 = Some r2 \<and> buf_of r2 = Some b"
    show "a2 = a1"
      using 1 2 ex [of b a2 r2] ex [of b a1 r1] ok h'(1)
      by (cases "a1 = fresh h"; cases "a2 = fresh h") (auto simp: heap_ok_def exclusive_def)
  next
    fix a1 r1 b s root
    assume 1: "arys h' a1 = Some r1 \<and> buf_of r1 = Some b \<and> \<not> elts_shared r1" and 2: "roots h' s = Some root"
    show "buf_of root \<noteq> Some b"
      using 1 2 exr [of b s root] ok h'
      by (cases "a1 = fresh h") (auto simp: heap_ok_def exclusive_def)
  qed
  moreover have "\<forall>i \<ge> fresh h'. arys h' i = None \<and> roots h' i = None \<and> bufs h' i = None"
    using ok h' by (auto simp: heap_ok_def)
  moreover have "\<forall>s root b. roots h' s = Some root \<and> buf_of root = Some b \<longrightarrow> bufs h' b \<noteq> None"
    using ok h' by (auto simp: heap_ok_def)
  ultimately have "heap_ok h'" unfolding heap_ok_def by blast
  moreover have "view h' x = view h x" if "arys h x \<noteq> None" for x
  proof -
    have x: "x \<noteq> fresh h" using that none by auto
    have "elems h' x = elems h x" using x h' by (intro elems_cong) auto
    then show ?thesis using x h' by (simp add: view_def)
  qed
  ultimately show ?thesis using h' none by (simp add: extends_def)
qed

lemma rb_ary_s_alloc_ok:
  assumes ok: "heap_ok h"
  shows "\<exists>h' a r. rb_ary_s_alloc h = (h', a) \<and> heap_ok h' \<and> arys h' a = Some r \<and> arys h a = None \<and>
           extends h h' \<and> junk h' = junk h \<and> flags r = (False, False, 3 \<le> safe_level h) \<and> ary_len r = 0 \<and>
           ary_ptr r = None \<and> ary_aux r = Capa 0"
proof -
  let ?r = "\<lparr>ary_len = 0, ary_ptr = None, ary_aux = Capa 0, frozen = False, tmplock = False, tainted = 3 \<le> safe_level h\<rparr>"
  obtain h' a where n: "new_obj h ?r = (h', a)" by force
  have "heap_ok h' \<and> arys h' a = Some ?r \<and> arys h a = None \<and> extends h h' \<and> bufs h' = bufs h \<and> junk h' = junk h"
    by (rule heap_ok_add [OF ok _ _ _ n]) (auto simp: ary_ok_def buf_of_def)
  then show ?thesis using n by (auto simp: rb_ary_s_alloc_def flags_def)
qed

text \<open>A new array: empty, of its own, with room for the requested number of elements.\<close>

lemma ary_new_owned:
  assumes ok: "heap_ok h" and n: "n < 2 ^ 44"
  shows "\<exists>h' a r. ary_new h (int n) = Inr (h', a) \<and> owned h' a 0 (replicate (max n 1) (junk h)) \<and>
           arys h a = None \<and> extends h h' \<and> arys h' a = Some r \<and> flags r = (False, False, 3 \<le> safe_level h)"
proof -
  obtain h1 a r where h1: "rb_ary_s_alloc h = (h1, a)" "heap_ok h1" "arys h1 a = Some r" "arys h a = None"
    "extends h h1" "junk h1 = junk h" "flags r = (False, False, 3 \<le> safe_level h)" "ary_len r = 0"
    using rb_ary_s_alloc_ok [OF ok] by blast
  define m where "m = max n 1"
  have m: "m < 2 ^ 44" "(if int n = 0 then 1 else int n) = int m" using n by (auto simp: m_def)
  define h2 where "h2 = upd_ary (h1\<lparr>bufs := (bufs h1)(fresh h1 := Some (replicate m (junk h))), fresh := Suc (fresh h1)\<rparr>)
    a (\<lambda>r. r\<lparr>ary_ptr := Some (fresh h1, 0), ary_aux := Capa (int m)\<rparr>)"
  have "owned h2 a 0 (replicate m (junk h)) \<and> frame a h1 h2"
    by (rule owned_fresh [OF h1(2,3), where r' = "r\<lparr>ary_ptr := Some (fresh h1, 0), ary_aux := Capa (int m)\<rparr>"])
       (use h1 in \<open>auto simp: h2_def upd_ary_def flags_def\<close>)
  moreover have "ary_new h (int n) = Inr (h2, a)"
  proof -
    have "\<not> (0 < int n \<and> 8 * int n mod 2 ^ 64 \<le> int n)" using n by auto
    moreover have "alloc_cells NoMemError (int m) = Inr m"
      using alloc_cells_ok [of "int m" NoMemError] m(1) by simp
    ultimately show ?thesis
      using h1(1,6) unfolding ary_new_def Let_def m(2) by (simp add: ALLOC_N_def h2_def)
  qed
  moreover have "\<exists>r'. arys h2 a = Some r' \<and> flags r' = (False, False, 3 \<le> safe_level h)"
    using h1 by (auto simp: h2_def upd_ary_def flags_def)
  ultimately show ?thesis using frame_extends h1(4,5) by (auto simp: m_def)
qed

text \<open>Sharing an array moves the ownership of its buffer to a root and changes nothing that can be read.\<close>

lemma ary_make_shared_ok:
  assumes ok: "heap_ok h" and a: "arys h a = Some r"
  shows "\<exists>h' s. ary_make_shared h a = Inr h' \<and> heap_ok h' \<and> extends h h' \<and> bufs h' = bufs h \<and>
           arys h' a = Some (r\<lparr>ary_aux := Shared s\<rparr>) \<and>
           (\<forall>b. buf_of r = Some b \<longrightarrow> (\<exists>root. roots h' s = Some root \<and> buf_of root = Some b))"
proof (cases "elts_shared r")
  case True
  then obtain s where s: "ary_aux r = Shared s" by (auto simp: elts_shared_def split: aux.splits)
  have "r\<lparr>ary_aux := Shared s\<rparr> = r" using s by (cases r) simp
  moreover have "ary_make_shared h a = Inr h" using a True by (simp add: ary_make_shared_def with_ary_def)
  moreover have "\<exists>root. roots h s = Some root \<and> buf_of root = Some b" if "buf_of r = Some b" for b
    using heap_ok_ary [OF ok a] s that by (auto simp: ary_ok_def buf_of_def split: option.splits)
  ultimately show ?thesis using ok a by (intro exI [of _ h] exI [of _ s]) simp
next
  case False
  let ?root = "\<lparr>ary_len = ary_len r, ary_ptr = ary_ptr r, ary_aux = Capa (capa r),
                frozen = False, tmplock = False, tainted = 3 \<le> safe_level h\<rparr>"
  let ?s = "fresh h"
  let ?r = "r\<lparr>ary_aux := Shared ?s\<rparr>"
  define h' where "h' = upd_ary (h\<lparr>roots := (roots h)(?s := Some ?root), fresh := Suc ?s\<rparr>) a (\<lambda>r. r\<lparr>ary_aux := Shared ?s\<rparr>)"
  have h': "arys h' = (arys h)(a := Some ?r)" "bufs h' = bufs h" "roots h' = (roots h)(?s := Some ?root)"
    "fresh h' = Suc ?s" "safe_level h' = safe_level h"
    using a by (simp_all add: h'_def upd_ary_def)
  have nr: "roots h ?s = None" using ok by (simp add: heap_ok_def)
  have b: "buf_of ?r = buf_of r" "buf_of ?root = buf_of r" "elts_shared ?r" by (simp_all add: buf_of_def elts_shared_def)
  have "ary_ok h' x" if "arys h' a' = Some x" for a' x
  proof (cases "a' = a")
    case True
    then show ?thesis
      using that heap_ok_ary [OF ok a] h'
      by (cases "ary_aux r") (auto simp: ary_ok_def buf_of_def split: option.splits)
  next
    case False
    then have "arys h a' = Some x" using that h' by simp
    from heap_ok_ary [OF ok this] show ?thesis
      by (rule ary_ok_cong) (use h' nr in auto)
  qed
  moreover have "exclusive h'"
    unfolding exclusive_def
  proof (intro allI impI conjI)
    fix a1 r1 b a2 r2
    assume 1: "arys h' a1 = Some r1 \<and> buf_of r1 = Some b \<and> \<not> elts_shared r1"
      and 2: "arys h' a2 = Some r2 \<and> buf_of r2 = Some b"
    have n: "a1 \<noteq> a" using 1 h'(1) b(3) by auto
    then have "\<exists>x. arys h a2 = Some x \<and> buf_of x = Some b" using 2 h'(1) a b(1) by (auto split: if_splits)
    then show "a2 = a1" using 1 n h'(1) ok by (auto simp: heap_ok_def exclusive_def)
  next
    fix a1 r1 b s root
    assume 1: "arys h' a1 = Some r1 \<and> buf_of r1 = Some b \<and> \<not> elts_shared r1" and 2: "roots h' s = Some root"
    have n: "a1 \<noteq> a" using 1 h'(1) \<open>elts_shared ?r\<close> by auto
    then have 3: "arys h a1 = Some r1" using 1 h'(1) by simp
    show "buf_of root \<noteq> Some b"
    proof (cases "s = ?s")
      case True
      then have "buf_of root = buf_of r" using 2 h'(3) by (auto simp: buf_of_def)
      then show ?thesis using 1 3 n a ok unfolding heap_ok_def exclusive_def by metis
    next
      case False
      then show ?thesis using 1 2 3 h'(3) ok by (auto simp: heap_ok_def exclusive_def)
    qed
  qed
  moreover have "bufs h' x \<noteq> None" if "roots h' s = Some root \<and> buf_of root = Some x" for s root x
  proof (cases "s = ?s")
    case True
    then have "buf_of r = Some x" using that h'(3) by (auto simp: buf_of_def)
    then show ?thesis using ary_ok_buf [OF heap_ok_ary [OF ok a]] h'(2) by (auto simp: buf_of_def)
  next
    case False
    then show ?thesis using that h' ok by (auto simp: heap_ok_def)
  qed
  moreover have "\<forall>i \<ge> fresh h'. arys h' i = None \<and> roots h' i = None \<and> bufs h' i = None"
    using ok h' a by (auto simp: heap_ok_def)
  ultimately have "heap_ok h'" unfolding heap_ok_def by blast
  moreover have "extends h h'"
  proof -
    have "elems h' x = elems h x" for x using h' a by (cases "x = a") (auto simp: elems_def split: option.splits)
    then show ?thesis using h' a by (auto simp: extends_def view_def flags_def)
  qed
  moreover have "ary_make_shared h a = Inr h'"
    using a False by (simp add: ary_make_shared_def with_ary_def h'_def Let_def)
  ultimately show ?thesis using h' b by (intro exI [of _ h'] exI [of _ ?s]) simp
qed

lemma owned_memfill:
  assumes "owned h a n cells" "i + k \<le> length cells"
  shows "\<exists>h'. memfill h a (int i) (int k) v = Inr h' \<and>
           owned h' a n (take i cells @ replicate k v @ drop (i + k) cells) \<and> frame a h h'"
  using owned_write [OF assms(1), of i "replicate k v"] assms(2) by (simp add: memfill_def)

lemma rb_mem_clear_memfill: "rb_mem_clear h a i n = memfill h a i n Qnil"
  by (simp add: rb_mem_clear_def memfill_def)

lemma owned_read:
  assumes o: "owned h a n cells" and i: "i + k \<le> length cells"
  shows "read_at h a (int i) (int k) = Inr (take k (drop i cells))"
proof (cases "k = 0")
  case True
  then show ?thesis using o by (auto simp: owned_def read_at_def with_ary_def)
next
  case False
  then have "cells \<noteq> []" using i by auto
  then show ?thesis using o i by (auto simp: owned_def read_at_def with_ary_def split: option.splits)
qed

text \<open>Reading elements of any array, shared or not.\<close>

lemma read_elems:
  assumes ok: "heap_ok h" and a: "arys h a = Some r" and i: "i + k \<le> length (elems h a)"
  shows "read_at h a (int i) (int k) = Inr (take k (drop i (elems h a)))"
proof (cases "k = 0")
  case True
  then show ?thesis using a by (simp add: read_at_def with_ary_def)
next
  case False
  then have "elems h a \<noteq> []" using i by auto
  then obtain b off cells where b: "ary_ptr r = Some (b, off)" "bufs h b = Some cells"
    using a by (auto simp: elems_def split: option.splits)
  have l: "int off + ary_len r \<le> int (length cells)" "0 \<le> ary_len r"
    using heap_ok_ary [OF ok a] b by (auto simp: ary_ok_def)
  have e: "elems h a = take (nat (ary_len r)) (drop off cells)" using a b by (simp add: elems_def)
  have "int i + int k \<le> ary_len r" using i ok_elems_length [OF ok a] by simp
  moreover have "nat (int off + int i) = off + i" by simp
  ultimately show ?thesis
    using l a b False by (simp add: read_at_def with_ary_def e drop_take add.commute min_def)
qed

section \<open>Rules for sequences of steps\<close>

text \<open>
  \<^verbatim>\<open>gives a h m n cells\<close>: the computation \<^verbatim>\<open>m\<close>, run on behalf of an operation on \<^verbatim>\<open>a\<close> that began in \<^verbatim>\<open>h\<close>,
  returns, leaves \<^verbatim>\<open>a\<close> unshared with length \<^verbatim>\<open>n\<close> over the buffer \<^verbatim>\<open>cells\<close> and has changed no other array.
  \<^verbatim>\<open>makes a h m xs\<close> says the same with the elements in place of the buffer; \<^verbatim>\<open>yields a h m xs\<close> says it of an
  array that may be shared afterwards.
\<close>

definition gives :: "nat \<Rightarrow> 'o heap \<Rightarrow> rb_error + 'o heap \<Rightarrow> nat \<Rightarrow> 'o rval list \<Rightarrow> bool" where
  "gives a h m n cells \<longleftrightarrow> (\<exists>h'. m = Inr h' \<and> owned h' a n cells \<and> frame a h h')"

definition makes :: "nat \<Rightarrow> 'o heap \<Rightarrow> rb_error + 'o heap \<Rightarrow> 'o rval list \<Rightarrow> bool" where
  "makes a h m xs \<longleftrightarrow> (\<exists>cells. gives a h m (length xs) cells \<and> take (length xs) cells = xs)"

definition yields :: "nat \<Rightarrow> 'o heap \<Rightarrow> rb_error + 'o heap \<Rightarrow> 'o rval list \<Rightarrow> bool" where
  "yields a h m xs \<longleftrightarrow> (\<exists>h'. m = Inr h' \<and> heap_ok h' \<and> elems h' a = xs \<and> frame a h h')"

lemma makes_yields: "makes a h m xs \<Longrightarrow> yields a h m xs"
  using owned_ok owned_elems by (fastforce simp: gives_def makes_def yields_def)

lemma gives_makes: "gives a h m n cells \<Longrightarrow> take n cells = xs \<Longrightarrow> makes a h m xs"
  by (force simp: gives_def makes_def owned_def min_def)

lemma makes_return: "owned h1 a n cells \<Longrightarrow> frame a h h1 \<Longrightarrow> take n cells = xs \<Longrightarrow> makes a h (Inr h1) xs"
  by (rule gives_makes) (auto simp: gives_def)

lemma makes_bind:
  assumes "gives a h m n cells" "\<And>h1. owned h1 a n cells \<Longrightarrow> frame a h h1 \<Longrightarrow> makes a h (k h1) xs"
  shows "makes a h (bindR m k) xs"
  using assms by (auto simp: gives_def makes_def)

lemma makes_with:
  assumes "owned h1 a n cells"
    "\<And>r. ary_len r = int n \<Longrightarrow> capa r = int (length cells) \<Longrightarrow> \<not> elts_shared r \<Longrightarrow> makes a h (k r) xs"
  shows "makes a h (with_ary h1 a k) xs"
  using owned_ary [OF assms(1)] assms(2) by (auto simp: with_ary_def)

lemma gives_write:
  assumes "owned h1 a n cells" "frame a h h1" "i = int j" "j + length vs \<le> length cells"
  shows "gives a h (write_at h1 a i vs) n (take j cells @ vs @ drop (j + length vs) cells)"
  using owned_write [OF assms(1,4)] frame_trans [OF assms(2)] assms(3) by (auto simp: gives_def)

lemma gives_memfill:
  assumes "owned h1 a n cells" "frame a h h1" "i = int j" "m = int k" "j + k \<le> length cells"
  shows "gives a h (memfill h1 a i m v) n (take j cells @ replicate k v @ drop (j + k) cells)"
  using owned_memfill [OF assms(1,5)] frame_trans [OF assms(2)] assms(3,4) by (auto simp: gives_def)

lemma gives_resize:
  assumes "owned h1 a n cells" "frame a h h1" "i = int m" "n \<le> m" "m < 2 ^ 44"
  shows "gives a h (resize h1 a i) n (take m cells @ replicate (m - length cells) (junk h1))"
  using owned_resize [OF assms(1,4,5)] frame_trans [OF assms(2)] assms(3) by (auto simp: gives_def)

lemma set_len_owned:
  assumes "owned h1 a n cells" "frame a h h1" "i = int m" "m \<le> length cells"
  shows "owned (set_len h1 a i) a m cells" "frame a h (set_len h1 a i)"
  using owned_set_len [OF assms(1,4)] frame_trans [OF assms(2)] assms(3) by auto

lemma makes_set_len:
  assumes "owned h1 a n cells" "frame a h h1" "i = int m" "m \<le> length cells" "take m cells = xs"
  shows "makes a h (Inr (set_len h1 a i)) xs"
  by (rule makes_return [OF set_len_owned [OF assms(1-4)] assms(5)])

text \<open>A buffer that may have to grow, or may be cut, before it is written.\<close>

lemma makes_resize:
  assumes "owned h1 a n cells" "frame a h h1" "c \<Longrightarrow> i = int m" "c \<Longrightarrow> n \<le> m" "c \<Longrightarrow> m < 2 ^ 44"
    "c \<Longrightarrow> need \<le> m" "\<not> c \<Longrightarrow> need \<le> length cells"
    "\<And>h2 cells'. owned h2 a n cells' \<Longrightarrow> frame a h h2 \<Longrightarrow> take n cells' = take n cells \<Longrightarrow> n \<le> length cells' \<Longrightarrow>
       need \<le> length cells' \<Longrightarrow> makes a h (k h2) xs"
  shows "makes a h (bindR (if c then resize h1 a i else Inr h1) k) xs"
proof (cases c)
  case True
  then have "gives a h (resize h1 a i) n (take m cells @ replicate (m - length cells) (junk h1))"
    using gives_resize [OF assms(1,2)] assms(3-5) by blast
  moreover have "n \<le> length cells" using assms(1) by (simp add: owned_def)
  ultimately show ?thesis
    using True assms(4,6,8) by (auto intro!: makes_bind simp: min_def)
next
  case False
  moreover have "n \<le> length cells" using assms(1) by (simp add: owned_def)
  ultimately show ?thesis using assms(7) assms(8) [OF assms(1,2) refl] by simp
qed

lemma makes_read:
  assumes "owned h1 a n cells" "i = int j" "m = int k" "j + k \<le> length cells"
    "makes a h (f (take k (drop j cells))) xs"
  shows "makes a h (bindR (read_at h1 a i m) f) xs"
  using owned_read [OF assms(1,4)] assms(2,3,5) by simp

lemma read_other:
  assumes "heap_ok h1" "frame a h h1" "arys h b = Some r" "b \<noteq> a" "m = int (length (elems h b))"
  shows "read_at h1 b 0 m = Inr (elems h b)"
proof -
  have e: "elems h1 b = elems h b" by (rule frame_elems [OF assms(2,4,3)])
  have "view h1 b = view h b" using assms(2-4) by (auto simp: frame_def)
  then obtain r' where "arys h1 b = Some r'" using assms(3) by (auto simp: view_def)
  from read_elems [OF assms(1) this, of 0 "length (elems h b)"] show ?thesis using e assms(5) by simp
qed

lemma makes_modify:
  assumes ok: "heap_ok h" and m: "modifiable h a" and small: "length (elems h a) < 2 ^ 44"
    and k: "\<And>h1 cells. owned h1 a (length (elems h a)) cells \<Longrightarrow> take (length (elems h a)) cells = elems h a \<Longrightarrow>
              length (elems h a) \<le> length cells \<Longrightarrow> frame a h h1 \<Longrightarrow> makes a h (k h1) xs"
  shows "makes a h (bindR (rb_ary_modify h a) k) xs"
proof -
  obtain h1 cells where 1: "rb_ary_modify h a = Inr h1" "owned h1 a (length (elems h a)) cells"
    "take (length (elems h a)) cells = elems h a" "frame a h h1"
    using rb_ary_modify_owned [OF ok m small] by blast
  have "length (elems h a) \<le> length cells" using 1(2) by (simp add: owned_def)
  from k [OF 1(2,3) this 1(4)] show ?thesis using 1(1) by simp
qed

text \<open>An operation after operations: the frames compose.\<close>

lemma makes_then:
  assumes "makes a h m ys"
    "\<And>h1 cells. owned h1 a (length ys) cells \<Longrightarrow> take (length ys) cells = ys \<Longrightarrow> length ys \<le> length cells \<Longrightarrow>
       frame a h h1 \<Longrightarrow> makes a h (k h1) xs"
  shows "makes a h (bindR m k) xs"
  using assms by (fastforce simp: makes_def gives_def owned_def)

lemma makes_trans: "frame a h h1 \<Longrightarrow> makes a h1 m xs \<Longrightarrow> makes a h m xs"
  using frame_trans by (fastforce simp: makes_def gives_def)

lemma yields_trans: "frame a h h1 \<Longrightarrow> yields a h1 m xs \<Longrightarrow> yields a h m xs"
  using frame_trans by (fastforce simp: yields_def)

lemma yields_then:
  assumes "yields a h m ys"
    "\<And>h1. heap_ok h1 \<Longrightarrow> elems h1 a = ys \<Longrightarrow> frame a h h1 \<Longrightarrow> yields a h (k h1) xs"
  shows "yields a h (bindR m k) xs"
  using assms by (auto simp: yields_def)

text \<open>Setting flags of an array changes neither the elements nor the invariant.\<close>

lemma upd_flags:
  assumes ok: "heap_ok h" and r: "arys h a = Some r"
    and f: "ary_ptr (f r) = ary_ptr r" "ary_len (f r) = ary_len r" "ary_aux (f r) = ary_aux r"
  shows "heap_ok (upd_ary h a f)" "elems (upd_ary h a f) x = elems h x"
    "owned h a n cells \<Longrightarrow> owned (upd_ary h a f) a n cells"
proof -
  let ?h = "upd_ary h a f"
  have h: "arys ?h = (arys h)(a := Some (f r))" "bufs ?h = bufs h" "roots ?h = roots h" "fresh ?h = fresh h"
    using r by (simp_all add: upd_ary_def)
  have b: "buf_of (f r) = buf_of r" "elts_shared (f r) = elts_shared r" using f by (simp_all add: buf_of_def elts_shared_def)
  have "ary_ok h (f r)" by (rule ary_ok_same [OF heap_ok_ary [OF ok r] f])
  then have okr: "ary_ok ?h (f r)" by (rule ary_ok_cong) (use h in auto)
  show okh: "heap_ok ?h"
  proof (rule heap_ok_update [OF ok, of a _ "f r"])
    fix x y z assume "buf_of (f r) = Some x" "y \<noteq> a" "arys h y = Some z" "buf_of z = Some x"
    then show "elts_shared (f r) \<and> elts_shared z"
      using ok r b unfolding heap_ok_def exclusive_def by metis
  next
    fix x y z assume "buf_of (f r) = Some x" "roots h y = Some z" "buf_of z = Some x"
    then show "elts_shared (f r)" using ok r b unfolding heap_ok_def exclusive_def by metis
  qed (use h r ok okr in \<open>auto simp: heap_ok_def\<close>)
  show "elems ?h x = elems h x" using h f r by (cases "x = a") (auto simp: elems_def split: option.splits)
  show "owned ?h a n cells" if "owned h a n cells"
    using that okh h f r by (auto simp: owned_def split: option.splits)
qed

text \<open>\<^verbatim>\<open>creates h m xs\<close>: \<^verbatim>\<open>m\<close> returns a new array with the elements \<^verbatim>\<open>xs\<close> that can be modified; nothing else changes.\<close>

definition creates :: "'o heap \<Rightarrow> rb_error + 'o heap \<times> nat \<Rightarrow> 'o rval list \<Rightarrow> bool" where
  "creates h m xs \<longleftrightarrow>
     (\<exists>h' a. m = Inr (h', a) \<and> heap_ok h' \<and> extends h h' \<and> arys h a = None \<and> modifiable h' a \<and> elems h' a = xs)"

lemma fresh_modifiable:
  "extends h h' \<Longrightarrow> arys h' a = Some r \<Longrightarrow> flags r = (False, False, 3 \<le> safe_level h) \<Longrightarrow> modifiable h' a"
  by (auto simp: modifiable_def flags_def extends_def)

lemma creates_new:
  assumes ok: "heap_ok h" and n: "n < 2 ^ 44"
    and k: "\<And>h1 a. owned h1 a 0 (replicate (max n 1) (junk h)) \<Longrightarrow> arys h a = None \<Longrightarrow> extends h h1 \<Longrightarrow> modifiable h1 a \<Longrightarrow>
              \<exists>m'. yields a h1 m' xs \<and> k (h1, a) = bindR m' (\<lambda>h. Inr (h, a))"
  shows "creates h (bindR (ary_new h (int n)) k) xs"
proof -
  obtain h1 a r where 1: "ary_new h (int n) = Inr (h1, a)" "owned h1 a 0 (replicate (max n 1) (junk h))"
    "arys h a = None" "extends h h1" "arys h1 a = Some r" "flags r = (False, False, 3 \<le> safe_level h)"
    using ary_new_owned [OF ok n] by blast
  note m = fresh_modifiable [OF 1(4-6)]
  obtain m' h2 where 2: "m' = Inr h2" "heap_ok h2" "elems h2 a = xs" "frame a h1 h2" "k (h1, a) = bindR m' (\<lambda>h. Inr (h, a))"
    using k [OF 1(2-4) m] by (auto simp: yields_def)
  then show ?thesis
    using 1(1,3) frame_extends [OF 2(4) 1(4,3)] frame_modifiable [OF 2(4) m] by (auto simp: creates_def)
qed

lemma rb_ary_new4_creates:
  assumes ok: "heap_ok h" and n: "length vs < 2 ^ 44"
  shows "creates h (rb_ary_new4 h vs) vs"
  unfolding rb_ary_new4_def rb_ary_new2_def
proof (rule creates_new [OF ok n])
  fix h1 a assume 1: "owned h1 a 0 (replicate (max (length vs) 1) (junk h))"
  let ?m = "bindR (write_at h1 a 0 vs) (\<lambda>h. Inr (set_len h a (int (length vs))))"
  have g: "gives a h1 (write_at h1 a 0 vs) 0 (vs @ drop (length vs) (replicate (max (length vs) 1) (junk h)))"
    using gives_write [OF 1 frame_refl, of 0 0 vs] by simp
  have "makes a h1 ?m vs"
    by (rule makes_bind [OF g], rule makes_return [OF set_len_owned [OF _ _ refl]]) auto
  then show "\<exists>m'. yields a h1 m' vs \<and>
      (case (h1, a) of (h, a) \<Rightarrow> bindR (write_at h a 0 vs) (\<lambda>h. Inr (set_len h a (int (length vs)), a))) =
      bindR m' (\<lambda>h. Inr (h, a))"
    by (intro exI [of _ ?m]) (auto simp: makes_yields bindR_def split: sum.splits)
qed

lemma rb_ary_new3_eq: "rb_ary_new3 = rb_ary_new4"
  by (simp add: rb_ary_new3_def rb_ary_new4_def fun_eq_iff)

lemma ary_new_creates:
  assumes "heap_ok h" "n < 2 ^ 44"
  shows "creates h (ary_new h (int n)) []"
proof -
  obtain h1 a r where 1: "ary_new h (int n) = Inr (h1, a)" "owned h1 a 0 (replicate (max n 1) (junk h))"
    "arys h a = None" "extends h h1" "arys h1 a = Some r" "flags r = (False, False, 3 \<le> safe_level h)"
    using ary_new_owned [OF assms] by blast
  then show ?thesis
    using owned_ok owned_elems [OF 1(2)] fresh_modifiable [OF 1(4-6)] by (fastforce simp: creates_def)
qed

end
