(* ===== verification/Array_Core.thy ===== *)
theory Array_Core
  imports Array_Heap
begin

text \<open>
  The operations of \<^verbatim>\<open>src/ruby/array.c\<close> that read, grow, shrink and splice an array, over the heap of
  \<^verbatim>\<open>Array_Heap\<close>. Index arguments that a method converts by \<^verbatim>\<open>NUM2LONG\<close> are the integers it obtains, in
  the range of a \<^verbatim>\<open>long\<close>; sums of two of them wrap. The lemmas give every operation its effect on the
  list of elements, that the heap invariant is kept and that no other array changes.
\<close>

section \<open>Element access and growth\<close>

text \<open>The part of \<^verbatim>\<open>rb_ary_store\<close> that makes room for the index.\<close>

definition store_grow :: "'o heap \<Rightarrow> nat \<Rightarrow> int \<Rightarrow> rb_error + 'o heap" where
  "store_grow h a idx =
     with_ary h a (\<lambda>r.
       if idx \<ge> capa r
       then let new_capa = capa r div 2;
                new_capa = (if new_capa < ARY_DEFAULT_SIZE then ARY_DEFAULT_SIZE else new_capa);
                new_capa = int64 (new_capa + idx)
            in if int64 (new_capa * 8) \<le> new_capa then Inl ArgError
               else resize h a new_capa
       else Inr h)"

definition rb_ary_store :: "'o heap \<Rightarrow> nat \<Rightarrow> int \<Rightarrow> 'o rval \<Rightarrow> rb_error + 'o heap" where
  "rb_ary_store h a idx val =
     bindR (rb_ary_modify h a) (\<lambda>h.
       with_ary h a (\<lambda>r.
         let len = ary_len r;
             idx = (if idx < 0 then idx + len else idx)
         in if idx < 0 then Inl IndexError
            else
              bindR (store_grow h a idx) (\<lambda>h.
              bindR (if idx > len then rb_mem_clear h a len (int64 (idx - len + 1)) else Inr h) (\<lambda>h.
                let h = (if idx \<ge> len then set_len h a (int64 (idx + 1)) else h)
                in write_at h a idx [val]))))"

definition rb_ary_push :: "'o heap \<Rightarrow> nat \<Rightarrow> 'o rval \<Rightarrow> rb_error + 'o heap" where
  "rb_ary_push h a item = with_ary h a (\<lambda>r. rb_ary_store h a (ary_len r) item)"

fun push_loop :: "'o heap \<Rightarrow> nat \<Rightarrow> 'o rval list \<Rightarrow> rb_error + 'o heap" where
  "push_loop h a [] = Inr h"
| "push_loop h a (v # argv) = bindR (rb_ary_push h a v) (\<lambda>h. push_loop h a argv)"

definition rb_ary_push_m :: "'o heap \<Rightarrow> 'o rval list \<Rightarrow> nat \<Rightarrow> rb_error + 'o heap" where
  "rb_ary_push_m h argv a = (if argv = [] then Inl ArgError else push_loop h a argv)"

text \<open>One cell of the array, for the sources' \<^verbatim>\<open>RARRAY(ary)->ptr[i]\<close>.\<close>

definition cell :: "'o heap \<Rightarrow> nat \<Rightarrow> int \<Rightarrow> rb_error + 'o rval" where
  "cell h a i = bindR (read_at h a i 1) (\<lambda>vs. Inr (hd vs))"

definition rb_ary_pop :: "'o heap \<Rightarrow> nat \<Rightarrow> rb_error + 'o heap \<times> 'o rval" where
  "rb_ary_pop h a =
     bindR (rb_ary_modify_check h a) (\<lambda>_.
       with_ary h a (\<lambda>r.
         if ary_len r = 0 then Inr (h, Qnil)
         else
           bindR (if \<not> elts_shared r \<and> ary_len r * 2 < capa r \<and> capa r > ARY_DEFAULT_SIZE
                  then resize h a (ary_len r * 2) else Inr h) (\<lambda>h.
             let h = set_len h a (ary_len r - 1)
             in bindR (cell h a (ary_len r - 1)) (\<lambda>v. Inr (h, v)))))"

definition rb_ary_shift :: "'o heap \<Rightarrow> nat \<Rightarrow> rb_error + 'o heap \<times> 'o rval" where
  "rb_ary_shift h a =
     bindR (rb_ary_modify_check h a) (\<lambda>_.
       with_ary h a (\<lambda>r.
         if ary_len r = 0 then Inr (h, Qnil)
         else
           bindR (cell h a 0) (\<lambda>top.
             bindR (ary_make_shared h a) (\<lambda>h.
               Inr (upd_ary h a (\<lambda>r. r\<lparr>ary_ptr := map_option (\<lambda>(b, off). (b, off + 1)) (ary_ptr r),
                                        ary_len := ary_len r - 1\<rparr>), top)))))"

definition rb_ary_unshift :: "'o heap \<Rightarrow> nat \<Rightarrow> 'o rval \<Rightarrow> rb_error + 'o heap" where
  "rb_ary_unshift h a item =
     bindR (rb_ary_modify h a) (\<lambda>h.
       with_ary h a (\<lambda>r.
         bindR (if ary_len r = capa r
                then let capa_inc = capa r div 2;
                         capa_inc = (if capa_inc < ARY_DEFAULT_SIZE then ARY_DEFAULT_SIZE else capa_inc)
                     in resize h a (int64 (capa r + capa_inc))
                else Inr h) (\<lambda>h.
           bindR (read_at h a 0 (ary_len r)) (\<lambda>vs.
             bindR (write_at h a 1 vs) (\<lambda>h.
               write_at (set_len h a (ary_len r + 1)) a 0 [item])))))"

definition rb_ary_unshift_m :: "'o heap \<Rightarrow> 'o rval list \<Rightarrow> nat \<Rightarrow> rb_error + 'o heap" where
  "rb_ary_unshift_m h argv a =
     with_ary h a (\<lambda>r.
       if argv = [] then Inl ArgError
       else
         bindR (rb_ary_store h a (int64 (ary_len r + int (length argv) - 1)) Qnil) (\<lambda>h.
           bindR (read_at h a 0 (ary_len r)) (\<lambda>vs.
             bindR (write_at h a (int (length argv)) vs) (\<lambda>h. write_at h a 0 argv))))"

definition rb_ary_entry :: "'o heap \<Rightarrow> nat \<Rightarrow> int \<Rightarrow> rb_error + 'o rval" where
  "rb_ary_entry h a offset =
     with_ary h a (\<lambda>r.
       if ary_len r = 0 then Inr Qnil
       else let offset = (if offset < 0 then offset + ary_len r else offset)
            in if offset < 0 \<or> ary_len r \<le> offset then Inr Qnil else cell h a offset)"

section \<open>Slices\<close>

definition rb_ary_subseq :: "'o heap \<Rightarrow> nat \<Rightarrow> int \<Rightarrow> int \<Rightarrow> rb_error + 'o heap \<times> 'o rval" where
  "rb_ary_subseq h a beg len =
     with_ary h a (\<lambda>r.
       if beg > ary_len r then Inr (h, Qnil)
       else if beg < 0 \<or> len < 0 then Inr (h, Qnil)
       else let len = (if int64 (beg + len) > ary_len r
                       then (if ary_len r - beg < 0 then 0 else ary_len r - beg) else len)
            in if len = 0 then bindR (ary_new h 0) (\<lambda>(h, b). Inr (h, AryRef b))
               else bindR (ary_make_shared h a) (\<lambda>h.
                 with_ary h a (\<lambda>r.
                   let (h, a2) = rb_ary_s_alloc h
                   in Inr (upd_ary h a2 (\<lambda>r2. r2\<lparr>ary_ptr := map_option (\<lambda>(b, off). (b, off + nat beg)) (ary_ptr r),
                                              ary_len := len, ary_aux := ary_aux r\<rparr>), AryRef a2))))"

text \<open>
  \<^verbatim>\<open>rb_range_beg_len\<close> of \<^verbatim>\<open>src/ruby/range.c\<close> on the bounds of a range. The result is nil, or true with the
  start and the length.
\<close>

definition rb_range_beg_len :: "int \<Rightarrow> int \<Rightarrow> bool \<Rightarrow> int \<Rightarrow> nat \<Rightarrow> rb_error + (int \<times> int) option" where
  "rb_range_beg_len b e excl len err =
     (let out_of_range = (if err \<noteq> 0 then Inl RangeError else Inr None);
          beg = (if b < 0 then b + len else b)
      in if beg < 0 then out_of_range
         else if (err = 0 \<or> err = 2) \<and> beg > len then out_of_range
         else
           let end1 = (if (err = 0 \<or> err = 2) \<and> (e > len \<or> \<not> excl \<and> e = len) then len else e);
               end2 = (if end1 < 0 then end1 + len else end1)
           in if end2 < 0
              then (if beg = 0 \<and> end2 = -1 \<and> \<not> excl then Inr (Some (beg, 0)) else out_of_range)
              else let l = end2 - beg;
                       l = (if \<not> excl then int64 (l + 1) else l)
                   in if l < 0 then out_of_range else Inr (Some (beg, l)))"

text \<open>
  What a subscript argument can be: an integer or a range with integer bounds.
\<close>

datatype subscript = Idx int | Rng int int bool

definition rb_ary_aref :: "'o heap \<Rightarrow> subscript \<Rightarrow> int option \<Rightarrow> nat \<Rightarrow> rb_error + 'o heap \<times> 'o rval" where
  "rb_ary_aref h arg len a =
     with_ary h a (\<lambda>r.
       case (arg, len) of
         (Idx beg, Some len) \<Rightarrow> rb_ary_subseq h a (if beg < 0 then beg + ary_len r else beg) len
       | (Rng _ _ _, Some _) \<Rightarrow> Inl TypeError
       | (Idx i, None) \<Rightarrow> bindR (rb_ary_entry h a i) (\<lambda>v. Inr (h, v))
       | (Rng b e excl, None) \<Rightarrow>
           bindR (rb_range_beg_len b e excl (ary_len r) 0) (\<lambda>res.
             case res of None \<Rightarrow> Inr (h, Qnil) | Some (beg, len) \<Rightarrow> rb_ary_subseq h a beg len))"

definition rb_ary_at :: "'o heap \<Rightarrow> nat \<Rightarrow> int \<Rightarrow> rb_error + 'o rval" where
  "rb_ary_at h a pos = rb_ary_entry h a pos"

definition rb_ary_first :: "'o heap \<Rightarrow> nat \<Rightarrow> rb_error + 'o rval" where
  "rb_ary_first h a = with_ary h a (\<lambda>r. if ary_len r = 0 then Inr Qnil else cell h a 0)"

definition rb_ary_last :: "'o heap \<Rightarrow> nat \<Rightarrow> rb_error + 'o rval" where
  "rb_ary_last h a = with_ary h a (\<lambda>r. if ary_len r = 0 then Inr Qnil else cell h a (ary_len r - 1))"

text \<open>\<^verbatim>\<open>fetch\<close> with an optional default and an optional block, a function of the position.\<close>

definition rb_ary_fetch ::
  "'o heap \<Rightarrow> int \<Rightarrow> 'o rval option \<Rightarrow> (int \<Rightarrow> 'o rval) option \<Rightarrow> nat \<Rightarrow> rb_error + 'o rval" where
  "rb_ary_fetch h pos ifnone block a =
     with_ary h a (\<lambda>r.
       let idx = (if pos < 0 then pos + ary_len r else pos)
       in if idx < 0 \<or> ary_len r \<le> idx
          then (case block of
                  Some f \<Rightarrow> if ifnone \<noteq> None then Inl ArgError else Inr (f pos)
                | None \<Rightarrow> (case ifnone of None \<Rightarrow> Inl IndexError | Some v \<Rightarrow> Inr v))
          else cell h a idx)"

definition rb_ary_length :: "'o heap \<Rightarrow> nat \<Rightarrow> rb_error + int" where
  "rb_ary_length h a = with_ary h a (\<lambda>r. Inr (ary_len r))"

definition rb_ary_empty_p :: "'o heap \<Rightarrow> nat \<Rightarrow> rb_error + bool" where
  "rb_ary_empty_p h a = with_ary h a (\<lambda>r. Inr (ary_len r = 0))"

section \<open>Splicing\<close>

text \<open>No object here has a method \<^verbatim>\<open>to_ary\<close> of its own.\<close>

definition rb_ary_to_ary :: "'o heap \<Rightarrow> 'o rval \<Rightarrow> rb_error + 'o heap \<times> nat" where
  "rb_ary_to_ary h v =
     (case v of Qnil \<Rightarrow> rb_ary_new2 h 0 | AryRef b \<Rightarrow> Inr (h, b) | Obj _ \<Rightarrow> rb_ary_new3 h [v])"

definition update_past_end :: "'o heap \<Rightarrow> nat \<Rightarrow> int \<Rightarrow> nat \<Rightarrow> int \<Rightarrow> rb_error + 'o heap" where
  "update_past_end h a beg rpl rlen =
     with_ary h a (\<lambda>r.
       let len = int64 (beg + rlen)
       in bindR (if len \<ge> capa r then resize h a len else Inr h) (\<lambda>h.
            bindR (rb_mem_clear h a (ary_len r) (beg - ary_len r)) (\<lambda>h.
              bindR (read_at h rpl 0 rlen) (\<lambda>vs.
                bindR (write_at h a beg vs) (\<lambda>h. Inr (set_len h a len))))))"

definition update_within :: "'o heap \<Rightarrow> nat \<Rightarrow> int \<Rightarrow> int \<Rightarrow> nat \<Rightarrow> int \<Rightarrow> rb_error + 'o heap" where
  "update_within h a beg len rpl rlen =
     with_ary h a (\<lambda>r.
       let len = (if int64 (beg + len) > ary_len r then ary_len r - beg else len);
           alen = int64 (ary_len r + rlen - len)
       in bindR (if alen \<ge> capa r then resize h a alen else Inr h) (\<lambda>h.
            bindR (if len \<noteq> rlen
                   then bindR (read_at h a (beg + len) (ary_len r - (beg + len))) (\<lambda>tail.
                          bindR (write_at h a (beg + rlen) tail) (\<lambda>h. Inr (set_len h a alen)))
                   else Inr h) (\<lambda>h.
              bindR (read_at h rpl 0 rlen) (\<lambda>vs. write_at h a beg vs))))"

definition rb_ary_update :: "'o heap \<Rightarrow> nat \<Rightarrow> int \<Rightarrow> int \<Rightarrow> 'o rval \<Rightarrow> rb_error + 'o heap" where
  "rb_ary_update h a beg len rpl =
     bindR (rb_ary_to_ary h rpl) (\<lambda>(h, rpl).
       with_ary h rpl (\<lambda>rr.
         with_ary h a (\<lambda>r.
           let rlen = ary_len rr
           in if len < 0 then Inl IndexError
              else let beg = (if beg < 0 then beg + ary_len r else beg)
                   in if beg < 0 then Inl IndexError
                      else let len = (if int64 (beg + len) > ary_len r then ary_len r - beg else len)
                           in bindR (rb_ary_modify h a) (\<lambda>h.
                                if beg \<ge> ary_len r then update_past_end h a beg rpl rlen
                                else update_within h a beg len rpl rlen))))"

definition rb_ary_aset ::
  "'o heap \<Rightarrow> subscript \<Rightarrow> int option \<Rightarrow> 'o rval \<Rightarrow> nat \<Rightarrow> rb_error + 'o heap \<times> 'o rval" where
  "rb_ary_aset h arg len val a =
     with_ary h a (\<lambda>r.
       bindR (case (arg, len) of
                (Idx beg, Some len) \<Rightarrow> rb_ary_update h a beg len val
              | (Rng _ _ _, Some _) \<Rightarrow> Inl TypeError
              | (Idx i, None) \<Rightarrow> rb_ary_store h a i val
              | (Rng b e excl, None) \<Rightarrow>
                  bindR (rb_range_beg_len b e excl (ary_len r) 1) (\<lambda>res.
                    case res of None \<Rightarrow> Inr h | Some (beg, len) \<Rightarrow> rb_ary_update h a beg len val))
         (\<lambda>h. Inr (h, val)))"

definition rb_ary_insert :: "'o heap \<Rightarrow> int \<Rightarrow> 'o rval list \<Rightarrow> nat \<Rightarrow> rb_error + 'o heap" where
  "rb_ary_insert h pos args a =
     with_ary h a (\<lambda>r.
       if args = [] then Inl ArgError
       else let pos = (if pos = -1 then ary_len r else if pos < 0 then pos + 1 else pos)
            in bindR (rb_ary_new4 h args) (\<lambda>(h, rpl). rb_ary_update h a pos 0 (AryRef rpl)))"

section \<open>Whole arrays\<close>

definition rb_ary_dup :: "'o heap \<Rightarrow> nat \<Rightarrow> rb_error + 'o heap \<times> nat" where
  "rb_ary_dup h a =
     with_ary h a (\<lambda>r.
       bindR (rb_ary_new2 h (ary_len r)) (\<lambda>(h, dup).
         let h = upd_ary h dup (\<lambda>d. d\<lparr>tainted := tainted r \<or> 3 \<le> safe_level h\<rparr>)
         in bindR (read_at h a 0 (ary_len r)) (\<lambda>vs.
              bindR (write_at h dup 0 vs) (\<lambda>h. Inr (set_len h dup (ary_len r), dup)))))"

definition rb_ary_replace :: "'o heap \<Rightarrow> nat \<Rightarrow> nat \<Rightarrow> rb_error + 'o heap" where
  "rb_ary_replace h copy orig =
     bindR (rb_ary_modify h copy) (\<lambda>h.
       if copy = orig then Inr h
       else bindR (ary_make_shared h orig) (\<lambda>h.
         with_ary h copy (\<lambda>c.
           with_ary h orig (\<lambda>r.
             let h = (case ary_ptr c of
                        Some (b, off) \<Rightarrow> if elts_shared c then h else h\<lparr>bufs := (bufs h)(b := None)\<rparr>
                      | None \<Rightarrow> h)
             in Inr (upd_ary h copy (\<lambda>c. c\<lparr>ary_ptr := ary_ptr r, ary_len := ary_len r, ary_aux := ary_aux r\<rparr>))))))"

definition rb_ary_clear :: "'o heap \<Rightarrow> nat \<Rightarrow> rb_error + 'o heap" where
  "rb_ary_clear h a =
     bindR (rb_ary_modify h a) (\<lambda>h.
       with_ary h a (\<lambda>r.
         let h = set_len h a 0
         in if ARY_DEFAULT_SIZE * 2 < capa r then resize h a (ARY_DEFAULT_SIZE * 2) else Inr h))"

text \<open>
  \<^verbatim>\<open>Array.new\<close> without a block: with no argument, with an array, or with a size and a value.
\<close>

datatype 'o init_arg = NoArg | FromAry nat | Size int "'o rval"

definition rb_ary_initialize :: "'o heap \<Rightarrow> 'o init_arg \<Rightarrow> nat \<Rightarrow> rb_error + 'o heap" where
  "rb_ary_initialize h arg a =
     bindR (rb_ary_modify h a) (\<lambda>h.
       with_ary h a (\<lambda>r.
         case arg of
           NoArg \<Rightarrow> Inr (set_len h a 0)
         | FromAry orig \<Rightarrow> rb_ary_replace h a orig
         | Size len val \<Rightarrow>
             if len < 0 then Inl ArgError
             else if len > 0 \<and> int64 (len * 8) \<le> len then Inl ArgError
             else bindR (if len > capa r then resize h a len else Inr h) (\<lambda>h.
                    bindR (memfill h a 0 len val) (\<lambda>h. Inr (set_len h a len)))))"

text \<open>\<^verbatim>\<open>fill\<close> with a value, no block; \<^verbatim>\<open>None\<close> stands for an argument that is absent or nil.\<close>

definition rb_ary_fill :: "'o heap \<Rightarrow> 'o rval \<Rightarrow> subscript option \<Rightarrow> int option \<Rightarrow> nat \<Rightarrow> rb_error + 'o heap" where
  "rb_ary_fill h item arg1 arg2 a =
     with_ary h a (\<lambda>r.
       let start = (\<lambda>b. if b < 0 then (if ary_len r + b < 0 then 0 else ary_len r + b) else b)
       in bindR (case (arg1, arg2) of
                   (Some (Rng b e excl), None) \<Rightarrow>
                     bindR (rb_range_beg_len b e excl (ary_len r) 1) (\<lambda>res.
                       case res of None \<Rightarrow> Inl RangeError | Some p \<Rightarrow> Inr p)
                 | (Some (Rng _ _ _), Some _) \<Rightarrow> Inl TypeError
                 | (Some (Idx i), None) \<Rightarrow> Inr (start i, ary_len r - start i)
                 | (Some (Idx i), Some n) \<Rightarrow> Inr (start i, n)
                 | (None, None) \<Rightarrow> Inr (0, ary_len r)
                 | (None, Some n) \<Rightarrow> Inr (0, n)) (\<lambda>(beg, len).
            bindR (rb_ary_modify h a) (\<lambda>h.
              with_ary h a (\<lambda>r.
                let end = int64 (beg + len)
                in bindR (if end > ary_len r
                          then bindR (if end \<ge> capa r then resize h a end else Inr h) (\<lambda>h.
                                 bindR (if beg > ary_len r
                                        then rb_mem_clear h a (ary_len r) (end - ary_len r) else Inr h) (\<lambda>h.
                                   Inr (set_len h a end)))
                          else Inr h) (\<lambda>h.
                     write_at h a beg (replicate (nat len) item))))))"

definition rb_ary_plus :: "'o heap \<Rightarrow> nat \<Rightarrow> nat \<Rightarrow> rb_error + 'o heap \<times> nat" where
  "rb_ary_plus h x y =
     with_ary h x (\<lambda>rx.
       with_ary h y (\<lambda>ry.
         let len = int64 (ary_len rx + ary_len ry)
         in bindR (rb_ary_new2 h len) (\<lambda>(h, z).
              bindR (read_at h x 0 (ary_len rx)) (\<lambda>vs.
                bindR (write_at h z 0 vs) (\<lambda>h.
                  bindR (read_at h y 0 (ary_len ry)) (\<lambda>ws.
                    bindR (write_at h z (ary_len rx) ws) (\<lambda>h. Inr (set_len h z len, z))))))))"

definition rb_ary_concat :: "'o heap \<Rightarrow> nat \<Rightarrow> nat \<Rightarrow> rb_error + 'o heap" where
  "rb_ary_concat h x y =
     with_ary h y (\<lambda>ry.
       with_ary h x (\<lambda>rx.
         if ary_len ry > 0 then rb_ary_update h x (ary_len rx) 0 (AryRef y) else Inr h))"

section \<open>The effect on the elements\<close>

text \<open>What \<^verbatim>\<open>a[i] = v\<close> makes of the elements: nil fills the gap past the end.\<close>

definition store_list :: "'o rval list \<Rightarrow> nat \<Rightarrow> 'o rval \<Rightarrow> 'o rval list" where
  "store_list xs i v =
     (if i < length xs then xs[i := v] else xs @ replicate (i - length xs) Qnil @ [v])"

lemma splice_within:
  "i + length vs \<le> n \<Longrightarrow> n \<le> length cells \<Longrightarrow>
   take n (take i cells @ vs @ drop (i + length vs) cells) =
   take i (take n cells) @ vs @ drop (i + length vs) (take n cells)"
  by (auto simp: drop_take min_def dest: le_antisym)

lemma store_grow_gives:
  assumes o: "owned h1 a n cells" and f: "frame a h h1" and s: "i < 2 ^ 40" "n < 2 ^ 40"
  shows "\<exists>cells'. gives a h (store_grow h1 a (int i)) n cells' \<and> take n cells' = take n cells \<and> i < length cells' \<and>
           n \<le> length cells'"
proof (cases "i < length cells")
  case True
  then show ?thesis
    using owned_ary [OF o] o f by (auto simp: store_grow_def with_ary_def gives_def owned_def)
next
  case False
  let ?nc = "max (length cells div 2) 16 + i"
  have nc: "(if int (length cells) div 2 < ARY_DEFAULT_SIZE then ARY_DEFAULT_SIZE else int (length cells) div 2) + int i = int ?nc"
    by (simp add: ARY_DEFAULT_SIZE_def) linarith
  have n: "n \<le> length cells" using o by (simp add: owned_def)
  have b: "?nc < 2 ^ 42" using s(1) False by simp
  then have i64: "int64 (int ?nc) = int ?nc" "int64 (int ?nc * 8) = int ?nc * 8" by simp_all
  have "store_grow h1 a (int i) = resize h1 a (int ?nc)"
    using owned_ary [OF o] False nc i64 by (auto simp: store_grow_def with_ary_def Let_def)
  moreover have "gives a h (resize h1 a (int ?nc)) n (take ?nc cells @ replicate (?nc - length cells) (junk h1))"
    by (rule gives_resize [OF o f refl]) (use b n False in auto)
  ultimately show ?thesis
    using n False by (intro exI [of _ "take ?nc cells @ replicate (?nc - length cells) (junk h1)"]) auto
qed

lemma store_list_splice:
  "i < n \<Longrightarrow> n \<le> length cells \<Longrightarrow> take i (take n cells) @ v # drop (Suc i) (take n cells) = store_list (take n cells) i v"
  by (simp add: store_list_def upd_conv_take_nth_drop)

lemma rb_ary_store_makes:
  assumes ok: "heap_ok h" and m: "modifiable h a" and small: "length (elems h a) < 2 ^ 40" "idx < 2 ^ 40"
    and i: "(if idx < 0 then idx + int (length (elems h a)) else idx) = int i"
  shows "makes a h (rb_ary_store h a idx v) (store_list (elems h a) i v)"
  unfolding rb_ary_store_def
proof (rule makes_modify [OF ok m], use small in simp, rule makes_with, assumption)
  fix h1 :: "'a heap" and cells r
  let ?n = "length (elems h a)" and ?len = "int (length (elems h a))"
  assume 1: "owned h1 a ?n cells" "take ?n cells = elems h a" "?n \<le> length cells" "frame a h h1" and r: "ary_len r = ?len"
  have i40: "i < 2 ^ 40" using i small by (auto split: if_splits)
  obtain c2 where 2: "gives a h (store_grow h1 a (int i)) ?n c2" "take ?n c2 = elems h a" "i < length c2" "?n \<le> length c2"
    using store_grow_gives [OF 1(1,4) i40 small(1)] 1(2) by auto
  let ?k = "\<lambda>h. bindR (if ?len < int i then rb_mem_clear h a ?len (int64 (int i - ?len + 1)) else Inr h) (\<lambda>h.
                let h = (if ?len \<le> int i then set_len h a (int64 (int i + 1)) else h)
                in write_at h a (int i) [v])"
  have 3: "makes a h (?k h2) (store_list (elems h a) i v)"
    if h2: "owned h2 a ?n c2" "frame a h h2" for h2
  proof (cases "i < ?n")
    case True
    then show ?thesis
      using gives_makes [OF gives_write [OF h2 refl, of i "[v]"]] splice_within [of i "[v]" ?n c2] 2
        store_list_splice [of i ?n c2 v] by simp
  next
    case False
    have s: "int64 (int i + 1) = int (Suc i)" "int64 (int i - ?len + 1) = int (Suc i - ?n)" using i40 small(1) False by auto
    have fin: "makes a h (write_at (set_len h3 a (int (Suc i))) a (int i) [v]) (take i c3 @ [v])"
      if h3: "owned h3 a ?n c3" "frame a h h3" "length c3 = length c2" for h3 c3
      using gives_makes [OF gives_write [OF set_len_owned [OF h3(1,2) refl, of "Suc i"] refl, of i "[v]"]] h3(3) 2(3)
      by simp
    show ?thesis
    proof (cases "i = ?n")
      case True
      then show ?thesis using fin [OF h2 refl] s 2(2) by (simp add: store_list_def)
    next
      case F: False
      let ?c3 = "take ?n c2 @ replicate (Suc i - ?n) Qnil @ drop (Suc i) c2"
      have g: "gives a h (rb_mem_clear h2 a ?len (int (Suc i - ?n))) ?n ?c3"
        using gives_memfill [OF h2 refl refl, where j = ?n and k = "Suc i - ?n" and v = Qnil] 2(3) False F by (simp add: rb_mem_clear_memfill)
      have l: "take i ?c3 @ [v] = store_list (elems h a) i v"
        using False F 2 by (simp add: store_list_def)
      have "length ?c3 = length c2" using 2(3,4) False by simp
      then have "makes a h (bindR (rb_mem_clear h2 a ?len (int (Suc i - ?n))) (\<lambda>h.
          write_at (set_len h a (int (Suc i))) a (int i) [v])) (store_list (elems h a) i v)"
        using fin [where ?c3.0 = ?c3, unfolded l] by (intro makes_bind [OF g]) blast
      then show ?thesis using False F s by simp
    qed
  qed
  show "makes a h (let len = ary_len r; idx = if idx < 0 then idx + len else idx
     in if idx < 0 then Inl IndexError
        else bindR (store_grow h1 a idx) (\<lambda>h.
               bindR (if len < idx then rb_mem_clear h a len (int64 (idx - len + 1)) else Inr h) (\<lambda>h.
                 let h = if len \<le> idx then set_len h a (int64 (idx + 1)) else h in write_at h a idx [v])))
     (store_list (elems h a) i v)"
  proof -
    have "makes a h (bindR (store_grow h1 a (int i)) ?k) (store_list (elems h a) i v)"
      by (rule makes_bind [OF 2(1)], rule 3)
    then show ?thesis unfolding Let_def r i by simp
  qed
qed

lemma store_list_end: "store_list xs (length xs) v = xs @ [v]"
  by (simp add: store_list_def)

lemma modifiable_ary: "modifiable h a \<Longrightarrow> \<exists>r. arys h a = Some r"
  by (auto simp: modifiable_def)

lemma rb_ary_push_yields:
  assumes "heap_ok h" "modifiable h a" "length (elems h a) < 2 ^ 40"
  shows "yields a h (rb_ary_push h a v) (elems h a @ [v])"
proof -
  obtain r where "arys h a = Some r" using modifiable_ary [OF assms(2)] by blast
  then show ?thesis
    using makes_yields [OF rb_ary_store_makes [OF assms, of "int (length (elems h a))" "length (elems h a)" v]] assms(3)
      ok_elems_length [OF assms(1)] by (simp add: rb_ary_push_def with_ary_def store_list_end)
qed

lemma push_loop_yields:
  assumes "heap_ok h" "modifiable h a" "length (elems h a) + length vs \<le> 2 ^ 40"
  shows "yields a h (push_loop h a vs) (elems h a @ vs)"
  using assms
proof (induction vs arbitrary: h)
  case Nil
  then show ?case by (simp add: yields_def)
next
  case (Cons v vs)
  have "yields a h (rb_ary_push h a v) (elems h a @ [v])"
    using Cons.prems by (intro rb_ary_push_yields) auto
  then have "yields a h (bindR (rb_ary_push h a v) (\<lambda>h. push_loop h a vs)) (elems h a @ v # vs)"
  proof (rule yields_then)
    fix h1 assume 1: "heap_ok h1" "elems h1 a = elems h a @ [v]" "frame a h h1"
    have "yields a h1 (push_loop h1 a vs) (elems h1 a @ vs)"
      using Cons.prems 1 by (intro Cons.IH frame_modifiable [OF 1(3)]) auto
    then show "yields a h (push_loop h1 a vs) (elems h a @ v # vs)"
      using yields_trans [OF 1(3)] 1(2) by simp
  qed
  then show ?case by simp
qed

lemma cell_elems:
  assumes "heap_ok h" "arys h a = Some r" "i < length (elems h a)"
  shows "cell h a (int i) = Inr (elems h a ! i)"
  using read_elems [OF assms(1,2), of i 1] assms(3)
  by (simp add: cell_def hd_drop_conv_nth take_Suc hd_conv_nth)

text \<open>Moving the window of an array over its buffer; only a shared array moves its start.\<close>

lemma reslice:
  assumes ok: "heap_ok h" and r: "arys h a = Some r" and d: "d + n \<le> length (elems h a)" "d = 0 \<or> elts_shared r"
    and h': "h' = upd_ary h a (\<lambda>r. r\<lparr>ary_ptr := map_option (\<lambda>(b, off). (b, off + d)) (ary_ptr r), ary_len := int n\<rparr>)"
  shows "heap_ok h' \<and> elems h' a = take n (drop d (elems h a)) \<and> frame a h h'"
proof -
  let ?r = "r\<lparr>ary_ptr := map_option (\<lambda>(b, off). (b, off + d)) (ary_ptr r), ary_len := int n\<rparr>"
  have hs: "arys h' = (arys h)(a := Some ?r)" "bufs h' = bufs h" "roots h' = roots h" "fresh h' = fresh h"
    "safe_level h' = safe_level h"
    using r h' by (simp_all add: upd_ary_def)
  have b: "buf_of ?r = buf_of r" "elts_shared ?r = elts_shared r"
    by (cases "ary_ptr r"; auto simp: buf_of_def elts_shared_def)+
  note len = ok_elems_length [OF ok r]
  note okr = heap_ok_ary [OF ok r]
  have el: "elems h' a = take n (drop d (elems h a))" using hs r d(1) len
    by (auto simp: elems_def drop_take add.commute min_def split: option.splits)
  have okr': "ary_ok h' ?r"
  proof (cases "ary_aux r")
    case (Capa c)
    then have "d = 0" using d(2) by (simp add: elts_shared_def)
    then show ?thesis using Capa okr hs d(1) len by (auto simp: ary_ok_def split: option.splits)
  next
    case (Shared s)
    then show ?thesis using okr hs d(1) len by (auto simp: ary_ok_def split: option.splits)
  qed
  have "heap_ok h'"
  proof (rule heap_ok_update [OF ok, of a _ ?r])
    fix x y z assume "buf_of ?r = Some x" "y \<noteq> a" "arys h y = Some z" "buf_of z = Some x"
    then show "elts_shared ?r \<and> elts_shared z"
      using ok r b unfolding heap_ok_def exclusive_def by metis
  next
    fix x y z assume "buf_of ?r = Some x" "roots h y = Some z" "buf_of z = Some x"
    then show "elts_shared ?r" using ok r b unfolding heap_ok_def exclusive_def by metis
  qed (use hs r ok okr' in \<open>auto simp: heap_ok_def\<close>)
  moreover have "elems h' x = elems h x" if "x \<noteq> a" for x
    using that hs by (intro elems_cong) auto
  ultimately show ?thesis using hs r el by (auto simp: frame_def view_def flags_def)
qed

lemma set_len_reslice:
  "set_len h a (int n) = upd_ary h a (\<lambda>r. r\<lparr>ary_ptr := map_option (\<lambda>(b, off). (b, off + 0)) (ary_ptr r), ary_len := int n\<rparr>)"
proof -
  have "r\<lparr>ary_len := x\<rparr> = r\<lparr>ary_ptr := map_option (\<lambda>(b, off). (b, off + 0)) (ary_ptr r), ary_len := x\<rparr>" for r :: rarray and x
    by (cases "ary_ptr r"; cases r) auto
  then show ?thesis unfolding set_len_def by presburger
qed

lemma shrink_len:
  assumes "heap_ok h" "arys h a = Some r" "n \<le> length (elems h a)"
  shows "heap_ok (set_len h a (int n)) \<and> elems (set_len h a (int n)) a = take n (elems h a) \<and> frame a h (set_len h a (int n))"
  using reslice [OF assms(1,2) _ _ set_len_reslice] assms(3) by simp

lemma rb_ary_pop_ok:
  assumes ok: "heap_ok h" and m: "modifiable h a" and small: "length (elems h a) < 2 ^ 40"
  shows "\<exists>h'. rb_ary_pop h a = Inr (h', if elems h a = [] then Qnil else last (elems h a)) \<and> heap_ok h' \<and>
           elems h' a = butlast (elems h a) \<and> frame a h h'"
proof -
  obtain r where r: "arys h a = Some r" using modifiable_ary [OF m] by blast
  note len = ok_elems_length [OF ok r]
  note mc = rb_ary_modify_check_ok [OF m]
  show ?thesis
  proof (cases "elems h a = []")
    case True
    then show ?thesis using r len mc ok by (simp add: rb_ary_pop_def with_ary_def)
  next
    case False
    let ?n = "length (elems h a)"
    let ?c = "\<not> elts_shared r \<and> ary_len r * 2 < capa r \<and> capa r > ARY_DEFAULT_SIZE"
    have "yields a h (if ?c then resize h a (ary_len r * 2) else Inr h) (elems h a)"
    proof (cases ?c)
      case True
      then obtain cells where o: "owned h a ?n cells" using rb_ary_modify_owned [OF ok m] small r mc
        by (force simp: rb_ary_modify_def with_ary_def)
      have "gives a h (resize h a (ary_len r * 2)) ?n (take (2 * ?n) cells @ replicate (2 * ?n - length cells) (junk h))"
        by (rule gives_resize [OF o]) (use len small in auto)
      moreover have "?n \<le> length cells" using o by (simp add: owned_def)
      ultimately show ?thesis
        using True owned_elems [OF o] by (auto intro!: makes_yields [OF gives_makes] simp: min_def)
    next
      case False
      then have "(if ?c then resize h a (ary_len r * 2) else Inr h) = Inr h" by argo
      then show ?thesis using ok by (simp add: yields_def)
    qed
    then obtain h1 where 1: "(if ?c then resize h a (ary_len r * 2) else Inr h) = Inr h1" "heap_ok h1"
      "elems h1 a = elems h a" "frame a h h1" by (auto simp: yields_def)
    obtain r1 where r1: "arys h1 a = Some r1" using modifiable_ary [OF frame_modifiable [OF 1(4) m]] by blast
    have "?n > 0" using False by simp
    let ?h2 = "set_len h1 a (int (?n - 1))"
    have 2: "heap_ok ?h2 \<and> elems ?h2 a = butlast (elems h a) \<and> frame a h1 ?h2"
      using shrink_len [OF 1(2) r1, of "?n - 1"] 1(3) by (simp add: butlast_conv_take)
    have "cell ?h2 a (int (?n - 1)) = cell h1 a (int (?n - 1))"
      using r1 by (auto simp: cell_def read_at_def with_ary_def set_len_def upd_ary_def split: option.splits)
    also have "\<dots> = Inr (last (elems h a))"
      using cell_elems [OF 1(2) r1, of "?n - 1"] 1(3) False by (simp add: last_conv_nth)
    finally show ?thesis
      using 1(1,4) 2 r mc len False \<open>?n > 0\<close> frame_trans
      by (auto simp: rb_ary_pop_def with_ary_def of_nat_diff)
  qed
qed

lemma rb_ary_shift_ok:
  assumes ok: "heap_ok h" and m: "modifiable h a"
  shows "\<exists>h'. rb_ary_shift h a = Inr (h', if elems h a = [] then Qnil else hd (elems h a)) \<and> heap_ok h' \<and>
           elems h' a = tl (elems h a) \<and> frame a h h'"
proof -
  obtain r where r: "arys h a = Some r" using modifiable_ary [OF m] by blast
  note len = ok_elems_length [OF ok r]
  note mc = rb_ary_modify_check_ok [OF m]
  show ?thesis
  proof (cases "elems h a = []")
    case True
    then show ?thesis using r len mc ok by (simp add: rb_ary_shift_def with_ary_def)
  next
    case False
    let ?n = "length (elems h a)"
    obtain h1 s where 1: "ary_make_shared h a = Inr h1" "heap_ok h1" "extends h h1"
      "arys h1 a = Some (r\<lparr>ary_aux := Shared s\<rparr>)"
      using ary_make_shared_ok [OF ok r] by blast
    have e1: "elems h1 a = elems h a" using extends_elems [OF 1(3) r] by blast
    let ?h2 = "upd_ary h1 a (\<lambda>r. r\<lparr>ary_ptr := map_option (\<lambda>(b, off). (b, off + 1)) (ary_ptr r), ary_len := int (?n - 1)\<rparr>)"
    let ?h3 = "upd_ary h1 a (\<lambda>r. r\<lparr>ary_ptr := map_option (\<lambda>(b, off). (b, off + 1)) (ary_ptr r), ary_len := ary_len r - 1\<rparr>)"
    have "?n > 0" using False by simp
    have "int (?n - 1) = ary_len r - 1" using len \<open>?n > 0\<close> by linarith
    then have "?h2 = ?h3" using 1(4) by (simp add: upd_ary_def)
    moreover have "heap_ok ?h2 \<and> elems ?h2 a = tl (elems h a) \<and> frame a h1 ?h2"
      using reslice [OF 1(2,4) _ _ refl, of 1 "?n - 1"] e1 \<open>?n > 0\<close>
      by (simp add: elts_shared_def drop_Suc del: of_nat_diff)
    moreover have "frame a h h1" by (rule extends_frame [OF 1(3)])
    moreover have "cell h a 0 = Inr (hd (elems h a))"
      using cell_elems [OF ok r, of 0] False by (simp add: hd_conv_nth)
    ultimately show ?thesis
      using r mc len False 1(1) frame_trans by (auto simp: rb_ary_shift_def with_ary_def)
  qed
qed

lemma rb_ary_unshift_makes:
  assumes ok: "heap_ok h" and m: "modifiable h a" and small: "length (elems h a) < 2 ^ 40"
  shows "makes a h (rb_ary_unshift h a v) (v # elems h a)"
  unfolding rb_ary_unshift_def
proof (rule makes_modify [OF ok m], use small in simp, rule makes_with, assumption)
  fix h1 :: "'a heap" and cells :: "'a rval list" and r
  let ?n = "length (elems h a)" and ?c = "length cells"
  assume 1: "owned h1 a ?n cells" "take ?n cells = elems h a" "?n \<le> ?c" "frame a h h1"
    and r: "ary_len r = int ?n" "capa r = int ?c"
  let ?inc = "max (?c div 2) 16"
  have inc: "(if int ?c div 2 < ARY_DEFAULT_SIZE then ARY_DEFAULT_SIZE else int ?c div 2) = int ?inc"
    by (simp add: ARY_DEFAULT_SIZE_def) linarith
  have tail: "makes a h (bindR (read_at h2 a 0 (int ?n)) (\<lambda>vs.
         bindR (write_at h2 a 1 vs) (\<lambda>h. write_at (set_len h a (int ?n + 1)) a 0 [v]))) (v # elems h a)"
    if h2: "owned h2 a ?n c2" "frame a h h2" "take ?n c2 = take ?n cells" "Suc ?n \<le> length c2" for h2 c2
  proof (rule makes_read [OF h2(1), of _ 0 _ ?n])
    let ?c3 = "take 1 c2 @ elems h a @ drop (Suc ?n) c2"
    have g: "gives a h (write_at h2 a 1 (elems h a)) ?n ?c3"
      using gives_write [OF h2(1,2), of 1 1 "elems h a"] h2(4) by simp
    have l3: "length ?c3 = length c2" using h2(4) by simp
    have "makes a h (bindR (write_at h2 a 1 (elems h a)) (\<lambda>h. write_at (set_len h a (int ?n + 1)) a 0 [v])) (v # elems h a)"
    proof (rule makes_bind [OF g])
      fix h3 assume h3: "owned h3 a ?n ?c3" "frame a h h3"
      have "gives a h (write_at (set_len h3 a (int ?n + 1)) a 0 [v]) (Suc ?n) (v # drop 1 ?c3)"
        using gives_write [OF set_len_owned [OF h3, of "int ?n + 1" "Suc ?n"], of 0 0 "[v]"] h2(4) l3 by simp
      then show "makes a h (write_at (set_len h3 a (int ?n + 1)) a 0 [v]) (v # elems h a)"
        by (rule gives_makes) (use h2(4) in \<open>cases c2; simp\<close>)
    qed
    then show "makes a h (bindR (write_at h2 a 1 (take ?n (drop 0 c2))) (\<lambda>h. write_at (set_len h a (int ?n + 1)) a 0 [v]))
        (v # elems h a)" using h2(3) 1(2) by simp
  qed (use h2(4) in auto)
  show "makes a h (bindR (if ary_len r = capa r
         then let capa_inc = capa r div 2; capa_inc = if capa_inc < ARY_DEFAULT_SIZE then ARY_DEFAULT_SIZE else capa_inc
              in resize h1 a (int64 (capa r + capa_inc)) else Inr h1) (\<lambda>h.
       bindR (read_at h a 0 (ary_len r)) (\<lambda>vs.
         bindR (write_at h a 1 vs) (\<lambda>h. write_at (set_len h a (ary_len r + 1)) a 0 [v])))) (v # elems h a)"
    unfolding Let_def r inc
    by (rule makes_resize [OF 1(1,4), where m = "?c + ?inc" and need = "Suc ?n"])
      (use 1(3) small tail in auto)
qed

lemma rb_ary_unshift_m_makes:
  assumes ok: "heap_ok h" and m: "modifiable h a" and small: "length (elems h a) + length vs < 2 ^ 40" and ne: "vs \<noteq> []"
  shows "makes a h (rb_ary_unshift_m h vs a) (vs @ elems h a)"
proof -
  let ?n = "length (elems h a)" and ?k = "length vs"
  obtain r where r: "arys h a = Some r" using modifiable_ary [OF m] by blast
  note len = ok_elems_length [OF ok r]
  have k: "?k > 0" using ne by simp
  have "ary_len r + int ?k - 1 = int (?n + ?k - 1)" using len k by linarith
  then have i: "int64 (ary_len r + int ?k - 1) = int (?n + ?k - 1)" using small by simp
  let ?st = "elems h a @ replicate ?k Qnil"
  have "store_list (elems h a) (?n + ?k - 1) Qnil = ?st"
    using k by (cases ?k) (auto simp: store_list_def replicate_append_same)
  then have st: "makes a h (rb_ary_store h a (int (?n + ?k - 1)) Qnil) ?st"
    using rb_ary_store_makes [OF ok m _ _, of "int (?n + ?k - 1)" "?n + ?k - 1" Qnil] small by simp
  have "makes a h (bindR (rb_ary_store h a (int (?n + ?k - 1)) Qnil) (\<lambda>h.
      bindR (read_at h a 0 (int ?n)) (\<lambda>ws. bindR (write_at h a (int ?k) ws) (\<lambda>h. write_at h a 0 vs)))) (vs @ elems h a)"
  proof (rule makes_then [OF st])
    fix h1 cells
    assume 1: "owned h1 a (length ?st) cells" "take (length ?st) cells = ?st" "length ?st \<le> length cells" "frame a h h1"
    have t: "take ?n cells = elems h a" using 1(2) by (metis append_eq_conv_conj take_take length_append le_add1 min.absorb1)
    let ?c2 = "take ?k cells @ elems h a @ drop (?k + ?n) cells"
    have g: "gives a h (write_at h1 a (int ?k) (elems h a)) (length ?st) ?c2"
      by (rule gives_write [OF 1(1,4) refl]) (use 1(3) in simp)
    have "makes a h (bindR (write_at h1 a (int ?k) (take ?n (drop 0 cells))) (\<lambda>h. write_at h a 0 vs)) (vs @ elems h a)"
      unfolding drop_0 t
    proof (rule makes_bind [OF g])
      fix h2 assume 2: "owned h2 a (length ?st) ?c2" "frame a h h2"
      have "gives a h (write_at h2 a 0 vs) (length ?st) (take 0 ?c2 @ vs @ drop (0 + ?k) ?c2)"
        by (rule gives_write [OF 2]) (use 1(3) in simp_all)
      then show "makes a h (write_at h2 a 0 vs) (vs @ elems h a)"
        by (rule gives_makes) (use 1(3) in simp)
    qed
    then show "makes a h (bindR (read_at h1 a 0 (int ?n)) (\<lambda>ws. bindR (write_at h1 a (int ?k) ws) (\<lambda>h. write_at h a 0 vs)))
        (vs @ elems h a)"
      by (intro makes_read [OF 1(1), of _ 0 _ ?n]) (use 1(3) in auto)
  qed
  then show ?thesis using ne r i len by (simp add: rb_ary_unshift_m_def with_ary_def)
qed

lemma extends_read:
  assumes "heap_ok h'" "extends h h'" "arys h a = Some r"
  shows "read_at h' a 0 (int (length (elems h a))) = Inr (elems h a)"
proof -
  obtain r' where "arys h' a = Some r'" "elems h' a = elems h a" using extends_elems [OF assms(2,3)] by blast
  then show ?thesis using read_elems [OF assms(1), of a r' 0 "length (elems h a)"] by simp
qed

text \<open>What \<^verbatim>\<open>a[i]\<close> reads, for an index counted from either end.\<close>

definition entry_list :: "'o rval list \<Rightarrow> int \<Rightarrow> 'o rval" where
  "entry_list xs i =
     (let j = (if i < 0 then i + int (length xs) else i)
      in if 0 \<le> j \<and> j < int (length xs) then xs ! nat j else Qnil)"

lemma rb_ary_entry_eq:
  assumes ok: "heap_ok h" and r: "arys h a = Some r"
  shows "rb_ary_entry h a i = Inr (entry_list (elems h a) i)"
proof -
  note len = ok_elems_length [OF ok r]
  have "cell h a j = Inr (elems h a ! nat j)" if "0 \<le> j" "j < int (length (elems h a))" for j
    using cell_elems [OF ok r, of "nat j"] that by simp
  then show ?thesis
    using r len by (auto simp: rb_ary_entry_def entry_list_def with_ary_def Let_def)
qed

lemma root_shared:
  "heap_ok h \<Longrightarrow> roots h s = Some root \<Longrightarrow> buf_of root = Some b \<Longrightarrow> arys h a = Some r \<Longrightarrow> buf_of r = Some b \<Longrightarrow> elts_shared r"
  unfolding heap_ok_def exclusive_def by blast

text \<open>A slice is a new array, and in the source it shares the buffer of the old one.\<close>

lemma rb_ary_subseq_creates:
  assumes ok: "heap_ok h" and r: "arys h a = Some r"
    and i: "i \<le> length (elems h a)" and l: "int i + int l < 2 ^ 63"
  shows "\<exists>h' b. rb_ary_subseq h a (int i) (int l) = Inr (h', AryRef b) \<and> heap_ok h' \<and> extends h h' \<and>
           arys h b = None \<and> modifiable h' b \<and> elems h' b = take l (drop i (elems h a))"
proof -
  let ?n = "length (elems h a)"
  note len = ok_elems_length [OF ok r]
  let ?l = "min l (?n - i)"
  have cl: "(if int64 (int i + int l) > ary_len r then (if ary_len r - int i < 0 then 0 else ary_len r - int i) else int l) = int ?l"
    using i l len by (auto simp: min_def of_nat_diff)
  show ?thesis
  proof (cases "?l = 0")
    case True
    have "creates h (ary_new h 0) []" using ary_new_creates [OF ok, of 0] by simp
    moreover have "take l (drop i (elems h a)) = []" using True by (auto simp: min_def split: if_splits)
    moreover have "rb_ary_subseq h a (int i) (int l) = bindR (ary_new h 0) (\<lambda>(h, b). Inr (h, AryRef b))"
      using r i len cl True by (simp add: rb_ary_subseq_def with_ary_def)
    ultimately show ?thesis by (auto simp: creates_def)
  next
    case False
    obtain h1 s where 1: "ary_make_shared h a = Inr h1" "heap_ok h1" "extends h h1"
      "arys h1 a = Some (r\<lparr>ary_aux := Shared s\<rparr>)" "bufs h1 = bufs h"
      "\<forall>b. buf_of r = Some b \<longrightarrow> (\<exists>root. roots h1 s = Some root \<and> buf_of root = Some b)"
      using ary_make_shared_ok [OF ok r] by blast
    have "elems h a \<noteq> []" using False by auto
    then obtain b off cells where b: "ary_ptr r = Some (b, off)" "bufs h b = Some cells"
      using r by (auto simp: elems_def split: option.splits)
    have fit: "off + ?n \<le> length cells" using heap_ok_ary [OF ok r] b len by (auto simp: ary_ok_def)
    let ?r2 = "\<lparr>ary_len = int ?l, ary_ptr = Some (b, off + i), ary_aux = Shared s,
                frozen = False, tmplock = False, tainted = 3 \<le> safe_level h1\<rparr>"
    obtain h2 a2 where n: "new_obj h1 ?r2 = (h2, a2)" by force
    have buf: "elts_shared x" if "arys h1 y = Some x" "buf_of x = Some b" for x y
    proof -
      obtain root where "roots h1 s = Some root" "buf_of root = Some b" using 1(6) b(1) by (auto simp: buf_of_def)
      then show ?thesis using root_shared [OF 1(2) _ _ that] by blast
    qed
    have okr2: "ary_ok h1 ?r2" using 1(5,6) b fit i False by (auto simp: ary_ok_def buf_of_def min_def)
    have 2: "heap_ok h2 \<and> arys h2 a2 = Some ?r2 \<and> arys h1 a2 = None \<and> extends h1 h2 \<and> bufs h2 = bufs h1 \<and> junk h2 = junk h1"
      by (rule heap_ok_add [OF 1(2) okr2 _ _ n]) (use buf in \<open>auto simp: buf_of_def elts_shared_def\<close>)
    have "h2 = h1\<lparr>arys := (arys h1)(fresh h1 := Some ?r2), fresh := Suc (fresh h1)\<rparr>" "a2 = fresh h1"
      using n by (auto simp: new_obj_def)
    then have "rb_ary_subseq h a (int i) (int l) = Inr (h2, AryRef a2)"
      unfolding rb_ary_subseq_def with_ary_def r option.case Let_def cl 1(1) bindR_simps 1(4) rb_ary_s_alloc_def
        new_obj_def prod.case upd_ary_def
      using i len False b(1) by (cases "?l = 0") auto
    moreover have "elems h2 a2 = take l (drop i (elems h a))"
    proof -
      have "elems h a = take ?n (drop off cells)" using r b len by (simp add: elems_def)
      moreover have "elems h2 a2 = take ?l (drop (off + i) cells)" using 2 b 1(5) by (simp add: elems_def)
      ultimately show ?thesis by (metis drop_drop drop_take take_take add.commute)
    qed
    moreover have "arys h a2 = None" using 1(3) 2 by (metis extends_elems option.collapse option.distinct(1))
    moreover have "modifiable h2 a2"
      using 2 by (intro fresh_modifiable [of h1]) (auto simp: flags_def)
    ultimately show ?thesis using 2 extends_trans [OF 1(3)] by blast
  qed
qed

subsection \<open>Splicing\<close>

text \<open>What \<^verbatim>\<open>a[i, l] = vs\<close> makes of the elements.\<close>

definition update_list :: "'o rval list \<Rightarrow> nat \<Rightarrow> nat \<Rightarrow> 'o rval list \<Rightarrow> 'o rval list" where
  "update_list xs i l vs =
     (if length xs \<le> i then xs @ replicate (i - length xs) Qnil @ vs else take i xs @ vs @ drop (i + l) xs)"

lemma update_past_end_makes:
  assumes o: "owned h1 a n cells" and f: "frame a h h1" and b: "arys h b = Some rb" "b \<noteq> a"
    and i: "n \<le> i" "i + length (elems h b) < 2 ^ 44"
  shows "makes a h (update_past_end h1 a (int i) b (int (length (elems h b))))
           (take n cells @ replicate (i - n) Qnil @ elems h b)"
  unfolding update_past_end_def Let_def
proof (rule makes_with [OF o])
  fix r
  let ?vs = "elems h b" and ?k = "length (elems h b)"
  assume r: "ary_len r = int n" "capa r = int (length cells)"
  have n: "n \<le> length cells" using o by (simp add: owned_def)
  have i64: "int64 (int i + int ?k) = int (i + ?k)" using i by simp
  show "makes a h (bindR (if capa r \<le> int64 (int i + int ?k) then resize h1 a (int64 (int i + int ?k)) else Inr h1) (\<lambda>h.
      bindR (rb_mem_clear h a (ary_len r) (int i - ary_len r)) (\<lambda>h.
        bindR (read_at h b 0 (int ?k)) (\<lambda>vs.
          bindR (write_at h a (int i) vs) (\<lambda>h. Inr (set_len h a (int64 (int i + int ?k)))))))) (take n cells @ replicate (i - n) Qnil @ ?vs)"
    unfolding r i64
  proof (rule makes_resize [OF o f, where m = "i + ?k" and need = "i + ?k"])
    fix h2 c2 assume 2: "owned h2 a n c2" "frame a h h2" "take n c2 = take n cells" "n \<le> length c2" "i + ?k \<le> length c2"
    let ?c3 = "take n c2 @ replicate (i - n) Qnil @ drop (n + (i - n)) c2"
    have g: "gives a h (rb_mem_clear h2 a (int n) (int i - int n)) n ?c3"
      unfolding rb_mem_clear_memfill by (rule gives_memfill [OF 2(1,2) refl]) (use i 2 in auto)
    show "makes a h (bindR (rb_mem_clear h2 a (int n) (int i - int n)) (\<lambda>h.
        bindR (read_at h b 0 (int ?k)) (\<lambda>vs.
          bindR (write_at h a (int i) vs) (\<lambda>h. Inr (set_len h a (int (i + ?k))))))) (take n cells @ replicate (i - n) Qnil @ ?vs)"
    proof (rule makes_bind [OF g])
      fix h3 assume 3: "owned h3 a n ?c3" "frame a h h3"
      have rd: "read_at h3 b 0 (int ?k) = Inr ?vs" by (rule read_other [OF owned_ok [OF 3(1)] 3(2) b refl])
      have g4: "gives a h (write_at h3 a (int i) ?vs) n (take i ?c3 @ ?vs @ drop (i + ?k) ?c3)"
        by (rule gives_write [OF 3 refl]) (use 2 i n in simp)
      show "makes a h (bindR (read_at h3 b 0 (int ?k)) (\<lambda>vs.
          bindR (write_at h3 a (int i) vs) (\<lambda>h. Inr (set_len h a (int (i + ?k)))))) (take n cells @ replicate (i - n) Qnil @ ?vs)"
        unfolding rd bindR_simps
        by (rule makes_bind [OF g4], rule makes_set_len, assumption, assumption, rule refl) (use 2 i n in auto)
    qed
  qed (use i n in auto)
qed

lemma update_within_makes:
  assumes o: "owned h1 a n cells" and f: "frame a h h1" and b: "arys h b = Some rb" "b \<noteq> a"
    and i: "i < n" "i + l \<le> n" "n + length (elems h b) < 2 ^ 44"
  shows "makes a h (update_within h1 a (int i) (int l) b (int (length (elems h b))))
           (take i (take n cells) @ elems h b @ drop (i + l) (take n cells))"
  unfolding update_within_def Let_def
proof (rule makes_with [OF o])
  fix r
  let ?vs = "elems h b" and ?k = "length (elems h b)"
  assume r: "ary_len r = int n" "capa r = int (length cells)"
  have n: "n \<le> length cells" using o by (simp add: owned_def)
  let ?al = "n + ?k - l"
  have cl: "(if int64 (int i + int l) > int n then int n - int i else int l) = int l" using i by simp
  have al: "int64 (int n + int ?k - int l) = int ?al" using i by (simp add: of_nat_diff)
  let ?xs = "take i (take n cells) @ ?vs @ drop (i + l) (take n cells)"
  let ?mv = "\<lambda>h. if int l \<noteq> int ?k
       then bindR (read_at h a (int i + int l) (int n - (int i + int l))) (\<lambda>tail.
              bindR (write_at h a (int i + int ?k) tail) (\<lambda>h. Inr (set_len h a (int ?al))))
       else Inr h"
  have fin: "makes a h (bindR (read_at h3 b 0 (int ?k)) (\<lambda>vs. write_at h3 a (int i) vs)) ?xs"
    if 3: "owned h3 a ?al c3" "frame a h h3" "take i c3 = take i cells" "i + ?k \<le> length c3" "?al \<le> length c3"
      "drop (i + ?k) (take ?al c3) = drop (i + l) (take n cells)" for h3 c3
  proof -
    have rd: "read_at h3 b 0 (int ?k) = Inr ?vs" by (rule read_other [OF owned_ok [OF 3(1)] 3(2) b refl])
    have g: "gives a h (write_at h3 a (int i) ?vs) ?al (take i c3 @ ?vs @ drop (i + ?k) c3)"
      by (rule gives_write [OF 3(1,2) refl 3(4)])
    have "take ?al (take i c3 @ ?vs @ drop (i + ?k) c3) = ?xs"
      using splice_within [of i ?vs ?al c3] 3 i by (simp add: min_def)
    then show ?thesis unfolding rd bindR_simps by (rule gives_makes [OF g])
  qed
  show "makes a h (bindR (if capa r \<le> int64 (ary_len r + int ?k - (if int64 (int i + int l) > ary_len r then ary_len r - int i else int l))
        then resize h1 a (int64 (ary_len r + int ?k - (if int64 (int i + int l) > ary_len r then ary_len r - int i else int l)))
        else Inr h1) (\<lambda>h. bindR
       (if (if int64 (int i + int l) > ary_len r then ary_len r - int i else int l) \<noteq> int ?k
        then bindR (read_at h a (int i + (if int64 (int i + int l) > ary_len r then ary_len r - int i else int l))
                (ary_len r - (int i + (if int64 (int i + int l) > ary_len r then ary_len r - int i else int l)))) (\<lambda>tail.
               bindR (write_at h a (int i + int ?k) tail) (\<lambda>h. Inr (set_len h a
                 (int64 (ary_len r + int ?k - (if int64 (int i + int l) > ary_len r then ary_len r - int i else int l))))))
        else Inr h) (\<lambda>h. bindR (read_at h b 0 (int ?k)) (write_at h a (int i))))) ?xs"
    unfolding r cl al
  proof (rule makes_resize [OF o f, where m = ?al and need = ?al])
    fix h2 c2 assume 2: "owned h2 a n c2" "frame a h h2" "take n c2 = take n cells" "n \<le> length c2" "?al \<le> length c2"
    have ti: "take i c2 = take i cells" using 2(3) i by (metis min.absorb1 less_imp_le take_take)
    show "makes a h (bindR (?mv h2) (\<lambda>h. bindR (read_at h b 0 (int ?k)) (write_at h a (int i)))) ?xs"
    proof (cases "l = ?k")
      case True
      then show ?thesis using fin [of h2 c2] 2 ti i by simp
    next
      case False
      let ?tail = "drop (i + l) (take n cells)"
      have tl: "take (n - (i + l)) (drop (i + l) c2) = ?tail" using 2(3) by (metis drop_take)
      let ?c3 = "take (i + ?k) c2 @ ?tail @ drop (i + ?k + length ?tail) c2"
      have lt: "i + ?k + length ?tail = ?al" using i n by simp
      have g: "gives a h (write_at h2 a (int i + int ?k) ?tail) n ?c3"
        by (rule gives_write [OF 2(1,2)]) (use lt 2(5) in auto)
      have "read_at h2 a (int i + int l) (int n - (int i + int l)) = Inr ?tail"
        using owned_read [OF 2(1), of "i + l" "n - (i + l)"] tl i 2(4) by (simp add: of_nat_diff)
      moreover have "makes a h (bindR (write_at h2 a (int i + int ?k) ?tail) (\<lambda>h.
          bindR (read_at (set_len h a (int ?al)) b 0 (int ?k)) (\<lambda>vs. write_at (set_len h a (int ?al)) a (int i) vs))) ?xs"
      proof (rule makes_bind [OF g])
        fix h3 assume 3: "owned h3 a n ?c3" "frame a h h3"
        have le: "?al \<le> length ?c3" using lt 2(5) by simp
        have ik: "i + ?k \<le> length c2" using lt 2(5) by linarith
        have "take i ?c3 = take i cells" using ti ik by simp
        moreover have "i + ?k \<le> length ?c3" using ik by simp
        moreover have "drop (i + ?k) (take ?al ?c3) = ?tail" using lt 2(5) by simp
        ultimately show "makes a h (bindR (read_at (set_len h3 a (int ?al)) b 0 (int ?k)) (write_at (set_len h3 a (int ?al)) a (int i))) ?xs"
          by (intro fin [OF set_len_owned [OF 3 refl le]] le)
      qed
      ultimately show ?thesis using False by (simp add: bindR_assoc)
    qed
  qed (use i n in auto)
qed

text \<open>The elements of the array that \<^verbatim>\<open>rb_ary_to_ary\<close> makes of a value.\<close>

definition to_ary_list :: "'o heap \<Rightarrow> 'o rval \<Rightarrow> 'o rval list" where
  "to_ary_list h v = (case v of Qnil \<Rightarrow> [] | AryRef b \<Rightarrow> elems h b | Obj _ \<Rightarrow> [v])"

definition valid_value :: "'o heap \<Rightarrow> 'o rval \<Rightarrow> bool" where
  "valid_value h v = (case v of AryRef b \<Rightarrow> arys h b \<noteq> None | _ \<Rightarrow> True)"

lemma rb_ary_to_ary_ok:
  assumes ok: "heap_ok h" and v: "valid_value h v"
  shows "\<exists>h1 b r. rb_ary_to_ary h v = Inr (h1, b) \<and> heap_ok h1 \<and> extends h h1 \<and> arys h1 b = Some r \<and>
           elems h1 b = to_ary_list h v \<and> (v = AryRef b \<or> arys h b = None)"
proof (cases v)
  case Qnil
  have "creates h (ary_new h 0) []" using ary_new_creates [OF ok, of 0] by simp
  then show ?thesis using Qnil modifiable_ary by (fastforce simp: creates_def rb_ary_to_ary_def to_ary_list_def rb_ary_new2_def)
next
  case (AryRef b)
  then show ?thesis using v ok by (auto simp: rb_ary_to_ary_def to_ary_list_def valid_value_def)
next
  case (Obj x)
  have "creates h (rb_ary_new4 h [v]) [v]" using rb_ary_new4_creates [OF ok, of "[v]"] by simp
  then show ?thesis using Obj modifiable_ary by (fastforce simp: creates_def rb_ary_to_ary_def to_ary_list_def rb_ary_new3_eq)
qed

lemma rb_ary_update_makes:
  assumes ok: "heap_ok h" and m: "modifiable h a" and v: "valid_value h v" "v \<noteq> AryRef a"
    and i: "(if beg < 0 then beg + int (length (elems h a)) else beg) = int i"
    and small: "length (elems h a) + length (to_ary_list h v) < 2 ^ 43" "i < 2 ^ 43" "int i + int l < 2 ^ 63"
  shows "makes a h (rb_ary_update h a beg (int l) v) (update_list (elems h a) i l (to_ary_list h v))"
proof -
  let ?n = "length (elems h a)"
  obtain r where r: "arys h a = Some r" using modifiable_ary [OF m] by blast
  obtain h1 b rb where 1: "rb_ary_to_ary h v = Inr (h1, b)" "heap_ok h1" "extends h h1" "arys h1 b = Some rb"
    "elems h1 b = to_ary_list h v" "v = AryRef b \<or> arys h b = None"
    using rb_ary_to_ary_ok [OF ok v(1)] by blast
  have b: "b \<noteq> a" using 1(6) v(2) r by auto
  obtain r1 where r1: "arys h1 a = Some r1" "elems h1 a = elems h a" using extends_elems [OF 1(3) r] by blast
  note m1 = extends_modifiable [OF 1(3) m]
  have len: "ary_len r1 = int ?n" "ary_len rb = int (length (elems h1 b))"
    using ok_elems_length [OF 1(2)] r1 1(4) by simp_all
  let ?l = "min l (?n - i)"
  have upd: "makes a h1 (bindR (rb_ary_modify h1 a) (\<lambda>h2. if int i \<ge> int ?n then update_past_end h2 a (int i) b (int (length (elems h1 b)))
      else update_within h2 a (int i) (if int64 (int i + int l) > int ?n then int ?n - int i else int l) b (int (length (elems h1 b)))))
      (update_list (elems h a) i l (to_ary_list h v))"
  proof (rule makes_modify [OF 1(2) m1], use small r1 in simp)
    fix h2 cells assume 2: "owned h2 a (length (elems h1 a)) cells" "take (length (elems h1 a)) cells = elems h1 a" "frame a h1 h2"
      "length (elems h1 a) \<le> length cells"
    show "makes a h1 (if int i \<ge> int ?n then update_past_end h2 a (int i) b (int (length (elems h1 b)))
      else update_within h2 a (int i) (if int64 (int i + int l) > int ?n then int ?n - int i else int l) b (int (length (elems h1 b))))
      (update_list (elems h a) i l (to_ary_list h v))"
    proof (cases "?n \<le> i")
      case True
      then show ?thesis
        using update_past_end_makes [OF 2(1,3) 1(4) b, of i] small 1(5) r1(2) 2(2) by (simp add: update_list_def)
    next
      case False
      have cl: "(if int64 (int i + int l) > int ?n then int ?n - int i else int l) = int ?l"
        using False small by (auto simp: min_def of_nat_diff)
      have "drop (i + ?l) (elems h a) = drop (i + l) (elems h a)" using False by (auto simp: min_def)
      moreover have "makes a h1 (update_within h2 a (int i) (int ?l) b (int (length (elems h1 b))))
          (take i (elems h a) @ to_ary_list h v @ drop (i + ?l) (elems h a))"
        using update_within_makes [OF 2(1,3) 1(4) b, of i ?l, unfolded 2(2), unfolded r1(2) 1(5)] False small 1(5) by auto
      ultimately show ?thesis unfolding cl using False by (simp add: update_list_def)
    qed
  qed
  have "rb_ary_update h a beg (int l) v = bindR (rb_ary_modify h1 a) (\<lambda>h2. if int i \<ge> int ?n then update_past_end h2 a (int i) b (int (length (elems h1 b)))
      else update_within h2 a (int i) (if int64 (int i + int l) > int ?n then int ?n - int i else int l) b (int (length (elems h1 b))))"
    unfolding rb_ary_update_def 1(1) bindR_simps prod.case with_ary_def 1(4) r1(1) option.case Let_def len i by simp
  then show ?thesis using makes_trans [OF extends_frame [OF 1(3)] upd] by simp
qed

subsection \<open>Whole arrays\<close>

lemma rb_ary_insert_yields:
  assumes ok: "heap_ok h" and m: "modifiable h a" and ne: "vs \<noteq> []"
    and small: "length (elems h a) + length vs < 2 ^ 43" "i < 2 ^ 43"
    and i: "(if pos = -1 then int (length (elems h a)) else if pos < -1 then pos + 1 + int (length (elems h a)) else pos) = int i"
  shows "yields a h (rb_ary_insert h pos vs a) (update_list (elems h a) i 0 vs)"
proof -
  obtain r where r: "arys h a = Some r" using modifiable_ary [OF m] by blast
  note len = ok_elems_length [OF ok r]
  have "creates h (rb_ary_new4 h vs) vs" using small by (intro rb_ary_new4_creates [OF ok]) simp
  then obtain h1 b where 1: "rb_ary_new4 h vs = Inr (h1, b)" "heap_ok h1" "extends h h1" "arys h b = None" "modifiable h1 b"
    "elems h1 b = vs" by (auto simp: creates_def)
  have e: "elems h1 a = elems h a" using extends_elems [OF 1(3) r] by blast
  let ?p = "if pos = -1 then ary_len r else if pos < 0 then pos + 1 else pos"
  have "makes a h1 (rb_ary_update h1 a ?p (int 0) (AryRef b)) (update_list (elems h1 a) i 0 (to_ary_list h1 (AryRef b)))"
    using 1 r small e i len modifiable_ary [OF 1(5)]
    by (intro rb_ary_update_makes extends_modifiable [OF 1(3) m]) (auto simp: valid_value_def to_ary_list_def split: if_splits)
  then have "yields a h (rb_ary_update h1 a ?p 0 (AryRef b)) (update_list (elems h a) i 0 vs)"
    using yields_trans [OF extends_frame [OF 1(3)] makes_yields] e 1(6) by (simp add: to_ary_list_def)
  then show ?thesis using r ne 1(1) by (simp add: rb_ary_insert_def with_ary_def)
qed

lemma rb_ary_dup_creates:
  assumes ok: "heap_ok h" and r: "arys h a = Some r" and small: "length (elems h a) < 2 ^ 44"
  shows "\<exists>h' d rd. rb_ary_dup h a = Inr (h', d) \<and> heap_ok h' \<and> extends h h' \<and> arys h d = None \<and>
           arys h' d = Some rd \<and> flags rd = (False, False, tainted r \<or> 3 \<le> safe_level h) \<and> elems h' d = elems h a"
proof -
  let ?n = "length (elems h a)"
  note len = ok_elems_length [OF ok r]
  obtain h1 d r1 where 1: "ary_new h (int ?n) = Inr (h1, d)" "owned h1 d 0 (replicate (max ?n 1) (junk h))"
    "arys h d = None" "extends h h1" "arys h1 d = Some r1" "flags r1 = (False, False, 3 \<le> safe_level h)"
    using ary_new_owned [OF ok small] by blast
  let ?r2 = "r1\<lparr>tainted := tainted r \<or> 3 \<le> safe_level h1\<rparr>"
  let ?h2 = "upd_ary h1 d (\<lambda>d. d\<lparr>tainted := tainted r \<or> 3 \<le> safe_level h1\<rparr>)"
  have h2: "arys ?h2 = (arys h1)(d := Some ?r2)" "bufs ?h2 = bufs h1" "roots ?h2 = roots h1" "fresh ?h2 = fresh h1"
    "safe_level ?h2 = safe_level h1" using 1(5) by (simp_all add: upd_ary_def)
  have same: "heap_ok ?h2" "elems ?h2 x = elems h1 x" "owned ?h2 d 0 (replicate (max ?n 1) (junk h))" for x
    using upd_flags [OF owned_ok [OF 1(2)] 1(5), of "\<lambda>d. d\<lparr>tainted := tainted r \<or> 3 \<le> safe_level h1\<rparr>"] 1(2) by simp_all
  have e2: "extends h ?h2"
    using 1(3,4) h2 same(2) by (auto simp: extends_def view_def)
  have ra: "read_at ?h2 a 0 (ary_len r) = Inr (elems h a)"
    using extends_read [OF same(1) e2 r] len by simp
  have "gives d ?h2 (write_at ?h2 d 0 (elems h a)) 0 (elems h a @ drop ?n (replicate (max ?n 1) (junk h)))"
    using gives_write [OF same(3) frame_refl, of 0 0 "elems h a"] by simp
  then have "makes d ?h2 (bindR (write_at ?h2 d 0 (elems h a)) (\<lambda>h. Inr (set_len h d (int ?n)))) (elems h a)"
    by (rule makes_bind, intro makes_set_len) auto
  then obtain h3 where 3: "bindR (write_at ?h2 d 0 (elems h a)) (\<lambda>h. Inr (set_len h d (int ?n))) = Inr h3" "heap_ok h3"
    "elems h3 d = elems h a" "frame d ?h2 h3"
    using makes_yields by (force simp: yields_def)
  have "rb_ary_dup h a = bindR (bindR (write_at ?h2 d 0 (elems h a)) (\<lambda>h. Inr (set_len h d (int ?n)))) (\<lambda>h. Inr (h, d))"
    unfolding rb_ary_dup_def rb_ary_new2_def with_ary_def r option.case Let_def
    by (simp add: 1(1) len ra [unfolded len] bindR_assoc)
  moreover have "\<exists>rd. arys h3 d = Some rd \<and> flags rd = flags ?r2"
    using 3(4) h2(1) by (cases "arys h3 d") (auto simp: frame_def)
  moreover have "flags ?r2 = (False, False, tainted r \<or> 3 \<le> safe_level h)"
    using 1(4,6) by (simp add: flags_def extends_def)
  ultimately show ?thesis using 3 frame_extends [OF 3(4) e2 1(3)] 1(3) by auto
qed

text \<open>\<^verbatim>\<open>replace\<close> makes two arrays read one buffer.\<close>

lemma rb_ary_replace_yields:
  assumes ok: "heap_ok h" and m: "modifiable h a" and r: "arys h b = Some r"
    and small: "length (elems h a) < 2 ^ 44"
  shows "yields a h (rb_ary_replace h a b) (elems h b)"
proof -
  obtain h1 cells where 1: "rb_ary_modify h a = Inr h1" "owned h1 a (length (elems h a)) cells" "frame a h h1"
    "take (length (elems h a)) cells = elems h a"
    using rb_ary_modify_owned [OF ok m small] by blast
  show ?thesis
  proof (cases "a = b")
    case True
    then show ?thesis using 1 owned_ok owned_elems by (fastforce simp: rb_ary_replace_def yields_def)
  next
    case False
    have v: "view h1 b = view h b" using 1(3) False r by (simp add: frame_def)
    then obtain r1 where r1: "arys h1 b = Some r1" using r by (auto simp: view_def)
    obtain h2 s where 2: "ary_make_shared h1 b = Inr h2" "heap_ok h2" "extends h1 h2" "bufs h2 = bufs h1"
      "arys h2 b = Some (r1\<lparr>ary_aux := Shared s\<rparr>)"
      "\<forall>x. buf_of r1 = Some x \<longrightarrow> (\<exists>root. roots h2 s = Some root \<and> buf_of root = Some x)"
      using ary_make_shared_ok [OF owned_ok [OF 1(2)] r1] by blast
    let ?rb = "r1\<lparr>ary_aux := Shared s\<rparr>"
    obtain c where c: "arys h1 a = Some c" "\<not> elts_shared c" using owned_ary [OF 1(2)] by blast
    have "arys h2 a = Some c"
      using 2(1) r1 c False by (auto simp: ary_make_shared_def with_ary_def upd_ary_def Let_def split: if_splits)
    then obtain c2 where c2: "arys h2 a = Some c2" "\<not> elts_shared c2" using c(2) by blast
    let ?h3 = "case ary_ptr c2 of Some (x, off) \<Rightarrow> if elts_shared c2 then h2 else h2\<lparr>bufs := (bufs h2)(x := None)\<rparr> | None \<Rightarrow> h2"
    let ?c = "c2\<lparr>ary_ptr := ary_ptr ?rb, ary_len := ary_len ?rb, ary_aux := ary_aux ?rb\<rparr>"
    define h4 where "h4 = upd_ary ?h3 a (\<lambda>c. c\<lparr>ary_ptr := ary_ptr ?rb, ary_len := ary_len ?rb, ary_aux := ary_aux ?rb\<rparr>)"
    have h4s: "arys h4 = (arys h2)(a := Some ?c)" "roots h4 = roots h2" "fresh h4 = fresh h2" "safe_level h4 = safe_level h2"
      using c2 by (auto simp: h4_def upd_ary_def split: option.splits)
    have bf: "bufs h4 x = bufs h2 x" if "buf_of c2 \<noteq> Some x" for x
      using that by (auto simp: h4_def upd_ary_def buf_of_def split: option.splits)
    have "bufs h4 x = bufs h2 x \<or> bufs h4 x = None" for x
      by (auto simp: h4_def upd_ary_def split: option.splits)
    then have dead: "bufs h4 i = None" if "fresh h4 \<le> i" for i
      using that 2(2) h4s(3) unfolding heap_ok_def by metis
    have keep: "bufs h4 x = bufs h2 x" if "y \<noteq> a" "arys h2 y = Some z" "buf_of z = Some x" for x y z
      using bf that 2(2) c2 unfolding heap_ok_def exclusive_def by metis
    have keepr: "bufs h4 x = bufs h2 x" if "roots h2 y = Some z" "buf_of z = Some x" for x y z
      using bf that 2(2) c2 unfolding heap_ok_def exclusive_def by metis
    have okc: "ary_ok h4 ?c"
    proof -
      have "ary_ok h2 ?c" by (rule ary_ok_same [OF heap_ok_ary [OF 2(2,5)]]) simp_all
      then show ?thesis
        by (rule ary_ok_cong) (use keep [of b] 2(5) False h4s(2) in \<open>auto simp: buf_of_def\<close>)
    qed
    have "heap_ok h4"
    proof (rule heap_ok_update [OF 2(2), of a _ ?c])
      fix x y z assume xyz: "buf_of ?c = Some x" "y \<noteq> a" "arys h2 y = Some z" "buf_of z = Some x"
      then obtain root where "roots h2 s = Some root" "buf_of root = Some x" using 2(6) by (auto simp: buf_of_def)
      then show "elts_shared ?c \<and> elts_shared z" using root_shared [OF 2(2)] xyz by (auto simp: elts_shared_def)
    qed (use h4s c2 okc dead keep keepr 2(2) in \<open>auto simp: heap_ok_def elts_shared_def\<close>)
    moreover have "elems h4 a = elems h2 b"
      using h4s(1) keep [of b] 2(5) False by (auto simp: elems_def buf_of_def split: option.splits)
    moreover have "elems h2 b = elems h b"
      using extends_elems [OF 2(3) r1] v r r1 by (auto simp: view_def)
    moreover have "frame a h2 h4"
    proof -
      have "elems h4 x = elems h2 x" if "x \<noteq> a" for x using that h4s(1) keep by (intro elems_cong) auto
      then show ?thesis using h4s c2 by (auto simp: frame_def view_def flags_def)
    qed
    moreover have "frame a h h2" using frame_trans [OF 1(3) extends_frame [OF 2(3)]] .
    moreover have "rb_ary_replace h a b = Inr h4"
      using 1(1) 2(1,5) c2(1) False unfolding rb_ary_replace_def with_ary_def Let_def h4_def by simp
    ultimately show ?thesis using frame_trans unfolding yields_def by metis
  qed
qed

lemma rb_ary_clear_makes:
  assumes ok: "heap_ok h" and m: "modifiable h a" and small: "length (elems h a) < 2 ^ 44"
  shows "makes a h (rb_ary_clear h a) []"
  unfolding rb_ary_clear_def
proof (rule makes_modify [OF ok m small], rule makes_with, assumption)
  fix h1 :: "'a heap" and cells :: "'a rval list" and r
  assume 1: "owned h1 a (length (elems h a)) cells" "frame a h h1" and r: "capa r = int (length cells)"
  note o = set_len_owned [OF 1, of 0 0, simplified]
  show "makes a h (let h = set_len h1 a 0 in if ARY_DEFAULT_SIZE * 2 < capa r then resize h a (ARY_DEFAULT_SIZE * 2) else Inr h) []"
    using gives_makes [OF gives_resize [OF o, of _ 32]] makes_return [OF o] by (simp add: ARY_DEFAULT_SIZE_def Let_def)
qed

lemma rb_ary_initialize_size_makes:
  assumes ok: "heap_ok h" and m: "modifiable h a" and small: "length (elems h a) < 2 ^ 44" "n < 2 ^ 44"
  shows "makes a h (rb_ary_initialize h (Size (int n) v) a) (replicate n v)"
  unfolding rb_ary_initialize_def init_arg.case
proof (rule makes_modify [OF ok m small(1)], rule makes_with, assumption)
  fix h1 :: "'a heap" and cells :: "'a rval list" and r
  assume 1: "owned h1 a (length (elems h a)) cells" "frame a h h1" "length (elems h a) \<le> length cells" and r: "capa r = int (length cells)"
  have c: "\<not> (0 < int n \<and> int64 (int n * 8) \<le> int n)" using small(2) by auto
  have "makes a h (bindR (if int (length cells) < int n then resize h1 a (int n) else Inr h1) (\<lambda>h.
      bindR (memfill h a 0 (int n) v) (\<lambda>h. Inr (set_len h a (int n))))) (replicate n v)"
  proof (rule makes_resize [OF 1(1,2), where m = n and need = n])
    fix h2 c2 assume 2: "owned h2 a (length (elems h a)) c2" "frame a h h2" "n \<le> length c2"
    have g: "gives a h (memfill h2 a 0 (int n) v) (length (elems h a)) (replicate n v @ drop n c2)"
      using gives_memfill [OF 2(1,2), of 0 0 "int n" n v] 2(3) by simp
    show "makes a h (bindR (memfill h2 a 0 (int n) v) (\<lambda>h. Inr (set_len h a (int n)))) (replicate n v)"
      by (rule makes_bind [OF g], rule makes_set_len, assumption, assumption, rule refl) auto
  qed (use 1(3) small in auto)
  then show "makes a h (if int n < 0 then Inl ArgError else if 0 < int n \<and> int64 (int n * 8) \<le> int n then Inl ArgError
      else bindR (if capa r < int n then resize h1 a (int n) else Inr h1) (\<lambda>h.
             bindR (memfill h a 0 (int n) v) (\<lambda>h. Inr (set_len h a (int n))))) (replicate n v)"
    unfolding r if_not_P [OF c] by simp
qed

lemma rb_ary_plus_creates:
  assumes ok: "heap_ok h" and x: "arys h x = Some rx" and y: "arys h y = Some ry"
    and small: "length (elems h x) + length (elems h y) < 2 ^ 44"
  shows "creates h (rb_ary_plus h x y) (elems h x @ elems h y)"
proof -
  let ?n = "length (elems h x)" and ?m = "length (elems h y)"
  note len = ok_elems_length [OF ok x] ok_elems_length [OF ok y]
  have i64: "int64 (int ?n + int ?m) = int (?n + ?m)" using small by simp
  show ?thesis
    unfolding rb_ary_plus_def with_ary_def x y option.case Let_def len i64 rb_ary_new2_def
  proof (rule creates_new [OF ok small])
    fix h1 z assume 1: "owned h1 z 0 (replicate (max (?n + ?m) 1) (junk h))" "arys h z = None" "extends h h1"
    let ?c = "replicate (max (?n + ?m) 1) (junk h)"
    have ne: "x \<noteq> z" "y \<noteq> z" using 1(2) x y by auto
    obtain rx1 ry1 where rs: "arys h1 x = Some rx1" "elems h1 x = elems h x" "arys h1 y = Some ry1" "elems h1 y = elems h y"
      using extends_elems [OF 1(3) x] extends_elems [OF 1(3) y] by blast
    note rdx = extends_read [OF owned_ok [OF 1(1)] 1(3) x]
    let ?m' = "bindR (write_at h1 z 0 (elems h x)) (\<lambda>h2. bindR (read_at h2 y 0 (int ?m)) (\<lambda>ws.
        bindR (write_at h2 z (int ?n) ws) (\<lambda>h3. Inr (set_len h3 z (int (?n + ?m))))))"
    have g: "gives z h1 (write_at h1 z 0 (elems h x)) 0 (elems h x @ drop ?n ?c)"
      using gives_write [OF 1(1) frame_refl, of 0 0 "elems h x"] by simp
    have "makes z h1 ?m' (elems h x @ elems h y)"
    proof (rule makes_bind [OF g])
      fix h2 assume 2: "owned h2 z 0 (elems h x @ drop ?n ?c)" "frame z h1 h2"
      have rdy: "read_at h2 y 0 (int ?m) = Inr (elems h y)"
        using read_other [OF owned_ok [OF 2(1)] 2(2) rs(3) ne(2), of "int ?m"] rs(4) by simp
      have g2: "gives z h1 (write_at h2 z (int ?n) (elems h y)) 0
          (take ?n (elems h x @ drop ?n ?c) @ elems h y @ drop (?n + ?m) (elems h x @ drop ?n ?c))"
        by (rule gives_write [OF 2 refl]) simp
      show "makes z h1 (bindR (read_at h2 y 0 (int ?m)) (\<lambda>ws.
        bindR (write_at h2 z (int ?n) ws) (\<lambda>h3. Inr (set_len h3 z (int (?n + ?m)))))) (elems h x @ elems h y)"
        unfolding rdy bindR_simps
        by (rule makes_bind [OF g2], rule makes_set_len, assumption, assumption, rule refl) auto
    qed
    then show "\<exists>m'. yields z h1 m' (elems h x @ elems h y) \<and>
        (case (h1, z) of (h, z) \<Rightarrow> bindR (read_at h x 0 (int ?n)) (\<lambda>vs. bindR (write_at h z 0 vs) (\<lambda>h.
            bindR (read_at h y 0 (int ?m)) (\<lambda>ws. bindR (write_at h z (int ?n) ws) (\<lambda>h. Inr (set_len h z (int (?n + ?m)), z)))))) =
        bindR m' (\<lambda>h. Inr (h, z))"
      by (intro exI [of _ ?m']) (simp add: makes_yields rdx bindR_assoc)
  qed
qed

lemma rb_ary_concat_yields:
  assumes ok: "heap_ok h" and m: "modifiable h x" and y: "arys h y = Some ry" "y \<noteq> x"
    and small: "length (elems h x) + length (elems h y) < 2 ^ 43"
  shows "yields x h (rb_ary_concat h x y) (elems h x @ elems h y)"
proof -
  obtain rx where x: "arys h x = Some rx" using modifiable_ary [OF m] by blast
  note len = ok_elems_length [OF ok x] ok_elems_length [OF ok y(1)]
  have "makes x h (rb_ary_update h x (int (length (elems h x))) (int 0) (AryRef y))
      (update_list (elems h x) (length (elems h x)) 0 (to_ary_list h (AryRef y)))"
    using ok m y small by (intro rb_ary_update_makes) (auto simp: valid_value_def to_ary_list_def)
  then show ?thesis
    using makes_yields x y len ok
    by (cases "elems h y = []") (force simp: rb_ary_concat_def with_ary_def update_list_def to_ary_list_def yields_def)+
qed

end
