(* ===== verification/Array_More.thy ===== *)
theory Array_More
  imports Array_Core
begin

text \<open>
  The operations of \<^verbatim>\<open>src/ruby/array.c\<close> that search, filter, compare and combine arrays. The methods
  that the sources call on elements (\<^verbatim>\<open>==\<close>, \<^verbatim>\<open>eql?\<close>, \<^verbatim>\<open>hash\<close>, \<^verbatim>\<open><=>\<close>) and the blocks are parameters of the
  definitions: functions of values that leave the arrays alone.
\<close>

section \<open>Searching\<close>

function index_loop :: "('o rval \<Rightarrow> 'o rval \<Rightarrow> bool) \<Rightarrow> 'o heap \<Rightarrow> nat \<Rightarrow> 'o rval \<Rightarrow> int \<Rightarrow> int \<Rightarrow> rb_error + int option" where
  "index_loop rb_equal h a val i len =
     (if i < len
      then bindR (cell h a i) (\<lambda>v. if rb_equal v val then Inr (Some i) else index_loop rb_equal h a val (i + 1) len)
      else Inr None)"
  by pat_completeness auto
termination by (relation "measure (\<lambda>(_, _, _, _, i, len). nat (len - i))") auto

definition rb_ary_index :: "('o rval \<Rightarrow> 'o rval \<Rightarrow> bool) \<Rightarrow> 'o heap \<Rightarrow> nat \<Rightarrow> 'o rval \<Rightarrow> rb_error + int option" where
  "rb_ary_index rb_equal h a val = with_ary h a (\<lambda>r. index_loop rb_equal h a val 0 (ary_len r))"

fun rindex_loop :: "('o rval \<Rightarrow> 'o rval \<Rightarrow> bool) \<Rightarrow> 'o heap \<Rightarrow> nat \<Rightarrow> 'o rval \<Rightarrow> nat \<Rightarrow> rb_error + int option" where
  "rindex_loop rb_equal h a val 0 = Inr None"
| "rindex_loop rb_equal h a val (Suc i) =
     bindR (cell h a (int i)) (\<lambda>v. if rb_equal v val then Inr (Some (int i)) else rindex_loop rb_equal h a val i)"

definition rb_ary_rindex :: "('o rval \<Rightarrow> 'o rval \<Rightarrow> bool) \<Rightarrow> 'o heap \<Rightarrow> nat \<Rightarrow> 'o rval \<Rightarrow> rb_error + int option" where
  "rb_ary_rindex rb_equal h a val = with_ary h a (\<lambda>r. rindex_loop rb_equal h a val (nat (ary_len r)))"

definition rb_ary_includes :: "('o rval \<Rightarrow> 'o rval \<Rightarrow> bool) \<Rightarrow> 'o heap \<Rightarrow> nat \<Rightarrow> 'o rval \<Rightarrow> rb_error + bool" where
  "rb_ary_includes rb_equal h a item =
     with_ary h a (\<lambda>r. bindR (index_loop rb_equal h a item 0 (ary_len r)) (\<lambda>res. Inr (res \<noteq> None)))"

function assoc_loop ::
  "('o rval \<Rightarrow> 'o rval \<Rightarrow> bool) \<Rightarrow> int \<Rightarrow> 'o heap \<Rightarrow> nat \<Rightarrow> 'o rval \<Rightarrow> int \<Rightarrow> int \<Rightarrow> rb_error + 'o rval" where
  "assoc_loop rb_equal k h a key p pend =
     (if p < pend
      then bindR (cell h a p) (\<lambda>v.
             bindR (case v of
                      AryRef b \<Rightarrow> with_ary h b (\<lambda>rb.
                        if ary_len rb > k then bindR (cell h b k) (\<lambda>x. Inr (rb_equal x key)) else Inr False)
                    | _ \<Rightarrow> Inr False)
               (\<lambda>hit. if hit then Inr v else assoc_loop rb_equal k h a key (p + 1) pend))
      else Inr Qnil)"
  by pat_completeness auto
termination by (relation "measure (\<lambda>(_, _, _, _, _, p, pend). nat (pend - p))") auto

definition rb_ary_assoc :: "('o rval \<Rightarrow> 'o rval \<Rightarrow> bool) \<Rightarrow> 'o heap \<Rightarrow> nat \<Rightarrow> 'o rval \<Rightarrow> rb_error + 'o rval" where
  "rb_ary_assoc rb_equal h a key = with_ary h a (\<lambda>r. assoc_loop rb_equal 0 h a key 0 (ary_len r))"

definition rb_ary_rassoc :: "('o rval \<Rightarrow> 'o rval \<Rightarrow> bool) \<Rightarrow> 'o heap \<Rightarrow> nat \<Rightarrow> 'o rval \<Rightarrow> rb_error + 'o rval" where
  "rb_ary_rassoc rb_equal h a value = with_ary h a (\<lambda>r. assoc_loop rb_equal 1 h a value 0 (ary_len r))"

section \<open>Comparing\<close>

function equal_loop ::
  "('o rval \<Rightarrow> 'o rval \<Rightarrow> bool) \<Rightarrow> 'o heap \<Rightarrow> nat \<Rightarrow> nat \<Rightarrow> int \<Rightarrow> int \<Rightarrow> rb_error + bool" where
  "equal_loop eq h a1 a2 i len =
     (if i < len
      then bindR (cell h a1 i) (\<lambda>x. bindR (cell h a2 i) (\<lambda>y.
             if \<not> eq x y then Inr False else equal_loop eq h a1 a2 (i + 1) len))
      else Inr True)"
  by pat_completeness auto
termination by (relation "measure (\<lambda>(_, _, _, _, i, len). nat (len - i))") auto

definition rb_ary_equal :: "('o rval \<Rightarrow> 'o rval \<Rightarrow> bool) \<Rightarrow> 'o heap \<Rightarrow> nat \<Rightarrow> 'o rval \<Rightarrow> rb_error + bool" where
  "rb_ary_equal rb_equal h a1 v =
     (if AryRef a1 = v then Inr True
      else case v of
        AryRef a2 \<Rightarrow> with_ary h a1 (\<lambda>r1. with_ary h a2 (\<lambda>r2.
          if ary_len r1 \<noteq> ary_len r2 then Inr False else equal_loop rb_equal h a1 a2 0 (ary_len r1)))
      | _ \<Rightarrow> Inr False)"

definition rb_ary_eql :: "('o rval \<Rightarrow> 'o rval \<Rightarrow> bool) \<Rightarrow> 'o heap \<Rightarrow> nat \<Rightarrow> 'o rval \<Rightarrow> rb_error + bool" where
  "rb_ary_eql rb_eql h a1 v =
     (case v of
        AryRef a2 \<Rightarrow> with_ary h a1 (\<lambda>r1. with_ary h a2 (\<lambda>r2.
          if ary_len r1 \<noteq> ary_len r2 then Inr False else equal_loop rb_eql h a1 a2 0 (ary_len r1)))
      | _ \<Rightarrow> Inr False)"

text \<open>\<^verbatim>\<open>h = (h << 1) | (h<0 ? 1 : 0); h ^= NUM2LONG(rb_hash(x))\<close> on a \<^verbatim>\<open>long\<close>: a rotation by one bit.\<close>

definition hash_step :: "u64 \<Rightarrow> u64 \<Rightarrow> u64" where
  "hash_step h n = (push_bit 1 h OR (if bit h 63 then 1 else 0)) XOR n"

function hash_loop :: "('o rval \<Rightarrow> u64) \<Rightarrow> 'o heap \<Rightarrow> nat \<Rightarrow> u64 \<Rightarrow> int \<Rightarrow> int \<Rightarrow> rb_error + u64" where
  "hash_loop rb_hash h a acc i len =
     (if i < len then bindR (cell h a i) (\<lambda>v. hash_loop rb_hash h a (hash_step acc (rb_hash v)) (i + 1) len)
      else Inr acc)"
  by pat_completeness auto
termination by (relation "measure (\<lambda>(_, _, _, _, i, len). nat (len - i))") auto

definition rb_ary_hash :: "('o rval \<Rightarrow> u64) \<Rightarrow> 'o heap \<Rightarrow> nat \<Rightarrow> rb_error + u64" where
  "rb_ary_hash rb_hash h a = with_ary h a (\<lambda>r. hash_loop rb_hash h a (word_of_int (ary_len r)) 0 (ary_len r))"

text \<open>\<^verbatim>\<open><=>\<close>: the first element comparison that is not the fixnum 0 is the result, whatever it is.\<close>

function cmp_loop ::
  "('o rval \<Rightarrow> 'o rval \<Rightarrow> 'o rval) \<Rightarrow> 'o rval \<Rightarrow> 'o heap \<Rightarrow> nat \<Rightarrow> nat \<Rightarrow> int \<Rightarrow> int \<Rightarrow> rb_error + 'o rval option" where
  "cmp_loop cmp fix0 h a1 a2 i len =
     (if i < len
      then bindR (cell h a1 i) (\<lambda>x. bindR (cell h a2 i) (\<lambda>y.
             if cmp x y \<noteq> fix0 then Inr (Some (cmp x y)) else cmp_loop cmp fix0 h a1 a2 (i + 1) len))
      else Inr None)"
  by pat_completeness auto
termination by (relation "measure (\<lambda>(_, _, _, _, _, i, len). nat (len - i))") auto

definition rb_ary_cmp ::
  "('o rval \<Rightarrow> 'o rval \<Rightarrow> 'o rval) \<Rightarrow> (int \<Rightarrow> 'o rval) \<Rightarrow> 'o heap \<Rightarrow> nat \<Rightarrow> nat \<Rightarrow> rb_error + 'o rval" where
  "rb_ary_cmp cmp INT2FIX h a1 a2 =
     with_ary h a1 (\<lambda>r1. with_ary h a2 (\<lambda>r2.
       let len = (if ary_len r1 > ary_len r2 then ary_len r2 else ary_len r1)
       in bindR (cmp_loop cmp (INT2FIX 0) h a1 a2 0 len) (\<lambda>res.
            case res of
              Some v \<Rightarrow> Inr v
            | None \<Rightarrow>
                let len = ary_len r1 - ary_len r2
                in Inr (INT2FIX (if len = 0 then 0 else if len > 0 then 1 else -1)))))"

section \<open>Filtering in place\<close>

text \<open>
  The loop of \<^verbatim>\<open>rb_ary_delete\<close>, \<^verbatim>\<open>rb_ary_reject_bang\<close> and \<^verbatim>\<open>rb_ary_compact_bang\<close>: the elements that stay are
  written to the position \<^verbatim>\<open>i2\<close>; the first two skip the write when it would not move the element.
\<close>

function filter_loop ::
  "bool \<Rightarrow> ('o rval \<Rightarrow> bool) \<Rightarrow> 'o heap \<Rightarrow> nat \<Rightarrow> int \<Rightarrow> int \<Rightarrow> int \<Rightarrow> rb_error + 'o heap \<times> int" where
  "filter_loop always drop_p h a i1 i2 len =
     (if i1 < len
      then bindR (cell h a i1) (\<lambda>v.
             if drop_p v then filter_loop always drop_p h a (i1 + 1) i2 len
             else bindR (if always \<or> i1 \<noteq> i2 then write_at h a i2 [v] else Inr h) (\<lambda>h.
                    filter_loop always drop_p h a (i1 + 1) (i2 + 1) len))
      else Inr (h, i2))"
  by pat_completeness auto
termination by (relation "measure (\<lambda>(_, _, _, _, i1, _, len). nat (len - i1))") auto

declare index_loop.simps [simp del] assoc_loop.simps [simp del] equal_loop.simps [simp del]
  hash_loop.simps [simp del] cmp_loop.simps [simp del] filter_loop.simps [simp del]

text \<open>\<^verbatim>\<open>delete\<close> without a block; the result is the item, or nil when no element equals it.\<close>

definition rb_ary_delete ::
  "('o rval \<Rightarrow> 'o rval \<Rightarrow> bool) \<Rightarrow> 'o heap \<Rightarrow> nat \<Rightarrow> 'o rval \<Rightarrow> rb_error + 'o heap \<times> 'o rval" where
  "rb_ary_delete rb_equal h a item =
     bindR (rb_ary_modify h a) (\<lambda>h. with_ary h a (\<lambda>r.
       bindR (filter_loop False (\<lambda>v. rb_equal v item) h a 0 0 (ary_len r)) (\<lambda>(h, i2).
         if ary_len r = i2 then Inr (h, Qnil)
         else bindR (if i2 * 2 < capa r \<and> capa r > ARY_DEFAULT_SIZE
                     then resize (set_len h a i2) a (i2 * 2) else Inr (set_len h a i2)) (\<lambda>h.
                Inr (h, item)))))"

function delete_at_loop :: "'o heap \<Rightarrow> nat \<Rightarrow> int \<Rightarrow> int \<Rightarrow> int \<Rightarrow> rb_error + 'o heap \<times> int" where
  "delete_at_loop h a i pos len =
     (if i < len
      then bindR (cell h a i) (\<lambda>v. bindR (write_at h a pos [v]) (\<lambda>h. delete_at_loop h a (i + 1) (pos + 1) len))
      else Inr (h, pos))"
  by pat_completeness auto
termination by (relation "measure (\<lambda>(_, _, i, _, len). nat (len - i))") auto

declare delete_at_loop.simps [simp del]

definition rb_ary_delete_at :: "'o heap \<Rightarrow> nat \<Rightarrow> int \<Rightarrow> rb_error + 'o heap \<times> 'o rval" where
  "rb_ary_delete_at h a pos =
     bindR (rb_ary_modify h a) (\<lambda>h. with_ary h a (\<lambda>r.
       let len = ary_len r
       in if pos \<ge> len then Inr (h, Qnil)
          else let pos = (if pos < 0 then pos + len else pos)
               in if pos < 0 then Inr (h, Qnil)
                  else bindR (cell h a pos) (\<lambda>del.
                         bindR (delete_at_loop h a (pos + 1) pos len) (\<lambda>(h, pos).
                           Inr (set_len h a pos, del)))))"

definition delete_pos_len :: "'o heap \<Rightarrow> nat \<Rightarrow> int \<Rightarrow> int \<Rightarrow> rb_error + 'o heap \<times> 'o rval" where
  "delete_pos_len h a pos len =
     with_ary h a (\<lambda>r.
       let pos = (if pos < 0 then ary_len r + pos else pos)
       in bindR (rb_ary_subseq h a pos len) (\<lambda>(h, arg2).
            bindR (rb_ary_update h a pos len Qnil) (\<lambda>h. Inr (h, arg2))))"

definition rb_ary_slice_bang :: "'o heap \<Rightarrow> subscript \<Rightarrow> int option \<Rightarrow> nat \<Rightarrow> rb_error + 'o heap \<times> 'o rval" where
  "rb_ary_slice_bang h arg1 arg2 a =
     bindR (rb_ary_modify h a) (\<lambda>h. with_ary h a (\<lambda>r.
       case (arg1, arg2) of
         (Idx pos, Some len) \<Rightarrow> delete_pos_len h a pos len
       | (Rng _ _ _, Some _) \<Rightarrow> Inl TypeError
       | (Idx pos, None) \<Rightarrow> rb_ary_delete_at h a pos
       | (Rng b e excl, None) \<Rightarrow>
           bindR (rb_range_beg_len b e excl (ary_len r) 1) (\<lambda>res.
             case res of None \<Rightarrow> Inl TypeError | Some (pos, len) \<Rightarrow> delete_pos_len h a pos len)))"

definition rb_ary_reject_bang :: "('o rval \<Rightarrow> bool) \<Rightarrow> 'o heap \<Rightarrow> nat \<Rightarrow> rb_error + 'o heap \<times> 'o rval" where
  "rb_ary_reject_bang block h a =
     bindR (rb_ary_modify h a) (\<lambda>h. with_ary h a (\<lambda>r.
       bindR (filter_loop False block h a 0 0 (ary_len r)) (\<lambda>(h, i2).
         if ary_len r = i2 then Inr (h, Qnil) else Inr (set_len h a i2, AryRef a))))"

definition rb_ary_reject :: "('o rval \<Rightarrow> bool) \<Rightarrow> 'o heap \<Rightarrow> nat \<Rightarrow> rb_error + 'o heap \<times> nat" where
  "rb_ary_reject block h a =
     bindR (rb_ary_dup h a) (\<lambda>(h, d). bindR (rb_ary_reject_bang block h d) (\<lambda>(h, _). Inr (h, d)))"

definition rb_ary_delete_if :: "('o rval \<Rightarrow> bool) \<Rightarrow> 'o heap \<Rightarrow> nat \<Rightarrow> rb_error + 'o heap" where
  "rb_ary_delete_if block h a = bindR (rb_ary_reject_bang block h a) (\<lambda>(h, _). Inr h)"

definition rb_ary_compact_bang :: "'o heap \<Rightarrow> nat \<Rightarrow> rb_error + 'o heap \<times> 'o rval" where
  "rb_ary_compact_bang h a =
     bindR (rb_ary_modify h a) (\<lambda>h. with_ary h a (\<lambda>r.
       bindR (filter_loop True (\<lambda>v. v = Qnil) h a 0 0 (ary_len r)) (\<lambda>(h, p).
         if ary_len r = p then Inr (h, Qnil)
         else bindR (resize (set_len h a p) a p) (\<lambda>h. Inr (h, AryRef a)))))"

definition rb_ary_compact :: "'o heap \<Rightarrow> nat \<Rightarrow> rb_error + 'o heap \<times> nat" where
  "rb_ary_compact h a =
     bindR (rb_ary_dup h a) (\<lambda>(h, d). bindR (rb_ary_compact_bang h d) (\<lambda>(h, _). Inr (h, d)))"

definition rb_ary_nitems :: "'o heap \<Rightarrow> nat \<Rightarrow> rb_error + int" where
  "rb_ary_nitems h a =
     with_ary h a (\<lambda>r. bindR (read_at h a 0 (ary_len r)) (\<lambda>vs.
       Inr (foldl (\<lambda>n v. if v \<noteq> Qnil then n + 1 else n) 0 vs)))"

section \<open>Reversing\<close>

function reverse_loop :: "'o heap \<Rightarrow> nat \<Rightarrow> int \<Rightarrow> int \<Rightarrow> rb_error + 'o heap" where
  "reverse_loop h a p1 p2 =
     (if p1 < p2
      then bindR (cell h a p1) (\<lambda>tmp. bindR (cell h a p2) (\<lambda>v.
             bindR (write_at h a p1 [v]) (\<lambda>h. bindR (write_at h a p2 [tmp]) (\<lambda>h.
               reverse_loop h a (p1 + 1) (p2 - 1)))))
      else Inr h)"
  by pat_completeness auto
termination by (relation "measure (\<lambda>(_, _, p1, p2). nat (p2 - p1))") auto

declare reverse_loop.simps [simp del]

definition rb_ary_reverse :: "'o heap \<Rightarrow> nat \<Rightarrow> rb_error + 'o heap" where
  "rb_ary_reverse h a =
     bindR (rb_ary_modify h a) (\<lambda>h. with_ary h a (\<lambda>r.
       if ary_len r \<le> 1 then Inr h else reverse_loop h a 0 (ary_len r - 1)))"

definition rb_ary_reverse_bang :: "'o heap \<Rightarrow> nat \<Rightarrow> rb_error + 'o heap \<times> 'o rval" where
  "rb_ary_reverse_bang h a =
     with_ary h a (\<lambda>r. if ary_len r \<le> 1 then Inr (h, Qnil)
                       else bindR (rb_ary_reverse h a) (\<lambda>h. Inr (h, AryRef a)))"

definition rb_ary_reverse_m :: "'o heap \<Rightarrow> nat \<Rightarrow> rb_error + 'o heap \<times> nat" where
  "rb_ary_reverse_m h a = bindR (rb_ary_dup h a) (\<lambda>(h, d). bindR (rb_ary_reverse h d) (\<lambda>h. Inr (h, d)))"

section \<open>Building new arrays\<close>

function times_loop :: "'o heap \<Rightarrow> nat \<Rightarrow> nat \<Rightarrow> int \<Rightarrow> int \<Rightarrow> int \<Rightarrow> rb_error + 'o heap" where
  "times_loop h a a2 alen i len =
     (if i < len \<and> 0 < alen
      then bindR (read_at h a 0 alen) (\<lambda>vs. bindR (write_at h a2 i vs) (\<lambda>h. times_loop h a a2 alen (i + alen) len))
      else Inr h)"
  by pat_completeness auto
termination by (relation "measure (\<lambda>(_, _, _, _, i, len). nat (len - i))") auto

declare times_loop.simps [simp del]

text \<open>\<^verbatim>\<open>Array#*\<close> with an integer. With no elements the length is 0 and the loop is not entered.\<close>

definition rb_ary_times :: "'o heap \<Rightarrow> nat \<Rightarrow> int \<Rightarrow> rb_error + 'o heap \<times> nat" where
  "rb_ary_times h a n =
     with_ary h a (\<lambda>r.
       if n < 0 then Inl ArgError
       else let len = int64 (n * ary_len r)
            in bindR (ary_new h len) (\<lambda>(h, a2).
                 bindR (times_loop (set_len h a2 len) a a2 (ary_len r) 0 len) (\<lambda>h.
                   Inr (upd_ary h a2 (\<lambda>r2. r2\<lparr>tainted := tainted r2 \<or> tainted r\<rparr>), a2))))"

function collect_loop :: "('o rval \<Rightarrow> 'o rval) \<Rightarrow> 'o heap \<Rightarrow> nat \<Rightarrow> nat \<Rightarrow> int \<Rightarrow> int \<Rightarrow> rb_error + 'o heap" where
  "collect_loop block h a c i len =
     (if i < len
      then bindR (cell h a i) (\<lambda>v. bindR (rb_ary_push h c (block v)) (\<lambda>h. collect_loop block h a c (i + 1) len))
      else Inr h)"
  by pat_completeness auto
termination by (relation "measure (\<lambda>(_, _, _, _, i, len). nat (len - i))") auto

declare collect_loop.simps [simp del]

definition rb_ary_collect :: "('o rval \<Rightarrow> 'o rval) option \<Rightarrow> 'o heap \<Rightarrow> nat \<Rightarrow> rb_error + 'o heap \<times> nat" where
  "rb_ary_collect block h a =
     with_ary h a (\<lambda>r.
       case block of
         None \<Rightarrow> bindR (read_at h a 0 (ary_len r)) (\<lambda>vs. rb_ary_new4 h vs)
       | Some f \<Rightarrow>
           bindR (rb_ary_new2 h (ary_len r)) (\<lambda>(h, c).
             bindR (collect_loop f h a c 0 (ary_len r)) (\<lambda>h. Inr (h, c))))"

function diff_loop ::
  "('o rval \<Rightarrow> 'o rval \<Rightarrow> bool) \<Rightarrow> 'o heap \<Rightarrow> nat \<Rightarrow> nat \<Rightarrow> nat \<Rightarrow> int \<Rightarrow> int \<Rightarrow> rb_error + 'o heap" where
  "diff_loop rb_equal h a1 a2 a3 i len =
     (if i < len
      then bindR (cell h a1 i) (\<lambda>v.
             bindR (rb_ary_includes rb_equal h a2 v) (\<lambda>in2.
               if in2 then diff_loop rb_equal h a1 a2 a3 (i + 1) len
               else bindR (rb_ary_includes rb_equal h a3 v) (\<lambda>in3.
                      if in3 then diff_loop rb_equal h a1 a2 a3 (i + 1) len
                      else bindR (rb_ary_push h a3 v) (\<lambda>h. diff_loop rb_equal h a1 a2 a3 (i + 1) len))))
      else Inr h)"
  by pat_completeness auto
termination by (relation "measure (\<lambda>(_, _, _, _, _, i, len). nat (len - i))") auto

declare diff_loop.simps [simp del]

definition rb_ary_diff :: "('o rval \<Rightarrow> 'o rval \<Rightarrow> bool) \<Rightarrow> 'o heap \<Rightarrow> nat \<Rightarrow> nat \<Rightarrow> rb_error + 'o heap \<times> nat" where
  "rb_ary_diff rb_equal h a1 a2 =
     with_ary h a1 (\<lambda>r1.
       bindR (rb_ary_new h) (\<lambda>(h, a3).
         bindR (diff_loop rb_equal h a1 a2 a3 0 (ary_len r1)) (\<lambda>h. Inr (h, a3))))"

section \<open>Searching: what is found\<close>

fun first_index :: "('a \<Rightarrow> bool) \<Rightarrow> 'a list \<Rightarrow> nat option" where
  "first_index P [] = None"
| "first_index P (x # xs) = (if P x then Some 0 else map_option Suc (first_index P xs))"

lemma first_index_None: "first_index P xs = None \<longleftrightarrow> (\<forall>x \<in> set xs. \<not> P x)"
  by (induction xs) auto

lemma first_index_Some: "first_index P xs = Some i \<longleftrightarrow> i < length xs \<and> P (xs ! i) \<and> (\<forall>j < i. \<not> P (xs ! j))"
proof (induction xs arbitrary: i)
  case (Cons x xs)
  then show ?case by (cases i) (auto simp: All_less_Suc2)
qed simp

lemma index_loop_eq:
  assumes ok: "heap_ok h" and r: "arys h a = Some r" and i: "i \<le> length (elems h a)"
  shows "index_loop eq h a v (int i) (int (length (elems h a))) =
           Inr (map_option (\<lambda>k. int (i + k)) (first_index (\<lambda>x. eq x v) (drop i (elems h a))))"
  using i
proof (induction "length (elems h a) - i" arbitrary: i)
  case 0
  then show ?case by (simp add: index_loop.simps)
next
  case (Suc k)
  then have i: "i < length (elems h a)" by simp
  have "index_loop eq h a v (int i + 1) (int (length (elems h a))) =
           Inr (map_option (\<lambda>k. int (Suc i + k)) (first_index (\<lambda>x. eq x v) (drop (Suc i) (elems h a))))"
    using Suc.hyps(1) [of "Suc i"] Suc.hyps(2) i by (simp add: add.commute)
  then show ?case
    using i cell_elems [OF ok r i] Cons_nth_drop_Suc [OF i, symmetric]
    by (subst index_loop.simps) (simp add: option.map_comp o_def ac_simps)
qed

lemma rb_ary_includes_eq:
  assumes "heap_ok h" "arys h a = Some r"
  shows "rb_ary_includes eq h a v = Inr (\<exists>x \<in> set (elems h a). eq x v)"
proof -
  have "first_index (\<lambda>x. eq x v) (elems h a) \<noteq> None \<longleftrightarrow> (\<exists>x \<in> set (elems h a). eq x v)"
    unfolding first_index_None by blast
  then show ?thesis
    using index_loop_eq [OF assms, of 0 eq v] ok_elems_length [OF assms] assms(2)
    by (simp add: rb_ary_includes_def with_ary_def)
qed

lemma equal_loop_eq:
  assumes ok: "heap_ok h" and r: "arys h a = Some ra" "arys h b = Some rb"
    and i: "i \<le> n" "n \<le> length (elems h a)" "n \<le> length (elems h b)"
  shows "equal_loop eq h a b (int i) (int n) = Inr (\<forall>j \<in> {i..<n}. eq (elems h a ! j) (elems h b ! j))"
  using i
proof (induction "n - i" arbitrary: i)
  case 0
  then show ?case by (simp add: equal_loop.simps)
next
  case (Suc k)
  then have i: "i < length (elems h a)" "i < length (elems h b)" "{i..<n} = insert i {Suc i..<n}" by auto
  have "equal_loop eq h a b (int i + 1) (int n) = Inr (\<forall>j \<in> {Suc i..<n}. eq (elems h a ! j) (elems h b ! j))"
    using Suc.hyps(1) [of "Suc i"] Suc.hyps(2) Suc.prems by (simp add: add.commute)
  then show ?case
    using cell_elems [OF ok r(1) i(1)] cell_elems [OF ok r(2) i(2)] i(3) Suc.hyps(2)
    by (subst equal_loop.simps) auto
qed

lemma rb_ary_eql_eq:
  assumes ok: "heap_ok h" and r: "arys h a = Some ra" "arys h b = Some rb"
  shows "rb_ary_eql eq h a (AryRef b) = Inr (list_all2 eq (elems h a) (elems h b))"
  using equal_loop_eq [OF ok r, of 0 "length (elems h a)" eq] ok_elems_length [OF ok r(1)] ok_elems_length [OF ok r(2)] r
  by (auto simp: rb_ary_eql_def with_ary_def list_all2_conv_all_nth)

section \<open>Filtering: what remains\<close>

lemma filter_loop_ok:
  assumes "owned h a n c" "frame a h0 h" "i2 \<le> i1" "i1 \<le> n"
  shows "\<exists>h' c'. filter_loop w p h a (int i1) (int i2) (int n) =
             Inr (h', int (i2 + length (filter (\<lambda>x. \<not> p x) (drop i1 (take n c))))) \<and>
           owned h' a n c' \<and> frame a h0 h' \<and> length c' = length c \<and>
           take (i2 + length (filter (\<lambda>x. \<not> p x) (drop i1 (take n c)))) c' =
             take i2 c @ filter (\<lambda>x. \<not> p x) (drop i1 (take n c))"
  using assms
proof (induction "n - i1" arbitrary: i1 i2 h c)
  case 0
  then show ?case by (auto simp: filter_loop.simps)
next
  case (Suc k)
  note o = Suc.prems(1)
  have n: "n \<le> length c" using o by (simp add: owned_def)
  have i: "i1 < n" "i1 < length c" using Suc.hyps(2) n by auto
  have v: "cell h a (int i1) = Inr (c ! i1)"
    using owned_read [OF o, of i1 1] i by (simp add: cell_def take_Suc hd_drop_conv_nth)
  have d: "drop i1 (take n c) = c ! i1 # drop (Suc i1) (take n c)" using i by (simp add: Cons_nth_drop_Suc [symmetric])
  show ?case
  proof (cases "p (c ! i1)")
    case True
    from Suc.hyps(1) [of "Suc i1" h c i2] show ?thesis
      using Suc.hyps(2) Suc.prems i True v d by (subst filter_loop.simps) (simp add: add.commute)
  next
    case False
    let ?c = "c[i2 := c ! i1]"
    have "\<exists>h1. (if w \<or> int i1 \<noteq> int i2 then write_at h a (int i2) [c ! i1] else Inr h) = Inr h1 \<and> owned h1 a n ?c \<and> frame a h0 h1"
    proof (cases "w \<or> i1 \<noteq> i2")
      case True
      have "gives a h0 (write_at h a (int i2) [c ! i1]) n (take i2 c @ [c ! i1] @ drop (i2 + length [c ! i1]) c)"
        by (rule gives_write [OF Suc.prems(1,2) refl]) (use Suc.prems i in auto)
      moreover have "i2 < length c" using Suc.prems(3) i by simp
      ultimately show ?thesis using True by (auto simp: gives_def upd_conv_take_nth_drop)
    next
      case False
      then have "?c = c" by simp
      then show ?thesis using False Suc.prems(1,2) by auto
    qed
    then obtain h1 where 1: "(if w \<or> int i1 \<noteq> int i2 then write_at h a (int i2) [c ! i1] else Inr h) = Inr h1"
      "owned h1 a n ?c" "frame a h0 h1" by blast
    have same: "drop (Suc i1) (take n ?c) = drop (Suc i1) (take n c)" using Suc.prems(3) by (simp add: drop_take)
    have t: "take (Suc i2) ?c = take i2 c @ [c ! i1]" using Suc.prems(3) i by (simp add: take_Suc_conv_app_nth)
    have "k = n - Suc i1" using Suc.hyps(2) by simp
    from Suc.hyps(1) [OF this 1(2,3), of "Suc i2"] Suc.prems(3) i
    obtain h' c' where 2: "filter_loop w p h1 a (int (Suc i1)) (int (Suc i2)) (int n) =
             Inr (h', int (Suc i2 + length (filter (\<lambda>x. \<not> p x) (drop (Suc i1) (take n c)))))"
      "owned h' a n c'" "frame a h0 h'" "length c' = length c"
      "take (Suc i2 + length (filter (\<lambda>x. \<not> p x) (drop (Suc i1) (take n c)))) c' =
             take (Suc i2) ?c @ filter (\<lambda>x. \<not> p x) (drop (Suc i1) (take n c))"
      unfolding same by auto
    have "filter_loop w p h a (int i1) (int i2) (int n) = filter_loop w p h1 a (int (Suc i1)) (int (Suc i2)) (int n)"
      using v i False 1(1) by (subst filter_loop.simps) (simp add: add.commute)
    then show ?thesis using 2 d False t by auto
  qed
qed

lemma length_filter_same: "length (filter (\<lambda>x. \<not> p x) xs) = length xs \<longleftrightarrow> \<not> (\<exists>x \<in> set xs. p x)"
proof (cases "\<exists>x \<in> set xs. p x")
  case True
  then obtain x where "x \<in> set xs" "\<not> \<not> p x" by blast
  from length_filter_less [of x xs "\<lambda>x. \<not> p x", OF this] show ?thesis using True by simp
next
  case False
  then have "filter (\<lambda>x. \<not> p x) xs = xs" by (simp add: filter_id_conv)
  then show ?thesis using False by simp
qed

text \<open>The three users of the loop.\<close>

lemma filter_loop_modified:
  assumes ok: "heap_ok h" and m: "modifiable h a" and small: "length (elems h a) < 2 ^ 44"
  shows "\<exists>h1 r h2 c ys. ys = filter (\<lambda>x. \<not> p x) (elems h a) \<and> rb_ary_modify h a = Inr h1 \<and> arys h1 a = Some r \<and>
           ary_len r = int (length (elems h a)) \<and> capa r = int (length c) \<and>
           filter_loop w p h1 a 0 0 (int (length (elems h a))) = Inr (h2, int (length ys)) \<and>
           owned h2 a (length (elems h a)) c \<and> frame a h h2 \<and> length ys \<le> length c \<and> take (length ys) c = ys \<and>
           length ys \<le> length (elems h a)"
proof -
  obtain h1 c1 where 1: "rb_ary_modify h a = Inr h1" "owned h1 a (length (elems h a)) c1"
    "take (length (elems h a)) c1 = elems h a" "frame a h h1"
    using rb_ary_modify_owned [OF ok m small] by blast
  obtain r where r: "arys h1 a = Some r" "ary_len r = int (length (elems h a))" "capa r = int (length c1)"
    using owned_ary [OF 1(2)] by blast
  let ?ys = "filter (\<lambda>x. \<not> p x) (elems h a)"
  obtain h2 c where 2: "filter_loop w p h1 a 0 0 (int (length (elems h a))) = Inr (h2, int (length ?ys))"
    "owned h2 a (length (elems h a)) c" "frame a h h2" "length c = length c1" "take (length ?ys) c = ?ys"
    using filter_loop_ok [OF 1(2,4), of 0 0 w p] 1(3) by auto
  have "length (elems h a) \<le> length c" using 2(2) by (simp add: owned_def)
  then have "length ?ys \<le> length c" using length_filter_le order_trans by blast
  then show ?thesis
    using 1 2 r by - (rule exI [of _ h1], rule exI [of _ r], rule exI [of _ h2], rule exI [of _ c], rule exI [of _ ?ys], simp)
qed

lemma rb_ary_delete_ok:
  assumes ok: "heap_ok h" and m: "modifiable h a" and small: "length (elems h a) < 2 ^ 40"
  shows "\<exists>h'. rb_ary_delete eq h a item =
             Inr (h', if (\<exists>x \<in> set (elems h a). eq x item) then item else Qnil) \<and> heap_ok h' \<and>
           elems h' a = filter (\<lambda>x. \<not> eq x item) (elems h a) \<and> frame a h h'"
proof -
  let ?n = "length (elems h a)"
  have "?n < 2 ^ 44" using small by simp
  from filter_loop_modified [OF ok m this, of "\<lambda>x. eq x item" False] obtain h1 r h2 c ys
    where ys: "ys = filter (\<lambda>x. \<not> eq x item) (elems h a)"
    and 1: "rb_ary_modify h a = Inr h1" "arys h1 a = Some r" "ary_len r = int ?n" "capa r = int (length c)"
      "filter_loop False (\<lambda>x. eq x item) h1 a 0 0 (int ?n) = Inr (h2, int (length ys))"
    and 2: "owned h2 a ?n c" "frame a h h2" "length ys \<le> length c" "take (length ys) c = ys" "length ys \<le> ?n"
    by blast
  have hit: "length ys = ?n \<longleftrightarrow> \<not> (\<exists>x \<in> set (elems h a). eq x item)"
    unfolding ys by (rule length_filter_same)
  show ?thesis
  proof (cases "length ys = ?n")
    case True
    then have "ys = elems h a" using hit ys by (auto simp: filter_id_conv)
    then show ?thesis
      using True hit 1 2 owned_ok [OF 2(1)] owned_elems [OF 2(1)] unfolding ys [symmetric]
      by (simp add: rb_ary_delete_def with_ary_def)
  next
    case False
    let ?c = "int (length ys) * 2 < int (length c) \<and> int (length c) > ARY_DEFAULT_SIZE"
    note o = set_len_owned [OF 2(1,2) refl 2(3)]
    have "makes a h (bindR (if ?c then resize (set_len h2 a (int (length ys))) a (int (length ys) * 2)
        else Inr (set_len h2 a (int (length ys)))) Inr) ys"
      by (rule makes_resize [OF o, where m = "length ys * 2" and need = "length ys"])
        (use 2(3,4,5) small in \<open>auto intro: makes_return\<close>)
    then obtain h3 where 3: "(if ?c then resize (set_len h2 a (int (length ys))) a (int (length ys) * 2)
        else Inr (set_len h2 a (int (length ys)))) = Inr h3" "heap_ok h3" "elems h3 a = ys" "frame a h h3"
      by (auto dest!: makes_yields simp: yields_def bindR_def split: sum.splits)
    have "rb_ary_delete eq h a item = Inr (h3, item)"
      unfolding rb_ary_delete_def with_ary_def 1(1) bindR_simps 1(2) option.case 1(3) 1(5) prod.case 1(4) 3(1)
      using False by simp
    then show ?thesis using 3 hit False ys by auto
  qed
qed

lemma rb_ary_reject_bang_ok:
  assumes ok: "heap_ok h" and m: "modifiable h a" and small: "length (elems h a) < 2 ^ 44"
  shows "\<exists>h'. rb_ary_reject_bang p h a =
             Inr (h', if (\<exists>x \<in> set (elems h a). p x) then AryRef a else Qnil) \<and> heap_ok h' \<and>
           elems h' a = filter (\<lambda>x. \<not> p x) (elems h a) \<and> frame a h h'"
proof -
  let ?n = "length (elems h a)"
  from filter_loop_modified [OF ok m small, of p False] obtain h1 r h2 c ys
    where ys: "ys = filter (\<lambda>x. \<not> p x) (elems h a)"
    and 1: "rb_ary_modify h a = Inr h1" "arys h1 a = Some r" "ary_len r = int ?n" "capa r = int (length c)"
      "filter_loop False p h1 a 0 0 (int ?n) = Inr (h2, int (length ys))"
    and 2: "owned h2 a ?n c" "frame a h h2" "length ys \<le> length c" "take (length ys) c = ys" "length ys \<le> ?n"
    by blast
  have hit: "length ys = ?n \<longleftrightarrow> \<not> (\<exists>x \<in> set (elems h a). p x)"
    unfolding ys by (rule length_filter_same)
  note o = set_len_owned [OF 2(1,2) refl 2(3)]
  have "ys = elems h a" if "length ys = ?n" using hit that ys by (auto simp: filter_id_conv)
  then show ?thesis
    unfolding ys [symmetric]
    using hit 1 2 owned_ok [OF 2(1)] owned_elems [OF 2(1)] o owned_ok [OF o(1)] owned_elems [OF o(1)]
    by (cases "length ys = ?n") (simp_all add: rb_ary_reject_bang_def with_ary_def)
qed

lemma rb_ary_compact_bang_ok:
  assumes ok: "heap_ok h" and m: "modifiable h a" and small: "length (elems h a) < 2 ^ 44"
  shows "\<exists>h'. rb_ary_compact_bang h a = Inr (h', if Qnil \<in> set (elems h a) then AryRef a else Qnil) \<and> heap_ok h' \<and>
           elems h' a = filter (\<lambda>x. x \<noteq> Qnil) (elems h a) \<and> frame a h h'"
proof -
  let ?n = "length (elems h a)"
  from filter_loop_modified [OF ok m small, of "\<lambda>v. v = Qnil" True] obtain h1 r h2 c ys
    where ys: "ys = filter (\<lambda>x. x \<noteq> Qnil) (elems h a)"
    and 1: "rb_ary_modify h a = Inr h1" "arys h1 a = Some r" "ary_len r = int ?n" "capa r = int (length c)"
      "filter_loop True (\<lambda>v. v = Qnil) h1 a 0 0 (int ?n) = Inr (h2, int (length ys))"
    and 2: "owned h2 a ?n c" "frame a h h2" "length ys \<le> length c" "take (length ys) c = ys" "length ys \<le> ?n"
    by blast
  have hit: "length ys = ?n \<longleftrightarrow> Qnil \<notin> set (elems h a)"
    unfolding ys using length_filter_same [of "\<lambda>v. v = Qnil" "elems h a"] by auto
  show ?thesis
  proof (cases "length ys = ?n")
    case True
    then have "ys = elems h a" using hit ys by (auto simp: filter_id_conv)
    then show ?thesis
      using True hit 1 2 owned_ok [OF 2(1)] owned_elems [OF 2(1)] unfolding ys [symmetric]
      by (simp add: rb_ary_compact_bang_def with_ary_def)
  next
    case False
    note o = set_len_owned [OF 2(1,2) refl 2(3)]
    have "gives a h (resize (set_len h2 a (int (length ys))) a (int (length ys))) (length ys)
        (take (length ys) c @ replicate (length ys - length c) (junk (set_len h2 a (int (length ys)))))"
      by (rule gives_resize [OF o]) (use 2(5) small in auto)
    then have "makes a h (resize (set_len h2 a (int (length ys))) a (int (length ys))) ys"
      by (rule gives_makes) (use 2(3,4) in simp)
    then obtain h3 where 3: "resize (set_len h2 a (int (length ys))) a (int (length ys)) = Inr h3" "heap_ok h3"
      "elems h3 a = ys" "frame a h h3" by (auto dest!: makes_yields simp: yields_def)
    have "rb_ary_compact_bang h a = Inr (h3, AryRef a)"
      unfolding rb_ary_compact_bang_def with_ary_def 1(1) bindR_simps 1(2) option.case 1(3) 1(5) prod.case 3(1)
      using False by simp
    then show ?thesis using 3 hit False ys by auto
  qed
qed

section \<open>Moving elements\<close>

lemma owned_cell: "owned h a n c \<Longrightarrow> i < length c \<Longrightarrow> cell h a (int i) = Inr (c ! i)"
  using owned_read [of h a n c i 1] by (simp add: cell_def take_Suc hd_drop_conv_nth)

lemma owned_write1:
  assumes "owned h a n c" "frame a h0 h" "i < length c"
  shows "\<exists>h'. write_at h a (int i) [v] = Inr h' \<and> owned h' a n (c[i := v]) \<and> frame a h0 h'"
  using gives_write [OF assms(1,2) refl, of i "[v]"] assms(3) by (auto simp: gives_def upd_conv_take_nth_drop)

lemma reverse_loop_ok:
  assumes "owned h a n c" "frame a h0 h" "i \<le> Suc j" "j < length c"
  shows "\<exists>h' c'. reverse_loop h a (int i) (int j) = Inr h' \<and> owned h' a n c' \<and> frame a h0 h' \<and> length c' = length c \<and>
           (\<forall>k. c' ! k = (if i \<le> k \<and> k \<le> j then c ! (i + j - k) else c ! k))"
  using assms
proof (induction "j - i" arbitrary: i j h c rule: less_induct)
  case less
  show ?case
  proof (cases "i < j")
    case False
    then have "i = k \<and> j = k" if "i \<le> k" "k \<le> j" for k using that by simp
    then have "(if i \<le> k \<and> k \<le> j then c ! (i + j - k) else c ! k) = c ! k" for k by force
    then show ?thesis using less.prems False by (subst reverse_loop.simps) auto
  next
    case True
    have i: "i < length c" using True less.prems(4) by simp
    obtain h1 where 1: "write_at h a (int i) [c ! j] = Inr h1" "owned h1 a n (c[i := c ! j])" "frame a h0 h1"
      using owned_write1 [OF less.prems(1,2) i] by blast
    obtain h2 where 2: "write_at h1 a (int j) [c ! i] = Inr h2" "owned h2 a n (c[i := c ! j, j := c ! i])" "frame a h0 h2"
      using owned_write1 [OF 1(2,3), of j "c ! i"] less.prems(4) by auto
    let ?c = "c[i := c ! j, j := c ! i]"
    have d: "(j - 1) - Suc i < j - i" "Suc i \<le> Suc (j - 1)" "j - 1 < length ?c" using True less.prems(4) by auto
    obtain h' c' where 3: "reverse_loop h2 a (int (Suc i)) (int (j - 1)) = Inr h'" "owned h' a n c'" "frame a h0 h'"
      "length c' = length ?c" "\<forall>k. c' ! k = (if Suc i \<le> k \<and> k \<le> j - 1 then ?c ! (Suc i + (j - 1) - k) else ?c ! k)"
      using less.hyps [OF d(1) 2(2,3) d(2,3)] by blast
    have s: "int i + 1 = int (Suc i)" "int j - 1 = int (j - 1)" using True by auto
    have "reverse_loop h a (int i) (int j) = Inr h'"
      using True 1(1) 2(1) 3(1) owned_cell [OF less.prems(1) i] owned_cell [OF less.prems(1,4)]
      by (subst reverse_loop.simps) (simp only: s bindR_simps of_nat_less_iff if_True)
    moreover have "c' ! k = (if i \<le> k \<and> k \<le> j then c ! (i + j - k) else c ! k)" for k
    proof (cases "Suc i \<le> k \<and> k \<le> j - 1")
      case True
      then show ?thesis using 3(5) by auto
    next
      case False
      then have "c' ! k = ?c ! k" using 3(5) by auto
      moreover have "k = i \<or> k = j \<or> k < i \<or> k > j" using False by linarith
      ultimately show ?thesis using \<open>i < j\<close> i less.prems(4) by (auto simp: nth_list_update)
    qed
    ultimately show ?thesis using 3 by auto
  qed
qed

lemma rb_ary_reverse_makes:
  assumes ok: "heap_ok h" and m: "modifiable h a" and small: "length (elems h a) < 2 ^ 44"
  shows "makes a h (rb_ary_reverse h a) (rev (elems h a))"
  unfolding rb_ary_reverse_def
proof (rule makes_modify [OF ok m small], rule makes_with, assumption)
  fix h1 :: "'a heap" and c :: "'a rval list" and r
  let ?n = "length (elems h a)"
  assume 1: "owned h1 a ?n c" "take ?n c = elems h a" "?n \<le> length c" "frame a h h1" and r: "ary_len r = int ?n"
  show "makes a h (if ary_len r \<le> 1 then Inr h1 else reverse_loop h1 a 0 (ary_len r - 1)) (rev (elems h a))"
  proof (cases "?n \<le> 1")
    case True
    then have "rev (elems h a) = elems h a" by (cases "elems h a") auto
    then show ?thesis using True r 1 makes_return [OF 1(1,4,2)] by simp
  next
    case False
    then have n: "ary_len r - 1 = int (?n - 1)" "?n - 1 < length c" using r 1(3) by auto
    obtain h2 c2 where 2: "reverse_loop h1 a 0 (int (?n - 1)) = Inr h2" "owned h2 a ?n c2" "frame a h h2" "length c2 = length c"
      "\<forall>k. c2 ! k = (if k \<le> ?n - 1 then c ! (?n - 1 - k) else c ! k)"
      using reverse_loop_ok [OF 1(1,4), of 0 "?n - 1"] n(2) by auto
    have "take ?n c2 = rev (take ?n c)"
      using 1(3) 2(4,5) False by (intro nth_equalityI) (auto simp: rev_nth min_def)
    then show ?thesis
      using makes_return [OF 2(2,3)] 1(2) 2(1) n(1) r False by simp
  qed
qed

lemma drop_nth_list:
  assumes p: "p < n" "n \<le> length c" and l: "length d = length c"
    and d: "\<forall>k. d ! k = (if p \<le> k \<and> k < n - 1 then c ! Suc k else c ! k)"
  shows "take (n - 1) d = take p (take n c) @ drop (Suc p) (take n c)"
proof (rule nth_equalityI)
  show "length (take (n - 1) d) = length (take p (take n c) @ drop (Suc p) (take n c))" using p l by simp
next
  fix i assume "i < length (take (n - 1) d)"
  then have i: "i < n - 1" by simp
  then show "take (n - 1) d ! i = (take p (take n c) @ drop (Suc p) (take n c)) ! i"
    using p d by (cases "i < p") (auto simp: nth_append)
qed

lemma delete_at_loop_ok:
  assumes "owned h a n c" "frame a h0 h" "p < n"
  shows "\<exists>h' c'. delete_at_loop h a (int (Suc p)) (int p) (int n) = Inr (h', int (n - 1)) \<and> owned h' a n c' \<and> frame a h0 h' \<and>
           length c' = length c \<and> (\<forall>k. c' ! k = (if p \<le> k \<and> k < n - 1 then c ! Suc k else c ! k))"
  using assms
proof (induction "n - p" arbitrary: p h c rule: less_induct)
  case less
  have n: "n \<le> length c" using less.prems(1) by (simp add: owned_def)
  show ?case
  proof (cases "Suc p < n")
    case False
    then have "p = n - 1" using less.prems(3) by simp
    then show ?thesis using less.prems False by (subst delete_at_loop.simps) auto
  next
    case True
    obtain h1 where 1: "write_at h a (int p) [c ! Suc p] = Inr h1" "owned h1 a n (c[p := c ! Suc p])" "frame a h0 h1"
      using owned_write1 [OF less.prems(1,2), of p "c ! Suc p"] less.prems(3) n by auto
    let ?c = "c[p := c ! Suc p]"
    obtain h' c' where 2: "delete_at_loop h1 a (int (Suc (Suc p))) (int (Suc p)) (int n) = Inr (h', int (n - 1))" "owned h' a n c'"
      "frame a h0 h'" "length c' = length ?c" "\<forall>k. c' ! k = (if Suc p \<le> k \<and> k < n - 1 then ?c ! Suc k else ?c ! k)"
      using less.hyps [OF diff_less_mono2 [OF lessI less.prems(3)] 1(2,3) True] by blast
    have s: "int (Suc p) + 1 = int (Suc (Suc p))" "int p + 1 = int (Suc p)" by simp_all
    have "cell h a (int (Suc p)) = Inr (c ! Suc p)" using owned_cell [OF less.prems(1), of "Suc p"] True n by simp
    then have "delete_at_loop h a (int (Suc p)) (int p) (int n) = Inr (h', int (n - 1))"
      using True 1(1) 2(1) by (subst delete_at_loop.simps) (simp only: s bindR_simps of_nat_less_iff if_True)
    moreover have "c' ! k = (if p \<le> k \<and> k < n - 1 then c ! Suc k else c ! k)" for k
      using 2(5) True n by (cases "k = p") (auto simp: nth_list_update)
    ultimately show ?thesis using 2 by auto
  qed
qed

text \<open>The position that an index counted from either end names, if any.\<close>

definition norm_index :: "nat \<Rightarrow> int \<Rightarrow> nat option" where
  "norm_index n pos =
     (let p = (if pos < 0 then pos + int n else pos) in if 0 \<le> p \<and> p < int n then Some (nat p) else None)"

lemma rb_ary_delete_at_ok:
  assumes ok: "heap_ok h" and m: "modifiable h a" and small: "length (elems h a) < 2 ^ 44"
  shows "\<exists>h'. rb_ary_delete_at h a pos = Inr (h', entry_list (elems h a) pos) \<and> heap_ok h' \<and>
           elems h' a = (case norm_index (length (elems h a)) pos of
                           None \<Rightarrow> elems h a | Some p \<Rightarrow> take p (elems h a) @ drop (Suc p) (elems h a)) \<and> frame a h h'"
proof -
  let ?n = "length (elems h a)"
  obtain h1 c where 1: "rb_ary_modify h a = Inr h1" "owned h1 a ?n c" "take ?n c = elems h a" "frame a h h1"
    using rb_ary_modify_owned [OF ok m small] by blast
  obtain r where r: "arys h1 a = Some r" "ary_len r = int ?n" using owned_ary [OF 1(2)] by blast
  have n: "?n \<le> length c" using 1(2) by (simp add: owned_def)
  show ?thesis
  proof (cases "norm_index ?n pos")
    case None
    then have "entry_list (elems h a) pos = Qnil"
      by (auto simp: norm_index_def entry_list_def Let_def split: if_splits)
    moreover have "rb_ary_delete_at h a pos = Inr (h1, Qnil)"
      using None 1(1) r by (auto simp: rb_ary_delete_at_def with_ary_def norm_index_def Let_def split: if_splits)
    ultimately show ?thesis using None 1 owned_ok [OF 1(2)] owned_elems [OF 1(2)] by simp
  next
    case (Some p)
    have p: "p < ?n" "(if pos < 0 then pos + int ?n else pos) = int p" "\<not> pos \<ge> int ?n"
      using Some by (auto simp: norm_index_def Let_def split: if_splits)
    have e: "entry_list (elems h a) pos = elems h a ! p" unfolding entry_list_def Let_def p(2) using p(1) by simp
    obtain h2 c2 where 2: "delete_at_loop h1 a (int (Suc p)) (int p) (int ?n) = Inr (h2, int (?n - 1))" "owned h2 a ?n c2"
      "frame a h h2" "length c2 = length c" "\<forall>k. c2 ! k = (if p \<le> k \<and> k < ?n - 1 then c ! Suc k else c ! k)"
      using delete_at_loop_ok [OF 1(2,4) p(1)] by blast
    have "cell h1 a (int p) = Inr (elems h a ! p)"
      using owned_cell [OF 1(2), of p] p(1) n 1(3) by (metis nth_take order_less_le_trans)
    moreover have "int p + 1 = int (Suc p)" by simp
    ultimately have "rb_ary_delete_at h a pos = Inr (set_len h2 a (int (?n - 1)), elems h a ! p)"
      unfolding rb_ary_delete_at_def with_ary_def 1(1) bindR_simps r(1) option.case Let_def r(2) p(2)
      using 2(1) p(3) by (simp add: add.commute)
    moreover have "take (?n - 1) c2 = take p (take ?n c) @ drop (Suc p) (take ?n c)"
      by (rule drop_nth_list [OF p(1) n 2(4,5)])
    then have "take (?n - 1) c2 = take p (elems h a) @ drop (Suc p) (elems h a)" unfolding 1(3) .
    moreover have le: "?n - 1 \<le> length c2" using n 2(4) by simp
    note o = set_len_owned [OF 2(2,3) refl le]
    ultimately show ?thesis using Some e owned_ok [OF o(1)] owned_elems [OF o(1)] o(2) by simp
  qed
qed

section \<open>New arrays: what they hold\<close>

lemma int64_of_nat: "n < 2 ^ 63 \<Longrightarrow> int64 (int n) = int n"
  by simp

lemma frame_ary: "frame a h h' \<Longrightarrow> a' \<noteq> a \<Longrightarrow> arys h a' = Some r \<Longrightarrow> \<exists>r'. arys h' a' = Some r'"
  using view_None [of h' a'] view_None [of h a'] by (auto simp: frame_def)

lemma rb_ary_slice_bang_ok:
  assumes ok: "heap_ok h" and m: "modifiable h a" and small: "length (elems h a) < 2 ^ 43" and p: "p \<le> length (elems h a)"
    and l: "int p + int l < 2 ^ 63"
  shows "\<exists>h' b. rb_ary_slice_bang h (Idx (int p)) (Some (int l)) a = Inr (h', AryRef b) \<and> heap_ok h' \<and>
           elems h' a = take p (elems h a) @ drop (p + l) (elems h a) \<and>
           elems h' b = take l (drop p (elems h a)) \<and> arys h b = None \<and> frame a h h'"
proof -
  have "length (elems h a) < 2 ^ 44" using small by simp
  then obtain h1 c where 1: "rb_ary_modify h a = Inr h1" "owned h1 a (length (elems h a)) c"
    "take (length (elems h a)) c = elems h a" "frame a h h1"
    using rb_ary_modify_owned [OF ok m] by blast
  have e1: "elems h1 a = elems h a" using owned_elems [OF 1(2)] 1(3) by simp
  obtain r1 where r1: "arys h1 a = Some r1" using owned_ary [OF 1(2)] by blast
  note m1 = frame_modifiable [OF 1(4) m]
  obtain h2 b where 2: "rb_ary_subseq h1 a (int p) (int l) = Inr (h2, AryRef b)" "heap_ok h2" "extends h1 h2" "arys h1 b = None"
    "modifiable h2 b" "elems h2 b = take l (drop p (elems h1 a))"
    using rb_ary_subseq_creates [OF owned_ok [OF 1(2)] r1, of p l] p l e1 by auto
  have e2: "elems h2 a = elems h a" using extends_elems [OF 2(3) r1] e1 by simp
  have "makes a h2 (rb_ary_update h2 a (int p) (int l) Qnil) (update_list (elems h2 a) p l (to_ary_list h2 Qnil))"
    using 2(2) extends_modifiable [OF 2(3) m1] small p l e2
    by (intro rb_ary_update_makes) (auto simp: valid_value_def to_ary_list_def)
  then obtain h3 where 3: "rb_ary_update h2 a (int p) (int l) Qnil = Inr h3" "heap_ok h3"
    "elems h3 a = update_list (elems h2 a) p l (to_ary_list h2 Qnil)" "frame a h2 h3"
    by (auto dest!: makes_yields simp: yields_def)
  have u: "update_list (elems h2 a) p l (to_ary_list h2 Qnil) = take p (elems h a) @ drop (p + l) (elems h a)"
    using p e2 by (auto simp: update_list_def to_ary_list_def)
  obtain rb where rb: "arys h2 b = Some rb" using modifiable_ary [OF 2(5)] by blast
  have ab: "b \<noteq> a" using r1 2(4) by auto
  have "elems h3 b = take l (drop p (elems h a))" using frame_elems [OF 3(4) ab rb] 2(6) e1 by simp
  moreover have "arys h b = None"
  proof (rule ccontr)
    assume "arys h b \<noteq> None"
    then have "view h1 b = view h b" using 1(4) ab by (simp add: frame_def)
    then show False using 2(4) \<open>arys h b \<noteq> None\<close> by (auto simp: view_def)
  qed
  moreover have "frame a h h3" using frame_trans [OF frame_trans [OF 1(4) extends_frame [OF 2(3)]] 3(4)] .
  moreover have "rb_ary_slice_bang h (Idx (int p)) (Some (int l)) a = Inr (h3, AryRef b)"
    using 1(1) r1 2(1) 3(1) by (simp add: rb_ary_slice_bang_def delete_pos_len_def with_ary_def)
  ultimately show ?thesis using 3(2,3) u by auto
qed

lemma concat_replicate_Suc: "concat (replicate (Suc k) xs) = concat (replicate k xs) @ xs"
  by (induction k) auto

lemma length_concat_replicate [simp]: "length (concat (replicate k xs)) = k * length xs"
  by (induction k) auto

lemma times_loop_ok:
  assumes "owned h b m c" "frame b h0 h" "heap_ok h0" "arys h0 a = Some r" "a \<noteq> b" "elems h0 a \<noteq> []" "k \<le> t"
    "t * length (elems h0 a) \<le> length c"
    "take (k * length (elems h0 a)) c = concat (replicate k (elems h0 a))"
  shows "\<exists>h' c'. times_loop h a b (int (length (elems h0 a))) (int (k * length (elems h0 a))) (int (t * length (elems h0 a))) = Inr h' \<and>
           owned h' b m c' \<and> frame b h0 h' \<and> take (t * length (elems h0 a)) c' = concat (replicate t (elems h0 a))"
  using assms
proof (induction "t - k" arbitrary: k h c)
  case 0
  then show ?case by (subst times_loop.simps) auto
next
  case (Suc d)
  let ?xs = "elems h0 a" and ?n = "length (elems h0 a)"
  have k: "k < t" "Suc k \<le> t" "d = t - Suc k" using Suc.hyps(2) by auto
  have le: "k * ?n + ?n \<le> length c" using mult_le_mono1 [OF k(2), of ?n] Suc.prems(8) by simp
  have rd: "read_at h a 0 (int ?n) = Inr ?xs"
    by (rule read_other [OF owned_ok [OF Suc.prems(1)] Suc.prems(2,4,5) refl])
  let ?c = "take (k * ?n) c @ ?xs @ drop (k * ?n + ?n) c"
  have "gives b h0 (write_at h b (int (k * ?n)) ?xs) m ?c"
    by (rule gives_write [OF Suc.prems(1,2) refl le])
  then obtain h1 where 1: "write_at h b (int (k * ?n)) ?xs = Inr h1" "owned h1 b m ?c" "frame b h0 h1"
    by (auto simp: gives_def)
  have lc: "length ?c = length c" using le by simp
  have "take (Suc k * ?n) ?c = concat (replicate (Suc k) ?xs)"
    using Suc.prems(9) le by (simp add: concat_replicate_Suc del: replicate_Suc)
  from Suc.hyps(1) [OF k(3) 1(2,3) Suc.prems(3-6) k(2) _ this] Suc.prems(8) lc
  obtain h' c' where 2: "times_loop h1 a b (int ?n) (int (Suc k * ?n)) (int (t * ?n)) = Inr h'"
    "owned h' b m c'" "frame b h0 h'" "take (t * ?n) c' = concat (replicate t ?xs)" by auto
  have s: "int (k * ?n) + int ?n = int (Suc k * ?n)" by simp
  have "times_loop h a b (int ?n) (int (k * ?n)) (int (t * ?n)) = times_loop h1 a b (int ?n) (int (Suc k * ?n)) (int (t * ?n))"
    using k(1) Suc.prems(6) rd 1(1) by (subst times_loop.simps) (simp only: s bindR_simps of_nat_less_iff, simp)
  then show ?case using 2 by auto
qed

lemma rb_ary_times_ok:
  assumes ok: "heap_ok h" and r: "arys h a = Some r" and small: "t * length (elems h a) < 2 ^ 44"
  shows "\<exists>h' b rb. rb_ary_times h a (int t) = Inr (h', b) \<and> heap_ok h' \<and> extends h h' \<and> arys h b = None \<and>
           arys h' b = Some rb \<and> (tainted r \<longrightarrow> tainted rb) \<and> elems h' b = concat (replicate t (elems h a))"
proof -
  let ?xs = "elems h a" and ?n = "length (elems h a)"
  note len = ok_elems_length [OF ok r]
  obtain h1 b r1 where 1: "ary_new h (int (t * ?n)) = Inr (h1, b)" "owned h1 b 0 (replicate (max (t * ?n) 1) (junk h))"
    "arys h b = None" "extends h h1" "arys h1 b = Some r1" "flags r1 = (False, False, 3 \<le> safe_level h)"
    using ary_new_owned [OF ok small] by blast
  have ab: "a \<noteq> b" using 1(3) r by auto
  obtain ra where ra: "arys h1 a = Some ra" "elems h1 a = ?xs" using extends_elems [OF 1(4) r] by blast
  let ?c = "replicate (max (t * ?n) 1) (junk h)"
  let ?h2 = "set_len h1 b (int (t * ?n))"
  have o2: "owned ?h2 b (t * ?n) ?c" "frame b h1 ?h2" using owned_set_len [OF 1(2), of "t * ?n"] by auto
  have "\<exists>h3 c3. times_loop ?h2 a b (int ?n) 0 (int (t * ?n)) = Inr h3 \<and> owned h3 b (t * ?n) c3 \<and> frame b h1 h3 \<and>
      take (t * ?n) c3 = concat (replicate t ?xs)"
  proof (cases "?xs = []")
    case True
    then show ?thesis using o2 by (subst times_loop.simps) auto
  next
    case False
    then show ?thesis
      using times_loop_ok [OF o2 owned_ok [OF 1(2)] ra(1) ab, of 0 t] unfolding ra(2) by simp
  qed
  then obtain h3 c3 where 3: "times_loop ?h2 a b (int ?n) 0 (int (t * ?n)) = Inr h3" "owned h3 b (t * ?n) c3" "frame b h1 h3"
      "take (t * ?n) c3 = concat (replicate t ?xs)" by blast
  obtain r3 where r3: "arys h3 b = Some r3" using owned_ary [OF 3(2)] by blast
  let ?f = "\<lambda>r2. r2\<lparr>tainted := tainted r2 \<or> tainted r\<rparr>"
  let ?h4 = "upd_ary h3 b ?f"
  note fl = upd_flags [OF owned_ok [OF 3(2)] r3, of ?f, simplified]
  have "t * ?n < 2 ^ 63" using small by (rule order_less_trans) simp
  then have "int64 (int (t * ?n)) = int (t * ?n)" by (rule int64_of_nat)
  then have "int64 (int t * int ?n) = int (t * ?n)" by simp
  then have "rb_ary_times h a (int t) = Inr (?h4, b)"
    using r len 1(1) 3(1) by (simp add: rb_ary_times_def with_ary_def)
  moreover have "extends h ?h4"
  proof -
    have e3: "extends h h3" by (rule frame_extends [OF 3(3) 1(4,3)])
    have "view ?h4 x = view h3 x" if "x \<noteq> b" for x
      using that fl(2) by (simp add: view_def upd_ary_def)
    then have "view ?h4 x = view h x" if "arys h x \<noteq> None" for x
      using that 1(3) e3 by (metis extends_def)
    then show ?thesis using e3 by (auto simp: extends_def upd_ary_def)
  qed
  moreover have "arys ?h4 b = Some (?f r3)" using r3 by (simp add: upd_ary_def)
  moreover have "elems ?h4 b = concat (replicate t ?xs)" using fl(2) owned_elems [OF 3(2)] 3(4) by simp
  ultimately show ?thesis using fl(1) 1(3) by auto
qed

text \<open>The difference: the elements of the first array that equal no element of the second, each once.\<close>

definition diff_list :: "('a \<Rightarrow> 'a \<Rightarrow> bool) \<Rightarrow> 'a list \<Rightarrow> 'a list \<Rightarrow> 'a list \<Rightarrow> 'a list" where
  "diff_list eq ys =
     foldl (\<lambda>acc v. if (\<exists>y \<in> set ys. eq y v) \<or> (\<exists>z \<in> set acc. eq z v) then acc else acc @ [v])"

lemma diff_list_eq: "set (diff_list (=) ys acc xs) = set acc \<union> (set xs - set ys) \<and> (distinct acc \<longrightarrow> distinct (diff_list (=) ys acc xs))"
  by (induction xs arbitrary: acc) (auto simp: diff_list_def)

lemma diff_loop_ok:
  assumes "heap_ok h" "modifiable h c" "frame c h0 h" "heap_ok h0" "arys h0 a = Some ra" "arys h0 b = Some rb" "a \<noteq> c" "b \<noteq> c"
    "i \<le> length (elems h0 a)" "length (elems h c) + (length (elems h0 a) - i) < 2 ^ 40"
  shows "\<exists>h'. diff_loop eq h a b c (int i) (int (length (elems h0 a))) = Inr h' \<and> heap_ok h' \<and> frame c h0 h' \<and> modifiable h' c \<and>
           elems h' c = diff_list eq (elems h0 b) (elems h c) (drop i (elems h0 a))"
  using assms
proof (induction "length (elems h0 a) - i" arbitrary: i h)
  case 0
  then show ?case by (subst diff_loop.simps) (auto simp: diff_list_def)
next
  case (Suc d)
  let ?n = "length (elems h0 a)"
  have i: "i < ?n" "d = ?n - Suc i" "Suc i \<le> ?n" using Suc.hyps(2) by auto
  have el: "elems h a = elems h0 a" "elems h b = elems h0 b"
    using frame_elems [OF Suc.prems(3,7,5)] frame_elems [OF Suc.prems(3,8,6)] by auto
  obtain ra' rb' rc where rs: "arys h a = Some ra'" "arys h b = Some rb'" "arys h c = Some rc"
    using frame_ary [OF Suc.prems(3,7,5)] frame_ary [OF Suc.prems(3,8,6)] modifiable_ary [OF Suc.prems(2)] by blast
  let ?v = "elems h0 a ! i"
  have v: "cell h a (int i) = Inr ?v" using cell_elems [OF Suc.prems(1) rs(1), of i] el i by simp
  note inc = rb_ary_includes_eq [OF Suc.prems(1) rs(2), of eq ?v, unfolded el] rb_ary_includes_eq [OF Suc.prems(1) rs(3), of eq ?v]
  have dr: "drop i (elems h0 a) = ?v # drop (Suc i) (elems h0 a)" using Cons_nth_drop_Suc [OF i(1)] by simp
  have s: "int i + 1 = int (Suc i)" by simp
  show ?case
  proof (cases "(\<exists>y \<in> set (elems h0 b). eq y ?v) \<or> (\<exists>z \<in> set (elems h c). eq z ?v)")
    case True
    have "diff_loop eq h a b c (int i) (int ?n) = diff_loop eq h a b c (int (Suc i)) (int ?n)"
      using True i v inc by (subst diff_loop.simps) (auto simp: add.commute)
    then show ?thesis
      using Suc.hyps(1) [OF i(2) Suc.prems(1-8) i(3)] Suc.prems(10) True unfolding dr by (simp add: diff_list_def)
  next
    case False
    have "yields c h (rb_ary_push h c ?v) (elems h c @ [?v])"
      using Suc.prems(1,2,10) by (intro rb_ary_push_yields) auto
    then obtain h1 where 1: "rb_ary_push h c ?v = Inr h1" "heap_ok h1" "elems h1 c = elems h c @ [?v]" "frame c h h1"
      by (auto simp: yields_def)
    have "diff_loop eq h a b c (int i) (int ?n) = diff_loop eq h1 a b c (int (Suc i)) (int ?n)"
      using False i v inc 1(1) by (subst diff_loop.simps) (auto simp: add.commute)
    then show ?thesis
      using Suc.hyps(1) [OF i(2) 1(2) frame_modifiable [OF 1(4) Suc.prems(2)] frame_trans [OF Suc.prems(3) 1(4)] Suc.prems(4-8) i(3)]
        Suc.prems(10) i False 1(3) unfolding dr by (simp add: diff_list_def)
  qed
qed

lemma rb_ary_diff_creates:
  assumes ok: "heap_ok h" and a: "arys h a = Some ra" and b: "arys h b = Some rb" and small: "length (elems h a) < 2 ^ 40"
  shows "creates h (rb_ary_diff eq h a b) (diff_list eq (elems h b) [] (elems h a))"
proof -
  have "creates h (rb_ary_new h) []"
    unfolding rb_ary_new_def rb_ary_new2_def ARY_DEFAULT_SIZE_def using ary_new_creates [OF ok, of 16] by simp
  then obtain h1 c where 1: "rb_ary_new h = Inr (h1, c)" "heap_ok h1" "extends h h1" "arys h c = None" "modifiable h1 c" "elems h1 c = []"
    by (auto simp: creates_def)
  obtain ra1 rb1 where rs: "arys h1 a = Some ra1" "elems h1 a = elems h a" "arys h1 b = Some rb1" "elems h1 b = elems h b"
    using extends_elems [OF 1(3) a] extends_elems [OF 1(3) b] by blast
  have "a \<noteq> c" "b \<noteq> c" using 1(4) a b by auto
  from diff_loop_ok [OF 1(2,5) frame_refl 1(2) rs(1,3) this, of 0 eq] small rs 1(6)
  obtain h2 where "diff_loop eq h1 a b c 0 (int (length (elems h a))) = Inr h2" "heap_ok h2" "frame c h1 h2" "modifiable h2 c"
    "elems h2 c = diff_list eq (elems h b) [] (elems h a)" by auto
  then show ?thesis
    using 1 a ok_elems_length [OF ok a] frame_extends [OF _ 1(3,4)] by (auto simp: creates_def rb_ary_diff_def with_ary_def)
qed

end
