(* ===== verification/St_Table.thy ===== *)
theory St_Table
  imports CRuby_Prelude
begin

text \<open>
  The hash tables of \<^verbatim>\<open>src/ruby/st.c\<close>, on which the interpreter's symbol tables, method tables
  and the class Hash rest. A table is an array of bins, each a singly linked chain of entries;
  the model keeps the chains as lists and every field of \<^verbatim>\<open>struct st_table\<close>.

  The first part holds the definitions, one per function or macro; the second the invariant and
  its preservation; the third the dictionary contract, stated as a locale, and its
  interpretation on the operations of this file.
\<close>

section \<open>Data\<close>

text \<open>
  \<^verbatim>\<open>char *\<close> keys and records are opaque to the table, so both are type variables. The hash
  function returns \<^verbatim>\<open>int\<close>, which \<^verbatim>\<open>do_hash\<close> casts to \<^verbatim>\<open>unsigned int\<close>.
\<close>

record 'k st_hash_type =
  compare :: "'k \<Rightarrow> 'k \<Rightarrow> int"
  hash_fn :: "'k \<Rightarrow> u32"

record ('k, 'v) st_table_entry =
  ent_hash :: u32
  ent_key :: 'k
  ent_record :: 'v

record ('k, 'v) st_table =
  st_type :: "'k st_hash_type"
  num_bins :: int
  num_entries :: int
  bins :: "('k, 'v) st_table_entry list list"

datatype st_retval = ST_CONTINUE | ST_STOP | ST_DELETE

text \<open>What a call leaves in the caller's \<^verbatim>\<open>char **value\<close>: nothing, a null pointer or a record.\<close>

datatype 'v out_param = Untouched | SetNull | SetTo 'v

definition ST_DEFAULT_MAX_DENSITY :: int where
  "ST_DEFAULT_MAX_DENSITY = 5"

definition MINSIZE :: int where
  "MINSIZE = 8"

definition primes :: "int list" where
  "primes =
    [8 + 3, 16 + 3, 32 + 5, 64 + 3, 128 + 3, 256 + 27, 512 + 9, 1024 + 9, 2048 + 5, 4096 + 3,
     8192 + 27, 16384 + 43, 32768 + 3, 65536 + 45, 131072 + 29, 262144 + 3, 524288 + 21,
     1048576 + 7, 2097152 + 17, 4194304 + 15, 8388608 + 9, 16777216 + 43, 33554432 + 35,
     67108864 + 15, 134217728 + 29, 268435456 + 3, 536870912 + 11, 1073741824 + 85, 0]"

section \<open>Operations\<close>

text \<open>The loop of \<^verbatim>\<open>new_size\<close>: \<^verbatim>\<open>newsize\<close> doubles as an \<^verbatim>\<open>int\<close> while the table of primes is walked.\<close>

fun new_size_loop :: "int list \<Rightarrow> int \<Rightarrow> int \<Rightarrow> int" where
  "new_size_loop [] newsize sz = - 1"
| "new_size_loop (p # ps) newsize sz =
     (if newsize > sz then p else new_size_loop ps (int32 (newsize * 2)) sz)"

definition new_size :: "int \<Rightarrow> int" where
  "new_size sz = new_size_loop primes MINSIZE sz"

definition EQUAL :: "'k st_hash_type \<Rightarrow> 'k \<Rightarrow> 'k \<Rightarrow> bool" where
  "EQUAL ty x y \<longleftrightarrow> x = y \<or> compare ty x y = 0"

definition do_hash :: "'k \<Rightarrow> ('k, 'v) st_table \<Rightarrow> u32" where
  "do_hash key table = hash_fn (st_type table) key"

definition do_hash_bin :: "'k \<Rightarrow> ('k, 'v) st_table \<Rightarrow> nat" where
  "do_hash_bin key table = unat (do_hash key table) mod nat (num_bins table)"

text \<open>
  \<^verbatim>\<open>Calloc\<close> of a negative number of bins raises in \<^verbatim>\<open>ruby_xmalloc\<close>; other allocations succeed.
\<close>

definition st_init_table_with_size ::
  "'k st_hash_type \<Rightarrow> int \<Rightarrow> rb_error + ('k, 'v) st_table" where
  "st_init_table_with_size type sz =
     (let sz = new_size sz
      in if sz < 0 then Inl NoMemError
         else Inr \<lparr>st_type = type, num_bins = sz, num_entries = 0,
                   bins = replicate (nat sz) []\<rparr>)"

definition st_init_table :: "'k st_hash_type \<Rightarrow> rb_error + ('k, 'v) st_table" where
  "st_init_table type = st_init_table_with_size type 0"

text \<open>
  \<^verbatim>\<open>PTR_NOT_EQUAL\<close> is the guard of the walk, \<^verbatim>\<open>FIND_ENTRY\<close> the walk along the chain: it stops at
  the first entry whose stored hash and key both match, or at the end of the chain.
\<close>

definition PTR_NOT_EQUAL ::
  "'k st_hash_type \<Rightarrow> ('k, 'v) st_table_entry \<Rightarrow> u32 \<Rightarrow> 'k \<Rightarrow> bool" where
  "PTR_NOT_EQUAL ty ptr hash_val key \<longleftrightarrow>
     ent_hash ptr \<noteq> hash_val \<or> \<not> EQUAL ty key (ent_key ptr)"

fun find_entry ::
  "'k st_hash_type \<Rightarrow> u32 \<Rightarrow> 'k \<Rightarrow> ('k, 'v) st_table_entry list \<Rightarrow> nat option" where
  "find_entry ty hash_val key [] = None"
| "find_entry ty hash_val key (ptr # next) =
     (if PTR_NOT_EQUAL ty ptr hash_val key
      then map_option Suc (find_entry ty hash_val key next)
      else Some 0)"

definition FIND_ENTRY :: "('k, 'v) st_table \<Rightarrow> u32 \<Rightarrow> 'k \<Rightarrow> nat option" where
  "FIND_ENTRY table hash_val key =
     find_entry (st_type table) hash_val key (bins table ! (unat hash_val mod nat (num_bins table)))"

definition st_lookup :: "('k, 'v) st_table \<Rightarrow> 'k \<Rightarrow> 'v option" where
  "st_lookup table key =
     (let hash_val = do_hash key table;
          bin_pos = unat hash_val mod nat (num_bins table)
      in case FIND_ENTRY table hash_val key of
           None \<Rightarrow> None
         | Some n \<Rightarrow> Some (ent_record (bins table ! bin_pos ! n)))"

text \<open>One iteration of \<^verbatim>\<open>rehash\<close>: the entry moves to the front of its bin in the new array.\<close>

definition rehash_entry ::
  "nat \<Rightarrow> ('k, 'v) st_table_entry list list \<Rightarrow> ('k, 'v) st_table_entry
     \<Rightarrow> ('k, 'v) st_table_entry list list" where
  "rehash_entry new_num_bins new_bins ptr =
     (let hash_val = unat (ent_hash ptr) mod new_num_bins
      in new_bins[hash_val := ptr # new_bins ! hash_val])"

definition rehash :: "('k, 'v) st_table \<Rightarrow> rb_error + ('k, 'v) st_table" where
  "rehash table =
     (let new_num_bins = new_size (num_bins table + 1)
      in if new_num_bins < 0 then Inl NoMemError
         else Inr (table\<lparr>num_bins := new_num_bins,
                bins := foldl (foldl (rehash_entry (nat new_num_bins)))
                          (replicate (nat new_num_bins) []) (bins table)\<rparr>))"

text \<open>
  The counter \<^verbatim>\<open>num_entries\<close> is an \<^verbatim>\<open>int\<close> and wraps when an entry is added to a table of \<^verbatim>\<open>INT_MAX\<close> entries. It is counted
  down only for an entry that is in the table.
\<close>

definition ADD_DIRECT ::
  "('k, 'v) st_table \<Rightarrow> 'k \<Rightarrow> 'v \<Rightarrow> u32 \<Rightarrow> nat \<Rightarrow> rb_error + ('k, 'v) st_table" where
  "ADD_DIRECT table key value hash_val bin_pos =
     (case (if num_entries table div num_bins table > ST_DEFAULT_MAX_DENSITY
            then (case rehash table of
                    Inl e \<Rightarrow> Inl e
                  | Inr table \<Rightarrow> Inr (table, unat hash_val mod nat (num_bins table)))
            else Inr (table, bin_pos)) of
        Inl e \<Rightarrow> Inl e
      | Inr (table, bin_pos) \<Rightarrow>
          Inr (table\<lparr>bins := (bins table)[bin_pos :=
                        \<lparr>ent_hash = hash_val, ent_key = key, ent_record = value\<rparr>
                          # bins table ! bin_pos],
                     num_entries := int32 (num_entries table + 1)\<rparr>))"

text \<open>The result is the C return value (0: added, 1: replaced) and the table after the call.\<close>

definition st_insert ::
  "('k, 'v) st_table \<Rightarrow> 'k \<Rightarrow> 'v \<Rightarrow> rb_error + int \<times> ('k, 'v) st_table" where
  "st_insert table key value =
     (let hash_val = do_hash key table;
          bin_pos = unat hash_val mod nat (num_bins table)
      in case FIND_ENTRY table hash_val key of
           None \<Rightarrow>
             (case ADD_DIRECT table key value hash_val bin_pos of
                Inl e \<Rightarrow> Inl e
              | Inr table \<Rightarrow> Inr (0, table))
         | Some n \<Rightarrow>
             Inr (1, table\<lparr>bins := (bins table)[bin_pos :=
                        (bins table ! bin_pos)[n :=
                          (bins table ! bin_pos ! n)\<lparr>ent_record := value\<rparr>]]\<rparr>))"

definition st_add_direct ::
  "('k, 'v) st_table \<Rightarrow> 'k \<Rightarrow> 'v \<Rightarrow> rb_error + ('k, 'v) st_table" where
  "st_add_direct table key value =
     (let hash_val = do_hash key table;
          bin_pos = unat hash_val mod nat (num_bins table)
      in ADD_DIRECT table key value hash_val bin_pos)"

text \<open>The copy pushes each entry on the front of the new chain, so a chain comes out reversed.\<close>

definition st_copy :: "('k, 'v) st_table \<Rightarrow> ('k, 'v) st_table" where
  "st_copy old_table = old_table\<lparr>bins := map (foldl (\<lambda>chain ptr. ptr # chain) []) (bins old_table)\<rparr>"

text \<open>
  The search of \<^verbatim>\<open>st_delete\<close> compares keys only, not stored hashes, and calls \<^verbatim>\<open>EQUAL\<close> with its
  arguments in one order for the first entry and in the other for the rest.
\<close>

fun delete_rest ::
  "'k st_hash_type \<Rightarrow> 'k \<Rightarrow> ('k, 'v) st_table_entry list \<Rightarrow> nat option" where
  "delete_rest ty key [] = None"
| "delete_rest ty key (ptr # next) =
     (if EQUAL ty (ent_key ptr) key then Some 0 else map_option Suc (delete_rest ty key next))"

record ('k, 'v) st_delete_result =
  del_ret :: int
  del_table :: "('k, 'v) st_table"
  del_key :: 'k
  del_value :: "'v out_param"

definition unlink_entry :: "nat \<Rightarrow> 'a list \<Rightarrow> 'a list" where
  "unlink_entry n chain = take n chain @ drop (Suc n) chain"

definition st_delete :: "('k, 'v) st_table \<Rightarrow> 'k \<Rightarrow> ('k, 'v) st_delete_result" where
  "st_delete table key =
     (let hash_val = do_hash_bin key table; chain = bins table ! hash_val
      in case chain of
           [] \<Rightarrow> \<lparr>del_ret = 0, del_table = table, del_key = key, del_value = SetNull\<rparr>
         | ptr # next \<Rightarrow>
             (case (if EQUAL (st_type table) key (ent_key ptr) then Some 0
                    else map_option Suc (delete_rest (st_type table) key next)) of
                None \<Rightarrow> \<lparr>del_ret = 0, del_table = table, del_key = key, del_value = Untouched\<rparr>
              | Some n \<Rightarrow>
                  \<lparr>del_ret = 1,
                   del_table = table\<lparr>bins := (bins table)[hash_val := unlink_entry n chain],
                                     num_entries := num_entries table - 1\<rparr>,
                   del_key = ent_key (chain ! n),
                   del_value = SetTo (ent_record (chain ! n))\<rparr>))"

text \<open>
  \<^verbatim>\<open>st_delete_safe\<close> keeps the entry in its chain and overwrites key and record with the caller's
  marker. The one C pointer \<^verbatim>\<open>never\<close> is compared with keys and with records, so it appears here
  once at each type.
\<close>

fun delete_safe_rest ::
  "'k st_hash_type \<Rightarrow> 'k \<Rightarrow> 'k \<Rightarrow> ('k, 'v) st_table_entry list \<Rightarrow> nat option" where
  "delete_safe_rest ty key never [] = None"
| "delete_safe_rest ty key never (ptr # next) =
     (if ent_key ptr \<noteq> never \<and> EQUAL ty (ent_key ptr) key then Some 0
      else map_option Suc (delete_safe_rest ty key never next))"

definition st_delete_safe ::
  "('k, 'v) st_table \<Rightarrow> 'k \<Rightarrow> 'k \<Rightarrow> 'v \<Rightarrow> ('k, 'v) st_delete_result" where
  "st_delete_safe table key never_key never_record =
     (let hash_val = do_hash_bin key table; chain = bins table ! hash_val
      in case chain of
           [] \<Rightarrow> \<lparr>del_ret = 0, del_table = table, del_key = key, del_value = SetNull\<rparr>
         | _ \<Rightarrow>
             (case delete_safe_rest (st_type table) key never_key chain of
                None \<Rightarrow> \<lparr>del_ret = 0, del_table = table, del_key = key, del_value = Untouched\<rparr>
              | Some n \<Rightarrow>
                  \<lparr>del_ret = 1,
                   del_table = table\<lparr>bins := (bins table)[hash_val := chain[n :=
                                  (chain ! n)\<lparr>ent_key := never_key, ent_record := never_record\<rparr>]],
                                num_entries := num_entries table - 1\<rparr>,
                   del_key = ent_key (chain ! n),
                   del_value = SetTo (ent_record (chain ! n))\<rparr>))"

text \<open>
  The iteration of \<^verbatim>\<open>st_foreach\<close>. The callback reads the entry and its own argument, whose state
  it may change (\<^verbatim>\<open>arg\<close> points to it), and does not touch the table. The result of a chain is the
  chain left, the number of entries unlinked, the callback's state and whether it asked to stop.
\<close>

fun foreach_chain ::
  "('k \<Rightarrow> 'v \<Rightarrow> 's \<Rightarrow> st_retval \<times> 's) \<Rightarrow> 's \<Rightarrow> ('k, 'v) st_table_entry list
     \<Rightarrow> ('k, 'v) st_table_entry list \<times> int \<times> 's \<times> bool" where
  "foreach_chain func arg [] = ([], 0, arg, False)"
| "foreach_chain func arg (ptr # next) =
     (case func (ent_key ptr) (ent_record ptr) arg of
        (ST_CONTINUE, arg) \<Rightarrow>
          (case foreach_chain func arg next of
             (chain, n, arg, stop) \<Rightarrow> (ptr # chain, n, arg, stop))
      | (ST_STOP, arg) \<Rightarrow> (ptr # next, 0, arg, True)
      | (ST_DELETE, arg) \<Rightarrow>
          (case foreach_chain func arg next of
             (chain, n, arg, stop) \<Rightarrow> (chain, n + 1, arg, stop)))"

fun foreach_bins ::
  "('k \<Rightarrow> 'v \<Rightarrow> 's \<Rightarrow> st_retval \<times> 's) \<Rightarrow> 's \<Rightarrow> ('k, 'v) st_table_entry list list
     \<Rightarrow> ('k, 'v) st_table_entry list list \<times> int \<times> 's" where
  "foreach_bins func arg [] = ([], 0, arg)"
| "foreach_bins func arg (bin # rest) =
     (case foreach_chain func arg bin of
        (bin, n, arg, stop) \<Rightarrow>
          if stop then (bin # rest, n, arg)
          else (case foreach_bins func arg rest of
                  (rest, m, arg) \<Rightarrow> (bin # rest, n + m, arg)))"

definition st_foreach ::
  "('k, 'v) st_table \<Rightarrow> ('k \<Rightarrow> 'v \<Rightarrow> 's \<Rightarrow> st_retval \<times> 's) \<Rightarrow> 's \<Rightarrow> ('k, 'v) st_table \<times> 's" where
  "st_foreach table func arg =
     (case foreach_bins func arg (bins table) of
        (bs, n, arg) \<Rightarrow> (table\<lparr>bins := bs, num_entries := num_entries table - n\<rparr>, arg))"

definition delete_never :: "'k \<Rightarrow> 'v \<Rightarrow> 'v \<Rightarrow> st_retval \<times> 'v" where
  "delete_never key value never = (if value = never then ST_DELETE else ST_CONTINUE, never)"

definition st_cleanup_safe :: "('k, 'v) st_table \<Rightarrow> 'v \<Rightarrow> ('k, 'v) st_table" where
  "st_cleanup_safe table never =
     (fst (st_foreach table delete_never never))\<lparr>num_entries := num_entries table\<rparr>"

section \<open>The two built-in hash types\<close>

definition numcmp :: "u64 \<Rightarrow> u64 \<Rightarrow> int" where
  "numcmp x y = (if x \<noteq> y then 1 else 0)"

definition numhash :: "u64 \<Rightarrow> u32" where
  "numhash n = ucast n"

definition type_numhash :: "u64 st_hash_type" where
  "type_numhash = \<lparr>compare = numcmp, hash_fn = numhash\<rparr>"

text \<open>
  A C string is a list of bytes, read up to its first NUL or its end. \<^verbatim>\<open>strhash\<close> is the branch
  compiled without \<^verbatim>\<open>HASH_ELFHASH\<close> and \<^verbatim>\<open>HASH_PERL\<close>; a plain \<^verbatim>\<open>char\<close> is signed.
\<close>

fun strhash_loop :: "u32 \<Rightarrow> byte list \<Rightarrow> u32" where
  "strhash_loop val [] = val"
| "strhash_loop val (c # string) =
     (if c = 0 then val else strhash_loop (val * 997 + scast c) string)"

definition strhash :: "byte list \<Rightarrow> u32" where
  "strhash string = (let val = strhash_loop 0 string in val + signed_drop_bit 5 val)"

definition c_str :: "byte list \<Rightarrow> byte list" where
  "c_str string = takeWhile (\<lambda>c. c \<noteq> 0) string"

text \<open>The C library's \<^verbatim>\<open>strcmp\<close>: the difference at the first unequal byte, a NUL ending each string.\<close>

fun strcmp_loop :: "byte list \<Rightarrow> byte list \<Rightarrow> int" where
  "strcmp_loop [] [] = 0"
| "strcmp_loop [] (y # ys) = - uint y"
| "strcmp_loop (x # xs) [] = uint x"
| "strcmp_loop (x # xs) (y # ys) = (if x = y then strcmp_loop xs ys else uint x - uint y)"

definition strcmp :: "byte list \<Rightarrow> byte list \<Rightarrow> int" where
  "strcmp x y = strcmp_loop (c_str x) (c_str y)"

definition type_strhash :: "byte list st_hash_type" where
  "type_strhash = \<lparr>compare = strcmp, hash_fn = strhash\<rparr>"

definition st_init_numtable :: "rb_error + (u64, 'v) st_table" where
  "st_init_numtable = st_init_table type_numhash"

definition st_init_numtable_with_size :: "int \<Rightarrow> rb_error + (u64, 'v) st_table" where
  "st_init_numtable_with_size sz = st_init_table_with_size type_numhash sz"

definition st_init_strtable :: "rb_error + (byte list, 'v) st_table" where
  "st_init_strtable = st_init_table type_strhash"

definition st_init_strtable_with_size :: "int \<Rightarrow> rb_error + (byte list, 'v) st_table" where
  "st_init_strtable_with_size sz = st_init_table_with_size type_strhash sz"

section \<open>Invariant\<close>

text \<open>
  A table is well formed when the bin array has the stated length, every entry carries the hash
  of its key and sits in the bin that hash selects, no two entries have equal keys, and
  \<^verbatim>\<open>num_entries\<close> counts the entries.
\<close>

definition entry_ok ::
  "'k st_hash_type \<Rightarrow> nat \<Rightarrow> nat \<Rightarrow> ('k, 'v) st_table_entry \<Rightarrow> bool" where
  "entry_ok ty n i e \<longleftrightarrow>
     ent_hash e = hash_fn ty (ent_key e) \<and> unat (hash_fn ty (ent_key e)) mod n = i"

definition keys_unique :: "'k st_hash_type \<Rightarrow> ('k, 'v) st_table_entry list \<Rightarrow> bool" where
  "keys_unique ty es \<longleftrightarrow>
     distinct es \<and>
     (\<forall>a \<in> set es. \<forall>b \<in> set es. EQUAL ty (ent_key a) (ent_key b) \<longrightarrow> a = b)"

definition bins_ok :: "'k st_hash_type \<Rightarrow> ('k, 'v) st_table_entry list list \<Rightarrow> bool" where
  "bins_ok ty bs \<longleftrightarrow> (\<forall>i < length bs. \<forall>e \<in> set (bs ! i). entry_ok ty (length bs) i e)"

definition st_inv :: "('k, 'v) st_table \<Rightarrow> bool" where
  "st_inv t \<longleftrightarrow>
     0 < num_bins t \<and> length (bins t) = nat (num_bins t) \<and>
     num_entries t = int (length (concat (bins t))) \<and>
     bins_ok (st_type t) (bins t) \<and> keys_unique (st_type t) (concat (bins t))"

abbreviation st_entries :: "('k, 'v) st_table \<Rightarrow> ('k, 'v) st_table_entry set" where
  "st_entries t \<equiv> set (concat (bins t))"

lemma st_invD:
  assumes "st_inv t"
  shows "0 < num_bins t" "length (bins t) = nat (num_bins t)" "bins t \<noteq> []"
    "num_entries t = int (length (concat (bins t)))"
    "bins_ok (st_type t) (bins t)" "keys_unique (st_type t) (concat (bins t))"
  using assms by (auto simp: st_inv_def)

lemma bin_in_range: "st_inv t \<Longrightarrow> unat h mod nat (num_bins t) < length (bins t)"
  by (simp add: st_inv_def)

lemma EQUAL_refl [simp]: "EQUAL ty x x"
  by (simp add: EQUAL_def)

lemma keys_unique_mset:
  "mset xs = mset ys \<Longrightarrow> keys_unique ty xs = keys_unique ty ys"
  using mset_eq_imp_distinct_iff [of xs ys] mset_eq_setD [of xs ys] by (simp add: keys_unique_def)

lemma keys_unique_Cons:
  "keys_unique ty (e # es) \<longleftrightarrow>
     keys_unique ty es \<and>
     (\<forall>a \<in> set es. \<not> EQUAL ty (ent_key a) (ent_key e) \<and> \<not> EQUAL ty (ent_key e) (ent_key a))"
  by (auto simp: keys_unique_def)

lemma keys_unique_D:
  "keys_unique ty es \<Longrightarrow> a \<in> set es \<Longrightarrow> b \<in> set es \<Longrightarrow> EQUAL ty (ent_key a) (ent_key b) \<Longrightarrow> a = b"
  by (simp add: keys_unique_def)

lemma bins_ok_update:
  assumes "bins_ok ty bs" and "\<forall>e \<in> set ys. entry_ok ty (length bs) i e"
  shows "bins_ok ty (bs[i := ys])"
proof (cases "i < length bs")
  case True
  with assms show ?thesis by (auto simp: bins_ok_def nth_list_update)
next
  case False
  with assms(1) show ?thesis by (simp add: list_update_beyond)
qed

lemma bins_ok_nth: "bins_ok ty bs \<Longrightarrow> i < length bs \<Longrightarrow> e \<in> set (bs ! i) \<Longrightarrow> entry_ok ty (length bs) i e"
  by (simp add: bins_ok_def)

subsection \<open>Searching a chain\<close>

lemma find_entry_Some:
  "find_entry ty h k chain = Some n \<Longrightarrow>
   n < length chain \<and> ent_hash (chain ! n) = h \<and> EQUAL ty k (ent_key (chain ! n))"
  by (induction chain arbitrary: n) (auto simp: PTR_NOT_EQUAL_def split: if_splits)

lemma find_entry_None:
  "find_entry ty h k chain = None \<longleftrightarrow>
   (\<forall>e \<in> set chain. ent_hash e = h \<longrightarrow> \<not> EQUAL ty k (ent_key e))"
  by (induction chain) (auto simp: PTR_NOT_EQUAL_def)

lemma delete_rest_Some:
  "delete_rest ty k chain = Some n \<Longrightarrow> n < length chain \<and> EQUAL ty (ent_key (chain ! n)) k"
  by (induction chain arbitrary: n) (auto split: if_splits)

lemma delete_rest_None:
  "delete_rest ty k chain = None \<longleftrightarrow> (\<forall>e \<in> set chain. \<not> EQUAL ty (ent_key e) k)"
  by (induction chain) auto

subsection \<open>Table sizes\<close>

lemma new_size_loop_cases:
  "new_size_loop ps n s = - 1 \<or> new_size_loop ps n s \<in> set ps"
  by (induction ps arbitrary: n) auto

lemma new_size_gt:
  assumes "s < 2 ^ 30"
  shows "s < new_size s \<and> 0 < new_size s"
  using assms by (auto simp: new_size_def primes_def MINSIZE_def int32_def)

lemma new_size_fails: "2 ^ 30 \<le> s \<Longrightarrow> s < 2 ^ 31 \<Longrightarrow> new_size s = - 1"
  by (simp add: new_size_def primes_def MINSIZE_def int32_def)

subsection \<open>Rehashing and adding\<close>

lemma rehash_entry_step:
  assumes "0 < n" "length nb = n" "bins_ok ty nb" "ent_hash e = hash_fn ty (ent_key e)"
  shows "length (rehash_entry n nb e) = n" "bins_ok ty (rehash_entry n nb e)"
    "mset (concat (rehash_entry n nb e)) = add_mset e (mset (concat nb))"
proof -
  let ?h = "unat (ent_hash e) mod n"
  have h: "?h < length nb" using assms(1,2) by simp
  show "length (rehash_entry n nb e) = n"
    using assms(2) by (simp add: rehash_entry_def Let_def)
  show "bins_ok ty (rehash_entry n nb e)"
    unfolding rehash_entry_def Let_def
  proof (rule bins_ok_update [OF assms(3)])
    have "\<forall>x \<in> set (nb ! ?h). entry_ok ty (length nb) ?h x"
      using bins_ok_nth [OF assms(3) h] by blast
    then show "\<forall>x \<in> set (e # nb ! ?h). entry_ok ty (length nb) ?h x"
      using assms(2,4) by (simp add: entry_ok_def)
  qed
  show "mset (concat (rehash_entry n nb e)) = add_mset e (mset (concat nb))"
    using mset_concat_update_eq [OF h, of "e # nb ! ?h" "{#}" "{#e#}"]
    by (simp add: rehash_entry_def Let_def)
qed

lemma rehash_chain:
  assumes "0 < n" "length nb = n" "bins_ok ty nb" "\<forall>e \<in> set es. ent_hash e = hash_fn ty (ent_key e)"
  shows "length (foldl (rehash_entry n) nb es) = n \<and> bins_ok ty (foldl (rehash_entry n) nb es) \<and>
    mset (concat (foldl (rehash_entry n) nb es)) = mset (concat nb) + mset es"
  using assms(2-)
proof (induction es arbitrary: nb)
  case Nil
  then show ?case by simp
next
  case (Cons e es)
  note step = rehash_entry_step [OF assms(1) Cons.prems(1,2), of e]
  from Cons.prems(3) have "ent_hash e = hash_fn ty (ent_key e)" by simp
  with Cons.IH [OF step(1,2)] Cons.prems(3) step(3) show ?case by simp
qed

lemma rehash_bins:
  assumes "0 < n" "length nb = n" "bins_ok ty nb"
    "\<forall>e \<in> set (concat bs). ent_hash e = hash_fn ty (ent_key e)"
  shows "length (foldl (foldl (rehash_entry n)) nb bs) = n \<and>
    bins_ok ty (foldl (foldl (rehash_entry n)) nb bs) \<and>
    mset (concat (foldl (foldl (rehash_entry n)) nb bs)) = mset (concat nb) + mset (concat bs)"
  using assms(2-)
proof (induction bs arbitrary: nb)
  case Nil
  then show ?case by simp
next
  case (Cons b bs)
  from Cons.prems(3) have b: "\<forall>e \<in> set b. ent_hash e = hash_fn ty (ent_key e)" by simp
  note step = rehash_chain [OF assms(1) Cons.prems(1,2) b]
  from Cons.IH [of "foldl (rehash_entry n) nb b"] Cons.prems(3) step show ?case
    by (simp add: ac_simps)
qed

lemma bins_ok_hash: "bins_ok ty bs \<Longrightarrow> e \<in> set (concat bs) \<Longrightarrow> ent_hash e = hash_fn ty (ent_key e)"
  unfolding set_concat_nth by (auto simp: bins_ok_def entry_ok_def)

lemma bins_ok_replicate [simp]: "bins_ok ty (replicate n [])"
  by (simp add: bins_ok_def)

lemma concat_replicate_Nil [simp]: "concat (replicate n []) = []"
  by (induction n) auto

lemma rehash_inv:
  assumes inv: "st_inv t" and ok: "rehash t = Inr t'"
  shows "st_inv t'" "mset (concat (bins t')) = mset (concat (bins t))"
    "num_entries t' = num_entries t" "st_type t' = st_type t"
proof -
  let ?n = "new_size (num_bins t + 1)"
  let ?nb = "foldl (foldl (rehash_entry (nat ?n))) (replicate (nat ?n) []) (bins t)"
  from ok have n0: "\<not> ?n < 0" and t': "t' = t\<lparr>num_bins := ?n, bins := ?nb\<rparr>"
    by (auto simp: rehash_def Let_def split: if_splits)
  have pos: "0 < ?n"
  proof (cases "num_bins t + 1 < 2 ^ 30")
    case True
    then show ?thesis using new_size_gt by blast
  next
    case False
    then have "new_size (num_bins t + 1) \<noteq> 0"
      by (simp add: new_size_def primes_def MINSIZE_def int32_def)
    with n0 show ?thesis by simp
  qed
  note hs = bins_ok_hash [OF st_invD(5) [OF inv]]
  from pos have "0 < nat ?n" by simp
  from rehash_bins [OF this, of "replicate (nat ?n) []" "st_type t" "bins t"] hs
  have nb: "length ?nb = nat ?n" "bins_ok (st_type t) ?nb" "mset (concat ?nb) = mset (concat (bins t))"
    by auto
  from nb(3) have "length (concat ?nb) = length (concat (bins t))"
    by (rule mset_eq_length)
  with nb pos keys_unique_mset [OF nb(3)] st_invD [OF inv] show "st_inv t'"
    by (simp add: st_inv_def t')
  from nb(3) show "mset (concat (bins t')) = mset (concat (bins t))" by (simp add: t')
  show "num_entries t' = num_entries t" "st_type t' = st_type t" by (simp_all add: t')
qed

text \<open>
  A table of fewer than \<^verbatim>\<open>2^31\<close> entries, that is one whose count fits the \<^verbatim>\<open>int\<close> field, can always
  grow: the primes reach far enough.
\<close>

lemma rehash_succeeds:
  assumes "st_inv t" "num_entries t div num_bins t > ST_DEFAULT_MAX_DENSITY" "num_entries t < 2 ^ 31"
  shows "\<exists>t'. rehash t = Inr t'"
proof -
  from st_invD(1) [OF assms(1)] have "0 < num_bins t" .
  have "5 < num_entries t div num_bins t"
    using assms(2) by (simp add: ST_DEFAULT_MAX_DENSITY_def)
  then have "6 * num_bins t \<le> num_entries t"
    using \<open>0 < num_bins t\<close> div_mult_mod_eq [of "num_entries t" "num_bins t"]
      pos_mod_sign [of "num_bins t" "num_entries t"]
      mult_right_mono [of 6 "num_entries t div num_bins t" "num_bins t"] by linarith
  with assms(3) have "num_bins t + 1 < 2 ^ 30" by simp
  then have "0 < new_size (num_bins t + 1)" using new_size_gt by blast
  then show ?thesis by (simp add: rehash_def Let_def)
qed

lemma ADD_DIRECT_inv:
  assumes inv: "st_inv t" and h: "h = hash_fn (st_type t) k"
    and fresh: "\<forall>e \<in> st_entries t.
      \<not> EQUAL (st_type t) k (ent_key e) \<and> \<not> EQUAL (st_type t) (ent_key e) k"
    and ok: "ADD_DIRECT t k v h (unat h mod nat (num_bins t)) = Inr t'"
    and room: "num_entries t < 2 ^ 31 - 1"
  shows "st_inv t'" "st_type t' = st_type t" "num_entries t' = num_entries t + 1"
    "mset (concat (bins t')) =
       add_mset \<lparr>ent_hash = h, ent_key = k, ent_record = v\<rparr> (mset (concat (bins t)))"
proof -
  let ?e = "\<lparr>ent_hash = h, ent_key = k, ent_record = v\<rparr>"
  have wrap: "int32 (num_entries t + 1) = num_entries t + 1"
    using room st_invD(4) [OF inv] by (intro int32_id) simp_all
  obtain u where u: "st_inv u" "mset (concat (bins u)) = mset (concat (bins t))"
      "num_entries u = num_entries t" "st_type u = st_type t"
    and t': "t' = u\<lparr>bins := (bins u)[unat h mod nat (num_bins u) :=
               ?e # bins u ! (unat h mod nat (num_bins u))], num_entries := num_entries u + 1\<rparr>"
  proof (cases "num_entries t div num_bins t > ST_DEFAULT_MAX_DENSITY")
    case True
    with ok obtain u where u: "rehash t = Inr u" by (auto simp: ADD_DIRECT_def split: sum.splits)
    with ok True show ?thesis
      by (intro that [OF rehash_inv [OF inv u]]) (auto simp: ADD_DIRECT_def wrap rehash_inv(3) [OF inv u])
  next
    case False
    with ok inv show ?thesis by (intro that [of t]) (auto simp: ADD_DIRECT_def wrap)
  qed
  let ?b = "unat h mod nat (num_bins u)"
  have b: "?b < length (bins u)" by (rule bin_in_range [OF u(1)])
  have m: "mset (concat ((bins u)[?b := ?e # bins u ! ?b])) = add_mset ?e (mset (concat (bins u)))"
    using mset_concat_update_eq [OF b, of "?e # bins u ! ?b" "{#}" "{#?e#}"] by simp
  show m': "mset (concat (bins t')) = add_mset ?e (mset (concat (bins t)))"
    using m u(2) by (simp add: t')
  show "num_entries t' = num_entries t + 1" "st_type t' = st_type t" by (simp_all add: t' u(3,4))
  have len: "length (concat (bins t')) = Suc (length (concat (bins u)))"
    using arg_cong [OF m, of size] by (simp add: t')
  have ok': "bins_ok (st_type t) (bins t')"
    using bins_ok_nth [OF st_invD(5) [OF u(1)] b] st_invD(2) [OF u(1)] b u(4) h
    by (auto simp: t' entry_ok_def intro!: bins_ok_update st_invD(5) [OF u(1), unfolded u(4)])
  have "keys_unique (st_type t) (?e # concat (bins t))"
    using fresh st_invD(6) [OF inv] by (auto simp: keys_unique_Cons)
  then have "keys_unique (st_type t) (concat (bins t'))"
    using m' keys_unique_mset [of "?e # concat (bins t)" "concat (bins t')"] by simp
  then show "st_inv t'"
    using len ok' st_invD(1-4) [OF u(1)] u(4) by (simp add: st_inv_def t')
qed

subsection \<open>Unlinking\<close>

lemma keys_unique_appendD: "keys_unique ty (xs @ ys) \<Longrightarrow> keys_unique ty xs"
  by (auto simp: keys_unique_def)

lemma keys_unique_sub:
  assumes "keys_unique ty xs" "mset ys \<subseteq># mset xs"
  shows "keys_unique ty ys"
proof -
  obtain zs where "mset zs = mset xs - mset ys" using ex_mset by blast
  with assms(2) have "mset (ys @ zs) = mset xs" by simp
  with assms(1) show ?thesis using keys_unique_mset keys_unique_appendD by blast
qed

lemma keep_entries_inv:
  assumes inv: "st_inv t" and sub: "list_all2 (\<lambda>b b'. mset b \<subseteq># mset b') bs (bins t)"
  shows "st_inv (t\<lparr>bins := bs, num_entries := int (length (concat bs))\<rparr>)"
proof -
  have len: "length bs = length (bins t)" using sub by (rule list_all2_lengthD)
  have "mset (concat bs) \<subseteq># mset (concat (bins t))"
    using sub by (induction rule: list_all2_induct) (auto intro: subset_mset.add_mono)
  then have "keys_unique (st_type t) (concat bs)"
    by (rule keys_unique_sub [OF st_invD(6) [OF inv]])
  moreover have "bins_ok (st_type t) bs"
  proof -
    have "e \<in> set (bins t ! i)" if "i < length bs" "e \<in> set (bs ! i)" for i e
      using list_all2_nthD [OF sub that(1)] that(2) by (meson mset_subset_eqD set_mset_mset in_multiset_in_set)
    then show ?thesis
      using st_invD(5) [OF inv] len by (simp add: bins_ok_def)
  qed
  ultimately show ?thesis using st_invD [OF inv] len by (simp add: st_inv_def)
qed

lemma unlink_entry_Cons:
  "unlink_entry 0 (x # xs) = xs" "unlink_entry (Suc n) (x # xs) = x # unlink_entry n xs"
  by (simp_all add: unlink_entry_def)

lemma mset_unlink_entry:
  "n < length xs \<Longrightarrow> mset xs = add_mset (xs ! n) (mset (unlink_entry n xs))"
  using mset_take_drop_nth [of n xs] by (simp add: unlink_entry_def)

text \<open>The position at which \<^verbatim>\<open>st_delete\<close> unlinks, in the chain it searches.\<close>

definition delete_pos ::
  "'k st_hash_type \<Rightarrow> 'k \<Rightarrow> ('k, 'v) st_table_entry list \<Rightarrow> nat option" where
  "delete_pos ty key chain =
     (case chain of
        [] \<Rightarrow> None
      | ptr # next \<Rightarrow> if EQUAL ty key (ent_key ptr) then Some 0
                      else map_option Suc (delete_rest ty key next))"

lemma st_delete_unfold:
  "del_ret (st_delete t k) =
     (if delete_pos (st_type t) k (bins t ! do_hash_bin k t) = None then 0 else 1)"
  "del_table (st_delete t k) =
     (case delete_pos (st_type t) k (bins t ! do_hash_bin k t) of
        None \<Rightarrow> t
      | Some n \<Rightarrow> t\<lparr>bins := (bins t)[do_hash_bin k t := unlink_entry n (bins t ! do_hash_bin k t)],
                    num_entries := num_entries t - 1\<rparr>)"
  "delete_pos (st_type t) k (bins t ! do_hash_bin k t) = Some n \<Longrightarrow>
     del_value (st_delete t k) = SetTo (ent_record (bins t ! do_hash_bin k t ! n)) \<and>
     del_key (st_delete t k) = ent_key (bins t ! do_hash_bin k t ! n)"
  by (auto simp: st_delete_def delete_pos_def Let_def split: list.splits option.splits if_splits)

lemma delete_pos_Some:
  "delete_pos ty k chain = Some n \<Longrightarrow>
   n < length chain \<and> (EQUAL ty k (ent_key (chain ! n)) \<or> EQUAL ty (ent_key (chain ! n)) k)"
  by (auto simp: delete_pos_def split: list.splits if_splits dest: delete_rest_Some)

lemma delete_pos_None:
  "delete_pos ty k chain = None \<Longrightarrow>
   \<forall>e \<in> set chain. \<not> EQUAL ty k (ent_key e) \<or> \<not> EQUAL ty (ent_key e) k"
  by (auto simp: delete_pos_def delete_rest_None split: list.splits if_splits)

section \<open>Laws of a hash type\<close>

text \<open>
  What the table relies on in its \<^verbatim>\<open>st_hash_type\<close>: key equality is symmetric and transitive, and
  equal keys hash alike. The interpretations below discharge it for both built-in types.
\<close>

locale st_hash_laws =
  fixes ty :: "'k st_hash_type"
  assumes equal_sym: "EQUAL ty x y \<Longrightarrow> EQUAL ty y x"
    and equal_trans: "EQUAL ty x y \<Longrightarrow> EQUAL ty y z \<Longrightarrow> EQUAL ty x z"
    and equal_hash: "EQUAL ty x y \<Longrightarrow> hash_fn ty x = hash_fn ty y"
begin

lemma entry_bin:
  assumes "st_inv t" "st_type t = ty" "e \<in> st_entries t" "EQUAL ty k (ent_key e)"
  shows "ent_hash e = hash_fn ty k" "e \<in> set (bins t ! (unat (hash_fn ty k) mod nat (num_bins t)))"
proof -
  from assms(3) obtain i where i: "i < length (bins t)" "e \<in> set (bins t ! i)"
    unfolding set_concat_nth by blast
  from bins_ok_nth [OF st_invD(5) [OF assms(1)] i] equal_hash [OF assms(4)] assms(2)
  have "ent_hash e = hash_fn ty k" "unat (hash_fn ty k) mod length (bins t) = i"
    by (auto simp: entry_ok_def)
  with i st_invD(2) [OF assms(1)] show "ent_hash e = hash_fn ty k"
    "e \<in> set (bins t ! (unat (hash_fn ty k) mod nat (num_bins t)))" by auto
qed

lemma entries_unique:
  assumes "st_inv t" "st_type t = ty" "e \<in> st_entries t" "e' \<in> st_entries t"
    "EQUAL ty k (ent_key e)" "EQUAL ty k (ent_key e')"
  shows "e = e'"
  using keys_unique_D [OF st_invD(6) [OF assms(1)] assms(3,4)] assms(2,5,6) equal_sym equal_trans
  by blast

lemma FIND_ENTRY_Some:
  assumes "st_inv t" "st_type t = ty" "FIND_ENTRY t (hash_fn ty k) k = Some n"
  shows "n < length (bins t ! (unat (hash_fn ty k) mod nat (num_bins t)))"
    "EQUAL ty k (ent_key (bins t ! (unat (hash_fn ty k) mod nat (num_bins t)) ! n))"
    "bins t ! (unat (hash_fn ty k) mod nat (num_bins t)) ! n \<in> st_entries t"
  using find_entry_Some [OF assms(3) [unfolded FIND_ENTRY_def]] bin_in_range [OF assms(1)] assms(2)
  unfolding set_concat_nth by (auto intro: nth_mem)

lemma FIND_ENTRY_None:
  assumes "st_inv t" "st_type t = ty"
  shows "FIND_ENTRY t (hash_fn ty k) k = None \<longleftrightarrow> (\<forall>e \<in> st_entries t. \<not> EQUAL ty k (ent_key e))"
proof
  assume none: "FIND_ENTRY t (hash_fn ty k) k = None"
  show "\<forall>e \<in> st_entries t. \<not> EQUAL ty k (ent_key e)"
  proof (intro ballI notI)
    fix e assume "e \<in> st_entries t" "EQUAL ty k (ent_key e)"
    from entry_bin [OF assms this] none \<open>EQUAL ty k (ent_key e)\<close> assms(2) show False
      by (auto simp: FIND_ENTRY_def find_entry_None)
  qed
next
  assume "\<forall>e \<in> st_entries t. \<not> EQUAL ty k (ent_key e)"
  then show "FIND_ENTRY t (hash_fn ty k) k = None"
    using FIND_ENTRY_Some [OF assms, of k] by (cases "FIND_ENTRY t (hash_fn ty k) k") blast+
qed

lemma lookup_iff:
  assumes "st_inv t" "st_type t = ty"
  shows "st_lookup t k = Some v \<longleftrightarrow>
    (\<exists>e \<in> st_entries t. EQUAL ty k (ent_key e) \<and> ent_record e = v)"
proof (cases "FIND_ENTRY t (hash_fn ty k) k")
  case None
  from FIND_ENTRY_None [OF assms, of k] None
  have "\<forall>e \<in> st_entries t. \<not> EQUAL ty k (ent_key e)" by blast
  with None show ?thesis
    by (auto simp: st_lookup_def do_hash_def Let_def assms(2))
next
  case (Some n)
  note e = FIND_ENTRY_Some [OF assms Some]
  let ?e = "bins t ! (unat (hash_fn ty k) mod nat (num_bins t)) ! n"
  have "st_lookup t k = Some (ent_record ?e)"
    using Some by (simp add: st_lookup_def do_hash_def Let_def assms(2))
  then show ?thesis
    using e(2,3) entries_unique [OF assms e(3) _ e(2)] by (metis option.inject)
qed

lemma lookup_None_iff:
  assumes "st_inv t" "st_type t = ty"
  shows "st_lookup t k = None \<longleftrightarrow> (\<forall>e \<in> st_entries t. \<not> EQUAL ty k (ent_key e))"
  unfolding FIND_ENTRY_None [OF assms, symmetric]
  by (simp add: st_lookup_def do_hash_def Let_def assms(2) split: option.splits)

lemma lookup_entries_eq:
  assumes t: "st_inv t" "st_type t = ty" and t': "st_inv t'" "st_type t' = ty"
    and E': "st_entries t' = insert e' E" and k: "EQUAL ty k (ent_key e')"
    and E: "st_entries t = E \<or> (\<exists>e. st_entries t = insert e E \<and> ent_key e = ent_key e')"
    and apart: "\<forall>a \<in> E. \<not> EQUAL ty (ent_key a) (ent_key e')"
  shows "st_lookup t' k' = (if EQUAL ty k k' then Some (ent_record e') else st_lookup t k')"
proof (cases "EQUAL ty k k'")
  case True
  then have "EQUAL ty k' (ent_key e')" using k equal_sym equal_trans by blast
  then have "st_lookup t' k' = Some (ent_record e')"
    using E' by (simp only: lookup_iff [OF t']) blast
  with True show ?thesis by simp
next
  case False
  then have no: "\<not> EQUAL ty k' (ent_key e')" using k equal_sym equal_trans by blast
  have "st_lookup t' k' = Some v \<longleftrightarrow> st_lookup t k' = Some v" for v
    unfolding lookup_iff [OF t'] lookup_iff [OF t] E' using E no by (metis insert_iff)
  then have "st_lookup t' k' = st_lookup t k'" by (rule option_eq_by_Some)
  with False show ?thesis by simp
qed

lemma replace_entry:
  fixes t :: "('k, 'v) st_table"
  assumes t: "st_inv t" "st_type t = ty" and n: "FIND_ENTRY t (hash_fn ty k) k = Some n"
    and b_def: "b = unat (hash_fn ty k) mod nat (num_bins t)"
    and t': "t' = t\<lparr>bins := (bins t)[b := (bins t ! b)[n := (bins t ! b ! n)\<lparr>ent_record := v\<rparr>]]\<rparr>"
  shows "st_inv t'" "st_lookup t' k' = (if EQUAL ty k k' then Some v else st_lookup t k')"
proof -
  let ?c = "bins t ! b"
  let ?e = "?c ! n" and ?e' = "(?c ! n)\<lparr>ent_record := v\<rparr>"
  note e = FIND_ENTRY_Some [OF t n, folded b_def]
  have b: "b < length (bins t)" unfolding b_def by (rule bin_in_range [OF t(1)])
  obtain E where E: "mset (concat (bins t)) = add_mset ?e (mset E)"
    using multi_member_split [of ?e "mset (concat (bins t))"] e(3) ex_mset by (metis set_mset_mset)
  have "mset (?c[n := ?e']) + {#?e#} = mset ?c + {#?e'#}"
    using e(1) by (simp add: mset_update)
  from mset_concat_update_eq [OF b this] E
  have E': "mset (concat (bins t')) = add_mset ?e' (mset E)" by (simp add: t')
  have sets: "st_entries t = insert ?e (set E)" "st_entries t' = insert ?e' (set E)"
    using arg_cong [OF E, of set_mset] arg_cong [OF E', of set_mset] by simp_all
  have "keys_unique ty (?e # E)"
    using st_invD(6) [OF t(1)] keys_unique_mset [of "concat (bins t)" "?e # E"] E t(2) by simp
  then have uniq: "keys_unique ty (?e' # E)"
    and apart: "\<forall>a \<in> set E. \<not> EQUAL ty (ent_key a) (ent_key ?e')"
    by (auto simp: keys_unique_Cons)
  from uniq have "keys_unique ty (concat (bins t'))"
    using keys_unique_mset [of "concat (bins t')" "?e' # E"] E' by simp
  moreover have "length (concat (bins t')) = length (concat (bins t))"
    using arg_cong [OF E, of size] arg_cong [OF E', of size] by simp
  moreover have "\<forall>x \<in> set ?c. entry_ok ty (length (bins t)) b x"
    using bins_ok_nth [OF st_invD(5) [OF t(1)] b] t(2) by blast
  then have "\<forall>x \<in> set (?c[n := ?e']). entry_ok ty (length (bins t)) b x"
    using nth_mem [OF e(1)]
    by (auto simp: entry_ok_def dest!: set_update_subset_insert [THEN subsetD])
  then have "bins_ok ty (bins t')"
    using bins_ok_update [of ty "bins t"] st_invD(5) [OF t(1)] t(2) by (simp add: t')
  ultimately show inv': "st_inv t'"
    using st_invD [OF t(1)] t(2) by (simp add: st_inv_def t')
  have ty': "st_type t' = ty" by (simp add: t' t(2))
  have "\<exists>e. st_entries t = insert e (set E) \<and> ent_key e = ent_key ?e'"
    by (rule exI [of _ ?e]) (use sets(1) in simp)
  from lookup_entries_eq [OF t inv' ty' sets(2), of k k'] this apart e(2)
  show "st_lookup t' k' = (if EQUAL ty k k' then Some v else st_lookup t k')" by simp
qed

lemma add_entry:
  fixes t :: "('k, 'v) st_table"
  assumes t: "st_inv t" "st_type t = ty" and none: "st_lookup t k = None"
    and add: "ADD_DIRECT t k v (hash_fn ty k) (unat (hash_fn ty k) mod nat (num_bins t)) = Inr t'"
    and room: "num_entries t < 2 ^ 31 - 1"
  shows "st_inv t'" "st_type t' = ty" "num_entries t' = num_entries t + 1"
    "st_lookup t' k' = (if EQUAL ty k k' then Some v else st_lookup t k')"
proof -
  let ?e = "\<lparr>ent_hash = hash_fn ty k, ent_key = k, ent_record = v\<rparr>"
  from none have fresh: "\<forall>e \<in> st_entries t. \<not> EQUAL ty k (ent_key e)"
    using lookup_None_iff [OF t] by blast
  then have fresh': "\<forall>e \<in> st_entries t. \<not> EQUAL ty (ent_key e) k" using equal_sym by blast
  show u: "st_inv t'" "st_type t' = ty" "num_entries t' = num_entries t + 1"
    using ADD_DIRECT_inv [OF t(1) _ _ add room] fresh fresh' t(2) by auto
  have m: "mset (concat (bins t')) = add_mset ?e (mset (concat (bins t)))"
    using ADD_DIRECT_inv(4) [OF t(1) _ _ add room] fresh fresh' t(2) by auto
  have E': "st_entries t' = insert ?e (st_entries t)"
    using arg_cong [OF m, of set_mset] by simp
  show "st_lookup t' k' = (if EQUAL ty k k' then Some v else st_lookup t k')"
    using lookup_entries_eq [OF t u(1,2) E', of k k'] fresh' by simp
qed

lemma insert_spec:
  fixes t :: "('k, 'v) st_table"
  assumes t: "st_inv t" "st_type t = ty" and ok: "st_insert t k v = Inr (r, t')"
    and room: "num_entries t < 2 ^ 31 - 1"
  shows "st_inv t'" "st_type t' = ty" "r = (if st_lookup t k = None then 0 else 1)"
    "num_entries t' = num_entries t + (1 - r)"
    "st_lookup t' k' = (if EQUAL ty k k' then Some v else st_lookup t k')"
proof -
  let ?b = "unat (hash_fn ty k) mod nat (num_bins t)"
  have "st_inv t' \<and> st_type t' = ty \<and> r = (if st_lookup t k = None then 0 else 1) \<and>
    num_entries t' = num_entries t + (1 - r) \<and>
    st_lookup t' k' = (if EQUAL ty k k' then Some v else st_lookup t k')"
  proof (cases "FIND_ENTRY t (hash_fn ty k) k")
    case None
    then have none: "st_lookup t k = None"
      by (simp add: st_lookup_def do_hash_def Let_def t(2))
    from ok None have "r = 0" and add: "ADD_DIRECT t k v (hash_fn ty k) ?b = Inr t'"
      by (auto simp: st_insert_def do_hash_def Let_def t(2) split: sum.splits)
    with none add_entry [OF t none add room] show ?thesis by simp
  next
    case (Some n)
    then have "st_lookup t k \<noteq> None"
      by (simp add: st_lookup_def do_hash_def Let_def t(2))
    moreover from ok Some have r: "r = 1"
      and t': "t' = t\<lparr>bins := (bins t)[?b := (bins t ! ?b)[n := (bins t ! ?b ! n)\<lparr>ent_record := v\<rparr>]]\<rparr>"
      by (auto simp: st_insert_def do_hash_def Let_def t(2))
    moreover have "st_type t' = ty" "num_entries t' = num_entries t" by (simp_all add: t' t(2))
    ultimately show ?thesis using replace_entry [OF t Some refl t'] by simp
  qed
  then show "st_inv t'" "st_type t' = ty" "r = (if st_lookup t k = None then 0 else 1)"
    "num_entries t' = num_entries t + (1 - r)"
    "st_lookup t' k' = (if EQUAL ty k k' then Some v else st_lookup t k')" by blast+
qed

lemma insert_succeeds:
  fixes t :: "('k, 'v) st_table"
  assumes "st_inv t" "num_entries t < 2 ^ 31"
  shows "\<exists>r t'. st_insert t k v = Inr (r, t')"
proof (cases "FIND_ENTRY t (do_hash k t) k")
  case None
  show ?thesis
  proof (cases "num_entries t div num_bins t > ST_DEFAULT_MAX_DENSITY")
    case True
    with rehash_succeeds [OF assms(1) True assms(2)] None show ?thesis
      by (auto simp: st_insert_def ADD_DIRECT_def Let_def)
  qed (use None in \<open>simp add: st_insert_def ADD_DIRECT_def Let_def\<close>)
qed (simp add: st_insert_def Let_def)

lemma delete_found:
  fixes t :: "('k, 'v) st_table"
  assumes t: "st_inv t" "st_type t = ty"
    and n: "delete_pos ty k (bins t ! do_hash_bin k t) = Some n"
  shows "st_inv (del_table (st_delete t k))"
    "st_lookup t k = Some (ent_record (bins t ! do_hash_bin k t ! n))"
    "EQUAL ty k (ent_key (bins t ! do_hash_bin k t ! n))"
    "st_lookup (del_table (st_delete t k)) k' = (if EQUAL ty k k' then None else st_lookup t k')"
proof -
  let ?b = "do_hash_bin k t" and ?t' = "del_table (st_delete t k)"
  let ?c = "bins t ! ?b"
  let ?e = "?c ! n" and ?bs = "(bins t)[?b := unlink_entry n ?c]"
  have b: "?b < length (bins t)" unfolding do_hash_bin_def by (rule bin_in_range [OF t(1)])
  have n_lt: "n < length ?c" using delete_pos_Some [OF n] by blast
  show e: "EQUAL ty k (ent_key ?e)" using delete_pos_Some [OF n] equal_sym by blast
  have t': "?t' = t\<lparr>bins := ?bs, num_entries := num_entries t - 1\<rparr>"
    using st_delete_unfold(2) [of t k] n t(2) by simp
  have m: "mset (concat (bins t)) = add_mset ?e (mset (concat ?bs))"
    using mset_concat_update_eq [OF b, of "unlink_entry n ?c" "{#?e#}" "{#}"]
      mset_unlink_entry [OF n_lt] by simp
  have "length (concat (bins t)) = Suc (length (concat ?bs))"
    using arg_cong [OF m, of size] by (simp only: size_add_mset size_mset)
  then have len: "int (length (concat ?bs)) = num_entries t - 1"
    using st_invD(4) [OF t(1)] by simp
  have "list_all2 (\<lambda>b b'. mset b \<subseteq># mset b') ?bs (bins t)"
    using mset_unlink_entry [OF n_lt] by (auto simp: list_all2_conv_all_nth nth_update_if [OF b])
  from keep_entries_inv [OF t(1) this] show inv': "st_inv ?t'" unfolding len t' .
  have ty': "st_type ?t' = ty" by (simp add: t' t(2))
  have sets: "st_entries t = insert ?e (st_entries ?t')"
    using arg_cong [OF m, of set_mset] by (simp add: t')
  have "keys_unique ty (?e # concat ?bs)"
    using st_invD(6) [OF t(1)] keys_unique_mset [of "concat (bins t)" "?e # concat ?bs"] m t(2) by simp
  then have apart: "\<forall>a \<in> st_entries ?t'. \<not> EQUAL ty (ent_key a) (ent_key ?e)"
    by (simp add: keys_unique_Cons t')
  note look = lookup_entries_eq [OF inv' ty' t sets e disjI1 [OF refl] apart]
  from look [of k] show "st_lookup t k = Some (ent_record ?e)" by simp
  have "\<not> EQUAL ty k' (ent_key a)" if "EQUAL ty k k'" "a \<in> st_entries ?t'" for a
    using apart that e equal_sym equal_trans by blast
  then have "st_lookup ?t' k' = None" if "EQUAL ty k k'"
    using that lookup_None_iff [OF inv' ty'] by blast
  with look [of k'] show "st_lookup ?t' k' = (if EQUAL ty k k' then None else st_lookup t k')"
    by simp
qed

lemma delete_missing:
  fixes t :: "('k, 'v) st_table"
  assumes t: "st_inv t" "st_type t = ty"
    and n: "delete_pos ty k (bins t ! do_hash_bin k t) = None"
  shows "st_lookup t k = None"
proof -
  have "\<not> EQUAL ty k (ent_key e)" if e: "e \<in> st_entries t" for e
  proof
    assume eq: "EQUAL ty k (ent_key e)"
    from entry_bin(2) [OF t e this] delete_pos_None [OF n] eq equal_sym show False
      by (auto simp: do_hash_bin_def do_hash_def t(2))
  qed
  then show ?thesis using lookup_None_iff [OF t] by blast
qed

lemma delete_spec:
  fixes t :: "('k, 'v) st_table" and k :: 'k
  assumes t: "st_inv t" "st_type t = ty"
  defines "d \<equiv> st_delete t k"
  shows "st_inv (del_table d)" "st_type (del_table d) = ty"
    "del_ret d = (if st_lookup t k = None then 0 else 1)"
    "num_entries (del_table d) = num_entries t - del_ret d"
    "st_lookup (del_table d) k' = (if EQUAL ty k k' then None else st_lookup t k')"
    "st_lookup t k = Some v \<Longrightarrow> del_value d = SetTo v \<and> EQUAL ty k (del_key d)"
proof -
  note u = st_delete_unfold [where t = t and k = k, unfolded t(2), folded d_def]
  have "st_inv (del_table d) \<and> st_type (del_table d) = ty \<and>
    del_ret d = (if st_lookup t k = None then 0 else 1) \<and>
    num_entries (del_table d) = num_entries t - del_ret d \<and>
    st_lookup (del_table d) k' = (if EQUAL ty k k' then None else st_lookup t k') \<and>
    (st_lookup t k = Some v \<longrightarrow> del_value d = SetTo v \<and> EQUAL ty k (del_key d))"
  proof (cases "delete_pos ty k (bins t ! do_hash_bin k t)")
    case None
    note none = delete_missing [OF t None]
    have "st_lookup t k' = None" if "EQUAL ty k k'"
      using none that lookup_None_iff [OF t] equal_trans by blast
    with None none u(1,2) t show ?thesis by simp
  next
    case (Some n)
    from delete_found [OF t Some, folded d_def] u(1,2) u(3) [OF Some] Some t(2) show ?thesis
      by simp
  qed
  then show "st_inv (del_table d)" "st_type (del_table d) = ty"
    "del_ret d = (if st_lookup t k = None then 0 else 1)"
    "num_entries (del_table d) = num_entries t - del_ret d"
    "st_lookup (del_table d) k' = (if EQUAL ty k k' then None else st_lookup t k')"
    "st_lookup t k = Some v \<Longrightarrow> del_value d = SetTo v \<and> EQUAL ty k (del_key d)" by blast+
qed

lemma lookup_cong:
  fixes t :: "('k, 'v) st_table"
  assumes "st_inv t" "st_type t = ty" "EQUAL ty k k'"
  shows "st_lookup t k = st_lookup t k'"
proof -
  have "EQUAL ty k (ent_key e) \<longleftrightarrow> EQUAL ty k' (ent_key e)" for e :: "('k, 'v) st_table_entry"
    using assms(3) equal_sym equal_trans by blast
  then show ?thesis
    by (intro option_eq_by_Some) (simp only: lookup_iff [OF assms(1,2)])
qed

text \<open>Tables that hold the same entries answer every lookup alike, whatever their chains look like.\<close>

lemma lookup_same_entries:
  fixes t t' :: "('k, 'v) st_table"
  assumes "st_inv t" "st_type t = ty" "st_inv t'" "st_type t' = ty" "st_entries t' = st_entries t"
  shows "st_lookup t' k = st_lookup t k"
proof -
  have "st_lookup t' k = Some v \<longleftrightarrow> st_lookup t k = Some v" for v
    unfolding lookup_iff [OF assms(1,2)] lookup_iff [OF assms(3,4)] assms(5) ..
  then show ?thesis by (rule option_eq_by_Some)
qed

lemma lookup_kept_entries:
  fixes t t' :: "('k, 'v) st_table"
  assumes t: "st_inv t" "st_type t = ty" and t': "st_inv t'" "st_type t' = ty"
    and kept: "st_entries t' = {e \<in> st_entries t. \<not> P (ent_record e)}"
  shows "st_lookup t' k = (case st_lookup t k of None \<Rightarrow> None | Some v \<Rightarrow> if P v then None else Some v)"
proof -
  have "st_lookup t' k = Some v \<longleftrightarrow> st_lookup t k = Some v \<and> \<not> P v" for v
    unfolding lookup_iff [OF t] lookup_iff [OF t'] kept by blast
  then show ?thesis
    by (intro option_eq_by_Some) (auto split: option.splits)
qed

end

section \<open>Iteration\<close>

lemma foreach_chain_keeps:
  "foreach_chain func arg chain = (chain', n, arg', stop) \<Longrightarrow>
   mset chain' \<subseteq># mset chain \<and> n = int (length chain) - int (length chain')"
proof (induction chain arbitrary: arg chain' n arg' stop)
  case Nil
  then show ?case by simp
next
  case (Cons e es)
  obtain r a where f: "func (ent_key e) (ent_record e) arg = (r, a)" by fastforce
  obtain c m b st where es: "foreach_chain func a es = (c, m, b, st)" by (cases "foreach_chain func a es") auto
  from Cons.IH [OF es] Cons.prems f es show ?case
    by (cases r) (auto intro: subset_add_mset)
qed

lemma foreach_bins_keeps:
  "foreach_bins func arg bs = (bs', n, arg') \<Longrightarrow>
   list_all2 (\<lambda>b b'. mset b \<subseteq># mset b') bs' bs \<and>
   n = int (length (concat bs)) - int (length (concat bs'))"
proof (induction bs arbitrary: arg bs' n arg')
  case Nil
  then show ?case by simp
next
  case (Cons b bs)
  obtain c m a st where b: "foreach_chain func arg b = (c, m, a, st)"
    by (cases "foreach_chain func arg b") auto
  obtain ds k a' where ds: "foreach_bins func a bs = (ds, k, a')"
    by (cases "foreach_bins func a bs") auto
  from Cons.IH [OF ds] foreach_chain_keeps [OF b] Cons.prems b ds show ?case
    by (auto split: if_splits intro: list_all2_refl)
qed

lemma foreach_inv:
  assumes "st_inv t" "st_foreach t func arg = (t', arg')"
  shows "st_inv t'" "st_type t' = st_type t" "num_bins t' = num_bins t"
proof -
  obtain bs n a where b: "foreach_bins func arg (bins t) = (bs, n, a)"
    by (cases "foreach_bins func arg (bins t)") auto
  note k = foreach_bins_keeps [OF b]
  from assms(2) b have t': "t' = t\<lparr>bins := bs, num_entries := num_entries t - n\<rparr>"
    by (simp add: st_foreach_def)
  have "num_entries t - n = int (length (concat bs))" using k st_invD(4) [OF assms(1)] by simp
  then show "st_inv t'" using keep_entries_inv [OF assms(1)] k by (simp add: t')
qed (use assms(2) in \<open>auto simp: st_foreach_def split: prod.splits\<close>)

text \<open>A callback that never stops or deletes is applied once to each entry, bin by bin.\<close>

lemma foreach_chain_visits:
  assumes "\<And>k v s. fst (func k v s) = ST_CONTINUE"
  shows "foreach_chain func arg es =
    (es, 0, fold (\<lambda>e s. snd (func (ent_key e) (ent_record e) s)) es arg, False)"
proof (induction es arbitrary: arg)
  case (Cons e es)
  obtain a where "func (ent_key e) (ent_record e) arg = (ST_CONTINUE, a)"
    using assms by (metis prod.collapse)
  with Cons.IH show ?case by simp
qed simp

lemma foreach_bins_visits:
  assumes "\<And>k v s. fst (func k v s) = ST_CONTINUE"
  shows "foreach_bins func arg bs =
    (bs, 0, fold (\<lambda>e s. snd (func (ent_key e) (ent_record e) s)) (concat bs) arg)"
  by (induction bs arbitrary: arg) (simp_all add: foreach_chain_visits [OF assms])

text \<open>A callback that only deletes, by a fixed test, filters every chain.\<close>

lemma foreach_chain_filter:
  assumes "\<And>k v. func k v a = (if P k v then ST_DELETE else ST_CONTINUE, a)"
  shows "\<exists>n. foreach_chain func a es = (filter (\<lambda>e. \<not> P (ent_key e) (ent_record e)) es, n, a, False)"
  by (induction es) (auto simp: assms)

lemma foreach_bins_filter:
  assumes "\<And>k v. func k v a = (if P k v then ST_DELETE else ST_CONTINUE, a)"
  shows "\<exists>n. foreach_bins func a bs =
    (map (filter (\<lambda>e. \<not> P (ent_key e) (ent_record e))) bs, n, a)"
proof (induction bs)
  case (Cons b bs)
  with foreach_chain_filter [of func a P b, OF assms] show ?case by auto
qed simp

lemma cleanup_safe_eq:
  "st_cleanup_safe t never = t\<lparr>bins := map (filter (\<lambda>e. ent_record e \<noteq> never)) (bins t)\<rparr>"
  using foreach_bins_filter [of delete_never never "\<lambda>_ v. v = never" "bins t"]
  by (auto simp: delete_never_def st_cleanup_safe_def st_foreach_def)

section \<open>Copying\<close>

lemma foldl_push: "foldl (\<lambda>chain ptr. ptr # chain) acc xs = rev xs @ acc"
  by (induction xs arbitrary: acc) auto

lemma copy_eq: "st_copy t = t\<lparr>bins := map rev (bins t)\<rparr>"
  by (simp add: st_copy_def foldl_push [of "[]", simplified])

lemma mset_concat_map_rev: "mset (concat (map rev xss)) = mset (concat xss)"
  by (induction xss) auto

lemma copy_inv:
  assumes "st_inv t"
  shows "st_inv (st_copy t)"
proof -
  have "list_all2 (\<lambda>b b'. mset b \<subseteq># mset b') (map rev (bins t)) (bins t)"
    by (simp add: list_all2_conv_all_nth)
  from keep_entries_inv [OF assms this] show ?thesis
    using mset_eq_length [OF mset_concat_map_rev [of "bins t"]] st_invD(4) [OF assms]
    by (simp add: copy_eq st_inv_def)
qed

section \<open>Deletion during iteration\<close>

text \<open>
  \<^verbatim>\<open>st_delete_safe\<close> only marks, \<^verbatim>\<open>st_cleanup_safe\<close> unlinks what was marked. A marked entry carries
  the marker in both fields; live entries carry it in neither.
\<close>

definition marks_ok :: "'k \<Rightarrow> 'v \<Rightarrow> ('k, 'v) st_table_entry list \<Rightarrow> bool" where
  "marks_ok nk nr es \<longleftrightarrow> (\<forall>e \<in> set es. ent_key e = nk \<longleftrightarrow> ent_record e = nr)"

lemma safe_chain:
  assumes sym: "\<And>x y. EQUAL ty x y \<Longrightarrow> EQUAL ty y x" and "marks_ok nk nr chain"
  shows "filter (\<lambda>e. ent_record e \<noteq> nr)
      (case delete_safe_rest ty k nk chain of
         None \<Rightarrow> chain
       | Some n \<Rightarrow> chain[n := (chain ! n)\<lparr>ent_key := nk, ent_record := nr\<rparr>]) =
    (case delete_rest ty k (filter (\<lambda>e. ent_record e \<noteq> nr) chain) of
       None \<Rightarrow> filter (\<lambda>e. ent_record e \<noteq> nr) chain
     | Some n \<Rightarrow> unlink_entry n (filter (\<lambda>e. ent_record e \<noteq> nr) chain))"
  using assms(2)
proof (induction chain)
  case (Cons e es)
  then show ?case
    by (auto simp: marks_ok_def unlink_entry_Cons split: option.splits if_splits)
qed simp

lemma safe_chain_none:
  assumes "marks_ok nk nr chain"
  shows "delete_safe_rest ty k nk chain = None \<longleftrightarrow>
    delete_rest ty k (filter (\<lambda>e. ent_record e \<noteq> nr) chain) = None"
  using assms by (induction chain) (auto simp: marks_ok_def)

lemma delete_pos_eq_rest:
  assumes "\<And>x y. EQUAL ty x y \<Longrightarrow> EQUAL ty y x"
  shows "delete_pos ty k chain = delete_rest ty k chain"
  using assms by (cases chain) (auto simp: delete_pos_def)

lemma st_delete_safe_unfold:
  "del_ret (st_delete_safe t k nk nr) =
     (if delete_safe_rest (st_type t) k nk (bins t ! do_hash_bin k t) = None then 0 else 1)"
  "del_table (st_delete_safe t k nk nr) =
     (case delete_safe_rest (st_type t) k nk (bins t ! do_hash_bin k t) of
        None \<Rightarrow> t
      | Some n \<Rightarrow> t\<lparr>bins := (bins t)[do_hash_bin k t := (bins t ! do_hash_bin k t)[n :=
                      (bins t ! do_hash_bin k t ! n)\<lparr>ent_key := nk, ent_record := nr\<rparr>]],
                    num_entries := num_entries t - 1\<rparr>)"
  by (auto simp: st_delete_safe_def Let_def split: list.splits option.splits)

lemma delete_safe_cleanup:
  assumes sym: "\<And>x y. EQUAL (st_type t) x y \<Longrightarrow> EQUAL (st_type t) y x"
    and len: "length (bins t) = nat (num_bins t)" "0 < num_bins t"
    and marks: "\<forall>chain \<in> set (bins t). marks_ok nk nr chain"
  shows "st_cleanup_safe (del_table (st_delete_safe t k nk nr)) nr =
           del_table (st_delete (st_cleanup_safe t nr) k)"
    "del_ret (st_delete_safe t k nk nr) = del_ret (st_delete (st_cleanup_safe t nr) k)"
proof -
  let ?b = "do_hash_bin k t" and ?live = "filter (\<lambda>e. ent_record e \<noteq> nr)"
  let ?c = "bins t ! ?b"
  have b: "?b < length (bins t)" using len by (simp add: do_hash_bin_def)
  with marks have mk: "marks_ok nk nr ?c" by simp
  have bin: "do_hash_bin k (st_cleanup_safe t nr) = ?b"
    by (simp add: cleanup_safe_eq do_hash_bin_def do_hash_def)
  have c: "bins (st_cleanup_safe t nr) ! ?b = ?live ?c" using b by (simp add: cleanup_safe_eq)
  have ty: "st_type (st_cleanup_safe t nr) = st_type t" by (simp add: cleanup_safe_eq)
  note none = safe_chain_none [OF mk, of "st_type t" k]
  note eq = safe_chain [OF sym mk, of k]
  note pos = delete_pos_eq_rest [OF sym]
  show "del_ret (st_delete_safe t k nk nr) = del_ret (st_delete (st_cleanup_safe t nr) k)"
    unfolding st_delete_safe_unfold(1) st_delete_unfold(1) bin c ty by (simp add: none pos)
  show "st_cleanup_safe (del_table (st_delete_safe t k nk nr)) nr =
        del_table (st_delete (st_cleanup_safe t nr) k)"
  proof (cases "delete_safe_rest (st_type t) k nk ?c")
    case None
    then show ?thesis
      unfolding st_delete_safe_unfold(2) st_delete_unfold(2) bin c ty using none by (simp add: pos)
  next
    case (Some n)
    with none obtain m where m: "delete_rest (st_type t) k (?live ?c) = Some m" by auto
    have live: "map ?live ((bins t)[?b := d]) = (map ?live (bins t))[?b := ?live d]" for d
      by (rule map_update)
    show ?thesis
      unfolding st_delete_safe_unfold(2) st_delete_unfold(2) bin c ty
      using Some m eq by (simp add: pos cleanup_safe_eq live)
  qed
qed

text \<open>Any number of deletions may be deferred: one clean-up at the end gives the same table.\<close>

definition delete_safe_all ::
  "'k \<Rightarrow> 'v \<Rightarrow> 'k list \<Rightarrow> ('k, 'v) st_table \<Rightarrow> ('k, 'v) st_table" where
  "delete_safe_all nk nr ks t = foldl (\<lambda>t k. del_table (st_delete_safe t k nk nr)) t ks"

definition delete_all :: "'k list \<Rightarrow> ('k, 'v) st_table \<Rightarrow> ('k, 'v) st_table" where
  "delete_all ks t = foldl (\<lambda>t k. del_table (st_delete t k)) t ks"

lemma marks_ok_update:
  "marks_ok nk nr c \<Longrightarrow> ent_key x = nk \<Longrightarrow> ent_record x = nr \<Longrightarrow> marks_ok nk nr (c[n := x])"
  unfolding marks_ok_def by (auto dest!: set_update_subset_insert [THEN subsetD])

lemma marks_ok_delete_safe:
  assumes "\<forall>chain \<in> set (bins t). marks_ok nk nr chain"
  shows "\<forall>chain \<in> set (bins (del_table (st_delete_safe t k nk nr))). marks_ok nk nr chain"
proof (cases "delete_safe_rest (st_type t) k nk (bins t ! do_hash_bin k t)")
  case None
  with assms show ?thesis by (simp add: st_delete_safe_unfold(2))
next
  case (Some n)
  let ?c = "bins t ! do_hash_bin k t"
  have "marks_ok nk nr (?c[n := (?c ! n)\<lparr>ent_key := nk, ent_record := nr\<rparr>])"
    if "do_hash_bin k t < length (bins t)"
    using assms nth_mem [OF that] by (intro marks_ok_update) auto
  with assms Some show ?thesis
    by (cases "do_hash_bin k t < length (bins t)")
      (auto simp: st_delete_safe_unfold(2) list_update_beyond
        dest!: set_update_subset_insert [THEN subsetD])
qed

lemma delete_safe_frame:
  "st_type (del_table (st_delete_safe t k nk nr)) = st_type t"
  "num_bins (del_table (st_delete_safe t k nk nr)) = num_bins t"
  "length (bins (del_table (st_delete_safe t k nk nr))) = length (bins t)"
  by (simp_all add: st_delete_safe_unfold(2) split: option.splits)

lemma delete_safe_all_cleanup:
  assumes "\<And>x y. EQUAL (st_type t) x y \<Longrightarrow> EQUAL (st_type t) y x"
    and "length (bins t) = nat (num_bins t)" "0 < num_bins t"
    and "\<forall>chain \<in> set (bins t). marks_ok nk nr chain"
  shows "st_cleanup_safe (delete_safe_all nk nr ks t) nr = delete_all ks (st_cleanup_safe t nr)"
  using assms
proof (induction ks arbitrary: t)
  case Nil
  then show ?case by (simp add: delete_safe_all_def delete_all_def)
next
  case (Cons k ks)
  let ?t = "del_table (st_delete_safe t k nk nr)"
  have "st_cleanup_safe (delete_safe_all nk nr ks ?t) nr = delete_all ks (st_cleanup_safe ?t nr)"
    using Cons.prems marks_ok_delete_safe [OF Cons.prems(4)]
    by (intro Cons.IH) (simp_all add: delete_safe_frame)
  then show ?case
    using delete_safe_cleanup(1) [OF Cons.prems] by (simp add: delete_safe_all_def delete_all_def)
qed

lemma cleanup_no_marks:
  assumes "\<forall>e \<in> st_entries t. ent_record e \<noteq> nr"
  shows "st_cleanup_safe t nr = t"
proof -
  have "map (filter (\<lambda>e. ent_record e \<noteq> nr)) (bins t) = bins t"
    using assms by (intro map_idI) (auto simp: filter_id_conv)
  then show ?thesis by (simp add: cleanup_safe_eq)
qed

section \<open>The dictionary contract\<close>

text \<open>
  What a client of the table relies on. The client lemmas below are proved from the contract
  alone; the sublocale shows that the operations of this file keep it for every hash type that
  obeys its laws.
\<close>

locale dictionary =
  fixes wf :: "'t \<Rightarrow> bool"
    and get :: "'t \<Rightarrow> 'k \<Rightarrow> 'v option"
    and put :: "'t \<Rightarrow> 'k \<Rightarrow> 'v \<Rightarrow> rb_error + int \<times> 't"
    and del :: "'t \<Rightarrow> 'k \<Rightarrow> int \<times> 't"
    and cnt :: "'t \<Rightarrow> int"
    and same :: "'k \<Rightarrow> 'k \<Rightarrow> bool"
  assumes same_refl: "same k k"
    and same_sym: "same k k' \<Longrightarrow> same k' k"
    and same_trans: "same k k' \<Longrightarrow> same k' k'' \<Longrightarrow> same k k''"
    and get_same: "wf t \<Longrightarrow> same k k' \<Longrightarrow> get t k = get t k'"
    and put_wf: "wf t \<Longrightarrow> cnt t < 2 ^ 31 - 1 \<Longrightarrow> put t k v = Inr (r, t') \<Longrightarrow> wf t'"
    and put_get: "wf t \<Longrightarrow> cnt t < 2 ^ 31 - 1 \<Longrightarrow> put t k v = Inr (r, t') \<Longrightarrow>
      get t' k' = (if same k k' then Some v else get t k')"
    and put_ret: "wf t \<Longrightarrow> cnt t < 2 ^ 31 - 1 \<Longrightarrow> put t k v = Inr (r, t') \<Longrightarrow> r = (if get t k = None then 0 else 1)"
    and put_cnt: "wf t \<Longrightarrow> cnt t < 2 ^ 31 - 1 \<Longrightarrow> put t k v = Inr (r, t') \<Longrightarrow> cnt t' = cnt t + (1 - r)"
    and put_ok: "wf t \<Longrightarrow> cnt t < 2 ^ 31 \<Longrightarrow> \<exists>r t'. put t k v = Inr (r, t')"
    and del_wf: "wf t \<Longrightarrow> wf (snd (del t k))"
    and del_get: "wf t \<Longrightarrow> get (snd (del t k)) k' = (if same k k' then None else get t k')"
    and del_ret: "wf t \<Longrightarrow> fst (del t k) = (if get t k = None then 0 else 1)"
    and del_cnt: "wf t \<Longrightarrow> cnt (snd (del t k)) = cnt t - fst (del t k)"
begin

lemma put_then_get: "wf t \<Longrightarrow> cnt t < 2 ^ 31 - 1 \<Longrightarrow> put t k v = Inr (r, t') \<Longrightarrow> get t' k = Some v"
  by (simp add: put_get same_refl)

lemma del_then_get: "wf t \<Longrightarrow> get (snd (del t k)) k = None"
  by (simp add: del_get same_refl)

lemma del_del: "wf t \<Longrightarrow> fst (del (snd (del t k)) k) = 0"
  by (simp add: del_ret del_wf del_then_get)

lemma put_del_cnt: "wf t \<Longrightarrow> cnt t < 2 ^ 31 - 1 \<Longrightarrow> get t k = None \<Longrightarrow> put t k v = Inr (r, t') \<Longrightarrow> cnt (snd (del t' k)) = cnt t"
  using put_wf [of t k v r t'] put_ret [of t k v r t'] put_cnt [of t k v r t'] put_then_get [of t k v r t']
  by (simp add: del_cnt del_ret)

end

sublocale st_hash_laws \<subseteq> dict: dictionary "\<lambda>t :: ('k, 'v) st_table. st_inv t \<and> st_type t = ty"
  st_lookup st_insert "\<lambda>t k. (del_ret (st_delete t k), del_table (st_delete t k))"
  num_entries "EQUAL ty"
proof (unfold_locales, goal_cases)
  case 1
  show ?case by simp
next
  case 2
  then show ?case by (rule equal_sym)
next
  case 3
  then show ?case by (rule equal_trans)
next
  case (4 t k k')
  then show ?case using lookup_cong [of t k k'] by simp
next
  case (5 t k v r t')
  then show ?case using insert_spec(1,2) [of t k v r t'] by simp
next
  case (6 t k v r t' k')
  then show ?case using insert_spec(5) [of t k v r t' k'] by simp
next
  case (7 t k v r t')
  then show ?case using insert_spec(3) [of t k v r t'] by simp
next
  case (8 t k v r t')
  then show ?case using insert_spec(4) [of t k v r t'] by simp
next
  case (9 t k v)
  then show ?case using insert_succeeds [of t k v] by simp
next
  case (10 t k)
  then show ?case using delete_spec(1,2) [of t k] by simp
next
  case (11 t k k')
  then show ?case using delete_spec(5) [of t k k'] by simp
next
  case (12 t k)
  then show ?case using delete_spec(3) [of t k] by simp
next
  case (13 t k)
  then show ?case using delete_spec(4) [of t k] by simp
qed

section \<open>The built-in types obey the laws\<close>

lemma strcmp_loop_eq:
  "0 \<notin> set x \<Longrightarrow> 0 \<notin> set y \<Longrightarrow> strcmp_loop x y = 0 \<longleftrightarrow> x = y"
  by (induction x y rule: strcmp_loop.induct) (auto simp: uint_0_iff dest: word_uint_eqI)

lemma c_str_no_nul: "0 \<notin> set (c_str s)"
  by (auto simp: c_str_def dest: set_takeWhileD)

lemma strcmp_eq: "strcmp x y = 0 \<longleftrightarrow> c_str x = c_str y"
  by (simp add: strcmp_def strcmp_loop_eq c_str_no_nul)

lemma strhash_loop_c_str: "strhash_loop val s = strhash_loop val (c_str s)"
  by (induction s arbitrary: val) (auto simp: c_str_def)

lemma EQUAL_str: "EQUAL type_strhash x y \<longleftrightarrow> c_str x = c_str y"
  by (auto simp: EQUAL_def type_strhash_def strcmp_eq)

lemma EQUAL_num: "EQUAL type_numhash x y \<longleftrightarrow> x = y"
  by (auto simp: EQUAL_def type_numhash_def numcmp_def)

interpretation num: st_hash_laws type_numhash
  by unfold_locales (auto simp: EQUAL_num)

interpretation str: st_hash_laws type_strhash
proof unfold_locales
  fix x y assume "EQUAL type_strhash x y"
  then show "hash_fn type_strhash x = hash_fn type_strhash y"
    using strhash_loop_c_str [of 0 x] strhash_loop_c_str [of 0 y]
    unfolding EQUAL_str by (simp add: type_strhash_def strhash_def)
qed (auto simp: EQUAL_str)

section \<open>Fresh tables\<close>

lemma init_inv:
  assumes "st_init_table_with_size ty sz = Inr t"
  shows "st_inv t" "st_type t = ty" "st_lookup t k = None"
proof -
  have "new_size sz \<noteq> 0"
    by (simp add: new_size_def primes_def MINSIZE_def int32_def)
  with assms show "st_inv t" "st_type t = ty"
    by (auto simp: st_init_table_with_size_def Let_def st_inv_def keys_unique_def split: if_splits)
  have "bins t = replicate (nat (num_bins t)) []"
    using assms by (auto simp: st_init_table_with_size_def Let_def split: if_splits)
  then have "bins t ! (unat h mod nat (num_bins t)) = []" for h :: u32
    using bin_in_range [OF \<open>st_inv t\<close>, of h] by (metis length_replicate nth_replicate)
  then show "st_lookup t k = None"
    by (simp add: st_lookup_def FIND_ENTRY_def Let_def)
qed

section \<open>Properties\<close>

text \<open>A fresh numeric table and one with two entries, for the concrete instances below.\<close>

definition table0 :: "(u64, nat) st_table" where
  "table0 = \<lparr>st_type = type_numhash, num_bins = 11, num_entries = 0,
     bins = [[], [], [], [], [], [], [], [], [], [], []]\<rparr>"

definition table1 :: "(u64, nat) st_table" where
  "table1 = \<lparr>st_type = type_numhash, num_bins = 11, num_entries = 1,
     bins = [[], [], [], [], [], [], [], [\<lparr>ent_hash = 7, ent_key = 7, ent_record = 5\<rparr>], [], [], []]\<rparr>"

definition table2 :: "(u64, nat) st_table" where
  "table2 = \<lparr>st_type = type_numhash, num_bins = 11, num_entries = 2,
     bins = [[], [], [], [], [], [], [],
             [\<lparr>ent_hash = 18, ent_key = 18, ent_record = 1\<rparr>,
              \<lparr>ent_hash = 7, ent_key = 7, ent_record = 5\<rparr>], [], [], []]\<rparr>"

lemmas table_eval = st_insert_def st_lookup_def FIND_ENTRY_def do_hash_def type_numhash_def
  numhash_def numcmp_def ADD_DIRECT_def ST_DEFAULT_MAX_DENSITY_def PTR_NOT_EQUAL_def EQUAL_def Let_def

lemma table0_init: "st_init_numtable = Inr table0"
  by (simp add: st_init_numtable_def st_init_table_def st_init_table_with_size_def new_size_def
      primes_def MINSIZE_def int32_def table0_def Let_def numeral_eq_Suc)

lemma numhash_laws: "st_hash_laws type_numhash"
  by (rule num.st_hash_laws_axioms)

lemma table0_inv: "st_inv table0" "st_type table0 = type_numhash"
  using init_inv(1,2) [of type_numhash 0 table0] table0_init
  by (simp_all add: st_init_numtable_def st_init_table_def)

lemma list_update_numeral:
  "(x # xs)[numeral n := y] = x # xs[pred_numeral n := y]"
  by (simp add: numeral_eq_Suc)

lemma table1_insert: "st_insert table0 7 5 = Inr (0, table1)"
  by (simp add: table0_def table1_def table_eval list_update_numeral)

lemma table2_insert: "st_insert table1 18 1 = Inr (0, table2)"
  by (simp add: table1_def table2_def table_eval list_update_numeral)

lemma table1_inv: "st_inv table1" "st_type table1 = type_numhash"
  using num.insert_spec(1,2) [OF table0_inv table1_insert] by (simp_all add: table0_def)

lemma table2_inv: "st_inv table2" "st_type table2 = type_numhash"
  using num.insert_spec(1,2) [OF table1_inv table2_insert] by (simp_all add: table1_def)

lemma table2_lookup: "st_lookup table2 7 = Some 5" "st_lookup table2 18 = Some 1"
  by (simp_all add: table2_def table_eval)

text \<open>
  C1. \<^verbatim>\<open>st_insert\<close> on a well-formed table of fewer than \<^verbatim>\<open>INT_MAX\<close> entries whose hash type obeys its laws keeps the table well formed
  and acts on lookups as a map update: the key, and every key equal to it, now finds the new
  record, all other keys find what they found before. It returns 1 exactly when the key was
  present, and \<^verbatim>\<open>num_entries\<close> grows exactly when it was not.
\<close>

theorem st_insert_updates:
  assumes "st_hash_laws (st_type t)" "st_inv t" "num_entries t < 2 ^ 31 - 1" "st_insert t k v = Inr (r, t')"
  shows "st_inv t' \<and> st_type t' = st_type t \<and>
    (\<forall>k'. st_lookup t' k' = (if EQUAL (st_type t) k k' then Some v else st_lookup t k')) \<and>
    r = (if st_lookup t k = None then 0 else 1) \<and> num_entries t' = num_entries t + (1 - r)"
  using st_hash_laws.insert_spec [OF assms(1,2) refl assms(4,3)] by simp

theorem st_insert_updates_witness:
  "st_insert table1 18 1 = Inr (0, table2) \<and> st_lookup table2 18 = Some 1 \<and>
   st_lookup table2 7 = st_lookup table1 7 \<and> num_entries table2 = num_entries table1 + 1"
proof -
  have "st_hash_laws (st_type table1)" by (simp add: table1_inv numhash_laws)
  moreover have "num_entries table1 < 2 ^ 31 - 1" by (simp add: table1_def)
  ultimately show ?thesis
    using st_insert_updates [OF _ table1_inv(1) _ table2_insert] table2_insert by (simp add: table1_inv EQUAL_num)
qed

text \<open>
  Insertion always returns: as long as the number of entries fits the \<^verbatim>\<open>int\<close> field that counts
  them, \<^verbatim>\<open>st_insert\<close> finds a prime to grow to whenever the density limit asks for it, so it
  never fails with a negative allocation.
\<close>

theorem st_insert_returns:
  assumes "st_hash_laws (st_type t)" "st_inv t" "num_entries t < 2 ^ 31"
  shows "\<exists>r t'. st_insert t k v = Inr (r, t')"
  using st_hash_laws.insert_succeeds [OF assms] .

theorem st_insert_returns_witness: "\<exists>r t'. st_insert table2 29 (9::nat) = Inr (r, t')"
  by (rule st_insert_returns) (simp_all add: table2_inv numhash_laws, simp add: table2_def)

text \<open>
  C21. \<^verbatim>\<open>st_delete\<close> removes exactly the given key: afterwards it (and every key equal to it) is absent,
  all others are untouched; the call returns 1 and hands back the stored key and record exactly
  when the key was present, and the entry count follows.
\<close>

theorem st_delete_removes:
  fixes t :: "('k, 'v) st_table"
  assumes "st_hash_laws (st_type t)" "st_inv t"
  shows "st_inv (del_table (st_delete t k)) \<and>
    (\<forall>k'. st_lookup (del_table (st_delete t k)) k' =
       (if EQUAL (st_type t) k k' then None else st_lookup t k')) \<and>
    del_ret (st_delete t k) = (if st_lookup t k = None then 0 else 1) \<and>
    num_entries (del_table (st_delete t k)) = num_entries t - del_ret (st_delete t k) \<and>
    (\<forall>v. st_lookup t k = Some v \<longrightarrow>
       del_value (st_delete t k) = SetTo v \<and> EQUAL (st_type t) k (del_key (st_delete t k)))"
  using st_hash_laws.delete_spec [OF assms refl, where k = k] by simp

theorem st_delete_removes_witness:
  "st_lookup (del_table (st_delete table2 7)) 7 = None \<and>
   st_lookup (del_table (st_delete table2 7)) 18 = Some 1 \<and>
   del_value (st_delete table2 7) = SetTo 5 \<and> st_inv (del_table (st_delete table2 7))"
proof -
  have laws: "st_hash_laws (st_type table2)" by (simp add: table2_inv numhash_laws)
  from st_delete_removes [OF laws table2_inv(1), of 7] show ?thesis
    by (simp add: table2_inv EQUAL_num table2_lookup)
qed

text \<open>
  Deletion while a table is being iterated: any sequence of \<^verbatim>\<open>st_delete_safe\<close> calls followed by
  one \<^verbatim>\<open>st_cleanup_safe\<close> leaves exactly the table that the same sequence of plain \<^verbatim>\<open>st_delete\<close>
  calls leaves, chains and entry count included. The marker must not be a key or record in use.
\<close>

theorem st_delete_safe_deferred:
  assumes "st_hash_laws (st_type t)" "st_inv t"
    and "\<forall>e \<in> st_entries t. ent_key e \<noteq> nk \<and> ent_record e \<noteq> nr"
  shows "st_cleanup_safe (delete_safe_all nk nr ks t) nr = delete_all ks t"
proof -
  have "\<forall>chain \<in> set (bins t). marks_ok nk nr chain"
    using assms(3) by (auto simp: marks_ok_def)
  from delete_safe_all_cleanup [OF st_hash_laws.equal_sym [OF assms(1)] st_invD(2,1) [OF assms(2)] this]
  have "st_cleanup_safe (delete_safe_all nk nr ks t) nr = delete_all ks (st_cleanup_safe t nr)" .
  then show ?thesis using cleanup_no_marks [of t nr] assms(3) by simp
qed

theorem st_delete_safe_deferred_witness:
  "st_cleanup_safe (delete_safe_all 6 0 [7, 3, 18] table2) 0 = delete_all [7, 3, 18] table2"
  by (rule st_delete_safe_deferred) (simp_all add: table2_inv numhash_laws, simp add: table2_def)

text \<open>
  Growing a table moves every entry to its new bin and loses none: after \<^verbatim>\<open>rehash\<close> the table is
  well formed, answers every lookup as before and has the same count.
\<close>

theorem rehash_keeps_lookups:
  assumes "st_hash_laws (st_type t)" "st_inv t" "rehash t = Inr t'"
  shows "st_inv t' \<and> (\<forall>k. st_lookup t' k = st_lookup t k) \<and> num_entries t' = num_entries t \<and>
    num_bins t < num_bins t'"
proof -
  note r = rehash_inv [OF assms(2,3)]
  have "st_entries t' = st_entries t" using r(2) by (rule mset_eq_setD)
  then have "st_lookup t' k = st_lookup t k" for k
    using st_hash_laws.lookup_same_entries [OF assms(1,2) refl r(1,4)] by blast
  moreover have "num_bins t < num_bins t'"
  proof (cases "num_bins t + 1 < 2 ^ 30")
    case True
    with new_size_gt [of "num_bins t + 1"] assms(3) show ?thesis
      by (auto simp: rehash_def Let_def split: if_splits)
  next
    case False
    then have "new_size (num_bins t + 1) = - 1"
      by (simp add: new_size_def primes_def MINSIZE_def int32_def)
    with assms(3) show ?thesis by (simp add: rehash_def Let_def)
  qed
  ultimately show ?thesis using r by blast
qed

theorem rehash_keeps_lookups_witness:
  "\<exists>t'. rehash table2 = Inr t' \<and> num_bins t' = 19 \<and> st_lookup t' 18 = Some 1 \<and> st_lookup t' 7 = Some 5"
proof -
  have n: "new_size (num_bins table2 + 1) = 19"
    by (simp add: table2_def new_size_def primes_def MINSIZE_def int32_def)
  then obtain t' where t': "rehash table2 = Inr t'" "num_bins t' = 19" by (simp add: rehash_def)
  have "st_hash_laws (st_type table2)" by (simp add: table2_inv numhash_laws)
  from rehash_keeps_lookups [OF this table2_inv(1) t'(1)] t' show ?thesis
    by (simp add: table2_lookup)
qed

text \<open>
  \<^verbatim>\<open>st_foreach\<close> with a callback that neither deletes nor stops calls it exactly once for every
  entry, in bin order, threading the callback's argument through, and leaves the table alone.
\<close>

theorem st_foreach_visits_all:
  assumes "\<And>k v s. fst (func k v s) = ST_CONTINUE"
  shows "st_foreach t func arg =
    (t, fold (\<lambda>e s. snd (func (ent_key e) (ent_record e) s)) (concat (bins t)) arg)"
  by (simp add: st_foreach_def foreach_bins_visits [OF assms])

theorem st_foreach_visits_all_witness:
  "st_foreach table2 (\<lambda>k v s. (ST_CONTINUE, s @ [v])) [] = (table2, [1, 5])"
  using st_foreach_visits_all [of "\<lambda>k v s. (ST_CONTINUE, s @ [v])" table2 "[]"]
  by (simp add: table2_def)

end
