(* ===== verification/Hash_Keys.thy ===== *)
theory Hash_Keys
  imports Array_Heap St_Table
begin

text \<open>
  The keys of Ruby hashes: comparison and hashing of strings (\<^verbatim>\<open>src/ruby/string.c\<close>, with \<^verbatim>\<open>rb_memcmp\<close> of
  \<^verbatim>\<open>src/ruby/re.c\<close>) and of arbitrary values (\<^verbatim>\<open>rb_any_cmp\<close>, \<^verbatim>\<open>rb_any_hash\<close> and the table type \<^verbatim>\<open>objhash\<close> of
  \<^verbatim>\<open>src/ruby/hash.c\<close>), and the insertion of \<^verbatim>\<open>rb_hash_aset\<close>. What the methods \<^verbatim>\<open>eql?\<close> and \<^verbatim>\<open>hash\<close> must promise for
  the values that these functions do not treat themselves is a locale; under it \<^verbatim>\<open>objhash\<close> obeys the laws
  that \<^verbatim>\<open>St_Table\<close> asks of a hash type.
\<close>

section \<open>Values\<close>

text \<open>
  The objects that are no arrays: fixnums, symbols by the bits of their \<^verbatim>\<open>VALUE\<close>, instances of \<^verbatim>\<open>String\<close> by
  their bytes, and others by their object number; and \<^verbatim>\<open>Qundef\<close>, which no program sees and which marks
  deleted entries of a table.
\<close>

datatype prim = Fixnum int | Symbol u64 | Str "byte list" | Other nat | Undef

abbreviation Qundef :: "prim rval" where
  "Qundef \<equiv> Obj Undef"

section \<open>Strings\<close>

fun memcmp :: "byte list \<Rightarrow> byte list \<Rightarrow> int" where
  "memcmp (x # xs) (y # ys) = (if x = y then memcmp xs ys else if x < y then -1 else 1)"
| "memcmp _ _ = 0"

definition casetable :: "nat \<Rightarrow> int" where
  "casetable i = (if 65 \<le> i \<and> i \<le> 90 then int i + 32 else int i)"

text \<open>
  \<^verbatim>\<open>casetable[(unsigned)*p1++]\<close>: a \<^verbatim>\<open>char\<close> is signed on the platforms modelled, so a byte from 128 on is
  extended to an index far past the 256 entries of the table.
\<close>

definition case_lookup :: "byte \<Rightarrow> rb_error + int" where
  "case_lookup c = (let i = unat (scast c :: u32) in if i < 256 then Inr (casetable i) else Inl OutOfBounds)"

fun rb_memcicmp :: "byte list \<Rightarrow> byte list \<Rightarrow> rb_error + int" where
  "rb_memcicmp (x # xs) (y # ys) =
     bindR (case_lookup x) (\<lambda>a. bindR (case_lookup y) (\<lambda>b.
       if a - b \<noteq> 0 then Inr (a - b) else rb_memcicmp xs ys))"
| "rb_memcicmp _ _ = Inr 0"

definition rb_memcmp :: "bool \<Rightarrow> byte list \<Rightarrow> byte list \<Rightarrow> rb_error + int" where
  "rb_memcmp ruby_ignorecase p1 p2 = (if \<not> ruby_ignorecase then Inr (memcmp p1 p2) else rb_memcicmp p1 p2)"

definition rb_str_cmp :: "bool \<Rightarrow> byte list \<Rightarrow> byte list \<Rightarrow> rb_error + int" where
  "rb_str_cmp ruby_ignorecase str1 str2 =
     (let len = min (length str1) (length str2)
      in bindR (rb_memcmp ruby_ignorecase (take len str1) (take len str2)) (\<lambda>retval.
           if retval = 0
           then Inr (if length str1 = length str2 then 0 else if length str1 > length str2 then 1 else -1)
           else Inr (if retval > 0 then 1 else -1)))"

definition rb_str_eql :: "byte list \<Rightarrow> byte list \<Rightarrow> bool" where
  "rb_str_eql str1 str2 =
     (if length str1 \<noteq> length str2 then False
      else memcmp (take (min (length str1) (length str2)) str1) (take (min (length str1) (length str2)) str2) = 0)"

fun str_hash_loop :: "u32 \<Rightarrow> byte list \<Rightarrow> u32" where
  "str_hash_loop key [] = key"
| "str_hash_loop key (c # p) = str_hash_loop (key * 65599 + scast c) p"

definition rb_str_hash :: "byte list \<Rightarrow> u32" where
  "rb_str_hash str = (let key = str_hash_loop 0 str in key + signed_drop_bit 5 key)"

section \<open>Values as keys\<close>

text \<open>What the method \<^verbatim>\<open>hash\<close> returns: a fixnum, by the bits of its \<^verbatim>\<open>VALUE\<close>, or a bignum.\<close>

datatype hval = HFix u64 | HBig int

text \<open>
  \<^verbatim>\<open>$=\<close> is off here, so the comparison of strings does not fail. The parameters are the methods \<^verbatim>\<open>eql?\<close> and
  \<^verbatim>\<open>hash\<close> of the values that are not treated directly.
\<close>

definition rb_any_cmp :: "(prim rval \<Rightarrow> prim rval \<Rightarrow> bool) \<Rightarrow> prim rval \<Rightarrow> prim rval \<Rightarrow> int" where
  "rb_any_cmp eql a b =
     (case (a, b) of
        (Obj (Fixnum x), Obj (Fixnum y)) \<Rightarrow> if x \<noteq> y then 1 else 0
      | (Obj (Str x), Obj (Str y)) \<Rightarrow> (case rb_str_cmp False x y of Inl _ \<Rightarrow> -1 | Inr n \<Rightarrow> n)
      | (Obj (Symbol x), Obj (Symbol y)) \<Rightarrow> if x \<noteq> y then 1 else 0
      | _ \<Rightarrow> if a = Qundef \<or> b = Qundef then -1 else if eql a b then 0 else 1)"

definition rb_any_hash :: "(prim rval \<Rightarrow> hval) \<Rightarrow> prim rval \<Rightarrow> u32" where
  "rb_any_hash hash a =
     (case a of
        Obj (Fixnum n) \<Rightarrow> word_of_int (2 * n + 1)
      | Obj (Symbol v) \<Rightarrow> ucast v
      | Obj (Str s) \<Rightarrow> rb_str_hash s
      | _ \<Rightarrow> (case hash a of
               HFix v \<Rightarrow> ucast (signed_drop_bit 1 (v mod 536870923))
             | HBig n \<Rightarrow> word_of_int (n mod 536870923)))"

definition objhash :: "(prim rval \<Rightarrow> prim rval \<Rightarrow> bool) \<Rightarrow> (prim rval \<Rightarrow> hval) \<Rightarrow> prim rval st_hash_type" where
  "objhash eql hash = \<lparr>compare = rb_any_cmp eql, hash_fn = rb_any_hash hash\<rparr>"

text \<open>\<^verbatim>\<open>rb_str_new4\<close> gives a frozen string with the same bytes.\<close>

definition rb_str_new4 :: "prim rval \<Rightarrow> prim rval option" where
  "rb_str_new4 v = (case v of Obj (Str s) \<Rightarrow> Some (Obj (Str s)) | _ \<Rightarrow> None)"

text \<open>
  What \<^verbatim>\<open>rb_hash_aset\<close> does to the table of a hash that may be modified: a string that is not yet a key is stored as a
  frozen copy.
\<close>

definition hash_store :: "(prim rval, 'v) st_table \<Rightarrow> prim rval \<Rightarrow> 'v \<Rightarrow> rb_error + (prim rval, 'v) st_table" where
  "hash_store t key val =
     (case rb_str_new4 key of
        None \<Rightarrow> bindR (st_insert t key val) (\<lambda>(_, t). Inr t)
      | Some copy \<Rightarrow>
          if st_lookup t key \<noteq> None then bindR (st_insert t key val) (\<lambda>(_, t). Inr t)
          else st_add_direct t copy val)"

section \<open>Laws\<close>

lemma memcmp_0: "length xs = length ys \<Longrightarrow> memcmp xs ys = 0 \<longleftrightarrow> xs = ys"
  by (induction xs ys rule: memcmp.induct) auto

lemma rb_str_cmp_case: "rb_str_cmp False x y = Inr 0 \<longleftrightarrow> x = y"
  using memcmp_0 [of x y] memcmp_0 [of "take (min (length x) (length y)) x" "take (min (length x) (length y)) y"]
  by (auto simp: rb_str_cmp_def rb_memcmp_def Let_def)

lemma rb_str_cmp_total: "\<exists>n. rb_str_cmp False x y = Inr n"
  by (simp add: rb_str_cmp_def rb_memcmp_def Let_def)

lemma rb_str_eql_iff: "rb_str_eql x y \<longleftrightarrow> x = y"
  using memcmp_0 [of x y] by (auto simp: rb_str_eql_def)

text \<open>The kind of a value: a value of one of the first three kinds is \<^verbatim>\<open>eql?\<close> only to values of its kind.\<close>

definition kind :: "prim rval \<Rightarrow> nat" where
  "kind v = (case v of Obj (Fixnum _) \<Rightarrow> 0 | Obj (Symbol _) \<Rightarrow> 1 | Obj (Str _) \<Rightarrow> 2 | Obj Undef \<Rightarrow> 4 | _ \<Rightarrow> 3)"

lemma kind_Qundef [simp]: "kind Qundef = 4"
  by (simp add: kind_def)

lemma prim_rval_cases [case_names Nil Ary Fix Sym Str Other Undef]:
  obtains "v = Qnil" | a where "v = AryRef a" | n where "v = Obj (Fixnum n)" | w where "v = Obj (Symbol w)"
  | s where "v = Obj (Str s)" | n where "v = Obj (Other n)" | "v = Qundef"
proof (cases v)
  case (Obj p)
  then show thesis using that by (cases p) auto
qed (use that in auto)

lemma rb_any_cmp_str [simp]: "rb_any_cmp eql (Obj (Str x)) (Obj (Str y)) = 0 \<longleftrightarrow> x = y"
  using rb_str_cmp_total [of x y] rb_str_cmp_case [of x y] by (auto simp: rb_any_cmp_def)

lemma rb_any_cmp_0:
  "rb_any_cmp eql x y = 0 \<longleftrightarrow> (if x = Qundef \<or> y = Qundef then False else if kind x = kind y \<and> kind x \<noteq> 3 then x = y else eql x y)"
proof (cases "\<exists>s t. x = Obj (Str s) \<and> y = Obj (Str t)")
  case True
  then show ?thesis by (auto simp: kind_def)
next
  case False
  then show ?thesis
    by (cases x rule: prim_rval_cases; cases y rule: prim_rval_cases; simp add: rb_any_cmp_def kind_def)
qed

locale any_hash_laws =
  fixes eql_m :: "prim rval \<Rightarrow> prim rval \<Rightarrow> bool" and hash_m :: "prim rval \<Rightarrow> hval"
  assumes eql_sym: "eql_m x y \<Longrightarrow> eql_m y x"
    and eql_trans: "eql_m x y \<Longrightarrow> eql_m y z \<Longrightarrow> eql_m x z"
    and eql_kind: "eql_m x y \<Longrightarrow> kind x = kind y"
    and eql_hash: "eql_m x y \<Longrightarrow> kind x = 3 \<Longrightarrow> hash_m x = hash_m y"
begin

lemma any_equal_iff:
  "EQUAL (objhash eql_m hash_m) x y \<longleftrightarrow> x = y \<or> kind x = 3 \<and> eql_m x y"
  using eql_kind [of x y] by (auto simp: EQUAL_def objhash_def rb_any_cmp_0)

lemma any_hash_cong: "kind x = 3 \<Longrightarrow> eql_m x y \<Longrightarrow> rb_any_hash hash_m x = rb_any_hash hash_m y"
  using eql_hash [of x y] eql_kind [of x y]
  by (cases x rule: prim_rval_cases; cases y rule: prim_rval_cases; simp add: rb_any_hash_def kind_def)

end

sublocale any_hash_laws \<subseteq> keys: st_hash_laws "objhash eql_m hash_m"
proof (unfold_locales, goal_cases)
  case (1 x y)
  then show ?case using eql_sym eql_kind by (auto simp: any_equal_iff)
next
  case (2 x y z)
  then show ?case using eql_trans eql_kind by (auto simp: any_equal_iff)
next
  case (3 x y)
  then have "x = y \<or> kind x = 3 \<and> eql_m x y" by (simp only: any_equal_iff)
  then show ?case using any_hash_cong by (auto simp: objhash_def)
qed

text \<open>
  The methods of \<^verbatim>\<open>Kernel\<close> (\<^verbatim>\<open>rb_obj_equal\<close> of \<^verbatim>\<open>src/ruby/object.c\<close> and \<^verbatim>\<open>rb_obj_id\<close> of \<^verbatim>\<open>src/ruby/gc.c\<close>), which a class
  has that does not define its own: identity, and the object number as a fixnum.
\<close>

definition rb_obj_id :: "prim rval \<Rightarrow> hval" where
  "rb_obj_id v =
     HFix (case v of Qnil \<Rightarrow> 4 * 2 + 1 | AryRef a \<Rightarrow> of_nat a OR 1 | Obj (Other n) \<Rightarrow> of_nat n OR 1 | _ \<Rightarrow> 1)"

interpretation kernel: any_hash_laws "\<lambda>x y. x = y" rb_obj_id
  by unfold_locales auto

context any_hash_laws
begin

text \<open>What \<^verbatim>\<open>h[k] = v\<close> does to the lookups, with a string key replaced by its copy.\<close>

lemma hash_store_ok:
  fixes t :: "(prim rval, 'v) st_table"
  assumes wf: "st_inv t" "st_type t = objhash eql_m hash_m" and n: "num_entries t < 2 ^ 31 - 1"
  shows "\<exists>t'. hash_store t k v = Inr t' \<and> st_inv t' \<and> st_type t' = objhash eql_m hash_m \<and>
           num_entries t' = num_entries t + (if st_lookup t k = None then 1 else 0) \<and>
           (\<forall>k'. st_lookup t' k' = (if EQUAL (objhash eql_m hash_m) k k' then Some v else st_lookup t k'))"
proof -
  have ins: "\<exists>t'. bindR (st_insert t k v) (\<lambda>(_, t). Inr t) = Inr t' \<and> st_inv t' \<and> st_type t' = objhash eql_m hash_m \<and>
      num_entries t' = num_entries t + (if st_lookup t k = None then 1 else 0) \<and>
      (\<forall>k'. st_lookup t' k' = (if EQUAL (objhash eql_m hash_m) k k' then Some v else st_lookup t k'))"
  proof -
    obtain r t' where "st_insert t k v = Inr (r, t')" using keys.dict.put_ok [of t k v] wf n by auto
    then show ?thesis
      using keys.dict.put_wf [of t k v r t'] keys.dict.put_get [of t k v r t'] keys.dict.put_cnt [of t k v r t']
        keys.dict.put_ret [of t k v r t'] wf n by auto
  qed
  show ?thesis
  proof (cases "rb_str_new4 k = None \<or> st_lookup t k \<noteq> None")
    case True
    then have "hash_store t k v = bindR (st_insert t k v) (\<lambda>(_, t). Inr t)"
      by (auto simp: hash_store_def split: option.splits)
    then show ?thesis using ins by simp
  next
    case False
    then have k: "rb_str_new4 k = Some k" "st_lookup t k = None"
      by (auto simp: rb_str_new4_def split: rval.splits prim.splits)
    then have "FIND_ENTRY t (do_hash k t) k = None" by (auto simp: st_lookup_def Let_def split: option.splits)
    then have "st_add_direct t k v = bindR (st_insert t k v) (\<lambda>(_, t). Inr t)"
      by (auto simp: st_add_direct_def st_insert_def Let_def split: sum.splits)
    then show ?thesis using ins k by (simp add: hash_store_def)
  qed
qed

end

end
