(* ===== verification/Array_Sets.thy ===== *)
theory Array_Sets
  imports Array_More Hash_Keys
begin

text \<open>
  The set operations of \<^verbatim>\<open>src/ruby/array.c\<close>: \<^verbatim>\<open>&\<close>, \<^verbatim>\<open>|\<close> and \<^verbatim>\<open>uniq\<close>, which enter the elements of an array in a
  table and then delete them one by one. The table type is the \<^verbatim>\<open>objhash\<close> of \<^verbatim>\<open>Hash_Keys\<close>; the lemmas use the
  tables only through the dictionary contract of \<^verbatim>\<open>St_Table\<close>.
\<close>

section \<open>Set operations\<close>

function make_hash_loop ::
  "prim heap \<Rightarrow> nat \<Rightarrow> (prim rval, bool) st_table \<Rightarrow> int \<Rightarrow> int \<Rightarrow>
   rb_error + (prim rval, bool) st_table" where
  "make_hash_loop h a t i len =
     (if i < len
      then bindR (cell h a i) (\<lambda>v. bindR (hash_store t v True) (\<lambda>t. make_hash_loop h a t (i + 1) len))
      else Inr t)"
  by pat_completeness auto
termination by (relation "measure (\<lambda>(_, _, _, i, len). nat (len - i))") auto

definition ary_make_hash ::
  "prim rval st_hash_type \<Rightarrow> prim heap \<Rightarrow> nat \<Rightarrow> nat option \<Rightarrow>
   rb_error + (prim rval, bool) st_table" where
  "ary_make_hash ty h a1 a2 =
     with_ary h a1 (\<lambda>r1.
       bindR (st_init_table ty) (\<lambda>t.
         bindR (make_hash_loop h a1 t 0 (ary_len r1)) (\<lambda>t.
           case a2 of
             None \<Rightarrow> Inr t
           | Some a2 \<Rightarrow> with_ary h a2 (\<lambda>r2. make_hash_loop h a2 t 0 (ary_len r2)))))"

text \<open>The loop of \<^verbatim>\<open>&\<close> and \<^verbatim>\<open>|\<close>: an element is kept when deleting it from the table succeeds.\<close>

function pick_loop ::
  "prim heap \<Rightarrow> (prim rval, bool) st_table \<Rightarrow> nat \<Rightarrow> nat \<Rightarrow> int \<Rightarrow> int \<Rightarrow> rb_error + prim heap \<times> (prim rval, bool) st_table" where
  "pick_loop h t a a3 i len =
     (if i < len
      then bindR (cell h a i) (\<lambda>v.
             let d = st_delete t v
             in if del_ret d \<noteq> 0
                then bindR (rb_ary_push h a3 v) (\<lambda>h. pick_loop h (del_table d) a a3 (i + 1) len)
                else pick_loop h (del_table d) a a3 (i + 1) len)
      else Inr (h, t))"
  by pat_completeness auto
termination by (relation "measure (\<lambda>(_, _, _, _, i, len). nat (len - i))") (auto simp: Let_def)

definition rb_ary_and ::
  "prim rval st_hash_type \<Rightarrow> prim heap \<Rightarrow> nat \<Rightarrow> nat \<Rightarrow> rb_error + prim heap \<times> nat" where
  "rb_ary_and ty h a1 a2 =
     with_ary h a1 (\<lambda>r1. with_ary h a2 (\<lambda>r2.
       bindR (rb_ary_new2 h (if ary_len r1 < ary_len r2 then ary_len r1 else ary_len r2)) (\<lambda>(h, a3).
         bindR (ary_make_hash ty h a2 None) (\<lambda>t.
           bindR (pick_loop h t a1 a3 0 (ary_len r1)) (\<lambda>(h, t). Inr (h, a3))))))"

definition rb_ary_or ::
  "prim rval st_hash_type \<Rightarrow> prim heap \<Rightarrow> nat \<Rightarrow> nat \<Rightarrow> rb_error + prim heap \<times> nat" where
  "rb_ary_or ty h a1 a2 =
     with_ary h a1 (\<lambda>r1. with_ary h a2 (\<lambda>r2.
       bindR (rb_ary_new2 h (int64 (ary_len r1 + ary_len r2))) (\<lambda>(h, a3).
         bindR (ary_make_hash ty h a1 (Some a2)) (\<lambda>t.
           bindR (pick_loop h t a1 a3 0 (ary_len r1)) (\<lambda>(h, t).
             bindR (pick_loop h t a2 a3 0 (ary_len r2)) (\<lambda>(h, t). Inr (h, a3)))))))"

function uniq_loop ::
  "prim heap \<Rightarrow> (prim rval, bool) st_table \<Rightarrow> nat \<Rightarrow> int \<Rightarrow> int \<Rightarrow> int \<Rightarrow> rb_error + prim heap \<times> int" where
  "uniq_loop h t a p q end =
     (if p < end
      then bindR (cell h a p) (\<lambda>v.
             let d = st_delete t v
             in if del_ret d \<noteq> 0
                then bindR (write_at h a q [v]) (\<lambda>h. uniq_loop h (del_table d) a (p + 1) (q + 1) end)
                else uniq_loop h (del_table d) a (p + 1) q end)
      else Inr (h, q))"
  by pat_completeness auto
termination by (relation "measure (\<lambda>(_, _, _, p, _, end). nat (end - p))") (auto simp: Let_def)

declare make_hash_loop.simps [simp del] pick_loop.simps [simp del] uniq_loop.simps [simp del]

definition rb_ary_uniq_bang ::
  "prim rval st_hash_type \<Rightarrow> prim heap \<Rightarrow> nat \<Rightarrow> rb_error + prim heap \<times> prim rval" where
  "rb_ary_uniq_bang ty h a =
     bindR (rb_ary_modify h a) (\<lambda>h. with_ary h a (\<lambda>r.
       bindR (ary_make_hash ty h a None) (\<lambda>t.
         if ary_len r = num_entries t then Inr (h, Qnil)
         else bindR (uniq_loop h t a 0 0 (ary_len r)) (\<lambda>(h, q). Inr (set_len h a q, AryRef a)))))"

definition rb_ary_uniq ::
  "prim rval st_hash_type \<Rightarrow> prim heap \<Rightarrow> nat \<Rightarrow> rb_error + prim heap \<times> nat" where
  "rb_ary_uniq ty h a =
     bindR (rb_ary_dup h a) (\<lambda>(h, d). bindR (rb_ary_uniq_bang ty h d) (\<lambda>(h, _). Inr (h, d)))"

section \<open>Set operations: what they hold\<close>

text \<open>
  The elements of a list that satisfy \<^verbatim>\<open>S\<close>, each class of equal keys once, at its first place. This is what a
  loop over the list keeps that deletes every element from a table whose keys are \<^verbatim>\<open>S\<close>.
\<close>

fun keep_once :: "('k \<Rightarrow> 'k \<Rightarrow> bool) \<Rightarrow> ('k \<Rightarrow> bool) \<Rightarrow> 'k list \<Rightarrow> 'k list" where
  "keep_once same S [] = []"
| "keep_once same S (x # xs) =
     (if S x then x # keep_once same (\<lambda>y. S y \<and> \<not> same x y) xs else keep_once same S xs)"

lemma keep_once_length: "length (keep_once same S xs) \<le> length xs"
  by (induction xs arbitrary: S) (auto intro: le_SucI)

lemma keep_once_eq: "set (keep_once (=) S xs) = {x \<in> set xs. S x} \<and> distinct (keep_once (=) S xs)"
  by (induction xs arbitrary: S) auto

lemma keep_once_cong: "(\<And>x. x \<in> set xs \<Longrightarrow> S x = S' x) \<Longrightarrow> keep_once same S xs = keep_once same S' xs"
proof (induction xs arbitrary: S S')
  case (Cons x xs)
  have "keep_once same S xs = keep_once same S' xs" using Cons.prems by (intro Cons.IH) auto
  moreover have "keep_once same (\<lambda>y. S y \<and> \<not> same x y) xs = keep_once same (\<lambda>y. S' y \<and> \<not> same x y) xs"
    using Cons.prems by (intro Cons.IH) auto
  ultimately show ?case using Cons.prems by simp
qed simp

lemma keep_once_append:
  assumes "\<And>x y z. same x y \<Longrightarrow> same y z \<Longrightarrow> same x z"
  shows "keep_once same S (xs @ ys) =
     keep_once same S xs @ keep_once same (\<lambda>y. S y \<and> \<not> (\<exists>x \<in> set xs. S x \<and> same x y)) ys"
proof (induction xs arbitrary: S)
  case (Cons x xs)
  have "keep_once same (\<lambda>y. (S y \<and> \<not> same x y) \<and> \<not> (\<exists>z \<in> set xs. (S z \<and> \<not> same x z) \<and> same z y)) ys =
      keep_once same (\<lambda>y. S y \<and> \<not> (\<exists>z \<in> set (x # xs). S z \<and> same z y)) ys" if "S x"
    by (rule keep_once_cong) (use that assms in auto)
  then show ?case
    by (cases "S x") (simp_all only: append_Cons keep_once.simps if_True if_False Cons.IH simp_thms set_simps bex_simps)
qed simp

lemma keep_once_full: "length (keep_once same S xs) = length xs \<Longrightarrow> keep_once same S xs = xs"
proof (induction xs arbitrary: S)
  case (Cons x xs)
  then show ?case using keep_once_length [of same S xs] by (auto split: if_splits)
qed simp

context any_hash_laws
begin

lemma same_lookup:
  fixes t :: "(prim rval, 'v) st_table"
  shows "st_inv t \<Longrightarrow> st_type t = objhash eql_m hash_m \<Longrightarrow> EQUAL (objhash eql_m hash_m) k k' \<Longrightarrow>
    st_lookup t k' = st_lookup t k"
  using keys.dict.get_same [of t k k'] by simp

lemma make_hash_loop_ok:
  assumes ok: "heap_ok h" and a: "arys h a = Some r" and wf: "st_inv t" "st_type t = objhash eql_m hash_m" and i: "i \<le> length (elems h a)"
    and n: "num_entries t + int (length (elems h a) - i) < 2 ^ 31"
  shows "\<exists>t'. make_hash_loop h a t (int i) (int (length (elems h a))) = Inr t' \<and> st_inv t' \<and> st_type t' = (objhash eql_m hash_m) \<and>
           num_entries t' = num_entries t + int (length (keep_once (EQUAL (objhash eql_m hash_m)) (\<lambda>k. st_lookup t k = None) (drop i (elems h a)))) \<and>
           (\<forall>k. st_lookup t' k \<noteq> None \<longleftrightarrow> st_lookup t k \<noteq> None \<or> (\<exists>x \<in> set (drop i (elems h a)). EQUAL (objhash eql_m hash_m) x k))"
  using wf i n
proof (induction "length (elems h a) - i" arbitrary: i t)
  case 0
  then show ?case by (subst make_hash_loop.simps) auto
next
  case (Suc d)
  let ?n = "length (elems h a)"
  have i: "i < ?n" "d = ?n - Suc i" "Suc i \<le> ?n" using Suc.hyps(2) by auto
  let ?v = "elems h a ! i"
  have v: "cell h a (int i) = Inr ?v" by (rule cell_elems [OF ok a i(1)])
  have dr: "drop i (elems h a) = ?v # drop (Suc i) (elems h a)" using Cons_nth_drop_Suc [OF i(1)] by simp
  have "num_entries t < 2 ^ 31 - 1" using Suc.prems(4) i(1) by linarith
  from hash_store_ok [OF Suc.prems(1,2) this, where v = True and k = ?v] obtain t1
    where 1: "hash_store t ?v True = Inr t1" "st_inv t1" "st_type t1 = objhash eql_m hash_m"
      "num_entries t1 = num_entries t + (if st_lookup t ?v = None then 1 else 0)" 
      "\<forall>k'. st_lookup t1 k' = (if EQUAL (objhash eql_m hash_m) ?v k' then Some True else st_lookup t k')" by blast
  have "num_entries t1 + int (?n - Suc i) < 2 ^ 31" using 1(4) Suc.prems(4) i(1) by (auto split: if_splits)
  from Suc.hyps(1) [OF i(2) 1(2,3) i(3) this] obtain t'
    where 2: "make_hash_loop h a t1 (int (Suc i)) (int ?n) = Inr t'" "st_inv t'" "st_type t' = objhash eql_m hash_m"
      "num_entries t' = num_entries t1 + int (length (keep_once (EQUAL (objhash eql_m hash_m)) (\<lambda>k. st_lookup t1 k = None) (drop (Suc i) (elems h a))))"
      "\<forall>k. st_lookup t' k \<noteq> None \<longleftrightarrow> st_lookup t1 k \<noteq> None \<or> (\<exists>x \<in> set (drop (Suc i) (elems h a)). EQUAL (objhash eql_m hash_m) x k)"
    by blast
  have s: "int i + 1 = int (Suc i)" by simp
  have "make_hash_loop h a t (int i) (int ?n) = Inr t'"
    using i(1) v 1(1) 2(1) by (subst make_hash_loop.simps) (simp only: s bindR_simps of_nat_less_iff if_True)
  moreover have "(\<lambda>k. st_lookup t1 k = None) = (if st_lookup t ?v = None then (\<lambda>k. st_lookup t k = None \<and> \<not> EQUAL (objhash eql_m hash_m) ?v k)
      else (\<lambda>k. st_lookup t k = None))"
    using 1(5) same_lookup [OF Suc.prems(1,2), of ?v] by (cases "st_lookup t ?v") (auto simp: fun_eq_iff)
  ultimately show ?case using 2 1(4,5) unfolding dr by auto
qed

lemma pick_loop_ok:
  assumes "heap_ok h" "modifiable h c" "frame c h0 h" "heap_ok h0" "arys h0 a = Some ra" "a \<noteq> c"
    "st_inv t" "st_type t = objhash eql_m hash_m"
    "i \<le> length (elems h0 a)" "length (elems h c) + (length (elems h0 a) - i) < 2 ^ 40"
  shows "\<exists>h' t'. pick_loop h t a c (int i) (int (length (elems h0 a))) = Inr (h', t') \<and> heap_ok h' \<and> frame c h0 h' \<and> modifiable h' c \<and>
           elems h' c = elems h c @ keep_once (EQUAL (objhash eql_m hash_m)) (\<lambda>k. st_lookup t k \<noteq> None) (drop i (elems h0 a)) \<and>
           st_inv t' \<and> st_type t' = (objhash eql_m hash_m) \<and>
           (\<forall>k. st_lookup t' k = (if \<exists>x \<in> set (drop i (elems h0 a)). EQUAL (objhash eql_m hash_m) x k then None else st_lookup t k))"
  using assms
proof (induction "length (elems h0 a) - i" arbitrary: i h t)
  case 0
  then show ?case by (subst pick_loop.simps) auto
next
  case (Suc d)
  let ?n = "length (elems h0 a)" and ?v = "elems h0 a ! i"
  have i: "i < ?n" "d = ?n - Suc i" "Suc i \<le> ?n" using Suc.hyps(2) by auto
  have el: "elems h a = elems h0 a" by (rule frame_elems [OF Suc.prems(3,6,5)])
  obtain ra' where ra: "arys h a = Some ra'" using frame_ary [OF Suc.prems(3,6,5)] by blast
  have v: "cell h a (int i) = Inr ?v" using cell_elems [OF Suc.prems(1) ra, of i] el i by simp
  have dr: "drop i (elems h0 a) = ?v # drop (Suc i) (elems h0 a)" using Cons_nth_drop_Suc [OF i(1)] by simp
  let ?d = "st_delete t ?v" and ?t = "del_table (st_delete t ?v)"
  have d: "st_inv ?t" "st_type ?t = objhash eql_m hash_m" "del_ret ?d = (if st_lookup t ?v = None then 0 else 1)"
    "\<forall>k. st_lookup ?t k = (if EQUAL (objhash eql_m hash_m) ?v k then None else st_lookup t k)"
    using keys.dict.del_wf [of t ?v] keys.dict.del_get [of t ?v] keys.dict.del_ret [of t ?v] Suc.prems(7,8) by auto
  have S: "(\<lambda>k. st_lookup ?t k \<noteq> None) = (if st_lookup t ?v \<noteq> None then (\<lambda>k. st_lookup t k \<noteq> None \<and> \<not> EQUAL (objhash eql_m hash_m) ?v k)
      else (\<lambda>k. st_lookup t k \<noteq> None))"
    using d(4) same_lookup [OF Suc.prems(7,8), of ?v] by (cases "st_lookup t ?v") (auto simp: fun_eq_iff)
  have s: "int i + 1 = int (Suc i)" by simp
  have "\<exists>h1. heap_ok h1 \<and> modifiable h1 c \<and> frame c h0 h1 \<and> elems h1 c = elems h c @ (if st_lookup t ?v \<noteq> None then [?v] else []) \<and>
      pick_loop h t a c (int i) (int ?n) = pick_loop h1 ?t a c (int (Suc i)) (int ?n)"
  proof (cases "st_lookup t ?v = None")
    case True
    then show ?thesis
      using Suc.prems(1-3) i v d(3) by (intro exI [of _ h]) (subst (1) pick_loop.simps, simp add: Let_def add.commute)
  next
    case False
    have "yields c h (rb_ary_push h c ?v) (elems h c @ [?v])"
      using Suc.prems(1,2,10) by (intro rb_ary_push_yields) auto
    then obtain h1 where 1: "rb_ary_push h c ?v = Inr h1" "heap_ok h1" "elems h1 c = elems h c @ [?v]" "frame c h h1"
      by (auto simp: yields_def)
    moreover have "del_ret ?d = 1" using d(3) False by simp
    ultimately show ?thesis
      using False i v frame_modifiable [OF 1(4) Suc.prems(2)] frame_trans [OF Suc.prems(3) 1(4)]
      by (intro exI [of _ h1]) (subst (1) pick_loop.simps, simp add: Let_def add.commute)
  qed
  then obtain h1 where 1: "heap_ok h1" "modifiable h1 c" "frame c h0 h1"
    "elems h1 c = elems h c @ (if st_lookup t ?v \<noteq> None then [?v] else [])"
    "pick_loop h t a c (int i) (int ?n) = pick_loop h1 ?t a c (int (Suc i)) (int ?n)" by blast
  have "length (elems h1 c) + (?n - Suc i) < 2 ^ 40" using 1(4) Suc.prems(10) i by auto
  from Suc.hyps(1) [OF i(2) 1(1-3) Suc.prems(4-6) d(1,2) i(3) this] show ?case
    unfolding 1(5) dr S using 1(4) d(4) by (auto split: if_splits)
qed

lemma init_hash:
  "\<exists>t :: (prim rval, bool) st_table. st_init_table (objhash eql_m hash_m) = Inr t \<and> st_inv t \<and> st_type t = objhash eql_m hash_m \<and>
     num_entries t = 0 \<and> (\<forall>k. st_lookup t k = None)"
proof -
  have "0 \<le> new_size 0" by (simp add: new_size_def primes_def MINSIZE_def int32_def)
  then obtain t :: "(prim rval, bool) st_table" where
    t: "st_init_table_with_size (objhash eql_m hash_m) 0 = Inr t" "num_entries t = 0"
    by (simp add: st_init_table_with_size_def Let_def)
  then show ?thesis using init_inv [OF t(1)] unfolding st_init_table_def by blast
qed

lemma ary_make_hash_one:
  assumes ok: "heap_ok h" and a: "arys h a = Some r" and n: "length (elems h a) < 2 ^ 31"
  shows "\<exists>t. ary_make_hash (objhash eql_m hash_m) h a None = Inr t \<and> st_inv t \<and> st_type t = objhash eql_m hash_m \<and>
           num_entries t = int (length (keep_once (EQUAL (objhash eql_m hash_m)) (\<lambda>_. True) (elems h a))) \<and>
           (\<forall>k. st_lookup t k \<noteq> None \<longleftrightarrow> (\<exists>x \<in> set (elems h a). EQUAL (objhash eql_m hash_m) x k))"
proof -
  obtain t :: "(prim rval, bool) st_table" where t: "st_init_table (objhash eql_m hash_m) = Inr t" "st_inv t"
    "st_type t = objhash eql_m hash_m" "num_entries t = 0" "\<forall>k. st_lookup t k = None"
    using init_hash by blast
  from make_hash_loop_ok [OF ok a t(2,3), of 0] n t(4,5) show ?thesis
    using t(1) a ok_elems_length [OF ok a] by (auto simp: ary_make_hash_def with_ary_def)
qed

lemma ary_make_hash_two:
  assumes ok: "heap_ok h" and a: "arys h a = Some r" and b: "arys h b = Some rb"
    and n: "length (elems h a) + length (elems h b) < 2 ^ 31"
  shows "\<exists>t. ary_make_hash (objhash eql_m hash_m) h a (Some b) = Inr t \<and> st_inv t \<and> st_type t = objhash eql_m hash_m \<and>
           (\<forall>k. st_lookup t k \<noteq> None \<longleftrightarrow> (\<exists>x \<in> set (elems h a) \<union> set (elems h b). EQUAL (objhash eql_m hash_m) x k))"
proof -
  have na: "length (elems h a) < 2 ^ 31" using n by simp
  obtain t where t: "ary_make_hash (objhash eql_m hash_m) h a None = Inr t" "st_inv t" "st_type t = objhash eql_m hash_m"
    "num_entries t = int (length (keep_once (EQUAL (objhash eql_m hash_m)) (\<lambda>_. True) (elems h a)))"
    "\<forall>k. st_lookup t k \<noteq> None \<longleftrightarrow> (\<exists>x \<in> set (elems h a). EQUAL (objhash eql_m hash_m) x k)"
    using ary_make_hash_one [OF ok a na] by blast
  have "num_entries t \<le> int (length (elems h a))" unfolding t(4) using keep_once_length by simp
  then have "num_entries t + int (length (elems h b) - 0) < 2 ^ 31" using n by simp
  from make_hash_loop_ok [OF ok b t(2,3) le0 this] obtain t'
    where t': "make_hash_loop h b t (int 0) (int (length (elems h b))) = Inr t'" "st_inv t'" "st_type t' = objhash eql_m hash_m"
      "\<forall>k. st_lookup t' k \<noteq> None \<longleftrightarrow> st_lookup t k \<noteq> None \<or> (\<exists>x \<in> set (drop 0 (elems h b)). EQUAL (objhash eql_m hash_m) x k)"
    by blast
  have "ary_make_hash (objhash eql_m hash_m) h a (Some b) = Inr t'"
    using t(1) t'(1) a b ok_elems_length [OF ok b]
    by (auto simp: ary_make_hash_def with_ary_def bindR_def split: sum.splits)
  then show ?thesis using t' t(5) by auto
qed

lemma rb_ary_and_ok:
  assumes ok: "heap_ok h" and a: "arys h a = Some ra" and b: "arys h b = Some rb"
    and small: "length (elems h a) < 2 ^ 40" "length (elems h b) < 2 ^ 31"
  shows "creates h (rb_ary_and (objhash eql_m hash_m) h a b)
           (keep_once (EQUAL (objhash eql_m hash_m)) (\<lambda>k. \<exists>x \<in> set (elems h b). EQUAL (objhash eql_m hash_m) x k) (elems h a))"
proof -
  note len = ok_elems_length [OF ok a] ok_elems_length [OF ok b]
  let ?m = "min (length (elems h a)) (length (elems h b))"
  have m: "(if ary_len ra < ary_len rb then ary_len ra else ary_len rb) = int ?m" using len by simp
  have "creates h (ary_new h (int ?m)) []" using small by (intro ary_new_creates [OF ok]) simp
  then obtain h1 c where 1: "ary_new h (int ?m) = Inr (h1, c)" "heap_ok h1" "extends h h1" "arys h c = None" "modifiable h1 c" "elems h1 c = []"
    by (auto simp: creates_def)
  obtain ra1 rb1 where rs: "arys h1 a = Some ra1" "elems h1 a = elems h a" "arys h1 b = Some rb1" "elems h1 b = elems h b"
    using extends_elems [OF 1(3) a] extends_elems [OF 1(3) b] by blast
  have ac: "a \<noteq> c" using 1(4) a by auto
  obtain t where t: "ary_make_hash (objhash eql_m hash_m) h1 b None = Inr t" "st_inv t" "st_type t = objhash eql_m hash_m"
    "\<forall>k. st_lookup t k \<noteq> None \<longleftrightarrow> (\<exists>x \<in> set (elems h b). EQUAL (objhash eql_m hash_m) x k)"
    using ary_make_hash_one [OF 1(2) rs(3)] small(2) unfolding rs(4) by blast
  from pick_loop_ok [OF 1(2,5) frame_refl 1(2) rs(1) ac t(2,3) le0] small(1) 1(6) t(4)
  obtain h2 t2 where 2: "pick_loop h1 t a c 0 (int (length (elems h a))) = Inr (h2, t2)" "heap_ok h2" "frame c h1 h2" "modifiable h2 c"
    "elems h2 c = keep_once (EQUAL (objhash eql_m hash_m)) (\<lambda>k. \<exists>x \<in> set (elems h b). EQUAL (objhash eql_m hash_m) x k) (elems h a)"
    unfolding rs(2) by auto
  have "rb_ary_and (objhash eql_m hash_m) h a b = Inr (h2, c)"
    unfolding rb_ary_and_def with_ary_def a b option.case m rb_ary_new2_def
    using 1(1) t(1) 2(1) len by simp
  then show ?thesis using 2 1(4) frame_extends [OF 2(3) 1(3,4)] by (auto simp: creates_def)
qed

lemma same_trans: "EQUAL (objhash eql_m hash_m) x y \<Longrightarrow> EQUAL (objhash eql_m hash_m) y z \<Longrightarrow> EQUAL (objhash eql_m hash_m) x z"
  by (rule keys.equal_trans)

lemma rb_ary_or_ok:
  assumes ok: "heap_ok h" and a: "arys h a = Some ra" and b: "arys h b = Some rb"
    and small: "length (elems h a) + length (elems h b) < 2 ^ 31"
  shows "creates h (rb_ary_or (objhash eql_m hash_m) h a b)
           (keep_once (EQUAL (objhash eql_m hash_m)) (\<lambda>_. True) (elems h a @ elems h b))"
proof -
  let ?eq = "EQUAL (objhash eql_m hash_m)" and ?xs = "elems h a" and ?ys = "elems h b"
  note len = ok_elems_length [OF ok a] ok_elems_length [OF ok b]
  have m: "int64 (ary_len ra + ary_len rb) = int (length ?xs + length ?ys)" using len small by simp
  have "creates h (ary_new h (int (length ?xs + length ?ys))) []" using small by (intro ary_new_creates [OF ok]) simp
  then obtain h1 c where 1: "ary_new h (int (length ?xs + length ?ys)) = Inr (h1, c)" "heap_ok h1" "extends h h1" "arys h c = None"
    "modifiable h1 c" "elems h1 c = []"
    by (auto simp: creates_def)
  obtain ra1 rb1 where rs: "arys h1 a = Some ra1" "elems h1 a = ?xs" "arys h1 b = Some rb1" "elems h1 b = ?ys"
    using extends_elems [OF 1(3) a] extends_elems [OF 1(3) b] by blast
  have ne: "a \<noteq> c" "b \<noteq> c" using 1(4) a b by auto
  obtain t where t: "ary_make_hash (objhash eql_m hash_m) h1 a (Some b) = Inr t" "st_inv t" "st_type t = objhash eql_m hash_m"
    "\<forall>k. st_lookup t k \<noteq> None \<longleftrightarrow> (\<exists>x \<in> set ?xs \<union> set ?ys. ?eq x k)"
    using ary_make_hash_two [OF 1(2) rs(1,3)] small unfolding rs(2,4) by blast
  let ?S = "\<lambda>k. st_lookup t k \<noteq> None"
  from pick_loop_ok [OF 1(2,5) frame_refl 1(2) rs(1) ne(1) t(2,3) le0] small 1(6)
  obtain h2 t2 where 2: "pick_loop h1 t a c 0 (int (length ?xs)) = Inr (h2, t2)" "heap_ok h2" "frame c h1 h2" "modifiable h2 c"
    "elems h2 c = keep_once ?eq ?S ?xs" "st_inv t2" "st_type t2 = objhash eql_m hash_m"
    "\<forall>k. st_lookup t2 k = (if \<exists>x \<in> set ?xs. ?eq x k then None else st_lookup t k)"
    unfolding rs(2) by auto
  have "length (elems h2 c) + (length (elems h1 b) - 0) < 2 ^ 40"
    unfolding 2(5) rs(4) using keep_once_length [of ?eq ?S ?xs] small by simp
  from pick_loop_ok [OF 2(2,4,3) 1(2) rs(3) ne(2) 2(6,7) le0 this]
  obtain h3 t3 where 3: "pick_loop h2 t2 b c 0 (int (length ?ys)) = Inr (h3, t3)" "heap_ok h3" "frame c h1 h3" "modifiable h3 c"
    "elems h3 c = keep_once ?eq ?S ?xs @ keep_once ?eq (\<lambda>k. st_lookup t2 k \<noteq> None) ?ys"
    unfolding rs(4) 2(5) by auto
  have mem: "?S x" if "x \<in> set ?xs \<union> set ?ys" for x using t(4) that keys.dict.same_refl by blast
  have "(\<lambda>k. st_lookup t2 k \<noteq> None) = (\<lambda>y. ?S y \<and> \<not> (\<exists>x \<in> set ?xs. ?S x \<and> ?eq x y))"
    using 2(8) mem by (auto simp: fun_eq_iff)
  then have "elems h3 c = keep_once ?eq ?S (?xs @ ?ys)"
    using 3(5) keep_once_append [of ?eq ?S ?xs ?ys, OF same_trans] by (simp only:)
  also have "\<dots> = keep_once ?eq (\<lambda>_. True) (?xs @ ?ys)" by (rule keep_once_cong) (use mem in auto)
  finally have "elems h3 c = keep_once ?eq (\<lambda>_. True) (?xs @ ?ys)" .
  moreover have "rb_ary_or (objhash eql_m hash_m) h a b = Inr (h3, c)"
    unfolding rb_ary_or_def with_ary_def a b option.case m rb_ary_new2_def
    using 1(1) t(1) 2(1) 3(1) len by simp
  ultimately show ?thesis using 3 1(4) frame_extends [OF 3(3) 1(3,4)] by (auto simp: creates_def)
qed

lemma uniq_loop_ok:
  assumes "owned h a n c" "frame a h0 h" "st_inv t" "st_type t = objhash eql_m hash_m" "q \<le> p" "p \<le> n"
    and ks: "ks = keep_once (EQUAL (objhash eql_m hash_m)) (\<lambda>k. st_lookup t k \<noteq> None) (drop p (take n c))"
  shows "\<exists>h' c'. uniq_loop h t a (int p) (int q) (int n) = Inr (h', int (q + length ks)) \<and>
           owned h' a n c' \<and> frame a h0 h' \<and> length c' = length c \<and> take (q + length ks) c' = take q c @ ks"
  using assms
proof (induction "n - p" arbitrary: p q h c t ks)
  case 0
  then show ?case by (auto simp: uniq_loop.simps)
next
  case (Suc d)
  note o = Suc.prems(1)
  have n: "n \<le> length c" using o by (simp add: owned_def)
  have p: "p < n" "p < length c" "d = n - Suc p" "Suc p \<le> n" using Suc.hyps(2) n by auto
  let ?v = "c ! p" and ?d = "st_delete t (c ! p)"
  have v: "cell h a (int p) = Inr ?v" by (rule owned_cell [OF o p(2)])
  have dr: "drop p (take n c) = ?v # drop (Suc p) (take n c)" using p by (simp add: Cons_nth_drop_Suc [symmetric])
  have d: "st_inv (del_table ?d)" "st_type (del_table ?d) = objhash eql_m hash_m" "del_ret ?d = (if st_lookup t ?v = None then 0 else 1)"
    "\<forall>k. st_lookup (del_table ?d) k = (if EQUAL (objhash eql_m hash_m) ?v k then None else st_lookup t k)"
    using keys.dict.del_wf [of t ?v] keys.dict.del_get [of t ?v] keys.dict.del_ret [of t ?v] Suc.prems(3,4) by auto
  have S: "(\<lambda>k. st_lookup (del_table ?d) k \<noteq> None) = (if st_lookup t ?v \<noteq> None then (\<lambda>k. st_lookup t k \<noteq> None \<and> \<not> EQUAL (objhash eql_m hash_m) ?v k)
      else (\<lambda>k. st_lookup t k \<noteq> None))"
    using d(4) same_lookup [OF Suc.prems(3,4), of ?v] by (cases "st_lookup t ?v") (auto simp: fun_eq_iff)
  show ?case
  proof (cases "st_lookup t ?v = None")
    case True
    then have "ks = keep_once (EQUAL (objhash eql_m hash_m)) (\<lambda>k. st_lookup (del_table ?d) k \<noteq> None) (drop (Suc p) (take n c))"
      unfolding Suc.prems(7) dr S by simp
    from Suc.hyps(1) [OF p(3) Suc.prems(1,2) d(1,2) _ p(4) this] show ?thesis
      using Suc.prems(5) p True v d(3) by (subst uniq_loop.simps) (simp add: add.commute)
  next
    case False
    let ?c = "c[q := ?v]"
    have q: "q < length c" using Suc.prems(5) p by simp
    obtain h1 where 1: "write_at h a (int q) [?v] = Inr h1" "owned h1 a n ?c" "frame a h0 h1"
      using owned_write1 [OF Suc.prems(1,2) q] by blast
    have same: "drop (Suc p) (take n ?c) = drop (Suc p) (take n c)" using Suc.prems(5) by (simp add: drop_take)
    let ?ks = "keep_once (EQUAL (objhash eql_m hash_m)) (\<lambda>k. st_lookup (del_table ?d) k \<noteq> None) (drop (Suc p) (take n ?c))"
    have ks: "ks = ?v # ?ks" unfolding Suc.prems(7) dr S same using False by simp
    have t: "take (Suc q) ?c = take q c @ [?v]" using q by (simp add: take_Suc_conv_app_nth)
    have sq: "Suc q \<le> Suc p" using Suc.prems(5) by simp
    from Suc.hyps(1) [OF p(3) 1(2,3) d(1,2) sq p(4) refl] obtain h' c' where
      2: "uniq_loop h1 (del_table ?d) a (int (Suc p)) (int (Suc q)) (int n) = Inr (h', int (Suc q + length ?ks))"
      "owned h' a n c'" "frame a h0 h'" "length c' = length ?c" "take (Suc q + length ?ks) c' = take (Suc q) ?c @ ?ks" by blast
    have "del_ret ?d = 1" using d(3) False by simp
    then have "uniq_loop h t a (int p) (int q) (int n) = uniq_loop h1 (del_table ?d) a (int (Suc p)) (int (Suc q)) (int n)"
      using v p(1) 1(1) by (subst uniq_loop.simps) (simp add: add.commute)
    then show ?thesis using 2 t unfolding ks by auto
  qed
qed

lemma rb_ary_uniq_bang_ok:
  assumes ok: "heap_ok h" and m: "modifiable h a" and small: "length (elems h a) < 2 ^ 31"
    and ks: "ks = keep_once (EQUAL (objhash eql_m hash_m)) (\<lambda>_. True) (elems h a)"
  shows "\<exists>h'. rb_ary_uniq_bang (objhash eql_m hash_m) h a = Inr (h', if ks = elems h a then Qnil else AryRef a) \<and>
           heap_ok h' \<and> elems h' a = ks \<and> frame a h h'"
proof -
  let ?n = "length (elems h a)"
  obtain h1 c where 1: "rb_ary_modify h a = Inr h1" "owned h1 a ?n c" "take ?n c = elems h a" "frame a h h1"
    using rb_ary_modify_owned [OF ok m] small by auto
  obtain r where r: "arys h1 a = Some r" "ary_len r = int ?n" using owned_ary [OF 1(2)] by blast
  have e1: "elems h1 a = elems h a" using owned_elems [OF 1(2)] 1(3) by simp
  obtain t where t: "ary_make_hash (objhash eql_m hash_m) h1 a None = Inr t" "st_inv t" "st_type t = objhash eql_m hash_m"
    "num_entries t = int (length ks)"
    "\<forall>k. st_lookup t k \<noteq> None \<longleftrightarrow> (\<exists>x \<in> set (elems h a). EQUAL (objhash eql_m hash_m) x k)"
    using ary_make_hash_one [OF owned_ok [OF 1(2)] r(1)] small unfolding e1 ks by blast
  have kk: "ks = keep_once (EQUAL (objhash eql_m hash_m)) (\<lambda>k. st_lookup t k \<noteq> None) (drop 0 (take ?n c))"
    unfolding ks 1(3) drop_0 by (rule keep_once_cong) (use t(5) keys.dict.same_refl in blast)
  show ?thesis
  proof (cases "length ks = ?n")
    case True
    then have "ks = elems h a" using keep_once_full ks by metis
    then show ?thesis
      using 1 r t(1,4) owned_ok [OF 1(2)] e1 by (simp add: rb_ary_uniq_bang_def with_ary_def)
  next
    case False
    from uniq_loop_ok [OF 1(2,4) t(2,3) le0 le0 kk] obtain h2 c2 where
      2: "uniq_loop h1 t a 0 0 (int ?n) = Inr (h2, int (length ks))" "owned h2 a ?n c2" "frame a h h2" "length c2 = length c"
        "take (length ks) c2 = ks" by auto
    have le: "length ks \<le> length c2"
      using keep_once_length [of "EQUAL (objhash eql_m hash_m)" "\<lambda>_. True" "elems h a"] ks 2(2) by (simp add: owned_def)
    note o3 = set_len_owned [OF 2(2,3) refl le]
    have "rb_ary_uniq_bang (objhash eql_m hash_m) h a = Inr (set_len h2 a (int (length ks)), AryRef a)"
      using 1(1) r t(1,4) 2(1) False by (simp add: rb_ary_uniq_bang_def with_ary_def)
    moreover have "ks \<noteq> elems h a" using False by auto
    ultimately show ?thesis using o3 owned_ok [OF o3(1)] owned_elems [OF o3(1)] 2(5) by simp
  qed
qed

end

end
