(* ===== verification/Array_Props.thy ===== *)
theory Array_Props
  imports Array_Sets
begin

text \<open>
  The properties of the arrays: what the operations make of the elements, that they touch no other array
  even when buffers are shared, the use of an array as a double-ended queue over any sequence of
  operations, and the calls whose index arithmetic overflows.
\<close>

section \<open>Two arrays to try things on\<close>

text \<open>Array 0 holds three objects; array 2 is frozen and holds one.\<close>

definition ex_heap :: "nat heap" where
  "ex_heap =
     \<lparr>arys = [0 \<mapsto> \<lparr>ary_len = 3, ary_ptr = Some (1, 0), ary_aux = Capa 3, frozen = False, tmplock = False, tainted = False\<rparr>,
              2 \<mapsto> \<lparr>ary_len = 1, ary_ptr = Some (3, 0), ary_aux = Capa 1, frozen = True, tmplock = False, tainted = False\<rparr>],
      roots = Map.empty, bufs = [1 \<mapsto> [Obj 10, Qnil, Obj 12], 3 \<mapsto> [Obj 10]],
      fresh = 4, junk = Qnil, safe_level = 0\<rparr>"

lemma ex_heap_ok: "heap_ok ex_heap"
  by (auto simp: heap_ok_def ex_heap_def ary_ok_def exclusive_def buf_of_def split: if_splits)

lemma ex_heap_elems [simp]: "elems ex_heap 0 = [Obj 10, Qnil, Obj 12]" "elems ex_heap 2 = [Obj 10]"
  by (simp_all add: elems_def ex_heap_def)

lemma ex_heap_modifiable: "modifiable ex_heap 0"
  by (simp add: modifiable_def ex_heap_def)

lemma ex_heap_ary: "\<exists>r. arys ex_heap 0 = Some r" "\<exists>r. arys ex_heap 2 = Some r"
  by (simp_all add: ex_heap_def)

section \<open>Stores\<close>

lemma modify_check_error:
  "arys h a = Some r \<Longrightarrow> \<not> modifiable h a \<Longrightarrow>
   rb_ary_modify_check h a = Inl (if frozen r then FrozenError else if tmplock r then TypeError else SecurityError)"
  by (auto simp: rb_ary_modify_check_def with_ary_def modifiable_def)

text \<open>
  C23. \<^verbatim>\<open>a[idx] = v\<close> (\<^verbatim>\<open>rb_ary_store\<close>) on every branch: an array that is frozen, locked by a sort or protected
  by the safe level is refused with its error; an index before the start of the array is an IndexError;
  otherwise the element is replaced, or the array grows, with nil in the gap, and no other array changes.
\<close>

theorem rb_ary_store_every_branch:
  assumes "heap_ok h" "arys h a = Some r" "length (elems h a) < 2 ^ 40" "idx < 2 ^ 40"
  shows "rb_ary_store h a idx v =
           Inl (if frozen r then FrozenError else if tmplock r then TypeError else SecurityError) \<and> \<not> modifiable h a \<or>
         rb_ary_store h a idx v = Inl IndexError \<and> modifiable h a \<and> idx + int (length (elems h a)) < 0 \<or>
         modifiable h a \<and> idx + int (length (elems h a)) \<ge> 0 \<and>
         (\<exists>h'. rb_ary_store h a idx v = Inr h' \<and> heap_ok h' \<and> frame a h h' \<and>
            elems h' a = store_list (elems h a) (nat (if idx < 0 then idx + int (length (elems h a)) else idx)) v)"
proof (cases "modifiable h a")
  case False
  then show ?thesis
    using modify_check_error [OF assms(2)] by (auto simp: rb_ary_store_def rb_ary_modify_def)
next
  case True
  show ?thesis
  proof (cases "idx + int (length (elems h a)) < 0")
    case neg: True
    obtain h1 c where 1: "rb_ary_modify h a = Inr h1" "owned h1 a (length (elems h a)) c"
      using rb_ary_modify_owned [OF assms(1) True] assms(3) by auto
    then have "rb_ary_store h a idx v = Inl IndexError"
      using neg owned_ary [OF 1(2)] by (auto simp: rb_ary_store_def with_ary_def Let_def)
    then show ?thesis using True neg by blast
  next
    case False
    then have "(if idx < 0 then idx + int (length (elems h a)) else idx) =
        int (nat (if idx < 0 then idx + int (length (elems h a)) else idx))" by simp
    from makes_yields [OF rb_ary_store_makes [OF assms(1) True assms(3,4) this, of v]] show ?thesis
      using True False unfolding yields_def by fastforce
  qed
qed

theorem rb_ary_store_witness:
  "rb_ary_store ex_heap 2 0 Qnil = Inl FrozenError \<and> rb_ary_store ex_heap 0 (-4) Qnil = Inl IndexError \<and>
   (\<exists>h'. rb_ary_store ex_heap 0 4 (Obj 7) = Inr h' \<and> elems h' 0 = [Obj 10, Qnil, Obj 12, Qnil, Obj 7] \<and> elems h' 2 = [Obj 10])"
proof -
  have f: "\<not> modifiable ex_heap 2" by (simp add: modifiable_def ex_heap_def)
  obtain r0 r2 where r: "arys ex_heap 0 = Some r0" "arys ex_heap 2 = Some r2" "frozen r2" by (simp add: ex_heap_def)
  have 4: "store_list [Obj 10, Qnil, Obj 12] 4 (Obj 7) = [Obj 10, Qnil, Obj 12, Qnil, Obj (7::nat)]"
    by (simp add: store_list_def)
  show ?thesis
    using rb_ary_store_every_branch [OF ex_heap_ok r(2), of 0 Qnil] rb_ary_store_every_branch [OF ex_heap_ok r(1), of "-4" Qnil]
      rb_ary_store_every_branch [OF ex_heap_ok r(1), of 4 "Obj 7"] f r(3) ex_heap_modifiable frame_elems [of 0 ex_heap _ 2 r2] r(2) 4
    by auto
qed

section \<open>A double-ended queue\<close>

datatype 'v dop = Push 'v | Pop | Shift | Unshift 'v

fun deque_step :: "'v \<Rightarrow> 'v dop \<Rightarrow> 'v list \<Rightarrow> 'v list \<times> 'v list" where
  "deque_step nil (Push v) xs = (xs @ [v], [])"
| "deque_step nil Pop xs = (butlast xs, [if xs = [] then nil else last xs])"
| "deque_step nil Shift xs = (tl xs, [if xs = [] then nil else hd xs])"
| "deque_step nil (Unshift v) xs = (v # xs, [])"

fun deque_run :: "'v \<Rightarrow> 'v dop list \<Rightarrow> 'v list \<Rightarrow> 'v list \<times> 'v list" where
  "deque_run nil [] xs = (xs, [])"
| "deque_run nil (op # ops) xs =
     (let (ys, out) = deque_step nil op xs; (zs, out') = deque_run nil ops ys in (zs, out @ out'))"

fun run_ops :: "('s \<Rightarrow> 'v dop \<Rightarrow> rb_error + 's \<times> 'v list) \<Rightarrow> 's \<Rightarrow> 'v dop list \<Rightarrow> rb_error + 's \<times> 'v list" where
  "run_ops step s [] = Inr (s, [])"
| "run_ops step s (op # ops) =
     bindR (step s op) (\<lambda>(s, out). bindR (run_ops step s ops) (\<lambda>(s, out'). Inr (s, out @ out')))"

text \<open>The methods \<^verbatim>\<open>push\<close>, \<^verbatim>\<open>pop\<close>, \<^verbatim>\<open>shift\<close> and \<^verbatim>\<open>unshift\<close> as one step function.\<close>

fun ary_op :: "nat \<Rightarrow> 'o heap \<Rightarrow> 'o rval dop \<Rightarrow> rb_error + 'o heap \<times> 'o rval list" where
  "ary_op a h (Push v) = bindR (rb_ary_push_m h [v] a) (\<lambda>h. Inr (h, []))"
| "ary_op a h Pop = bindR (rb_ary_pop h a) (\<lambda>(h, v). Inr (h, [v]))"
| "ary_op a h Shift = bindR (rb_ary_shift h a) (\<lambda>(h, v). Inr (h, [v]))"
| "ary_op a h (Unshift v) = bindR (rb_ary_unshift_m h [v] a) (\<lambda>h. Inr (h, []))"

locale bounded_deque =
  fixes inv :: "'s \<Rightarrow> bool" and abs :: "'s \<Rightarrow> 'v list" and nil :: 'v and bound :: nat
    and step :: "'s \<Rightarrow> 'v dop \<Rightarrow> rb_error + 's \<times> 'v list"
  assumes step_refines: "inv s \<Longrightarrow> length (abs s) < bound \<Longrightarrow>
    \<exists>s'. step s op = Inr (s', snd (deque_step nil op (abs s))) \<and> inv s' \<and> abs s' = fst (deque_step nil op (abs s))"
begin

lemma step_length: "length (fst (deque_step nil op xs)) \<le> Suc (length xs)"
  by (cases op) auto

lemma run_refines:
  "inv s \<Longrightarrow> length (abs s) + length ops \<le> bound \<Longrightarrow>
   \<exists>s'. run_ops step s ops = Inr (s', snd (deque_run nil ops (abs s))) \<and> inv s' \<and> abs s' = fst (deque_run nil ops (abs s))"
proof (induction ops arbitrary: s)
  case (Cons op ops)
  have "length (abs s) < bound" using Cons.prems by simp
  from step_refines [OF Cons.prems(1) this, of op] obtain s1
    where 1: "step s op = Inr (s1, snd (deque_step nil op (abs s)))" "inv s1" "abs s1 = fst (deque_step nil op (abs s))" by blast
  have "length (abs s1) + length ops \<le> bound" using 1(3) step_length [of op "abs s"] Cons.prems(2) by simp
  from Cons.IH [OF 1(2) this] 1 show ?case by (auto simp: Let_def split: prod.splits)
qed simp

end

interpretation ary_deque: bounded_deque "\<lambda>h. heap_ok h \<and> modifiable h a \<and> frame a h0 h" "\<lambda>h. elems h a" Qnil "2 ^ 40 - 1" "ary_op a"
  for a :: nat and h0 :: "'o heap"
proof
  fix h :: "'o heap" and op :: "'o rval dop"
  assume h: "heap_ok h \<and> modifiable h a \<and> frame a h0 h" and len: "length (elems h a) < 2 ^ 40 - 1"
  have then_ok: "heap_ok h' \<and> modifiable h' a \<and> frame a h0 h'" if "heap_ok h'" "frame a h h'" for h' :: "'o heap"
    using that h frame_modifiable frame_trans by blast
  have l: "length (elems h a) + length [v] \<le> 2 ^ 40" "length (elems h a) + length [v] < 2 ^ 40" "length (elems h a) < 2 ^ 40" for v :: "'o rval"
    using len by simp_all
  show "\<exists>s'. ary_op a h op = Inr (s', snd (deque_step Qnil op (elems h a))) \<and> (heap_ok s' \<and> modifiable s' a \<and> frame a h0 s') \<and>
             elems s' a = fst (deque_step Qnil op (elems h a))"
  proof (cases op)
    case (Push v)
    then show ?thesis
      using push_loop_yields [of h a "[v]"] l(1) h then_ok by (fastforce simp: yields_def rb_ary_push_m_def)
  next
    case Pop
    then show ?thesis using rb_ary_pop_ok [of h a] l(3) h then_ok by fastforce
  next
    case Shift
    then show ?thesis using rb_ary_shift_ok [of h a] h then_ok by fastforce
  next
    case (Unshift v)
    have "yields a h (rb_ary_unshift_m h [v] a) ([v] @ elems h a)"
      using rb_ary_unshift_m_makes [of h a "[v]"] l(2) h makes_yields by blast
    then show ?thesis using Unshift then_ok by (fastforce simp: yields_def)
  qed
qed

text \<open>
  C2. Any sequence of \<^verbatim>\<open>push\<close>, \<^verbatim>\<open>pop\<close>, \<^verbatim>\<open>shift\<close> and \<^verbatim>\<open>unshift\<close> on an array that may be modified returns what a
  double-ended queue returns and leaves the elements of that queue, through all reallocations, shared
  buffers (a shift makes the array shared) and copies on write; the invariant of the heap is kept and
  no other array changes.
\<close>

theorem array_refines_deque:
  assumes "heap_ok h" "modifiable h a" "length (elems h a) + length ops \<le> 2 ^ 40 - 1"
  shows "\<exists>h'. run_ops (ary_op a) h ops = Inr (h', snd (deque_run Qnil ops (elems h a))) \<and> heap_ok h' \<and>
           elems h' a = fst (deque_run Qnil ops (elems h a)) \<and> frame a h h'"
  using ary_deque.run_refines [where ?h0.0 = h and a = a and s = h and ops = ops] assms by auto

theorem array_refines_deque_witness:
  "\<exists>h'. run_ops (ary_op 0) ex_heap [Shift, Push (Obj 1), Shift, Unshift (Obj 2), Pop, Pop, Pop, Pop] =
     Inr (h', [Obj 10, Qnil, Obj 1, Obj 12, Obj 2, Qnil]) \<and> heap_ok h' \<and> elems h' 0 = []"
  using array_refines_deque [OF ex_heap_ok ex_heap_modifiable, of "[Shift, Push (Obj 1), Shift, Unshift (Obj 2), Pop, Pop, Pop, Pop]"]
  by auto

section \<open>Slices and splices\<close>

text \<open>
  C11. A slice \<^verbatim>\<open>a[i, l]\<close> is a new array with the elements of the slice, although it shares the buffer of \<^verbatim>\<open>a\<close>;
  a store into it afterwards changes the slice and leaves \<^verbatim>\<open>a\<close> and every other array as it was.
\<close>

theorem rb_ary_subseq_isolated:
  assumes "heap_ok h" "arys h a = Some r" "i \<le> length (elems h a)" "int i + int l < 2 ^ 63"
    "length (elems h a) < 2 ^ 40" "j < l" "i + j < length (elems h a)"
  shows "\<exists>h1 b h2. rb_ary_subseq h a (int i) (int l) = Inr (h1, AryRef b) \<and> arys h b = None \<and>
           elems h1 b = take l (drop i (elems h a)) \<and> rb_ary_store h1 b (int j) v = Inr h2 \<and> heap_ok h2 \<and>
           elems h2 b = (take l (drop i (elems h a)))[j := v] \<and>
           (\<forall>x. arys h x \<noteq> None \<longrightarrow> view h2 x = view h x)"
proof -
  obtain h1 b where 1: "rb_ary_subseq h a (int i) (int l) = Inr (h1, AryRef b)" "heap_ok h1" "extends h h1" "arys h b = None"
    "modifiable h1 b" "elems h1 b = take l (drop i (elems h a))"
    using rb_ary_subseq_creates [OF assms(1-4)] by blast
  have s: "length (elems h1 b) < 2 ^ 40" "int j < 2 ^ 40" "j < length (elems h1 b)" using 1(6) assms(5-7) by auto
  have "yields b h1 (rb_ary_store h1 b (int j) v) (store_list (elems h1 b) j v)"
    using s by (intro makes_yields rb_ary_store_makes [OF 1(2,5)]) auto
  then obtain h2 where 2: "rb_ary_store h1 b (int j) v = Inr h2" "heap_ok h2" "elems h2 b = store_list (elems h1 b) j v" "frame b h1 h2"
    by (auto simp: yields_def)
  have "extends h h2" by (rule frame_extends [OF 2(4) 1(3,4)])
  then show ?thesis using 1 2 s(3) by (auto simp: extends_def store_list_def)
qed

theorem rb_ary_subseq_isolated_witness:
  "\<exists>h1 b h2. rb_ary_subseq ex_heap 0 1 2 = Inr (h1, AryRef b) \<and> rb_ary_store h1 b 0 (Obj 5) = Inr h2 \<and>
     elems h2 b = [Obj 5, Obj 12] \<and> elems h2 0 = [Obj 10, Qnil, Obj 12]"
proof -
  obtain r where r: "arys ex_heap 0 = Some r" using ex_heap_ary by blast
  have v: "elems h 0 = elems ex_heap 0" if "view h 0 = view ex_heap 0" for h :: "nat heap"
    using that r by (auto simp: view_def)
  show ?thesis
    using rb_ary_subseq_isolated [OF ex_heap_ok r, of 1 2 0 "Obj 5"] v r by fastforce
qed

text \<open>
  C24. \<^verbatim>\<open>a[i, l] = v\<close> (\<^verbatim>\<open>rb_ary_update\<close>) replaces the elements from \<^verbatim>\<open>i\<close> on, \<^verbatim>\<open>l\<close> of them or as many as there are, by the
  elements of \<^verbatim>\<open>v\<close> (none for nil, those of an array, or the single value), moving the rest and padding with
  nil when \<^verbatim>\<open>i\<close> lies past the end; a negative length is an IndexError; other arrays, \<^verbatim>\<open>v\<close> among them, stay.
\<close>

theorem rb_ary_update_splices:
  assumes "heap_ok h" "modifiable h a" "valid_value h v" "v \<noteq> AryRef a"
    "length (elems h a) + length (to_ary_list h v) < 2 ^ 43" "i < 2 ^ 43" "int i + int l < 2 ^ 63"
  shows "(\<exists>h'. rb_ary_update h a (int i) (int l) v = Inr h' \<and> heap_ok h' \<and> frame a h h' \<and>
           elems h' a =
             (if length (elems h a) \<le> i
              then elems h a @ replicate (i - length (elems h a)) Qnil @ to_ary_list h v
              else take i (elems h a) @ to_ary_list h v @ drop (i + l) (elems h a))) \<and>
         rb_ary_update h a (int i) (- 1 - int l) v = Inl IndexError"
proof -
  have "yields a h (rb_ary_update h a (int i) (int l) v) (update_list (elems h a) i l (to_ary_list h v))"
    using assms by (intro makes_yields rb_ary_update_makes) auto
  moreover have "rb_ary_update h a (int i) (- 1 - int l) v = Inl IndexError"
  proof -
    obtain r where r: "arys h a = Some r" using modifiable_ary [OF assms(2)] by blast
    obtain h1 b rb where 1: "rb_ary_to_ary h v = Inr (h1, b)" "extends h h1" "arys h1 b = Some rb"
      using rb_ary_to_ary_ok [OF assms(1,3)] by blast
    obtain r1 where "arys h1 a = Some r1" using extends_elems [OF 1(2) r] by blast
    then show ?thesis using 1 by (simp add: rb_ary_update_def with_ary_def)
  qed
  ultimately show ?thesis by (auto simp: yields_def update_list_def)
qed

theorem rb_ary_update_splices_witness:
  "(\<exists>h'. rb_ary_update ex_heap 0 1 1 (AryRef 2) = Inr h' \<and> elems h' 0 = [Obj 10, Obj 10, Obj 12] \<and> elems h' 2 = [Obj 10]) \<and>
   rb_ary_update ex_heap 0 1 (-2) (AryRef 2) = Inl IndexError"
proof -
  have v: "valid_value ex_heap (AryRef 2)" "to_ary_list ex_heap (AryRef 2) = [Obj 10]"
    by (simp_all add: valid_value_def to_ary_list_def ex_heap_def elems_def)
  obtain r where "arys ex_heap 2 = Some r" using ex_heap_ary by blast
  then show ?thesis
    using rb_ary_update_splices [OF ex_heap_ok ex_heap_modifiable v(1), of 1 1] v(2) frame_elems [of 0 ex_heap _ 2 r] by auto
qed

section \<open>Filters\<close>

text \<open>
  C26. \<^verbatim>\<open>delete\<close>, \<^verbatim>\<open>reject!\<close> and \<^verbatim>\<open>compact!\<close>, which move the remaining elements within the buffer and may shrink it,
  leave exactly the elements that do not match, in order, return the item or the array when something was
  removed and nil otherwise, and change no other array.
\<close>

theorem array_filters_in_place:
  assumes "heap_ok h" "modifiable h a" "length (elems h a) < 2 ^ 40"
  shows "(\<exists>h'. rb_ary_delete eq h a item = Inr (h', if \<exists>x \<in> set (elems h a). eq x item then item else Qnil) \<and>
            heap_ok h' \<and> elems h' a = filter (\<lambda>x. \<not> eq x item) (elems h a) \<and> frame a h h') \<and>
         (\<exists>h'. rb_ary_reject_bang p h a = Inr (h', if \<exists>x \<in> set (elems h a). p x then AryRef a else Qnil) \<and>
            heap_ok h' \<and> elems h' a = filter (\<lambda>x. \<not> p x) (elems h a) \<and> frame a h h') \<and>
         (\<exists>h'. rb_ary_compact_bang h a = Inr (h', if Qnil \<in> set (elems h a) then AryRef a else Qnil) \<and>
            heap_ok h' \<and> elems h' a = filter (\<lambda>x. x \<noteq> Qnil) (elems h a) \<and> frame a h h')"
  using rb_ary_delete_ok [OF assms] rb_ary_reject_bang_ok [OF assms(1,2)] rb_ary_compact_bang_ok [OF assms(1,2)] assms(3)
  by auto

theorem array_filters_in_place_witness:
  "\<exists>h'. rb_ary_compact_bang ex_heap 0 = Inr (h', AryRef 0) \<and> elems h' 0 = [Obj 10, Obj 12]"
  using array_filters_in_place [OF ex_heap_ok ex_heap_modifiable, of "(=)" Qnil "\<lambda>_. False"] by auto

text \<open>
  \<^verbatim>\<open>reverse!\<close>, which swaps the ends in place, reverses the elements; done twice it restores them.
\<close>

theorem rb_ary_reverse_involution:
  assumes "heap_ok h" "modifiable h a" "length (elems h a) < 2 ^ 44"
  shows "\<exists>h1 h2. rb_ary_reverse h a = Inr h1 \<and> elems h1 a = rev (elems h a) \<and>
           rb_ary_reverse h1 a = Inr h2 \<and> elems h2 a = elems h a \<and> heap_ok h2 \<and> frame a h h2"
proof -
  obtain h1 where 1: "rb_ary_reverse h a = Inr h1" "heap_ok h1" "elems h1 a = rev (elems h a)" "frame a h h1"
    using makes_yields [OF rb_ary_reverse_makes [OF assms]] by (auto simp: yields_def)
  have "length (elems h1 a) < 2 ^ 44" using 1(3) assms(3) by simp
  from makes_yields [OF rb_ary_reverse_makes [OF 1(2) frame_modifiable [OF 1(4) assms(2)] this]] obtain h2
    where 2: "rb_ary_reverse h1 a = Inr h2" "heap_ok h2" "elems h2 a = elems h a" "frame a h1 h2"
    using 1(3) by (auto simp: yields_def)
  then show ?thesis using 1 frame_trans [OF 1(4) 2(4)] by auto
qed

theorem rb_ary_reverse_involution_witness:
  "\<exists>h1 h2. rb_ary_reverse ex_heap 0 = Inr h1 \<and> elems h1 0 = [Obj 12, Qnil, Obj 10] \<and>
     rb_ary_reverse h1 0 = Inr h2 \<and> elems h2 0 = [Obj 10, Qnil, Obj 12]"
  using rb_ary_reverse_involution [OF ex_heap_ok ex_heap_modifiable] by auto

section \<open>Sets\<close>

text \<open>
  C22. The intersection \<^verbatim>\<open>&\<close>, the union \<^verbatim>\<open>|\<close> and \<^verbatim>\<open>uniq!\<close>, computed by filling a hash table and deleting from it, keep
  one element of every class of equal keys, the first one, in the order of the arrays: of the first
  array those that are in the second, of both arrays in turn, and of the array itself. The arrays have
  fewer than \<^verbatim>\<open>2**31\<close> elements together, so that the counter of the table does not wrap. The methods
  \<^verbatim>\<open>eql?\<close> and \<^verbatim>\<open>hash\<close> of the elements have to agree with each other.
\<close>

theorem array_set_operations:
  assumes "any_hash_laws eql hash" "heap_ok h" "arys h a = Some ra" "modifiable h a" "arys h b = Some rb"
    "length (elems h a) + length (elems h b) < 2 ^ 31"
  shows "creates h (rb_ary_and (objhash eql hash) h a b)
           (keep_once (EQUAL (objhash eql hash)) (\<lambda>k. \<exists>x \<in> set (elems h b). EQUAL (objhash eql hash) x k) (elems h a)) \<and>
         creates h (rb_ary_or (objhash eql hash) h a b)
           (keep_once (EQUAL (objhash eql hash)) (\<lambda>_. True) (elems h a @ elems h b)) \<and>
         (\<exists>h' ret. rb_ary_uniq_bang (objhash eql hash) h a = Inr (h', ret) \<and> heap_ok h' \<and> frame a h h' \<and>
            elems h' a = keep_once (EQUAL (objhash eql hash)) (\<lambda>_. True) (elems h a) \<and>
            ret = (if elems h' a = elems h a then Qnil else AryRef a))"
proof -
  have l: "length (elems h a) < 2 ^ 40" "length (elems h b) < 2 ^ 31" "length (elems h a) < 2 ^ 31" using assms(6) by auto
  obtain h' where "rb_ary_uniq_bang (objhash eql hash) h a =
      Inr (h', if keep_once (EQUAL (objhash eql hash)) (\<lambda>_. True) (elems h a) = elems h a then Qnil else AryRef a)"
    "heap_ok h'" "elems h' a = keep_once (EQUAL (objhash eql hash)) (\<lambda>_. True) (elems h a)" "frame a h h'"
    using any_hash_laws.rb_ary_uniq_bang_ok [OF assms(1,2,4) l(3) refl] by blast
  then show ?thesis
    using any_hash_laws.rb_ary_and_ok [OF assms(1-3,5) l(1,2)] any_hash_laws.rb_ary_or_ok [OF assms(1-3,5,6)] by simp
qed

definition ex_sets :: "prim heap" where
  "ex_sets =
     \<lparr>arys = [0 \<mapsto> \<lparr>ary_len = 3, ary_ptr = Some (1, 0), ary_aux = Capa 3, frozen = False, tmplock = False, tainted = False\<rparr>,
              2 \<mapsto> \<lparr>ary_len = 2, ary_ptr = Some (3, 0), ary_aux = Capa 2, frozen = False, tmplock = False, tainted = False\<rparr>],
      roots = Map.empty, bufs = [1 \<mapsto> [Obj (Fixnum 4), Obj (Str [97]), Obj (Fixnum 4)], 3 \<mapsto> [Obj (Str [97]), Qnil]],
      fresh = 4, junk = Qnil, safe_level = 0\<rparr>"

lemma ex_sets_ok: "heap_ok ex_sets" "modifiable ex_sets 0" "\<exists>r. arys ex_sets 0 = Some r" "\<exists>r. arys ex_sets 2 = Some r"
  by (auto simp: heap_ok_def ex_sets_def ary_ok_def exclusive_def buf_of_def modifiable_def split: if_splits)

lemma ex_sets_elems: "elems ex_sets 0 = [Obj (Fixnum 4), Obj (Str [97]), Obj (Fixnum 4)]" "elems ex_sets 2 = [Obj (Str [97]), Qnil]"
  by (simp_all add: elems_def ex_sets_def)

theorem array_set_operations_witness:
  "creates ex_sets (rb_ary_and (objhash (=) rb_obj_id) ex_sets 0 2) [Obj (Str [97])] \<and>
   creates ex_sets (rb_ary_or (objhash (=) rb_obj_id) ex_sets 0 2) [Obj (Fixnum 4), Obj (Str [97]), Qnil]"
proof -
  obtain r0 r2 where r: "arys ex_sets 0 = Some r0" "arys ex_sets 2 = Some r2" using ex_sets_ok by blast
  have eq: "EQUAL (objhash (=) rb_obj_id) = (=)" using kernel.any_equal_iff by (auto simp: fun_eq_iff)
  show ?thesis
    using array_set_operations [OF kernel.any_hash_laws_axioms ex_sets_ok(1) r(1) ex_sets_ok(2) r(2)]
    unfolding ex_sets_elems eq by simp
qed

text \<open>
  With \<^verbatim>\<open>$=\<close> set, strings that differ in case compare equal while their hashes differ, so tables keyed by
  such strings lose entries; and a byte from 128 on makes the comparison index the case table out of
  bounds.
\<close>

theorem ignorecase_breaks_string_keys:
  "rb_str_cmp True [65] [97] = Inr 0 \<and> rb_str_hash [65] \<noteq> rb_str_hash [97] \<and>
   rb_str_cmp True [200] [97] = Inl OutOfBounds"
  by (simp add: rb_str_cmp_def rb_memcmp_def case_lookup_def casetable_def rb_str_hash_def Let_def)

section \<open>Ranges\<close>

lemma rb_range_beg_len_clip:
  assumes n: "0 \<le> n" "n < 2 ^ 62"
  shows "rb_range_beg_len b e excl n 0 =
    (let beg = (if b < 0 then b + n else b);
         stop = (if e < 0 then e + n else e) + (if excl then 0 else 1)
     in if 0 \<le> beg \<and> beg \<le> n \<and> beg \<le> stop
        then Inr (Some (beg, min stop (n + (if excl then 0 else 1)) - beg)) else Inr None)"
  using n by (auto simp: rb_range_beg_len_def Let_def min_def) (rule ccontr, simp)+

text \<open>
  \<^verbatim>\<open>a[b..e]\<close> and \<^verbatim>\<open>a[b...e]\<close>: bounds counted from either end, any \<^verbatim>\<open>long\<close> value included. The result is nil when
  the start lies outside the array or the range ends before it starts, and else a new array with the
  elements from the start up to the end of the range or of the array.
\<close>

theorem rb_ary_aref_range:
  assumes "heap_ok h" "arys h a = Some r" "length (elems h a) < 2 ^ 40"
    "beg = (if b < 0 then b + int (length (elems h a)) else b)"
    "stop = (if e < 0 then e + int (length (elems h a)) else e) + (if excl then 0 else 1)"
  shows "\<not> (0 \<le> beg \<and> beg \<le> int (length (elems h a)) \<and> beg \<le> stop) \<and> rb_ary_aref h (Rng b e excl) None a = Inr (h, Qnil) \<or>
         0 \<le> beg \<and> beg \<le> int (length (elems h a)) \<and> beg \<le> stop \<and>
         (\<exists>h' x. rb_ary_aref h (Rng b e excl) None a = Inr (h', AryRef x) \<and> heap_ok h' \<and> extends h h' \<and> arys h x = None \<and>
            elems h' x = take (nat (stop - beg)) (drop (nat beg) (elems h a)))"
proof -
  let ?n = "length (elems h a)"
  note len = ok_elems_length [OF assms(1,2)]
  have clip: "rb_range_beg_len b e excl (int ?n) 0 =
      (if 0 \<le> beg \<and> beg \<le> int ?n \<and> beg \<le> stop then Inr (Some (beg, min stop (int ?n + (if excl then 0 else 1)) - beg)) else Inr None)"
    using assms(3) unfolding assms(4,5) Let_def by (subst rb_range_beg_len_clip) (simp_all add: Let_def)
  show ?thesis
  proof (cases "0 \<le> beg \<and> beg \<le> int ?n \<and> beg \<le> stop")
    case False
    then have "rb_range_beg_len b e excl (int ?n) 0 = Inr None" unfolding clip by (rule if_not_P)
    then show ?thesis using False assms(2) len by (simp add: rb_ary_aref_def with_ary_def)
  next
    case True
    define l where "l = nat (min stop (int ?n + (if excl then 0 else 1)) - beg)"
    have l: "min stop (int ?n + (if excl then 0 else 1)) - beg = int l" using True by (simp add: l_def)
    obtain i where i: "beg = int i" "i \<le> ?n" using True by (metis nonneg_int_cases of_nat_le_iff)
    have "int l \<le> int ?n + 1" using l True by (auto simp: min_def split: if_splits)
    then have "int i + int l < 2 ^ 63" using i(2) assms(3) by simp
    from rb_ary_subseq_creates [OF assms(1,2) i(2) this] obtain h' x where
      1: "rb_ary_subseq h a (int i) (int l) = Inr (h', AryRef x)" "heap_ok h'" "extends h h'" "arys h x = None"
      "elems h' x = take l (drop i (elems h a))" by blast
    have "take l (drop i (elems h a)) = take (nat (stop - beg)) (drop i (elems h a))"
    proof (cases "stop \<le> int ?n")
      case True
      then have "l = nat (stop - beg)" using l by (auto simp: min_def split: if_splits)
      then show ?thesis by simp
    next
      case False
      then have "length (drop i (elems h a)) \<le> l" "length (drop i (elems h a)) \<le> nat (stop - beg)"
        using l i by (auto simp: min_def split: if_splits)
      then show ?thesis by simp
    qed
    moreover have "rb_ary_aref h (Rng b e excl) None a = Inr (h', AryRef x)"
      using assms(2) clip len True 1(1) l i(1) by (simp add: rb_ary_aref_def with_ary_def)
    ultimately show ?thesis using True 1 i(1) by auto
  qed
qed

theorem rb_ary_aref_range_witness:
  "\<exists>h' x. rb_ary_aref ex_heap (Rng 1 (-1) False) None 0 = Inr (h', AryRef x) \<and> elems h' x = [Qnil, Obj 12]"
proof -
  obtain r where r: "arys ex_heap 0 = Some r" using ex_heap_ary by blast
  show ?thesis
    using rb_ary_aref_range [OF ex_heap_ok r _ refl refl, of 1 "-1" False] by auto
qed

section \<open>Arithmetic that overflows\<close>

lemmas ary_eval = with_ary_def rb_ary_modify_def rb_ary_modify_check_def elts_shared_def capa_def store_grow_def
  resize_def REALLOC_N_def ALLOC_N_def alloc_cells_def address_space_def int64_def ARY_DEFAULT_SIZE_def upd_ary_def
  set_len_def rb_mem_clear_def write_at_def read_at_def ary_new_def rb_ary_new2_def rb_ary_s_alloc_def new_obj_def Let_def

text \<open>
  Calls whose index arithmetic leaves the range of a \<^verbatim>\<open>long\<close> are not refused: \<^verbatim>\<open>a[2**63-1] = x\<close>,
  \<^verbatim>\<open>a[2**61, 0] = b\<close> and \<^verbatim>\<open>a * 6148914691236517206\<close> write outside the buffer, and \<^verbatim>\<open>a[1, 2**63-1]\<close> returns an array
  that claims 9223372036854775807 elements of a buffer of three.
\<close>

theorem array_index_overflow:
  "rb_ary_store ex_heap 0 (2 ^ 63 - 1) Qnil = Inl OutOfBounds \<and>
   rb_ary_update ex_heap 0 (2 ^ 61) 0 (AryRef 2) = Inl OutOfBounds \<and>
   rb_ary_times ex_heap 0 6148914691236517206 = Inl OutOfBounds \<and>
   (\<exists>h' b r. rb_ary_subseq ex_heap 0 1 (2 ^ 63 - 1) = Inr (h', AryRef b) \<and> arys h' b = Some r \<and>
      ary_len r = 2 ^ 63 - 1 \<and> \<not> heap_ok h')"
proof (intro conjI)
  show "rb_ary_store ex_heap 0 (2 ^ 63 - 1) Qnil = Inl OutOfBounds"
    by (simp add: ary_eval rb_ary_store_def ex_heap_def)
  show "rb_ary_update ex_heap 0 (2 ^ 61) 0 (AryRef 2) = Inl OutOfBounds"
    by (simp add: ary_eval rb_ary_update_def rb_ary_to_ary_def update_past_end_def ex_heap_def)
  show "rb_ary_times ex_heap 0 6148914691236517206 = Inl OutOfBounds"
    by (simp add: ary_eval rb_ary_times_def times_loop.simps ex_heap_def)
  obtain h' b r where 1: "rb_ary_subseq ex_heap 0 1 (2 ^ 63 - 1) = Inr (h', AryRef b)" "arys h' b = Some r"
    "ary_len r = 2 ^ 63 - 1" "bufs h' = bufs ex_heap" "ary_ptr r = Some (1, 1)"
    by (simp add: ary_eval rb_ary_subseq_def ary_make_shared_def ex_heap_def)
  have "\<not> ary_ok h' r" using 1(3-5) by (simp add: ary_ok_def ex_heap_def)
  then have "\<not> heap_ok h'" using heap_ok_ary [OF _ 1(2)] by blast
  then show "\<exists>h' b r. rb_ary_subseq ex_heap 0 1 (2 ^ 63 - 1) = Inr (h', AryRef b) \<and> arys h' b = Some r \<and>
      ary_len r = 2 ^ 63 - 1 \<and> \<not> heap_ok h'" using 1(1-3) by blast
qed

text \<open>
  \<^verbatim>\<open>slice!\<close> removes the slice it returns when the start lies in the array. With a start before the array
  it returns nil and still removes: the start is made relative to the end twice, so that
  \<^verbatim>\<open>[x, nil, y].slice!(-4, 1)\<close> deletes \<^verbatim>\<open>y\<close>.
\<close>

theorem rb_ary_slice_bang_removes:
  assumes "heap_ok h" "modifiable h a" "length (elems h a) < 2 ^ 43" "p \<le> length (elems h a)" "int p + int l < 2 ^ 63"
  shows "(\<exists>h' b. rb_ary_slice_bang h (Idx (int p)) (Some (int l)) a = Inr (h', AryRef b) \<and> heap_ok h' \<and> frame a h h' \<and>
            elems h' a = take p (elems h a) @ drop (p + l) (elems h a) \<and>
            elems h' b = take l (drop p (elems h a)) \<and> arys h b = None) \<and>
         (\<exists>h'. rb_ary_slice_bang ex_heap (Idx (-4)) (Some 1) 0 = Inr (h', Qnil) \<and> elems h' 0 = [Obj 10, Qnil])"
proof
  show "\<exists>h' b. rb_ary_slice_bang h (Idx (int p)) (Some (int l)) a = Inr (h', AryRef b) \<and> heap_ok h' \<and> frame a h h' \<and>
      elems h' a = take p (elems h a) @ drop (p + l) (elems h a) \<and> elems h' b = take l (drop p (elems h a)) \<and> arys h b = None"
    using rb_ary_slice_bang_ok [OF assms] by blast
  show "\<exists>h'. rb_ary_slice_bang ex_heap (Idx (-4)) (Some 1) 0 = Inr (h', Qnil) \<and> elems h' 0 = [Obj 10, Qnil]"
    by (simp add: ary_eval rb_ary_slice_bang_def delete_pos_len_def rb_ary_subseq_def rb_ary_update_def rb_ary_to_ary_def
        update_within_def elems_def ex_heap_def)
qed

theorem rb_ary_slice_bang_removes_witness:
  "\<exists>h' b. rb_ary_slice_bang ex_heap (Idx 0) (Some 2) 0 = Inr (h', AryRef b) \<and> elems h' 0 = [Obj 12] \<and> elems h' b = [Obj 10, Qnil]"
  using rb_ary_slice_bang_removes [OF ex_heap_ok ex_heap_modifiable, of 0 2] by auto

end
