(* ===== verification/Bignum_Base.thy ===== *)
theory Bignum_Base
  imports CRuby_Prelude
begin

text \<open>
  The representation of arbitrary-precision integers in \<^verbatim>\<open>src/ruby/bignum.c\<close>: a sign and an array
  of 32-bit digits, least significant first, and the conversions between it, machine integers and
  the immediate integers (Fixnum) of \<^verbatim>\<open>src/ruby/ruby.h\<close>. The later theories of this component hold
  the arithmetic (\<^verbatim>\<open>Bignum_Arith\<close>), division (\<^verbatim>\<open>Bignum_Div\<close>), the bit operations (\<^verbatim>\<open>Bignum_Bits\<close>)
  and the conversions to and from text (\<^verbatim>\<open>Bignum_Print\<close>, \<^verbatim>\<open>Bignum_Parse\<close>).

  A \<^verbatim>\<open>struct RBignum\<close> keeps a length beside its digit array; the model's digit list is the part of
  the array below that length, since no operation reads beyond it.
\<close>

section \<open>Data\<close>

record rbignum =
  bsign :: bool
  digits :: "u32 list"

text \<open>
  The values the operations take and return. \<^verbatim>\<open>Fixnum\<close> carries the \<^verbatim>\<open>long\<close> that \<^verbatim>\<open>FIX2LONG\<close> reads;
  floats and all other objects are opaque.
\<close>

datatype ('f, 'o) VALUE = Fixnum u64 | Bignum rbignum | Float 'f | Other 'o

definition BITSPERDIG :: nat where
  "BITSPERDIG = 32"

definition BIGUP :: "u64 \<Rightarrow> u64" where
  "BIGUP x = push_bit BITSPERDIG x"

definition BIGDN :: "u64 \<Rightarrow> u64" where
  "BIGDN x = drop_bit BITSPERDIG x"

text \<open>\<^verbatim>\<open>BIGDN\<close> of a \<^verbatim>\<open>BDIGIT_DBL_SIGNED\<close>: \<^verbatim>\<open>RSHIFT\<close> is then the arithmetic shift.\<close>

definition BIGDN_signed :: "u64 \<Rightarrow> u64" where
  "BIGDN_signed x = signed_drop_bit BITSPERDIG x"

definition BIGLO :: "u64 \<Rightarrow> u32" where
  "BIGLO x = ucast (x AND (push_bit BITSPERDIG 1 - 1))"

definition FIXNUM_MAX :: int where
  "FIXNUM_MAX = (2 ^ 63 - 1) div 2"

definition FIXNUM_MIN :: int where
  "FIXNUM_MIN = - (2 ^ 63) div 2"

definition POSFIXABLE :: "int \<Rightarrow> bool" where
  "POSFIXABLE f \<longleftrightarrow> f \<le> FIXNUM_MAX"

definition NEGFIXABLE :: "int \<Rightarrow> bool" where
  "NEGFIXABLE f \<longleftrightarrow> f \<ge> FIXNUM_MIN"

definition FIXABLE :: "int \<Rightarrow> bool" where
  "FIXABLE f \<longleftrightarrow> POSFIXABLE f \<and> NEGFIXABLE f"

text \<open>
  \<^verbatim>\<open>LONG2FIX\<close> shifts the value left to make room for the tag bit, \<^verbatim>\<open>FIX2LONG\<close> shifts it back: the
  \<^verbatim>\<open>long\<close> that is read again lost its top bit.
\<close>

definition LONG2FIX :: "u64 \<Rightarrow> ('f, 'o) VALUE" where
  "LONG2FIX i = Fixnum (signed_drop_bit 1 (push_bit 1 i))"

section \<open>Operations\<close>

definition rb_big_clone :: "rbignum \<Rightarrow> rbignum" where
  "rb_big_clone x = \<lparr>bsign = bsign x, digits = digits x\<rparr>"

text \<open>
  \<^verbatim>\<open>get2comp\<close>: complement every digit, add one with carry, and, when \<^verbatim>\<open>carry\<close> is set, append a digit
  of ones if the top bit came out clear. The \<^verbatim>\<open>do\<close> loop touches digit 0 even of an empty array.
\<close>

fun add1_loop :: "u64 \<Rightarrow> u32 list \<Rightarrow> u32 list" where
  "add1_loop num [] = []"
| "add1_loop num (d # ds) =
     (let num = num + ucast d in BIGLO num # add1_loop (BIGDN num) ds)"

definition get2comp :: "rbignum \<Rightarrow> bool \<Rightarrow> rb_error + rbignum" where
  "get2comp x carry =
     (if digits x = [] then Inl OutOfBounds
      else let ds = add1_loop 1 (map (\<lambda>d. NOT d) (digits x))
           in if carry \<and> last ds AND push_bit (BITSPERDIG - 1) 1 = 0
              then Inr (x\<lparr>digits := ds @ [NOT 0]\<rparr>)
              else Inr (x\<lparr>digits := ds\<rparr>))"

definition rb_big_2comp :: "rbignum \<Rightarrow> rb_error + rbignum" where
  "rb_big_2comp x = get2comp x True"

text \<open>The loop \<^verbatim>\<open>while (len-- && !ds[len])\<close> with the increment after it: drop high zero digits.\<close>

definition strip_zeros :: "u32 list \<Rightarrow> u32 list" where
  "strip_zeros ds = rev (dropWhile (\<lambda>d. d = 0) (rev ds))"

text \<open>The loop \<^verbatim>\<open>while (len--) num = BIGUP(num) + ds[len]\<close>, from the top digit down.\<close>

definition digits_to_dbl :: "u32 list \<Rightarrow> u64" where
  "digits_to_dbl ds = foldl (\<lambda>num d. BIGUP num + ucast d) 0 (rev ds)"

definition bignorm :: "rbignum \<Rightarrow> ('f, 'o) VALUE" where
  "bignorm x =
     (let ds = strip_zeros (digits x); x = x\<lparr>digits := ds\<rparr>
      in if length ds * 4 \<le> 8
         then let num = digits_to_dbl ds
              in if 0 \<le> sint num
                 then if bsign x
                      then if POSFIXABLE (sint num) then LONG2FIX num else Bignum x
                      else if NEGFIXABLE (sint (- num)) then LONG2FIX (- num) else Bignum x
                 else Bignum x
         else Bignum x)"

definition rb_big_norm :: "('f, 'o) VALUE \<Rightarrow> ('f, 'o) VALUE" where
  "rb_big_norm v = (case v of Bignum x \<Rightarrow> bignorm x | _ \<Rightarrow> v)"

fun split_digits :: "nat \<Rightarrow> u64 \<Rightarrow> u32 list" where
  "split_digits 0 num = []"
| "split_digits (Suc n) num = BIGLO num # split_digits n (BIGDN num)"

text \<open>
  \<^verbatim>\<open>rb_uint2big\<close> trims with \<^verbatim>\<open>while (--i && !digits[i])\<close>, which keeps one digit of a zero;
  \<^verbatim>\<open>rb_ull2big\<close> trims with \<^verbatim>\<open>while (i-- && !digits[i])\<close>, which keeps none.
\<close>

definition rb_uint2big :: "u64 \<Rightarrow> rbignum" where
  "rb_uint2big n =
     (let ds = split_digits 2 n
      in \<lparr>bsign = True, digits = hd ds # strip_zeros (tl ds)\<rparr>)"

definition rb_int2big :: "u64 \<Rightarrow> rbignum" where
  "rb_int2big n =
     (if sint n < 0 then (rb_uint2big (- n))\<lparr>bsign := False\<rparr> else rb_uint2big n)"

definition rb_uint2inum :: "u64 \<Rightarrow> ('f, 'o) VALUE" where
  "rb_uint2inum n = (if POSFIXABLE (uint n) then LONG2FIX n else Bignum (rb_uint2big n))"

definition rb_int2inum :: "u64 \<Rightarrow> ('f, 'o) VALUE" where
  "rb_int2inum n = (if FIXABLE (sint n) then LONG2FIX n else Bignum (rb_int2big n))"

definition rb_ull2big :: "u64 \<Rightarrow> rbignum" where
  "rb_ull2big n = \<lparr>bsign = True, digits = strip_zeros (split_digits 2 n)\<rparr>"

definition rb_ll2big :: "u64 \<Rightarrow> rbignum" where
  "rb_ll2big n =
     (if sint n < 0 then (rb_ull2big (- n))\<lparr>bsign := False\<rparr> else rb_ull2big n)"

definition rb_ull2inum :: "u64 \<Rightarrow> ('f, 'o) VALUE" where
  "rb_ull2inum n = (if POSFIXABLE (uint n) then LONG2FIX n else Bignum (rb_ull2big n))"

definition rb_ll2inum :: "u64 \<Rightarrow> ('f, 'o) VALUE" where
  "rb_ll2inum n = (if FIXABLE (sint n) then LONG2FIX n else Bignum (rb_ll2big n))"

text \<open>
  The quad-word conversions used by \<^verbatim>\<open>Array#pack\<close>. The buffer is the 64-bit word whose bytes are
  copied; \<^verbatim>\<open>rb_to_int\<close> has already made the argument an integer.
\<close>

definition rb_quad_pack :: "('f, 'o) VALUE \<Rightarrow> u64 option" where
  "rb_quad_pack val =
     (case val of
        Fixnum n \<Rightarrow> Some n
      | Bignum b \<Rightarrow> Some (digits_to_dbl (digits b))
      | _ \<Rightarrow> None)"

definition rb_quad_unpack :: "u64 \<Rightarrow> bool \<Rightarrow> ('f, 'o) VALUE" where
  "rb_quad_unpack q sign =
     (if sign \<and> FIXABLE (sint q) then LONG2FIX q
      else if \<not> sign \<and> POSFIXABLE (uint q) then LONG2FIX q
      else if sign \<and> sint q < 0
           then bignorm \<lparr>bsign = False, digits = strip_zeros (split_digits 2 (- q))\<rparr>
           else bignorm \<lparr>bsign = True, digits = strip_zeros (split_digits 2 q)\<rparr>)"

definition big2ulong :: "rbignum \<Rightarrow> rb_error + u64" where
  "big2ulong x =
     (if length (digits x) > 2 then Inl RangeError else Inr (digits_to_dbl (digits x)))"

definition rb_big2ulong :: "rbignum \<Rightarrow> rb_error + u64" where
  "rb_big2ulong x =
     (case big2ulong x of
        Inl e \<Rightarrow> Inl e
      | Inr num \<Rightarrow> Inr (if \<not> bsign x then - num else num))"

definition rb_big2long :: "rbignum \<Rightarrow> rb_error + u64" where
  "rb_big2long x =
     (case big2ulong x of
        Inl e \<Rightarrow> Inl e
      | Inr num \<Rightarrow>
          if sint num < 0 \<and> (bsign x \<or> sint num \<noteq> - (2 ^ 63)) then Inl RangeError
          else Inr (if \<not> bsign x then - num else num))"

definition big2ull :: "rbignum \<Rightarrow> rb_error + u64" where
  "big2ull x =
     (if length (digits x) > 2 then Inl RangeError else Inr (digits_to_dbl (digits x)))"

definition rb_big2ull :: "rbignum \<Rightarrow> rb_error + u64" where
  "rb_big2ull x =
     (case big2ull x of
        Inl e \<Rightarrow> Inl e
      | Inr num \<Rightarrow> Inr (if \<not> bsign x then - num else num))"

definition rb_big2ll :: "rbignum \<Rightarrow> rb_error + u64" where
  "rb_big2ll x =
     (case big2ull x of
        Inl e \<Rightarrow> Inl e
      | Inr num \<Rightarrow>
          if sint num < 0 \<and> (bsign x \<or> sint num \<noteq> - (2 ^ 63)) then Inl RangeError
          else Inr (if \<not> bsign x then - num else num))"

text \<open>
  The second argument of a binary operation is coerced by its type: a Fixnum becomes a big number,
  floats and other objects leave the function through their own branch.
\<close>

definition to_big :: "('f, 'o) VALUE \<Rightarrow> rbignum option" where
  "to_big y = (case y of Fixnum n \<Rightarrow> Some (rb_int2big n) | Bignum b \<Rightarrow> Some b | _ \<Rightarrow> None)"

fun cmp_digits :: "u32 list \<Rightarrow> u32 list \<Rightarrow> int" where
  "cmp_digits (d # ds) (e # es) =
     (if d = e then cmp_digits ds es else if e < d then 1 else - 1)"
| "cmp_digits _ _ = 0"

text \<open>
  \<^verbatim>\<open>rb_big_cmp\<close> from the point where both operands are big numbers; the digits are compared from the
  top. The two parameters are the float comparison and the coercion protocol.
\<close>

definition rb_big_cmp ::
  "(rbignum \<Rightarrow> 'f \<Rightarrow> 'r) \<Rightarrow> (rbignum \<Rightarrow> 'o \<Rightarrow> 'r) \<Rightarrow> (int \<Rightarrow> 'r) \<Rightarrow> rbignum \<Rightarrow> ('f, 'o) VALUE \<Rightarrow> 'r" where
  "rb_big_cmp dbl_cmp num_coerce_bin int2fix x y0 =
     (let compare_big = (\<lambda>y.
        if bsign x \<and> \<not> bsign y then int2fix 1
        else if \<not> bsign x \<and> bsign y then int2fix (- 1)
        else if length (digits x) < length (digits y)
             then (if bsign x then int2fix (- 1) else int2fix 1)
        else if length (digits x) > length (digits y)
             then (if bsign x then int2fix 1 else int2fix (- 1))
        else let c = cmp_digits (rev (digits x)) (rev (digits y))
             in if c = 0 then int2fix 0
                else if c > 0 then (if bsign x then int2fix 1 else int2fix (- 1))
                else (if bsign x then int2fix (- 1) else int2fix 1))
      in case y0 of
           Fixnum n \<Rightarrow> compare_big (rb_int2big n)
         | Bignum y \<Rightarrow> compare_big y
         | Float d \<Rightarrow> dbl_cmp x d
         | Other ob \<Rightarrow> num_coerce_bin x ob)"

definition same_big :: "rbignum \<Rightarrow> rbignum \<Rightarrow> bool" where
  "same_big x y \<longleftrightarrow>
     bsign x = bsign y \<and> length (digits x) = length (digits y) \<and> digits x = digits y"

definition rb_big_eq ::
  "(rbignum \<Rightarrow> 'f \<Rightarrow> bool) \<Rightarrow> (rbignum \<Rightarrow> 'o \<Rightarrow> bool) \<Rightarrow> rbignum \<Rightarrow> ('f, 'o) VALUE \<Rightarrow> bool" where
  "rb_big_eq dbl_eq equal x y0 =
     (case y0 of
        Fixnum n \<Rightarrow> same_big x (rb_int2big n)
      | Bignum y \<Rightarrow> same_big x y
      | Float d \<Rightarrow> dbl_eq x d
      | Other ob \<Rightarrow> equal x ob)"

definition rb_big_eql :: "rbignum \<Rightarrow> ('f, 'o) VALUE \<Rightarrow> bool" where
  "rb_big_eql x y0 = (case y0 of Bignum y \<Rightarrow> same_big x y | _ \<Rightarrow> False)"

definition rb_big_uminus :: "rbignum \<Rightarrow> ('f, 'o) VALUE" where
  "rb_big_uminus x = bignorm ((rb_big_clone x)\<lparr>bsign := \<not> bsign x\<rparr>)"

definition rb_big_hash :: "rbignum \<Rightarrow> ('f, 'o) VALUE" where
  "rb_big_hash x = LONG2FIX (foldl (\<lambda>key d. key XOR ucast d) 0 (digits x))"

definition rb_big_coerce :: "rbignum \<Rightarrow> ('f, 'o) VALUE \<Rightarrow> rb_error + rbignum \<times> rbignum" where
  "rb_big_coerce x y = (case y of Fixnum n \<Rightarrow> Inr (rb_int2big n, x) | _ \<Rightarrow> Inl TypeError)"

definition rb_big_abs :: "rbignum \<Rightarrow> rbignum" where
  "rb_big_abs x = (if \<not> bsign x then (rb_big_clone x)\<lparr>bsign := True\<rparr> else x)"

definition rb_big_size :: "rbignum \<Rightarrow> ('f, 'o) VALUE" where
  "rb_big_size big = LONG2FIX (of_nat (length (digits big)) * 4)"

section \<open>What the digits denote\<close>

fun dval :: "u32 list \<Rightarrow> nat" where
  "dval [] = 0"
| "dval (d # ds) = unat d + 2 ^ 32 * dval ds"

definition big_val :: "rbignum \<Rightarrow> int" where
  "big_val x = (if bsign x then int (dval (digits x)) else - int (dval (digits x)))"

text \<open>The integer a value stands for, where it is one.\<close>

definition int_of :: "('f, 'o) VALUE \<Rightarrow> int option" where
  "int_of v = (case v of Fixnum n \<Rightarrow> Some (sint n) | Bignum b \<Rightarrow> Some (big_val b) | _ \<Rightarrow> None)"

text \<open>
  A big number is well formed when it has a digit and its top digit is not zero, or it is the
  single digit 0 that \<^verbatim>\<open>rb_int2big\<close> makes; it is canonical when its top digit is not zero and no
  Fixnum has its value. Every value the interpreter hands out is canonical.
\<close>

definition big_ok :: "rbignum \<Rightarrow> bool" where
  "big_ok x \<longleftrightarrow> digits x \<noteq> [] \<and> (last (digits x) = 0 \<longrightarrow> digits x = [0] \<and> bsign x)"

definition big_norm_ok :: "rbignum \<Rightarrow> bool" where
  "big_norm_ok x \<longleftrightarrow> digits x \<noteq> [] \<and> last (digits x) \<noteq> 0"

fun canonical :: "('f, 'o) VALUE \<Rightarrow> bool" where
  "canonical (Fixnum n) \<longleftrightarrow> FIXABLE (sint n)"
| "canonical (Bignum x) \<longleftrightarrow> big_norm_ok x \<and> \<not> FIXABLE (big_val x)"
| "canonical _ \<longleftrightarrow> True"

lemma int_of_simps [simp]:
  "int_of (Fixnum n) = Some (sint n)" "int_of (Bignum b) = Some (big_val b)"
  "int_of (Float f) = None" "int_of (Other ob) = None"
  by (simp_all add: int_of_def)

subsection \<open>Double digits\<close>

lemma BIGLO_eq: "BIGLO n = ucast n"
proof -
  have m: "push_bit BITSPERDIG 1 - 1 = (mask 32 :: u64)"
    by (simp add: mask_eq_decr_exp BITSPERDIG_def)
  show ?thesis
    unfolding BIGLO_def m by (rule bit_word_eqI) (simp add: bit_simps)
qed

lemma unat_BIGLO [word_nat]: "unat (BIGLO n) = unat n mod 2 ^ 32"
  by (simp add: BIGLO_eq unsigned_ucast_eq take_bit_eq_mod)

lemma unat_BIGDN [word_nat]: "unat (BIGDN n) = unat n div 2 ^ 32"
  by (simp only: BIGDN_def BITSPERDIG_def unat_drop_bit)

lemma unat_BIGUP: "unat n < 2 ^ 32 \<Longrightarrow> unat (BIGUP n) = 2 ^ 32 * unat n"
  by (simp add: BIGUP_def BITSPERDIG_def push_bit_eq_mult unat_word_ariths)

lemma unat_ucast_dig [word_nat]: "unat (ucast (d :: u32) :: u64) = unat d"
  using unsigned_less [of d, where 'a=nat]
  by (simp add: unsigned_ucast_eq take_bit_eq_mod)

lemma unat_dig_less: "unat (d :: u32) < 2 ^ 32"
  using unsigned_less [of d, where 'a=nat] by simp

lemma unat_dbl_less: "unat (d :: u64) < 2 ^ 64"
  using unsigned_less [of d, where 'a=nat] by simp

lemma unat_add_dbl: "unat a + unat b < 2 ^ 64 \<Longrightarrow> unat (a + b :: u64) = unat a + unat b"
  by (simp add: unat_add_lem [THEN iffD1])

lemma BIGDN_small: "unat (BIGDN n) < 2 ^ 32"
  using unat_dbl_less [of n] by (simp add: unat_BIGDN less_mult_imp_div_less)

lemma BIGLO_BIGDN: "unat (BIGLO n) + 2 ^ 32 * unat (BIGDN n) = unat n"
  by (simp add: unat_BIGLO unat_BIGDN)

subsection \<open>Digit lists\<close>

lemma dval_append: "dval (xs @ ys) = dval xs + 2 ^ (32 * length xs) * dval ys"
  by (induction xs) (simp_all add: algebra_simps power_add)

lemma dval_bound: "dval ds < 2 ^ (32 * length ds)"
proof (induction ds)
  case (Cons d ds)
  have "unat d + 2 ^ 32 * dval ds < 2 ^ 32 * (1 + dval ds)"
    using unat_dig_less [of d] by simp
  also have "\<dots> \<le> 2 ^ 32 * 2 ^ (32 * length ds)"
    using Cons by (intro mult_le_mono2) simp
  finally show ?case by (simp add: power_add)
qed simp

lemma int_dval_bound: "int (dval ds) < 2 ^ (32 * length ds)"
  using dval_bound [of ds] by (metis of_nat_less_iff of_nat_numeral of_nat_power)

lemma dval_replicate_0 [simp]: "dval (replicate n 0) = 0"
  by (induction n) auto

lemma dval_eq_0: "dval ds = 0 \<longleftrightarrow> (\<forall>d \<in> set ds. d = 0)"
  by (induction ds) (auto simp: unat_eq_0)

lemma dval_ge_top: "ds \<noteq> [] \<Longrightarrow> 2 ^ (32 * (length ds - 1)) * unat (last ds) \<le> dval ds"
  by (cases ds rule: rev_cases) (simp_all add: dval_append)

lemma strip_zeros_snoc: "strip_zeros (ds @ [d]) = (if d = 0 then strip_zeros ds else ds @ [d])"
  by (simp add: strip_zeros_def)

lemma strip_zeros_Nil [simp]: "strip_zeros [] = []"
  by (simp add: strip_zeros_def)

lemma dval_strip [simp]: "dval (strip_zeros ds) = dval ds"
  by (induction ds rule: rev_induct) (simp_all add: strip_zeros_snoc dval_append)

lemma strip_zeros_last: "strip_zeros ds \<noteq> [] \<Longrightarrow> last (strip_zeros ds) \<noteq> 0"
  by (induction ds rule: rev_induct) (auto simp: strip_zeros_snoc split: if_splits)

lemma strip_zeros_length: "length (strip_zeros ds) \<le> length ds"
  by (induction ds rule: rev_induct) (auto simp: strip_zeros_snoc)

lemma strip_zeros_empty: "strip_zeros ds = [] \<longleftrightarrow> dval ds = 0"
  by (induction ds rule: rev_induct) (auto simp: strip_zeros_snoc dval_append unat_eq_0)

lemma strip_zeros_id: "ds = [] \<or> last ds \<noteq> 0 \<Longrightarrow> strip_zeros ds = ds"
  by (cases ds rule: rev_cases) (auto simp: strip_zeros_snoc)

lemma dval_inj:
  "length xs = length ys \<Longrightarrow> dval xs = dval ys \<Longrightarrow> xs = ys"
proof (induction xs ys rule: list_induct2)
  case (Cons x xs y ys)
  have "unat x = unat y"
    using arg_cong [OF Cons.prems, of "\<lambda>n. n mod 2 ^ 32"] unat_dig_less [of x] unat_dig_less [of y]
    by (simp only: dval.simps mod_mult_self2 mod_less)
  moreover from this Cons.prems have "dval xs = dval ys" by simp
  ultimately show ?case using Cons.IH by (simp add: word_unat_eq_iff)
qed simp

lemma norm_length_mono:
  assumes "dval xs \<le> dval ys" "xs \<noteq> []" "last xs \<noteq> 0"
  shows "length xs \<le> length ys"
proof -
  have "1 \<le> unat (last xs)" using assms(3) by (simp add: unat_gt_0 Suc_le_eq)
  then have "2 ^ (32 * (length xs - 1)) \<le> dval xs"
    using dval_ge_top [OF assms(2)] le_trans [OF mult_le_mono2] by fastforce
  also have "\<dots> < 2 ^ (32 * length ys)" using assms(1) dval_bound le_less_trans by blast
  finally have "32 * (length xs - 1) < 32 * length ys"
    using power_less_imp_less_exp [of 2] by simp
  then show ?thesis by simp
qed

lemma digits_to_dbl_mod: "unat (digits_to_dbl ds) = dval ds mod 2 ^ 64"
proof -
  have "unat (foldl (\<lambda>num d. BIGUP num + ucast d) n (rev ds)) =
        (unat n * 2 ^ (32 * length ds) + dval ds) mod 2 ^ 64" for n
  proof (induction ds arbitrary: n)
    case (Cons d ds)
    let ?m = "unat n * 2 ^ (32 * length ds) + dval ds"
    have "unat (BIGUP m + ucast d) = (2 ^ 32 * unat m + unat d) mod 2 ^ 64" for m
      by (simp add: BIGUP_def BITSPERDIG_def push_bit_eq_mult unat_word_ariths unat_ucast_dig
          mod_simps mult.commute)
    then have "unat (foldl (\<lambda>num d. BIGUP num + ucast d) n (rev (d # ds))) =
        (2 ^ 32 * (?m mod 2 ^ 64) + unat d) mod 2 ^ 64"
      using Cons by simp
    also have "\<dots> = (2 ^ 32 * ?m + unat d) mod 2 ^ 64"
      by (metis mod_add_left_eq mod_mult_right_eq)
    finally show ?case by (simp add: algebra_simps power_add)
  qed (simp only: list.size mult_0_right power_0 mult_1_right dval.simps add_0_right rev.simps
        foldl.simps mod_less unat_dbl_less)
  from this [of 0] show ?thesis by (simp add: digits_to_dbl_def)
qed

lemma digits_to_dbl: "length ds \<le> 2 \<Longrightarrow> unat (digits_to_dbl ds) = dval ds"
proof -
  assume "length ds \<le> 2"
  then have "(2 :: nat) ^ (32 * length ds) \<le> 2 ^ 64" by (intro power_increasing) auto
  with dval_bound [of ds] show ?thesis by (simp add: digits_to_dbl_mod)
qed

lemma digits_to_dbl_of_nat: "digits_to_dbl ds = of_nat (dval ds)"
  by (simp add: word_unat_eq_iff digits_to_dbl_mod unat_of_nat)

lemma dval_split_digits: "dval (split_digits n x) = unat x mod 2 ^ (32 * n)"
proof (induction n arbitrary: x)
  case (Suc n)
  have "unat x mod 2 ^ 32 + 2 ^ 32 * (unat x div 2 ^ 32 mod 2 ^ (32 * n)) = unat x mod (2 ^ 32 * 2 ^ (32 * n))"
    by (simp add: mod_mult2_eq)
  with Suc show ?case by (simp add: unat_BIGLO unat_BIGDN power_add)
qed simp

lemma dval_split_2 [simp]: "dval (split_digits 2 x) = unat x"
  using unat_dbl_less [of x] by (simp add: dval_split_digits)

lemma length_split_digits [simp]: "length (split_digits n x) = n"
  by (induction n arbitrary: x) auto

subsection \<open>Signed words and Fixnums\<close>

text \<open>The values of words are read as natural numbers throughout this component.\<close>

declare of_nat_unat [simp del]

lemma uint_unat: "uint n = int (unat n)"
  by (simp add: of_nat_unat)

lemma sint_unat: "sint (n :: u64) = (if unat n < 2 ^ 63 then int (unat n) else int (unat n) - 2 ^ 64)"
proof -
  have b: "uint n < 2 ^ 64" "0 \<le> uint n" using unsigned_less [of n, where 'a=int] by simp_all
  have "sint n = (uint n + 2 ^ 63) mod 2 ^ 64 - 2 ^ 63"
    by (simp add: sint_uint signed_take_bit_eq_take_bit_shift take_bit_eq_mod)
  also have "\<dots> = (if uint n < 2 ^ 63 then uint n else uint n - 2 ^ 64)"
  proof (cases "uint n < 2 ^ 63")
    case True
    with b show ?thesis by (simp add: mod_pos_pos_trivial)
  next
    case False
    have "(uint n + 2 ^ 63) mod 2 ^ 64 = (uint n - 2 ^ 63 + 2 ^ 64) mod 2 ^ 64"
      by (simp add: add.commute)
    also have "\<dots> = uint n - 2 ^ 63"
      using False b by (simp only: mod_add_self2) (simp add: mod_pos_pos_trivial)
    finally show ?thesis using False by simp
  qed
  finally show ?thesis by (simp add: uint_unat)
qed

lemma sint_range64: "- (2 ^ 63) \<le> sint (n :: u64)" "sint (n :: u64) < 2 ^ 63"
  using sint_ge [of n] sint_lt [of n] by simp_all

lemma sint_uminus: "sint n \<noteq> - (2 ^ 63) \<Longrightarrow> sint (- n :: u64) = - sint n"
  using sint_range64 [of n]
  by (simp add: sint_word_minus signed_take_bit_int_eq_self)

lemma unat_uminus: "unat (- n :: u64) = (if n = 0 then 0 else 2 ^ 64 - unat n)"
  using unat_sub_if' [of 0 n] by (simp add: unat_eq_zero)

lemma FIXABLE_iff: "FIXABLE f \<longleftrightarrow> - (2 ^ 62) \<le> f \<and> f < 2 ^ 62"
  by (auto simp: FIXABLE_def POSFIXABLE_def NEGFIXABLE_def FIXNUM_MAX_def FIXNUM_MIN_def)

lemma LONG2FIX_id: "FIXABLE (sint i) \<Longrightarrow> LONG2FIX i = Fixnum i"
proof -
  assume a: "FIXABLE (sint i)"
  have "sint (push_bit 1 i) = 2 * sint i"
    using a by (simp add: push_bit_eq_mult sint_word_mult FIXABLE_iff signed_take_bit_int_eq_self)
  then have "sint (signed_drop_bit 1 (push_bit 1 i)) = sint i"
    by (simp add: sint_signed_drop_bit_eq drop_bit_eq_div)
  then show ?thesis unfolding LONG2FIX_def by (simp add: signed_word_eqI)
qed

subsection \<open>Normalisation\<close>

lemma bignorm_value:
  fixes r :: "('f, 'o) VALUE"
  assumes "r = bignorm x"
  shows "int_of r = Some (big_val x) \<and> canonical r"
proof -
  define ds where "ds = strip_zeros (digits x)"
  define num where "num = digits_to_dbl ds"
  define y where "y = x\<lparr>digits := ds\<rparr>"
  have val: "big_val y = big_val x" by (simp add: big_val_def y_def ds_def)
  have dv: "dval ds = dval (digits x)" by (simp add: ds_def)
  have bn: "r =
    (if length ds \<le> 2 \<and> 0 \<le> sint num \<and>
        (if bsign x then POSFIXABLE (sint num) else NEGFIXABLE (sint (- num)))
     then LONG2FIX (if bsign x then num else - num) else Bignum y)"
    by (auto simp: assms bignorm_def Let_def ds_def [symmetric] num_def [symmetric] y_def)
  show ?thesis
  proof (cases "length ds \<le> 2 \<and> 0 \<le> sint num \<and>
        (if bsign x then POSFIXABLE (sint num) else NEGFIXABLE (sint (- num)))")
    case True
    let ?n = "if bsign x then num else - num"
    have "unat num = dval (digits x)" using True by (simp add: num_def digits_to_dbl dv)
    then have "sint num = int (dval (digits x))"
      using True unat_dbl_less [of num] by (simp add: sint_unat [of num] split: if_splits)
    then have v: "sint ?n = big_val x"
      using True by (auto simp: big_val_def sint_uminus)
    then have "FIXABLE (sint ?n)"
      using True \<open>sint num = _\<close>
      by (auto simp: FIXABLE_def POSFIXABLE_def NEGFIXABLE_def FIXNUM_MAX_def FIXNUM_MIN_def
          big_val_def sint_uminus split: if_splits)
    moreover have "r = LONG2FIX ?n" unfolding bn by (rule if_P [OF True])
    ultimately show ?thesis using v by (simp add: LONG2FIX_id int_of_def)
  next
    case False
    have "\<not> FIXABLE (big_val x)"
    proof
      assume f: "FIXABLE (big_val x)"
      then have "dval ds \<le> 2 ^ 62" by (auto simp: FIXABLE_iff big_val_def dv split: if_splits)
      then have "length ds \<le> 2"
        using norm_length_mono [of ds "[0, 0x40000000]"] strip_zeros_last [of "digits x"]
        by (cases "ds = []") (auto simp: ds_def)
      moreover from this have "sint num = int (dval ds)"
        using digits_to_dbl [of ds] \<open>dval ds \<le> _\<close> by (simp add: num_def sint_unat)
      ultimately show False
        using False f by (auto simp: FIXABLE_def POSFIXABLE_def NEGFIXABLE_def FIXNUM_MAX_def
            FIXNUM_MIN_def big_val_def dv sint_uminus split: if_splits)
    qed
    moreover from this have "ds \<noteq> []"
      by (auto simp: ds_def strip_zeros_empty big_val_def FIXABLE_iff split: if_splits)
    ultimately show ?thesis
      using False bn val strip_zeros_last [of "digits x"]
      by (auto simp: int_of_def big_norm_ok_def y_def ds_def)
  qed
qed

lemma int_of_bignorm [simp]: "int_of (bignorm x) = Some (big_val x)"
  using bignorm_value [OF refl] by blast

lemma canonical_bignorm [simp]: "canonical (bignorm x)"
  using bignorm_value [OF refl] by blast

subsection \<open>Conversions from machine integers\<close>

lemma split_2: "split_digits 2 n = [BIGLO n, BIGLO (BIGDN n)]"
  by (simp add: numeral_2_eq_2)

lemma dval_uint2big [simp]: "dval (digits (rb_uint2big n)) = unat n"
  using dval_split_2 [of n] by (simp add: rb_uint2big_def split_2 Let_def)

lemma rb_int2big_value [simp]: "big_val (rb_int2big n) = sint n"
proof (cases "sint n < 0")
  case True
  then have "n \<noteq> 0" "\<not> unat n < 2 ^ 63" by (auto simp: sint_unat split: if_splits)
  then show ?thesis using True unat_dbl_less [of n]
    by (simp add: rb_int2big_def big_val_def unat_uminus sint_unat of_nat_diff)
next
  case False
  then have "unat n < 2 ^ 63" using unat_dbl_less [of n] by (auto simp: sint_unat split: if_splits)
  with False show ?thesis by (simp add: rb_int2big_def big_val_def rb_uint2big_def sint_unat Let_def)
    (use dval_uint2big [of n] in \<open>simp add: rb_uint2big_def Let_def\<close>)
qed

lemma rb_uint2big_digits: "digits (rb_uint2big n) = [0] \<or> big_norm_ok (rb_uint2big n)"
  using strip_zeros_last [of "[BIGLO (BIGDN n)]"]
  by (cases "strip_zeros [BIGLO (BIGDN n)] = []")
     (auto simp: rb_uint2big_def split_2 Let_def big_norm_ok_def)

lemma rb_int2big_nonempty [simp]: "digits (rb_int2big n) \<noteq> []"
  by (simp add: rb_int2big_def rb_uint2big_def Let_def)

lemma rb_int2big_sign: "bsign (rb_int2big n) \<longleftrightarrow> 0 \<le> sint n"
  by (auto simp: rb_int2big_def rb_uint2big_def Let_def)

lemma rb_int2big_norm: "sint n \<noteq> 0 \<Longrightarrow> big_norm_ok (rb_int2big n)"
proof -
  assume a: "sint n \<noteq> 0"
  have "digits (rb_int2big n) \<noteq> [0]"
  proof
    assume "digits (rb_int2big n) = [0]"
    then have "big_val (rb_int2big n) = 0" by (simp add: big_val_def)
    with a show False by simp
  qed
  then show ?thesis using rb_uint2big_digits [of n] rb_uint2big_digits [of "- n"]
    by (auto simp: rb_int2big_def big_norm_ok_def)
qed

lemma to_big_value: "to_big y = Some b \<Longrightarrow> int_of y = Some (big_val b)"
  by (auto simp: to_big_def int_of_def split: VALUE.splits)

lemma int_of_to_big: "int_of y = Some v \<Longrightarrow> \<exists>b. to_big y = Some b \<and> big_val b = v"
  by (auto simp: to_big_def int_of_def split: VALUE.splits)

text \<open>The unsigned conversions produce the canonical value of their argument.\<close>

lemma rb_uint2inum_value:
  fixes r :: "('f, 'o) VALUE"
  assumes "r = rb_uint2inum n"
  shows "int_of r = Some (int (unat n)) \<and> canonical r"
proof (cases "POSFIXABLE (uint n)")
  case True
  then have u: "unat n < 2 ^ 62"
    by (simp add: POSFIXABLE_def FIXNUM_MAX_def uint_unat)
  then have "FIXABLE (sint n)" by (simp add: sint_unat FIXABLE_iff)
  with True u show ?thesis by (simp add: assms rb_uint2inum_def LONG2FIX_id int_of_def sint_unat)
next
  case False
  then have u: "\<not> unat n < 2 ^ 62"
    by (simp add: POSFIXABLE_def FIXNUM_MAX_def uint_unat)
  have v: "big_val (rb_uint2big n) = int (unat n)"
    by (simp add: big_val_def) (simp add: rb_uint2big_def Let_def)
  moreover have "big_norm_ok (rb_uint2big n)"
    using rb_uint2big_digits [of n] u dval_uint2big [of n] by (auto simp del: dval_uint2big)
  moreover have "\<not> FIXABLE (int (unat n))" using u by (auto simp: FIXABLE_iff)
  ultimately show ?thesis using False by (simp add: assms rb_uint2inum_def int_of_def)
qed

lemma rb_int2inum_value:
  fixes r :: "('f, 'o) VALUE"
  assumes "r = rb_int2inum n"
  shows "int_of r = Some (sint n) \<and> canonical r"
proof (cases "FIXABLE (sint n)")
  case True
  then show ?thesis by (simp add: assms rb_int2inum_def LONG2FIX_id int_of_def)
next
  case False
  moreover from this have "sint n \<noteq> 0" by (auto simp: FIXABLE_iff)
  ultimately show ?thesis by (simp add: assms rb_int2inum_def int_of_def rb_int2big_norm)
qed

lemma big_ok_int2big [simp]: "big_ok (rb_int2big n)"
proof (cases "sint n = 0")
  case True
  then have "n = 0" by (simp add: signed_eq_0_iff)
  then show ?thesis by (simp add: big_ok_def rb_int2big_def rb_uint2big_def split_2 BIGLO_eq BIGDN_def
        strip_zeros_def)
qed (use rb_int2big_norm in \<open>auto simp: big_ok_def big_norm_ok_def\<close>)

lemma big_ok_norm: "big_norm_ok x \<Longrightarrow> big_ok x"
  by (auto simp: big_ok_def big_norm_ok_def)

lemma big_ok_to_big: "canonical y \<Longrightarrow> to_big y = Some b \<Longrightarrow> big_ok b"
  by (auto simp: to_big_def big_ok_norm split: VALUE.splits)

subsection \<open>Two's complement\<close>

lemma unat_NOT_dig: "unat (NOT (d :: u32)) = 2 ^ 32 - 1 - unat d"
proof -
  have "NOT d = - 1 - d" by (simp add: not_eq_complement)
  moreover have "unat (- 1 :: u32) = 2 ^ 32 - 1"
    by (simp add: unsigned_minus_1_eq_mask mask_eq_exp_minus_1)
  ultimately show ?thesis using unat_dig_less [of d] by (simp add: unat_sub_if')
qed

lemma dval_map_not: "dval (map (\<lambda>d. NOT d) ds) = 2 ^ (32 * length ds) - 1 - dval ds"
proof (induction ds)
  case (Cons d ds)
  have "dval (map (\<lambda>d. NOT d) (d # ds)) =
      (2 ^ 32 - 1 - unat d) + 2 ^ 32 * (2 ^ (32 * length ds) - 1 - dval ds)"
    using Cons by (simp add: unat_NOT_dig)
  also have "\<dots> = 2 ^ (32 * length (d # ds)) - 1 - dval (d # ds)"
    using unat_dig_less [of d] dval_bound [of ds]
    by (simp add: power_add diff_mult_distrib2)
  finally show ?case .
qed simp

lemma length_add1_loop [simp]: "length (add1_loop c ds) = length ds"
  by (induction ds arbitrary: c) (auto simp: Let_def)

lemma dval_add1_loop:
  "unat c < 2 ^ 32 \<Longrightarrow> dval (add1_loop c ds) = (unat c + dval ds) mod 2 ^ (32 * length ds)"
proof (induction ds arbitrary: c)
  case (Cons d ds)
  let ?n = "c + ucast d :: u64"
  have n: "unat ?n = unat c + unat d"
    using Cons.prems unat_dig_less [of d] by (simp add: unat_add_dbl unat_ucast_dig)
  have "dval (add1_loop c (d # ds)) =
      unat ?n mod 2 ^ 32 + 2 ^ 32 * ((unat ?n div 2 ^ 32 + dval ds) mod 2 ^ (32 * length ds))"
    using Cons.IH [OF BIGDN_small [of ?n]] by (simp add: Let_def unat_BIGLO unat_BIGDN)
  also have "\<dots> = (unat ?n + 2 ^ 32 * dval ds) mod (2 ^ 32 * 2 ^ (32 * length ds))"
    by (simp add: mod_mult2_eq add.commute)
  also have "\<dots> = (unat c + dval (d # ds)) mod 2 ^ (32 * length (d # ds))"
    by (simp add: n power_add add.assoc)
  finally show ?case .
qed simp

text \<open>What \<^verbatim>\<open>get2comp\<close> computes: the complement of the magnitude at the width of the array.\<close>

lemma add1_complement:
  "dval (add1_loop 1 (map (\<lambda>d. NOT d) ds)) = (2 ^ (32 * length ds) - dval ds) mod 2 ^ (32 * length ds)"
  using dval_bound [of ds] by (simp add: dval_add1_loop dval_map_not Suc_diff_Suc)

subsection \<open>Comparison\<close>

lemma cmp_digits_correct:
  "length xs = length ys \<Longrightarrow>
   cmp_digits (rev xs) (rev ys) = sgn (int (dval xs) - int (dval ys))"
proof (induction xs arbitrary: ys rule: rev_induct)
  case (snoc x xs)
  then obtain y ys' where ys: "ys = ys' @ [y]" and l: "length xs = length ys'"
    by (cases ys rule: rev_cases) auto
  let ?b = "2 ^ (32 * length xs) :: nat"
  have b: "dval xs < ?b" "dval ys' < ?b" using dval_bound [of xs] dval_bound [of ys'] l by auto
  have gt: "dval u + ?b * unat d < dval v + ?b * unat e"
    if "d < e" "dval u < ?b" for d e :: u32 and u v
  proof -
    have "dval u + ?b * unat d < ?b * (1 + unat d)" using that by simp
    also have "\<dots> \<le> ?b * unat e" using that by (intro mult_le_mono2) (simp add: word_less_nat_alt)
    finally show ?thesis by simp
  qed
  consider "x = y" | "x < y" | "y < x" by fastforce
  then show ?case
  proof cases
    case 1
    then show ?thesis using snoc.IH [OF l] l by (simp add: ys dval_append)
  next
    case 2
    have "int (dval (xs @ [x])) < int (dval ys)"
      using gt [OF 2 b(1), of ys'] l by (simp only: of_nat_less_iff) (simp add: ys dval_append)
    then show ?thesis using 2 by (auto simp: ys)
  next
    case 3
    have "int (dval ys) < int (dval (xs @ [x]))"
      using gt [OF 3 b(2), of xs] l by (simp only: of_nat_less_iff) (simp add: ys dval_append)
    then show ?thesis using 3 by (auto simp: ys)
  qed
qed simp

lemma big_ok_length_less:
  assumes "big_ok x" "big_ok y" "length (digits x) < length (digits y)"
  shows "dval (digits x) < dval (digits y)"
proof (rule ccontr)
  assume "\<not> ?thesis"
  moreover have "last (digits y) \<noteq> 0" using assms by (auto simp: big_ok_def)
  ultimately show False
    using norm_length_mono [of "digits y" "digits x"] assms by (auto simp: big_ok_def)
qed

lemma big_ok_zero: "big_ok x \<Longrightarrow> dval (digits x) = 0 \<Longrightarrow> bsign x"
  by (cases "digits x" rule: rev_cases) (auto simp: big_ok_def dval_append unat_eq_0)

lemma rb_big_cmp_big:
  assumes x: "big_ok x" and y: "big_ok b" and b: "to_big y = Some b"
  shows "rb_big_cmp dc nc i2f x y = i2f (sgn (big_val x - big_val b))"
proof -
  define c where "c = cmp_digits (rev (digits x)) (rev (digits b))"
  have eq: "rb_big_cmp dc nc i2f x y =
      i2f (if bsign x \<noteq> bsign b then (if bsign x then 1 else - 1)
           else (if bsign x then id else uminus)
                 (if length (digits x) < length (digits b) then - 1
                  else if length (digits x) > length (digits b) then 1
                  else sgn c))"
    using b by (auto simp: rb_big_cmp_def to_big_def c_def Let_def split: VALUE.splits)
  consider "length (digits x) < length (digits b)" | "length (digits b) < length (digits x)"
    | "length (digits x) = length (digits b)" by linarith
  then have mag: "(if length (digits x) < length (digits b) then - 1
       else if length (digits x) > length (digits b) then 1 else sgn c) =
      sgn (int (dval (digits x)) - int (dval (digits b)))"
    by cases (use big_ok_length_less [OF x y] big_ok_length_less [OF y x]
        cmp_digits_correct [of "digits x" "digits b"] in \<open>auto simp: c_def\<close>)
  show ?thesis
  proof (cases "bsign x = bsign b")
    case True
    then show ?thesis unfolding eq mag by (auto simp: big_val_def sgn_if)
  next
    case False
    then show ?thesis unfolding eq using big_ok_zero [OF x] big_ok_zero [OF y]
      by (auto simp: big_val_def sgn_if)
  qed
qed

subsection \<open>Conversions to machine integers\<close>

lemma big_norm_ok_long: "big_norm_ok x \<Longrightarrow> length (digits x) > 2 \<longleftrightarrow> dval (digits x) \<ge> 2 ^ 64"
proof
  assume a: "big_norm_ok x" "2 < length (digits x)"
  show "2 ^ 64 \<le> dval (digits x)"
  proof (rule ccontr)
    assume "\<not> ?thesis"
    then show False
      using norm_length_mono [of "digits x" "[- 1, - 1]"] a
      by (auto simp: big_norm_ok_def unsigned_minus_1_eq_mask mask_eq_exp_minus_1)
  qed
next
  assume a: "2 ^ 64 \<le> dval (digits x)"
  show "2 < length (digits x)"
  proof (rule ccontr)
    assume "\<not> ?thesis"
    then have "(2 :: nat) ^ (32 * length (digits x)) \<le> 2 ^ 64" by (intro power_increasing) auto
    with a dval_bound [of "digits x"] show False by linarith
  qed
qed

lemma big2ulong_value:
  assumes "big_norm_ok x"
  shows "big2ulong x = (if 2 ^ 64 \<le> dval (digits x) then Inl RangeError
                        else Inr (of_nat (dval (digits x))))"
  using big_norm_ok_long [OF assms] by (auto simp: big2ulong_def not_le digits_to_dbl_of_nat)

lemma sint_of_nat: "n < 2 ^ 64 \<Longrightarrow> sint (of_nat n :: u64) = (if n < 2 ^ 63 then int n else int n - 2 ^ 64)"
  by (simp add: sint_unat unat_of_nat)

lemma rb_quad_pack_value:
  "int_of r = Some v \<and> canonical r \<Longrightarrow>
   rb_quad_pack r = Some (word_of_int (if FIXABLE v then v else \<bar>v\<bar>))"
  by (cases r) (auto simp: rb_quad_pack_def int_of_def big_val_def digits_to_dbl_of_nat)

text \<open>
  The conversion of an integer object to a C \<^verbatim>\<open>long\<close> is exact or refused: \<^verbatim>\<open>rb_big2long\<close> returns
  the word of the number when it is in the range of a signed 64-bit integer, its minimum included, and
  raises RangeError for every other number.
\<close>

theorem rb_big2long_exact_or_error:
  assumes "canonical (Bignum x)"
  shows "rb_big2long x =
     (if - (2 ^ 63) \<le> big_val x \<and> big_val x < 2 ^ 63 then Inr (word_of_int (big_val x))
      else Inl RangeError)"
proof -
  have n: "big_norm_ok x" using assms by simp
  show ?thesis
  proof (cases "2 ^ 64 \<le> dval (digits x)")
    case True
    then show ?thesis by (simp add: rb_big2long_def big2ulong_value [OF n] big_val_def)
  next
    case False
    then show ?thesis
      by (auto simp: rb_big2long_def big2ulong_value [OF n] big_val_def sint_of_nat not_le)
  qed
qed

theorem rb_big2long_exact_or_error_witness:
  "rb_big2long \<lparr>bsign = False, digits = [0, 0x80000000]\<rparr> = Inr (word_of_int (- (2 ^ 63)))"
  using rb_big2long_exact_or_error [of "\<lparr>bsign = False, digits = [0, 0x80000000]\<rparr>"]
  by (simp add: big_norm_ok_def big_val_def FIXABLE_iff)

text \<open>
  \<^verbatim>\<open>rb_big_cmp\<close> orders integers: for a big number and any integer object, both as the interpreter
  hands them out, the result is the sign of their difference; the digits are read only when signs and
  lengths agree.
\<close>

theorem rb_big_cmp_correct:
  assumes "canonical (Bignum x)" "canonical y" "int_of y = Some v"
  shows "rb_big_cmp dbl_cmp num_coerce_bin int2fix x y = int2fix (sgn (big_val x - v))"
proof -
  obtain b where b: "to_big y = Some b" "big_val b = v" using int_of_to_big [OF assms(3)] by blast
  have "big_ok x" using assms(1) by (simp add: big_ok_norm)
  from rb_big_cmp_big [OF this big_ok_to_big [OF assms(2) b(1)] b(1)] b(2) show ?thesis
    by blast
qed

theorem rb_big_cmp_correct_witness:
  "rb_big_cmp (\<lambda>_ (_ :: unit). 7) (\<lambda>_ (_ :: unit). 7) id
     \<lparr>bsign = False, digits = [0, 0x80000000]\<rparr> (Fixnum 5) = - 1"
  using rb_big_cmp_correct [of "\<lparr>bsign = False, digits = [0, 0x80000000]\<rparr>" "Fixnum 5" 5
      "\<lambda>_ _. 7" "\<lambda>_ _. 7" id]
  by (simp add: big_norm_ok_def big_val_def FIXABLE_iff int_of_def)

text \<open>
  Reading a quad word back as an unsigned number and packing it again is the identity; for signed
  numbers \<^verbatim>\<open>rb_quad_pack\<close> drops the sign of a big number, so the round trip negates every quad word
  below the Fixnum range.
\<close>

lemma rb_quad_round_trip:
  "rb_quad_pack (rb_quad_unpack q False :: ('f, 'o) VALUE) = Some q \<and>
   rb_quad_pack (rb_quad_unpack q True :: ('f, 'o) VALUE) =
     Some (if sint q < FIXNUM_MIN then - q else q)"
proof -
  have "rb_quad_pack (rb_quad_unpack q False :: ('f, 'o) VALUE) = Some q"
  proof (cases "POSFIXABLE (uint q)")
    case True
    then have "FIXABLE (sint q)" by (auto simp: POSFIXABLE_def FIXNUM_MAX_def uint_unat sint_unat FIXABLE_iff)
    with True show ?thesis by (simp add: rb_quad_unpack_def LONG2FIX_id rb_quad_pack_def)
  next
    case False
    then have "\<not> FIXABLE (int (unat q))"
      by (simp add: POSFIXABLE_def FIXNUM_MAX_def uint_unat FIXABLE_iff)
    with False show ?thesis
      by (simp add: rb_quad_unpack_def rb_quad_pack_value [OF bignorm_value [OF refl]] big_val_def of_nat_unat)
  qed
  moreover have "rb_quad_pack (rb_quad_unpack q True :: ('f, 'o) VALUE) =
     Some (if sint q < FIXNUM_MIN then - q else q)"
  proof (cases "FIXABLE (sint q)")
    case True
    then show ?thesis by (simp add: rb_quad_unpack_def LONG2FIX_id rb_quad_pack_def FIXABLE_iff FIXNUM_MIN_def)
  next
    case False
    then have "sint q < FIXNUM_MIN \<longleftrightarrow> sint q < 0" by (auto simp: FIXABLE_iff FIXNUM_MIN_def)
    moreover have "- int (unat (- q)) = sint q" if "sint q < 0"
      using that unat_dbl_less [of q] by (auto simp: sint_unat unat_uminus of_nat_diff split: if_splits)
    moreover have "int (unat q) = sint q" if "\<not> sint q < 0"
      using that unat_dbl_less [of q] by (auto simp: sint_unat split: if_splits)
    ultimately show ?thesis using False
      by (simp add: rb_quad_unpack_def rb_quad_pack_value [OF bignorm_value [OF refl]] big_val_def
          of_nat_unat)
  qed
  ultimately show ?thesis by blast
qed

end
