(* ===== verification/Bignum_Arith.thy ===== *)
theory Bignum_Arith
  imports Bignum_Base
begin

text \<open>
  Addition, subtraction, multiplication and power of \<^verbatim>\<open>src/ruby/bignum.c\<close>. The digit loops are
  recursions over the digit lists, with the double-digit accumulator \<^verbatim>\<open>num\<close> as an argument; the
  theorems state that each operator returns the canonical value of the exact integer result. The
  branches of the operators that leave the integers, floats and the coercion of other objects, are
  function parameters.
\<close>

section \<open>Operations\<close>

text \<open>
  The two loops of \<^verbatim>\<open>bigsub\<close> after the operands are in order: the digits of both, then the borrow
  into the rest of \<^verbatim>\<open>x\<close> and the copy of what it does not reach. \<^verbatim>\<open>num\<close> is signed here.
\<close>

fun sub_borrow :: "u64 \<Rightarrow> u32 list \<Rightarrow> u32 list" where
  "sub_borrow num [] = []"
| "sub_borrow num (x # xs) =
     (if num \<noteq> 0
      then let num = num + ucast x in BIGLO num # sub_borrow (BIGDN_signed num) xs
      else x # xs)"

fun sub_loop :: "u64 \<Rightarrow> u32 list \<Rightarrow> u32 list \<Rightarrow> u32 list" where
  "sub_loop num xs [] = sub_borrow num xs"
| "sub_loop num [] (y # ys) = []"
| "sub_loop num (x # xs) (y # ys) =
     (let num = num + (ucast x - ucast y) in BIGLO num # sub_loop (BIGDN_signed num) xs ys)"

definition bigsub :: "rbignum \<Rightarrow> rbignum \<Rightarrow> rbignum" where
  "bigsub x y =
     (let swap = length (digits x) < length (digits y) \<or>
                 length (digits x) = length (digits y) \<and>
                 cmp_digits (rev (digits x)) (rev (digits y)) < 0;
          (a, b) = (if swap then (y, x) else (x, y))
      in \<lparr>bsign = \<not> swap, digits = sub_loop 0 (digits a) (digits b)\<rparr>)"

fun add_carry :: "u64 \<Rightarrow> u32 list \<Rightarrow> u32 list" where
  "add_carry num [] = [ucast num]"
| "add_carry num (y # ys) =
     (if num \<noteq> 0
      then let num = num + ucast y in BIGLO num # add_carry (BIGDN num) ys
      else (y # ys) @ [ucast num])"

fun add_loop :: "u64 \<Rightarrow> u32 list \<Rightarrow> u32 list \<Rightarrow> u32 list" where
  "add_loop num [] ys = add_carry num ys"
| "add_loop num (x # xs) [] = []"
| "add_loop num (x # xs) (y # ys) =
     (let num = num + (ucast x + ucast y) in BIGLO num # add_loop (BIGDN num) xs ys)"

definition bigadd :: "rbignum \<Rightarrow> rbignum \<Rightarrow> bool \<Rightarrow> rbignum" where
  "bigadd x y sign =
     (let sign = (sign = bsign y)
      in if bsign x \<noteq> sign then (if sign then bigsub y x else bigsub x y)
         else let (a, b) = (if length (digits x) > length (digits y) then (y, x) else (x, y))
              in \<lparr>bsign = sign, digits = add_loop 0 (digits a) (digits b)\<rparr>)"

definition rb_big_plus ::
  "(rbignum \<Rightarrow> 'f \<Rightarrow> ('f, 'o) VALUE) \<Rightarrow> (rbignum \<Rightarrow> 'o \<Rightarrow> ('f, 'o) VALUE) \<Rightarrow>
   rbignum \<Rightarrow> ('f, 'o) VALUE \<Rightarrow> ('f, 'o) VALUE" where
  "rb_big_plus float_plus num_coerce_bin x y =
     (case y of
        Fixnum n \<Rightarrow> bignorm (bigadd x (rb_int2big n) True)
      | Bignum b \<Rightarrow> bignorm (bigadd x b True)
      | Float d \<Rightarrow> float_plus x d
      | Other ob \<Rightarrow> num_coerce_bin x ob)"

definition rb_big_minus ::
  "(rbignum \<Rightarrow> 'f \<Rightarrow> ('f, 'o) VALUE) \<Rightarrow> (rbignum \<Rightarrow> 'o \<Rightarrow> ('f, 'o) VALUE) \<Rightarrow>
   rbignum \<Rightarrow> ('f, 'o) VALUE \<Rightarrow> ('f, 'o) VALUE" where
  "rb_big_minus float_minus num_coerce_bin x y =
     (case y of
        Fixnum n \<Rightarrow> bignorm (bigadd x (rb_int2big n) False)
      | Bignum b \<Rightarrow> bignorm (bigadd x b False)
      | Float d \<Rightarrow> float_minus x d
      | Other ob \<Rightarrow> num_coerce_bin x ob)"

text \<open>
  The schoolbook loops of \<^verbatim>\<open>rb_big_mul\<close>. The last argument is the part of \<^verbatim>\<open>zds\<close> from index
  \<^verbatim>\<open>i + j\<close> on; the inner loop skips the store when nothing is added, and the carry left at its end
  is stored only when it is not zero.
\<close>

fun mul_inner :: "u64 \<Rightarrow> u64 \<Rightarrow> u32 list \<Rightarrow> u32 list \<Rightarrow> u32 list" where
  "mul_inner dd n (y # ys) (z # zs) =
     (let ee = n + dd * ucast y;
          n = ucast z + ee
      in (if ee \<noteq> 0 then BIGLO n else z) # mul_inner dd (BIGDN n) ys zs)"
| "mul_inner dd n [] (z # zs) = (if n \<noteq> 0 then ucast n # zs else z # zs)"
| "mul_inner dd n ys [] = []"

fun mul_outer :: "u32 list \<Rightarrow> u32 list \<Rightarrow> u32 list \<Rightarrow> u32 list" where
  "mul_outer [] ys zs = zs"
| "mul_outer (x # xs) ys zs =
     (case (if x = 0 then zs else mul_inner (ucast x) 0 ys zs) of
        [] \<Rightarrow> []
      | z # zs' \<Rightarrow> z # mul_outer xs ys zs')"

definition big_mul :: "rbignum \<Rightarrow> rbignum \<Rightarrow> rbignum" where
  "big_mul x y =
     \<lparr>bsign = (bsign x = bsign y),
      digits = mul_outer (digits x) (digits y)
                 (replicate (length (digits x) + length (digits y) + 1) 0)\<rparr>"

definition rb_big_mul ::
  "(('f, 'o) VALUE \<Rightarrow> 'f \<Rightarrow> ('f, 'o) VALUE) \<Rightarrow> (('f, 'o) VALUE \<Rightarrow> 'o \<Rightarrow> ('f, 'o) VALUE) \<Rightarrow>
   ('f, 'o) VALUE \<Rightarrow> ('f, 'o) VALUE \<Rightarrow> ('f, 'o) VALUE" where
  "rb_big_mul float_mul num_coerce_bin x y =
     (let x = (case x of Fixnum n \<Rightarrow> Bignum (rb_int2big n) | _ \<Rightarrow> x);
          mul = (\<lambda>b. case x of Bignum a \<Rightarrow> bignorm (big_mul a b) | _ \<Rightarrow> x)
      in case y of
           Fixnum n \<Rightarrow> mul (rb_int2big n)
         | Bignum b \<Rightarrow> mul b
         | Float d \<Rightarrow> float_mul x d
         | Other ob \<Rightarrow> num_coerce_bin x ob)"

text \<open>
  The power loop of \<^verbatim>\<open>rb_big_pow\<close>: \<^verbatim>\<open>z\<close> collects the result while \<^verbatim>\<open>x\<close> is squared. The first function is
  the inner \<^verbatim>\<open>while (yy % 2 == 0)\<close>.
\<close>

function pow_square :: "('a \<Rightarrow> 'a) \<Rightarrow> nat \<Rightarrow> 'a \<Rightarrow> nat \<times> 'a" where
  "pow_square sq yy x =
     (if yy \<noteq> 0 \<and> yy mod 2 = 0 then pow_square sq (yy div 2) (sq x) else (yy, x))"
  by auto
termination
  by (relation "measure (\<lambda>(_, yy, _). yy)") auto

declare pow_square.simps [simp del]

lemma pow_square_le: "fst (pow_square sq yy x) \<le> yy"
  by (induction sq yy x rule: pow_square.induct) (subst pow_square.simps, auto)

function pow_loop :: "('a \<Rightarrow> 'a \<Rightarrow> 'a) \<Rightarrow> nat \<Rightarrow> 'a \<Rightarrow> 'a \<Rightarrow> 'a" where
  "pow_loop mul yy x z =
     (if yy \<le> 1 then z
      else let (yy', x') = pow_square (\<lambda>a. mul a a) (yy - 1) x
           in pow_loop mul yy' x' (mul z x'))"
  by auto
termination
proof (relation "measure (\<lambda>(_, yy, _, _). yy)", goal_cases)
  case (2 mul yy x z p yy' x')
  then show ?case using pow_square_le [of "\<lambda>a. mul a a" "yy - 1" x] by (auto dest: sym)
qed simp

declare pow_loop.simps [simp del]

definition rb_big_pow ::
  "(('f, 'o) VALUE \<Rightarrow> ('f, 'o) VALUE \<Rightarrow> ('f, 'o) VALUE) \<Rightarrow> (rbignum \<Rightarrow> ('f, 'o) VALUE \<Rightarrow> ('f, 'o) VALUE) \<Rightarrow>
   (rbignum \<Rightarrow> 'o \<Rightarrow> ('f, 'o) VALUE) \<Rightarrow> rbignum \<Rightarrow> ('f, 'o) VALUE \<Rightarrow> ('f, 'o) VALUE" where
  "rb_big_pow mul float_pow num_coerce_bin x y =
     (if y = Fixnum 0 then Fixnum 1
      else case y of
             Fixnum yy \<Rightarrow>
               if 0 < sint yy then rb_big_norm (pow_loop mul (nat (sint yy)) (Bignum x) (Bignum x))
               else float_pow x y
           | Other ob \<Rightarrow> num_coerce_bin x ob
           | _ \<Rightarrow> float_pow x y)"

section \<open>Correctness\<close>

subsection \<open>Subtraction of magnitudes\<close>

lemma mod_minus_2_64: "(a - 2 ^ 64) mod 2 ^ 32 = (a :: int) mod 2 ^ 32"
  using mod_mult_self1 [of a "- (2 ^ 32)" "2 ^ 32"] by simp

lemma BIGLO_sint: "int (unat (BIGLO n)) = sint n mod 2 ^ 32"
  using mod_minus_2_64 [of "int (unat n)"] by (simp add: unat_BIGLO sint_unat zmod_int)

lemma BIGDN_signed_sint: "sint (BIGDN_signed n) = sint n div 2 ^ 32"
  by (simp add: BIGDN_signed_def BITSPERDIG_def sint_signed_drop_bit_eq drop_bit_eq_div)

lemma sint_add_small:
  "- (2 ^ 62) \<le> sint a \<Longrightarrow> sint a < 2 ^ 62 \<Longrightarrow> - (2 ^ 62) \<le> sint b \<Longrightarrow> sint b < 2 ^ 62 \<Longrightarrow>
   sint (a + b :: u64) = sint a + sint b"
  by (simp add: sint_word_add signed_take_bit_int_eq_self)

lemma sint_diff_small:
  "- (2 ^ 62) \<le> sint a \<Longrightarrow> sint a < 2 ^ 62 \<Longrightarrow> - (2 ^ 62) \<le> sint b \<Longrightarrow> sint b < 2 ^ 62 \<Longrightarrow>
   sint (a - b :: u64) = sint a - sint b"
  by (simp add: sint_word_diff signed_take_bit_int_eq_self)

lemma sint_dig: "sint (ucast (d :: u32) :: u64) = int (unat d)"
  using unat_dig_less [of d] by (simp add: sint_unat unat_ucast_dig)

lemma digit_step:
  fixes v r :: int and m :: nat
  shows "v mod 2 ^ 32 + 2 ^ 32 * ((v div 2 ^ 32 + r) mod 2 ^ (32 * m)) =
         (v + 2 ^ 32 * r) mod 2 ^ (32 * Suc m)"
proof -
  have "(v + 2 ^ 32 * r) mod (2 ^ 32 * 2 ^ (32 * m)) =
      2 ^ 32 * ((v + 2 ^ 32 * r) div 2 ^ 32 mod 2 ^ (32 * m)) + (v + 2 ^ 32 * r) mod 2 ^ 32"
    by (rule zmod_zmult2_eq) simp
  then show ?thesis by (simp add: power_add add.commute)
qed

lemma borrow_range:
  assumes "sint num \<in> {- 1, 0}" "- (2 ^ 32) < d" "d < 2 ^ 32" "sint num' = sint num + d"
  shows "sint (BIGDN_signed num') \<in> {- 1, 0}"
proof -
  have "- (2 ^ 32) \<le> sint num'" "sint num' < 2 ^ 32" using assms by auto
  moreover have "sint num' div 2 ^ 32 = - 1" if "sint num' < 0"
    using that calculation by (intro int_div_pos_eq [where r = "sint num' + 2 ^ 32"]) auto
  ultimately show ?thesis
    by (cases "sint num' < 0") (auto simp: BIGDN_signed_sint div_pos_pos_trivial)
qed

lemma length_sub_borrow [simp]: "length (sub_borrow num xs) = length xs"
  by (induction xs arbitrary: num) (auto simp: Let_def)

lemma length_sub_loop [simp]: "length ys \<le> length xs \<Longrightarrow> length (sub_loop num xs ys) = length xs"
  by (induction num xs ys rule: sub_loop.induct) (auto simp: Let_def)

lemma dval_sub_borrow:
  "sint num \<in> {- 1, 0} \<Longrightarrow>
   int (dval (sub_borrow num xs)) = (int (dval xs) + sint num) mod 2 ^ (32 * length xs)"
proof (induction xs arbitrary: num)
  case (Cons x xs)
  let ?n = "num + ucast x"
  show ?case
  proof (cases "num = 0")
    case True
    then show ?thesis using int_dval_bound [of "x # xs"] by (simp add: mod_pos_pos_trivial)
  next
    case False
    have n: "sint ?n = sint num + int (unat x)"
      using Cons.prems unat_dig_less [of x] by (subst sint_add_small) (auto simp: sint_dig)
    have "sint (BIGDN_signed ?n) \<in> {- 1, 0}"
      using Cons.prems n unat_dig_less [of x] by (intro borrow_range) auto
    from Cons.IH [OF this] False
    have "int (dval (sub_borrow num (x # xs))) = sint ?n mod 2 ^ 32 +
        2 ^ 32 * ((sint ?n div 2 ^ 32 + int (dval xs)) mod 2 ^ (32 * length xs))"
      by (simp add: Let_def BIGLO_sint BIGDN_signed_sint add.commute)
    also have "\<dots> = (int (dval (x # xs)) + sint num) mod 2 ^ (32 * length (x # xs))"
      unfolding digit_step by (simp add: n algebra_simps)
    finally show ?thesis .
  qed
qed simp

lemma dval_sub_loop:
  "sint num \<in> {- 1, 0} \<Longrightarrow> length ys \<le> length xs \<Longrightarrow>
   int (dval (sub_loop num xs ys)) =
   (int (dval xs) - int (dval ys) + sint num) mod 2 ^ (32 * length xs)"
proof (induction num xs ys rule: sub_loop.induct)
  case (3 num x xs y ys)
  let ?n = "num + (ucast x - ucast y)"
  have n: "sint ?n = sint num + (int (unat x) - int (unat y))"
    using 3(2) unat_dig_less [of x] unat_dig_less [of y]
    by (subst sint_add_small) (auto simp: sint_dig sint_diff_small)
  have "sint (BIGDN_signed ?n) \<in> {- 1, 0}"
    using 3(2) n unat_dig_less [of x] unat_dig_less [of y] by (intro borrow_range) auto
  from 3(1) [OF refl this] 3(3)
  have "int (dval (sub_loop num (x # xs) (y # ys))) = sint ?n mod 2 ^ 32 +
      2 ^ 32 * ((sint ?n div 2 ^ 32 + (int (dval xs) - int (dval ys))) mod 2 ^ (32 * length xs))"
    by (simp add: Let_def BIGLO_sint BIGDN_signed_sint algebra_simps)
  also have "\<dots> = (int (dval (x # xs)) - int (dval (y # ys)) + sint num) mod 2 ^ (32 * length (x # xs))"
    unfolding digit_step n by (simp add: algebra_simps)
  finally show ?case .
qed (simp_all add: dval_sub_borrow)

lemma sub_loop_exact:
  assumes "length ys \<le> length xs" "dval ys \<le> dval xs"
  shows "dval (sub_loop 0 xs ys) = dval xs - dval ys"
proof -
  have "int (dval xs - dval ys) < 2 ^ (32 * length xs)"
    using int_dval_bound [of xs] by linarith
  then have "int (dval (sub_loop 0 xs ys)) = int (dval xs - dval ys)"
    using assms by (simp add: dval_sub_loop mod_pos_pos_trivial of_nat_diff)
  then show ?thesis by simp
qed

text \<open>
  \<^verbatim>\<open>bigsub\<close> returns the exact difference of the magnitudes whenever the longer operand is not the
  smaller one, which holds for digit lists without leading zeros.
\<close>

lemma bigsub_value:
  assumes "length (digits x) < length (digits y) \<Longrightarrow> dval (digits x) \<le> dval (digits y)"
    and "length (digits y) < length (digits x) \<Longrightarrow> dval (digits y) \<le> dval (digits x)"
  shows "big_val (bigsub x y) = int (dval (digits x)) - int (dval (digits y))"
proof -
  have c: "cmp_digits (rev (digits x)) (rev (digits y)) < 0 \<longleftrightarrow> dval (digits x) < dval (digits y)"
    if "length (digits x) = length (digits y)"
    using cmp_digits_correct [OF that] by (auto simp: sgn_if)
  consider "length (digits x) < length (digits y)" | "length (digits y) < length (digits x)"
    | "length (digits x) = length (digits y)" "dval (digits x) < dval (digits y)"
    | "length (digits x) = length (digits y)" "dval (digits y) \<le> dval (digits x)"
    by linarith
  then show ?thesis
    by cases (use assms c in \<open>auto simp: bigsub_def big_val_def sub_loop_exact of_nat_diff\<close>)
qed

subsection \<open>Addition\<close>

lemma dval_carry_step:
  "unat (BIGLO n) + 2 ^ 32 * (unat (BIGDN n) + r) = unat n + 2 ^ 32 * r"
  using BIGLO_BIGDN [of n] by (simp add: algebra_simps)

lemma unat_ucast_small: "unat (n :: u64) < 2 ^ 32 \<Longrightarrow> unat (ucast n :: u32) = unat n"
  by (simp add: unsigned_ucast_eq take_bit_eq_mod)

lemma BIGDN_le: "unat n < 2 ^ 32 * m \<Longrightarrow> unat (BIGDN n) < m"
  by (simp add: unat_BIGDN less_mult_imp_div_less mult.commute)

lemma dval_add_carry: "unat num \<le> 1 \<Longrightarrow> dval (add_carry num ys) = unat num + dval ys"
proof (induction ys arbitrary: num)
  case (Cons y ys)
  let ?n = "num + ucast y :: u64"
  have n: "unat ?n = unat num + unat y"
    using Cons.prems unat_dig_less [of y] by (subst unat_add_dbl) (auto simp: unat_ucast_dig)
  then have "unat (BIGDN ?n) < 2"
    using Cons.prems unat_dig_less [of y] by (intro BIGDN_le) auto
  with Cons.IH [of "BIGDN ?n"] show ?case
    using dval_carry_step [of ?n "dval ys"] by (auto simp: Let_def n dval_append)
qed (simp add: unat_ucast_small)

lemma dval_add_loop:
  "unat num \<le> 1 \<Longrightarrow> length xs \<le> length ys \<Longrightarrow>
   dval (add_loop num xs ys) = unat num + dval xs + dval ys"
proof (induction num xs ys rule: add_loop.induct)
  case (3 num x xs y ys)
  let ?n = "num + (ucast x + ucast y) :: u64"
  have n: "unat ?n = unat num + unat x + unat y"
    using 3(2) unat_dig_less [of x] unat_dig_less [of y]
    by (simp add: unat_add_dbl unat_ucast_dig)
  then have "unat (BIGDN ?n) < 2"
    using 3(2) unat_dig_less [of x] unat_dig_less [of y] by (intro BIGDN_le) auto
  with 3(1) [of ?n] 3(3) show ?case
    using dval_carry_step [of ?n "dval xs + dval ys"]
    by (simp add: Let_def n algebra_simps)
qed (simp_all add: dval_add_carry)

lemma bigadd_same_sign:
  "bsign x = (sign = bsign y) \<Longrightarrow>
   big_val (bigadd x y sign) = big_val x + (if sign then big_val y else - big_val y)"
  by (auto simp: bigadd_def Let_def big_val_def dval_add_loop)

lemma bigadd_value:
  assumes "length (digits x) < length (digits y) \<Longrightarrow> dval (digits x) \<le> dval (digits y)"
    and "length (digits y) < length (digits x) \<Longrightarrow> dval (digits y) \<le> dval (digits x)"
  shows "big_val (bigadd x y sign) = big_val x + (if sign then big_val y else - big_val y)"
proof (cases "bsign x = (sign = bsign y)")
  case True
  then show ?thesis by (rule bigadd_same_sign)
next
  case False
  have "big_val (bigsub x y) = int (dval (digits x)) - int (dval (digits y))"
    "big_val (bigsub y x) = int (dval (digits y)) - int (dval (digits x))"
    using bigsub_value [of x y] bigsub_value [of y x] assms by blast+
  with False show ?thesis
    by (cases "bsign x"; cases sign; cases "bsign y") (simp_all add: bigadd_def Let_def big_val_def)
qed

lemma bigadd_ok:
  assumes "big_ok x" "big_ok y"
  shows "big_val (bigadd x y sign) = big_val x + (if sign then big_val y else - big_val y)"
  using big_ok_length_less [OF assms] big_ok_length_less [OF assms(2,1)]
  by (intro bigadd_value) auto

subsection \<open>Multiplication\<close>

lemma mul_inner_bounds:
  fixes dd n :: u64
  assumes "unat dd < 2 ^ 32" "unat n < 2 ^ 32"
  shows "unat (n + dd * ucast (y :: u32)) = unat n + unat dd * unat y"
    and "unat (ucast (z :: u32) + (n + dd * ucast y)) = unat z + unat n + unat dd * unat y"
proof -
  have "unat dd * unat y \<le> (2 ^ 32 - 1) * (2 ^ 32 - 1)"
    using assms unat_dig_less [of y] by (intro mult_le_mono) auto
  then have b: "unat z + unat n + unat dd * unat y < 2 ^ 64"
    using assms unat_dig_less [of z] by simp
  then have m: "unat (dd * ucast y) = unat dd * unat y"
    by (subst unat_mult_lem [THEN iffD1]) (auto simp: unat_ucast_dig)
  with b show e: "unat (n + dd * ucast y) = unat n + unat dd * unat y"
    by (subst unat_add_dbl) auto
  with b show "unat (ucast z + (n + dd * ucast y)) = unat z + unat n + unat dd * unat y"
    by (subst unat_add_dbl) (auto simp: unat_ucast_dig)
qed

lemma length_mul_inner [simp]: "length (mul_inner dd n ys zs) = length zs"
  by (induction dd n ys zs rule: mul_inner.induct) (auto simp: Let_def)

lemma mul_inner_drop:
  "length ys < k \<Longrightarrow> drop k (mul_inner dd n ys zs) = drop k zs"
  by (induction dd n ys zs arbitrary: k rule: mul_inner.induct)
     (auto simp: Let_def drop_Cons split: nat.splits)

lemma dval_mul_inner:
  "unat dd < 2 ^ 32 \<Longrightarrow> unat n < 2 ^ 32 \<Longrightarrow> length ys < length zs \<Longrightarrow> zs ! length ys = 0 \<Longrightarrow>
   dval (mul_inner dd n ys zs) = dval zs + unat dd * dval ys + unat n"
proof (induction dd n ys zs rule: mul_inner.induct)
  case (1 dd n y ys z zs)
  let ?e = "n + dd * ucast y" and ?n = "ucast z + (n + dd * ucast y)"
  note b = mul_inner_bounds(2) [OF 1(2,3), where y = y and z = z]
  have z: "unat (if ?e \<noteq> 0 then BIGLO ?n else z) = unat (BIGLO ?n)"
    using unat_dig_less [of z] by (auto simp: unat_BIGLO unat_ucast_dig)
  have "dval (mul_inner dd n (y # ys) (z # zs)) =
      unat (BIGLO ?n) + 2 ^ 32 * (unat (BIGDN ?n) + (dval zs + unat dd * dval ys))"
    using 1(1) [OF refl refl 1(2) BIGDN_small] 1(4,5) z by (simp add: Let_def)
  also have "\<dots> = unat ?n + 2 ^ 32 * (dval zs + unat dd * dval ys)"
    by (rule dval_carry_step)
  also have "\<dots> = dval (z # zs) + unat dd * dval (y # ys) + unat n"
    unfolding b by (simp add: algebra_simps)
  finally show ?case .
qed (auto simp: unat_ucast_small unat_eq_0)

lemma dval_mul_outer:
  "length xs + length ys < length zs \<Longrightarrow> set (drop (length ys) zs) \<subseteq> {0} \<Longrightarrow>
   dval (mul_outer xs ys zs) = dval zs + dval xs * dval ys"
proof (induction xs arbitrary: zs)
  case (Cons x xs)
  define zs' where "zs' = (if x = 0 then zs else mul_inner (ucast x) 0 ys zs)"
  have l: "length zs' = length zs" by (simp add: zs'_def)
  have top: "zs ! length ys = 0" "set (drop (Suc (length ys)) zs) \<subseteq> {0}"
    using Cons.prems by (simp_all add: Cons_nth_drop_Suc [symmetric])
  have v: "dval zs' = dval zs + unat x * dval ys"
    using Cons.prems(1) top(1) unat_dig_less [of x]
    by (simp add: zs'_def dval_mul_inner unat_ucast_dig)
  have dr: "drop (Suc (length ys)) zs' = drop (Suc (length ys)) zs"
    by (simp add: zs'_def mul_inner_drop)
  obtain w ws where w: "zs' = w # ws" using l Cons.prems(1) by (cases zs') auto
  have "dval (mul_outer xs ys ws) = dval ws + dval xs * dval ys"
    using dr l Cons.prems(1) w top(2) by (intro Cons.IH) auto
  then have "dval (mul_outer (x # xs) ys zs) = dval zs' + 2 ^ 32 * (dval xs * dval ys)"
    using w by (simp add: zs'_def [symmetric] algebra_simps)
  then show ?case by (simp add: v algebra_simps)
qed simp

lemma big_mul_value: "big_val (big_mul x y) = big_val x * big_val y"
proof -
  have "dval (digits (big_mul x y)) = dval (digits x) * dval (digits y)"
    unfolding big_mul_def
    by (simp only: rbignum.simps, subst dval_mul_outer) (auto dest: in_set_dropD)
  then show ?thesis by (auto simp: big_val_def) (auto simp: big_mul_def)
qed

lemma rb_big_mul_value:
  "int_of x = Some a \<Longrightarrow> int_of y = Some b \<Longrightarrow> int_of (rb_big_mul fm nc x y) = Some (a * b)"
  "int_of x = Some a \<Longrightarrow> int_of y = Some b \<Longrightarrow> canonical (rb_big_mul fm nc x y)"
  by (cases x; cases y; simp add: rb_big_mul_def big_mul_value)+

subsection \<open>Power\<close>

text \<open>
  What the power loop needs of its multiplication: on values that denote integers it denotes the
  product.
\<close>

locale integer_product =
  fixes mul :: "'a \<Rightarrow> 'a \<Rightarrow> 'a" and den :: "'a \<Rightarrow> int \<Rightarrow> bool"
  assumes mul_den: "den x a \<Longrightarrow> den y b \<Longrightarrow> den (mul x y) (a * b)"
begin

lemma square_den:
  "0 < yy \<Longrightarrow> den x a \<Longrightarrow> pow_square (\<lambda>a. mul a a) yy x = (yy', x') \<Longrightarrow>
   0 < yy' \<and> (\<exists>a'. den x' a' \<and> a' ^ yy' = a ^ yy)"
proof (induction "\<lambda>a. mul a a" yy x arbitrary: a rule: pow_square.induct)
  case (1 yy x)
  show ?case
  proof (cases "yy mod 2 = 0")
    case True
    moreover have "pow_square (\<lambda>a. mul a a) (yy div 2) (mul x x) = (yy', x')"
      using 1(4) True 1(2) by (subst (asm) pow_square.simps) simp
    moreover have "(a * a) ^ (yy div 2) = a ^ yy"
      using True by (simp add: power_mult_distrib flip: power_add) (metis even_iff_mod_2_eq_zero
          dvd_mult_div_cancel mult_2)
    ultimately show ?thesis
      using 1(1) [of "a * a"] 1(2) mul_den [OF 1(3) 1(3)] by (auto simp: div_greater_zero_iff)
  next
    case False
    then show ?thesis using 1 by (subst (asm) (2) pow_square.simps) auto
  qed
qed

lemma loop_den:
  "0 < yy \<Longrightarrow> den x a \<Longrightarrow> den z c \<Longrightarrow>
   den (pow_loop mul yy x z) (c * a ^ (yy - 1))"
proof (induction yy arbitrary: x z a c rule: less_induct)
  case (less yy)
  show ?case
  proof (cases "yy = 1")
    case True
    then show ?thesis using less.prems by (simp add: pow_loop.simps)
  next
    case False
    obtain yy' x' where sq: "pow_square (\<lambda>a. mul a a) (yy - 1) x = (yy', x')" by force
    then obtain a' where a': "0 < yy'" "den x' a'" "a' ^ yy' = a ^ (yy - 1)"
      using square_den [OF _ less.prems(2) sq] less.prems(1) False by auto
    have "yy' < yy"
      using pow_square_le [of "\<lambda>a. mul a a" "yy - 1" x] sq less.prems(1) by simp
    from less.IH [OF this a'(1,2) mul_den [OF less.prems(3) a'(2)]]
    have "den (pow_loop mul yy' x' (mul z x')) (c * a' ^ yy')"
      using a'(1) by (simp add: power_eq_if mult.assoc)
    then show ?thesis using a'(3) False less.prems(1) sq by (subst pow_loop.simps) simp
  qed
qed

end

text \<open>The values the loop works on: integers whose Fixnums are in range.\<close>

definition denotes :: "('f, 'o) VALUE \<Rightarrow> int \<Rightarrow> bool" where
  "denotes v a \<longleftrightarrow> int_of v = Some a \<and> (\<forall>n. v = Fixnum n \<longrightarrow> canonical v)"

interpretation big_power: integer_product "rb_big_mul float_mul num_coerce_bin" denotes
  for float_mul num_coerce_bin
  by unfold_locales (auto simp: denotes_def rb_big_mul_value(1) simp del: canonical.simps,
      metis rb_big_mul_value(2))

lemma rb_big_norm_denotes:
  "denotes v a \<Longrightarrow> int_of (rb_big_norm v) = Some a \<and> canonical (rb_big_norm v)"
  by (cases v) (auto simp: denotes_def rb_big_norm_def)

section \<open>Properties\<close>

text \<open>
  Addition and subtraction of a big number and any integer object are exact: with operands as the
  interpreter hands them out, the result denotes the sum or the difference over the integers, whatever
  the signs, and is canonical (a Fixnum whenever one can hold it, no leading zero digit otherwise).
\<close>

theorem rb_big_plus_minus_exact:
  assumes "canonical (Bignum x :: ('f, 'o) VALUE)" "canonical y" "int_of y = Some v"
  shows "int_of (rb_big_plus fp nc x y) = Some (big_val x + v) \<and>
         canonical (rb_big_plus fp nc x y) \<and>
         int_of (rb_big_minus fm nc x y) = Some (big_val x - v) \<and>
         canonical (rb_big_minus fm nc x y)"
proof -
  obtain b where b: "to_big y = Some b" "big_val b = v" using int_of_to_big [OF assms(3)] by blast
  have "big_ok x" using assms(1) by (simp add: big_ok_norm)
  moreover have "rb_big_plus fp nc x y = bignorm (bigadd x b True)"
    "rb_big_minus fm nc x y = bignorm (bigadd x b False)"
    using b by (auto simp: rb_big_plus_def rb_big_minus_def to_big_def split: VALUE.splits)
  ultimately show ?thesis
    using big_ok_to_big [OF assms(2) b(1)] b(2) by (simp add: bigadd_ok)
qed

theorem rb_big_plus_minus_exact_witness:
  "int_of (rb_big_minus (\<lambda>_ _. Fixnum 0) (\<lambda>_ _. Fixnum 0) \<lparr>bsign = True, digits = [0, 0x40000000]\<rparr>
      (Fixnum 1 :: (unit, unit) VALUE)) = Some (2 ^ 62 - 1)"
  using rb_big_plus_minus_exact [of "\<lparr>bsign = True, digits = [0, 0x40000000]\<rparr>"
      "Fixnum 1 :: (unit, unit) VALUE" 1
      "\<lambda>_ _. Fixnum 0" "\<lambda>_ _. Fixnum 0" "\<lambda>_ _. Fixnum 0"]
  by (simp add: big_norm_ok_def big_val_def FIXABLE_iff)

text \<open>
  Multiplication is exact for all integer operands: the schoolbook loops, with the skipped rows and
  skipped stores, produce the canonical value of the product.
\<close>

theorem rb_big_mul_exact:
  assumes "int_of x = Some a" "int_of y = Some b"
  shows "int_of (rb_big_mul fm nc x y) = Some (a * b) \<and> canonical (rb_big_mul fm nc x y)"
  using rb_big_mul_value assms by blast

theorem rb_big_mul_exact_witness:
  "int_of (rb_big_mul (\<lambda>_ _. Other ()) (\<lambda>_ _. Other ()) (Bignum \<lparr>bsign = False, digits = [0, 0x40000000]\<rparr>)
      (Fixnum 3 :: (unit, unit) VALUE)) = Some (- (3 * 2 ^ 62))"
  using rb_big_mul_exact [of "Bignum \<lparr>bsign = False, digits = [0, 0x40000000]\<rparr>" "- (2 ^ 62)"
      "Fixnum 3 :: (unit, unit) VALUE" 3 "\<lambda>_ _. Other ()" "\<lambda>_ _. Other ()"]
  by (simp add: big_val_def)

text \<open>
  C28. Power by repeated squaring terminates and is exact for every Fixnum exponent that is not negative:
  with \<^verbatim>\<open>rb_big_mul\<close> as its multiplication, \<^verbatim>\<open>rb_big_pow\<close> returns the canonical value of the power.
\<close>

theorem rb_big_pow_exact:
  assumes "0 \<le> sint n"
  shows "int_of (rb_big_pow (rb_big_mul fm nc) fp nc' x (Fixnum n)) = Some (big_val x ^ nat (sint n))
         \<and> canonical (rb_big_pow (rb_big_mul fm nc) fp nc' x (Fixnum n))"
proof (cases "n = 0")
  case True
  then show ?thesis by (simp add: rb_big_pow_def FIXABLE_iff)
next
  case False
  then have pos: "0 < sint n" using assms by (simp add: order_less_le signed_eq_0_iff)
  let ?z = "pow_loop (rb_big_mul fm nc) (nat (sint n)) (Bignum x) (Bignum x)"
  have "denotes ?z (big_val x * big_val x ^ (nat (sint n) - 1))"
    by (rule big_power.loop_den) (use pos in \<open>simp_all add: denotes_def\<close>)
  then have "denotes ?z (big_val x ^ nat (sint n))"
    using pos by (simp add: power_eq_if)
  from rb_big_norm_denotes [OF this] show ?thesis
    using False pos by (simp add: rb_big_pow_def)
qed

theorem rb_big_pow_exact_witness:
  "int_of (rb_big_pow (rb_big_mul (\<lambda>_ _. Fixnum 0) (\<lambda>_ _. Fixnum 0)) (\<lambda>_ _. Fixnum 0) (\<lambda>_ _. Fixnum 0)
      \<lparr>bsign = False, digits = [0, 1]\<rparr> (Fixnum 3 :: (unit, unit) VALUE)) = Some (- (2 ^ 96))"
  using rb_big_pow_exact [of 3 "\<lambda>_ _. Fixnum 0 :: (unit, unit) VALUE" "\<lambda>_ _. Fixnum 0" "\<lambda>_ _. Fixnum 0"
      "\<lambda>_ _. Fixnum 0" "\<lparr>bsign = False, digits = [0, 1]\<rparr>"]
  by (simp add: big_val_def)

end
