(* ===== verification/Bignum_Div.thy ===== *)
theory Bignum_Div
  imports Bignum_Arith
begin

text \<open>
  Long division of \<^verbatim>\<open>src/ruby/bignum.c\<close>: \<^verbatim>\<open>bigdivrem\<close>, \<^verbatim>\<open>bigdivmod\<close> and the operators on top of them.
  The loops are recursions over the digit arrays; the two loops whose end depends on the values, the
  search for the normalising shift and the add-back correction, are partial functions into \<^verbatim>\<open>option\<close>,
  so that not returning is \<^verbatim>\<open>None\<close> and the theorems have to show that they return.
\<close>

section \<open>Operations\<close>

text \<open>The division by a single digit, from the top digit down.\<close>

fun small_loop :: "u64 \<Rightarrow> u64 \<Rightarrow> u32 list \<Rightarrow> u32 list \<times> u64" where
  "small_loop dd t2 [] = ([], t2)"
| "small_loop dd t2 (z # zs) =
     (let t2 = BIGUP t2 + ucast z;
          (qs, r) = small_loop dd (t2 mod dd) zs
      in (ucast (t2 div dd) # qs, r))"

text \<open>\<^verbatim>\<open>while ((q & (1<<(BITSPERDIG-1))) == 0)\<close>: the number of places to the top bit.\<close>

partial_function (option) top_shift :: "u32 \<Rightarrow> nat \<Rightarrow> nat option" where
  "top_shift q dd =
     (if q AND push_bit (BITSPERDIG - 1) 1 = 0 then top_shift (push_bit 1 q) (dd + 1) else Some dd)"

text \<open>The two shifting loops: left while copying the operands, right on the remainder.\<close>

fun shl_loop :: "nat \<Rightarrow> u64 \<Rightarrow> u32 list \<Rightarrow> u32 list \<times> u64" where
  "shl_loop dd t2 [] = ([], t2)"
| "shl_loop dd t2 (d # ds) =
     (let t2 = t2 + push_bit dd (ucast d);
          (ds', r) = shl_loop dd (BIGDN t2) ds
      in (BIGLO t2 # ds', r))"

fun shr_loop :: "nat \<Rightarrow> u64 \<Rightarrow> u32 list \<Rightarrow> u32 list" where
  "shr_loop dd t2 [] = []"
| "shr_loop dd t2 (d # ds) =
     (let t2 = drop_bit dd (t2 OR ucast d)
      in BIGLO t2 # shr_loop dd (BIGUP (ucast d)) ds)"

text \<open>
  \<^verbatim>\<open>multiply and subtract\<close>: one row of the long division on the digits \<^verbatim>\<open>zds[j-ny..j-1]\<close>; it returns
  them with the borrow \<^verbatim>\<open>num\<close> and the carry \<^verbatim>\<open>t2\<close> of the product.
\<close>

fun mulsub :: "u64 \<Rightarrow> u64 \<Rightarrow> u64 \<Rightarrow> u32 list \<Rightarrow> u32 list \<Rightarrow> u32 list \<times> u64 \<times> u64" where
  "mulsub q num t2 (y # ys) (z # zs) =
     (let t2 = t2 + ucast y * q;
          ee = num - ucast (BIGLO t2);
          num = ucast z + ee;
          (zs', r) = mulsub q (BIGDN_signed num) (BIGDN t2) ys zs
      in ((if ee \<noteq> 0 then BIGLO num else z) # zs', r))"
| "mulsub q num t2 ys zs = (zs, num, t2)"

text \<open>\<^verbatim>\<open>"add back" required\<close>: one round adds the divisor to the same digits.\<close>

fun add_back :: "u64 \<Rightarrow> u32 list \<Rightarrow> u32 list \<Rightarrow> u32 list \<times> u64" where
  "add_back num (y # ys) (z # zs) =
     (let ee = num + ucast y;
          num = ucast z + ee;
          (zs', r) = add_back (BIGDN_signed num) ys zs
      in ((if ee \<noteq> 0 then BIGLO num else z) # zs', r))"
| "add_back num ys zs = (zs, num)"

partial_function (option) add_back_loop :: "u32 list \<Rightarrow> u64 \<Rightarrow> u32 \<Rightarrow> u32 list \<Rightarrow> (u32 list \<times> u32) option" where
  "add_back_loop ys num q zs =
     (if num = 0 then Some (zs, q)
      else add_back_loop ys (snd (add_back 0 ys zs) - 1) (q - 1) (fst (add_back 0 ys zs)))"

text \<open>One pass of the main loop, for \<^verbatim>\<open>j = k + ny\<close>.\<close>

definition divrem_step :: "u32 list \<Rightarrow> nat \<Rightarrow> u32 list \<Rightarrow> u32 list option" where
  "divrem_step yds k zds =
     (let ny = length yds; j = k + ny;
          q = (if zds ! j = last yds then - 1
               else ucast ((BIGUP (ucast (zds ! j)) + ucast (zds ! (j - 1))) div ucast (last yds)));
          win = take ny (drop k zds)
      in case (if q \<noteq> 0
               then let (win', num, t2) = mulsub (ucast q) 0 0 yds win
                    in add_back_loop yds (num + (ucast (zds ! j) - t2)) q win'
               else Some (win, q)) of
           None \<Rightarrow> None
         | Some (win', q') \<Rightarrow> Some (take k zds @ win' @ q' # drop (Suc j) zds))"

fun divrem_loop :: "u32 list \<Rightarrow> nat \<Rightarrow> u32 list \<Rightarrow> u32 list option" where
  "divrem_loop yds 0 zds = divrem_step yds 0 zds"
| "divrem_loop yds (Suc k) zds =
     (case divrem_step yds (Suc k) zds of None \<Rightarrow> None | Some zds' \<Rightarrow> divrem_loop yds k zds')"

text \<open>
  The part of \<^verbatim>\<open>bigdivrem\<close> for divisors of several digits: normalise, divide, move the quotient down
  and shift the remainder back. Stripping the zero digits of a divisor that has no other runs below
  the array.
\<close>

definition big_long_div :: "rbignum \<Rightarrow> rbignum \<Rightarrow> (rb_error + rbignum \<times> rbignum) option" where
  "big_long_div x y =
     (let nx = length (digits x);
          ext = (if nx = length (digits y) then [0] else []);
          yds = strip_zeros (digits y); ny = length yds
      in if yds = [] then Some (Inl OutOfBounds)
         else case top_shift (last yds) 0 of
           None \<Rightarrow> None
         | Some dd \<Rightarrow>
             let yds' = (if dd \<noteq> 0 then fst (shl_loop dd 0 yds) else yds);
                 zds = (if dd \<noteq> 0
                        then let (ds, t2) = shl_loop dd 0 (digits x) in ds @ [ucast t2]
                        else digits x @ [0]) @ ext
             in case divrem_loop yds' ((if nx = ny then nx + 1 else nx) - ny) zds of
                  None \<Rightarrow> None
                | Some zds' \<Rightarrow>
                    let qs = take ((if nx = ny then nx + 2 else nx + 1) - ny) (drop ny zds');
                        rs = hd zds' # strip_zeros (tl (take ny zds'));
                        rs' = (if dd \<noteq> 0 then rev (shr_loop dd 0 (rev rs)) else rs)
                    in Some (Inr (\<lparr>bsign = (bsign x = bsign y), digits = qs\<rparr>,
                                  \<lparr>bsign = bsign x, digits = rs'\<rparr>)))"

text \<open>
  \<^verbatim>\<open>bigdivrem\<close>. Its zero test asks for a divisor without digits; a divisor that is the single digit 0
  passes it and reaches the machine division of the one-digit loop.
\<close>

definition bigdivrem :: "rbignum \<Rightarrow> rbignum \<Rightarrow> (rb_error + rbignum \<times> rbignum) option" where
  "bigdivrem x y =
     (let nx = length (digits x); ny = length (digits y)
      in if ny = 0 then Some (Inl OutOfBounds)
         else if nx < ny \<or> nx = ny \<and> last (digits x) < last (digits y)
         then Some (Inr (rb_int2big 0, x))
         else if ny = 1
         then let dd = hd (digits y)
              in if dd = 0 then Some (Inl DivideTrap)
                 else let (qs, t2) = small_loop (ucast dd) 0 (rev (digits x))
                      in Some (Inr (\<lparr>bsign = (bsign x = bsign y), digits = rev qs\<rparr>,
                                    (rb_uint2big t2)\<lparr>bsign := bsign x\<rparr>))
         else big_long_div x y)"

definition bigdivmod :: "rbignum \<Rightarrow> rbignum \<Rightarrow> (rb_error + rbignum \<times> rbignum) option" where
  "bigdivmod x y =
     (case bigdivrem x y of
        None \<Rightarrow> None
      | Some (Inl e) \<Rightarrow> Some (Inl e)
      | Some (Inr (d, m)) \<Rightarrow>
          if bsign x \<noteq> bsign y \<and> \<not> (length (digits m) = 1 \<and> digits m ! 0 = 0)
          then Some (Inr (bigadd d (rb_int2big 1) False, bigadd m y True))
          else Some (Inr (d, m)))"

text \<open>
  The operators. A result is \<^verbatim>\<open>None\<close> when a loop does not end, \<^verbatim>\<open>Inl\<close> an error or a crash.
\<close>

definition map_res :: "('a \<Rightarrow> 'b) \<Rightarrow> (rb_error + 'a) option \<Rightarrow> (rb_error + 'b) option" where
  "map_res f = map_option (map_sum id f)"

definition rb_big_div ::
  "(rbignum \<Rightarrow> 'f \<Rightarrow> ('f, 'o) VALUE) \<Rightarrow> (rbignum \<Rightarrow> 'o \<Rightarrow> ('f, 'o) VALUE) \<Rightarrow>
   rbignum \<Rightarrow> ('f, 'o) VALUE \<Rightarrow> (rb_error + ('f, 'o) VALUE) option" where
  "rb_big_div float_div num_coerce_bin x y =
     (case y of
        Fixnum n \<Rightarrow> map_res (\<lambda>(d, m). bignorm d) (bigdivmod x (rb_int2big n))
      | Bignum b \<Rightarrow> map_res (\<lambda>(d, m). bignorm d) (bigdivmod x b)
      | Float d \<Rightarrow> Some (Inr (float_div x d))
      | Other ob \<Rightarrow> Some (Inr (num_coerce_bin x ob)))"

definition rb_big_modulo ::
  "(rbignum \<Rightarrow> ('f, 'o) VALUE \<Rightarrow> ('f, 'o) VALUE) \<Rightarrow>
   rbignum \<Rightarrow> ('f, 'o) VALUE \<Rightarrow> (rb_error + ('f, 'o) VALUE) option" where
  "rb_big_modulo num_coerce_bin x y =
     (case y of
        Fixnum n \<Rightarrow> map_res (\<lambda>(d, m). bignorm m) (bigdivmod x (rb_int2big n))
      | Bignum b \<Rightarrow> map_res (\<lambda>(d, m). bignorm m) (bigdivmod x b)
      | _ \<Rightarrow> Some (Inr (num_coerce_bin x y)))"

definition rb_big_remainder ::
  "(rbignum \<Rightarrow> ('f, 'o) VALUE \<Rightarrow> ('f, 'o) VALUE) \<Rightarrow>
   rbignum \<Rightarrow> ('f, 'o) VALUE \<Rightarrow> (rb_error + ('f, 'o) VALUE) option" where
  "rb_big_remainder num_coerce_bin x y =
     (case y of
        Fixnum n \<Rightarrow> map_res (\<lambda>(d, m). bignorm m) (bigdivrem x (rb_int2big n))
      | Bignum b \<Rightarrow> map_res (\<lambda>(d, m). bignorm m) (bigdivrem x b)
      | _ \<Rightarrow> Some (Inr (num_coerce_bin x y)))"

text \<open>\<^verbatim>\<open>rb_big_divmod\<close> returns an array of two; the coercion branch is the parameter.\<close>

definition rb_big_divmod ::
  "(rbignum \<Rightarrow> ('f, 'o) VALUE \<Rightarrow> ('f, 'o) VALUE \<times> ('f, 'o) VALUE) \<Rightarrow>
   rbignum \<Rightarrow> ('f, 'o) VALUE \<Rightarrow> (rb_error + ('f, 'o) VALUE \<times> ('f, 'o) VALUE) option" where
  "rb_big_divmod num_coerce_bin x y =
     (case y of
        Fixnum n \<Rightarrow> map_res (\<lambda>(d, m). (bignorm d, bignorm m)) (bigdivmod x (rb_int2big n))
      | Bignum b \<Rightarrow> map_res (\<lambda>(d, m). (bignorm d, bignorm m)) (bigdivmod x b)
      | _ \<Rightarrow> Some (Inr (num_coerce_bin x y)))"

section \<open>Correctness of the loops\<close>

subsection \<open>One-digit division\<close>

lemma small_loop_value:
  assumes "small_loop dd t2 zs = (qs, r)" "0 < unat dd" "unat dd < 2 ^ 32" "unat t2 < unat dd"
  shows "length qs = length zs \<and> unat r < unat dd \<and>
         unat t2 * 2 ^ (32 * length zs) + dval (rev zs) = dval (rev qs) * unat dd + unat r"
  using assms
proof (induction zs arbitrary: t2 qs r)
  case (Cons z zs)
  let ?t = "BIGUP t2 + ucast z"
  obtain qs' where s: "small_loop dd (?t mod dd) zs = (qs', r)" and qs: "qs = ucast (?t div dd) # qs'"
    using Cons.prems(1) by (auto simp: Let_def split: prod.splits)
  have up: "unat (BIGUP t2) = 2 ^ 32 * unat t2" using Cons.prems by (intro unat_BIGUP) simp
  have t: "unat ?t = 2 ^ 32 * unat t2 + unat z"
    using Cons.prems unat_dig_less [of z] up by (subst unat_add_dbl) (auto simp: unat_ucast_dig)
  have "unat ?t < 2 ^ 32 * (unat t2 + 1)" using unat_dig_less [of z] by (simp add: t)
  also have "\<dots> \<le> 2 ^ 32 * unat dd" using Cons.prems by (intro mult_le_mono2) simp
  finally have "unat ?t div unat dd < 2 ^ 32" by (simp add: less_mult_imp_div_less)
  then have q: "unat (ucast (?t div dd) :: u32) = unat ?t div unat dd"
    by (subst unat_ucast_small) (simp_all add: unat_div)
  have "unat (?t mod dd) = unat ?t mod unat dd" by (simp add: unat_mod)
  with Cons.IH [OF s] Cons.prems have IH: "length qs' = length zs" "unat r < unat dd"
    "unat ?t mod unat dd * 2 ^ (32 * length zs) + dval (rev zs) = dval (rev qs') * unat dd + unat r"
    by simp_all
  have "unat t2 * 2 ^ (32 * length (z # zs)) + dval (rev (z # zs)) =
      unat ?t * 2 ^ (32 * length zs) + dval (rev zs)"
    by (simp add: t dval_append power_add algebra_simps)
  also have "\<dots> = (unat ?t div unat dd * unat dd + unat ?t mod unat dd) * 2 ^ (32 * length zs) + dval (rev zs)"
    by (simp only: div_mult_mod_eq)
  also have "\<dots> = unat ?t div unat dd * unat dd * 2 ^ (32 * length zs) + (dval (rev qs') * unat dd + unat r)"
    by (simp only: IH(3) [symmetric] distrib_right add.assoc)
  also have "\<dots> = dval (rev qs) * unat dd + unat r"
    by (simp add: qs q dval_append IH(1) algebra_simps)
  finally show ?case using IH by (simp add: qs)
qed simp

subsection \<open>Shifts\<close>

lemma top_bit_clear: "(q :: u32) AND push_bit (BITSPERDIG - 1) 1 = 0 \<longleftrightarrow> unat q < 2 ^ 31"
proof -
  have "bit q 31 \<longleftrightarrow> odd (unat q div 2 ^ 31)"
  proof -
    have "bit q 31 \<longleftrightarrow> bit (unat q) 31" by (simp add: bit_unsigned_iff)
    then show ?thesis by (simp only: bit_iff_odd)
  qed
  also have "\<dots> \<longleftrightarrow> \<not> unat q < 2 ^ 31"
    using unat_dig_less [of q] div_nat_eqI [of "2 ^ 31" 1 "unat q"] by (cases "unat q < 2 ^ 31") auto
  finally show ?thesis
    unfolding BITSPERDIG_def push_bit_of_1 and_exp_eq_0_iff_not_bit by simp
qed

lemma unat_shl: "unat (d :: u32) < 2 ^ 31 \<Longrightarrow> unat (push_bit 1 d) = 2 * unat d"
  by (simp add: push_bit_eq_mult unat_word_ariths)

lemma top_shift_value:
  "q \<noteq> 0 \<Longrightarrow> \<exists>s. top_shift q dd = Some (dd + s) \<and> 2 ^ 31 \<le> unat q * 2 ^ s \<and> unat q * 2 ^ s < 2 ^ 32"
proof (induction "2 ^ 32 - unat q" arbitrary: q dd rule: less_induct)
  case less
  show ?case
  proof (cases "unat q < 2 ^ 31")
    case True
    have "0 < unat q" using less.prems by (simp add: unat_gt_0)
    then have m: "2 ^ 32 - unat (push_bit 1 q) < 2 ^ 32 - unat q"
      unfolding unat_shl [OF True] using True by (intro diff_less_mono2) simp_all
    have "push_bit 1 q \<noteq> 0"
    proof
      assume "push_bit 1 q = 0"
      with unat_shl [OF True] \<open>0 < unat q\<close> show False by (simp del: push_bit_Suc)
    qed
    from less.hyps [OF m this, of "dd + 1"] unat_shl [OF True]
    obtain s where "top_shift (push_bit 1 q) (dd + 1) = Some (dd + 1 + s)"
      "2 ^ 31 \<le> 2 * unat q * 2 ^ s" "2 * unat q * 2 ^ s < 2 ^ 32"
      by auto
    with True show ?thesis
      by (intro exI [of _ "Suc s"]) (subst top_shift.simps, unfold top_bit_clear, simp add: algebra_simps)
  next
    case False
    then show ?thesis using unat_dig_less [of q]
      by (intro exI [of _ 0]) (subst top_shift.simps, unfold top_bit_clear, simp)
  qed
qed

lemma unat_push_dig: "dd < 32 \<Longrightarrow> unat (push_bit dd (ucast (d :: u32)) :: u64) = unat d * 2 ^ dd"
proof -
  assume "dd < 32"
  then have "unat d * 2 ^ dd < 2 ^ 32 * 2 ^ 32"
    using unat_dig_less [of d] by (intro mult_strict_mono power_strict_increasing) auto
  then show ?thesis
    unfolding unsigned_push_bit_eq unat_ucast_dig
    by (simp only: take_bit_eq_mod push_bit_eq_mult) (simp add: mult.commute)
qed

lemma shl_step:
  assumes "dd < 32" "unat t2 < 2 ^ dd"
  shows "unat (t2 + push_bit dd (ucast (d :: u32))) = unat t2 + unat d * 2 ^ dd"
    and "unat (BIGDN (t2 + push_bit dd (ucast d))) < 2 ^ dd"
proof -
  have b: "unat t2 + unat d * 2 ^ dd < 2 ^ 32 * 2 ^ dd"
  proof -
    have "unat t2 + unat d * 2 ^ dd < (1 + unat d) * 2 ^ dd" using assms by simp
    also have "\<dots> \<le> 2 ^ 32 * 2 ^ dd" using unat_dig_less [of d] by (intro mult_le_mono1) simp
    finally show ?thesis .
  qed
  moreover have "(2 :: nat) ^ 32 * 2 ^ dd \<le> 2 ^ 32 * 2 ^ 32"
    using assms by (intro mult_le_mono2 power_increasing) auto
  ultimately show t: "unat (t2 + push_bit dd (ucast d)) = unat t2 + unat d * 2 ^ dd"
    using assms by (subst unat_add_dbl) (simp_all add: unat_push_dig)
  show "unat (BIGDN (t2 + push_bit dd (ucast d))) < 2 ^ dd" using b t by (intro BIGDN_le) simp
qed

lemma shl_loop_value:
  assumes "shl_loop dd t2 ds = (ds', r)" "dd < 32" "unat t2 < 2 ^ dd"
  shows "length ds' = length ds \<and> unat r < 2 ^ dd \<and>
         dval ds' + 2 ^ (32 * length ds) * unat r = dval ds * 2 ^ dd + unat t2"
  using assms
proof (induction ds arbitrary: t2 ds' r)
  case (Cons d ds)
  let ?t = "t2 + push_bit dd (ucast d)"
  obtain ds'' where s: "shl_loop dd (BIGDN ?t) ds = (ds'', r)" and ds': "ds' = BIGLO ?t # ds''"
    using Cons.prems(1) by (auto simp: Let_def split: prod.splits)
  note t = shl_step(1) [OF Cons.prems(2,3), of d]
  from Cons.IH [OF s Cons.prems(2) shl_step(2) [OF Cons.prems(2,3)]]
  have IH: "length ds'' = length ds" "unat r < 2 ^ dd"
    "dval ds'' + 2 ^ (32 * length ds) * unat r = dval ds * 2 ^ dd + unat (BIGDN ?t)"
    by simp_all
  have "dval ds' + 2 ^ (32 * length (d # ds)) * unat r =
      unat (BIGLO ?t) + 2 ^ 32 * (dval ds'' + 2 ^ (32 * length ds) * unat r)"
    by (simp add: ds' power_add algebra_simps)
  also have "\<dots> = unat (BIGLO ?t) + 2 ^ 32 * (unat (BIGDN ?t) + dval ds * 2 ^ dd)"
    unfolding IH(3) by simp
  also have "\<dots> = dval (d # ds) * 2 ^ dd + unat t2"
    unfolding dval_carry_step t by (simp add: algebra_simps)
  finally show ?case using IH by (simp add: ds')
qed simp

lemma div_div_power: "(a :: nat) div 2 ^ i div 2 ^ j = a div 2 ^ j div 2 ^ i"
  by (simp add: div_mult2_eq [symmetric] mult.commute)

lemma shr_loop_value:
  assumes "dd < 32"
  shows "length (shr_loop dd (BIGUP (ucast (p :: u32))) ds) = length ds \<and>
         dval (rev (shr_loop dd (BIGUP (ucast p)) ds)) =
         (unat p * 2 ^ (32 * length ds) + dval (rev ds)) div 2 ^ dd mod 2 ^ (32 * length ds)"
proof (induction ds arbitrary: p)
  case (Cons d ds)
  let ?n = "32 * length ds" and ?t = "drop_bit dd (BIGUP (ucast p) OR ucast d)"
  let ?T = "unat p * 2 ^ (32 + ?n) + (unat d * 2 ^ ?n + dval (rev ds))"
  have up: "unat (BIGUP (ucast p)) = 2 ^ 32 * unat p"
    using unat_dig_less [of p] unat_BIGUP [of "ucast p"] by (simp add: unat_ucast_dig)
  have "BIGUP (ucast p) AND ucast d = 0"
    by (rule bit_word_eqI) (auto simp: BIGUP_def BITSPERDIG_def bit_simps dest: bit_imp_le_length)
  then have "unat (BIGUP (ucast p) OR ucast d) = 2 ^ 32 * unat p + unat d"
    using up unat_dig_less [of p] unat_dig_less [of d]
    by (simp add: disjunctive_add_eq_or [symmetric] unat_add_dbl unat_ucast_dig)
  then have t: "unat ?t = (2 ^ 32 * unat p + unat d) div 2 ^ dd"
    by (simp only: unat_drop_bit)
  have hi: "?T div 2 ^ dd div 2 ^ ?n = (2 ^ 32 * unat p + unat d) div 2 ^ dd"
  proof -
    have "?T div 2 ^ ?n = 2 ^ 32 * unat p + unat d"
      using dval_bound [of "rev ds"]
      by (intro div_nat_eqI) (simp_all add: power_add algebra_simps)
    then show ?thesis by (subst div_div_power) (simp only:)
  qed
  have lo: "?T div 2 ^ dd mod 2 ^ ?n = (unat d * 2 ^ ?n + dval (rev ds)) div 2 ^ dd mod 2 ^ ?n"
  proof -
    have "?T = unat d * 2 ^ ?n + dval (rev ds) + (unat p * 2 ^ (32 - dd) * 2 ^ ?n) * 2 ^ dd"
      using assms by (simp add: power_add [symmetric] mult.assoc)
    then show ?thesis by (simp only: div_mult_self1 power_not_zero) simp
  qed
  have "?T div 2 ^ dd mod 2 ^ (32 + ?n) =
      2 ^ ?n * (?T div 2 ^ dd div 2 ^ ?n mod 2 ^ 32) + ?T div 2 ^ dd mod 2 ^ ?n"
    using mod_mult2_eq [of "?T div 2 ^ dd" "2 ^ ?n" "2 ^ 32"]
    by (simp only: power_add mult.commute [of "2 ^ 32"])
  also have "\<dots> = dval (rev (shr_loop dd (BIGUP (ucast p)) (d # ds)))"
    unfolding hi lo using Cons.IH [of d] by (simp add: Let_def dval_append unat_BIGLO t del: drop_bit_or)
  finally show ?case using Cons.IH [of d] by (simp add: Let_def dval_append algebra_simps)
qed simp

lemma shr_digits_value:
  assumes "dd < 32"
  shows "length (rev (shr_loop dd 0 (rev ds))) = length ds"
    and "dval (rev (shr_loop dd 0 (rev ds))) = dval ds div 2 ^ dd"
proof -
  have z: "0 = BIGUP (ucast (0 :: u32))" by (simp add: BIGUP_def)
  show "length (rev (shr_loop dd 0 (rev ds))) = length ds"
    unfolding z using shr_loop_value [OF assms, of 0 "rev ds"] by simp
  have "dval ds div 2 ^ dd < 2 ^ (32 * length ds)"
    using dval_bound [of ds] div_le_dividend le_less_trans by blast
  then show "dval (rev (shr_loop dd 0 (rev ds))) = dval ds div 2 ^ dd"
    unfolding z using shr_loop_value [OF assms, of 0 "rev ds"] by simp
qed

subsection \<open>Multiply, subtract and add back\<close>

lemma mulsub_value:
  assumes "mulsub q num t2 ys zs = (zs', num', t2')" "length ys = length zs"
    "unat q < 2 ^ 32" "unat t2 < 2 ^ 32" "sint num \<in> {- 1, 0}"
  shows "length zs' = length zs \<and> unat t2' < 2 ^ 32 \<and> sint num' \<in> {- 1, 0} \<and>
         int (dval zs) + sint num - int (unat q * dval ys + unat t2) =
         int (dval zs') + 2 ^ (32 * length zs) * (sint num' - int (unat t2'))"
  using assms
proof (induction q num t2 ys zs arbitrary: zs' rule: mulsub.induct)
  case (1 q num t2 y ys z zs)
  define t where "t = t2 + ucast y * q"
  define ee where "ee = num - ucast (BIGLO t)"
  define n where "n = ucast z + ee"
  obtain zs'' where s: "mulsub q (BIGDN_signed n) (BIGDN t) ys zs = (zs'', num', t2')"
    and zs': "zs' = (if ee \<noteq> 0 then BIGLO n else z) # zs''"
    using 1(2) by (auto simp: Let_def t_def ee_def n_def split: prod.splits)
  have t: "unat t = unat t2 + unat q * unat y"
    using mul_inner_bounds(1) [OF 1(4,5), of y] by (simp add: t_def mult.commute)
  have ee: "sint ee = sint num - int (unat (BIGLO t))"
    using 1(6) unat_dig_less [of "BIGLO t"] unfolding ee_def
    by (subst sint_diff_small) (auto simp: sint_dig)
  have n: "sint n = sint num + (int (unat z) - int (unat (BIGLO t)))"
    using 1(6) unat_dig_less [of "BIGLO t"] unat_dig_less [of z] unfolding n_def
    by (subst sint_add_small) (auto simp: sint_dig ee)
  have c: "sint (BIGDN_signed n) \<in> {- 1, 0}"
    using 1(6) n unat_dig_less [of "BIGLO t"] unat_dig_less [of z] by (intro borrow_range) auto
  have z: "int (unat (if ee \<noteq> 0 then BIGLO n else z)) = sint n mod 2 ^ 32"
    using unat_dig_less [of z] by (auto simp: BIGLO_sint n_def sint_dig)
  from 1(1) [OF t_def ee_def n_def s _ 1(4) BIGDN_small c] 1(3)
  have IH: "length zs'' = length zs" "unat t2' < 2 ^ 32" "sint num' \<in> {- 1, 0}"
    "int (dval zs) + sint (BIGDN_signed n) - int (unat q * dval ys + unat (BIGDN t)) =
     int (dval zs'') + 2 ^ (32 * length zs) * (sint num' - int (unat t2'))"
    by auto
  have tt: "int (unat t) = int (unat (BIGLO t)) + 2 ^ 32 * int (unat (BIGDN t))"
    using BIGLO_BIGDN [of t] by (simp flip: of_nat_add of_nat_mult of_nat_power) 
  have nn: "sint n = sint n mod 2 ^ 32 + 2 ^ 32 * sint (BIGDN_signed n)"
    by (simp add: BIGDN_signed_sint)
  have "int (dval (z # zs)) + sint num - int (unat q * dval (y # ys) + unat t2) =
      (sint n + int (unat (BIGLO t)) - int (unat t)) + 2 ^ 32 * (int (dval zs) - int (unat q * dval ys))"
    by (simp add: n t algebra_simps)
  also have "\<dots> = sint n mod 2 ^ 32 +
      2 ^ 32 * (int (dval zs) + sint (BIGDN_signed n) - int (unat q * dval ys + unat (BIGDN t)))"
    by (subst nn, subst tt) (simp add: algebra_simps)
  also have "\<dots> = int (dval zs') + 2 ^ (32 * length (z # zs)) * (sint num' - int (unat t2'))"
    unfolding IH(4) by (simp add: zs' z power_add algebra_simps)
  finally show ?case using IH by (simp add: zs')
qed auto

lemma BIGDN_signed_pos: "unat n < 2 ^ 63 \<Longrightarrow> BIGDN_signed n = BIGDN n"
proof -
  assume a: "unat n < 2 ^ 63"
  then have "unat n div 2 ^ 32 < 2 ^ 63" by (simp add: less_mult_imp_div_less)
  with a have "sint (BIGDN_signed n) = sint (BIGDN n)"
    unfolding BIGDN_signed_sint
    by (simp add: sint_unat [of n] sint_unat [of "BIGDN n"] unat_BIGDN zdiv_int)
  then show ?thesis by (simp add: signed_word_eqI)
qed

lemma add_back_value:
  assumes "add_back num ys zs = (zs', c)" "length ys = length zs" "unat num \<le> 1"
  shows "length zs' = length zs \<and> unat c \<le> 1 \<and>
         dval zs + dval ys + unat num = dval zs' + 2 ^ (32 * length zs) * unat c"
  using assms
proof (induction num ys zs arbitrary: zs' rule: add_back.induct)
  case (1 num y ys z zs)
  define ee where "ee = num + ucast y"
  define n where "n = ucast z + ee"
  have ee: "unat ee = unat num + unat y"
    using 1(4) unat_dig_less [of y] by (simp add: ee_def unat_add_dbl unat_ucast_dig)
  have n: "unat n = unat z + unat num + unat y"
    using 1(4) ee unat_dig_less [of y] unat_dig_less [of z]
    by (simp add: n_def unat_add_dbl unat_ucast_dig)
  have dn: "BIGDN_signed n = BIGDN n"
    using 1(4) n unat_dig_less [of y] unat_dig_less [of z] by (intro BIGDN_signed_pos) simp
  obtain zs'' where s: "add_back (BIGDN n) ys zs = (zs'', c)"
    and zs': "zs' = (if ee \<noteq> 0 then BIGLO n else z) # zs''"
    using 1(2) dn by (auto simp: Let_def ee_def n_def split: prod.splits)
  have "unat n < 2 ^ 32 * 2" using 1(4) n unat_dig_less [of y] unat_dig_less [of z] by simp
  then have c: "unat (BIGDN n) \<le> 1" using BIGDN_le [of n 2] by simp
  have z: "unat (if ee \<noteq> 0 then BIGLO n else z) = unat (BIGLO n)"
    using unat_dig_less [of z] by (auto simp: n_def unat_BIGLO unat_ucast_dig)
  from 1(1) [OF ee_def n_def] dn s c 1(3)
  have IH: "length zs'' = length zs" "unat c \<le> 1"
    "dval zs + dval ys + unat (BIGDN n) = dval zs'' + 2 ^ (32 * length zs) * unat c"
    by auto
  have "dval (z # zs) + dval (y # ys) + unat num = unat n + 2 ^ 32 * (dval zs + dval ys)"
    by (simp add: n algebra_simps)
  also have "\<dots> = unat (BIGLO n) + 2 ^ 32 * (dval zs + dval ys + unat (BIGDN n))"
    using dval_carry_step [of n "dval zs + dval ys"] by (simp add: algebra_simps)
  also have "\<dots> = dval zs' + 2 ^ (32 * length (z # zs)) * unat c"
    unfolding IH(3) using z by (simp add: zs' power_add algebra_simps)
  finally show ?case using IH by (simp add: zs')
qed auto

lemma add_back_loop_value:
  assumes "length zs = length ys" "0 < dval ys"
  shows "\<exists>m zs'. add_back_loop ys (- 1) q zs = Some (zs', q - of_nat m) \<and> length zs' = length ys \<and>
           dval zs' < dval ys \<and> dval zs' + 2 ^ (32 * length ys) = dval zs + m * dval ys"
  using assms
proof (induction "2 ^ (32 * length ys) - dval zs" arbitrary: q zs rule: less_induct)
  case less
  obtain zs1 c where ab: "add_back 0 ys zs = (zs1, c)" by force
  from add_back_value [OF ab] less.prems
  have v: "length zs1 = length ys" "unat c \<le> 1" "dval zs + dval ys = dval zs1 + 2 ^ (32 * length ys) * unat c"
    by auto
  have step: "add_back_loop ys (- 1) q zs = add_back_loop ys (c - 1) (q - 1) zs1"
    by (subst add_back_loop.simps) (simp add: ab)
  have S: "dval zs < 2 ^ (32 * length ys)" using dval_bound [of zs] less.prems by simp
  show ?case
  proof (cases "unat c = 0")
    case True
    then have c: "c - 1 = - 1" and d: "dval zs1 = dval zs + dval ys" using v by (simp_all add: unat_eq_0)
    have "2 ^ (32 * length ys) - dval zs1 < 2 ^ (32 * length ys) - dval zs"
      using S d less.prems by (simp add: diff_less_mono2)
    from less.hyps [OF this v(1) less.prems(2), of "q - 1"]
    obtain m zs' where "add_back_loop ys (- 1) (q - 1) zs1 = Some (zs', q - 1 - of_nat m)"
      "length zs' = length ys" "dval zs' < dval ys" "dval zs' + 2 ^ (32 * length ys) = dval zs1 + m * dval ys"
      by blast
    then show ?thesis
      using d by (intro exI [of _ "Suc m"] exI [of _ zs']) (simp add: step c algebra_simps)
  next
    case False
    then have u: "unat c = 1" using v(2) by simp
    then have "c = 1" by (simp add: word_unat_eq_iff)
    then have "add_back_loop ys (- 1) q zs = Some (zs1, q - 1)"
      unfolding step by (subst add_back_loop.simps) simp
    then show ?thesis using v u S by (intro exI [of _ 1] exI [of _ zs1]) auto
  qed
qed

lemma qhat_bounds:
  fixes P z z1 r y0 yt :: nat
  assumes r: "r < P" and y0: "y0 < P" and yt: "0 < yt" and z1: "z1 < 2 ^ 32" and ytB: "yt < 2 ^ 32"
    and R: "R = r + P * (z1 + 2 ^ 32 * z)" and Y: "Y = y0 + P * yt" and RY: "R < 2 ^ 32 * Y"
    and q: "q = (if z = yt then 2 ^ 32 - 1 else (2 ^ 32 * z + z1) div yt)"
  shows "z \<le> yt \<and> q < 2 ^ 32 \<and> R div Y \<le> q \<and> q * Y < R + 2 ^ 32 * P"
proof -
  have "z \<le> yt"
  proof (rule ccontr)
    assume "\<not> ?thesis"
    then have "2 ^ 32 * (P * (yt + 1)) \<le> 2 ^ 32 * (P * z)" by (intro mult_le_mono2) simp
    also have "\<dots> \<le> R" using R by (simp add: algebra_simps)
    also have "\<dots> < 2 ^ 32 * Y" by (rule RY)
    finally show False using Y y0 by (simp add: algebra_simps)
  qed
  have qy: "q * yt \<le> 2 ^ 32 * z + z1"
    using q by (auto simp: diff_mult_distrib)
  have "q < 2 ^ 32"
  proof (cases "z = yt")
    case False
    then have "2 ^ 32 * z + z1 < 2 ^ 32 * (z + 1)" using z1 by simp
    also have "\<dots> \<le> 2 ^ 32 * yt" using False \<open>z \<le> yt\<close> by (intro mult_le_mono2) simp
    finally show ?thesis using False q by (simp add: less_mult_imp_div_less)
  qed (simp add: q)
  moreover have "R div Y \<le> q"
  proof (cases "z = yt")
    case True
    then show ?thesis using RY q by (simp add: less_mult_imp_div_less less_Suc_eq_le [symmetric])
  next
    case False
    have "R div Y * Y \<le> R" by simp
    then have "P * (R div Y * yt) \<le> R" using Y by (simp add: algebra_simps)
    also have "R < P * (2 ^ 32 * z + z1 + 1)" using R r by (simp add: algebra_simps)
    finally have "R div Y * yt < 2 ^ 32 * z + z1 + 1" using mult_less_cancel1 by blast
    then have "R div Y * yt \<le> 2 ^ 32 * z + z1" by simp
    then show ?thesis using False q yt by (simp add: less_eq_div_iff_mult_less_eq)
  qed
  moreover have "q * Y < R + 2 ^ 32 * P"
  proof -
    have "q * Y = P * (q * yt) + q * y0" using Y by (simp add: algebra_simps)
    also have "\<dots> \<le> P * (2 ^ 32 * z + z1) + q * y0" using qy by simp
    also have "P * (2 ^ 32 * z + z1) \<le> R" using R by (simp add: algebra_simps)
    finally have "q * Y \<le> R + q * y0" by simp
    also have "q * y0 < 2 ^ 32 * P" using \<open>q < 2 ^ 32\<close> y0 by (intro mult_strict_mono) auto
    finally show ?thesis by simp
  qed
  ultimately show ?thesis using \<open>z \<le> yt\<close> by blast
qed

subsection \<open>The main loop\<close>

lemma qhat_word:
  fixes z z1 yt :: u32
  assumes "unat z \<le> unat yt" "0 < unat yt"
  shows "unat (if z = yt then - 1 else ucast ((BIGUP (ucast z) + ucast z1) div ucast yt) :: u32) =
         (if unat z = unat yt then 2 ^ 32 - 1 else (2 ^ 32 * unat z + unat z1) div unat yt)"
proof (cases "z = yt")
  case True
  then show ?thesis by (simp add: unsigned_minus_1_eq_mask mask_eq_exp_minus_1)
next
  case False
  have up: "unat (BIGUP (ucast z)) = 2 ^ 32 * unat z"
    using unat_dig_less [of z] unat_BIGUP [of "ucast z"] by (simp add: unat_ucast_dig)
  have t: "unat (BIGUP (ucast z) + ucast z1) = 2 ^ 32 * unat z + unat z1"
    using unat_dig_less [of z] unat_dig_less [of z1] up by (simp add: unat_add_dbl unat_ucast_dig)
  have "2 ^ 32 * unat z + unat z1 < 2 ^ 32 * (unat z + 1)" using unat_dig_less [of z1] by simp
  also have "\<dots> \<le> 2 ^ 32 * unat yt"
    using False assms(1) by (intro mult_le_mono2) (simp add: word_unat_eq_iff)
  finally have "(2 ^ 32 * unat z + unat z1) div unat yt < 2 ^ 32"
    by (simp add: less_mult_imp_div_less)
  then have "unat (ucast ((BIGUP (ucast z) + ucast z1) div ucast yt) :: u32) =
      (2 ^ 32 * unat z + unat z1) div unat yt"
    by (subst unat_ucast_small) (simp_all add: unat_div t unat_ucast_dig)
  then show ?thesis using False by (simp add: word_unat_eq_iff)
qed

text \<open>Subtracting the estimated row and adding back leaves the remainder and the quotient digit.\<close>

lemma divrem_row:
  fixes q z :: u32
  assumes len: "length win = length ys" and y: "0 < dval ys"
    and R: "R = dval win + 2 ^ (32 * length ys) * unat z" and RY: "R < 2 ^ 32 * dval ys"
    and q: "R div dval ys \<le> unat q" "unat q * dval ys < R + 2 ^ (32 * length ys)"
    and ms: "mulsub (ucast q) 0 0 ys win = (win1, num, t2)"
  shows "\<exists>win' q'. add_back_loop ys (num + (ucast z - t2)) q win1 = Some (win', q') \<and>
           length win' = length ys \<and> dval win' < dval ys \<and> R = unat q' * dval ys + dval win'"
proof -
  let ?Y = "dval ys" and ?B = "2 ^ (32 * length ys)"
  from mulsub_value [OF ms] len unat_dig_less [of q]
  have v: "length win1 = length ys" "unat t2 < 2 ^ 32" "sint num \<in> {- 1, 0}"
    "int (dval win) - int (unat q * ?Y) = int (dval win1) + 2 ^ (32 * length ys) * (sint num - int (unat t2))"
    by (auto simp: unat_ucast_dig)
  define top where "top = sint num + (int (unat z) - int (unat t2))"
  have sub: "int R - int (unat q * ?Y) = int (dval win1) + 2 ^ (32 * length ys) * top"
    using v(4) by (simp add: R top_def algebra_simps)
  have w: "sint (num + (ucast z - t2)) = top"
    using v(2,3) unat_dig_less [of z]
    by (subst sint_add_small) (auto simp: sint_diff_small sint_dig sint_unat [of t2] top_def)
  have YB: "?Y < ?B" by (rule dval_bound)
  have S: "int (dval win1) < 2 ^ (32 * length ys)" using int_dval_bound [of win1] v(1) by simp
  have top: "top = (int R - int (unat q * ?Y)) div 2 ^ (32 * length ys)"
    using S unfolding sub by (simp add: div_pos_pos_trivial)
  show ?thesis
  proof (cases "unat q * ?Y \<le> R")
    case True
    have "R < (R div ?Y + 1) * ?Y" using y dividend_less_div_times [of ?Y R] by (simp add: algebra_simps)
    also have "\<dots> \<le> (unat q + 1) * ?Y" using q(1) by (intro mult_le_mono1) simp
    finally have less: "int R - int (unat q * ?Y) < int ?Y" by (simp add: algebra_simps flip: of_nat_mult)
    have "int ?Y < 2 ^ (32 * length ys)" by (rule int_dval_bound)
    with less of_nat_mono [OF True, where 'a=int] have "top = 0"
      unfolding top by (intro div_pos_pos_trivial) linarith+
    then have "num + (ucast z - t2) = 0" using w by (simp add: signed_eq_0_iff)
    moreover have "int R = int (unat q * ?Y + dval win1)" using sub \<open>top = 0\<close> by simp
    ultimately show ?thesis
      using v(1) less by (subst add_back_loop.simps) (auto simp: of_nat_eq_iff simp del: of_nat_add of_nat_mult)
  next
    case False
    have i: "int R < int (unat q * ?Y)" "int (unat q * ?Y) < int (R + ?B)"
      using False q(2) by (simp_all only: of_nat_less_iff not_le)
    have "top + 1 = (int R - int (unat q * ?Y) + 2 ^ (32 * length ys)) div 2 ^ (32 * length ys)"
      unfolding top by (rule div_add_self2 [symmetric]) simp
    also have "\<dots> = 0" using i by (intro div_pos_pos_trivial) simp_all
    finally have t: "top = - 1" by simp
    then have num: "num + (ucast z - t2) = - 1" using w by (metis signed_minus_1 signed_word_eqI)
    obtain m zs' where ab: "add_back_loop ys (- 1) q win1 = Some (zs', q - of_nat m)"
      "length zs' = length ys" "dval zs' < ?Y" "dval zs' + ?B = dval win1 + m * ?Y"
      using add_back_loop_value [OF v(1) y] by blast
    have "int R - int (unat q * ?Y) = int (dval win1) - int ?B" using sub t by simp
    then have e: "R + m * ?Y = unat q * ?Y + dval zs'"
      using ab(4) by (simp flip: of_nat_eq_iff [where 'a=int])
    have "m \<le> unat q"
    proof (rule ccontr)
      assume "\<not> ?thesis"
      then have "(unat q + 1) * ?Y \<le> m * ?Y" by (intro mult_le_mono1) simp
      with e ab(3) show False by simp
    qed
    then have "unat (q - of_nat m) = unat q - m"
      using unat_dig_less [of q] by (simp add: unat_sub_if' unat_of_nat)
    moreover have "R = (unat q - m) * ?Y + dval zs'"
      using e \<open>m \<le> unat q\<close> by (simp add: diff_mult_distrib)
    ultimately show ?thesis using ab num by auto
  qed
qed

lemma divrem_step_value:
  assumes y: "yds \<noteq> []" "last yds \<noteq> 0" and len: "k + length yds < length zds"
    and W: "dval (take (length yds) (drop (Suc k) zds)) < dval yds"
  shows "\<exists>win q. divrem_step yds k zds = Some (take k zds @ win @ q # drop (Suc (k + length yds)) zds) \<and>
           length win = length yds \<and> dval win < dval yds \<and>
           dval (take (Suc (length yds)) (drop k zds)) = unat q * dval yds + dval win"
proof -
  let ?n = "length yds" and ?Y = "dval yds"
  define win where "win = take ?n (drop k zds)"
  define z where "z = zds ! (k + ?n)"
  define z1 where "z1 = zds ! (k + ?n - 1)"
  define q0 :: u32 where
    "q0 = (if z = last yds then - 1 else ucast ((BIGUP (ucast z) + ucast z1) div ucast (last yds)))"
  define R where "R = dval (take (Suc ?n) (drop k zds))"
  define r where "r = dval (take (?n - 1) (drop k zds))"
  have lw: "length win = ?n" using len by (simp add: win_def)
  have w1: "take (Suc ?n) (drop k zds) = win @ [z]"
    using len by (simp add: win_def z_def take_Suc_conv_app_nth)
  have k1: "k + ?n - 1 = k + (?n - 1)" using y(1) by (cases yds) auto
  have w2: "win = take (?n - 1) (drop k zds) @ [z1]"
    using y(1) len take_Suc_conv_app_nth [of "?n - 1" "drop k zds"] by (simp add: win_def z1_def k1 [simplified])
  have w3: "take (Suc ?n) (drop k zds) = zds ! k # take ?n (drop (Suc k) zds)"
    using len by (simp add: Cons_nth_drop_Suc [symmetric])
  have R1: "R = dval win + 2 ^ (32 * ?n) * unat z" by (simp add: R_def w1 dval_append lw)
  have P: "(2 :: nat) ^ (32 * ?n) = 2 ^ (32 * (?n - 1)) * 2 ^ 32"
    using y(1) by (cases yds) (simp_all add: power_add)
  have R2: "R = r + 2 ^ (32 * (?n - 1)) * (unat z1 + 2 ^ 32 * unat z)"
    unfolding R1 P using len by (subst w2) (simp add: r_def dval_append algebra_simps)
  have Y2: "?Y = dval (butlast yds) + 2 ^ (32 * (?n - 1)) * unat (last yds)"
    using y(1) by (subst append_butlast_last_id [symmetric, of yds]) (simp_all add: dval_append del: append_butlast_last_id)
  have pos: "0 < unat (last yds)" using y(2) by (simp add: unat_gt_0)
  have RY: "R < 2 ^ 32 * ?Y"
  proof -
    have "R < 2 ^ 32 * (1 + dval (take ?n (drop (Suc k) zds)))"
      using unat_dig_less [of "zds ! k"] by (simp add: R_def w3)
    also have "\<dots> \<le> 2 ^ 32 * ?Y" using W by (intro mult_le_mono2) simp
    finally show ?thesis .
  qed
  have r: "r < 2 ^ (32 * (?n - 1))" "dval (butlast yds) < 2 ^ (32 * (?n - 1))"
    using dval_bound [of "take (?n - 1) (drop k zds)"] dval_bound [of "butlast yds"] len
    by (simp_all add: r_def)
  note qb = qhat_bounds [OF r pos unat_dig_less unat_dig_less R2 Y2 RY refl]
  then have q: "unat q0 = (if unat z = unat (last yds) then 2 ^ 32 - 1
      else (2 ^ 32 * unat z + unat z1) div unat (last yds))"
    unfolding q0_def using pos by (intro qhat_word) blast+
  have q1: "R div ?Y \<le> unat q0" "unat q0 * ?Y < R + 2 ^ (32 * ?n)"
    using qb unfolding q P by (simp_all add: mult.commute)
  have y0: "0 < ?Y" using pos Y2 by simp
  have eq: "divrem_step yds k zds =
      (case (if q0 \<noteq> 0
             then let (win', num, t2) = mulsub (ucast q0) 0 0 yds win
                  in add_back_loop yds (num + (ucast z - t2)) q0 win'
             else Some (win, q0)) of
         None \<Rightarrow> None
       | Some (win', q') \<Rightarrow> Some (take k zds @ win' @ q' # drop (Suc (k + ?n)) zds))"
    unfolding divrem_step_def Let_def q0_def z_def z1_def win_def by (rule refl)
  show ?thesis
  proof (cases "q0 = 0")
    case True
    then have "R < ?Y" using q1(1) y0 by (simp add: div_eq_0_iff)
    moreover from this have "z = 0" using R1 dval_bound [of yds] by (cases "unat z") (auto simp: unat_eq_0)
    ultimately show ?thesis
      using True lw R1
      unfolding eq by (intro exI [of _ win] exI [of _ 0]) (simp add: R_def [symmetric])
  next
    case False
    obtain win1 num t2 where ms: "mulsub (ucast q0) 0 0 yds win = (win1, num, t2)"
      using prod_cases3 by blast
    from divrem_row [OF lw y0 R1 RY q1 ms] obtain win' q' where
      ab: "add_back_loop yds (num + (ucast z - t2)) q0 win1 = Some (win', q')" "length win' = ?n"
        "dval win' < ?Y" "R = unat q' * ?Y + dval win'"
      by blast
    then show ?thesis
      using False ms
      unfolding eq by (intro exI [of _ win'] exI [of _ q']) (simp add: R_def [symmetric])
  qed
qed

lemma divrem_loop_value:
  assumes y: "yds \<noteq> []" "last yds \<noteq> 0"
  shows "k + length yds < length zds \<Longrightarrow> dval (take (length yds) (drop (Suc k) zds)) < dval yds \<Longrightarrow>
    \<exists>zds'. divrem_loop yds k zds = Some zds' \<and> length zds' = length zds \<and>
      drop (Suc (k + length yds)) zds' = drop (Suc (k + length yds)) zds \<and>
      dval (take (length yds) zds') < dval yds \<and>
      dval (take (Suc (k + length yds)) zds) =
        dval (take (Suc k) (drop (length yds) zds')) * dval yds + dval (take (length yds) zds')"
proof (induction k arbitrary: zds)
  case 0
  from divrem_step_value [OF y 0] obtain win q where
    "divrem_step yds 0 zds = Some (win @ q # drop (Suc (length yds)) zds)" "length win = length yds"
    "dval win < dval yds" "dval (take (Suc (length yds)) zds) = unat q * dval yds + dval win"
    by auto
  then show ?case using 0 by (intro exI [of _ "win @ q # drop (Suc (length yds)) zds"]) auto
next
  case (Suc k)
  let ?n = "length yds" and ?Y = "dval yds"
  from divrem_step_value [OF y Suc.prems] obtain win q where
    st: "divrem_step yds (Suc k) zds = Some (take (Suc k) zds @ win @ q # drop (Suc (Suc k + ?n)) zds)"
    and win: "length win = ?n" "dval win < ?Y"
      "dval (take (Suc ?n) (drop (Suc k) zds)) = unat q * ?Y + dval win"
    by blast
  define z1 where "z1 = take (Suc k) zds @ win @ q # drop (Suc (Suc k + ?n)) zds"
  have st': "divrem_step yds (Suc k) zds = Some z1" using st by (simp only: z1_def)
  have l: "length z1 = length zds" using Suc.prems win by (simp add: z1_def)
  have tk: "length (take (Suc k) zds) = Suc k" using Suc.prems by simp
  have "take ?n (drop (Suc k) z1) = win" using win tk by (simp add: z1_def)
  with Suc.IH [of z1] Suc.prems win l obtain z2 where
    z2: "divrem_loop yds k z1 = Some z2" "length z2 = length zds"
      "drop (Suc (k + ?n)) z2 = drop (Suc (k + ?n)) z1" "dval (take ?n z2) < ?Y"
      "dval (take (Suc (k + ?n)) z1) = dval (take (Suc k) (drop ?n z2)) * ?Y + dval (take ?n z2)"
    by auto
  have d1: "drop (Suc (k + ?n)) z1 = q # drop (Suc (Suc k + ?n)) zds"
    using tk win by (simp add: z1_def)
  have t1: "take (Suc (k + ?n)) z1 = take (Suc k) zds @ win"
    using tk win by (simp add: z1_def)
  have qd: "z2 ! Suc (k + ?n) = q"
    using z2(2,3) d1 Suc.prems by (metis Cons_nth_drop_Suc add_Suc list.inject)
  have "take (Suc (Suc k)) (drop ?n z2) = take (Suc k) (drop ?n z2) @ [q]"
    using z2(2) Suc.prems qd by (simp add: take_Suc_conv_app_nth add.commute)
  moreover have "length (take (Suc k) (drop ?n z2)) = Suc k" using z2(2) Suc.prems by simp
  ultimately have Q: "dval (take (Suc (Suc k)) (drop ?n z2)) =
      dval (take (Suc k) (drop ?n z2)) + 2 ^ (32 * Suc k) * unat q"
    by (simp add: dval_append)
  have "dval (take (Suc (Suc k + ?n)) zds) =
      dval (take (Suc k) zds) + 2 ^ (32 * Suc k) * (unat q * ?Y + dval win)"
  proof -
    have "take (Suc (Suc k + ?n)) zds = take (Suc k) zds @ take (Suc ?n) (drop (Suc k) zds)"
      using take_add [of "Suc k" "Suc ?n" zds] by simp
    then show ?thesis using tk by (simp only: dval_append win(3))
  qed
  also have "\<dots> = dval (take (Suc (k + ?n)) z1) + 2 ^ (32 * Suc k) * (unat q * ?Y)"
    unfolding t1 dval_append tk by (simp add: algebra_simps)
  also have "\<dots> = dval (take (Suc (Suc k)) (drop ?n z2)) * ?Y + dval (take ?n z2)"
    unfolding z2(5) Q by (simp add: algebra_simps)
  finally have "dval (take (Suc (Suc k + ?n)) zds) =
      dval (take (Suc (Suc k)) (drop ?n z2)) * ?Y + dval (take ?n z2)" .
  moreover have "drop (Suc (Suc k + ?n)) z2 = drop (Suc (Suc k + ?n)) zds"
    using arg_cong [OF z2(3), of "drop 1"] unfolding d1 by (simp add: drop_drop)
  ultimately show ?case
    using st' z2 by auto
qed

subsection \<open>Normalisation and the whole division\<close>

lemma dval_take_drop: "dval ds = dval (take m ds) + 2 ^ (32 * m) * dval (drop m ds)"
proof (cases "m \<le> length ds")
  case True
  then show ?thesis using dval_append [of "take m ds" "drop m ds"] by simp
qed simp

lemma shl_digits:
  assumes "dd < 32" "dval ds * 2 ^ dd < 2 ^ (32 * length ds)"
  shows "length (if dd \<noteq> 0 then fst (shl_loop dd 0 ds) else ds) = length ds"
    and "dval (if dd \<noteq> 0 then fst (shl_loop dd 0 ds) else ds) = dval ds * 2 ^ dd"
proof -
  obtain ds' r where s: "shl_loop dd 0 ds = (ds', r)" by force
  from shl_loop_value [OF s assms(1)] have v: "length ds' = length ds"
    "dval ds' + 2 ^ (32 * length ds) * unat r = dval ds * 2 ^ dd" by simp_all
  have "unat r = 0" using v(2) assms(2) by (cases "unat r") auto
  with v s show "length (if dd \<noteq> 0 then fst (shl_loop dd 0 ds) else ds) = length ds"
    "dval (if dd \<noteq> 0 then fst (shl_loop dd 0 ds) else ds) = dval ds * 2 ^ dd" by auto
qed

lemma shl_dividend:
  assumes "dd < 32"
  shows "length (if dd \<noteq> 0 then let (ds', t2) = shl_loop dd 0 ds in ds' @ [ucast t2] else ds @ [0]) =
           length ds + 1"
    and "dval (if dd \<noteq> 0 then let (ds', t2) = shl_loop dd 0 ds in ds' @ [ucast t2] else ds @ [0]) =
           dval ds * 2 ^ dd"
proof -
  obtain ds' r where s: "shl_loop dd 0 ds = (ds', r)" by force
  from shl_loop_value [OF s assms] have v: "length ds' = length ds" "unat r < 2 ^ dd"
    "dval ds' + 2 ^ (32 * length ds) * unat r = dval ds * 2 ^ dd" by simp_all
  have "unat r < 2 ^ 32"
    using v(2) assms power_increasing [of dd 32 "2 :: nat"] by linarith
  with v s show "length (if dd \<noteq> 0 then let (ds', t2) = shl_loop dd 0 ds in ds' @ [ucast t2] else ds @ [0]) =
      length ds + 1"
    "dval (if dd \<noteq> 0 then let (ds', t2) = shl_loop dd 0 ds in ds' @ [ucast t2] else ds @ [0]) =
      dval ds * 2 ^ dd"
    by (auto simp: dval_append unat_ucast_small)
qed

lemma dval_less_top: "ds \<noteq> [] \<Longrightarrow> dval ds < 2 ^ (32 * (length ds - 1)) * (unat (last ds) + 1)"
  using dval_bound [of "butlast ds"] by (cases ds rule: rev_cases) (simp_all add: dval_append)

lemma norm_shift:
  assumes ds: "ds \<noteq> []" "last ds \<noteq> 0"
  shows "\<exists>dd. top_shift (last ds) 0 = Some dd \<and> dd < 32 \<and> dval ds * 2 ^ dd < 2 ^ (32 * length ds) \<and>
              2 ^ 31 * 2 ^ (32 * (length ds - 1)) \<le> dval ds * 2 ^ dd"
proof -
  let ?P = "2 ^ (32 * (length ds - 1)) :: nat" and ?t = "unat (last ds)"
  obtain dd where dd: "top_shift (last ds) 0 = Some dd" "2 ^ 31 \<le> ?t * 2 ^ dd" "?t * 2 ^ dd < 2 ^ 32"
    using top_shift_value [OF ds(2), of 0] by auto
  have t: "0 < ?t" using ds by (simp add: unat_gt_0)
  have "dd < 32"
  proof (rule ccontr)
    assume "\<not> ?thesis"
    then have "(2 :: nat) ^ 32 \<le> 2 ^ dd" by (intro power_increasing) auto
    also have "\<dots> \<le> ?t * 2 ^ dd" using t by simp
    finally show False using dd(3) by simp
  qed
  then have e: "(2 :: nat) ^ 32 = 2 ^ (32 - dd) * 2 ^ dd" by (simp flip: power_add)
  have "?t < 2 ^ (32 - dd)" using dd(3) unfolding e using mult_less_cancel2 by blast
  then have t1: "(?t + 1) * 2 ^ dd \<le> 2 ^ 32"
    unfolding e by (intro mult_le_mono1) simp
  have "dval ds < ?P * (?t + 1)"
    by (rule dval_less_top [OF ds(1)])
  then have "dval ds * 2 ^ dd < ?P * 2 ^ 32"
  proof -
    have "dval ds * 2 ^ dd < ?P * (?t + 1) * 2 ^ dd" using \<open>dval ds < _\<close> by simp
    also have "\<dots> \<le> ?P * 2 ^ 32" unfolding mult.assoc using t1 by (rule mult_le_mono2)
    finally show ?thesis .
  qed
  moreover have "?P * 2 ^ 32 = 2 ^ (32 * length ds)" using ds by (cases ds) (simp_all add: power_add)
  moreover have "2 ^ 31 * ?P \<le> dval ds * 2 ^ dd"
  proof -
    have "2 ^ 31 * ?P \<le> ?t * 2 ^ dd * ?P" using dd(2) by (intro mult_le_mono1)
    also have "\<dots> \<le> dval ds * 2 ^ dd" using dval_ge_top [OF ds(1)] by (simp add: mult.commute mult.left_commute)
    finally show ?thesis .
  qed
  ultimately show ?thesis using dd(1) \<open>dd < 32\<close> by metis
qed

lemma remainder_digits:
  assumes zs: "zs \<noteq> []" and dd: "dd < 32" and r: "dval zs = r * 2 ^ dd"
  defines "rs \<equiv> hd zs # strip_zeros (tl zs)"
  defines "rs' \<equiv> (if dd \<noteq> 0 then rev (shr_loop dd 0 (rev rs)) else rs)"
  shows "dval rs' = r" "length rs' \<le> length zs" "r = 0 \<Longrightarrow> rs' = [0]"
proof -
  have rs: "dval rs = r * 2 ^ dd"
    using zs r by (cases zs) (simp_all add: rs_def)
  have l: "length rs' = length rs" using shr_digits_value(1) [OF dd, of rs] by (simp add: rs'_def)
  show v: "dval rs' = r" using shr_digits_value(2) [OF dd, of rs] rs by (simp add: rs'_def)
  show "length rs' \<le> length zs"
    unfolding l using zs strip_zeros_length [of "tl zs"] by (cases zs) (simp_all add: rs_def)
  assume "r = 0"
  then have "strip_zeros (tl zs) = []" using r zs by (cases zs) (simp_all add: strip_zeros_empty)
  then have "length rs' = 1" using l by (simp add: rs_def)
  then show "rs' = [0]" using v \<open>r = 0\<close> by (cases rs') (auto simp: unat_eq_0)
qed

lemma div_mod_of_diff:
  assumes "q * y \<le> (x :: nat)" "x - q * y < y"
  shows "q = x div y \<and> x - q * y = x mod y"
proof -
  have "x div y = q" using assms by (intro div_nat_eqI) (auto simp: algebra_simps)
  then show ?thesis by (auto simp: minus_div_mult_eq_mod)
qed

text \<open>The contract of \<^verbatim>\<open>bigdivrem\<close> on magnitudes: quotient and remainder, and their shape.\<close>

definition divrem_result :: "rbignum \<Rightarrow> rbignum \<Rightarrow> rbignum \<Rightarrow> rbignum \<Rightarrow> bool" where
  "divrem_result x y d m \<longleftrightarrow>
     dval (digits d) = dval (digits x) div dval (digits y) \<and>
     dval (digits m) = dval (digits x) mod dval (digits y) \<and>
     (bsign d = (bsign x = bsign y) \<or> d = rb_int2big 0) \<and> bsign m = bsign x \<and>
     length (digits m) \<le> length (digits y) \<and> (dval (digits m) = 0 \<longrightarrow> digits m = [0])"

lemma big_long_div_value:
  assumes y: "digits y \<noteq> []" "last (digits y) \<noteq> 0" and len: "length (digits y) \<le> length (digits x)"
  shows "\<exists>d m. big_long_div x y = Some (Inr (d, m)) \<and> divrem_result x y d m"
proof -
  let ?nx = "length (digits x)" and ?ny = "length (digits y)"
  define k where "k = (if ?nx = ?ny then ?nx + 1 else ?nx) - ?ny"
  let ?X = "dval (digits x)" and ?Y = "dval (digits y)"
  obtain dd where dd: "top_shift (last (digits y)) 0 = Some dd" "dd < 32"
    "?Y * 2 ^ dd < 2 ^ (32 * ?ny)" "2 ^ 31 * 2 ^ (32 * (?ny - 1)) \<le> ?Y * 2 ^ dd"
    using norm_shift [OF y] by blast
  define yds where "yds = (if dd \<noteq> 0 then fst (shl_loop dd 0 (digits y)) else digits y)"
  define ext :: "u32 list" where "ext = (if ?nx = ?ny then [0] else [])"
  define zds where "zds = (if dd \<noteq> 0 then let (ds, t2) = shl_loop dd 0 (digits x) in ds @ [ucast t2]
    else digits x @ [0]) @ ext"
  have yds: "length yds = ?ny" "dval yds = ?Y * 2 ^ dd"
    unfolding yds_def using shl_digits [OF dd(2,3)] by blast+
  have zds: "length zds = Suc (k + ?ny)" "dval zds = ?X * 2 ^ dd"
    unfolding zds_def length_append dval_append shl_dividend [OF dd(2)] using len
    by (auto simp: ext_def k_def)
  have ne: "yds \<noteq> []" using yds(1) y(1) by auto
  have Y0: "0 < ?Y" using y dval_eq_0 [of "digits y"] last_in_set [OF y(1)] by auto
  have lst: "last yds \<noteq> 0"
  proof
    assume "last yds = 0"
    then have "dval yds = dval (butlast yds)"
      using ne by (metis append_butlast_last_id add_0_right dval.simps dval_append mult_0_right unsigned_0)
    also have "\<dots> < 2 ^ (32 * (?ny - 1))" using dval_bound [of "butlast yds"] yds(1) by simp
    finally show False using dd(4) yds(2) by simp
  qed
  have W: "dval (take (length yds) (drop (Suc k) zds)) < dval yds"
  proof -
    have tk: "take (length yds) (drop (Suc k) zds) = drop (Suc k) zds" using zds(1) yds(1) by simp
    have "2 ^ (32 * Suc k) * dval (drop (Suc k) zds) \<le> ?X * 2 ^ dd"
      using dval_take_drop [of zds "Suc k"] zds(2) by simp
    also have "\<dots> < 2 ^ (32 * ?nx) * 2 ^ 31"
      using dval_bound [of "digits x"] dd(2) by (intro mult_less_le_imp_less power_increasing) auto
    also have "\<dots> \<le> 2 ^ (32 * Suc k) * 2 ^ (32 * (?ny - 1)) * 2 ^ 31"
    proof -
      have "(2 :: nat) ^ (32 * ?nx) \<le> 2 ^ (32 * Suc k + 32 * (?ny - 1))"
        using y(1) len by (intro power_increasing) (auto simp: k_def)
      then show ?thesis by (simp only: power_add) (rule mult_le_mono1)
    qed
    also have "\<dots> \<le> 2 ^ (32 * Suc k) * dval yds"
      unfolding mult.assoc yds(2) using dd(4) by (intro mult_le_mono2) (simp add: mult.commute)
    finally show ?thesis unfolding tk using mult_less_cancel1 by blast
  qed
  obtain z' where z': "divrem_loop yds k zds = Some z'" "length z' = length zds"
    "dval (take ?ny z') < ?Y * 2 ^ dd"
    "?X * 2 ^ dd = dval (take (Suc k) (drop ?ny z')) * (?Y * 2 ^ dd) + dval (take ?ny z')"
    using divrem_loop_value [OF ne lst _ W] zds yds by auto
  let ?Q = "dval (take (Suc k) (drop ?ny z'))" and ?R = "dval (take ?ny z')"
  have R: "?R = (?X - ?Q * ?Y) * 2 ^ dd" using z'(4) by (simp add: diff_mult_distrib)
  have "?Q * ?Y * 2 ^ dd \<le> ?X * 2 ^ dd" unfolding z'(4) by (simp only: mult.assoc le_add1)
  then have le: "?Q * ?Y \<le> ?X" by simp
  have "?X - ?Q * ?Y < ?Y" using z'(3) unfolding R using mult_less_cancel2 by blast
  then have qr: "?Q = ?X div ?Y" "?X - ?Q * ?Y = ?X mod ?Y"
    using div_mod_of_diff [OF le] by blast+
  have "take ?ny z' \<noteq> []" using z'(2) zds(1) y(1) by auto
  note rd = remainder_digits [OF this dd(2) R [unfolded qr(2)]]
  have hd: "hd z' = hd (take ?ny z')" using y(1) by simp
  have eq: "big_long_div x y = Some (Inr (\<lparr>bsign = (bsign x = bsign y), digits = take (Suc k) (drop ?ny z')\<rparr>,
      \<lparr>bsign = bsign x, digits = (if dd \<noteq> 0
         then rev (shr_loop dd 0 (rev (hd (take ?ny z') # strip_zeros (tl (take ?ny z')))))
         else hd (take ?ny z') # strip_zeros (tl (take ?ny z')))\<rparr>))"
  proof -
    have "(if ?nx = ?ny then ?nx + 2 else ?nx + 1) - ?ny = Suc k" using len by (auto simp: k_def)
    note sz = strip_zeros_id [OF disjI2 [OF y(2)]]
    show ?thesis
      by (simp only: big_long_div_def Let_def sz dd(1) option.case y(1) if_False simp_thms
          yds_def [symmetric, unfolded Let_def] zds_def [symmetric, unfolded Let_def ext_def]
          k_def [symmetric] z'(1) hd \<open>_ - ?ny = Suc k\<close>)
  qed
  show ?thesis
    unfolding eq using rd qr(1) by (auto simp: divrem_result_def)
qed

lemma rb_int2big_0: "rb_int2big 0 = \<lparr>bsign = True, digits = [0]\<rparr>"
  by (simp add: rb_int2big_def rb_uint2big_def split_2 BIGLO_eq BIGDN_def strip_zeros_def)

lemma bigdivrem_value:
  assumes x: "big_ok x" and y: "big_ok y" "dval (digits y) \<noteq> 0"
  shows "\<exists>d m. bigdivrem x y = Some (Inr (d, m)) \<and> divrem_result x y d m"
proof -
  let ?nx = "length (digits x)" and ?ny = "length (digits y)"
  have ne: "digits x \<noteq> []" "digits y \<noteq> []" using x y by (auto simp: big_ok_def)
  have top: "last (digits y) \<noteq> 0" using y by (auto simp: big_ok_def)
  consider (small) "?nx < ?ny \<or> ?nx = ?ny \<and> last (digits x) < last (digits y)"
    | (one) "\<not> (?nx < ?ny \<or> ?nx = ?ny \<and> last (digits x) < last (digits y))" "?ny = 1"
    | (long) "\<not> (?nx < ?ny \<or> ?nx = ?ny \<and> last (digits x) < last (digits y))" "?ny \<noteq> 1"
    by blast
  then show ?thesis
  proof cases
    case small
    have less: "dval (digits x) < dval (digits y)"
    proof (cases "?nx < ?ny")
      case True
      then show ?thesis using big_ok_length_less [OF x y(1)] by blast
    next
      case False
      let ?P = "2 ^ (32 * (?ny - 1)) :: nat"
      have "dval (digits x) < ?P * (unat (last (digits x)) + 1)"
        using dval_less_top [OF ne(1)] False small by auto
      also have "\<dots> \<le> ?P * unat (last (digits y))"
        using False small by (intro mult_le_mono2) (simp add: word_less_nat_alt)
      also have "\<dots> \<le> dval (digits y)" by (rule dval_ge_top [OF ne(2)])
      finally show ?thesis .
    qed
    have "bigdivrem x y = Some (Inr (rb_int2big 0, x))" using small ne by (simp add: bigdivrem_def Let_def)
    moreover have "divrem_result x y (rb_int2big 0) x"
      using less small x by (auto simp: divrem_result_def rb_int2big_0 big_ok_def dval_eq_0)
    ultimately show ?thesis by blast
  next
    case one
    obtain e where e: "digits y = [e]" "e \<noteq> 0" using one(2) top by (cases "digits y") auto
    obtain qs t2 where s: "small_loop (ucast e) 0 (rev (digits x)) = (qs, t2)" by force
    have "0 < unat e" using e(2) by (simp add: unat_gt_0)
    with small_loop_value [OF s] unat_dig_less [of e]
    have v: "unat t2 < unat e" "dval (digits x) = dval (rev qs) * unat e + unat t2"
      by (simp_all add: unat_ucast_dig)
    from v have qr: "dval (rev qs) = dval (digits x) div unat e" "unat t2 = dval (digits x) mod unat e"
      using div_mod_of_diff [of "dval (rev qs)" "unat e" "dval (digits x)"] by simp_all
    have "unat t2 = 0 \<longrightarrow> digits (rb_uint2big t2) = [0]"
      using rb_int2big_0 by (auto simp: unat_eq_0 rb_int2big_def)
    moreover have "BIGDN t2 = 0"
      using v(1) unat_dig_less [of e] by (simp add: word_unat_eq_iff unat_BIGDN)
    then have "length (digits (rb_uint2big t2)) \<le> 1"
      by (simp add: rb_uint2big_def split_2 BIGLO_eq strip_zeros_def)
    ultimately show ?thesis
      using one e s qr by (auto simp: bigdivrem_def Let_def divrem_result_def)
  next
    case long
    then have "bigdivrem x y = big_long_div x y" using ne by (auto simp: bigdivrem_def Let_def)
    moreover have "?ny \<le> ?nx" using long by simp
    ultimately show ?thesis using big_long_div_value [OF ne(2) top] by simp
  qed
qed

lemma floor_signs:
  fixes a b :: nat
  assumes "0 < b"
  shows "- int a div int b = (if a mod b = 0 then - int (a div b) else - int (a div b) - 1)"
    and "- int a mod int b = (if a mod b = 0 then 0 else int b - int (a mod b))"
    and "int a div - int b = (if a mod b = 0 then - int (a div b) else - int (a div b) - 1)"
    and "int a mod - int b = (if a mod b = 0 then 0 else int (a mod b) - int b)"
    and "- int a div - int b = int (a div b)"
    and "- int a mod - int b = - int (a mod b)"
proof -
  have "int a mod int b = 0 \<longleftrightarrow> a mod b = 0" by (metis of_nat_eq_0_iff zmod_int)
  moreover have "int b \<noteq> int a mod int b" using assms pos_mod_bound [of "int b" "int a"] by linarith
  ultimately show "- int a div int b = (if a mod b = 0 then - int (a div b) else - int (a div b) - 1)"
    "- int a mod int b = (if a mod b = 0 then 0 else int b - int (a mod b))"
    "int a div - int b = (if a mod b = 0 then - int (a div b) else - int (a div b) - 1)"
    "int a mod - int b = (if a mod b = 0 then 0 else int (a mod b) - int b)"
    "- int a div - int b = int (a div b)" "- int a mod - int b = - int (a mod b)"
    using assms by (simp_all add: zdiv_zminus1_eq_if zmod_zminus1_eq_if zdiv_zminus2_eq_if zmod_zminus2_eq_if
        zdiv_int zmod_int del: zmod_eq_0_iff)
qed

text \<open>\<^verbatim>\<open>bigdivmod\<close> is floored division: HOL's \<^verbatim>\<open>div\<close> and \<^verbatim>\<open>mod\<close> on the integers.\<close>

lemma bigdivmod_value:
  assumes x: "big_ok x" and y: "big_ok y" "big_val y \<noteq> 0"
  shows "\<exists>d m. bigdivmod x y = Some (Inr (d, m)) \<and>
           big_val d = big_val x div big_val y \<and> big_val m = big_val x mod big_val y"
proof -
  let ?X = "dval (digits x)" and ?Y = "dval (digits y)"
  have Y: "0 < ?Y" using y(2) by (auto simp: big_val_def split: if_splits)
  then obtain d m where dm: "bigdivrem x y = Some (Inr (d, m))" and res: "divrem_result x y d m"
    using bigdivrem_value [OF x y(1)] by blast
  note rd = res [unfolded divrem_result_def]
  have d0: "dval (digits d) = 0" if "d = rb_int2big 0" using that by (simp add: rb_int2big_0)
  show ?thesis
  proof (cases "bsign x = bsign y \<or> ?X mod ?Y = 0")
    case True
    then have "bigdivmod x y = Some (Inr (d, m))" using dm rd by (auto simp: bigdivmod_def)
    moreover have "big_val d = big_val x div big_val y" "big_val m = big_val x mod big_val y"
      using True rd d0 floor_signs [OF Y, of ?X] Y
      by (auto simp: big_val_def zdiv_int zmod_int rb_int2big_0)
    ultimately show ?thesis by blast
  next
    case False
    then have r: "dval (digits m) \<noteq> 0" using rd by simp
    then have z: "\<not> (length (digits m) = 1 \<and> digits m ! 0 = 0)"
      by (cases "digits m") auto
    have "big_val (bigadd d (rb_int2big 1) False) = big_val d - 1"
    proof (cases "d = rb_int2big 0")
      case True
      then show ?thesis using bigadd_ok [of d "rb_int2big 1" False] by simp
    next
      case d: False
      then have "bsign d = (False = bsign (rb_int2big 1))"
        using rd False by (simp add: rb_int2big_sign)
      from bigadd_same_sign [OF this] show ?thesis by simp
    qed
    moreover have "big_val (bigadd m y True) = big_val m + big_val y"
      using bigadd_value [of m y True] rd Y by (simp add: less_imp_le)
    moreover have "big_val d = - int (?X div ?Y)"
      using rd False d0 by (auto simp: big_val_def rb_int2big_0)
    ultimately show ?thesis
      using False z dm rd floor_signs [OF Y, of ?X]
      by (auto simp: bigdivmod_def big_val_def)
  qed
qed

section \<open>Properties\<close>

lemma map_res_simps [simp]:
  "map_res f (Some (Inr a)) = Some (Inr (f a))" "map_res f (Some (Inl e)) = Some (Inl e)"
  "map_res f None = None"
  by (simp_all add: map_res_def)

text \<open>
  C3. Division of integers terminates without error and is floored division: for a big number and any
  integer object but zero, \<^verbatim>\<open>rb_big_divmod\<close> returns the canonical values of the quotient rounded towards
  minus infinity and of the modulus with the sign of the divisor, and \<^verbatim>\<open>rb_big_div\<close> and \<^verbatim>\<open>rb_big_modulo\<close>
  return the two halves. The quotient digits are estimated from one digit of the divisor only, and the
  add-back loop always brings them to the exact digit.
\<close>

theorem rb_big_divmod_floor:
  assumes "canonical (Bignum x :: ('f, 'o) VALUE)" "canonical y" "int_of y = Some v" "v \<noteq> 0"
  shows "\<exists>d m. rb_big_divmod nc x y = Some (Inr (d, m)) \<and>
           int_of d = Some (big_val x div v) \<and> canonical d \<and>
           int_of m = Some (big_val x mod v) \<and> canonical m \<and>
           rb_big_div fd nd x y = Some (Inr d) \<and> rb_big_modulo nm x y = Some (Inr m)"
proof -
  obtain b where b: "to_big y = Some b" "big_val b = v" using int_of_to_big [OF assms(3)] by blast
  have "big_ok x" using assms(1) by (simp add: big_ok_norm)
  with bigdivmod_value [of x b] big_ok_to_big [OF assms(2) b(1)] b(2) assms(4) obtain d m where
    "bigdivmod x b = Some (Inr (d, m))" "big_val d = big_val x div v" "big_val m = big_val x mod v"
    by blast
  then show ?thesis
    using b(1) by (intro exI [of _ "bignorm d"] exI [of _ "bignorm m"])
      (auto simp: rb_big_divmod_def rb_big_div_def rb_big_modulo_def to_big_def split: VALUE.splits)
qed

theorem rb_big_divmod_floor_witness:
  "\<exists>d m. rb_big_divmod (\<lambda>_ _. (Fixnum 0, Fixnum 0)) \<lparr>bsign = False, digits = [0, 0, 1]\<rparr>
            (Bignum \<lparr>bsign = True, digits = [1, 0xC0000000]\<rparr> :: (unit, unit) VALUE) = Some (Inr (d, m)) \<and>
          int_of d = Some (- 2) \<and> int_of m = Some (2 ^ 63 + 2)"
  using rb_big_divmod_floor [of "\<lparr>bsign = False, digits = [0, 0, 1]\<rparr>"
      "Bignum \<lparr>bsign = True, digits = [1, 0xC0000000]\<rparr> :: (unit, unit) VALUE" "2 ^ 63 + 2 ^ 62 + 1"
      "\<lambda>_ _. (Fixnum 0, Fixnum 0)" "\<lambda>_ _. Fixnum 0" "\<lambda>_ _. Fixnum 0" "\<lambda>_ _. Fixnum 0"]
  by (auto simp: big_norm_ok_def big_val_def FIXABLE_iff)

text \<open>
  \<^verbatim>\<open>rb_big_remainder\<close> is the remainder of truncated division: for a divisor that is not zero it
  returns the canonical value with the magnitude of the remainder of the magnitudes and the sign of
  the dividend.
\<close>

theorem rb_big_remainder_truncates:
  assumes "canonical (Bignum x :: ('f, 'o) VALUE)" "canonical y" "int_of y = Some v" "v \<noteq> 0"
  shows "\<exists>m. rb_big_remainder nc x y = Some (Inr m) \<and> canonical m \<and>
           int_of m = Some (sgn (big_val x) * (\<bar>big_val x\<bar> mod \<bar>v\<bar>))"
proof -
  obtain b where b: "to_big y = Some b" "big_val b = v" using int_of_to_big [OF assms(3)] by blast
  have "dval (digits b) \<noteq> 0" using b(2) assms(4) by (auto simp: big_val_def split: if_splits)
  moreover have "big_ok x" using assms(1) by (simp add: big_ok_norm)
  ultimately obtain d m where dm: "bigdivrem x b = Some (Inr (d, m))" "divrem_result x b d m"
    using bigdivrem_value [of x b] big_ok_to_big [OF assms(2) b(1)] by blast
  have av: "\<bar>v\<bar> = int (dval (digits b))" using b(2) by (auto simp: big_val_def)
  from dm have "big_val m = sgn (big_val x) * (\<bar>big_val x\<bar> mod \<bar>v\<bar>)"
    unfolding av by (auto simp: divrem_result_def big_val_def zmod_int sgn_if)
  then show ?thesis
    using b(1) dm(1) by (intro exI [of _ "bignorm m"])
      (auto simp: rb_big_remainder_def to_big_def split: VALUE.splits)
qed

theorem rb_big_remainder_truncates_witness:
  "\<exists>m. rb_big_remainder (\<lambda>_ _. Fixnum 0) \<lparr>bsign = False, digits = [0, 0, 1]\<rparr>
          (Fixnum 7 :: (unit, unit) VALUE) = Some (Inr m) \<and> int_of m = Some (- 2)"
  using rb_big_remainder_truncates [of "\<lparr>bsign = False, digits = [0, 0, 1]\<rparr>"
      "Fixnum 7 :: (unit, unit) VALUE" 7 "\<lambda>_ _. Fixnum 0"]
  by (auto simp: big_norm_ok_def big_val_def FIXABLE_iff)

text \<open>
  Division of a big number by the Fixnum 0 does not raise ZeroDivisionError: the guard of
  \<^verbatim>\<open>bigdivrem\<close> tests for a divisor without digits, \<^verbatim>\<open>rb_int2big\<close> gives 0 one digit, and all four operators
  reach the machine division by zero.
\<close>

theorem rb_big_div_by_zero_traps:
  assumes "canonical (Bignum x :: ('f, 'o) VALUE)"
  shows "rb_big_div fd nd x (Fixnum 0 :: ('f, 'o) VALUE) = Some (Inl DivideTrap) \<and>
         rb_big_modulo nm x (Fixnum 0 :: ('f, 'o) VALUE) = Some (Inl DivideTrap) \<and>
         rb_big_remainder nm x (Fixnum 0 :: ('f, 'o) VALUE) = Some (Inl DivideTrap) \<and>
         rb_big_divmod nc x (Fixnum 0 :: ('f, 'o) VALUE) = Some (Inl DivideTrap)"
proof -
  have "digits x \<noteq> []" using assms by (simp add: big_norm_ok_def)
  then have "\<not> length (digits x) < 1" by (cases "digits x") auto
  then have "bigdivrem x (rb_int2big 0) = Some (Inl DivideTrap)"
    by (simp add: bigdivrem_def rb_int2big_0 word_less_nat_alt)
  then show ?thesis
    by (simp add: rb_big_div_def rb_big_modulo_def rb_big_remainder_def rb_big_divmod_def
        bigdivmod_def)
qed

theorem rb_big_div_by_zero_traps_witness:
  "rb_big_div (\<lambda>_ _. Fixnum 0) (\<lambda>_ _. Fixnum 0) \<lparr>bsign = True, digits = [0, 0, 1]\<rparr>
     (Fixnum 0 :: (unit, unit) VALUE) = Some (Inl DivideTrap)"
  using rb_big_div_by_zero_traps [of "\<lparr>bsign = True, digits = [0, 0, 1]\<rparr>"
      "\<lambda>_ _. Fixnum 0 :: (unit, unit) VALUE" "\<lambda>_ _. Fixnum 0" "\<lambda>_ _. Fixnum 0" "\<lambda>_ _. (Fixnum 0, Fixnum 0)"]
  by (simp add: big_norm_ok_def big_val_def FIXABLE_iff)

end
