(* ===== verification/Bignum_Bits.thy ===== *)
theory Bignum_Bits
  imports Bignum_Div
begin

text \<open>
  The bit operations of \<^verbatim>\<open>src/ruby/bignum.c\<close>: complement, and, or, exclusive or, the shifts and the bit
  reference. They work on two's complement digits that \<^verbatim>\<open>get2comp\<close> makes in place, and the theorems
  relate them to the bit operations on the integers, where a negative number has infinitely many ones.
  Where the digits lose a carry the theorems say for which operands the result differs.
\<close>

section \<open>Operations\<close>

text \<open>
  \<^verbatim>\<open>rb_big_neg\<close> keeps a pointer to the digits across \<^verbatim>\<open>get2comp\<close>, which reallocates them when it
  appends a digit; the complement loop then writes through a stale pointer.
\<close>

definition rb_big_neg :: "rbignum \<Rightarrow> rb_error + ('f, 'o) VALUE" where
  "rb_big_neg x =
     (let z = rb_big_clone x
      in if bsign x
         then case get2comp (z\<lparr>digits := map (\<lambda>d. NOT d) (digits z)\<rparr>) False of
                Inl e \<Rightarrow> Inl e
              | Inr z \<Rightarrow> Inr (bignorm (z\<lparr>bsign := \<not> bsign z\<rparr>))
         else case get2comp z True of
                Inl e \<Rightarrow> Inl e
              | Inr z' \<Rightarrow>
                  if length (digits z') \<noteq> length (digits z) then Inl OutOfBounds
                  else Inr (bignorm \<lparr>bsign = \<not> bsign z', digits = map (\<lambda>d. NOT d) (digits z')\<rparr>))"

text \<open>The two loops of each binary operation: over both arrays, then over the rest of the longer.\<close>

fun zip_digits :: "(u32 \<Rightarrow> u32 \<Rightarrow> u32) \<Rightarrow> (u32 \<Rightarrow> u32) \<Rightarrow> u32 list \<Rightarrow> u32 list \<Rightarrow> u32 list" where
  "zip_digits f g [] ds2 = map g ds2"
| "zip_digits f g (a # as) (b # bs) = f a b # zip_digits f g as bs"
| "zip_digits f g (a # as) [] = []"

definition comp_if_neg :: "rbignum \<Rightarrow> rb_error + rbignum" where
  "comp_if_neg x = (if \<not> bsign x then get2comp (rb_big_clone x) True else Inr x)"

text \<open>
  The common frame of \<^verbatim>\<open>rb_big_and\<close>, \<^verbatim>\<open>rb_big_or\<close> and \<^verbatim>\<open>rb_big_xor\<close>: coerce, complement negative
  operands, order them by length, combine, complement a negative result. \<^verbatim>\<open>g\<close> takes the sign of the
  shorter operand, \<^verbatim>\<open>s\<close> gives the sign of the result.
\<close>

definition big_bitop ::
  "(u32 \<Rightarrow> u32 \<Rightarrow> u32) \<Rightarrow> (bool \<Rightarrow> u32 \<Rightarrow> u32) \<Rightarrow> (bool \<Rightarrow> bool \<Rightarrow> bool) \<Rightarrow>
   rbignum \<Rightarrow> ('f, 'o) VALUE \<Rightarrow> rb_error + ('f, 'o) VALUE" where
  "big_bitop f g s x y =
     (case to_big y of
        None \<Rightarrow> Inl TypeError
      | Some y \<Rightarrow>
          (case comp_if_neg y of
             Inl e \<Rightarrow> Inl e
           | Inr y' \<Rightarrow>
               (case comp_if_neg x of
                  Inl e \<Rightarrow> Inl e
                | Inr x' \<Rightarrow>
                    (let (a, b) = (if length (digits x') > length (digits y') then (y', x') else (x', y'));
                         z = \<lparr>bsign = s (bsign x') (bsign y'),
                              digits = zip_digits f (g (bsign a)) (digits a) (digits b)\<rparr>
                     in case (if \<not> bsign z then get2comp z False else Inr z) of
                          Inl e \<Rightarrow> Inl e
                        | Inr z \<Rightarrow> Inr (bignorm z)))))"

definition rb_big_and :: "rbignum \<Rightarrow> ('f, 'o) VALUE \<Rightarrow> rb_error + ('f, 'o) VALUE" where
  "rb_big_and = big_bitop (\<lambda>a b. a AND b) (\<lambda>sign d. if sign then 0 else d) (\<lambda>sx sy. sx \<or> sy)"

definition rb_big_or :: "rbignum \<Rightarrow> ('f, 'o) VALUE \<Rightarrow> rb_error + ('f, 'o) VALUE" where
  "rb_big_or = big_bitop (\<lambda>a b. a OR b) (\<lambda>sign d. if sign then d else - 1) (\<lambda>sx sy. sx \<and> sy)"

definition rb_big_xor :: "rbignum \<Rightarrow> ('f, 'o) VALUE \<Rightarrow> rb_error + ('f, 'o) VALUE" where
  "rb_big_xor = big_bitop (\<lambda>a b. a XOR b) (\<lambda>sign d. if sign then d else NOT d) (\<lambda>sx sy. sx = sy)"

text \<open>\<^verbatim>\<open>NUM2INT\<close> of \<^verbatim>\<open>src/ruby/numeric.c\<close>; \<^verbatim>\<open>conv\<close> stands for the conversion of floats and objects.\<close>

definition rb_num2int :: "(('f, 'o) VALUE \<Rightarrow> rb_error + u64) \<Rightarrow> ('f, 'o) VALUE \<Rightarrow> rb_error + int" where
  "rb_num2int conv val =
     (case (case val of Fixnum n \<Rightarrow> Inr n | Bignum b \<Rightarrow> rb_big2long b | _ \<Rightarrow> conv val) of
        Inl e \<Rightarrow> Inl e
      | Inr num \<Rightarrow>
          if sint num < - (2 ^ 31) \<or> 2 ^ 31 - 1 < sint num then Inl RangeError else Inr (sint num))"

text \<open>The digit loop of \<^verbatim>\<open>rb_big_lshift\<close>, which joins the parts with \<^verbatim>\<open>|\<close>.\<close>

fun lshift_loop :: "nat \<Rightarrow> u64 \<Rightarrow> u32 list \<Rightarrow> u32 list \<times> u64" where
  "lshift_loop s2 num [] = ([], num)"
| "lshift_loop s2 num (d # ds) =
     (let num = num OR push_bit s2 (ucast d);
          (zs, r) = lshift_loop s2 (BIGDN num) ds
      in (BIGLO num # zs, r))"

definition lshift_pos :: "rbignum \<Rightarrow> nat \<Rightarrow> rb_error + ('f, 'o) VALUE" where
  "lshift_pos x shift =
     (let s1 = shift div BITSPERDIG; s2 = shift mod BITSPERDIG;
          (zs, num) = lshift_loop s2 0 (digits x)
      in Inr (bignorm \<lparr>bsign = bsign x, digits = replicate s1 0 @ zs @ [BIGLO num]\<rparr>))"

text \<open>The loop \<^verbatim>\<open>while (i--, j--)\<close> of \<^verbatim>\<open>rb_big_rshift\<close> is the right shift loop of the division.\<close>

definition rshift_pos :: "rbignum \<Rightarrow> nat \<Rightarrow> rb_error + ('f, 'o) VALUE" where
  "rshift_pos x shift =
     (let s1 = shift div BITSPERDIG; s2 = shift mod BITSPERDIG
      in if s1 > length (digits x) then Inr (if bsign x then LONG2FIX 0 else LONG2FIX (- 1))
         else case comp_if_neg x of
           Inl e \<Rightarrow> Inl e
         | Inr x' \<Rightarrow>
             let num = (if \<not> bsign x' then push_bit BITSPERDIG (- 1) else 0);
                 z = \<lparr>bsign = bsign x', digits = rev (shr_loop s2 num (rev (drop s1 (digits x'))))\<rparr>
             in case (if \<not> bsign x' then get2comp z False else Inr z) of
                  Inl e \<Rightarrow> Inl e
                | Inr z \<Rightarrow> Inr (bignorm z))"

text \<open>
  The two shifts call each other with the negated count when it is negative; \<^verbatim>\<open>-shift\<close> is computed in
  \<^verbatim>\<open>int\<close>. Calling each other for ever is \<^verbatim>\<open>None\<close>.
\<close>

partial_function (option) big_shift :: "bool \<Rightarrow> rbignum \<Rightarrow> int \<Rightarrow> (rb_error + ('f, 'o) VALUE) option" where
  "big_shift left x shift =
     (if shift < 0 then big_shift (\<not> left) x (int32 (- shift))
      else Some (if left then lshift_pos x (nat shift) else rshift_pos x (nat shift)))"

definition rb_big_lshift ::
  "(('f, 'o) VALUE \<Rightarrow> rb_error + u64) \<Rightarrow> rbignum \<Rightarrow> ('f, 'o) VALUE \<Rightarrow> (rb_error + ('f, 'o) VALUE) option" where
  "rb_big_lshift conv x y =
     (case rb_num2int conv y of Inl e \<Rightarrow> Some (Inl e) | Inr shift \<Rightarrow> big_shift True x shift)"

definition rb_big_rshift ::
  "(('f, 'o) VALUE \<Rightarrow> rb_error + u64) \<Rightarrow> rbignum \<Rightarrow> ('f, 'o) VALUE \<Rightarrow> (rb_error + ('f, 'o) VALUE) option" where
  "rb_big_rshift conv x y =
     (case rb_num2int conv y of Inl e \<Rightarrow> Some (Inl e) | Inr shift \<Rightarrow> big_shift False x shift)"

definition aref_int :: "rbignum \<Rightarrow> int \<Rightarrow> rb_error + ('f, 'o) VALUE" where
  "aref_int x shift =
     (if shift < 0 then Inr (LONG2FIX 0)
      else let s1 = nat shift div BITSPERDIG; s2 = nat shift mod BITSPERDIG
           in if s1 \<ge> length (digits x) then Inr (if \<not> bsign x then LONG2FIX 1 else LONG2FIX 0)
              else case comp_if_neg x of
                Inl e \<Rightarrow> Inl e
              | Inr x' \<Rightarrow>
                  Inr (if (digits x' ! s1) AND push_bit s2 1 \<noteq> 0 then LONG2FIX 1 else LONG2FIX 0))"

definition rb_big_aref ::
  "(('f, 'o) VALUE \<Rightarrow> rb_error + u64) \<Rightarrow> rbignum \<Rightarrow> ('f, 'o) VALUE \<Rightarrow> rb_error + ('f, 'o) VALUE" where
  "rb_big_aref conv x y =
     (case y of
        Bignum b \<Rightarrow> Inr (if \<not> bsign b \<or> bsign x then LONG2FIX 0 else LONG2FIX 1)
      | _ \<Rightarrow> (case rb_num2int conv y of Inl e \<Rightarrow> Inl e | Inr shift \<Rightarrow> aref_int x shift))"

section \<open>Two's complement of unbounded numbers\<close>

text \<open>The integer whose low digits are given and whose sign repeats above them.\<close>

fun tc :: "bool \<Rightarrow> u32 list \<Rightarrow> int" where
  "tc sign [] = (if sign then 0 else - 1)"
| "tc sign (d # ds) = int (unat d) + 2 ^ 32 * tc sign ds"

lemma tc_eq: "tc sign ds = int (dval ds) - (if sign then 0 else 2 ^ (32 * length ds))"
  by (induction ds) (auto simp: power_add algebra_simps)

lemma tc_nonempty_ge: "2 ^ 31 \<le> unat (last ds) \<Longrightarrow> ds \<noteq> [] \<Longrightarrow> dval ds \<noteq> 0"
  by (auto simp: dval_eq_0 intro!: bexI [of _ "last ds"])

lemma get2comp_plain:
  assumes "digits z \<noteq> []"
  shows "\<exists>z'. get2comp z False = Inr z' \<and> bsign z' = bsign z \<and> length (digits z') = length (digits z) \<and>
           dval (digits z') = (2 ^ (32 * length (digits z)) - dval (digits z)) mod 2 ^ (32 * length (digits z))"
  using assms by (simp add: get2comp_def Let_def add1_complement)

lemma get2comp_negative:
  assumes "digits z \<noteq> []" "\<not> bsign z" "dval (digits z) \<noteq> 0"
  shows "\<exists>z'. get2comp z False = Inr z' \<and> \<not> bsign z' \<and> big_val z' = tc False (digits z)"
proof -
  obtain z' where z': "get2comp z False = Inr z'" "bsign z' = bsign z"
    "dval (digits z') = (2 ^ (32 * length (digits z)) - dval (digits z)) mod 2 ^ (32 * length (digits z))"
    using get2comp_plain [OF assms(1)] by blast
  have "dval (digits z') = 2 ^ (32 * length (digits z)) - dval (digits z)"
    using z'(3) assms(3) by simp
  then have "big_val z' = tc False (digits z)"
    using z'(2) assms(2) dval_bound [of "digits z"]
    by (simp add: big_val_def tc_eq of_nat_diff less_imp_le)
  with z' assms(2) show ?thesis by auto
qed

lemma comp_if_neg_value:
  assumes "digits x \<noteq> []" "bsign x \<or> dval (digits x) \<noteq> 0"
  shows "\<exists>x'. comp_if_neg x = Inr x' \<and> bsign x' = bsign x \<and> digits x' \<noteq> [] \<and>
           tc (bsign x) (digits x') = big_val x \<and> (\<not> bsign x \<longrightarrow> 2 ^ 31 \<le> unat (last (digits x'))) \<and>
           length (digits x) \<le> length (digits x') \<and> length (digits x') \<le> length (digits x) + 1"
proof (cases "bsign x")
  case True
  then show ?thesis using assms by (simp add: comp_if_neg_def tc_eq big_val_def)
next
  case False
  let ?n = "length (digits x)"
  define ds where "ds = add1_loop 1 (map (\<lambda>d. NOT d) (digits x))"
  have l: "length ds = ?n" by (simp add: ds_def)
  have v: "dval ds = 2 ^ (32 * ?n) - dval (digits x)"
    using add1_complement [of "digits x"] assms False by (simp add: ds_def)
  have t: "int (dval ds) - 2 ^ (32 * ?n) = big_val x"
    using v False dval_bound [of "digits x"] by (simp add: big_val_def of_nat_diff less_imp_le)
  have eq: "comp_if_neg x = (if unat (last ds) < 2 ^ 31
      then Inr \<lparr>bsign = False, digits = ds @ [NOT 0]\<rparr> else Inr \<lparr>bsign = False, digits = ds\<rparr>)"
    using False assms(1) unfolding comp_if_neg_def get2comp_def Let_def top_bit_clear ds_def [symmetric]
    by (simp add: rb_big_clone_def ds_def)
  have m1: "unat (- 1 :: u32) = 2 ^ 32 - 1"
    by (simp add: unsigned_minus_1_eq_mask mask_eq_exp_minus_1)
  show ?thesis
  proof (cases "unat (last ds) < 2 ^ 31")
    case True
    have "int (dval (ds @ [- 1])) - 2 ^ (32 * Suc ?n) = int (dval ds) - 2 ^ (32 * ?n)"
      by (simp add: dval_append m1 l power_add algebra_simps)
    then show ?thesis using True False t l eq by (simp add: tc_eq m1)
  next
    case F: False
    then show ?thesis using False t l eq assms(1) by (auto simp: tc_eq)
  qed
qed

lemma concat_digit: "int (unat d) + 2 ^ 32 * A = concat_bit 32 (uint (d :: u32)) A"
  by (simp add: concat_bit_eq push_bit_eq_mult uint_unat take_bit_eq_mod mult.commute
      unat_dig_less [simplified])

lemma concat_and: "concat_bit 32 (uint a) A AND concat_bit 32 (uint b) B = concat_bit 32 (uint (a AND b :: u32)) (A AND B)"
  and concat_or: "concat_bit 32 (uint a) A OR concat_bit 32 (uint b) B = concat_bit 32 (uint (a OR b :: u32)) (A OR B)"
  and concat_xor: "concat_bit 32 (uint a) A XOR concat_bit 32 (uint b) B = concat_bit 32 (uint (a XOR b :: u32)) (A XOR B)"
  and concat_not: "NOT (concat_bit 32 (uint a) A) = concat_bit 32 (uint (NOT a :: u32)) (NOT A)"
  by (rule bit_eqI, auto simp: bit_concat_bit_iff bit_simps)+

section \<open>The binary operations\<close>

lemma zip_digits_length: "length as \<le> length bs \<Longrightarrow> length (zip_digits f g as bs) = length bs"
  by (induction f g as bs rule: zip_digits.induct) auto

lemma zip_digits_last:
  "length as \<le> length bs \<Longrightarrow> bs \<noteq> [] \<Longrightarrow>
   last (zip_digits f g as bs) = (if length as = length bs then f (last as) (last bs) else g (last bs))"
proof (induction f g as bs rule: zip_digits.induct)
  case (2 f g a as b bs)
  show ?case
  proof (cases "bs = []")
    case False
    moreover from this have "zip_digits f g as bs \<noteq> []"
      using zip_digits_length [of as bs f g] 2(2) by (metis length_0_conv length_Cons Suc_le_mono)
    moreover have "as \<noteq> []" if "length as = length bs" using that False by auto
    ultimately show ?thesis using 2 by auto
  qed (use 2 in simp)
qed (simp_all add: last_map)

text \<open>
  What the frame needs of an operation: \<^verbatim>\<open>f\<close> on two digits and \<^verbatim>\<open>g\<close> against the sign of the shorter
  operand compute a digit of the integer operation \<^verbatim>\<open>F\<close>, and \<^verbatim>\<open>s\<close> its sign.
\<close>

locale digit_bitop =
  fixes f :: "u32 \<Rightarrow> u32 \<Rightarrow> u32" and g :: "bool \<Rightarrow> u32 \<Rightarrow> u32" and s :: "bool \<Rightarrow> bool \<Rightarrow> bool"
    and F :: "int \<Rightarrow> int \<Rightarrow> int"
  assumes digit: "F (int (unat a) + 2 ^ 32 * A) (int (unat b) + 2 ^ 32 * B) =
                  int (unat (f a b)) + 2 ^ 32 * F A B"
    and above: "F (if sa then 0 else - 1) (int (unat b) + 2 ^ 32 * B) =
                int (unat (g sa b)) + 2 ^ 32 * F (if sa then 0 else - 1) B"
    and sign: "F (if sa then 0 else - 1) (if sb then 0 else - 1) = (if s sa sb then 0 else - 1)"
    and comm: "F A B = F B A" and s_comm: "s sa sb = s sb sa"
begin

lemma zip_tc: "length as \<le> length bs \<Longrightarrow> tc (s sa sb) (zip_digits f (g sa) as bs) = F (tc sa as) (tc sb bs)"
proof (induction as arbitrary: bs)
  case Nil
  show ?case
    by (induction bs) (use sign above [of True] above [of False] in auto)
next
  case (Cons a as)
  then obtain b bs' where bs: "bs = b # bs'" by (cases bs) auto
  from Cons show ?case by (simp add: bs digit [simplified])
qed

lemma bitop_value:
  assumes x: "digits x \<noteq> []" "bsign x \<or> dval (digits x) \<noteq> 0"
    and b: "to_big y = Some b" "digits b \<noteq> []" "bsign b \<or> dval (digits b) \<noteq> 0"
  shows "\<exists>r zs. big_bitop f g s x y = Inr r \<and> canonical r \<and> zs \<noteq> [] \<and>
           tc (s (bsign x) (bsign b)) zs = F (big_val x) (big_val b) \<and>
           int_of r = Some (if \<not> s (bsign x) (bsign b) \<and> dval zs = 0 then 0 else F (big_val x) (big_val b)) \<and>
           (\<exists>sa sb p q. (\<not> sa \<longrightarrow> 2 ^ 31 \<le> unat p) \<and>
              (\<not> sb \<longrightarrow> 2 ^ 31 \<le> unat q) \<and> (last zs = f p q \<or> last zs = g sa q) \<and> s sa sb = s (bsign x) (bsign b))"
proof -
  obtain x' where x': "comp_if_neg x = Inr x'" "bsign x' = bsign x" "digits x' \<noteq> []"
    "tc (bsign x) (digits x') = big_val x" "\<not> bsign x \<longrightarrow> 2 ^ 31 \<le> unat (last (digits x'))"
    using comp_if_neg_value [OF x] by blast
  obtain b' where b': "comp_if_neg b = Inr b'" "bsign b' = bsign b" "digits b' \<noteq> []"
    "tc (bsign b) (digits b') = big_val b" "\<not> bsign b \<longrightarrow> 2 ^ 31 \<le> unat (last (digits b'))"
    using comp_if_neg_value [OF b(2,3)] by blast
  define w where "w = (if length (digits x') > length (digits b') then (b', x') else (x', b'))"
  define p where "p = fst w"
  define q where "q = snd w"
  have pq: "length (digits p) \<le> length (digits q)" "digits q \<noteq> []" "w = (p, q)"
    "(p = x' \<and> q = b') \<or> (p = b' \<and> q = x')"
    using x'(3) b'(3) by (auto simp: w_def p_def q_def)
  define zs where "zs = zip_digits f (g (bsign p)) (digits p) (digits q)"
  let ?s = "s (bsign x) (bsign b)"
  have sg: "s (bsign p) (bsign q) = ?s" using pq(4) x'(2) b'(2) s_comm [of "bsign b" "bsign x"] by auto
  have val: "tc ?s zs = F (big_val x) (big_val b)"
  proof -
    have "F (tc (bsign p) (digits p)) (tc (bsign q) (digits q)) = F (big_val x) (big_val b)"
      using pq(4) comm [of "big_val b" "big_val x"]
      by (elim disjE conjE) (simp_all only: x'(2,4) b'(2,4))
    then show ?thesis using zip_tc [OF pq(1), of "bsign p" "bsign q"] sg by (simp add: zs_def)
  qed
  have ne: "zs \<noteq> []" using zip_digits_length [OF pq(1)] pq(2) unfolding zs_def by (metis length_0_conv)
  let ?z = "\<lparr>bsign = ?s, digits = zs\<rparr>"
  have eq: "big_bitop f g s x y =
      (case (if \<not> ?s then get2comp ?z False else Inr ?z) of Inl e \<Rightarrow> Inl e | Inr z \<Rightarrow> Inr (bignorm z))"
    using b(1) x'(1,2) b'(1,2) pq(3) by (simp add: big_bitop_def w_def [symmetric] zs_def)
  have "\<exists>z. (if \<not> ?s then get2comp ?z False else Inr ?z) = Inr z \<and>
      big_val z = (if \<not> ?s \<and> dval zs = 0 then 0 else F (big_val x) (big_val b))"
  proof -
    consider "?s" | "\<not> ?s" "dval zs \<noteq> 0" | "\<not> ?s" "dval zs = 0" by blast
    then show ?thesis
    proof cases
      case 1
      then have "big_val ?z = F (big_val x) (big_val b)"
        unfolding val [symmetric] by (simp add: big_val_def tc_eq)
      with 1 show ?thesis by simp
    next
      case 2
      then obtain z' where "get2comp ?z False = Inr z'" "big_val z' = F (big_val x) (big_val b)"
        using get2comp_negative [of ?z] ne val by auto
      then show ?thesis using 2 by simp
    next
      case 3
      obtain z' where "get2comp ?z False = Inr z'" "dval (digits z') = 0"
        using get2comp_plain [of ?z] ne 3 by auto
      then show ?thesis using 3 by (simp add: big_val_def)
    qed
  qed
  then obtain z where z: "(if \<not> ?s then get2comp ?z False else Inr ?z) = Inr z"
    "big_val z = (if \<not> ?s \<and> dval zs = 0 then 0 else F (big_val x) (big_val b))" by blast
  have "\<not> bsign p \<longrightarrow> 2 ^ 31 \<le> unat (last (digits p))" "\<not> bsign q \<longrightarrow> 2 ^ 31 \<le> unat (last (digits q))"
    using pq(4) x'(2,5) b'(2,5) by (elim disjE conjE; simp)+
  moreover have "last zs = f (last (digits p)) (last (digits q)) \<or> last zs = g (bsign p) (last (digits q))"
    unfolding zs_def zip_digits_last [OF pq(1,2)] by simp
  ultimately have "\<exists>sa sb p q. (\<not> sa \<longrightarrow> 2 ^ 31 \<le> unat p) \<and> (\<not> sb \<longrightarrow> 2 ^ 31 \<le> unat q) \<and>
      (last zs = f p q \<or> last zs = g sa q) \<and> s sa sb = ?s"
    using sg by blast
  then show ?thesis
    using eq z ne val by (intro exI [of _ "bignorm z"] exI [of _ zs]) (simp only: sum.case int_of_bignorm canonical_bignorm simp_thms)
qed

end

text \<open>
  A sufficient condition that no carry is lost: the top bit that \<^verbatim>\<open>get2comp\<close> leaves in a negative
  operand survives into a negative result.
\<close>

locale digit_bitop_exact = digit_bitop +
  assumes top_f: "\<not> s sa sb \<Longrightarrow> (\<not> sa \<longrightarrow> 2 ^ 31 \<le> unat a) \<Longrightarrow> (\<not> sb \<longrightarrow> 2 ^ 31 \<le> unat b) \<Longrightarrow>
                  2 ^ 31 \<le> unat (f a b)"
    and top_g: "\<not> s sa sb \<Longrightarrow> (\<not> sb \<longrightarrow> 2 ^ 31 \<le> unat b) \<Longrightarrow> 2 ^ 31 \<le> unat (g sa b)"
begin

lemma bitop_exact:
  assumes x: "digits x \<noteq> []" "bsign x \<or> dval (digits x) \<noteq> 0"
    and b: "to_big y = Some b" "digits b \<noteq> []" "bsign b \<or> dval (digits b) \<noteq> 0"
  shows "\<exists>r. big_bitop f g s x y = Inr r \<and> canonical r \<and> int_of r = Some (F (big_val x) (big_val b))"
proof -
  obtain r zs sa sb p q where
    r: "big_bitop f g s x y = Inr r" "canonical r" "zs \<noteq> []"
      "int_of r = Some (if \<not> s (bsign x) (bsign b) \<and> dval zs = 0 then 0 else F (big_val x) (big_val b))"
    and t: "\<not> sa \<longrightarrow> 2 ^ 31 \<le> unat p" "\<not> sb \<longrightarrow> 2 ^ 31 \<le> unat q" "last zs = f p q \<or> last zs = g sa q"
      "s sa sb = s (bsign x) (bsign b)"
    using bitop_value [OF x b] by blast
  have "dval zs \<noteq> 0" if "\<not> s (bsign x) (bsign b)"
    using top_f [of sa sb p q] top_g [of sa sb q] that t r(3) by (intro tc_nonempty_ge) auto
  with r show ?thesis by auto
qed

end

lemma concat_const:
  "concat_bit 32 (uint (0 :: u32)) 0 = 0" "NOT (mask 32) OR take_bit 32 (uint (- 1 :: u32)) = (- 1 :: int)"
  by (rule bit_eqI, auto simp: bit_concat_bit_iff bit_simps)+

lemmas digit_simps = concat_digit concat_and concat_or concat_xor concat_not

lemma unat_top_bit: "2 ^ 31 \<le> unat (a :: u32) \<longleftrightarrow> bit a 31"
proof -
  have "bit a 31 \<longleftrightarrow> \<not> a AND push_bit (BITSPERDIG - 1) 1 = 0"
    unfolding BITSPERDIG_def push_bit_of_1 and_exp_eq_0_iff_not_bit by simp
  then show ?thesis by (simp only: top_bit_clear not_less)
qed

interpretation bit_and: digit_bitop_exact "\<lambda>a b. a AND b" "\<lambda>sign d. if sign then 0 else d"
  "\<lambda>sx sy. sx \<or> sy" "\<lambda>a b. a AND b"
  by unfold_locales
     (simp_all only: digit_simps unat_top_bit, auto simp: bit_simps and.commute concat_const)

interpretation bit_or: digit_bitop_exact "\<lambda>a b. a OR b" "\<lambda>sign d. if sign then d else - 1"
  "\<lambda>sx sy. sx \<and> sy" "\<lambda>a b. a OR b"
  by unfold_locales
     (simp_all only: digit_simps unat_top_bit, auto simp: bit_simps or.commute concat_const)

interpretation bit_xor: digit_bitop "\<lambda>a b. a XOR b" "\<lambda>sign d. if sign then d else NOT d"
  "\<lambda>sx sy. sx = sy" "\<lambda>a b. a XOR b"
  by unfold_locales
     (simp_all only: digit_simps unat_top_bit, auto simp: bit_simps xor.commute concat_not)

section \<open>Shifts and bit reference\<close>

lemma bit_below: "unat (num :: u64) < 2 ^ dd \<Longrightarrow> bit num n \<Longrightarrow> n < dd"
proof -
  assume "unat num < 2 ^ dd" "bit num n"
  then have "take_bit dd num = num"
    by (simp add: word_unat_eq_iff unsigned_take_bit_eq take_bit_nat_eq_self)
  with \<open>bit num n\<close> show ?thesis by (metis bit_take_bit_iff)
qed

lemma lshift_loop_eq: "s2 < 32 \<Longrightarrow> unat num < 2 ^ s2 \<Longrightarrow> lshift_loop s2 num ds = shl_loop s2 num ds"
proof (induction ds arbitrary: num)
  case (Cons d ds)
  have "num AND push_bit s2 (ucast d) = 0"
    by (rule bit_word_eqI) (auto simp: bit_simps dest: bit_below [OF Cons.prems(2)])
  then have "num OR push_bit s2 (ucast d) = num + push_bit s2 (ucast d)"
    by (simp add: disjunctive_add_eq_or)
  with Cons.IH [OF Cons.prems(1) shl_step(2) [OF Cons.prems], of d] show ?case
    by (simp add: Let_def)
qed simp

lemma lshift_pos_value:
  "\<exists>r :: ('f, 'o) VALUE. lshift_pos x n = Inr r \<and> canonical r \<and> int_of r = Some (big_val x * 2 ^ n)"
proof -
  let ?s1 = "n div 32" and ?s2 = "n mod 32"
  obtain zs num where s: "shl_loop ?s2 0 (digits x) = (zs, num)" by force
  from shl_loop_value [OF s] have v: "length zs = length (digits x)" "unat num < 2 ^ ?s2"
    "dval zs + 2 ^ (32 * length (digits x)) * unat num = dval (digits x) * 2 ^ ?s2" by simp_all
  have "unat num < 2 ^ 32" using v(2) power_increasing [of ?s2 32 "2 :: nat"] by simp
  then have "dval (replicate ?s1 0 @ zs @ [BIGLO num]) = 2 ^ (32 * ?s1) * (dval (digits x) * 2 ^ ?s2)"
    using v by (simp add: dval_append unat_BIGLO)
  also have "\<dots> = dval (digits x) * 2 ^ n"
    by (simp add: mult.commute mult.left_commute flip: power_add)
  finally have "big_val \<lparr>bsign = bsign x, digits = replicate ?s1 0 @ zs @ [BIGLO num]\<rparr> = big_val x * 2 ^ n"
    by (simp add: big_val_def)
  moreover have "(lshift_pos x n :: rb_error + ('f, 'o) VALUE) =
      Inr (bignorm \<lparr>bsign = bsign x, digits = replicate ?s1 0 @ zs @ [BIGLO num]\<rparr>)"
    using s lshift_loop_eq [of ?s2 0 "digits x"] by (simp add: lshift_pos_def BITSPERDIG_def Let_def)
  ultimately show ?thesis by simp
qed

lemma tc_drop: "k \<le> length ds \<Longrightarrow> tc sign (drop k ds) = tc sign ds div 2 ^ (32 * k)"
proof (induction k arbitrary: ds)
  case (Suc k)
  then obtain d ds' where ds: "ds = d # ds'" by (cases ds) auto
  have "tc sign ds div 2 ^ 32 = tc sign ds'"
    using unat_dig_less [of d] by (simp add: ds div_add_self2 div_mult_self2)
  then have "tc sign ds div 2 ^ (32 * Suc k) = tc sign ds' div 2 ^ (32 * k)"
    by (simp only: mult_Suc_right power_add zdiv_zmult2_eq zero_le_power zero_le_numeral)
  with Suc show ?case by (simp add: ds)
qed simp

lemma shr_negative:
  assumes "dval es \<noteq> 0" "es \<noteq> []" "s2 < 32"
  defines "zs \<equiv> rev (shr_loop s2 (push_bit BITSPERDIG (- 1)) (rev es))"
  shows "zs \<noteq> []" "dval zs \<noteq> 0" "tc False zs = tc False es div 2 ^ s2"
proof -
  let ?M = "2 ^ (32 * length es) :: int" and ?t = "tc False es"
  have up: "push_bit BITSPERDIG (- 1) = BIGUP (ucast (- 1 :: u32))"
    by (rule bit_word_eqI) (auto simp: BIGUP_def BITSPERDIG_def bit_simps)
  have m1: "unat (- 1 :: u32) = 2 ^ 32 - 1"
    by (simp add: unsigned_minus_1_eq_mask mask_eq_exp_minus_1)
  note sv = shr_loop_value [OF assms(3), of "- 1" "rev es"]
  have l: "length zs = length es" unfolding zs_def up using sv by simp
  then show "zs \<noteq> []" using assms(2) by auto
  have "dval zs = ((2 ^ 32 - 1) * 2 ^ (32 * length es) + dval es) div 2 ^ s2 mod 2 ^ (32 * length es)"
    using sv unfolding zs_def up m1 by simp
  then have "int (dval zs) = int (((2 ^ 32 - 1) * 2 ^ (32 * length es) + dval es) div 2 ^ s2 mod 2 ^ (32 * length es))"
    by simp
  also have "\<dots> = (?t + 2 ^ 32 * ?M) div 2 ^ s2 mod ?M"
    by (simp add: zdiv_int zmod_int tc_eq algebra_simps)
  also have "?t + 2 ^ 32 * ?M = ?t + 2 ^ s2 * (2 ^ (32 - s2) * ?M)"
  proof -
    have "(2 :: int) ^ 32 = 2 ^ s2 * 2 ^ (32 - s2)" using assms(3) by (simp flip: power_add)
    then show ?thesis by (simp only: mult.assoc)
  qed
  also have "\<dots> div 2 ^ s2 = ?t div 2 ^ s2 + 2 ^ (32 - s2) * ?M" by (simp add: div_mult_self2)
  finally have v: "int (dval zs) = ?t div 2 ^ s2 mod ?M" by simp
  have neg: "?t < 0" using int_dval_bound [of es] by (simp add: tc_eq)
  have "- ?M < ?t" using assms(1) by (simp add: tc_eq)
  also have "?t = ?t * 2 ^ s2 div 2 ^ s2" by simp
  also have "\<dots> \<le> ?t div 2 ^ s2"
    using mult_left_mono_neg [of 1 "2 ^ s2" ?t] neg by (intro zdiv_mono1) simp_all
  finally have lo: "- ?M < ?t div 2 ^ s2" .
  have hi: "?t div 2 ^ s2 < 0" using neg by (simp add: pos_imp_zdiv_neg_iff)
  have "?t div 2 ^ s2 mod ?M = (?t div 2 ^ s2 + ?M) mod ?M" by simp
  also have "\<dots> = ?t div 2 ^ s2 + ?M" using lo hi by (intro mod_pos_pos_trivial) auto
  finally have w: "int (dval zs) = ?t div 2 ^ s2 + ?M" using v by simp
  then show "tc False zs = ?t div 2 ^ s2" using l by (simp add: tc_eq)
  show "dval zs \<noteq> 0" using w lo by auto
qed

lemma big_val_beyond:
  assumes "bsign x \<or> dval (digits x) \<noteq> 0" "32 * length (digits x) \<le> n"
  shows "big_val x div 2 ^ n = (if bsign x then 0 else - 1)"
proof -
  have "int (dval (digits x)) < 2 ^ (32 * length (digits x))" by (rule int_dval_bound)
  also have "\<dots> \<le> (2 :: int) ^ n" using assms(2) by (intro power_increasing) auto
  finally have b: "int (dval (digits x)) < 2 ^ n" .
  have "- int (dval (digits x)) div 2 ^ n = - 1" if "dval (digits x) \<noteq> 0"
    using b that by (intro int_div_pos_eq [where r = "2 ^ n - int (dval (digits x))"]) auto
  then show ?thesis using b assms(1) by (auto simp: big_val_def div_pos_pos_trivial)
qed

lemma last_top_bit:
  assumes "ds \<noteq> []"
  shows "unat (last ds) < 2 ^ 31 \<longleftrightarrow> 2 * dval ds < 2 ^ (32 * length ds)"
proof -
  obtain bs d where ds: "ds = bs @ [d]" using assms by (metis append_butlast_last_id)
  define B where "B = (2 ^ (32 * length bs) :: nat)"
  define P where "P = B * unat d"
  define Q where "Q = B * 2 ^ 31"
  have v: "dval ds = dval bs + P" "dval bs < B" using dval_bound [of bs] by (simp_all add: ds dval_append B_def P_def)
  have w: "2 ^ (32 * length ds) = 2 * Q" by (simp add: ds power_add B_def Q_def)
  show ?thesis
  proof (cases "unat d < 2 ^ 31")
    case True
    then have "B * (unat d + 1) \<le> Q" unfolding Q_def by (intro mult_left_mono) simp_all
    then have "P + B \<le> Q" by (simp add: P_def)
    then have "2 * dval ds < 2 ^ (32 * length ds)" using v unfolding w by linarith
    then show ?thesis using True by (simp add: ds)
  next
    case False
    then have "Q \<le> P" unfolding Q_def P_def by (intro mult_left_mono) simp_all
    then have "\<not> 2 * dval ds < 2 ^ (32 * length ds)" using v unfolding w by linarith
    then show ?thesis using False by (simp add: ds)
  qed
qed

text \<open>
  Whether a right shift by \<open>n\<close> of a negative number takes away all its digits, with none added by the two's complement: then
  \<^verbatim>\<open>get2comp\<close> reads the last digit of an empty array.
\<close>

definition shifts_out :: "rbignum \<Rightarrow> nat \<Rightarrow> bool" where
  "shifts_out x n \<longleftrightarrow> \<not> bsign x \<and> n div 32 = length (digits x) \<and> 2 * dval (digits x) \<le> 2 ^ (32 * length (digits x))"

lemma comp_if_neg_length:
  assumes "digits x \<noteq> []" "dval (digits x) \<noteq> 0" "\<not> bsign x" "comp_if_neg x = Inr x'"
  shows "length (digits x') = length (digits x) + (if 2 * dval (digits x) \<le> 2 ^ (32 * length (digits x)) then 0 else 1)"
proof -
  let ?n = "length (digits x)"
  define ds where "ds = add1_loop 1 (map (\<lambda>d. NOT d) (digits x))"
  have l: "length ds = ?n" by (simp add: ds_def)
  have v: "dval ds = 2 ^ (32 * ?n) - dval (digits x)"
    using add1_complement [of "digits x"] assms(1,2) by (simp add: ds_def)
  have "comp_if_neg x = (if unat (last ds) < 2 ^ 31
      then Inr \<lparr>bsign = False, digits = ds @ [NOT 0]\<rparr> else Inr \<lparr>bsign = False, digits = ds\<rparr>)"
    using assms(1,3) unfolding comp_if_neg_def get2comp_def Let_def top_bit_clear ds_def [symmetric]
    by (simp add: rb_big_clone_def ds_def)
  moreover have "unat (last ds) < 2 ^ 31 \<longleftrightarrow> \<not> 2 * dval (digits x) \<le> 2 ^ (32 * ?n)"
  proof -
    have "ds \<noteq> []" using l assms(1) by auto
    then have "unat (last ds) < 2 ^ 31 \<longleftrightarrow> 2 * (2 ^ (32 * ?n) - dval (digits x)) < 2 ^ (32 * ?n)" using last_top_bit [of ds] l v by simp
    then show ?thesis using dval_bound [of "digits x"] by linarith
  qed
  ultimately show ?thesis using assms(4) l by (auto split: if_splits)
qed

lemma rshift_pos_value:
  fixes x :: rbignum
  assumes x: "digits x \<noteq> []" "bsign x \<or> dval (digits x) \<noteq> 0"
    and n: "\<not> shifts_out x n"
  shows "\<exists>r :: ('f, 'o) VALUE. rshift_pos x n = Inr r \<and> canonical r \<and> int_of r = Some (big_val x div 2 ^ n)"
proof (cases "n div 32 > length (digits x)")
  case True
  then have "big_val x div 2 ^ n = (if bsign x then 0 else - 1)" using x(2) by (intro big_val_beyond) auto
  then show ?thesis
    using True by (auto simp: rshift_pos_def BITSPERDIG_def Let_def LONG2FIX_id FIXABLE_iff)
next
  case False
  let ?s1 = "n div 32" and ?s2 = "n mod 32"
  obtain x' where x': "comp_if_neg x = Inr x'" "bsign x' = bsign x" "digits x' \<noteq> []"
    "tc (bsign x) (digits x') = big_val x" "\<not> bsign x \<longrightarrow> 2 ^ 31 \<le> unat (last (digits x'))"
    "length (digits x) \<le> length (digits x')"
    using comp_if_neg_value [OF x] by blast
  define es where "es = drop ?s1 (digits x')"
  have "tc (bsign x) es = big_val x div 2 ^ (32 * ?s1)"
    using False x'(4,6) tc_drop [of ?s1 "digits x'" "bsign x"] by (simp add: es_def)
  then have t: "tc (bsign x) es div 2 ^ ?s2 = big_val x div 2 ^ n"
    by (simp add: zdiv_zmult2_eq [symmetric] flip: power_add)
  define num :: u64 where "num = (if \<not> bsign x then push_bit BITSPERDIG (- 1) else 0)"
  let ?z = "\<lparr>bsign = bsign x, digits = rev (shr_loop ?s2 num (rev es))\<rparr>"
  have eq: "(rshift_pos x n :: rb_error + ('f, 'o) VALUE) =
      (case (if \<not> bsign x then get2comp ?z False else Inr ?z) of Inl e \<Rightarrow> Inl e | Inr z \<Rightarrow> Inr (bignorm z))"
    using False x'(1,2) by (simp add: rshift_pos_def BITSPERDIG_def Let_def es_def num_def)
  have "\<exists>z. (if \<not> bsign x then get2comp ?z False else Inr ?z) = Inr z \<and> big_val z = big_val x div 2 ^ n"
  proof (cases "bsign x")
    case True
    then have "big_val ?z = tc True es div 2 ^ ?s2"
      using shr_digits_value(2) [of ?s2 es] by (simp add: big_val_def num_def tc_eq zdiv_int)
    with True t show ?thesis by simp
  next
    case neg: False
    then have ne: "es \<noteq> []"
      using n False x'(6) comp_if_neg_length [OF x(1) _ neg x'(1)] x(2) by (auto simp: es_def shifts_out_def split: if_splits)
    then have "last es = last (digits x')" by (simp add: es_def)
    then have "dval es \<noteq> 0" using x'(5) neg ne by (intro tc_nonempty_ge) auto
    from shr_negative [OF this ne, of ?s2] get2comp_negative [of ?z] neg t show ?thesis
      by (auto simp: num_def)
  qed
  then show ?thesis using eq by auto
qed

lemma rshift_pos_shifts_out:
  assumes "digits x \<noteq> []" "dval (digits x) \<noteq> 0" "shifts_out x n"
  shows "rshift_pos x n = Inl OutOfBounds"
proof -
  have x: "\<not> bsign x" "n div 32 = length (digits x)" "2 * dval (digits x) \<le> 2 ^ (32 * length (digits x))"
    using assms(3) by (simp_all add: shifts_out_def)
  obtain x' where x': "comp_if_neg x = Inr x'" "bsign x' = bsign x" using comp_if_neg_value assms(1,2) by blast
  have "length (digits x') = n div 32" using comp_if_neg_length [OF assms(1,2) x(1) x'(1)] x(2,3) by simp
  then show ?thesis
    using x x' by (simp add: rshift_pos_def BITSPERDIG_def Let_def get2comp_def)
qed

lemma rb_num2int_range: "rb_num2int conv y = Inr s \<Longrightarrow> - (2 ^ 31) \<le> s"
  by (auto simp: rb_num2int_def split: sum.splits if_splits)

lemma big_shift_neg: "shift < 0 \<Longrightarrow> - (2 ^ 31) < shift \<Longrightarrow> big_shift left x shift = big_shift (\<not> left) x (- shift)"
  by (subst big_shift.simps) simp

lemma big_shift_pos:
  "0 \<le> shift \<Longrightarrow> big_shift left x shift = Some (if left then lshift_pos x (nat shift) else rshift_pos x (nat shift))"
  by (subst big_shift.simps) simp

lemma big_shift_diverges:
  fixes r :: "(rb_error + ('f, 'o) VALUE) option"
  assumes "r = big_shift left x (- (2 ^ 31))"
  shows "r = None"
proof -
  have "s \<noteq> - (2 ^ 31)" if "(big_shift l x s :: (rb_error + ('f, 'o) VALUE) option) = Some r" for l x s r
  proof (rule big_shift.raw_induct [of "\<lambda>l x s r. s \<noteq> - (2 ^ 31)" "((l, x), s)" r, unfolded prod.case])
    show "big_shift l x s = Some r" by (rule that)
  qed (fastforce simp: int32_def split: if_splits)
  then show ?thesis using assms by (cases r) blast+
qed

lemma bit_tc:
  "n div 32 < length ds \<Longrightarrow> bit (tc sign ds) n \<longleftrightarrow> bit (ds ! (n div 32)) (n mod 32)"
proof (induction ds arbitrary: n)
  case (Cons d ds)
  show ?case
  proof (cases "n < 32")
    case True
    then show ?thesis by (simp add: concat_digit [simplified] bit_concat_bit_iff bit_simps)
  next
    case False
    then have "n div 32 = Suc ((n - 32) div 32)" "n mod 32 = (n - 32) mod 32"
      by (simp_all add: le_div_geq le_mod_geq)
    with False Cons show ?thesis by (simp add: concat_digit [simplified] bit_concat_bit_iff)
  qed
qed simp

lemma aref_int_value:
  assumes x: "digits x \<noteq> []" "bsign x \<or> dval (digits x) \<noteq> 0" and n: "0 \<le> shift"
  shows "aref_int x shift = Inr (Fixnum (if bit (big_val x) (nat shift) then 1 else 0))"
proof -
  have fix01: "LONG2FIX 0 = Fixnum 0" "LONG2FIX 1 = Fixnum 1" by (simp_all add: LONG2FIX_id FIXABLE_iff)
  let ?n = "nat shift"
  show ?thesis
  proof (cases "?n div 32 \<ge> length (digits x)")
    case True
    then have "bit (big_val x) ?n \<longleftrightarrow> \<not> bsign x"
      using big_val_beyond [OF x(2), of ?n] by (simp add: bit_iff_odd)
    then show ?thesis using True n by (simp add: aref_int_def BITSPERDIG_def Let_def fix01)
  next
    case False
    obtain x' where x': "comp_if_neg x = Inr x'" "tc (bsign x) (digits x') = big_val x"
      "length (digits x) \<le> length (digits x')"
      using comp_if_neg_value [OF x] by blast
    have "bit (big_val x) ?n \<longleftrightarrow> bit (digits x' ! (?n div 32)) (?n mod 32)"
      unfolding x'(2) [symmetric] using False x'(3) by (intro bit_tc) simp
    then show ?thesis
      using False n x'(1)
      by (simp add: aref_int_def BITSPERDIG_def Let_def fix01 push_bit_of_1 and_exp_eq_0_iff_not_bit)
  qed
qed

section \<open>Properties\<close>

lemma big_ok_sign: "big_ok x \<Longrightarrow> digits x \<noteq> [] \<and> (bsign x \<or> dval (digits x) \<noteq> 0)"
  using big_ok_zero [of x] by (auto simp: big_ok_def)

text \<open>
  \<^verbatim>\<open>rb_big_and\<close> and \<^verbatim>\<open>rb_big_or\<close> are the bit operations on integers in two's complement, for all
  signs and lengths: the result is the canonical value of the conjunction or disjunction. The top bit
  that \<^verbatim>\<open>get2comp\<close> forces into a negative operand keeps the complement of a negative result from
  losing a carry.
\<close>

theorem rb_big_and_or_exact:
  assumes "canonical (Bignum x :: ('f, 'o) VALUE)" "canonical y" "int_of y = Some v"
  shows "\<exists>a r. rb_big_and x y = Inr a \<and> int_of a = Some (big_val x AND v) \<and> canonical a \<and>
               rb_big_or x (y :: ('f, 'o) VALUE) = Inr r \<and> int_of r = Some (big_val x OR v) \<and> canonical r"
proof -
  obtain b where b: "to_big y = Some b" "big_val b = v" using int_of_to_big [OF assms(3)] by blast
  have "big_ok x" "big_ok b" using assms(1) big_ok_to_big [OF assms(2) b(1)] by (simp_all add: big_ok_norm)
  then show ?thesis
    using bit_and.bitop_exact [of x y b] bit_or.bitop_exact [of x y b] big_ok_sign b
    unfolding rb_big_and_def rb_big_or_def by blast
qed

theorem rb_big_and_or_exact_witness:
  "\<exists>a r. rb_big_and \<lparr>bsign = False, digits = [1, 0, 1]\<rparr> (Fixnum 7 :: (unit, unit) VALUE) = Inr a \<and>
         int_of a = Some 7 \<and>
         rb_big_or \<lparr>bsign = False, digits = [1, 0, 1]\<rparr> (Fixnum 7 :: (unit, unit) VALUE) = Inr r \<and>
         int_of r = Some (- (2 ^ 64) - 1)"
  using rb_big_and_or_exact [of "\<lparr>bsign = False, digits = [1, 0, 1]\<rparr>" "Fixnum 7 :: (unit, unit) VALUE" 7]
  by (auto simp: big_norm_ok_def big_val_def FIXABLE_iff)

text \<open>
  \<^verbatim>\<open>rb_big_xor\<close> is the exclusive or in two's complement except where a carry is lost: its result
  denotes the exclusive or of the operands, or it is 0 where the exact result is minus a power of the
  radix that does not fit the digits of the longer operand.
\<close>

theorem rb_big_xor_exact_or_carry:
  assumes "canonical (Bignum x :: ('f, 'o) VALUE)" "canonical y" "int_of y = Some v"
  shows "\<exists>r :: ('f, 'o) VALUE. rb_big_xor x y = Inr r \<and> canonical r \<and>
           (int_of r = Some (big_val x XOR v) \<or>
            int_of r = Some 0 \<and> (\<exists>n. big_val x XOR v = - (2 ^ (32 * n))))"
proof -
  obtain b where b: "to_big y = Some b" "big_val b = v" using int_of_to_big [OF assms(3)] by blast
  have "big_ok x" "big_ok b" using assms(1) big_ok_to_big [OF assms(2) b(1)] by (simp_all add: big_ok_norm)
  note sx = big_ok_sign [OF this(1)] and sb = big_ok_sign [OF this(2)]
  from bit_xor.bitop_value [OF conjunct1 [OF sx] conjunct2 [OF sx] b(1) conjunct1 [OF sb] conjunct2 [OF sb]]
  obtain r zs where r: "rb_big_xor x y = Inr r" "canonical r"
    "tc (bsign x = bsign b) zs = big_val x XOR big_val b"
    "int_of r = Some (if bsign x \<noteq> bsign b \<and> dval zs = 0 then 0 else big_val x XOR big_val b)"
    unfolding rb_big_xor_def by blast
  show ?thesis
  proof (cases "bsign x \<noteq> bsign b \<and> dval zs = 0")
    case True
    then have "big_val x XOR big_val b = - (2 ^ (32 * length zs))" using r(3) by (simp add: tc_eq)
    with True r b(2) show ?thesis by auto
  next
    case False
    then have "int_of r = Some (big_val x XOR v)" using r(4) b(2) by auto
    with r(1,2) show ?thesis by blast
  qed
qed

theorem rb_big_xor_exact_or_carry_witness:
  "\<exists>r :: (unit, unit) VALUE. rb_big_xor \<lparr>bsign = True, digits = [1, 0, 1]\<rparr> (Fixnum 7) = Inr r \<and>
     int_of r = Some (2 ^ 64 + 6)"
proof -
  have "(2 ^ 64 + 6 :: int) \<noteq> - (2 ^ (32 * n))" for n
  proof
    assume a: "(2 ^ 64 + 6 :: int) = - (2 ^ (32 * n))"
    have "(0 :: int) < 2 ^ 64 + 6" by simp
    also note a
    finally show False by simp
  qed
  then show ?thesis
    using rb_big_xor_exact_or_carry
      [of "\<lparr>bsign = True, digits = [1, 0, 1]\<rparr>" "Fixnum 7 :: (unit, unit) VALUE" 7]
    by (auto simp: big_norm_ok_def big_val_def FIXABLE_iff)
qed

text \<open>
  The exclusive or loses a carry: for 2^63 and minus 2^63 \<^verbatim>\<open>rb_big_xor\<close> returns 0, while the exact
  result is minus 2^64.
\<close>

theorem rb_big_xor_loses_carry:
  "rb_big_xor \<lparr>bsign = True, digits = [0, 0x80000000]\<rparr>
      (Bignum \<lparr>bsign = False, digits = [0, 0x80000000]\<rparr> :: (unit, unit) VALUE) = Inr (Fixnum 0) \<and>
   (2 ^ 63 :: int) XOR - (2 ^ 63) = - (2 ^ 64)"
  by code_simp

lemma canonical_zero: "canonical r \<Longrightarrow> int_of r = Some 0 \<Longrightarrow> r = Fixnum 0"
  by (cases r) (auto simp: FIXABLE_iff signed_eq_0_iff)

lemma top_bit_dval: "ds \<noteq> [] \<Longrightarrow> unat (last ds) < 2 ^ 31 \<longleftrightarrow> dval ds < 2 ^ (32 * length ds - 1)"
proof -
  assume ds: "ds \<noteq> []"
  let ?P = "2 ^ (32 * (length ds - 1)) :: nat" and ?t = "unat (last ds)"
  have e: "2 ^ (32 * length ds - 1) = ?P * 2 ^ 31" using ds by (cases ds) (simp_all add: power_add)
  have "?P * ?t \<le> dval ds" "dval ds < ?P * (?t + 1)" using dval_ge_top [OF ds] dval_less_top [OF ds] .
  then have "?P * ?t < ?P * 2 ^ 31 \<longleftrightarrow> dval ds < ?P * 2 ^ 31"
  proof -
    have "dval ds < ?P * 2 ^ 31" if "?t < 2 ^ 31"
    proof -
      have "?P * (?t + 1) \<le> ?P * 2 ^ 31" using that by (intro mult_le_mono2) simp
      with \<open>dval ds < ?P * (?t + 1)\<close> show ?thesis by (rule less_le_trans)
    qed
    then show ?thesis
      using le_less_trans [OF \<open>?P * ?t \<le> dval ds\<close>, of "?P * 2 ^ 31"] by (auto simp: mult_less_cancel1)
  qed
  then show ?thesis unfolding e by (simp add: mult_less_cancel1)
qed

text \<open>
  C29. \<^verbatim>\<open>rb_big_neg\<close> is the complement -x-1 except for two kinds of numbers: a positive number whose
  digits are all ones, for which the carry is lost and 0 returned, and a negative number whose
  complement has a clear top bit, for which \<^verbatim>\<open>get2comp\<close> reallocates the digits that the complement
  loop still writes to.
\<close>

theorem rb_big_neg_exact_or_flawed:
  assumes "canonical (Bignum x :: ('f, 'o) VALUE)"
  shows "if bsign x \<and> dval (digits x) = 2 ^ (32 * length (digits x)) - 1
         then rb_big_neg x = Inr (Fixnum 0 :: ('f, 'o) VALUE)
         else if \<not> bsign x \<and> 2 ^ (32 * length (digits x) - 1) < dval (digits x)
         then rb_big_neg x = (Inl OutOfBounds :: rb_error + ('f, 'o) VALUE)
         else \<exists>r :: ('f, 'o) VALUE. rb_big_neg x = Inr r \<and> canonical r \<and> int_of r = Some (- big_val x - 1)"
proof (cases "bsign x")
  case True
  let ?M = "2 ^ (32 * length (digits x)) :: nat"
  have ne: "digits x \<noteq> []" using assms by (simp add: big_norm_ok_def)
  let ?z = "(rb_big_clone x)\<lparr>digits := map (\<lambda>d. NOT d) (digits (rb_big_clone x))\<rparr>"
  obtain z where z: "get2comp ?z False = Inr z" "bsign z"
    "dval (digits z) = (?M - (?M - 1 - dval (digits x))) mod ?M"
    using get2comp_plain [of ?z] ne True by (auto simp: rb_big_clone_def dval_map_not)
  have "?M - (?M - 1 - dval (digits x)) = dval (digits x) + 1" using dval_bound [of "digits x"] by simp
  then have v: "big_val (z\<lparr>bsign := \<not> bsign z\<rparr>) = - int ((dval (digits x) + 1) mod ?M)"
    using z(2,3) by (simp add: big_val_def)
  have eq: "rb_big_neg x = Inr (bignorm (z\<lparr>bsign := \<not> bsign z\<rparr>) :: ('f, 'o) VALUE)"
    using True z(1) by (simp add: rb_big_neg_def)
  show ?thesis
  proof (cases "dval (digits x) = ?M - 1")
    case T: True
    have "(bignorm (z\<lparr>bsign := \<not> bsign z\<rparr>) :: ('f, 'o) VALUE) = Fixnum 0"
      using v T by (intro canonical_zero) simp_all
    then show ?thesis using T True eq by simp
  next
    case False
    then have "dval (digits x) + 1 < ?M" using dval_bound [of "digits x"] by linarith
    then show ?thesis using False True eq v by (simp add: big_val_def)
  qed
next
  case False
  let ?M = "2 ^ (32 * length (digits x)) :: nat"
  have ne: "digits x \<noteq> []" "dval (digits x) \<noteq> 0"
    using assms False by (auto simp: big_norm_ok_def big_val_def FIXABLE_iff)
  define ds where "ds = add1_loop 1 (map (\<lambda>d. NOT d) (digits x))"
  have l: "length ds = length (digits x)" "ds \<noteq> []" using ne by (auto simp: ds_def simp flip: length_greater_0_conv)
  have v: "dval ds = ?M - dval (digits x)"
    using add1_complement [of "digits x"] ne by (simp add: ds_def)
  have MM: "?M = 2 * 2 ^ (32 * length (digits x) - 1)" using ne(1) by (cases "digits x") (simp_all add: power_add)
  have c: "unat (last ds) < 2 ^ 31 \<longleftrightarrow> 2 ^ (32 * length (digits x) - 1) < dval (digits x)"
    unfolding top_bit_dval [OF l(2)] l(1) v MM using dval_bound [of "digits x"] MM by linarith
  have eq: "(rb_big_neg x :: rb_error + ('f, 'o) VALUE) = (if unat (last ds) < 2 ^ 31 then Inl OutOfBounds
      else Inr (bignorm \<lparr>bsign = True, digits = map (\<lambda>d. NOT d) ds\<rparr>))"
    using False ne(1) l unfolding rb_big_neg_def get2comp_def Let_def top_bit_clear
    by (simp add: rb_big_clone_def ds_def)
  have "big_val \<lparr>bsign = True, digits = map (\<lambda>d. NOT d) ds\<rparr> = - big_val x - 1"
    using False ne(2) dval_bound [of "digits x"] l
    by (simp add: big_val_def dval_map_not v of_nat_diff)
  then show ?thesis using False c eq by simp
qed

theorem rb_big_neg_exact_or_flawed_witness:
  "rb_big_neg \<lparr>bsign = True, digits = [- 1, - 1]\<rparr> = Inr (Fixnum 0 :: (unit, unit) VALUE)"
  using rb_big_neg_exact_or_flawed [of "\<lparr>bsign = True, digits = [- 1, - 1]\<rparr>", where 'f=unit and 'o=unit]
  by (simp add: big_norm_ok_def big_val_def FIXABLE_iff unsigned_minus_1_eq_mask mask_eq_exp_minus_1)

text \<open>
  C27. Shifts by a count in the range of \<^verbatim>\<open>int\<close>, all cases. \<^verbatim>\<open>rb_big_lshift\<close> multiplies by the power of two and \<^verbatim>\<open>rb_big_rshift\<close> divides
  by it rounding down, each calling the other for a negative count; a right shift that takes all digits of a
  negative number away, when its two's complement needs no digit more, reads outside an empty array; and with the
  smallest \<^verbatim>\<open>int\<close> as count the two call each other for ever.
\<close>

theorem rb_big_shift_exact:
  assumes "canonical (Bignum x :: ('f, 'o) VALUE)" "rb_num2int conv y = Inr s"
    "left = (rb_big_lshift conv x y :: (rb_error + ('f, 'o) VALUE) option)"
    "right = (rb_big_rshift conv x y :: (rb_error + ('f, 'o) VALUE) option)"
  shows "(s = - (2 ^ 31) \<longrightarrow> left = None \<and> right = None) \<and>
    (s \<noteq> - (2 ^ 31) \<longrightarrow>
       (\<exists>l. (if 0 \<le> s then left else right) = Some (Inr l) \<and> canonical l \<and> int_of l = Some (big_val x * 2 ^ nat \<bar>s\<bar>)) \<and>
       (if shifts_out x (nat \<bar>s\<bar>) then (if 0 \<le> s then right else left) = Some (Inl OutOfBounds)
        else \<exists>r. (if 0 \<le> s then right else left) = Some (Inr r) \<and> canonical r \<and> int_of r = Some (big_val x div 2 ^ nat \<bar>s\<bar>)))"
proof (intro conjI impI)
  have eq: "left = big_shift True x s" "right = big_shift False x s"
    using assms(2-4) by (simp_all add: rb_big_lshift_def rb_big_rshift_def)
  {
    assume "s = - (2 ^ 31)"
    then have "left = big_shift True x (- (2 ^ 31))" "right = big_shift False x (- (2 ^ 31))" using eq by simp_all
    from this [THEN big_shift_diverges] show "left = None" "right = None" by simp_all
  next
    assume "s \<noteq> - (2 ^ 31)"
    then have s: "- (2 ^ 31) < s" using rb_num2int_range [OF assms(2)] by simp
    then have run: "(if 0 \<le> s then left else right) = Some (lshift_pos x (nat \<bar>s\<bar>))" "(if 0 \<le> s then right else left) = Some (rshift_pos x (nat \<bar>s\<bar>))"
      by (cases "0 \<le> s"; simp add: eq big_shift_pos big_shift_neg)+
    have ok: "digits x \<noteq> []" "bsign x \<or> dval (digits x) \<noteq> 0"
      using assms(1) big_ok_sign [OF big_ok_norm] by auto
    show "\<exists>l. (if 0 \<le> s then left else right) = Some (Inr l) \<and> canonical l \<and> int_of l = Some (big_val x * 2 ^ nat \<bar>s\<bar>)"
      unfolding run using lshift_pos_value by auto
    show "if shifts_out x (nat \<bar>s\<bar>) then (if 0 \<le> s then right else left) = Some (Inl OutOfBounds)
        else \<exists>r. (if 0 \<le> s then right else left) = Some (Inr r) \<and> canonical r \<and> int_of r = Some (big_val x div 2 ^ nat \<bar>s\<bar>)"
      unfolding run using rshift_pos_value [OF ok] rshift_pos_shifts_out [OF ok(1)] ok(2) by (auto simp: shifts_out_def)
  }
qed

theorem rb_big_shift_exact_witness:
  "(\<exists>l. rb_big_lshift (\<lambda>_. Inl TypeError) \<lparr>bsign = False, digits = [1, 0, 1]\<rparr> (Fixnum (- 1) :: (unit, unit) VALUE)
        = Some (Inr l) \<and> int_of l = Some (- (2 ^ 63) - 1)) \<and>
   rb_big_rshift (\<lambda>_. Inl TypeError) \<lparr>bsign = False, digits = [1, 0x40000000]\<rparr> (Fixnum 64 :: (unit, unit) VALUE) = Some (Inl OutOfBounds)"
  using rb_big_shift_exact [of "\<lparr>bsign = False, digits = [1, 0, 1]\<rparr>" "\<lambda>_. Inl TypeError"
      "Fixnum (- 1) :: (unit, unit) VALUE" "- 1", OF _ _ refl refl]
    rb_big_shift_exact [of "\<lparr>bsign = False, digits = [1, 0x40000000]\<rparr>" "\<lambda>_. Inl TypeError"
      "Fixnum 64 :: (unit, unit) VALUE" 64, OF _ _ refl refl]
  by (auto simp: big_norm_ok_def big_val_def FIXABLE_iff rb_num2int_def shifts_out_def)

text \<open>
  The bit reference reads the infinite two's complement: \<^verbatim>\<open>rb_big_aref\<close> with an index that is an
  \<^verbatim>\<open>int\<close> and not negative returns the bit of the integer at that index.
\<close>

theorem rb_big_aref_bit:
  assumes "canonical (Bignum x :: ('f, 'o) VALUE)" "0 \<le> sint n" "sint n < 2 ^ 31"
  shows "rb_big_aref conv x (Fixnum n :: ('f, 'o) VALUE) =
         Inr (Fixnum (if bit (big_val x) (nat (sint n)) then 1 else 0))"
proof -
  have ok: "digits x \<noteq> []" "bsign x \<or> dval (digits x) \<noteq> 0"
    using assms(1) big_ok_sign [OF big_ok_norm] by auto
  from assms(2,3) aref_int_value [OF ok assms(2)] show ?thesis
    by (simp add: rb_big_aref_def rb_num2int_def)
qed

theorem rb_big_aref_bit_witness:
  "rb_big_aref (\<lambda>_. Inl TypeError) \<lparr>bsign = False, digits = [1, 0, 1]\<rparr> (Fixnum 1 :: (unit, unit) VALUE) = Inr (Fixnum 1)"
  using rb_big_aref_bit [of "\<lparr>bsign = False, digits = [1, 0, 1]\<rparr>" 1 "\<lambda>_ :: (unit, unit) VALUE. Inl TypeError"]
  by (simp add: big_norm_ok_def big_val_def FIXABLE_iff)

end
