(* ===== verification/Bignum_Print.thy ===== *)
theory Bignum_Print
  imports Bignum_Bits
begin

text \<open>
  The conversion of integers to text: \<^verbatim>\<open>rb_big2str\<close> of \<^verbatim>\<open>src/ruby/bignum.c\<close>, which divides by the fourth
  power of the base and fills a buffer from its end, and \<^verbatim>\<open>rb_fix2str\<close> and \<^verbatim>\<open>fix_to_s\<close> of
  \<^verbatim>\<open>src/ruby/numeric.c\<close>. Strings are lists of characters; allocation is taken to succeed.

  The reference is \<^verbatim>\<open>text_of\<close>, the shortest numeral of a number in a base. It is also what
  \<^verbatim>\<open>sprintf\<close> writes for a value that is not negative. The theorems show that the buffer of
  \<^verbatim>\<open>rb_big2str\<close> is large enough in every base and that of \<^verbatim>\<open>rb_fix2str\<close> is not.
\<close>

section \<open>Definitions\<close>

definition hexmap :: string where
  "hexmap = ''0123456789abcdef''"

fun text_of :: "nat \<Rightarrow> nat \<Rightarrow> string" where
  "text_of base n =
     (if n < base \<or> base < 2 then [hexmap ! n]
      else text_of base (n div base) @ [hexmap ! (n mod base)])"

declare text_of.simps [simp del]

text \<open>\<^verbatim>\<open>sprintf\<close> into \<^verbatim>\<open>buf[22]\<close>: the sign, the digits and the terminator have to fit.\<close>

definition rb_fix2str :: "u64 \<Rightarrow> int \<Rightarrow> rb_error + string" where
  "rb_fix2str val base =
     (if base \<noteq> 10 \<and> base \<noteq> 16 \<and> base \<noteq> 8 then Inl ArgError
      else let (b, val) = (if sint val < 0 then (''-'', - val) else ('''', val));
               buf = b @ text_of (nat base) (unat val)
           in if length buf + 1 > 22 then Inl OutOfBounds else Inr buf)"

text \<open>The number of bytes and the divisor that \<^verbatim>\<open>rb_big2str\<close> chooses for a base.\<close>

definition big2str_size :: "int \<Rightarrow> nat \<Rightarrow> (u64 \<times> u64) option" where
  "big2str_size base i =
     (if base = 10 then Some (32 * of_nat i * 241 div 800 + 2, 10000)
      else if base = 16 then Some (32 * of_nat i div 4 + 2, 0x10000)
      else if base = 8 then Some (32 * of_nat i + 2, 4096)
      else if base = 2 then Some (32 * of_nat i + 2, 16)
      else None)"

text \<open>
  The inner \<^verbatim>\<open>while (k--)\<close>: at most four digits, fewer when nothing is left (\<^verbatim>\<open>i == 0\<close>) and the
  rest of the number is 0. \<^verbatim>\<open>s[--j]\<close> with \<^verbatim>\<open>j == 0\<close> is outside the buffer.
\<close>

fun emit_digits :: "u64 \<Rightarrow> bool \<Rightarrow> nat \<Rightarrow> u64 \<Rightarrow> string \<Rightarrow> nat \<Rightarrow> rb_error + string \<times> nat" where
  "emit_digits base i0 0 num s j = Inr (s, j)"
| "emit_digits base i0 (Suc k) num s j =
     (if j = 0 then Inl OutOfBounds
      else let s = s[j - 1 := hexmap ! unat (num mod base)]; num = num div base
           in if i0 \<and> num = 0 then Inr (s, j - 1) else emit_digits base i0 k num s (j - 1))"

text \<open>
  The outer \<^verbatim>\<open>while (i && j)\<close>; the digit list is the part of the clone below \<^verbatim>\<open>i\<close>. \<^verbatim>\<open>small_loop\<close> is the
  division of the digits by a number of one digit.
\<close>

partial_function (option) big2str_loop ::
  "u64 \<Rightarrow> u64 \<Rightarrow> u32 list \<Rightarrow> string \<Rightarrow> nat \<Rightarrow> (rb_error + string \<times> nat) option" where
  "big2str_loop base hbase ds s j =
     (if ds \<noteq> [] \<and> j \<noteq> 0
      then let (qs, num) = small_loop hbase 0 (rev ds);
               ds = (if hd qs = 0 then rev (tl qs) else rev qs)
           in (case emit_digits base (ds = []) 4 num s j of
                 Inl e \<Rightarrow> Some (Inl e)
               | Inr (s, j) \<Rightarrow> big2str_loop base hbase ds s j)
      else Some (Inr (s, j)))"

declare big2str_loop.simps [code]

definition memmove :: "nat \<Rightarrow> nat \<Rightarrow> nat \<Rightarrow> 'a list \<Rightarrow> 'a list" where
  "memmove dst src n s = take dst s @ take n (drop src s) @ drop (dst + n) s"

text \<open>
  The end of \<^verbatim>\<open>rb_big2str\<close>: skip zeros, move the digits to the front, behind the sign of a negative
  number, and cut the string. The list holds the terminator that \<^verbatim>\<open>rb_str_new\<close> adds, so the loop over
  zeros stops there. With the digits from the first byte on, a sign would push the text out of the buffer.
\<close>

definition big2str_finish :: "bool \<Rightarrow> nat \<Rightarrow> string \<Rightarrow> nat \<Rightarrow> rb_error + string" where
  "big2str_finish sign len s j =
     (let j = j + length (takeWhile (\<lambda>c. c = CHR ''0'') (drop j s))
      in if \<not> sign \<and> j = 0 then Inl OutOfBounds
         else let len = len - (if sign then j else j - 1);
                  s = memmove (if sign then 0 else 1) j len s;
                  s = s[len := CHR 0x00]
              in Inr (take len s))"

text \<open>\<^verbatim>\<open>rb_str_new(0, j)\<close> leaves the bytes as \<^verbatim>\<open>junk\<close> has them and sets the terminator.\<close>

definition big2str :: "(nat \<Rightarrow> char) \<Rightarrow> rbignum \<Rightarrow> int \<Rightarrow> (rb_error + string) option" where
  "big2str junk x base =
     (if digits x = [] \<or> digits x = [0] then Some (Inr ''0'')
      else case big2str_size base (length (digits x)) of
             None \<Rightarrow> Some (Inl ArgError)
           | Some (j, hbase) \<Rightarrow>
               if sint j < 0 then Some (Inl ArgError)
               else let t = rb_big_clone x;
                        s = map junk [0..<unat j] @ [CHR 0x00];
                        s = s[0 := (if bsign x then CHR ''+'' else CHR ''-'')]
                    in (case big2str_loop (word_of_int base) hbase (digits t) s (unat j) of
                          None \<Rightarrow> None
                        | Some (Inl e) \<Rightarrow> Some (Inl e)
                        | Some (Inr (s, j')) \<Rightarrow> Some (big2str_finish (bsign x) (unat j) s j')))"

text \<open>The callers pass integers; any other object would be read as if it were a \<^verbatim>\<open>struct RBignum\<close>.\<close>

definition rb_big2str :: "(nat \<Rightarrow> char) \<Rightarrow> ('f, 'o) VALUE \<Rightarrow> int \<Rightarrow> (rb_error + string) option" where
  "rb_big2str junk x base =
     (case x of
        Fixnum n \<Rightarrow> Some (rb_fix2str n base)
      | Bignum b \<Rightarrow> big2str junk b base
      | _ \<Rightarrow> Some (Inl OutOfBounds))"

definition rb_fix2int :: "u64 \<Rightarrow> rb_error + int" where
  "rb_fix2int num =
     (if sint num < - (2 ^ 31) \<or> 2 ^ 31 - 1 < sint num then Inl RangeError else Inr (sint num))"

text \<open>
  The methods. The argument list holds the base, if any; \<^verbatim>\<open>rb_scan_args\<close> refuses more than one
  argument. \<^verbatim>\<open>conv\<close> stands for the conversion of floats and objects to integers.
\<close>

definition base_arg ::
  "(('f, 'o) VALUE \<Rightarrow> rb_error + u64) \<Rightarrow> ('f, 'o) VALUE list \<Rightarrow> rb_error + int" where
  "base_arg conv argv =
     (case argv of [] \<Rightarrow> Inr 10 | [b] \<Rightarrow> rb_num2int conv b | _ \<Rightarrow> Inl ArgError)"

definition rb_big_to_s ::
  "(nat \<Rightarrow> char) \<Rightarrow> (('f, 'o) VALUE \<Rightarrow> rb_error + u64) \<Rightarrow> ('f, 'o) VALUE list \<Rightarrow> rbignum
     \<Rightarrow> (rb_error + string) option" where
  "rb_big_to_s junk conv argv x =
     (case base_arg conv argv of
        Inl e \<Rightarrow> Some (Inl e)
      | Inr base \<Rightarrow> rb_big2str junk (Bignum x :: ('f, 'o) VALUE) base)"

definition fix_to_s ::
  "(nat \<Rightarrow> char) \<Rightarrow> (('f, 'o) VALUE \<Rightarrow> rb_error + u64) \<Rightarrow> ('f, 'o) VALUE list \<Rightarrow> u64
     \<Rightarrow> (rb_error + string) option" where
  "fix_to_s junk conv argv x =
     (case base_arg conv argv of
        Inl e \<Rightarrow> Some (Inl e)
      | Inr base \<Rightarrow>
          if base = 2
          then (case rb_fix2int x of
                  Inl e \<Rightarrow> Some (Inl e)
                | Inr i \<Rightarrow>
                    rb_big2str junk (Bignum (rb_int2big (word_of_int i)) :: ('f, 'o) VALUE) 2)
          else Some (rb_fix2str x base))"

section \<open>Numerals\<close>

lemma text_of_small: "n < base \<Longrightarrow> text_of base n = [hexmap ! n]"
  by (simp add: text_of.simps)

lemma text_of_big:
  "2 \<le> base \<Longrightarrow> base \<le> n \<Longrightarrow> text_of base n = text_of base (n div base) @ [hexmap ! (n mod base)]"
  by (subst text_of.simps) auto

lemma text_of_not_Nil [simp]: "text_of base n \<noteq> []"
  by (subst text_of.simps) auto

text \<open>The digits of a number below the power of the base, with leading zeros.\<close>

fun pad_text :: "nat \<Rightarrow> nat \<Rightarrow> nat \<Rightarrow> string" where
  "pad_text base 0 n = []"
| "pad_text base (Suc k) n = pad_text base k (n div base) @ [hexmap ! (n mod base)]"

lemma length_pad_text [simp]: "length (pad_text base k n) = k"
  by (induction k arbitrary: n) auto

lemma pad_text_mod:
  "0 < base \<Longrightarrow> m = n mod base ^ k \<Longrightarrow> pad_text base k m = pad_text base k n"
proof (induction k arbitrary: m n)
  case (Suc k)
  have "m mod base = n mod base" using Suc.prems(2) by (simp add: mod_mod_cancel)
  moreover have "m div base = n div base mod base ^ k"
    using Suc.prems by (simp add: mod_mult2_eq)
  ultimately show ?case using Suc.IH [of "m div base" "n div base"] Suc.prems(1) by simp
qed simp

lemma text_of_split:
  assumes "2 \<le> base" "base ^ k \<le> n"
  shows "text_of base n = text_of base (n div base ^ k) @ pad_text base k n"
  using assms(2)
proof (induction k arbitrary: n)
  case (Suc k)
  from Suc.prems assms(1) have "base ^ k \<le> n div base" "base \<le> n"
    by (auto simp: less_eq_div_iff_mult_less_eq mult.commute intro: le_trans [OF _ Suc.prems])
  with Suc.IH [of "n div base"] show ?case
    by (simp add: text_of_big [OF assms(1)] div_mult2_eq)
qed simp

lemma length_text_of:
  "2 \<le> base \<Longrightarrow> 0 < l \<Longrightarrow> n < base ^ l \<Longrightarrow> length (text_of base n) \<le> l"
proof (induction l arbitrary: n)
  case (Suc l)
  show ?case
  proof (cases "n < base")
    case False
    then have "base ^ 1 \<le> n" by simp
    from this Suc.prems(3) have "base ^ 1 < base ^ Suc l" by (rule le_less_trans)
    with Suc.prems(1) have "0 < l" using power_less_imp_less_exp [of base 1 "Suc l"] by simp
    moreover have "n div base < base ^ l"
      using Suc.prems by (simp add: less_mult_imp_div_less mult.commute)
    ultimately show ?thesis using False Suc by (simp add: text_of_big)
  qed (simp add: text_of_small)
qed simp

lemma hexmap_inj: "i < 16 \<Longrightarrow> j < 16 \<Longrightarrow> hexmap ! i = hexmap ! j \<longleftrightarrow> i = j"
  by (intro nth_eq_iff_index_eq) (simp_all add: hexmap_def)

lemma text_of_no_zero:
  "2 \<le> base \<Longrightarrow> base \<le> 16 \<Longrightarrow> 0 < n \<Longrightarrow> hd (text_of base n) \<noteq> CHR ''0''"
proof (induction base n rule: text_of.induct)
  case (1 base n)
  show ?case
  proof (cases "n < base")
    case True
    then show ?thesis using hexmap_inj [of n 0] 1 by (simp add: text_of_small) (simp add: hexmap_def)
  next
    case False
    then show ?thesis using 1 by (simp add: text_of_big hd_append div_greater_zero_iff)
  qed
qed

section \<open>The digits that the loops write\<close>

lemma emit_padded:
  assumes "unat base = b" "k \<le> j" "j \<le> length s"
  shows "emit_digits base False k num s j =
         Inr (take (j - k) s @ pad_text b k (unat num) @ drop j s, j - k)"
  using assms(2,3)
proof (induction k arbitrary: num s j)
  case (Suc k)
  let ?s = "s[j - 1 := hexmap ! (unat num mod b)]"
  have "drop (j - 1) ?s = hexmap ! (unat num mod b) # drop j s"
    using Suc.prems by (simp add: Cons_nth_drop_Suc [symmetric])
  with Suc.prems Suc.IH [of "j - 1" ?s "num div base"] show ?case
    by (simp add: Let_def unat_mod unat_div assms(1) take_update_cancel)
qed simp

lemma emit_shortest:
  assumes "unat base = b" "2 \<le> b" "unat num < b ^ k" "0 < k"
    "length (text_of b (unat num)) \<le> j" "j \<le> length s"
  shows "emit_digits base True k num s j =
         Inr (take (j - length (text_of b (unat num))) s @ text_of b (unat num) @ drop j s,
              j - length (text_of b (unat num)))"
  using assms(3-)
proof (induction k arbitrary: num s j)
  case (Suc k)
  let ?s = "s[j - 1 := hexmap ! (unat num mod b)]"
  have j: "0 < j" using Suc.prems(3) by (cases j) auto
  then have d: "drop (j - 1) ?s = hexmap ! (unat num mod b) # drop j s"
    using Suc.prems by (simp add: Cons_nth_drop_Suc [symmetric])
  show ?case
  proof (cases "unat num < b")
    case True
    then have "num div base = 0" by (simp add: word_unat_eq_iff unat_div assms(1))
    with True j d show ?thesis
      by (simp add: Let_def unat_mod assms(1) text_of_small)
        (metis append_take_drop_id diff_le_self take_update_cancel One_nat_def order_refl)
  next
    case False
    then have "num div base \<noteq> 0" using assms(1,2) by (simp add: word_unat_eq_iff unat_div div_eq_0_iff)
    moreover have "unat num div b < b ^ k"
      using Suc.prems by (simp add: less_mult_imp_div_less mult.commute)
    moreover from False have t: "text_of b (unat num) = text_of b (unat num div b) @ [hexmap ! (unat num mod b)]"
      using assms(2) by (simp add: text_of_big)
    moreover have "0 < k" using False Suc.prems by (cases k) auto
    ultimately show ?thesis
      using j d Suc.prems Suc.IH [of "num div base" "j - 1" ?s]
      by (simp add: Let_def unat_mod unat_div assms(1) take_update_cancel)
  qed
qed simp

text \<open>A division by less than a digit takes away at most one digit of the number.\<close>

lemma quotient_top:
  assumes "ds \<noteq> []" "last ds \<noteq> 0" "h \<le> dval ds" "0 < h" "h \<le> 2 ^ 32"
    "length qs = length ds" "dval qs = dval ds div h" "qs' = (if last qs = 0 then butlast qs else qs)"
  shows "qs' \<noteq> [] \<and> last qs' \<noteq> 0 \<and> dval qs' = dval ds div h"
proof (cases "last qs = 0")
  case True
  have q: "qs = butlast qs @ [0]" using assms(1,6) True by (metis append_butlast_last_id length_0_conv)
  then have v: "dval (butlast qs) = dval ds div h"
    using assms(7) by (metis dval_append dval.simps add_0_right mult_0_right unat_0)
  have pos: "0 < dval ds div h" using assms(3,4) by (simp add: div_greater_zero_iff)
  have ne: "butlast qs \<noteq> []" using v pos by (metis dval.simps(1) less_irrefl)
  have "last (butlast qs) \<noteq> 0"
  proof
    assume "last (butlast qs) = 0"
    then have "butlast qs = butlast (butlast qs) @ [0]" using ne by (metis append_butlast_last_id)
    then have "dval (butlast (butlast qs)) = dval ds div h"
      using v by (metis dval_append dval.simps add_0_right mult_0_right unat_0)
    moreover have "length (butlast (butlast qs)) = length ds - 2" by (simp add: assms(6))
    ultimately have "dval ds div h < 2 ^ (32 * (length ds - 2))" using dval_bound by metis
    then have "dval ds < 2 ^ (32 * (length ds - 2)) * h"
      using assms(4) by (simp add: div_less_iff_less_mult)
    also have "\<dots> \<le> 2 ^ (32 * (length ds - 2)) * 2 ^ 32" using assms(5) by simp
    also have "\<dots> = 2 ^ (32 * (length ds - 1))"
    proof -
      have "0 < length (butlast qs)" using ne by (rule length_greater_0_conv [THEN iffD2])
      then have "32 * (length ds - 2) + 32 = 32 * (length ds - 1)" by (simp add: assms(6))
      then show ?thesis by (simp only: power_add [symmetric])
    qed
    also have "\<dots> \<le> 2 ^ (32 * (length ds - 1)) * unat (last ds)"
      using assms(2) by (simp add: Suc_le_eq unat_gt_0)
    finally show False using dval_ge_top [OF assms(1)] by simp
  qed
  with True ne v assms(8) show ?thesis by simp
next
  case False
  with assms show ?thesis by auto
qed

lemma small_loop_div:
  assumes "small_loop h 0 (rev ds) = (qs, r)" "0 < unat h" "unat h < 2 ^ 32"
  shows "length qs = length ds" "unat r = dval ds mod unat h" "dval (rev qs) = dval ds div unat h"
  using small_loop_value [OF assms] assms(2)
    div_mod_of_diff [of "dval (rev qs)" "unat h" "dval ds"] by (auto simp: algebra_simps)

lemma big2str_loop_text:
  assumes "unat base = b" "2 \<le> b" "unat hbase = b ^ 4" "b ^ 4 < 2 ^ 32"
    "ds \<noteq> []" "last ds \<noteq> 0" "length (text_of b (dval ds)) \<le> j" "j \<le> length s"
  shows "big2str_loop base hbase ds s j =
         Some (Inr (take (j - length (text_of b (dval ds))) s @ text_of b (dval ds) @ drop j s,
                    j - length (text_of b (dval ds))))"
  using assms(5-)
proof (induction "dval ds" arbitrary: ds s j rule: less_induct)
  case less
  let ?n = "dval ds"
  obtain qs num where s: "small_loop hbase 0 (rev ds) = (qs, num)" by force
  have h: "0 < unat hbase" "unat hbase < 2 ^ 32" using assms(2-4) by simp_all
  note d = small_loop_div [OF s h, unfolded assms(3)]
  have j: "j \<noteq> 0" using less.prems(3) by (cases j) auto
  define ds' where "ds' = (if hd qs = 0 then rev (tl qs) else rev qs)"
  have "qs \<noteq> []" using d(1) less.prems(1) by auto
  then have ds': "ds' = (if last (rev qs) = 0 then butlast (rev qs) else rev qs)"
    by (simp add: ds'_def last_rev butlast_rev)
  have step: "big2str_loop base hbase ds s j =
      (case emit_digits base (ds' = []) 4 num s j of
         Inl e \<Rightarrow> Some (Inl e) | Inr (s, j) \<Rightarrow> big2str_loop base hbase ds' s j)"
    unfolding ds'_def using less.prems(1) j
    by (subst big2str_loop.simps) (simp add: s Let_def split del: if_split)
  show ?case
  proof (cases "?n < b ^ 4")
    case True
    have "length ds \<le> length [0 :: u32]"
    proof (rule ccontr)
      assume "\<not> ?thesis"
      then have "32 \<le> 32 * (length ds - 1)" by simp
      then have "(2 :: nat) ^ 32 \<le> 2 ^ (32 * (length ds - 1))" by (rule power_increasing) simp
      also have "\<dots> \<le> 2 ^ (32 * (length ds - 1)) * unat (last ds)"
        using less.prems(2) by (simp add: Suc_le_eq unat_gt_0)
      also have "\<dots> \<le> ?n" by (rule dval_ge_top [OF less.prems(1)])
      finally show False using True assms(4) by simp
    qed
    then have "length qs = 1" using d(1) less.prems(1) by (cases ds) auto
    then obtain q where "qs = [q]" by (cases qs) auto
    moreover from this have "q = 0" using d(3) True by (simp add: word_unat_eq_iff)
    ultimately have "ds' = []" by (simp add: ds'_def)
    moreover have "unat num = ?n" using d(2) True by simp
    ultimately show ?thesis
      using step emit_shortest [OF assms(1,2), of num 4 j s] True less.prems(3,4)
      by (simp add: big2str_loop.simps)
  next
    case False
    then have q: "ds' \<noteq> []" "last ds' \<noteq> 0" "dval ds' = ?n div b ^ 4"
      using quotient_top [OF less.prems(1,2), of "b ^ 4" "rev qs" ds'] d assms(2,4) ds' by simp_all
    have t: "text_of b ?n = text_of b (dval ds') @ pad_text b 4 ?n"
      using False text_of_split [OF assms(2), of 4 ?n] by (simp add: q(3))
    moreover have "pad_text b 4 (unat num) = pad_text b 4 ?n"
      by (rule pad_text_mod) (use assms(2) d(2) in simp_all)
    moreover have "1 < b ^ 4" using assms(2) by (intro one_less_power) auto
    then have "?n div b ^ 4 < ?n" using False by (intro div_less_dividend) linarith+
    ultimately show ?thesis
      using less.hyps [of ds' "j - 4" "take (j - 4) s @ pad_text b 4 ?n @ drop j s"] q step
        emit_padded [OF assms(1), of 4 j s num] less.prems(3,4)
      by (simp add: add.commute)
  qed
qed

section \<open>The buffer\<close>

lemma two_power_le_ten_power: "(2 :: nat) ^ n \<le> 10 ^ (n * 241 div 800 + 1)"
proof -
  let ?m = "n * 241 div 800 + 1"
  have "(2 ^ n) ^ 800 = ((2 :: nat) ^ 800) ^ n" by (simp only: power_mult [symmetric] mult.commute)
  also have "\<dots> \<le> (10 ^ 241) ^ n" by (rule power_mono) simp_all
  also have "\<dots> = 10 ^ (n * 241)" by (simp only: power_mult [symmetric] mult.commute)
  also have "\<dots> \<le> 10 ^ (?m * 800)"
  proof (rule power_increasing)
    show "n * 241 \<le> ?m * 800" using dividend_less_div_times [of 800 "n * 241"] by simp
  qed simp
  also have "\<dots> = (10 ^ ?m) ^ 800" by (simp only: power_mult)
  finally show ?thesis by (rule power_le_imp_le_base [of _ 799, simplified]) simp
qed

definition legal_base :: "int \<Rightarrow> bool" where
  "legal_base base \<longleftrightarrow> base = 2 \<or> base = 8 \<or> base = 10 \<or> base = 16"

text \<open>For each base the buffer has room for all digits and a sign.\<close>

lemma big2str_size_enough:
  assumes "legal_base base" "i < 2 ^ 40" "n < 2 ^ (32 * i)" "0 < i"
  shows "\<exists>j hbase. big2str_size base i = Some (j, hbase) \<and> unat hbase = nat base ^ 4 \<and>
           unat j < 2 ^ 63 \<and> length (text_of (nat base) n) < unat j"
proof -
  have "unat (of_nat i :: u64) = i" using assms(2) by (simp add: unat_of_nat)
  then have u: "unat (32 * of_nat i :: u64) = 32 * i" "unat (32 * of_nat i * 241 :: u64) = 32 * i * 241"
    using assms(2) by (simp_all add: unat_word_ariths)
  have "n < 8 ^ (32 * i)" "n < 16 ^ (8 * i)" "n < 10 ^ (32 * i * 241 div 800 + 1)"
    using assms(3) two_power_le_ten_power [of "32 * i"]
      power_mono [of 2 "8 :: nat" "32 * i"] power_mult [of "2 :: nat" 4 "8 * i"]
    by (auto simp: mult.assoc)
  then have l: "length (text_of 2 n) \<le> 32 * i" "length (text_of 8 n) \<le> 32 * i"
    "length (text_of 16 n) \<le> 8 * i" "length (text_of 10 n) \<le> 32 * i * 241 div 800 + 1"
    using assms(3,4) by (auto intro!: length_text_of)
  show ?thesis
    using assms(1) unfolding legal_base_def
  proof (elim disjE)
    assume "base = 10"
    moreover have "unat (32 * of_nat i * 241 div 800 + 2 :: u64) = 32 * i * 241 div 800 + 2"
      using assms(2) u by (subst unat_add_dbl) (simp_all add: unat_div)
    ultimately show ?thesis using l(4) assms(2) by (simp add: big2str_size_def)
  next
    assume "base = 16"
    moreover have "unat (32 * of_nat i div 4 + 2 :: u64) = 8 * i + 2"
      using assms(2) u by (subst unat_add_dbl) (simp_all add: unat_div)
    ultimately show ?thesis using l(3) assms(2) by (simp add: big2str_size_def)
  next
    assume "base = 8"
    moreover have "unat (32 * of_nat i + 2 :: u64) = 32 * i + 2"
      using assms(2) u by (subst unat_add_dbl) simp_all
    ultimately show ?thesis using l(2) assms(2) by (simp add: big2str_size_def)
  next
    assume "base = 2"
    moreover have "unat (32 * of_nat i + 2 :: u64) = 32 * i + 2"
      using assms(2) u by (subst unat_add_dbl) simp_all
    ultimately show ?thesis using l(1) assms(2) by (simp add: big2str_size_def)
  qed
qed

lemma big2str_finish_text:
  assumes "length s = Suc len" "ws \<noteq> []" "hd ws \<noteq> CHR ''0''" "length ws < len"
  shows "big2str_finish sign len (take (len - length ws) s @ ws @ drop len s) (len - length ws) =
         Inr (if sign then ws else s ! 0 # ws)"
proof -
  obtain c cs where t: "ws = c # cs" using assms(2) by (cases ws) auto
  obtain s0 s' where s: "s = s0 # s'" using assms(1) by (cases s) auto
  show ?thesis
  proof (cases sign)
    case True
    with assms t show ?thesis by (simp add: big2str_finish_def Let_def memmove_def)
  next
    case False
    obtain k where "len = length ws + Suc k" using assms(4) less_imp_Suc_add by fastforce
    with False assms t s show ?thesis
      by (simp add: big2str_finish_def Let_def memmove_def)
  qed
qed

lemma legal_base_word:
  "legal_base base \<Longrightarrow> unat (word_of_int base :: u64) = nat base \<and> 2 \<le> nat base \<and> nat base \<le> 16"
  by (auto simp: legal_base_def)

lemma big2str_text:
  assumes "big_norm_ok x" "length (digits x) < 2 ^ 40" "legal_base base"
  shows "big2str junk x base =
         Some (Inr ((if bsign x then '''' else ''-'') @ text_of (nat base) (dval (digits x))))"
proof -
  let ?n = "dval (digits x)" and ?b = "nat base"
  have ne: "digits x \<noteq> []" "last (digits x) \<noteq> 0" using assms(1) by (auto simp: big_norm_ok_def)
  then have pos: "0 < ?n" by (metis dval_eq_0 gr0I last_in_set)
  from big2str_size_enough [OF assms(3,2) dval_bound] ne
  obtain j hbase where j: "big2str_size base (length (digits x)) = Some (j, hbase)"
    "unat hbase = ?b ^ 4" "unat j < 2 ^ 63" "length (text_of ?b ?n) < unat j" by auto
  define s where "s = (map junk [0..<unat j] @ [CHR 0x00])[0 := (if bsign x then CHR ''+'' else CHR ''-'')]"
  have b: "unat (word_of_int base :: u64) = ?b" "2 \<le> ?b" "?b \<le> 16"
    using legal_base_word [OF assms(3)] by auto
  then have "?b ^ 4 \<le> 16 ^ 4" by (intro power_mono) auto
  then have "big2str_loop (word_of_int base) hbase (digits x) s (unat j) =
      Some (Inr (take (unat j - length (text_of ?b ?n)) s @ text_of ?b ?n @ drop (unat j) s,
                 unat j - length (text_of ?b ?n)))"
    using j by (intro big2str_loop_text [OF b(1,2)] ne) (simp_all add: s_def)
  moreover have "big2str_finish (bsign x) (unat j)
      (take (unat j - length (text_of ?b ?n)) s @ text_of ?b ?n @ drop (unat j) s)
      (unat j - length (text_of ?b ?n)) = Inr (if bsign x then text_of ?b ?n else s ! 0 # text_of ?b ?n)"
    using j(4) text_of_no_zero [OF b(2,3) pos] by (intro big2str_finish_text) (simp_all add: s_def)
  moreover have "s ! 0 = (if bsign x then CHR ''+'' else CHR ''-'')" by (simp add: s_def)
  moreover have "\<not> sint j < 0" using j(3) by (simp add: sint_unat)
  moreover have "digits x \<noteq> [0]" using ne by auto
  ultimately show ?thesis
    using ne(1) j(1) by (simp add: big2str_def Let_def rb_big_clone_def s_def [symmetric])
qed

lemma unat_abs_fixnum:
  "FIXABLE (sint (x :: u64)) \<Longrightarrow>
   unat (if sint x < 0 then - x else x) = nat \<bar>sint x\<bar> \<and> nat \<bar>sint x\<bar> \<le> 2 ^ 62"
  using unat_dbl_less [of x]
  by (auto simp: FIXABLE_iff sint_unat [of x] unat_uminus of_nat_diff split: if_splits)

text \<open>The text of an integer.\<close>

definition int_text :: "int \<Rightarrow> int \<Rightarrow> string" where
  "int_text base z = (if z < 0 then ''-'' else '''') @ text_of (nat base) (nat \<bar>z\<bar>)"

lemma rb_fix2str_text:
  assumes "FIXABLE (sint x)" "base = 8 \<or> base = 10 \<or> base = 16"
  shows "rb_fix2str x base =
         (if length (int_text base (sint x)) < 22 then Inr (int_text base (sint x)) else Inl OutOfBounds)"
  using unat_abs_fixnum [OF assms(1)] assms(2)
  by (auto simp: rb_fix2str_def int_text_def Let_def split: if_splits)

lemma fixnum_text_fits:
  assumes "FIXABLE z" "base = 8 \<or> base = 10 \<or> base = 16" "base = 8 \<longrightarrow> - (2 ^ 60) < z"
  shows "length (int_text base z) < 22"
proof -
  let ?n = "nat \<bar>z\<bar>"
  have n: "?n \<le> 2 ^ 62" "z < 0 \<longrightarrow> base = 8 \<longrightarrow> ?n < 2 ^ 60"
    using assms(1,3) by (auto simp: FIXABLE_iff)
  have "length (text_of 16 ?n) \<le> 16" "length (text_of 10 ?n) \<le> 19" "length (text_of 8 ?n) \<le> 21"
    using n(1) by (auto intro!: length_text_of)
  moreover have "z < 0 \<longrightarrow> base = 8 \<longrightarrow> length (text_of 8 ?n) \<le> 20"
    using n(2) by (auto intro!: length_text_of)
  ultimately show ?thesis using assms(2) by (auto simp: int_text_def)
qed

lemma fixnum_octal_too_long:
  assumes "z \<le> - (2 ^ 60)"
  shows "\<not> length (int_text 8 z) < 22"
proof -
  have "8 ^ 20 \<le> nat \<bar>z\<bar>" using assms by simp
  from text_of_split [OF _ this] have "20 < length (text_of 8 (nat \<bar>z\<bar>))" by simp
  with assms show ?thesis by (simp add: int_text_def)
qed

lemma int_text_big: "big_norm_ok x \<Longrightarrow>
  (if bsign x then '''' else ''-'') @ text_of (nat base) (dval (digits x)) = int_text base (big_val x)"
proof -
  assume "big_norm_ok x"
  then have "dval (digits x) \<noteq> 0" by (metis big_norm_ok_def dval_eq_0 last_in_set)
  then show ?thesis by (simp add: int_text_def big_val_def)
qed

section \<open>Properties\<close>

text \<open>
  C18. \<^verbatim>\<open>rb_big2str\<close> of a canonical big number returns, for every content of the fresh buffer: the loop
  over the digits ends, no byte outside the buffer is written, and the result is the shortest numeral
  of the number in the base, with a minus sign for a negative number. Every base but 2, 8, 10 and 16
  is refused.
\<close>

theorem rb_big2str_prints:
  assumes "canonical (Bignum x :: ('f, 'o) VALUE)" "length (digits x) < 2 ^ 40"
  shows "rb_big2str junk (Bignum x :: ('f, 'o) VALUE) base =
         Some (if legal_base base then Inr (int_text base (big_val x)) else Inl ArgError)"
proof (cases "legal_base base")
  case True
  then show ?thesis
    using assms by (simp add: rb_big2str_def big2str_text int_text_big del: append.simps)
next
  case False
  moreover have "digits x \<noteq> []" "digits x \<noteq> [0]" using assms(1) by (auto simp: big_norm_ok_def)
  ultimately show ?thesis
    by (simp add: rb_big2str_def big2str_def big2str_size_def legal_base_def)
qed

theorem rb_big2str_prints_witness:
  "rb_big2str (\<lambda>_. CHR ''?'') (Bignum \<lparr>bsign = False, digits = [0, 0, 1]\<rparr> :: (unit, unit) VALUE) 10 =
     Some (Inr ''-18446744073709551616'')"
proof -
  have "canonical (Bignum \<lparr>bsign = False, digits = [0, 0, 1]\<rparr> :: (unit, unit) VALUE)"
    by (simp add: big_norm_ok_def big_val_def FIXABLE_iff)
  from rb_big2str_prints [OF this, of "\<lambda>_. CHR ''?''" 10]
  show ?thesis by (simp add: legal_base_def int_text_def big_val_def text_of.simps hexmap_def)
qed

text \<open>
  C30. \<^verbatim>\<open>rb_fix2str\<close> prints every Fixnum in the bases 8, 10 and 16 and refuses other bases, with one
  exception: an octal numeral of a Fixnum up to \<^verbatim>\<open>-2**60\<close> needs 23 bytes with its sign and terminator,
  and the local buffer has 22.
\<close>

theorem rb_fix2str_exact_or_overflow:
  assumes "FIXABLE (sint x)"
  shows "rb_fix2str x base =
         (if base \<noteq> 8 \<and> base \<noteq> 10 \<and> base \<noteq> 16 then Inl ArgError
          else if base = 8 \<and> sint x \<le> - (2 ^ 60) then Inl OutOfBounds
          else Inr (int_text base (sint x)))"
proof (cases "base \<noteq> 8 \<and> base \<noteq> 10 \<and> base \<noteq> 16")
  case False
  then show ?thesis
    using rb_fix2str_text [OF assms, of base] fixnum_text_fits [OF assms, of base]
      fixnum_octal_too_long [of "sint x"] by (cases "sint x \<le> - (2 ^ 60)") auto
qed (simp add: rb_fix2str_def)

theorem rb_fix2str_exact_or_overflow_witness:
  "rb_fix2str (- 0x1000000000000000) 8 = Inl OutOfBounds \<and>
   rb_fix2str (- 255) 16 = Inr ''-ff''"
proof -
  have s: "sint (- 0x1000000000000000 :: u64) = - (2 ^ 60)" "sint (- 255 :: u64) = - 255" by simp_all
  show ?thesis
    using rb_fix2str_exact_or_overflow [of "- 0x1000000000000000" 8]
      rb_fix2str_exact_or_overflow [of "- 255" 16]
    by (simp add: s FIXABLE_iff int_text_def text_of.simps hexmap_def)
qed

text \<open>
  \<^verbatim>\<open>to_s(2)\<close> of a Fixnum converts it to an \<^verbatim>\<open>int\<close> first: it prints the numbers of 32 bits and
  raises a range error for all others.
\<close>

theorem fix_to_s_binary_range:
  "fix_to_s junk conv [Fixnum 2 :: ('f, 'o) VALUE] x =
     Some (if - (2 ^ 31) \<le> sint x \<and> sint x < 2 ^ 31 then Inr (int_text 2 (sint x)) else Inl RangeError)"
proof (cases "- (2 ^ 31) \<le> sint x \<and> sint x < 2 ^ 31")
  case True
  then have r: "rb_fix2int x = Inr (sint x)" by (simp add: rb_fix2int_def)
  show ?thesis
  proof (cases "sint x = 0")
    case True
    with r show ?thesis
      by (simp add: rb_int2big_0 fix_to_s_def base_arg_def rb_num2int_def rb_big2str_def big2str_def
          int_text_def text_of_small hexmap_def)
  next
    case False
    have "length (digits (rb_int2big x)) \<le> 2"
      by (auto simp: rb_int2big_def rb_uint2big_def split_2 Let_def strip_zeros_def)
    with r True False show ?thesis
      using rb_int2big_norm [OF False] int_text_big [OF rb_int2big_norm [OF False], of 2]
        big2str_text [OF rb_int2big_norm [OF False], of 2 junk]
      by (simp add: fix_to_s_def base_arg_def rb_num2int_def rb_big2str_def legal_base_def)
  qed
next
  case False
  then show ?thesis
    by (auto simp: fix_to_s_def base_arg_def rb_num2int_def rb_fix2int_def)
qed

end
