(* ===== verification/Bignum_Parse.thy ===== *)
theory Bignum_Parse
  imports Bignum_Print
begin

text \<open>
  The conversion of text to integers: \<^verbatim>\<open>rb_cstr_to_inum\<close> of \<^verbatim>\<open>src/ruby/bignum.c\<close>, behind
  \<^verbatim>\<open>String#to_i\<close>, \<^verbatim>\<open>Integer()\<close> and the number literals of the lexer. Short numerals go through
  \<^verbatim>\<open>strtoul\<close> of the C library, long ones and those with underscores through a loop that multiplies
  and adds on the digits of a big number.

  A C string is the list of its characters before the terminator and a pointer into it is the list
  of the characters from there on, so reading \<^verbatim>\<open>*str\<close> at the end gives the terminator. The
  theorems show that both ways give the value of the numeral, that the digit array never overflows,
  and that parsing undoes printing.
\<close>

section \<open>Definitions\<close>

definition deref :: "string \<Rightarrow> char" where
  "deref str = (case str of [] \<Rightarrow> CHR 0x00 | c # _ \<Rightarrow> c)"

definition ISSPACE :: "char \<Rightarrow> bool" where
  "ISSPACE c \<longleftrightarrow> (let n = of_char c :: nat in n = 32 \<or> 9 \<le> n \<and> n \<le> 13)"

text \<open>The value of a character as a digit; 36 for characters that are none in any base.\<close>

definition digit_of :: "char \<Rightarrow> nat" where
  "digit_of c =
     (let n = of_char c in
      if 48 \<le> n \<and> n \<le> 57 then n - 48
      else if 65 \<le> n \<and> n \<le> 90 then n - 55
      else if 97 \<le> n \<and> n \<le> 122 then n - 87
      else 36)"

definition numeral_val :: "nat \<Rightarrow> nat \<Rightarrow> string \<Rightarrow> nat" where
  "numeral_val base n cs = foldl (\<lambda>n c. n * base + digit_of c) n cs"

text \<open>An optional sign; the flag is false for a minus.\<close>

definition read_sign :: "string \<Rightarrow> bool \<times> string" where
  "read_sign str =
     (if deref str = CHR ''+'' then (True, tl str)
      else if deref str = CHR ''-'' then (False, tl str)
      else (True, str))"

text \<open>
  \<^verbatim>\<open>strtoul\<close> of the C library, for a base that is given: white space, a sign, \<^verbatim>\<open>0x\<close> in base 16, then
  the longest run of digits. A value that does not fit becomes \<^verbatim>\<open>ULONG_MAX\<close>; the second result is
  \<^verbatim>\<open>*endptr\<close>.
\<close>

definition strtoul :: "string \<Rightarrow> nat \<Rightarrow> u64 \<times> string" where
  "strtoul str base =
     (let (sign, s) = read_sign (dropWhile ISSPACE str);
          s = (if base = 16 \<and> deref s = CHR ''0'' \<and>
                  (deref (tl s) = CHR ''x'' \<or> deref (tl s) = CHR ''X'') \<and> digit_of (deref (tl (tl s))) < 16
               then tl (tl s) else s);
          ds = takeWhile (\<lambda>c. digit_of c < base) s;
          n = numeral_val base 0 ds
      in if ds = [] then (0, str)
         else (if n \<ge> 2 ^ 64 then - 1 else if sign then of_nat n else - of_nat n, drop (length ds) s))"

text \<open>The base of a numeral when the caller leaves it open.\<close>

definition guess_base :: "string \<Rightarrow> int \<Rightarrow> int" where
  "guess_base str base =
     (if base \<le> 0
      then if deref str = CHR ''0''
           then let c = deref (tl str)
                in if c = CHR ''x'' \<or> c = CHR ''X'' then 16
                   else if c = CHR ''b'' \<or> c = CHR ''B'' then 2
                   else if c = CHR ''o'' \<or> c = CHR ''O'' then 8
                   else if c = CHR ''d'' \<or> c = CHR ''D'' then 10
                   else 8
           else if base < - 1 then - base
           else 10
      else base)"

text \<open>
  The second \<^verbatim>\<open>switch (base)\<close>: the bits that a digit can need and the letters of the prefix. In any
  other base \<^verbatim>\<open>len\<close> stays unset.
\<close>

definition base_table :: "int \<Rightarrow> (nat \<times> string) option" where
  "base_table base =
     (if base = 2 then Some (1, ''bB'')
      else if base = 8 then Some (3, ''oO'')
      else if base = 10 then Some (4, ''dD'')
      else if base = 16 then Some (4, ''xX'')
      else None)"

definition strip_prefix :: "string \<Rightarrow> string \<Rightarrow> string" where
  "strip_prefix letters str =
     (if deref str = CHR ''0'' \<and> deref (tl str) \<in> set letters then tl (tl str) else str)"

definition squeeze_zeros :: "string \<Rightarrow> string" where
  "squeeze_zeros str =
     (if deref str = CHR ''0'' then CHR ''0'' # dropWhile (\<lambda>c. c = CHR ''0'') str else str)"

text \<open>
  Multiply and add: the \<^verbatim>\<open>while (i<blen)\<close> pass over the digits in use, then one more digit for each
  carry. A carry out of the array would be stored behind it.
\<close>

fun muladd_low :: "u64 \<Rightarrow> u64 \<Rightarrow> u32 list \<Rightarrow> u32 list \<times> u64" where
  "muladd_low base num [] = ([], num)"
| "muladd_low base num (z # zs) =
     (let num = num + ucast z * base;
          (zs', num') = muladd_low base (BIGDN num) zs
      in (BIGLO num # zs', num'))"

fun muladd_high :: "u64 \<Rightarrow> u64 \<Rightarrow> u32 list \<Rightarrow> rb_error + nat \<times> u32 list" where
  "muladd_high base num [] = (if num = 0 then Inr (0, []) else Inl OutOfBounds)"
| "muladd_high base num (z # zs) =
     (if num = 0 then Inr (0, z # zs)
      else let num = num + ucast z * base
           in (case muladd_high base (BIGDN num) zs of
                 Inl e \<Rightarrow> Inl e
               | Inr (n, zs') \<Rightarrow> Inr (Suc n, BIGLO num # zs')))"

definition muladd :: "u64 \<Rightarrow> nat \<Rightarrow> nat \<Rightarrow> u32 list \<Rightarrow> rb_error + nat \<times> u32 list" where
  "muladd base c blen zds =
     (let (lo, num) = muladd_low base (of_nat c) (take blen zds)
      in case muladd_high base num (drop blen zds) of
           Inl e \<Rightarrow> Inl e
         | Inr (n, hi) \<Rightarrow> Inr (blen + n, lo @ hi))"

text \<open>The \<^verbatim>\<open>switch (c)\<close> without the underscore: the digit, and the flag \<^verbatim>\<open>nondigit\<close> after it.\<close>

definition scan_char :: "nat \<Rightarrow> bool \<Rightarrow> char \<Rightarrow> nat \<times> bool" where
  "scan_char base nondigit c =
     (let n = of_char c in
      if (n = 56 \<or> n = 57) \<and> base = 8 then (base, nondigit)
      else if 48 \<le> n \<and> n \<le> 57 then (n - 48, False)
      else let n = (if 97 \<le> n \<and> n \<le> 102 then n - 32 else n)
           in if 65 \<le> n \<and> n \<le> 70
              then if base \<noteq> 16 then (base, True) else (n - 65 + 10, False)
              else (base, nondigit))"

text \<open>\<^verbatim>\<open>while (c = *str++)\<close>; the second result is the string from the character that ended the loop.\<close>

fun digit_loop ::
  "nat \<Rightarrow> bool \<Rightarrow> bool \<Rightarrow> nat \<Rightarrow> u32 list \<Rightarrow> string \<Rightarrow> rb_error + u32 list \<times> string" where
  "digit_loop base badcheck nondigit blen zds [] = Inr (zds, [])"
| "digit_loop base badcheck nondigit blen zds (c # str) =
     (if c = CHR ''_''
      then if badcheck
           then if nondigit then Inl ArgError else digit_loop base badcheck True blen zds str
           else digit_loop base badcheck nondigit blen zds str
      else let (d, nondigit) = scan_char base nondigit c
           in if d \<ge> base then Inr (zds, c # str)
              else (case muladd (of_nat base) d blen zds of
                      Inl e \<Rightarrow> Inl e
                    | Inr (blen, zds) \<Rightarrow> digit_loop base badcheck nondigit blen zds str))"

text \<open>The part from the label \<^verbatim>\<open>bigparse\<close>; \<^verbatim>\<open>s\<close> is the whole string.\<close>

definition bigparse ::
  "string \<Rightarrow> nat \<Rightarrow> bool \<Rightarrow> bool \<Rightarrow> nat \<Rightarrow> string \<Rightarrow> rb_error + ('f, 'o) VALUE" where
  "bigparse s base badcheck sign len str =
     (if badcheck \<and> deref str = CHR ''_'' then Inl ArgError
      else bindR (digit_loop base badcheck False 1 (replicate (len div BITSPERDIG + 1) 0) str) (\<lambda>(zds, str).
        if badcheck \<and>
           (length str + 1 < length s \<and> s ! (length s - length str - 1) = CHR ''_'' \<or>
            dropWhile ISSPACE str \<noteq> [])
        then Inl ArgError
        else Inr (bignorm \<lparr>bsign = sign, digits = zds\<rparr>)))"

text \<open>The part for numerals that fit an \<^verbatim>\<open>unsigned long\<close>.\<close>

definition shortparse ::
  "string \<Rightarrow> nat \<Rightarrow> bool \<Rightarrow> bool \<Rightarrow> nat \<Rightarrow> string \<Rightarrow> rb_error + ('f, 'o) VALUE" where
  "shortparse s base badcheck sign len str =
     (let (val, endp) = strtoul str base
      in if deref endp = CHR ''_'' then bigparse s base badcheck sign len str
         else if badcheck \<and> (endp = str \<or> dropWhile ISSPACE endp \<noteq> []) then Inl ArgError
         else if POSFIXABLE (uint val) then Inr (LONG2FIX (if sign then val else - val))
         else Inr (bignorm ((rb_uint2big val)\<lparr>bsign := sign\<rparr>)))"

text \<open>A null pointer is \<^verbatim>\<open>None\<close>. The lengths of strings are far from the bounds of \<^verbatim>\<open>long\<close>.\<close>

definition rb_cstr_to_inum :: "string option \<Rightarrow> int \<Rightarrow> bool \<Rightarrow> rb_error + ('f, 'o) VALUE" where
  "rb_cstr_to_inum str base badcheck =
     (case str of
        None \<Rightarrow> if badcheck then Inl ArgError else Inr (LONG2FIX 0)
      | Some s \<Rightarrow>
          let str = dropWhile (\<lambda>c. ISSPACE c \<or> \<not> badcheck \<and> c = CHR ''_'') s;
              (sign, str) = read_sign str
          in if deref str = CHR ''+'' \<or> deref str = CHR ''-''
             then if badcheck then Inl ArgError else Inr (LONG2FIX 0)
             else let base = guess_base str base
                  in (case base_table base of
                        None \<Rightarrow> Inl Uninitialised
                      | Some (bits, letters) \<Rightarrow>
                          let str = squeeze_zeros (strip_prefix letters str);
                              len = bits * length str
                          in if len \<le> 64
                             then shortparse s (nat base) badcheck sign len str
                             else bigparse s (nat base) badcheck sign len str))"

text \<open>
  String objects: the bytes from \<^verbatim>\<open>ptr\<close> on and the length. \<^verbatim>\<open>rb_str_to_inum\<close> copies a string whose byte
  after the last is not the terminator.
\<close>

record rstring =
  str_ptr :: "string option"
  str_len :: nat

definition c_string :: "string \<Rightarrow> string" where
  "c_string mem = takeWhile (\<lambda>c. c \<noteq> CHR 0x00) mem"

definition rb_str_to_inum :: "rstring \<Rightarrow> int \<Rightarrow> bool \<Rightarrow> rb_error + ('f, 'o) VALUE" where
  "rb_str_to_inum str base badcheck =
     (case str_ptr str of
        None \<Rightarrow> rb_cstr_to_inum None base badcheck
      | Some s \<Rightarrow>
          if length s \<le> str_len str then Inl OutOfBounds
          else let s = (if s ! str_len str \<noteq> CHR 0x00 then take (str_len str) s @ [CHR 0x00] else s)
               in if badcheck \<and> str_len str \<noteq> length (c_string s) then Inl ArgError
                  else rb_cstr_to_inum (Some (c_string s)) base badcheck)"

definition rb_cstr2inum :: "string option \<Rightarrow> int \<Rightarrow> rb_error + ('f, 'o) VALUE" where
  "rb_cstr2inum str base = rb_cstr_to_inum str base (base = 0)"

definition rb_str2inum :: "rstring \<Rightarrow> int \<Rightarrow> rb_error + ('f, 'o) VALUE" where
  "rb_str2inum str base = rb_str_to_inum str base (base = 0)"

text \<open>The methods of \<^verbatim>\<open>src/ruby/string.c\<close>.\<close>

definition rb_str_to_i ::
  "(('f, 'o) VALUE \<Rightarrow> rb_error + u64) \<Rightarrow> ('f, 'o) VALUE list \<Rightarrow> rstring \<Rightarrow> rb_error + ('f, 'o) VALUE" where
  "rb_str_to_i conv argv str =
     bindR (base_arg conv argv) (\<lambda>base.
       if base \<noteq> 0 \<and> base \<noteq> 2 \<and> base \<noteq> 8 \<and> base \<noteq> 10 \<and> base \<noteq> 16 then Inl ArgError
       else rb_str_to_inum str base False)"

definition rb_str_hex :: "rstring \<Rightarrow> rb_error + ('f, 'o) VALUE" where
  "rb_str_hex str = rb_str_to_inum str 16 False"

definition rb_str_oct :: "rstring \<Rightarrow> rb_error + ('f, 'o) VALUE" where
  "rb_str_oct str = rb_str_to_inum str (- 8) False"

section \<open>Characters\<close>

lemma deref_simps [simp]: "deref [] = CHR 0x00" "deref (c # cs) = c"
  by (simp_all add: deref_def)

lemma deref_append: "deref (xs @ ys) = (if xs = [] then deref ys else hd xs)"
  by (cases xs) auto

definition is_base :: "nat \<Rightarrow> bool" where
  "is_base b \<longleftrightarrow> b = 2 \<or> b = 8 \<or> b = 10 \<or> b = 16"

lemma is_base_bounds: "is_base b \<Longrightarrow> 2 \<le> b \<and> b \<le> 16"
  by (auto simp: is_base_def)

lemma digit_of_chars [simp]:
  "digit_of (CHR ''_'') = 36" "digit_of (CHR ''+'') = 36" "digit_of (CHR ''-'') = 36"
  "digit_of (CHR 0x00) = 36" "digit_of (CHR ''0'') = 0" "digit_of (CHR ''b'') = 11"
  "digit_of (CHR ''B'') = 11" "digit_of (CHR ''o'') = 24" "digit_of (CHR ''O'') = 24"
  "digit_of (CHR ''d'') = 13" "digit_of (CHR ''D'') = 13" "digit_of (CHR ''x'') = 33"
  "digit_of (CHR ''X'') = 33"
  by (simp_all add: digit_of_def)

lemma ISSPACE_digit: "ISSPACE c \<Longrightarrow> digit_of c = 36 \<and> c \<noteq> CHR ''_''"
  by (auto simp: ISSPACE_def digit_of_def Let_def)

lemma scan_char_digit:
  "is_base b \<Longrightarrow> digit_of c < b \<Longrightarrow> scan_char b nondigit c = (digit_of c, False)"
  by (auto simp: is_base_def digit_of_def scan_char_def Let_def split: if_splits)

lemma scan_char_other: "digit_of c = 36 \<Longrightarrow> scan_char b nondigit c = (b, nondigit)"
  by (auto simp: digit_of_def scan_char_def Let_def split: if_splits)

lemma digit_of_hexmap: "i < 16 \<Longrightarrow> digit_of (hexmap ! i) = i"
proof -
  have "\<forall>i \<in> {..<16}. digit_of (hexmap ! i) = i"
    by (simp add: hexmap_def digit_of_def lessThan_nat_numeral lessThan_Suc numeral_eq_Suc)
  then show "i < 16 \<Longrightarrow> digit_of (hexmap ! i) = i" by simp
qed

section \<open>Values of numerals\<close>

lemma numeral_val_simps [simp]:
  "numeral_val b n [] = n" "numeral_val b n (c # cs) = numeral_val b (n * b + digit_of c) cs"
  "numeral_val b n (xs @ ys) = numeral_val b (numeral_val b n xs) ys"
  by (simp_all add: numeral_val_def)

lemma numeral_val_bound:
  "\<forall>c \<in> set cs. digit_of c < b \<Longrightarrow> n < b ^ k \<Longrightarrow> numeral_val b n cs < b ^ (k + length cs)"
proof (induction cs arbitrary: n k)
  case (Cons c cs)
  have "n * b + digit_of c < (n + 1) * b" using Cons.prems(1) by simp
  also have "\<dots> \<le> b ^ k * b" using Cons.prems(2) by (intro mult_le_mono1) simp
  finally have "n * b + digit_of c < b ^ Suc k" by (simp add: mult.commute)
  with Cons.IH [of _ "Suc k"] Cons.prems(1) show ?case by simp
qed simp

lemma digit_mod: "2 \<le> b \<Longrightarrow> b \<le> 16 \<Longrightarrow> n mod b < 16 \<and> n mod b < (b :: nat)"
  by (simp add: less_le_trans [of _ b])

lemma numeral_val_text: "2 \<le> b \<Longrightarrow> b \<le> 16 \<Longrightarrow> numeral_val b 0 (text_of b n) = n"
proof (induction b n rule: text_of.induct)
  case (1 b n)
  show ?case
  proof (cases "n < b")
    case False
    with 1 digit_mod [of b n] show ?thesis by (simp add: text_of_big digit_of_hexmap)
  qed (use 1 in \<open>simp add: text_of_small digit_of_hexmap\<close>)
qed

lemma text_of_digits: "2 \<le> b \<Longrightarrow> b \<le> 16 \<Longrightarrow> \<forall>c \<in> set (text_of b n). digit_of c < b"
proof (induction b n rule: text_of.induct)
  case (1 b n)
  have "digit_of (hexmap ! (n mod b)) < b"
    using 1(2,3) digit_mod [of b n] by (simp add: digit_of_hexmap)
  with 1 show ?case
    by (cases "n < b") (auto simp: text_of_small text_of_big digit_of_hexmap)
qed

section \<open>Multiplying and adding\<close>

lemma muladd_low_value:
  assumes "muladd_low base num zs = (zs', num')" "unat num < 2 ^ 32" "unat base < 2 ^ 32"
  shows "length zs' = length zs \<and> unat num' < 2 ^ 32 \<and>
         dval zs' + 2 ^ (32 * length zs) * unat num' = dval zs * unat base + unat num"
  using assms(1,2)
proof (induction zs arbitrary: num zs' num')
  case (Cons z zs)
  let ?n = "num + ucast z * base"
  obtain ws where w: "muladd_low base (BIGDN ?n) zs = (ws, num')" "zs' = BIGLO ?n # ws"
    using Cons.prems(1) by (auto simp: Let_def split: prod.splits)
  have m: "unat z * unat base \<le> (2 ^ 32 - 1) * (2 ^ 32 - 1)"
    using unat_dig_less [of z] assms(3) by (intro mult_le_mono) simp_all
  then have "unat (ucast z * base :: u64) = unat z * unat base"
    by (simp add: unat_word_ariths unat_ucast_dig)
  then have n: "unat ?n = unat num + unat z * unat base"
    using m Cons.prems(2) by (subst unat_add_dbl) simp_all
  note IH = Cons.IH [OF w(1) BIGDN_small]
  have "dval zs' + 2 ^ (32 * length (z # zs)) * unat num' =
      unat (BIGLO ?n) + 2 ^ 32 * (dval ws + 2 ^ (32 * length zs) * unat num')"
    by (simp add: w(2) algebra_simps power_add)
  also have "\<dots> = (unat (BIGLO ?n) + 2 ^ 32 * unat (BIGDN ?n)) + 2 ^ 32 * (dval zs * unat base)"
    using IH by (simp add: algebra_simps)
  also have "\<dots> = dval (z # zs) * unat base + unat num"
    by (simp only: BIGLO_BIGDN n) (simp add: algebra_simps)
  finally show ?case using IH w(2) by simp
qed auto

lemma muladd_high_zeros:
  assumes "unat num < 2 ^ 32"
  shows "muladd_high base num (replicate k 0) =
         (if num = 0 then Inr (0, replicate k 0)
          else if k = 0 then Inl OutOfBounds
          else Inr (1, ucast num # replicate (k - 1) 0))"
proof -
  have "BIGDN num = 0" "BIGLO num = ucast num"
    using assms by (simp_all add: word_unat_eq_iff unat_BIGDN BIGLO_eq)
  moreover have "muladd_high base 0 (replicate k' 0) = Inr (0, replicate k' 0)" for k'
    by (cases k') auto
  ultimately show ?thesis by (cases k) auto
qed

text \<open>One digit is taken in, and the digits in use grow by at most one.\<close>

lemma muladd_value:
  assumes "unat base = b" "b < 2 ^ 32" "c < b" "blen \<le> length zds"
    "drop blen zds = replicate (length zds - blen) 0" "dval zds * b + c < 2 ^ (32 * length zds)"
  shows "\<exists>blen' zds'. muladd base c blen zds = Inr (blen', zds') \<and> length zds' = length zds \<and>
           blen' \<le> length zds \<and> drop blen' zds' = replicate (length zds - blen') 0 \<and>
           dval zds' = dval zds * b + c"
proof -
  let ?lo = "take blen zds" and ?k = "length zds - blen"
  obtain lo num where l: "muladd_low base (of_nat c) ?lo = (lo, num)" by force
  have "unat (of_nat c :: u64) = c" using assms(2,3) by (simp add: unat_of_nat)
  with muladd_low_value [OF l] assms(1-4)
  have v: "length lo = blen" "unat num < 2 ^ 32" "dval lo + 2 ^ (32 * blen) * unat num = dval ?lo * b + c"
    by auto
  have z: "dval zds = dval ?lo"
    using dval_append [of ?lo "drop blen zds"]
    by (simp only: append_take_drop_id) (simp add: assms(5))
  show ?thesis
  proof (cases "num = 0")
    case True
    then show ?thesis using assms(4,5) v z
      by (auto simp: muladd_def l muladd_high_zeros dval_append)
  next
    case False
    then have "2 ^ (32 * blen) * 1 \<le> dval ?lo * b + c"
      by (subst v(3) [symmetric]) (intro trans_le_add2 mult_le_mono2, simp add: Suc_le_eq unat_gt_0)
    from le_less_trans [OF this assms(6) [unfolded z]] have "blen < length zds" by simp
    moreover have "unat (ucast num :: u32) = unat num" using v(2) by (simp add: unat_ucast_small)
    ultimately show ?thesis using assms(4,5) v z False
      by (auto simp: muladd_def l muladd_high_zeros dval_append)
  qed
qed

section \<open>Numerals with underscores\<close>

text \<open>
  A numeral is a digit followed by digits and underscores; what comes after it is nothing or starts
  with a character that is neither a letter, a digit nor an underscore.
\<close>

definition numeral_body :: "nat \<Rightarrow> string \<Rightarrow> bool" where
  "numeral_body b body \<longleftrightarrow>
     body \<noteq> [] \<and> digit_of (hd body) < b \<and> (\<forall>c \<in> set body. digit_of c < b \<or> c = CHR ''_'')"

definition ends_numeral :: "string \<Rightarrow> bool" where
  "ends_numeral trail \<longleftrightarrow> digit_of (deref trail) = 36 \<and> deref trail \<noteq> CHR ''_''"

fun double_underscore :: "bool \<Rightarrow> string \<Rightarrow> bool" where
  "double_underscore us [] = False"
| "double_underscore us (c # cs) =
     (if c = CHR ''_'' then us \<or> double_underscore True cs else double_underscore False cs)"

abbreviation plain :: "string \<Rightarrow> string" where
  "plain body \<equiv> filter (\<lambda>c. c \<noteq> CHR ''_'') body"

lemma no_underscore: "CHR ''_'' \<notin> set body \<Longrightarrow> \<not> double_underscore us body"
  by (induction body arbitrary: us) auto

lemma digit_loop_value:
  assumes "is_base b" "ends_numeral trail" "\<forall>c \<in> set body. digit_of c < b \<or> c = CHR ''_''"
    "b \<le> 2 ^ bits" "blen \<le> length zds" "drop blen zds = replicate (length zds - blen) 0"
    "dval zds < 2 ^ m" "m + bits * length body \<le> 32 * length zds"
  shows "if badcheck \<and> double_underscore nondigit body
         then digit_loop b badcheck nondigit blen zds (body @ trail) = Inl ArgError
         else \<exists>zds'. digit_loop b badcheck nondigit blen zds (body @ trail) = Inr (zds', trail) \<and>
                dval zds' = numeral_val b (dval zds) (plain body)"
  using assms(3,5-)
proof (induction body arbitrary: nondigit blen zds m)
  case Nil
  then show ?case using assms(2)
    by (cases trail) (auto simp: ends_numeral_def scan_char_other)
next
  case (Cons c body)
  note b = is_base_bounds [OF assms(1)]
  show ?case
  proof (cases "c = CHR ''_''")
    case True
    have "m + bits * length body \<le> 32 * length zds" using Cons.prems(5) by simp
    with True Cons.IH [of blen zds m True] Cons.IH [of blen zds m nondigit] Cons.prems
    show ?thesis by (cases badcheck) auto
  next
    case False
    then have d: "digit_of c < b" using Cons.prems(1) by simp
    have "dval zds * b + digit_of c < (dval zds + 1) * b" using d by simp
    also have "\<dots> \<le> 2 ^ m * 2 ^ bits" using Cons.prems(4) assms(4) by (intro mult_le_mono) simp_all
    finally have v: "dval zds * b + digit_of c < 2 ^ (m + bits)" by (simp add: power_add)
    also have "\<dots> \<le> 2 ^ (32 * length zds)" using Cons.prems(5) by (intro power_increasing) simp_all
    finally have "dval zds * b + digit_of c < 2 ^ (32 * length zds)" .
    with muladd_value [of "of_nat b" b "digit_of c" blen zds] b d Cons.prems
    obtain blen' zds' where m: "muladd (of_nat b) (digit_of c) blen zds = Inr (blen', zds')"
      "length zds' = length zds" "blen' \<le> length zds" "drop blen' zds' = replicate (length zds - blen') 0"
      "dval zds' = dval zds * b + digit_of c" by (auto simp: unat_of_nat)
    have "m + bits + bits * length body \<le> 32 * length zds" using Cons.prems(5) by simp
    with m v Cons.IH [of blen' zds' "m + bits" False] Cons.prems(1) False d show ?thesis
      by (cases "badcheck \<and> double_underscore False body") (auto simp: scan_char_digit [OF assms(1)])
  qed
qed

lemma bigparse_value:
  assumes "is_base b" "ends_numeral trail" "numeral_body b body" "b \<le> 2 ^ bits"
    "len = bits * length (body @ trail)" "s = pre @ body0 @ trail" "body0 \<noteq> []" "last body0 = last body"
    "last body = CHR ''_'' \<longrightarrow> 1 < length body0"
  shows "if badcheck \<and> (double_underscore False body \<or> last body = CHR ''_'' \<or> dropWhile ISSPACE trail \<noteq> [])
         then (bigparse s b badcheck sign len (body @ trail) :: rb_error + ('f, 'o) VALUE) = Inl ArgError
         else \<exists>zds. (bigparse s b badcheck sign len (body @ trail) :: rb_error + ('f, 'o) VALUE) =
                Inr (bignorm \<lparr>bsign = sign, digits = zds\<rparr>) \<and> dval zds = numeral_val b 0 (plain body)"
proof -
  let ?z = "replicate (len div BITSPERDIG + 1) (0 :: u32)"
  have d: "deref (body @ trail) \<noteq> CHR ''_''"
    using assms(3) is_base_bounds [OF assms(1)] by (auto simp: numeral_body_def deref_append)
  have "0 + bits * length body \<le> 32 * length ?z"
    using assms(5) dividend_less_div_times [of 32 len] by (simp add: BITSPERDIG_def algebra_simps)
  note loop = digit_loop_value [OF assms(1,2) _ assms(4) _ _ _ this, of 1 badcheck False]
  have body: "\<forall>c \<in> set body. digit_of c < b \<or> c = CHR ''_''" using assms(3) by (simp add: numeral_body_def)
  have us: "length trail + 1 < length s \<and> s ! (length s - length trail - 1) = CHR ''_'' \<longleftrightarrow> last body = CHR ''_''"
  proof -
    have s: "s = (pre @ butlast body0) @ last body0 # trail" using assms(7) by (simp add: assms(6))
    then have i: "length s - length trail - 1 = length (pre @ butlast body0)" by simp
    have "s ! (length s - length trail - 1) = last body0"
      unfolding i by (subst s) (rule nth_append_length)
    with assms(6-9) show ?thesis by auto
  qed
  show ?thesis
  proof (cases "badcheck \<and> double_underscore False body")
    case True
    then show ?thesis using loop body d by (simp add: bigparse_def bindR_def)
  next
    case False
    with loop body obtain zds where "digit_loop b badcheck False 1 ?z (body @ trail) = Inr (zds, trail)"
      "dval zds = numeral_val b 0 (plain body)" by auto
    with False us d show ?thesis by (auto simp: bigparse_def bindR_def)
  qed
qed

lemma strtoul_numeral:
  assumes "is_base b" "ends_numeral trail" "numeral_body b body" "b \<le> 2 ^ bits"
    "bits * length (body @ trail) \<le> 64"
  shows "(\<exists>val rest. strtoul (body @ trail) b = (val, CHR ''_'' # rest)) \<and> plain body \<noteq> body \<or>
         strtoul (body @ trail) b = (of_nat (numeral_val b 0 body), trail) \<and>
         numeral_val b 0 body < 2 ^ 64 \<and> plain body = body"
proof -
  note b = is_base_bounds [OF assms(1)]
  obtain c cs where body: "body = c # cs" "digit_of c < b" "\<forall>c \<in> set cs. digit_of c < b \<or> c = CHR ''_''"
    using assms(3) by (cases body) (auto simp: numeral_body_def)
  have c: "\<not> ISSPACE c" "c \<noteq> CHR ''+''" "c \<noteq> CHR ''-''" using body(2) b ISSPACE_digit [of c] by auto
  have "digit_of (deref (cs @ trail)) \<noteq> 33"
    using body(3) b assms(2) by (cases cs) (auto simp: ends_numeral_def)
  then have x: "deref (cs @ trail) \<noteq> CHR ''x''" "deref (cs @ trail) \<noteq> CHR ''X''" by auto
  define ds where "ds = takeWhile (\<lambda>c. digit_of c < b) body"
  have "\<not> digit_of (deref trail) < b" using assms(2) b by (simp add: ends_numeral_def)
  then have tw: "takeWhile (\<lambda>c. digit_of c < b) trail = []" by (cases trail) auto
  have ne: "ds \<noteq> []" using body by (simp add: ds_def)
  have sd: "takeWhile (\<lambda>c. digit_of c < b) (body @ trail) = ds"
    using tw by (auto simp: ds_def takeWhile_append intro!: takeWhile_eq_all_conv [THEN iffD2, symmetric])
  have len: "numeral_val b 0 ds < 2 ^ 64"
  proof -
    have "numeral_val b 0 ds < b ^ length ds"
      using numeral_val_bound [of ds b 0 0] by (auto simp: ds_def dest: set_takeWhileD)
    also have "\<dots> \<le> (2 ^ bits) ^ length ds" using assms(4) by (rule power_mono) simp
    also have "\<dots> = 2 ^ (bits * length ds)" by (simp add: power_mult)
    also have "\<dots> \<le> 2 ^ 64"
    proof (rule power_increasing)
      have "bits * length ds \<le> bits * length (body @ trail)"
        using length_takeWhile_le [of "\<lambda>c. digit_of c < b" body]
        by (intro mult_le_mono2) (simp add: ds_def)
      then show "bits * length ds \<le> 64" by (rule le_trans [OF _ assms(5)])
    qed simp
    finally show ?thesis .
  qed
  have st: "strtoul (body @ trail) b = (of_nat (numeral_val b 0 ds), drop (length ds) (body @ trail))"
    using c x ne len sd by (simp add: strtoul_def read_sign_def body(1) Let_def)
  show ?thesis
  proof (cases "ds = body")
    case True
    then have "\<forall>c \<in> set body. digit_of c < b" by (metis ds_def set_takeWhileD)
    then have "plain body = body" using b by (intro filter_True) auto
    with True st len show ?thesis by simp
  next
    case False
    define rest where "rest = drop (length ds) body"
    have r: "rest = dropWhile (\<lambda>c. digit_of c < b) body" by (simp add: rest_def ds_def dropWhile_eq_drop)
    have "rest \<noteq> []"
      using False by (metis r ds_def takeWhile_dropWhile_id append_Nil2)
    moreover from this have "\<not> digit_of (hd rest) < b" unfolding r by (rule hd_dropWhile)
    moreover have "hd rest \<in> set body" using \<open>rest \<noteq> []\<close> by (metis rest_def hd_in_set in_set_dropD)
    ultimately obtain rs where rs: "rest = CHR ''_'' # rs" "CHR ''_'' \<in> set body"
      using assms(3) by (cases rest) (auto simp: numeral_body_def)
    then have "plain body \<noteq> body" by (metis (mono_tags, lifting) filter_id_conv)
    moreover have "drop (length ds) (body @ trail) = CHR ''_'' # rs @ trail"
      using rs(1) length_takeWhile_le [of "\<lambda>c. digit_of c < b" body] by (simp add: rest_def ds_def)
    ultimately show ?thesis using st by simp
  qed
qed

section \<open>The whole conversion\<close>

text \<open>What a numeral means: its sign and digits, or an error where the check is on.\<close>

definition numeral_result :: "nat \<Rightarrow> bool \<Rightarrow> bool \<Rightarrow> string \<Rightarrow> string \<Rightarrow> int option" where
  "numeral_result b badcheck sign body trail =
     (if badcheck \<and> (double_underscore False body \<or> last body = CHR ''_'' \<or> dropWhile ISSPACE trail \<noteq> [])
      then None
      else Some ((if sign then 1 else - 1) * int (numeral_val b 0 (plain body))))"

fun agrees :: "rb_error + ('f, 'o) VALUE \<Rightarrow> int option \<Rightarrow> bool" where
  "agrees r None \<longleftrightarrow> r = Inl ArgError"
| "agrees r (Some z) \<longleftrightarrow> (\<exists>v. r = Inr v \<and> canonical v \<and> int_of v = Some z)"

lemma agrees_bignorm:
  "dval zds = n \<Longrightarrow> agrees (Inr (bignorm \<lparr>bsign = sign, digits = zds\<rparr>)) (Some ((if sign then 1 else - 1) * int n))"
  by (auto simp: big_val_def)

lemma agrees_word:
  assumes "n < 2 ^ 64"
  shows "agrees (if POSFIXABLE (uint (of_nat n :: u64))
                 then Inr (LONG2FIX (if sign then of_nat n else - of_nat n))
                 else Inr (bignorm ((rb_uint2big (of_nat n))\<lparr>bsign := sign\<rparr>)))
                (Some ((if sign then 1 else - 1) * int n))"
proof (cases "POSFIXABLE (uint (of_nat n :: u64))")
  case True
  have u: "unat (of_nat n :: u64) = n" using assms by (simp add: unat_of_nat)
  then have "n < 2 ^ 62" using True by (simp add: POSFIXABLE_def FIXNUM_MAX_def uint_unat)
  then have "sint (of_nat n :: u64) = int n" by (simp add: sint_of_nat)
  then have "sint (if sign then of_nat n else - of_nat n :: u64) = (if sign then 1 else - 1) * int n"
    by (auto simp: sint_uminus)
  moreover from this have "FIXABLE (sint (if sign then of_nat n else - of_nat n :: u64))"
    using \<open>n < 2 ^ 62\<close> by (auto simp: FIXABLE_iff)
  ultimately show ?thesis using True by (simp only: if_True agrees.simps LONG2FIX_id) simp
next
  case False
  have "unat (of_nat n :: u64) = n" using assms by (simp add: unat_of_nat)
  with False show ?thesis by (auto simp: big_val_def)
qed

lemma shortparse_value:
  assumes "is_base b" "ends_numeral trail" "numeral_body b body" "b \<le> 2 ^ bits"
    "len = bits * length (body @ trail)" "s = pre @ body0 @ trail" "body0 \<noteq> []" "last body0 = last body"
    "last body = CHR ''_'' \<longrightarrow> 1 < length body0" "len \<le> 64"
  shows "agrees (shortparse s b badcheck sign len (body @ trail)) (numeral_result b badcheck sign body trail)"
proof -
  from strtoul_numeral [OF assms(1-4)] assms(5,10) consider
    (under) val rest where "strtoul (body @ trail) b = (val, CHR ''_'' # rest)"
  | (digits) "strtoul (body @ trail) b = (of_nat (numeral_val b 0 body), trail)"
      "numeral_val b 0 body < 2 ^ 64" "plain body = body" by auto
  then show ?thesis
  proof cases
    case under
    then show ?thesis
      using bigparse_value [OF assms(1-9), of badcheck sign]
      by (auto simp: shortparse_def numeral_result_def big_val_def split: if_splits)
  next
    case digits
    have "CHR ''_'' \<notin> set body" 
      using digits(3) filter_id_conv [of "\<lambda>c. c \<noteq> CHR ''_''" body] by auto
    moreover have "body \<noteq> []" using assms(3) by (simp add: numeral_body_def)
    ultimately have u: "\<not> double_underscore False body" "last body \<noteq> CHR ''_''"
      by (auto simp: no_underscore dest: last_in_set)
    have "body \<noteq> []" "deref trail \<noteq> CHR ''_''" using assms(2,3) by (auto simp: numeral_body_def ends_numeral_def)
    with u digits agrees_word [OF digits(2), of sign] show ?thesis
      by (auto simp: shortparse_def numeral_result_def)
  qed
qed

text \<open>Squeezing leading zeros keeps all that matters of a numeral.\<close>

lemma leading_zeros: "\<exists>n rest. body = replicate n c @ rest \<and> (rest = [] \<or> hd rest \<noteq> c)"
proof (induction body)
  case (Cons d body)
  then obtain n rest where "body = replicate n c @ rest" "rest = [] \<or> hd rest \<noteq> c" by blast
  then have "d # body = replicate (Suc n) c @ rest \<or> d \<noteq> c" by auto
  with \<open>rest = [] \<or> hd rest \<noteq> c\<close> show ?case by (metis append_Nil list.sel(1) replicate_0)
qed simp

lemma squeeze_body:
  assumes "is_base b" "ends_numeral trail" "numeral_body b body"
  shows "\<exists>body'. squeeze_zeros (body @ trail) = body' @ trail \<and> numeral_body b body' \<and>
           last body' = last body \<and> (last body' = CHR ''_'' \<longrightarrow> 1 < length body) \<and>
           numeral_result b badcheck sign body' trail = numeral_result b badcheck sign body trail"
proof -
  have t: "dropWhile (\<lambda>c. c = CHR ''0'') trail = trail"
    using assms(2) by (cases trail) (auto simp: ends_numeral_def)
  have one: "last body = CHR ''_'' \<longrightarrow> 1 < length body"
    using assms(3) is_base_bounds [OF assms(1)]
    by (cases body; cases "tl body") (auto simp: numeral_body_def)
  show ?thesis
  proof (cases "hd body = CHR ''0''")
    case False
    then have "squeeze_zeros (body @ trail) = body @ trail"
      using assms(3) by (auto simp: squeeze_zeros_def deref_append numeral_body_def)
    with assms(3) one show ?thesis by blast
  next
    case True
    have ne: "body \<noteq> []" using assms(3) by (simp add: numeral_body_def)
    obtain n rest where body: "body = replicate n (CHR ''0'') @ rest" "rest = [] \<or> hd rest \<noteq> CHR ''0''"
      using leading_zeros [of body "CHR ''0''"] by (elim exE conjE)
    with True ne have n: "0 < n" by (cases n) auto
    have "dropWhile (\<lambda>c. c = CHR ''0'') (rest @ trail) = rest @ trail"
      using t body(2) by (cases rest) auto
    moreover have "dropWhile (\<lambda>c. c = CHR ''0'') (replicate n (CHR ''0'') @ rest @ trail) =
        dropWhile (\<lambda>c. c = CHR ''0'') (rest @ trail)" by (induction n) auto
    ultimately have "squeeze_zeros (body @ trail) = (CHR ''0'' # rest) @ trail"
      using True ne by (simp add: squeeze_zeros_def deref_append) (simp add: body(1))
    moreover have "numeral_body b (CHR ''0'' # rest)"
      using assms(3) n is_base_bounds [OF assms(1)] by (simp add: numeral_body_def body(1))
    moreover have "last (CHR ''0'' # rest) = last body" using n by (simp add: body(1) last_append)
    moreover have "double_underscore False (replicate n (CHR ''0'') @ rest) = double_underscore False rest"
      by (induction n) auto
    moreover have "numeral_val b 0 (plain (replicate n (CHR ''0''))) = 0" by (induction n) auto
    ultimately have "squeeze_zeros (body @ trail) = (CHR ''0'' # rest) @ trail"
      "numeral_body b (CHR ''0'' # rest)" "last (CHR ''0'' # rest) = last body"
      "numeral_result b badcheck sign (CHR ''0'' # rest) trail = numeral_result b badcheck sign body trail"
      by (simp_all add: numeral_result_def body(1))
    with one show ?thesis by metis
  qed
qed

lemma base_table_legal:
  "legal_base base \<Longrightarrow>
   \<exists>bits letters. base_table base = Some (bits, letters) \<and> nat base \<le> 2 ^ bits \<and>
     (\<forall>c \<in> set letters. nat base \<le> digit_of c \<and> digit_of c < 36)"
  by (auto simp: legal_base_def base_table_def)

lemma strip_prefix_numeral:
  assumes "is_base b" "ends_numeral trail" "numeral_body b body"
    "\<forall>c \<in> set letters. b \<le> digit_of c \<and> digit_of c < 36"
  shows "strip_prefix letters (body @ trail) = body @ trail"
proof -
  obtain c cs where body: "body = c # cs" "\<forall>c \<in> set cs. digit_of c < b \<or> c = CHR ''_''"
    using assms(3) by (cases body) (auto simp: numeral_body_def)
  then have "deref (cs @ trail) \<notin> set letters"
    using assms(2,4) by (cases cs) (fastforce simp: ends_numeral_def)+
  then show ?thesis by (simp add: strip_prefix_def body(1))
qed

text \<open>The text of a number: white space, a sign, the numeral and what follows it.\<close>

lemma rb_cstr_to_inum_value:
  assumes "legal_base base" "\<forall>c \<in> set ws. ISSPACE c" "sn = '''' \<or> sn = ''+'' \<or> sn = ''-''"
    "numeral_body (nat base) body" "ends_numeral trail"
  shows "agrees (rb_cstr_to_inum (Some (ws @ sn @ body @ trail)) base badcheck :: rb_error + ('f, 'o) VALUE)
           (numeral_result (nat base) badcheck (sn \<noteq> ''-'') body trail)"
proof -
  let ?s = "ws @ sn @ body @ trail" and ?b = "nat base"
  have b: "is_base ?b" using assms(1) by (auto simp: legal_base_def is_base_def)
  obtain bits letters where tab: "base_table base = Some (bits, letters)" "?b \<le> 2 ^ bits"
    "\<forall>c \<in> set letters. ?b \<le> digit_of c \<and> digit_of c < 36"
    using base_table_legal [OF assms(1)] by blast
  obtain body' where sq: "squeeze_zeros (body @ trail) = body' @ trail" "numeral_body ?b body'"
    "last body' = last body" "last body' = CHR ''_'' \<longrightarrow> 1 < length body"
    "numeral_result ?b badcheck (sn \<noteq> ''-'') body' trail = numeral_result ?b badcheck (sn \<noteq> ''-'') body trail"
    using squeeze_body [OF b assms(5,4)] by blast
  obtain c cs where c: "body = c # cs" "digit_of c < ?b" using assms(4) by (cases body) (auto simp: numeral_body_def)
  then have nc: "\<not> ISSPACE c" "c \<noteq> CHR ''_''" "c \<noteq> CHR ''+''" "c \<noteq> CHR ''-''"
    using is_base_bounds [OF b] ISSPACE_digit [of c] by auto
  have sg: "\<not> ISSPACE (CHR ''+'')" "\<not> ISSPACE (CHR ''-'')" by (simp_all add: ISSPACE_def)
  have "dropWhile (\<lambda>c. ISSPACE c \<or> \<not> badcheck \<and> c = CHR ''_'') ?s = sn @ body @ trail"
    using assms(2,3) nc sg c(1) by (auto simp: dropWhile_append)
  moreover have "read_sign (sn @ body @ trail) = (sn \<noteq> ''-'', body @ trail)"
    using assms(3) nc c(1) by (auto simp: read_sign_def)
  moreover have "guess_base (body @ trail) base = base" using assms(1) by (auto simp: guess_base_def legal_base_def)
  moreover have "strip_prefix letters (body @ trail) = body @ trail"
    by (rule strip_prefix_numeral [OF b assms(5,4) tab(3)])
  moreover have "deref (body @ trail) \<noteq> CHR ''+''" "deref (body @ trail) \<noteq> CHR ''-''" using nc c(1) by auto
  ultimately have r: "rb_cstr_to_inum (Some ?s) base badcheck =
      (if bits * length (body' @ trail) \<le> 64
       then shortparse ?s ?b badcheck (sn \<noteq> ''-'') (bits * length (body' @ trail)) (body' @ trail)
       else (bigparse ?s ?b badcheck (sn \<noteq> ''-'') (bits * length (body' @ trail)) (body' @ trail) ::
             rb_error + ('f, 'o) VALUE))"
    using tab(1) sq(1) by (simp add: rb_cstr_to_inum_def Let_def del: deref_simps)
  have ne: "body \<noteq> []" and pre: "?s = (ws @ sn) @ body @ trail" using c(1) by simp_all
  note big = bigparse_value [OF b assms(5) sq(2) tab(2) refl pre ne sq(3) [symmetric] sq(4)]
  note short = shortparse_value [OF b assms(5) sq(2) tab(2) refl pre ne sq(3) [symmetric] sq(4)]
  show ?thesis
  proof (cases "bits * length (body' @ trail) \<le> 64")
    case True
    with short r sq(5) show ?thesis by metis
  next
    case False
    with r have "rb_cstr_to_inum (Some ?s) base badcheck = (bigparse ?s ?b badcheck (sn \<noteq> ''-'')
        (bits * length (body' @ trail)) (body' @ trail) :: rb_error + ('f, 'o) VALUE)" by simp
    moreover have "agrees (bigparse ?s ?b badcheck (sn \<noteq> ''-'') (bits * length (body' @ trail))
        (body' @ trail) :: rb_error + ('f, 'o) VALUE) (numeral_result ?b badcheck (sn \<noteq> ''-'') body' trail)"
      using big [of badcheck "sn \<noteq> ''-''"]
      by (auto simp: numeral_result_def big_val_def split: if_splits)
    ultimately show ?thesis by (simp only: sq(5))
  qed
qed

lemma canonical_unique:
  assumes "canonical v" "canonical w" "int_of v = Some z" "int_of w = Some z"
  shows "v = w"
proof -
  have "x = y" if "big_norm_ok x" "big_norm_ok y" "big_val x = big_val y" for x y :: rbignum
  proof -
    have ne: "digits x \<noteq> []" "last (digits x) \<noteq> 0" "digits y \<noteq> []" "last (digits y) \<noteq> 0"
      using that by (auto simp: big_norm_ok_def)
    then have "dval (digits x) \<noteq> 0" "dval (digits y) \<noteq> 0" by (metis dval_eq_0 last_in_set)+
    then have e: "bsign x = bsign y" "dval (digits x) = dval (digits y)"
      using that(3) by (auto simp: big_val_def split: if_splits)
    then have "length (digits x) = length (digits y)"
      using norm_length_mono [of "digits x" "digits y"] norm_length_mono [of "digits y" "digits x"] ne by simp
    with e show ?thesis using dval_inj by simp
  qed
  with assms show ?thesis by (cases v; cases w) (auto dest: signed_word_eqI)
qed

lemma numeral_result_text:
  assumes "legal_base base"
  shows "numeral_body (nat base) (text_of (nat base) n)"
    "numeral_result (nat base) badcheck sign (text_of (nat base) n) '''' = Some ((if sign then 1 else - 1) * int n)"
proof -
  let ?t = "text_of (nat base) n"
  have b: "2 \<le> nat base" "nat base \<le> 16" using legal_base_word [OF assms] by auto
  note d = text_of_digits [OF b, of n]
  then have us: "CHR ''_'' \<notin> set ?t" using b by auto
  then have "plain ?t = ?t" by (intro filter_True) auto
  moreover have "last ?t \<noteq> CHR ''_''" using us by (metis last_in_set text_of_not_Nil)
  ultimately show "numeral_result (nat base) badcheck sign ?t '''' = Some ((if sign then 1 else - 1) * int n)"
    using no_underscore [OF us, of False] numeral_val_text [OF b] by (simp add: numeral_result_def)
  show "numeral_body (nat base) ?t" using d by (auto simp: numeral_body_def)
qed

lemma parse_int_text:
  assumes "legal_base base"
  shows "agrees (rb_cstr_to_inum (Some (int_text base z)) base badcheck :: rb_error + ('f, 'o) VALUE) (Some z)"
proof -
  let ?sn = "if z < 0 then ''-'' else ''''"
  have "ends_numeral ''''" by (simp add: ends_numeral_def)
  from rb_cstr_to_inum_value [OF assms _ _ numeral_result_text(1) [OF assms] this, of "''''" ?sn
      "nat \<bar>z\<bar>" badcheck, where 'f='f and 'o='o]
  show ?thesis by (cases "z < 0") (auto simp: numeral_result_text(2) [OF assms] int_text_def)
qed

lemma rb_big2str_is_text:
  assumes "rb_big2str junk v base = Some (Inr s)" "canonical (v :: ('f, 'o) VALUE)" "legal_base base"
    "\<And>x. v = Bignum x \<Longrightarrow> length (digits x) < 2 ^ 40"
  obtains z where "int_of v = Some z" "s = int_text base z"
proof (cases v)
  case (Fixnum n)
  then have "FIXABLE (sint n)" using assms(2) by simp
  moreover have "rb_fix2str n base = Inr s" using assms(1) Fixnum by (simp add: rb_big2str_def)
  moreover from this have "base = 8 \<or> base = 10 \<or> base = 16" by (auto simp: rb_fix2str_def split: if_splits)
  ultimately have "s = int_text base (sint n)" by (auto simp: rb_fix2str_text split: if_splits)
  with Fixnum that show ?thesis by simp
next
  case (Bignum x)
  then have "s = int_text base (big_val x)"
    using assms big2str_text [of x base junk] int_text_big [of x base]
    by (auto simp: rb_big2str_def)
  with Bignum that show ?thesis by simp
qed (use assms(1) in \<open>simp_all add: rb_big2str_def\<close>)

section \<open>Properties\<close>

text \<open>
  C17. \<^verbatim>\<open>rb_cstr_to_inum\<close> of white space, a sign, a numeral with underscores and some rest gives the
  canonical integer of the numeral, whichever of the two ways it takes; the digit array never
  overflows. With \<^verbatim>\<open>badcheck\<close> two underscores in a row, one at the end, or a rest that is not white
  space raise an argument error.
\<close>

theorem rb_cstr_to_inum_numerals:
  assumes "legal_base base" "\<forall>c \<in> set ws. ISSPACE c" "sn = '''' \<or> sn = ''+'' \<or> sn = ''-''"
    "numeral_body (nat base) body" "ends_numeral trail"
  shows "agrees (rb_cstr_to_inum (Some (ws @ sn @ body @ trail)) base badcheck :: rb_error + ('f, 'o) VALUE)
           (numeral_result (nat base) badcheck (sn \<noteq> ''-'') body trail)"
  using assms by (rule rb_cstr_to_inum_value)

theorem rb_cstr_to_inum_numerals_witness:
  "(\<exists>v. (rb_cstr_to_inum (Some '' -1_000 '') 10 True :: rb_error + (unit, unit) VALUE) = Inr v \<and>
        canonical v \<and> int_of v = Some (- 1000)) \<and>
   (rb_cstr_to_inum (Some ''7f_'') 16 True :: rb_error + (unit, unit) VALUE) = Inl ArgError"
proof -
  have d: "digit_of (CHR ''1'') = 1" "digit_of (CHR ''7'') = 7" "digit_of (CHR ''f'') = 15"
    "digit_of (CHR '' '') = 36" "ISSPACE (CHR '' '')"
    by (simp_all add: digit_of_def ISSPACE_def)
  show ?thesis
    using rb_cstr_to_inum_numerals [of 10 "'' ''" "''-''" "''1_000''" "'' ''" True, where 'f=unit and 'o=unit]
      rb_cstr_to_inum_numerals [of 16 "''''" "''''" "''7f_''" "''''" True, where 'f=unit and 'o=unit]
    by (simp add: d legal_base_def numeral_body_def ends_numeral_def numeral_result_def)
qed

text \<open>
  C4. Parsing undoes printing: whenever \<^verbatim>\<open>rb_big2str\<close> prints a canonical integer in a base,
  \<^verbatim>\<open>rb_cstr_to_inum\<close> of the text in that base returns the same value, with and without \<^verbatim>\<open>badcheck\<close>.
\<close>

theorem print_parse_round_trip:
  assumes "rb_big2str junk v base = Some (Inr s)" "canonical (v :: ('f, 'o) VALUE)" "legal_base base"
    "\<And>x. v = Bignum x \<Longrightarrow> length (digits x) < 2 ^ 40"
  shows "rb_cstr_to_inum (Some s) base badcheck = Inr v"
proof -
  obtain z where z: "int_of v = Some z" "s = int_text base z" using rb_big2str_is_text [OF assms] .
  from parse_int_text [OF assms(3), of z badcheck, where 'f='f and 'o='o]
  show ?thesis using canonical_unique [OF _ assms(2) _ z(1)] z(2) by auto
qed

theorem print_parse_round_trip_witness:
  "rb_cstr_to_inum (Some ''-3fffffffffffffff'') 16 True = Inr (Fixnum (- 0x3fffffffffffffff) :: (unit, unit) VALUE)"
proof -
  let ?v = "Fixnum (- 0x3fffffffffffffff) :: (unit, unit) VALUE"
  have s: "sint (- 0x3fffffffffffffff :: u64) = - 0x3fffffffffffffff" by simp
  have "rb_big2str (\<lambda>_. CHR ''?'') ?v 16 = Some (Inr ''-3fffffffffffffff'')"
    by (simp add: rb_big2str_def rb_fix2str_text FIXABLE_iff int_text_def text_of.simps hexmap_def)
  from print_parse_round_trip [OF this, of True] show ?thesis
    by (simp add: legal_base_def FIXABLE_iff)
qed

text \<open>
  What the checked conversion lets through: a second sign after a blank is read by \<^verbatim>\<open>strtoul\<close>, which
  wraps it into an unsigned number, so \<^verbatim>\<open>Integer("- -5")\<close> is \<^verbatim>\<open>-(2**64 - 5)\<close>; and a sign with nothing but
  blanks after it is refused when they are few and accepted as 0 when they are many.
\<close>

theorem checked_conversion_flaws:
  "rb_cstr_to_inum (Some ''- -5'') 10 True =
     Inr (Bignum \<lparr>bsign = False, digits = [0xfffffffb, 0xffffffff]\<rparr> :: (unit, unit) VALUE) \<and>
   (rb_cstr_to_inum (Some ''-                '') 10 True :: rb_error + (unit, unit) VALUE) = Inl ArgError \<and>
   rb_cstr_to_inum (Some ''-                 '') 10 True = Inr (Fixnum 0 :: (unit, unit) VALUE)"
proof -
  have d: "digit_of (CHR ''5'') = 5" "digit_of (CHR '' '') = 36" "ISSPACE (CHR '' '')"
    "\<not> ISSPACE (CHR ''-'')" "\<not> ISSPACE (CHR 0x00)" by (simp_all add: digit_of_def ISSPACE_def)
  have w: "strtoul '' -5'' 10 = (- 5, [])" "strtoul ''                '' 10 = (0, ''                '')"
    by (simp_all add: strtoul_def read_sign_def d)
  have b: "bignorm ((rb_uint2big (- 5))\<lparr>bsign := False\<rparr>) =
      (Bignum \<lparr>bsign = False, digits = [0xfffffffb, 0xffffffff]\<rparr> :: (unit, unit) VALUE)"
    by (simp add: rb_uint2big_def split_2 BIGLO_eq BIGDN_def BITSPERDIG_def strip_zeros_def bignorm_def
        digits_to_dbl_def BIGUP_def)
  have z: "bignorm \<lparr>bsign = False, digits = 0 # replicate (68 div BITSPERDIG) 0\<rparr> = (Fixnum 0 :: (unit, unit) VALUE)"
    by (rule canonical_unique [OF canonical_bignorm _ int_of_bignorm])
      (simp_all add: FIXABLE_iff big_val_def)
  show ?thesis
    by (simp add: rb_cstr_to_inum_def read_sign_def guess_base_def base_table_def strip_prefix_def
        squeeze_zeros_def shortparse_def bigparse_def w b d z scan_char_other bindR_def
        POSFIXABLE_def FIXNUM_MAX_def)
qed

end
