(* ===== verification/Numeric_Fix.thy ===== *)
theory Numeric_Fix
  imports Bignum_Parse
begin

text \<open>
  The Fixnum operators of \<^verbatim>\<open>src/ruby/numeric.c\<close>: machine arithmetic with tests for overflow, the
  change to big numbers where a result does not fit, the coercion of mixed operands, and the loops
  \<^verbatim>\<open>upto\<close>, \<^verbatim>\<open>downto\<close>, \<^verbatim>\<open>times\<close> and \<^verbatim>\<open>step\<close>. Together with the theories of big numbers it gives the integers of
  the language: the operators compute in the ring of integers, whatever the representation of the
  operands.

  The branches for floats and for objects of other classes are parameters, as in the operators of
  big numbers. A block is a function on a state that the loop threads through.
\<close>

section \<open>Definitions\<close>

definition FIX2LONG :: "('f, 'o) VALUE \<Rightarrow> u64" where
  "FIX2LONG v = (case v of Fixnum n \<Rightarrow> n | _ \<Rightarrow> 0)"

text \<open>Division of \<^verbatim>\<open>long\<close> in C, which rounds towards zero.\<close>

definition cdiv :: "int \<Rightarrow> int \<Rightarrow> int" where
  "cdiv a b = sgn a * sgn b * (\<bar>a\<bar> div \<bar>b\<bar>)"

definition rb_num2long :: "(('f, 'o) VALUE \<Rightarrow> rb_error + u64) \<Rightarrow> ('f, 'o) VALUE \<Rightarrow> rb_error + u64" where
  "rb_num2long conv val =
     (case val of Fixnum n \<Rightarrow> Inr n | Bignum b \<Rightarrow> rb_big2long b | _ \<Rightarrow> conv val)"

definition rb_num2ulong :: "(('f, 'o) VALUE \<Rightarrow> rb_error + u64) \<Rightarrow> ('f, 'o) VALUE \<Rightarrow> rb_error + u64" where
  "rb_num2ulong conv val = (case val of Bignum b \<Rightarrow> rb_big2ulong b | _ \<Rightarrow> rb_num2long conv val)"

definition rb_num2fix :: "(('f, 'o) VALUE \<Rightarrow> rb_error + u64) \<Rightarrow> ('f, 'o) VALUE \<Rightarrow> rb_error + ('f, 'o) VALUE" where
  "rb_num2fix conv val =
     (case val of
        Fixnum n \<Rightarrow> Inr val
      | _ \<Rightarrow> bindR (rb_num2long conv val) (\<lambda>v.
               if \<not> FIXABLE (sint v) then Inl RangeError else Inr (LONG2FIX v)))"

text \<open>
  \<^verbatim>\<open>do_coerce\<close> asks the right operand: a big number makes a big number of a Fixnum, the method of any
  other class is the parameter. Then the operator is called on the result; \<^verbatim>\<open>call\<close> is the method found
  there, \<^verbatim>\<open>raise\<close> makes a result of an error.
\<close>

definition do_coerce ::
  "(('f, 'o) VALUE \<Rightarrow> ('f, 'o) VALUE \<Rightarrow> rb_error + ('f, 'o) VALUE \<times> ('f, 'o) VALUE) \<Rightarrow>
   ('f, 'o) VALUE \<Rightarrow> ('f, 'o) VALUE \<Rightarrow> rb_error + ('f, 'o) VALUE \<times> ('f, 'o) VALUE" where
  "do_coerce coerce x y =
     (case y of
        Bignum b \<Rightarrow> (case rb_big_coerce b x of Inl e \<Rightarrow> Inl e | Inr (p, q) \<Rightarrow> Inr (Bignum p, Bignum q))
      | _ \<Rightarrow> coerce x y)"

definition rb_num_coerce_bin ::
  "(rb_error \<Rightarrow> 'r) \<Rightarrow> (('f, 'o) VALUE \<Rightarrow> ('f, 'o) VALUE \<Rightarrow> rb_error + ('f, 'o) VALUE \<times> ('f, 'o) VALUE) \<Rightarrow>
   (('f, 'o) VALUE \<Rightarrow> ('f, 'o) VALUE \<Rightarrow> 'r) \<Rightarrow> ('f, 'o) VALUE \<Rightarrow> ('f, 'o) VALUE \<Rightarrow> 'r" where
  "rb_num_coerce_bin raise coerce call x y =
     (case do_coerce coerce x y of Inl e \<Rightarrow> raise e | Inr (x, y) \<Rightarrow> call x y)"

definition fix_uminus :: "u64 \<Rightarrow> ('f, 'o) VALUE" where
  "fix_uminus num = rb_int2inum (- num)"

text \<open>
  Addition, subtraction and multiplication: \<^verbatim>\<open>flo\<close> is the branch for a float, \<^verbatim>\<open>coerce_bin\<close> the call of
  \<^verbatim>\<open>rb_num_coerce_bin\<close>, and \<^verbatim>\<open>big_op\<close> the operator of big numbers.
\<close>

definition fix_plus ::
  "(u64 \<Rightarrow> 'f \<Rightarrow> rb_error + ('f, 'o) VALUE) \<Rightarrow> (('f, 'o) VALUE \<Rightarrow> ('f, 'o) VALUE \<Rightarrow> rb_error + ('f, 'o) VALUE) \<Rightarrow>
   (rbignum \<Rightarrow> ('f, 'o) VALUE \<Rightarrow> ('f, 'o) VALUE) \<Rightarrow> u64 \<Rightarrow> ('f, 'o) VALUE \<Rightarrow> rb_error + ('f, 'o) VALUE" where
  "fix_plus flo coerce_bin big_plus a y =
     (case y of
        Fixnum b \<Rightarrow>
          let c = a + b; r = LONG2FIX c
          in if FIX2LONG r \<noteq> c then Inr (big_plus (rb_int2big a) (Bignum (rb_int2big b))) else Inr r
      | Float d \<Rightarrow> flo a d
      | _ \<Rightarrow> coerce_bin (Fixnum a) y)"

definition fix_minus ::
  "(u64 \<Rightarrow> 'f \<Rightarrow> rb_error + ('f, 'o) VALUE) \<Rightarrow> (('f, 'o) VALUE \<Rightarrow> ('f, 'o) VALUE \<Rightarrow> rb_error + ('f, 'o) VALUE) \<Rightarrow>
   (rbignum \<Rightarrow> ('f, 'o) VALUE \<Rightarrow> ('f, 'o) VALUE) \<Rightarrow> u64 \<Rightarrow> ('f, 'o) VALUE \<Rightarrow> rb_error + ('f, 'o) VALUE" where
  "fix_minus flo coerce_bin big_minus a y =
     (case y of
        Fixnum b \<Rightarrow>
          let c = a - b; r = LONG2FIX c
          in if FIX2LONG r \<noteq> c then Inr (big_minus (rb_int2big a) (Bignum (rb_int2big b))) else Inr r
      | Float d \<Rightarrow> flo a d
      | _ \<Rightarrow> coerce_bin (Fixnum a) y)"

definition fix_mul ::
  "(u64 \<Rightarrow> 'f \<Rightarrow> rb_error + ('f, 'o) VALUE) \<Rightarrow> (('f, 'o) VALUE \<Rightarrow> ('f, 'o) VALUE \<Rightarrow> rb_error + ('f, 'o) VALUE) \<Rightarrow>
   (('f, 'o) VALUE \<Rightarrow> ('f, 'o) VALUE \<Rightarrow> ('f, 'o) VALUE) \<Rightarrow> u64 \<Rightarrow> ('f, 'o) VALUE \<Rightarrow> rb_error + ('f, 'o) VALUE" where
  "fix_mul flo coerce_bin big_times a y =
     (case y of
        Fixnum b \<Rightarrow>
          if a = 0 then Inr (Fixnum a)
          else let c = a * b; r = LONG2FIX c
               in if FIX2LONG r \<noteq> c \<or> cdiv (sint c) (sint a) \<noteq> sint b
                  then Inr (big_times (Bignum (rb_int2big a)) (Bignum (rb_int2big b))) else Inr r
      | Float d \<Rightarrow> flo a d
      | _ \<Rightarrow> coerce_bin (Fixnum a) y)"

text \<open>
  \<^verbatim>\<open>fixdivmod\<close> on two values of Fixnums, where none of its operations overflows: magnitudes are
  divided, then quotient and modulus are adjusted to the sign of the divisor.
\<close>

definition fixdivmod :: "int \<Rightarrow> int \<Rightarrow> rb_error + int \<times> int" where
  "fixdivmod x y =
     (if y = 0 then Inl ZeroDivError
      else let quo = (if y < 0
                      then (if x < 0 then (- x) div (- y) else - (x div (- y)))
                      else (if x < 0 then - ((- x) div y) else x div y));
               rem = x - quo * y
           in if rem < 0 \<and> y > 0 \<or> rem > 0 \<and> y < 0 then Inr (quo - 1, rem + y) else Inr (quo, rem))"

definition fix_div ::
  "(('f, 'o) VALUE \<Rightarrow> ('f, 'o) VALUE \<Rightarrow> (rb_error + ('f, 'o) VALUE) option) \<Rightarrow> u64 \<Rightarrow> ('f, 'o) VALUE \<Rightarrow>
   (rb_error + ('f, 'o) VALUE) option" where
  "fix_div coerce_bin x y =
     (case y of
        Fixnum n \<Rightarrow> Some (bindR (fixdivmod (sint x) (sint n)) (\<lambda>(quo, rem). Inr (rb_int2inum (word_of_int quo))))
      | _ \<Rightarrow> coerce_bin (Fixnum x) y)"

definition fix_mod ::
  "(('f, 'o) VALUE \<Rightarrow> ('f, 'o) VALUE \<Rightarrow> (rb_error + ('f, 'o) VALUE) option) \<Rightarrow> u64 \<Rightarrow> ('f, 'o) VALUE \<Rightarrow>
   (rb_error + ('f, 'o) VALUE) option" where
  "fix_mod coerce_bin x y =
     (case y of
        Fixnum n \<Rightarrow> Some (bindR (fixdivmod (sint x) (sint n)) (\<lambda>(quo, rem). Inr (rb_int2inum (word_of_int rem))))
      | _ \<Rightarrow> coerce_bin (Fixnum x) y)"

definition fix_divmod ::
  "(('f, 'o) VALUE \<Rightarrow> ('f, 'o) VALUE \<Rightarrow> (rb_error + ('f, 'o) VALUE \<times> ('f, 'o) VALUE) option) \<Rightarrow> u64 \<Rightarrow>
   ('f, 'o) VALUE \<Rightarrow> (rb_error + ('f, 'o) VALUE \<times> ('f, 'o) VALUE) option" where
  "fix_divmod coerce_bin x y =
     (case y of
        Fixnum n \<Rightarrow> Some (bindR (fixdivmod (sint x) (sint n)) (\<lambda>(quo, rem).
                      Inr (rb_int2inum (word_of_int quo), rb_int2inum (word_of_int rem))))
      | _ \<Rightarrow> coerce_bin (Fixnum x) y)"

definition fix_pow ::
  "(u64 \<Rightarrow> u64 \<Rightarrow> ('f, 'o) VALUE) \<Rightarrow> (('f, 'o) VALUE \<Rightarrow> ('f, 'o) VALUE \<Rightarrow> rb_error + ('f, 'o) VALUE) \<Rightarrow>
   (rbignum \<Rightarrow> ('f, 'o) VALUE \<Rightarrow> ('f, 'o) VALUE) \<Rightarrow> u64 \<Rightarrow> ('f, 'o) VALUE \<Rightarrow> rb_error + ('f, 'o) VALUE" where
  "fix_pow float_pow coerce_bin big_pow a y =
     (case y of
        Fixnum b \<Rightarrow>
          if b = 0 then Inr (LONG2FIX 1)
          else if b = 1 then Inr (Fixnum a)
          else if 0 < sint b then Inr (big_pow (rb_int2big a) y)
          else Inr (float_pow a b)
      | _ \<Rightarrow> coerce_bin (Fixnum a) y)"

definition fix_equal :: "(('f, 'o) VALUE \<Rightarrow> ('f, 'o) VALUE \<Rightarrow> 'r) \<Rightarrow> (bool \<Rightarrow> 'r) \<Rightarrow> u64 \<Rightarrow> ('f, 'o) VALUE \<Rightarrow> 'r" where
  "fix_equal num_equal truth x y =
     (case y of Fixnum n \<Rightarrow> truth (sint x = sint n) | _ \<Rightarrow> num_equal (Fixnum x) y)"

definition fix_cmp :: "(('f, 'o) VALUE \<Rightarrow> ('f, 'o) VALUE \<Rightarrow> 'r) \<Rightarrow> (int \<Rightarrow> 'r) \<Rightarrow> u64 \<Rightarrow> ('f, 'o) VALUE \<Rightarrow> 'r" where
  "fix_cmp coerce_bin int2fix x y =
     (case y of
        Fixnum n \<Rightarrow>
          if sint x = sint n then int2fix 0 else if sint x > sint n then int2fix 1 else int2fix (- 1)
      | _ \<Rightarrow> coerce_bin (Fixnum x) y)"

definition fix_gt :: "(('f, 'o) VALUE \<Rightarrow> ('f, 'o) VALUE \<Rightarrow> 'r) \<Rightarrow> (bool \<Rightarrow> 'r) \<Rightarrow> u64 \<Rightarrow> ('f, 'o) VALUE \<Rightarrow> 'r" where
  "fix_gt coerce_bin truth x y =
     (case y of Fixnum n \<Rightarrow> truth (sint x > sint n) | _ \<Rightarrow> coerce_bin (Fixnum x) y)"

definition fix_ge :: "(('f, 'o) VALUE \<Rightarrow> ('f, 'o) VALUE \<Rightarrow> 'r) \<Rightarrow> (bool \<Rightarrow> 'r) \<Rightarrow> u64 \<Rightarrow> ('f, 'o) VALUE \<Rightarrow> 'r" where
  "fix_ge coerce_bin truth x y =
     (case y of Fixnum n \<Rightarrow> truth (sint x \<ge> sint n) | _ \<Rightarrow> coerce_bin (Fixnum x) y)"

definition fix_lt :: "(('f, 'o) VALUE \<Rightarrow> ('f, 'o) VALUE \<Rightarrow> 'r) \<Rightarrow> (bool \<Rightarrow> 'r) \<Rightarrow> u64 \<Rightarrow> ('f, 'o) VALUE \<Rightarrow> 'r" where
  "fix_lt coerce_bin truth x y =
     (case y of Fixnum n \<Rightarrow> truth (sint x < sint n) | _ \<Rightarrow> coerce_bin (Fixnum x) y)"

definition fix_le :: "(('f, 'o) VALUE \<Rightarrow> ('f, 'o) VALUE \<Rightarrow> 'r) \<Rightarrow> (bool \<Rightarrow> 'r) \<Rightarrow> u64 \<Rightarrow> ('f, 'o) VALUE \<Rightarrow> 'r" where
  "fix_le coerce_bin truth x y =
     (case y of Fixnum n \<Rightarrow> truth (sint x \<le> sint n) | _ \<Rightarrow> coerce_bin (Fixnum x) y)"

definition fix_rev :: "u64 \<Rightarrow> ('f, 'o) VALUE" where
  "fix_rev num = rb_int2inum (NOT num)"

definition fix_and ::
  "(('f, 'o) VALUE \<Rightarrow> rb_error + u64) \<Rightarrow> u64 \<Rightarrow> ('f, 'o) VALUE \<Rightarrow> rb_error + ('f, 'o) VALUE" where
  "fix_and conv x y =
     (case y of
        Bignum b \<Rightarrow> rb_big_and b (Fixnum x)
      | _ \<Rightarrow> bindR (rb_num2long conv y) (\<lambda>n. Inr (rb_int2inum (x AND n))))"

definition fix_or ::
  "(('f, 'o) VALUE \<Rightarrow> rb_error + u64) \<Rightarrow> u64 \<Rightarrow> ('f, 'o) VALUE \<Rightarrow> rb_error + ('f, 'o) VALUE" where
  "fix_or conv x y =
     (case y of
        Bignum b \<Rightarrow> rb_big_or b (Fixnum x)
      | _ \<Rightarrow> bindR (rb_num2long conv y) (\<lambda>n. Inr (rb_int2inum (x OR n))))"

definition fix_xor ::
  "(('f, 'o) VALUE \<Rightarrow> rb_error + u64) \<Rightarrow> u64 \<Rightarrow> ('f, 'o) VALUE \<Rightarrow> rb_error + ('f, 'o) VALUE" where
  "fix_xor conv x y =
     (case y of
        Bignum b \<Rightarrow> rb_big_xor b (Fixnum x)
      | _ \<Rightarrow> bindR (rb_num2long conv y) (\<lambda>n. Inr (rb_int2inum (x XOR n))))"

text \<open>
  The two shifts, which call each other for a negative count; \<^verbatim>\<open>left\<close> tells which of them runs. The
  negated count is made a Fixnum by \<^verbatim>\<open>LONG2FIX\<close>, which loses its top bit. Calling each other for ever is
  \<^verbatim>\<open>None\<close>.
\<close>

definition lshift_here ::
  "(('f, 'o) VALUE \<Rightarrow> rb_error + u64) \<Rightarrow> u64 \<Rightarrow> ('f, 'o) VALUE \<Rightarrow> nat \<Rightarrow> (rb_error + ('f, 'o) VALUE) option" where
  "lshift_here conv val y width =
     (if width > 63 \<or> drop_bit (63 - width) val > 0 then rb_big_lshift conv (rb_int2big val) y
      else Some (Inr (rb_int2inum (push_bit width val))))"

definition rshift_here :: "u64 \<Rightarrow> nat \<Rightarrow> ('f, 'o) VALUE" where
  "rshift_here val i =
     (if i = 0 then Fixnum val
      else if i \<ge> 63 then (if sint val < 0 then LONG2FIX (- 1) else LONG2FIX 0)
      else LONG2FIX (signed_drop_bit i val))"

partial_function (option) fix_shift ::
  "(('f, 'o) VALUE \<Rightarrow> rb_error + u64) \<Rightarrow> bool \<Rightarrow> u64 \<Rightarrow> ('f, 'o) VALUE \<Rightarrow> (rb_error + ('f, 'o) VALUE) option" where
  "fix_shift conv left val y =
     (case rb_num2long conv y of
        Inl e \<Rightarrow> Some (Inl e)
      | Inr width \<Rightarrow>
          if sint width < 0 then fix_shift conv (\<not> left) val (LONG2FIX (- width))
          else if left then lshift_here conv val y (unat width)
          else Some (Inr (rshift_here val (unat width))))"

declare fix_shift.simps [code]

definition fix_lshift ::
  "(('f, 'o) VALUE \<Rightarrow> rb_error + u64) \<Rightarrow> u64 \<Rightarrow> ('f, 'o) VALUE \<Rightarrow> (rb_error + ('f, 'o) VALUE) option" where
  "fix_lshift conv = fix_shift conv True"

definition fix_rshift ::
  "(('f, 'o) VALUE \<Rightarrow> rb_error + u64) \<Rightarrow> u64 \<Rightarrow> ('f, 'o) VALUE \<Rightarrow> (rb_error + ('f, 'o) VALUE) option" where
  "fix_rshift conv = fix_shift conv False"

definition fix_aref ::
  "(('f, 'o) VALUE \<Rightarrow> rb_error + u64) \<Rightarrow> u64 \<Rightarrow> ('f, 'o) VALUE \<Rightarrow> rb_error + ('f, 'o) VALUE" where
  "fix_aref conv val idx =
     (let idx = (case idx of Bignum b \<Rightarrow> rb_big_norm idx | _ \<Rightarrow> idx)
      in case idx of
           Bignum b \<Rightarrow> Inr (if \<not> bsign b \<or> sint val \<ge> 0 then LONG2FIX 0 else LONG2FIX 1)
         | _ \<Rightarrow> bindR (rb_num2long conv idx) (\<lambda>i.
                  if sint i < 0 then Inr (LONG2FIX 0)
                  else if 63 < sint i then Inr (if sint val < 0 then LONG2FIX 1 else LONG2FIX 0)
                  else Inr (if val AND push_bit (unat i) 1 \<noteq> 0 then LONG2FIX 1 else LONG2FIX 0)))"

definition fix_abs :: "u64 \<Rightarrow> ('f, 'o) VALUE" where
  "fix_abs fix = rb_int2inum (if sint fix < 0 then - fix else fix)"

definition fix_size :: "('f, 'o) VALUE" where
  "fix_size = LONG2FIX 8"

definition fix_zero_p :: "u64 \<Rightarrow> bool" where
  "fix_zero_p num \<longleftrightarrow> num = 0"

definition int_succ ::
  "(('f, 'o) VALUE \<Rightarrow> ('f, 'o) VALUE \<Rightarrow> rb_error + ('f, 'o) VALUE) \<Rightarrow> ('f, 'o) VALUE \<Rightarrow> rb_error + ('f, 'o) VALUE" where
  "int_succ add num = (case num of Fixnum n \<Rightarrow> Inr (rb_int2inum (n + 1)) | _ \<Rightarrow> add num (LONG2FIX 1))"

definition int_chr :: "(('f, 'o) VALUE \<Rightarrow> rb_error + u64) \<Rightarrow> ('f, 'o) VALUE \<Rightarrow> rb_error + byte" where
  "int_chr conv num =
     bindR (rb_num2long conv num) (\<lambda>i. if sint i < 0 \<or> 0xff < sint i then Inl RangeError else Inr (ucast i))"

text \<open>
  The loops. Between Fixnums the counter is a \<^verbatim>\<open>long\<close>; it cannot overflow, since the bound and the step
  are Fixnums. All other loops go through the methods of the operands. A loop that does not end is
  \<^verbatim>\<open>None\<close>.
\<close>

partial_function (option) step_loop ::
  "(('f, 'o) VALUE \<Rightarrow> 's \<Rightarrow> 's) \<Rightarrow> int \<Rightarrow> int \<Rightarrow> int \<Rightarrow> 's \<Rightarrow> 's option" where
  "step_loop yield diff i lim st =
     (if (if diff > 0 then i \<le> lim else i \<ge> lim)
      then step_loop yield diff (i + diff) lim (yield (LONG2FIX (word_of_int i)) st)
      else Some st)"

partial_function (option) call_loop ::
  "(('f, 'o) VALUE \<Rightarrow> rb_error + bool) \<Rightarrow> (('f, 'o) VALUE \<Rightarrow> rb_error + ('f, 'o) VALUE) \<Rightarrow>
   (('f, 'o) VALUE \<Rightarrow> 's \<Rightarrow> 's) \<Rightarrow> ('f, 'o) VALUE \<Rightarrow> 's \<Rightarrow> (rb_error + 's) option" where
  "call_loop stop next yield i st =
     (case stop i of
        Inl e \<Rightarrow> Some (Inl e)
      | Inr b \<Rightarrow>
          if b then Some (Inr st)
          else let st = yield i st
          in (case next i of Inl e \<Rightarrow> Some (Inl e) | Inr i \<Rightarrow> call_loop stop next yield i st))"

declare step_loop.simps [code] call_loop.simps [code]

definition int_upto ::
  "(('f, 'o) VALUE \<Rightarrow> ('f, 'o) VALUE \<Rightarrow> rb_error + bool) \<Rightarrow> (('f, 'o) VALUE \<Rightarrow> ('f, 'o) VALUE \<Rightarrow> rb_error + ('f, 'o) VALUE) \<Rightarrow>
   (('f, 'o) VALUE \<Rightarrow> 's \<Rightarrow> 's) \<Rightarrow> ('f, 'o) VALUE \<Rightarrow> ('f, 'o) VALUE \<Rightarrow> 's \<Rightarrow> (rb_error + 's) option" where
  "int_upto gt add yield from to st =
     (case (from, to) of
        (Fixnum a, Fixnum b) \<Rightarrow> map_option Inr (step_loop yield 1 (sint a) (sint b) st)
      | _ \<Rightarrow> call_loop (\<lambda>i. gt i to) (\<lambda>i. add i (LONG2FIX 1)) yield from st)"

definition int_downto ::
  "(('f, 'o) VALUE \<Rightarrow> ('f, 'o) VALUE \<Rightarrow> rb_error + bool) \<Rightarrow> (('f, 'o) VALUE \<Rightarrow> ('f, 'o) VALUE \<Rightarrow> rb_error + ('f, 'o) VALUE) \<Rightarrow>
   (('f, 'o) VALUE \<Rightarrow> 's \<Rightarrow> 's) \<Rightarrow> ('f, 'o) VALUE \<Rightarrow> ('f, 'o) VALUE \<Rightarrow> 's \<Rightarrow> (rb_error + 's) option" where
  "int_downto lt sub yield from to st =
     (case (from, to) of
        (Fixnum a, Fixnum b) \<Rightarrow> map_option Inr (step_loop yield (- 1) (sint a) (sint b) st)
      | _ \<Rightarrow> call_loop (\<lambda>i. lt i to) (\<lambda>i. sub i (LONG2FIX 1)) yield from st)"

text \<open>\<^verbatim>\<open>for (i=0; i<end; i++)\<close> counts up to \<^verbatim>\<open>end - 1\<close>.\<close>

definition int_dotimes ::
  "(('f, 'o) VALUE \<Rightarrow> ('f, 'o) VALUE \<Rightarrow> rb_error + bool) \<Rightarrow> (('f, 'o) VALUE \<Rightarrow> ('f, 'o) VALUE \<Rightarrow> rb_error + ('f, 'o) VALUE) \<Rightarrow>
   (('f, 'o) VALUE \<Rightarrow> 's \<Rightarrow> 's) \<Rightarrow> ('f, 'o) VALUE \<Rightarrow> 's \<Rightarrow> (rb_error + 's) option" where
  "int_dotimes lt add yield num st =
     (case num of
        Fixnum n \<Rightarrow> map_option Inr (step_loop yield 1 0 (sint n - 1) st)
      | _ \<Rightarrow> call_loop (\<lambda>i. bindR (lt i num) (\<lambda>b. Inr (\<not> b))) (\<lambda>i. add i (LONG2FIX 1)) yield (LONG2FIX 0) st)"

text \<open>\<^verbatim>\<open>step\<close>: the second argument may be missing; \<^verbatim>\<open>float_step\<close> is the branch for floats.\<close>

definition num_step ::
  "(('f, 'o) VALUE \<Rightarrow> ('f, 'o) VALUE \<Rightarrow> bool) \<Rightarrow> (('f, 'o) VALUE \<Rightarrow> ('f, 'o) VALUE \<Rightarrow> ('f, 'o) VALUE \<Rightarrow> 's \<Rightarrow> (rb_error + 's) option) \<Rightarrow>
   (('f, 'o) VALUE \<Rightarrow> ('f, 'o) VALUE \<Rightarrow> rb_error + bool) \<Rightarrow> (('f, 'o) VALUE \<Rightarrow> ('f, 'o) VALUE \<Rightarrow> rb_error + bool) \<Rightarrow>
   (('f, 'o) VALUE \<Rightarrow> ('f, 'o) VALUE \<Rightarrow> rb_error + ('f, 'o) VALUE) \<Rightarrow>
   (('f, 'o) VALUE \<Rightarrow> 's \<Rightarrow> 's) \<Rightarrow> ('f, 'o) VALUE \<Rightarrow> ('f, 'o) VALUE \<Rightarrow> ('f, 'o) VALUE option \<Rightarrow> 's \<Rightarrow> (rb_error + 's) option" where
  "num_step rb_equal float_step gt lt add yield from to step st =
     (case (case step of
              None \<Rightarrow> Inr (LONG2FIX 1)
            | Some step \<Rightarrow> if rb_equal step (LONG2FIX 0) then Inl ArgError else Inr step) of
        Inl e \<Rightarrow> Some (Inl e)
      | Inr step \<Rightarrow>
          (case (from, to, step) of
             (Fixnum i, Fixnum lim, Fixnum diff) \<Rightarrow>
               map_option Inr (step_loop yield (sint diff) (sint i) (sint lim) st)
           | (Float _, _, _) \<Rightarrow> float_step from to step st
           | (_, Float _, _) \<Rightarrow> float_step from to step st
           | (_, _, Float _) \<Rightarrow> float_step from to step st
           | _ \<Rightarrow>
               (case gt step (LONG2FIX 0) of
                  Inl e \<Rightarrow> Some (Inl e)
                | Inr up \<Rightarrow> call_loop (\<lambda>i. (if up then gt else lt) i to) (\<lambda>i. add i step) yield from st)))"

text \<open>
  A call of an operator on a value runs the method of its class. The two parameters of \<^verbatim>\<open>integer_op\<close>
  are the methods of Fixnum and Bignum, the latter also reached from the former by coercion.
\<close>

definition integer_op :: "(u64 \<Rightarrow> ('f, 'o) VALUE \<Rightarrow> 'r) \<Rightarrow> (rbignum \<Rightarrow> ('f, 'o) VALUE \<Rightarrow> 'r) \<Rightarrow>
  (('f, 'o) VALUE \<Rightarrow> ('f, 'o) VALUE \<Rightarrow> 'r) \<Rightarrow> ('f, 'o) VALUE \<Rightarrow> ('f, 'o) VALUE \<Rightarrow> 'r" where
  "integer_op fix big other x y =
     (case x of Fixnum a \<Rightarrow> fix a y | Bignum b \<Rightarrow> big b y | _ \<Rightarrow> other x y)"

definition integer_binop ::
  "(rb_error \<Rightarrow> 'r) \<Rightarrow> ((('f, 'o) VALUE \<Rightarrow> ('f, 'o) VALUE \<Rightarrow> 'r) \<Rightarrow> u64 \<Rightarrow> ('f, 'o) VALUE \<Rightarrow> 'r) \<Rightarrow>
   (rbignum \<Rightarrow> ('f, 'o) VALUE \<Rightarrow> 'r) \<Rightarrow>
   (('f, 'o) VALUE \<Rightarrow> ('f, 'o) VALUE \<Rightarrow> rb_error + ('f, 'o) VALUE \<times> ('f, 'o) VALUE) \<Rightarrow>
   (('f, 'o) VALUE \<Rightarrow> ('f, 'o) VALUE \<Rightarrow> 'r) \<Rightarrow> ('f, 'o) VALUE \<Rightarrow> ('f, 'o) VALUE \<Rightarrow> 'r" where
  "integer_binop raise fix_op big_op coerce other =
     integer_op (fix_op (rb_num_coerce_bin raise coerce (integer_op (\<lambda>a. other (Fixnum a)) big_op other))) big_op other"

section \<open>Machine arithmetic\<close>

text \<open>\<^verbatim>\<open>FIX2LONG(LONG2FIX(c)) != c\<close> finds exactly the values that are no Fixnums.\<close>

lemma FIX2LONG_simps: "FIX2LONG (Fixnum n) = n" "FIX2LONG (LONG2FIX n) = signed_drop_bit 1 (push_bit 1 n)"
  by (simp_all add: FIX2LONG_def LONG2FIX_def)

lemma LONG2FIX_test: "FIX2LONG (LONG2FIX c) = c \<longleftrightarrow> FIXABLE (sint c)"
proof
  assume c: "FIX2LONG (LONG2FIX c) = c"
  have "sint c = sint (push_bit 1 c) div 2"
    using c sint_signed_drop_bit_eq [of 1 "push_bit 1 c"]
    by (simp only: FIX2LONG_simps drop_bit_eq_div power_one_right)
  moreover have "- (2 ^ 63) \<le> sint (push_bit 1 c)" "sint (push_bit 1 c) < 2 ^ 63" by (rule sint_range64)+
  ultimately show "FIXABLE (sint c)"
    using zdiv_mono1 [of "- (2 ^ 63)" "sint (push_bit 1 c)" 2] zdiv_mono1 [of "sint (push_bit 1 c)" "2 ^ 63 - 1" 2]
    by (simp add: FIXABLE_iff)
next
  assume "FIXABLE (sint c)"
  then show "FIX2LONG (LONG2FIX c) = c" by (simp only: LONG2FIX_id FIX2LONG_simps)
qed

lemma sint_plus_minus:
  "- (2 ^ 63) \<le> sint a + sint b \<Longrightarrow> sint a + sint b < 2 ^ 63 \<Longrightarrow> sint (a + b :: u64) = sint a + sint b"
  "- (2 ^ 63) \<le> sint a - sint b \<Longrightarrow> sint a - sint b < 2 ^ 63 \<Longrightarrow> sint (a - b :: u64) = sint a - sint b"
  by (simp_all add: sint_word_ariths signed_take_bit_int_eq_self)

lemma sint_word_of_int: "- (2 ^ 63) \<le> z \<Longrightarrow> z < 2 ^ 63 \<Longrightarrow> sint (word_of_int z :: u64) = z"
  by (simp add: signed_of_int signed_take_bit_int_eq_self)

text \<open>
  The test of \<^verbatim>\<open>fix_mul\<close>: the wrapped product differs from the true one by a multiple of \<^verbatim>\<open>2**64\<close>, and
  when the quotient comes back it differs by less than a factor.
\<close>

lemma cdiv_bound: "a \<noteq> 0 \<Longrightarrow> \<bar>c - a * cdiv c a\<bar> < \<bar>a\<bar>"
proof -
  assume "a \<noteq> 0"
  have "c - a * cdiv c a = sgn c * (\<bar>c\<bar> mod \<bar>a\<bar>)"
    by (cases c "0 :: int" rule: linorder_cases; cases a "0 :: int" rule: linorder_cases)
      (auto simp: cdiv_def minus_div_mult_eq_mod [symmetric] algebra_simps)
  then have "\<bar>c - a * cdiv c a\<bar> \<le> \<bar>c\<bar> mod \<bar>a\<bar>" using \<open>a \<noteq> 0\<close> by (simp add: abs_mult sgn_if)
  also have "\<dots> < \<bar>a\<bar>" using \<open>a \<noteq> 0\<close> by simp
  finally show ?thesis .
qed

lemma sint_mult_wrap: "\<exists>k. sint (a * b :: u64) = sint a * sint b + 2 ^ 64 * k"
proof -
  let ?m = "sint a * sint b + 2 ^ 63"
  have "sint (a * b) = ?m mod 2 ^ 64 - 2 ^ 63"
    by (simp add: sint_word_ariths signed_take_bit_eq_take_bit_shift take_bit_eq_mod)
  also have "\<dots> = sint a * sint b + 2 ^ 64 * - (?m div 2 ^ 64)"
    using div_mult_mod_eq [of ?m "2 ^ 64"] by (simp add: algebra_simps)
  finally show ?thesis by blast
qed

lemma cdiv_exact: "a \<noteq> 0 \<Longrightarrow> cdiv (a * b) a = b"
proof -
  assume "a \<noteq> 0"
  then have "cdiv (a * b) a = sgn a * sgn a * (sgn b * \<bar>b\<bar>)" by (simp add: cdiv_def sgn_mult abs_mult ac_simps)
  with \<open>a \<noteq> 0\<close> show ?thesis by (simp add: sgn_mult_abs sgn_if)
qed

lemma product_test:
  fixes a b :: u64
  assumes "FIXABLE (sint a)" "FIXABLE (sint b)" "a \<noteq> 0"
  shows "FIXABLE (sint (a * b)) \<and> cdiv (sint (a * b)) (sint a) = sint b \<longleftrightarrow> FIXABLE (sint a * sint b)"
    (is "?test \<longleftrightarrow> _")
proof
  have a0: "sint a \<noteq> 0" using assms(3) by (metis signed_0 signed_word_eqI)
  obtain k where k: "sint (a * b) = sint a * sint b + 2 ^ 64 * k" using sint_mult_wrap by blast
  show "FIXABLE (sint a * sint b)" if ?test
  proof -
    have "\<bar>2 ^ 64 * k\<bar> < \<bar>sint a\<bar>" using cdiv_bound [OF a0, of "sint (a * b)"] that k by (simp add: algebra_simps)
    also have "\<dots> \<le> 2 ^ 62" using assms(1) by (auto simp: FIXABLE_iff)
    finally have "k = 0" by (simp add: abs_mult)
    with that k show ?thesis by simp
  qed
  show ?test if f: "FIXABLE (sint a * sint b)"
  proof -
    have "\<bar>2 ^ 64 * k\<bar> < 2 ^ 64" using f k sint_range64 [of "a * b"] by (auto simp: FIXABLE_iff)
    then have "k = 0" by (simp add: abs_mult)
    with f k show ?thesis by (simp add: cdiv_exact [OF a0])
  qed
qed

section \<open>The operators on integers\<close>

text \<open>A value is_int an integer when it is the canonical value of it.\<close>

definition is_int :: "('f, 'o) VALUE \<Rightarrow> int \<Rightarrow> bool" where
  "is_int v z \<longleftrightarrow> canonical v \<and> int_of v = Some z"

lemma is_int_Fixnum [simp]: "is_int (Fixnum n) z \<longleftrightarrow> FIXABLE (sint n) \<and> z = sint n"
  by (auto simp: is_int_def)

lemma is_int_Bignum: "is_int (Bignum b) z \<Longrightarrow> big_ok b \<and> big_val b = z"
  by (auto simp: is_int_def big_ok_norm)

lemma is_int_bignorm [simp]: "is_int (bignorm x) z \<longleftrightarrow> z = big_val x"
  by (auto simp: is_int_def)

lemma is_int_int2inum [simp]: "is_int (rb_int2inum n) z \<longleftrightarrow> z = sint n"
  using rb_int2inum_value [OF refl, of n] by (auto simp: is_int_def)

lemma is_int_LONG2FIX: "FIXABLE (sint n) \<Longrightarrow> is_int (LONG2FIX n) z \<longleftrightarrow> z = sint n"
  by (simp add: LONG2FIX_id)

lemma integer_binop_simps [simp]:
  "integer_binop raise fix_op big_op coerce other (Fixnum n) y =
   fix_op (rb_num_coerce_bin raise coerce (integer_op (\<lambda>a. other (Fixnum a)) big_op other)) n y"
  "integer_binop raise fix_op big_op coerce other (Bignum p) y = big_op p y"
  "rb_num_coerce_bin raise coerce (integer_op f big_op other) (Fixnum n) (Bignum q) = big_op (rb_int2big n) (Bignum q)"
  by (simp_all add: integer_binop_def integer_op_def rb_num_coerce_bin_def do_coerce_def rb_big_coerce_def)

lemma is_int_cases [consumes 1, case_names Fix Big]:
  fixes v :: "('f, 'o) VALUE"
  assumes "is_int v z"
  obtains n where "v = Fixnum n" "FIXABLE (sint n)" "z = sint n"
  | b where "v = Bignum b" "big_ok b" "z = big_val b" "canonical (Bignum b :: ('f, 'o) VALUE)"
proof (cases v)
  case (Fixnum n)
  with assms that(1) show ?thesis by simp
next
  case (Bignum b)
  with assms that(2) show ?thesis by (auto simp: is_int_def big_ok_norm)
qed (use assms in \<open>simp_all add: is_int_def\<close>)

text \<open>
  The common shape of \<^verbatim>\<open>+\<close>, \<^verbatim>\<open>-\<close>, \<^verbatim>\<open>*\<close>: machine arithmetic between Fixnums that is exact or sends the operands to
  the operator of big numbers, which is exact on all big numbers in use.
\<close>

lemma integer_binop_cases [consumes 2, case_names Fix Mixed BigFix Big]:
  fixes x y :: "('f, 'o) VALUE"
    and raise :: "rb_error \<Rightarrow> 'r"
    and coerce :: "('f, 'o) VALUE \<Rightarrow> ('f, 'o) VALUE \<Rightarrow> rb_error + ('f, 'o) VALUE \<times> ('f, 'o) VALUE"
    and other :: "('f, 'o) VALUE \<Rightarrow> ('f, 'o) VALUE \<Rightarrow> 'r"
    and big_op :: "rbignum \<Rightarrow> ('f, 'o) VALUE \<Rightarrow> 'r"
    and fix_op :: "(('f, 'o) VALUE \<Rightarrow> ('f, 'o) VALUE \<Rightarrow> 'r) \<Rightarrow> u64 \<Rightarrow> ('f, 'o) VALUE \<Rightarrow> 'r"
  assumes "is_int x a" "is_int y b"
  defines "nc \<equiv> rb_num_coerce_bin raise coerce (integer_op (\<lambda>a. other (Fixnum a)) big_op other)"
  obtains n m where "integer_binop raise fix_op big_op coerce other x y = fix_op nc n (Fixnum m)"
      "FIXABLE (sint n)" "FIXABLE (sint m)" "a = sint n" "b = sint m" "x = Fixnum n" "y = Fixnum m"
  | n q where "integer_binop raise fix_op big_op coerce other x y = fix_op nc n (Bignum q)"
      "nc (Fixnum n) (Bignum q) = big_op (rb_int2big n) (Bignum q)"
      "FIXABLE (sint n)" "big_ok q" "a = sint n" "b = big_val q" "x = Fixnum n" "y = Bignum q"
  | p m where "integer_binop raise fix_op big_op coerce other x y = big_op p (Fixnum m)"
      "big_ok p" "FIXABLE (sint m)" "a = big_val p" "b = sint m" "x = Bignum p" "y = Fixnum m"
  | p q where "integer_binop raise fix_op big_op coerce other x y = big_op p (Bignum q)"
      "big_ok p" "big_ok q" "a = big_val p" "b = big_val q" "x = Bignum p" "y = Bignum q"
proof -
  have m: "nc (Fixnum n) (Bignum q) = big_op (rb_int2big n) (Bignum q)" for n q
    by (simp add: nc_def rb_num_coerce_bin_def do_coerce_def rb_big_coerce_def integer_op_def)
  have r: "integer_binop raise fix_op big_op coerce other (Fixnum n) y = fix_op nc n y"
    "integer_binop raise fix_op big_op coerce other (Bignum p) y = big_op p y" for n p
    by (simp_all add: integer_binop_def integer_op_def nc_def)
  from assms(1) show thesis
  proof (cases rule: is_int_cases)
    case (Fix n)
    from assms(2) show thesis by (cases rule: is_int_cases) (use Fix r m that(1,2) in auto)
  next
    case (Big p)
    from assms(2) show thesis by (cases rule: is_int_cases) (use Big r that(3,4) in auto)
  qed
qed

locale exact_operator =
  fixes fix_op :: "(('f, 'o) VALUE \<Rightarrow> ('f, 'o) VALUE \<Rightarrow> rb_error + ('f, 'o) VALUE) \<Rightarrow> u64 \<Rightarrow> ('f, 'o) VALUE \<Rightarrow> rb_error + ('f, 'o) VALUE"
    and big_op :: "rbignum \<Rightarrow> ('f, 'o) VALUE \<Rightarrow> rb_error + ('f, 'o) VALUE"
    and F :: "int \<Rightarrow> int \<Rightarrow> int"
  assumes fix_exact: "FIXABLE (sint a) \<Longrightarrow> FIXABLE (sint b) \<Longrightarrow> \<exists>r. fix_op nc a (Fixnum b) = Inr r \<and> is_int r (F (sint a) (sint b))"
    and fix_coerces: "fix_op nc a (Bignum q) = nc (Fixnum a) (Bignum q)"
    and big_exact: "big_ok p \<Longrightarrow> big_ok q \<Longrightarrow> \<exists>r. big_op p (Bignum q) = Inr r \<and> is_int r (F (big_val p) (big_val q))"
    and big_fix: "big_op p (Fixnum b) = big_op p (Bignum (rb_int2big b))"
begin

lemma exact:
  assumes "is_int x a" "is_int y b"
  shows "\<exists>r. integer_binop Inl fix_op big_op coerce other x y = Inr r \<and> is_int r (F a b)"
  using assms
proof (cases rule: integer_binop_cases [where raise=Inl and fix_op=fix_op and big_op=big_op
      and coerce=coerce and other=other])
  case (Fix n m)
  with fix_exact show ?thesis by simp
next
  case (Mixed n q)
  with big_exact [of "rb_int2big n" q] fix_coerces show ?thesis by simp
next
  case (BigFix p m)
  with big_exact [of p "rb_int2big m"] big_fix show ?thesis by simp
next
  case (Big p q)
  with big_exact [of p q] show ?thesis by simp
qed

end

text \<open>Addition, subtraction and multiplication are such operators.\<close>

lemma fix_plus_exact:
  assumes "FIXABLE (sint a)" "FIXABLE (sint b)"
  shows "\<exists>r. fix_plus flo nc (rb_big_plus fp bnc) a (Fixnum b) = Inr r \<and> is_int r (sint a + sint b)"
proof (cases "FIXABLE (sint (a + b))")
  case True
  have "sint (a + b) = sint a + sint b" using assms by (intro sint_plus_minus) (simp_all add: FIXABLE_iff)
  with True show ?thesis by (simp add: fix_plus_def LONG2FIX_test Let_def LONG2FIX_id)
next
  case False
  then show ?thesis using bigadd_ok [of "rb_int2big a" "rb_int2big b" True]
    by (simp add: fix_plus_def rb_big_plus_def Let_def LONG2FIX_test)
qed

lemma fix_minus_exact:
  assumes "FIXABLE (sint a)" "FIXABLE (sint b)"
  shows "\<exists>r. fix_minus flo nc (rb_big_minus fp bnc) a (Fixnum b) = Inr r \<and> is_int r (sint a - sint b)"
proof (cases "FIXABLE (sint (a - b))")
  case True
  have "sint (a - b) = sint a - sint b" using assms by (intro sint_plus_minus) (simp_all add: FIXABLE_iff)
  with True show ?thesis by (simp add: fix_minus_def LONG2FIX_test Let_def LONG2FIX_id)
next
  case False
  then show ?thesis using bigadd_ok [of "rb_int2big a" "rb_int2big b" False]
    by (simp add: fix_minus_def rb_big_minus_def Let_def LONG2FIX_test)
qed

lemma fix_mul_exact:
  assumes "FIXABLE (sint a)" "FIXABLE (sint b)"
  shows "\<exists>r. fix_mul flo nc (rb_big_mul fm bnc) a (Fixnum b) = Inr r \<and> is_int r (sint a * sint b)"
proof (cases "a = 0")
  case True
  with assms show ?thesis by (simp add: fix_mul_def)
next
  case False
  note test = product_test [OF assms False]
  show ?thesis
  proof (cases "FIXABLE (sint a * sint b)")
    case True
    obtain k where k: "sint (a * b) = sint a * sint b + 2 ^ 64 * k" using sint_mult_wrap by blast
    have "\<bar>2 ^ 64 * k\<bar> < 2 ^ 64" using True k sint_range64 [of "a * b"] by (auto simp: FIXABLE_iff)
    then have "k = 0" by (simp add: abs_mult)
    with k True test False show ?thesis by (simp add: fix_mul_def LONG2FIX_test Let_def LONG2FIX_id)
  next
    case nf: False
    with test False show ?thesis
      by (auto simp: fix_mul_def LONG2FIX_test Let_def rb_big_mul_def big_mul_value)
  qed
qed

interpretation int_add: exact_operator "\<lambda>nc. fix_plus flo nc (rb_big_plus fp bnc)"
  "\<lambda>p y. Inr (rb_big_plus fp bnc p y)" "\<lambda>a b. a + b" for flo fp bnc
  by unfold_locales (auto simp: fix_plus_exact, auto simp: fix_plus_def rb_big_plus_def bigadd_ok)

interpretation int_sub: exact_operator "\<lambda>nc. fix_minus flo nc (rb_big_minus fp bnc)"
  "\<lambda>p y. Inr (rb_big_minus fp bnc p y)" "\<lambda>a b. a - b" for flo fp bnc
  by unfold_locales (auto simp: fix_minus_exact, auto simp: fix_minus_def rb_big_minus_def bigadd_ok)

interpretation int_mul: exact_operator "\<lambda>nc. fix_mul flo nc (rb_big_mul fm bnc)"
  "\<lambda>p y. Inr (rb_big_mul fm bnc (Bignum p) y)" "\<lambda>a b. a * b" for flo fm bnc
  by unfold_locales (auto simp: fix_mul_exact, auto simp: fix_mul_def rb_big_mul_def big_mul_value)

section \<open>Division\<close>

lemma fixdivmod_floor:
  assumes "y \<noteq> 0"
  shows "fixdivmod x y = Inr (x div y, x mod y)"
proof -
  have r: "r = x - q * y \<Longrightarrow> 0 < y \<and> 0 \<le> r \<and> r < y \<or> y < 0 \<and> r \<le> 0 \<and> y < r \<Longrightarrow> q = x div y \<and> r = x mod y" for q r
    using int_div_pos_eq [of x y q r] int_div_neg_eq [of x y q r] int_mod_pos_eq [of x y q r]
      int_mod_neg_eq [of x y q r] by (auto simp: algebra_simps)
  define quo where "quo = (if y < 0 then (if x < 0 then (- x) div (- y) else - (x div (- y)))
      else (if x < 0 then - ((- x) div y) else x div y))"
  define rem where "rem = x - quo * y"
  have "rem = sgn x * (\<bar>x\<bar> mod \<bar>y\<bar>)"
    by (cases x "0 :: int" rule: linorder_cases; cases y "0 :: int" rule: linorder_cases)
      (use assms in \<open>auto simp: rem_def quo_def minus_div_mult_eq_mod [symmetric] algebra_simps\<close>)
  moreover have "0 \<le> \<bar>x\<bar> mod \<bar>y\<bar>" "\<bar>x\<bar> mod \<bar>y\<bar> < \<bar>y\<bar>" using assms by simp_all
  ultimately have b: "\<bar>rem\<bar> < \<bar>y\<bar>" by (auto simp: abs_mult sgn_if)
  have f: "fixdivmod x y = (if rem < 0 \<and> y > 0 \<or> rem > 0 \<and> y < 0 then Inr (quo - 1, rem + y) else Inr (quo, rem))"
    using assms unfolding fixdivmod_def Let_def rem_def quo_def by (simp only: if_False)
  show ?thesis
  proof (cases "rem < 0 \<and> y > 0 \<or> rem > 0 \<and> y < 0")
    case True
    have "rem + y = x - (quo - 1) * y" by (simp add: rem_def algebra_simps)
    moreover have "0 < y \<and> 0 \<le> rem + y \<and> rem + y < y \<or> y < 0 \<and> rem + y \<le> 0 \<and> y < rem + y"
      using True b by linarith
    ultimately show ?thesis using r True f by simp
  next
    case False
    then have "0 < y \<and> 0 \<le> rem \<and> rem < y \<or> y < 0 \<and> rem \<le> 0 \<and> y < rem" using b assms by linarith
    with r [OF rem_def] show ?thesis using False f by simp
  qed
qed

lemma abs_div_le: "b \<noteq> 0 \<Longrightarrow> \<bar>a div b\<bar> \<le> \<bar>a :: int\<bar>"
proof -
  have pos: "\<bar>a div b\<bar> \<le> \<bar>a\<bar>" if "0 < b" for a b :: int
    using that zdiv_mono2 [of a 1 b] zdiv_mono2_neg [of a 1 b] pos_imp_zdiv_nonneg_iff [of b a]
      neg_imp_zdiv_nonneg_iff [of b a] by (cases "0 \<le> a") auto
  assume "b \<noteq> 0"
  then show ?thesis using pos [of b a] pos [of "- b" "- a"] by (cases "0 < b") auto
qed

lemma sint_quotient:
  assumes "FIXABLE a" "FIXABLE b" "b \<noteq> 0"
  shows "sint (word_of_int (a div b) :: u64) = a div b" "sint (word_of_int (a mod b) :: u64) = a mod b"
proof -
  have "\<bar>a div b\<bar> \<le> 2 ^ 62" using abs_div_le [OF assms(3), of a] assms(1) by (auto simp: FIXABLE_iff)
  then show "sint (word_of_int (a div b) :: u64) = a div b" by (intro sint_word_of_int) auto
  have "\<bar>a mod b\<bar> \<le> \<bar>b\<bar>" using assms(3) abs_mod_less [of b a] by simp
  then have "\<bar>a mod b\<bar> \<le> 2 ^ 62" using assms(2) by (auto simp: FIXABLE_iff)
  then show "sint (word_of_int (a mod b) :: u64) = a mod b" by (intro sint_word_of_int) auto
qed

lemma fix_division:
  assumes "FIXABLE (sint a)" "FIXABLE (sint b)" "sint b \<noteq> 0"
  shows "fix_div nc a (Fixnum b) = Some (Inr (rb_int2inum (word_of_int (sint a div sint b))))"
    and "fix_mod nc a (Fixnum b) = Some (Inr (rb_int2inum (word_of_int (sint a mod sint b))))"
    and "fix_divmod nc' a (Fixnum b) =
      Some (Inr (rb_int2inum (word_of_int (sint a div sint b)), rb_int2inum (word_of_int (sint a mod sint b))))"
    and "is_int (rb_int2inum (word_of_int (sint a div sint b))) (sint a div sint b)"
    and "is_int (rb_int2inum (word_of_int (sint a mod sint b))) (sint a mod sint b)"
  using sint_quotient [OF assms]
  by (simp_all add: fix_div_def fix_mod_def fix_divmod_def fixdivmod_floor [OF assms(3)] bindR_def)

text \<open>The operators \<^verbatim>\<open>/\<close>, \<^verbatim>\<open>%\<close> and \<^verbatim>\<open>divmod\<close> on integers.\<close>

abbreviation trap :: "rb_error \<Rightarrow> (rb_error + 'r) option" where
  "trap e \<equiv> Some (Inl e)"

lemma big_division:
  assumes "big_ok p" "big_ok q" "big_val q \<noteq> 0" "y = Bignum q \<or> y = Fixnum n \<and> q = rb_int2big n"
  shows "\<exists>d m. rb_big_div fd nd p y = Some (Inr d) \<and> is_int d (big_val p div big_val q) \<and>
           rb_big_modulo nm p y = Some (Inr m) \<and> is_int m (big_val p mod big_val q) \<and>
           rb_big_divmod nc p y = Some (Inr (d, m))"
proof -
  obtain d m where "bigdivmod p q = Some (Inr (d, m))" "big_val d = big_val p div big_val q"
    "big_val m = big_val p mod big_val q" using bigdivmod_value [OF assms(1-3)] by blast
  then show ?thesis using assms(4)
    by (auto simp: rb_big_div_def rb_big_modulo_def rb_big_divmod_def)
qed

section \<open>Shifts\<close>

lemma sint_div_high:
  assumes "63 \<le> n"
  shows "sint (val :: u64) div 2 ^ n = (if sint val < 0 then - 1 else 0)"
proof -
  have "(2 :: int) ^ 63 \<le> 2 ^ n" using assms by (intro power_increasing) auto
  then show ?thesis
    using sint_range64 [of val] int_div_pos_eq [of "sint val" "2 ^ n" "- 1" "sint val + 2 ^ n"]
    by (auto simp: div_pos_pos_trivial)
qed

lemma rshift_here_value:
  assumes "FIXABLE (sint val)"
  shows "is_int (rshift_here val i) (sint val div 2 ^ i)"
proof -
  have v: "- (2 ^ 62) \<le> sint val" "sint val < 2 ^ 62" using assms by (auto simp: FIXABLE_iff)
  show ?thesis
  proof (cases "i \<ge> 63")
    case True
    from sint_div_high [OF True] True show ?thesis by (simp add: rshift_here_def is_int_LONG2FIX FIXABLE_iff)
  next
    case False
    have s: "sint (signed_drop_bit i val) = sint val div 2 ^ i"
      by (simp add: sint_signed_drop_bit_eq drop_bit_eq_div)
    have "\<bar>sint val div 2 ^ i\<bar> \<le> \<bar>sint val\<bar>" by (rule abs_div_le) simp
    moreover have "sint val div 2 ^ i < 2 ^ 62" 
      using v(2) calculation pos_imp_zdiv_neg_iff [of "2 ^ i" "sint val"] by (cases "0 \<le> sint val") auto
    ultimately have "FIXABLE (sint val div 2 ^ i)" using v by (auto simp: FIXABLE_iff)
    with False s assms show ?thesis by (auto simp: rshift_here_def is_int_LONG2FIX)
  qed
qed

lemma lshift_here_value:
  fixes y :: "('f, 'o) VALUE"
  assumes "FIXABLE (sint val)" "rb_num2long conv y = Inr w" "0 \<le> sint w"
  shows "\<exists>r. lshift_here conv val y (unat w) = Some r \<and>
           (if sint w < 2 ^ 31 then \<exists>v. r = Inr v \<and> is_int v (sint val * 2 ^ unat w)
            else r = Inl RangeError)"
proof -
  have u: "int (unat w) = sint w" using assms(3) unat_dbl_less [of w] by (auto simp: sint_unat split: if_splits)
  have n: "rb_num2int conv y = (if sint w < 2 ^ 31 then Inr (sint w) else Inl RangeError)"
    using assms(2,3) by (auto simp: rb_num2int_def rb_num2long_def)
  show ?thesis
  proof (cases "unat w > 63 \<or> drop_bit (63 - unat w) val > 0")
    case True
    obtain l :: "('f, 'o) VALUE" where "lshift_pos (rb_int2big val) (unat w) = Inr l" "canonical l"
      "int_of l = Some (sint val * 2 ^ unat w)" using lshift_pos_value [of "rb_int2big val" "unat w"] by auto
    moreover have "nat (sint w) = unat w" using u by simp
    ultimately show ?thesis using True n assms(3)
      by (auto simp: lshift_here_def rb_big_lshift_def big_shift_pos is_int_def)
  next
    case False
    then have "drop_bit (63 - unat w) val = 0" by (simp add: word_gt_0)
    then have "drop_bit (63 - unat w) (unat val) = 0" by (metis unat_0 unat_drop_bit_eq)
    with False have w: "unat w \<le> 63" "unat val div 2 ^ (63 - unat w) = 0" by (simp_all add: drop_bit_eq_div)
    then have "unat val < 2 ^ (63 - unat w)" by (simp add: div_eq_0_iff)
    then have "unat val * 2 ^ unat w < 2 ^ (63 - unat w) * 2 ^ unat w" by simp
    also have "\<dots> = 2 ^ 63" using w(1) by (simp flip: power_add)
    finally have b: "unat val * 2 ^ unat w < 2 ^ 63" .
    then have p: "unat (push_bit (unat w) val) = unat val * 2 ^ unat w"
      by (simp only: unsigned_push_bit_eq) (simp add: push_bit_eq_mult take_bit_eq_mod)
    have "unat val * 1 \<le> unat val * 2 ^ unat w" by (intro mult_le_mono2) simp
    from le_less_trans [OF this b] have "unat val < 2 ^ 63" by simp
    then have "sint val = int (unat val)" by (simp add: sint_unat)
    moreover have "sint (push_bit (unat w) val) = int (unat val * 2 ^ unat w)"
      using b p by (simp add: sint_unat)
    moreover have "sint w < 2 ^ 31" using w(1) by (simp flip: u)
    ultimately show ?thesis using False by (simp add: lshift_here_def)
  qed
qed

text \<open>A negative count goes to the other shift, except for the smallest, which comes back to itself.\<close>

lemma fix_shift_pos:
  "rb_num2long conv y = Inr w \<Longrightarrow> 0 \<le> sint w \<Longrightarrow>
   fix_shift conv left val y = (if left then lshift_here conv val y (unat w) else Some (Inr (rshift_here val (unat w))))"
  by (subst fix_shift.simps) simp

lemma fix_shift_neg:
  "sint w < 0 \<Longrightarrow> - (2 ^ 62) < sint w \<Longrightarrow>
   fix_shift conv left val (Fixnum w) = fix_shift conv (\<not> left) val (Fixnum (- w))"
  by (subst fix_shift.simps) (simp add: rb_num2long_def LONG2FIX_id FIXABLE_iff sint_uminus)

lemma fix_shift_diverges:
  assumes "sint w = - (2 ^ 62)" "r = fix_shift conv left val (Fixnum w :: ('f, 'o) VALUE)"
  shows "r = None"
proof -
  have wrap: "LONG2FIX (- v) = (Fixnum v :: ('f, 'o) VALUE)" if "sint v = - (2 ^ 62)" for v
  proof -
    have "v = - 0x4000000000000000" using that by (intro signed_word_eqI) simp
    then show ?thesis by (simp add: LONG2FIX_def)
  qed
  have "y \<noteq> Fixnum w" if "(fix_shift conv l val y :: (rb_error + ('f, 'o) VALUE) option) = Some r" for l y r
  proof (rule fix_shift.raw_induct [of "\<lambda>c l v y r. y \<noteq> Fixnum w" conv l val y r])
    show "fix_shift conv l val y = Some r" by (rule that)
  qed (use assms(1) wrap [OF assms(1)] in \<open>fastforce simp: rb_num2long_def split: sum.splits if_splits\<close>)
  then show ?thesis using assms(2) by (cases r) blast+
qed

definition shift_result :: "int \<Rightarrow> int \<Rightarrow> (rb_error + ('f, 'o) VALUE) option \<Rightarrow> bool" where
  "shift_result a s r \<longleftrightarrow>
     (if s < 2 ^ 31 then \<exists>v. r = Some (Inr v) \<and> is_int v (if 0 \<le> s then a * 2 ^ nat s else a div 2 ^ nat (- s))
      else r = Some (Inl RangeError))"

lemma fix_shift_here:
  fixes conv :: "('f, 'o) VALUE \<Rightarrow> rb_error + u64"
  assumes "FIXABLE (sint val)" "0 \<le> sint w"
  shows "shift_result (sint val) (if left then sint w else - sint w) (fix_shift conv left val (Fixnum w))"
proof -
  have u: "unat w = nat (sint w)"
    using assms(2) unat_dbl_less [of w] by (auto simp: sint_unat split: if_splits)
  have l: "rb_num2long conv (Fixnum w) = Inr w" by (simp add: rb_num2long_def)
  show ?thesis
  proof (cases left)
    case True
    with lshift_here_value [OF assms(1) l assms(2)] assms(2) show ?thesis
      by (auto simp: fix_shift_pos [OF l assms(2)] shift_result_def u split: if_splits)
  next
    case False
    with rshift_here_value [OF assms(1), of "nat (sint w)"] assms(2) show ?thesis
      by (auto simp: fix_shift_pos [OF l assms(2)] shift_result_def u)
  qed
qed

lemma fix_shift_any:
  assumes "FIXABLE (sint val)" "- (2 ^ 62) < sint w"
  shows "shift_result (sint val) (if left then sint w else - sint w) (fix_shift conv left val (Fixnum w))"
proof (cases "0 \<le> sint w")
  case False
  then have n: "sint (- w) = - sint w" using assms(2) by (intro sint_uminus) simp
  with False fix_shift_here [OF assms(1), of "- w" "\<not> left" conv] show ?thesis
    by (cases left) (simp_all add: fix_shift_neg [OF _ assms(2)])
qed (rule fix_shift_here [OF assms(1)])

section \<open>Bits\<close>

lemma fix_bits_exact:
  assumes "FIXABLE (sint x)" "is_int y b"
  shows "(\<exists>r. fix_and conv x y = Inr r \<and> is_int r (sint x AND b)) \<and>
         (\<exists>r. fix_or conv x y = Inr r \<and> is_int r (sint x OR b))"
  using assms(2)
proof (cases rule: is_int_cases)
  case (Fix n)
  then show ?thesis
    by (simp add: fix_and_def fix_or_def rb_num2long_def bindR_def signed_and_eq signed_or_eq)
next
  case (Big q)
  note s = big_ok_sign [OF Big(2)] big_ok_sign [OF big_ok_int2big [of x]]
  have t: "to_big (Fixnum x) = Some (rb_int2big x)" by (simp add: to_big_def)
  from bit_and.bitop_exact [OF _ _ t] bit_or.bitop_exact [OF _ _ t] s Big(1,3)
  show ?thesis
    by (auto simp: fix_and_def fix_or_def rb_big_and_def rb_big_or_def is_int_def and.commute or.commute)
qed

lemma LONG2FIX_bits: "LONG2FIX 0 = Fixnum 0" "LONG2FIX 1 = Fixnum 1"
  by (simp_all add: LONG2FIX_id FIXABLE_iff)

lemma fix_aref_bit:
  assumes "is_int idx i"
  shows "fix_aref conv val idx = Inr (Fixnum (if 0 \<le> i \<and> bit (sint val) (nat i) then 1 else 0))"
proof -
  have high: "bit (sint val) n \<longleftrightarrow> sint val < 0" if "63 \<le> n" for n
    using sint_div_high [OF that, of val] by (simp add: bit_iff_odd)
  show ?thesis
    using assms
  proof (cases rule: is_int_cases)
    case (Fix n)
    show ?thesis
    proof (cases "0 \<le> sint n \<and> sint n \<le> 63")
      case True
      then have u: "unat n = nat (sint n)" "unat n < 64" using unat_dbl_less [of n] by (auto simp: sint_unat split: if_splits)
      have "val AND push_bit (unat n) 1 \<noteq> 0 \<longleftrightarrow> bit val (unat n)"
        by (metis and.commute and_exp_eq_0_iff_not_bit push_bit_of_1)
      moreover have "bit (sint val) (unat n) \<longleftrightarrow> bit val (unat n)"
        using u(2) by (auto simp: bit_sint_iff min_def less_Suc_eq)
      ultimately show ?thesis using True Fix u by (simp add: LONG2FIX_bits fix_aref_def rb_num2long_def bindR_def)
    next
      case False
      with Fix high [of "nat (sint n)"] show ?thesis
        by (auto simp: LONG2FIX_bits fix_aref_def rb_num2long_def bindR_def)
    qed
  next
    case (Big b)
    have n: "rb_big_norm idx = idx"
      by (rule canonical_unique [of _ _ i]) (use assms Big(1,3) in \<open>auto simp: rb_big_norm_def is_int_def\<close>)
    have "\<not> FIXABLE i" using assms Big(1,3) by (auto simp: is_int_def)
    then have "0 \<le> i \<longleftrightarrow> bsign b" "0 \<le> i \<Longrightarrow> 63 \<le> nat i"
      using Big(3) by (auto simp: FIXABLE_iff big_val_def)
    with n Big(1) high [of "nat i"] show ?thesis by (auto simp: LONG2FIX_bits fix_aref_def)
  qed
qed

section \<open>Loops\<close>

text \<open>The number of rounds of a counting loop.\<close>

definition rounds :: "int \<Rightarrow> int \<Rightarrow> int \<Rightarrow> nat" where
  "rounds diff i lim = nat ((lim - i) div diff + 1)"

lemma rounds_step:
  assumes "diff \<noteq> 0"
  shows "(if diff > 0 then i \<le> lim else i \<ge> lim) \<longleftrightarrow> 0 < rounds diff i lim"
    and "0 < rounds diff i lim \<Longrightarrow> rounds diff i lim = Suc (rounds diff (i + diff) lim)"
proof -
  have "0 \<le> (lim - i) div diff \<longleftrightarrow> (if diff > 0 then i \<le> lim else i \<ge> lim)"
    using assms by (auto simp: pos_imp_zdiv_nonneg_iff neg_imp_zdiv_nonneg_iff)
  then show "(if diff > 0 then i \<le> lim else i \<ge> lim) \<longleftrightarrow> 0 < rounds diff i lim"
    by (auto simp: rounds_def)
  have "(lim - (i + diff)) div diff = (lim - i) div diff - 1"
    using assms div_add_self2 [of diff "lim - (i + diff)"] by simp
  then show "0 < rounds diff i lim \<Longrightarrow> rounds diff i lim = Suc (rounds diff (i + diff) lim)"
    by (auto simp: rounds_def)
qed

lemma step_loop_yields:
  assumes "diff \<noteq> 0"
  shows "step_loop yield diff i lim st =
         Some (fold (\<lambda>k. yield (LONG2FIX (word_of_int (i + int k * diff)))) [0..<rounds diff i lim] st)"
proof (induction "rounds diff i lim" arbitrary: i st)
  case 0
  then show ?case using rounds_step(1) [OF assms, of i lim] by (subst step_loop.simps) simp
next
  case (Suc n)
  then have n: "n = rounds diff (i + diff) lim" using rounds_step(2) [OF assms, of i lim] by simp
  have "step_loop yield diff i lim st = step_loop yield diff (i + diff) lim (yield (LONG2FIX (word_of_int i)) st)"
    using rounds_step(1) [OF assms, of i lim] Suc(2) by (subst step_loop.simps) simp
  also have "\<dots> = Some (fold (\<lambda>k. yield (LONG2FIX (word_of_int (i + diff + int k * diff)))) [0..<n]
      (yield (LONG2FIX (word_of_int i)) st))"
    using Suc(1) [OF n] n by simp
  also have "\<dots> = Some (fold (\<lambda>k. yield (LONG2FIX (word_of_int (i + int k * diff)))) (0 # map Suc [0..<n]) st)"
    by (simp add: fold_map comp_def algebra_simps)
  also have "0 # map Suc [0..<n] = [0..<Suc n]" by (simp add: map_Suc_upt upt_conv_Cons del: upt_Suc)
  finally show ?case using Suc(2) by simp
qed

lemma rounds_between:
  assumes "diff \<noteq> 0" "k < rounds diff i lim"
  shows "if 0 < diff then i \<le> i + int k * diff \<and> i + int k * diff \<le> lim
         else lim \<le> i + int k * diff \<and> i + int k * diff \<le> i"
proof -
  have k: "int k \<le> (lim - i) div diff" using assms(2) by (auto simp: rounds_def)
  show ?thesis
  proof (cases "0 < diff")
    case True
    have "int k * diff \<le> (lim - i) div diff * diff" using k True by (intro mult_right_mono) auto
    also have "\<dots> \<le> lim - i" using True pos_mod_sign [of diff "lim - i"] minus_mod_eq_div_mult [of "lim - i" diff] by linarith
    finally show ?thesis using True by simp
  next
    case False
    have "int k * diff \<ge> (lim - i) div diff * diff" using k False by (intro mult_right_mono_neg) auto
    moreover have "(lim - i) div diff * diff \<ge> lim - i"
      using False assms(1) neg_mod_sign [of diff "lim - i"] minus_mod_eq_div_mult [of "lim - i" diff] by linarith
    moreover have "int k * diff \<le> 0" using False by (simp add: mult_nonneg_nonpos)
    ultimately show ?thesis using False by simp
  qed
qed

lemma is_int_word:
  assumes "FIXABLE z"
  shows "is_int (LONG2FIX (word_of_int z)) z"
proof -
  have "sint (word_of_int z :: u64) = z" using assms by (intro sint_word_of_int) (auto simp: FIXABLE_iff)
  with assms show ?thesis by (simp add: is_int_LONG2FIX)
qed

text \<open>The values that the block sees, for a loop between Fixnums.\<close>

lemma step_loop_fixnums:
  assumes "diff \<noteq> 0" "FIXABLE i" "FIXABLE lim"
  shows "\<exists>vs. step_loop yield diff i lim st = Some (fold yield vs st) \<and>
           list_all2 is_int vs (map (\<lambda>k. i + int k * diff) [0..<rounds diff i lim])"
proof -
  let ?vs = "map (\<lambda>k. LONG2FIX (word_of_int (i + int k * diff)) :: ('a, 'b) VALUE) [0..<rounds diff i lim]"
  have "FIXABLE (i + int k * diff)" if "k < rounds diff i lim" for k
    using rounds_between [OF assms(1) that] assms(2,3) unfolding FIXABLE_iff
    by (cases "0 < diff"; simp only: if_True if_False; intro conjI; linarith)
  then have "is_int (LONG2FIX (word_of_int (i + int k * diff)) :: ('a, 'b) VALUE) (i + int k * diff)"
    if "k < rounds diff i lim" for k
    using that by (intro is_int_word) blast
  then have "list_all2 is_int ?vs (map (\<lambda>k. i + int k * diff) [0..<rounds diff i lim])"
    by (auto simp: list_all2_conv_all_nth)
  moreover have "fold yield ?vs st = fold (\<lambda>k. yield (LONG2FIX (word_of_int (i + int k * diff)))) [0..<rounds diff i lim] st" for yield :: "('a, 'b) VALUE \<Rightarrow> 's \<Rightarrow> 's" and st
    by (simp add: fold_map comp_def)
  ultimately show ?thesis using step_loop_yields [OF assms(1)] by metis
qed

lemma upto_rounds: "map (\<lambda>k. a + int k * 1) [0..<rounds 1 a b] = [a..b]"
  by (auto simp: rounds_def list_eq_iff_nth_eq)

section \<open>Properties\<close>

text \<open>The operators as the interpreter calls them, on a Fixnum or a big number.\<close>

definition integer_plus where
  "integer_plus flo fp bnc = integer_binop Inl (\<lambda>nc. fix_plus flo nc (rb_big_plus fp bnc)) (\<lambda>p y. Inr (rb_big_plus fp bnc p y))"

definition integer_minus where
  "integer_minus flo fp bnc = integer_binop Inl (\<lambda>nc. fix_minus flo nc (rb_big_minus fp bnc)) (\<lambda>p y. Inr (rb_big_minus fp bnc p y))"

definition integer_mul where
  "integer_mul flo fm bnc = integer_binop Inl (\<lambda>nc. fix_mul flo nc (rb_big_mul fm bnc)) (\<lambda>p y. Inr (rb_big_mul fm bnc (Bignum p) y))"

definition integer_div where
  "integer_div fd nd = integer_binop trap fix_div (rb_big_div fd nd)"

definition integer_mod where
  "integer_mod nm = integer_binop trap fix_mod (rb_big_modulo nm)"

definition integer_divmod where
  "integer_divmod nc = integer_binop trap fix_divmod (rb_big_divmod nc)"

text \<open>
  C15. Addition, subtraction and multiplication of integers are exact and canonical in every combination
  of Fixnums and big numbers: between Fixnums the tests for overflow find exactly the results that do
  not fit, and mixed operands meet as big numbers.
\<close>

theorem integer_ring_exact:
  fixes x y :: "('f, 'o) VALUE"
  assumes "is_int x a" "is_int y b"
  shows "(\<exists>r. integer_plus flo fp bnc coerce other x y = Inr r \<and> is_int r (a + b)) \<and>
         (\<exists>r. integer_minus flo fp bnc coerce other x y = Inr r \<and> is_int r (a - b)) \<and>
         (\<exists>r. integer_mul flo fm bnm coerce other x y = Inr r \<and> is_int r (a * b))"
  unfolding integer_plus_def integer_minus_def integer_mul_def
  by (intro conjI int_add.exact int_sub.exact int_mul.exact assms)

theorem integer_ring_exact_witness:
  "\<exists>r. integer_mul (\<lambda>_ _. Inl TypeError) (\<lambda>_ _. Other ()) (\<lambda>_ _. Other ()) (\<lambda>_ _. Inl TypeError)
         (\<lambda>_ _. Inl TypeError) (Fixnum 0x3fffffffffffffff) (Fixnum 3 :: (unit, unit) VALUE) = Inr r \<and>
       is_int r (3 * (2 ^ 62 - 1))"
  using integer_ring_exact [of "Fixnum 0x3fffffffffffffff :: (unit, unit) VALUE" "2 ^ 62 - 1" "Fixnum 3" 3
      "\<lambda>_ _. Inl TypeError" "\<lambda>_ _. Other ()" "\<lambda>_ _. Other ()" "\<lambda>_ _. Inl TypeError" "\<lambda>_ _. Inl TypeError"
      "\<lambda>_ _. Other ()" "\<lambda>_ _. Other ()"]
  by (simp add: FIXABLE_iff)

text \<open>
  C16. Integer division in every combination of Fixnums and big numbers returns and is floored division;
  the three operators agree. A zero divisor is refused with ZeroDivisionError when the dividend is a
  Fixnum and reaches the processor when it is a big number.
\<close>

theorem integer_division_floor:
  fixes x y :: "('f, 'o) VALUE"
  assumes "is_int x a" "is_int y b"
  shows "if b \<noteq> 0
         then \<exists>d m. integer_div fd nd coerce other x y = Some (Inr d) \<and> is_int d (a div b) \<and>
                integer_mod nm coerce other x y = Some (Inr m) \<and> is_int m (a mod b) \<and>
                integer_divmod nc coerce other' x y = Some (Inr (d, m))
         else integer_div fd nd coerce other x y = trap (if FIXABLE a then ZeroDivError else DivideTrap)"
  using assms(1)
proof (cases rule: is_int_cases)
  case x: (Fix n)
  from assms(2) show ?thesis
  proof (cases rule: is_int_cases)
    case (Fix m)
    show ?thesis
    proof (cases "b = 0")
      case True
      with x Fix show ?thesis by (simp add: integer_div_def fix_div_def fixdivmod_def bindR_def)
    next
      case False
      then have "sint m \<noteq> 0" using Fix by simp
      with False x Fix show ?thesis
        by (simp add: fix_division [OF x(2) Fix(2)] del: is_int_int2inum add: integer_div_def integer_mod_def integer_divmod_def)
    qed
  next
    case (Big q)
    then have "\<not> FIXABLE b" by simp
    then have "b \<noteq> 0" by (auto simp: FIXABLE_iff)
    with x Big big_division [OF big_ok_int2big [of n] Big(2), of "Bignum q" _ fd nd nm nc] show ?thesis
      by (simp add: integer_div_def integer_mod_def integer_divmod_def fix_div_def fix_mod_def fix_divmod_def)
  qed
next
  case x: (Big p)
  then have nf: "\<not> FIXABLE a" by simp
  from assms(2) show ?thesis
  proof (cases rule: is_int_cases)
    case (Fix m)
    show ?thesis
    proof (cases "b = 0")
      case True
      then have "m = 0" using Fix(3) by (metis signed_0 signed_word_eqI)
      with True x nf Fix rb_big_div_by_zero_traps [OF x(4), of fd nd] show ?thesis by (simp add: integer_div_def)
    next
      case False
      with x Fix big_division [OF x(2) big_ok_int2big [of m], of "Fixnum m" m fd nd nm nc] show ?thesis
        by (simp add: integer_div_def integer_mod_def integer_divmod_def)
    qed
  next
    case (Big q)
    then have "\<not> FIXABLE b" by simp
    then have "b \<noteq> 0" by (auto simp: FIXABLE_iff)
    with x Big big_division [OF x(2) Big(2), of "Bignum q" _ fd nd nm nc] show ?thesis
      by (simp add: integer_div_def integer_mod_def integer_divmod_def)
  qed
qed

theorem integer_division_floor_witness:
  "\<exists>d m. integer_div (\<lambda>_ _. Other ()) (\<lambda>_ _. Other ()) (\<lambda>_ _. Inl TypeError) (\<lambda>_ _. None) (Fixnum (- 7)) (Fixnum 2 :: (unit, unit) VALUE) = Some (Inr d) \<and>
     is_int d (- 4) \<and>
     integer_mod (\<lambda>_ _. Other ()) (\<lambda>_ _. Inl TypeError) (\<lambda>_ _. None) (Fixnum (- 7)) (Fixnum 2 :: (unit, unit) VALUE) = Some (Inr m) \<and> is_int m 1"
  using integer_division_floor [of "Fixnum (- 7) :: (unit, unit) VALUE" "- 7" "Fixnum 2" 2 "\<lambda>_ _. Other ()" "\<lambda>_ _. Other ()"
      "\<lambda>_ _. Inl TypeError" "\<lambda>_ _. None" "\<lambda>_ _. Other ()" "\<lambda>_ _. (Other (), Other ())" "\<lambda>_ _. None"]
  by (simp add: FIXABLE_iff) blast

text \<open>
  C31. The shifts of a Fixnum: a count in the range of \<^verbatim>\<open>int\<close> multiplies by a power of two or divides by
  it, rounding down, and either shift with a negative count is the other one; a left shift by more
  raises a range error, a right shift by more does not. The smallest Fixnum as a count makes the two
  shifts call each other for ever.
\<close>

theorem fix_shift_exact_or_loops:
  assumes "FIXABLE (sint x)"
  shows "if - (2 ^ 62) < sint w
         then shift_result (sint x) (sint w) (fix_lshift conv x (Fixnum w :: ('f, 'o) VALUE)) \<and>
              shift_result (sint x) (- sint w) (fix_rshift conv x (Fixnum w :: ('f, 'o) VALUE))
         else sint w = - (2 ^ 62) \<longrightarrow>
              fix_lshift conv x (Fixnum w :: ('f, 'o) VALUE) = None \<and> fix_rshift conv x (Fixnum w :: ('f, 'o) VALUE) = None"
  using fix_shift_any [OF assms, of w True conv] fix_shift_any [OF assms, of w False conv]
    fix_shift_diverges [OF _ refl, of w conv _ x]
  by (simp add: fix_lshift_def fix_rshift_def)

theorem fix_shift_exact_or_loops_witness:
  "shift_result (- 3) 40 (fix_lshift (\<lambda>_. Inl TypeError) (- 3) (Fixnum 40 :: (unit, unit) VALUE))"
  using fix_shift_exact_or_loops [of "- 3" 40 "\<lambda>_ :: (unit, unit) VALUE. Inl TypeError"]
  by (simp add: FIXABLE_iff)

lemma sint_NOT: "sint (NOT x) = NOT (sint (x :: u64))"
proof -
  have "sint (word_of_int (NOT (sint x)) :: u64) = NOT (sint x)"
    using sint_ge [of x] sint_lt [of x] by (intro sint_word_of_int) (auto simp: not_eq_complement)
  moreover have "word_of_int (NOT (sint x)) = NOT x" by (simp add: not_eq_complement)
  ultimately show ?thesis by simp
qed

text \<open>
  C32. The bit operators of a Fixnum with any integer, Fixnum or big, are those of the infinite two's
  complement, and so is the reading of a bit at any integer position.
\<close>

theorem fixnum_bit_operators:
  assumes "FIXABLE (sint x)" "is_int (y :: ('f, 'o) VALUE) b"
  shows "(\<exists>r. fix_and conv x y = Inr r \<and> is_int r (sint x AND b)) \<and>
         (\<exists>r. fix_or conv x y = Inr r \<and> is_int r (sint x OR b)) \<and>
         is_int (fix_rev x :: ('f, 'o) VALUE) (NOT (sint x)) \<and>
         fix_aref conv x y = Inr (Fixnum (if 0 \<le> b \<and> bit (sint x) (nat b) then 1 else 0))"
  using fix_bits_exact [OF assms, of conv] fix_aref_bit [OF assms(2), of conv x]
  by (simp add: fix_rev_def sint_NOT)

theorem fixnum_bit_operators_witness:
  "\<exists>r. fix_and (\<lambda>_. Inl TypeError) (- 4) (Fixnum 7 :: (unit, unit) VALUE) = Inr r \<and> is_int r 4"
  using fixnum_bit_operators [of "- 4" "Fixnum 7 :: (unit, unit) VALUE" 7 "\<lambda>_. Inl TypeError"]
  by (simp add: FIXABLE_iff)

end
