(* ===== verification/Comparable.thy ===== *)
theory Comparable
  imports Numeric_Fix
begin

text \<open>
  The mix-in of \<^verbatim>\<open>src/ruby/compar.c\<close>, which gives the comparison operators to every class with \<^verbatim>\<open><=>\<close>, big numbers
  among them, and the counting loops of integers that run on these operators.
\<close>

section \<open>The comparison operators\<close>

text \<open>
  \<^verbatim>\<open>cmp\<close> is the call of \<^verbatim>\<open><=>\<close>. A result that is neither a Fixnum nor a big number, such as nil, makes every
  operator false; a Fixnum outside \<^verbatim>\<open>int\<close> is refused by \<^verbatim>\<open>FIX2INT\<close>.
\<close>

definition cmp_equal :: "(('f, 'o) VALUE \<Rightarrow> ('f, 'o) VALUE \<Rightarrow> rb_error + ('f, 'o) VALUE) \<Rightarrow>
  ('f, 'o) VALUE \<Rightarrow> ('f, 'o) VALUE \<Rightarrow> rb_error + bool" where
  "cmp_equal cmp x y =
     bindR (cmp x y) (\<lambda>c.
       if c = LONG2FIX 0 then Inr True
       else (case c of Bignum _ \<Rightarrow> Inr (rb_big_norm c = LONG2FIX 0) | _ \<Rightarrow> Inr False))"

definition cmp_gt :: "(('f, 'o) VALUE \<Rightarrow> ('f, 'o) VALUE \<Rightarrow> rb_error + ('f, 'o) VALUE) \<Rightarrow>
  ('f, 'o) VALUE \<Rightarrow> ('f, 'o) VALUE \<Rightarrow> rb_error + bool" where
  "cmp_gt cmp x y =
     bindR (cmp x y) (\<lambda>c.
       case c of
         Fixnum n \<Rightarrow> bindR (rb_fix2int n) (\<lambda>i. Inr (i > 0))
       | Bignum b \<Rightarrow> if rb_big_norm x = LONG2FIX 0 then Inr False else Inr (bsign b)
       | _ \<Rightarrow> Inr False)"

definition cmp_ge :: "(('f, 'o) VALUE \<Rightarrow> ('f, 'o) VALUE \<Rightarrow> rb_error + ('f, 'o) VALUE) \<Rightarrow>
  ('f, 'o) VALUE \<Rightarrow> ('f, 'o) VALUE \<Rightarrow> rb_error + bool" where
  "cmp_ge cmp x y =
     bindR (cmp x y) (\<lambda>c.
       case c of
         Fixnum n \<Rightarrow> bindR (rb_fix2int n) (\<lambda>i. Inr (i \<ge> 0))
       | Bignum b \<Rightarrow> if rb_big_norm x = LONG2FIX 0 then Inr True else Inr (bsign b)
       | _ \<Rightarrow> Inr False)"

definition cmp_lt :: "(('f, 'o) VALUE \<Rightarrow> ('f, 'o) VALUE \<Rightarrow> rb_error + ('f, 'o) VALUE) \<Rightarrow>
  ('f, 'o) VALUE \<Rightarrow> ('f, 'o) VALUE \<Rightarrow> rb_error + bool" where
  "cmp_lt cmp x y =
     bindR (cmp x y) (\<lambda>c.
       case c of
         Fixnum n \<Rightarrow> bindR (rb_fix2int n) (\<lambda>i. Inr (i < 0))
       | Bignum b \<Rightarrow> if rb_big_norm x = LONG2FIX 0 then Inr False else Inr (\<not> bsign b)
       | _ \<Rightarrow> Inr False)"

definition cmp_le :: "(('f, 'o) VALUE \<Rightarrow> ('f, 'o) VALUE \<Rightarrow> rb_error + ('f, 'o) VALUE) \<Rightarrow>
  ('f, 'o) VALUE \<Rightarrow> ('f, 'o) VALUE \<Rightarrow> rb_error + bool" where
  "cmp_le cmp x y =
     bindR (cmp x y) (\<lambda>c.
       case c of
         Fixnum n \<Rightarrow> bindR (rb_fix2int n) (\<lambda>i. Inr (i \<le> 0))
       | Bignum b \<Rightarrow> if rb_big_norm x = LONG2FIX 0 then Inr True else Inr (\<not> bsign b)
       | _ \<Rightarrow> Inr False)"

definition cmp_between :: "(('f, 'o) VALUE \<Rightarrow> ('f, 'o) VALUE \<Rightarrow> rb_error + ('f, 'o) VALUE) \<Rightarrow>
  ('f, 'o) VALUE \<Rightarrow> ('f, 'o) VALUE \<Rightarrow> ('f, 'o) VALUE \<Rightarrow> rb_error + bool" where
  "cmp_between cmp x lo hi =
     bindR (cmp_lt cmp x lo) (\<lambda>lt. if lt then Inr False
       else bindR (cmp_gt cmp x hi) (\<lambda>gt. Inr (\<not> gt)))"

section \<open>The operators of integers\<close>

text \<open>
  Fixnums have comparison methods of their own, big numbers have \<^verbatim>\<open><=>\<close> and inherit the others. \<^verbatim>\<open>dc\<close> and \<^verbatim>\<open>bnc\<close> are the
  branches of \<^verbatim>\<open>rb_big_cmp\<close> for floats and other objects, \<^verbatim>\<open>other_cmp\<close> and \<^verbatim>\<open>other\<close> the methods of other classes.
\<close>

definition INT2FIX :: "int \<Rightarrow> rb_error + ('f, 'o) VALUE" where
  "INT2FIX i = Inr (LONG2FIX (word_of_int i))"

definition integer_cmp where
  "integer_cmp dc bnc = integer_binop Inl (\<lambda>nc. fix_cmp nc INT2FIX) (rb_big_cmp dc bnc INT2FIX)"

definition integer_gt where
  "integer_gt dc bnc other_cmp coerce other =
     integer_binop Inl (\<lambda>nc. fix_gt nc Inr) (\<lambda>p. cmp_gt (integer_cmp dc bnc coerce other_cmp) (Bignum p)) coerce other"

definition integer_lt where
  "integer_lt dc bnc other_cmp coerce other =
     integer_binop Inl (\<lambda>nc. fix_lt nc Inr) (\<lambda>p. cmp_lt (integer_cmp dc bnc coerce other_cmp) (Bignum p)) coerce other"

lemma big_cmp_int:
  assumes "big_ok p" "is_int y b"
  shows "rb_big_cmp dc bnc i2f p y = i2f (sgn (big_val p - b))"
  using assms(2)
proof (cases rule: is_int_cases)
  case (Fix n)
  then show ?thesis using rb_big_cmp_big [OF assms(1), of "rb_int2big n" y dc bnc i2f] by (simp add: to_big_def)
next
  case (Big q)
  then show ?thesis using rb_big_cmp_big [OF assms(1), of q y dc bnc i2f] by (simp add: to_big_def)
qed

text \<open>\<^verbatim>\<open><=>\<close> of two integers is the sign of their difference, in every combination of representations.\<close>

lemma integer_cmp_sgn:
  assumes "is_int x a" "is_int y b"
  shows "integer_cmp dc bnc coerce other x y = INT2FIX (sgn (a - b))"
  using assms
proof (cases rule: integer_binop_cases [where raise = Inl and fix_op = "\<lambda>nc. fix_cmp nc INT2FIX"
      and big_op = "rb_big_cmp dc bnc INT2FIX" and coerce = coerce and other = other])
  case (Fix n m)
  then show ?thesis by (simp add: integer_cmp_def fix_cmp_def)
next
  case (Mixed n q)
  with big_cmp_int [of "rb_int2big n" y b dc bnc INT2FIX] assms(2) show ?thesis by (simp add: integer_cmp_def fix_cmp_def)
next
  case (BigFix p m)
  with big_cmp_int [of p y b dc bnc INT2FIX] assms(2) show ?thesis by (simp add: integer_cmp_def)
next
  case (Big p q)
  with big_cmp_int [of p y b dc bnc INT2FIX] assms(2) show ?thesis by (simp add: integer_cmp_def)
qed

text \<open>
  The operators that big numbers inherit, also on the unnormalised big numbers that coercion makes of Fixnums.
\<close>

lemma big_compares:
  fixes dc bnc coerce other
  assumes "big_ok p" "is_int y b"
  defines "cmp \<equiv> integer_cmp dc bnc coerce other"
  shows "cmp_gt cmp (Bignum p) y = Inr (b < big_val p)" "cmp_lt cmp (Bignum p) y = Inr (big_val p < b)"
    "cmp_ge cmp (Bignum p) y = Inr (b \<le> big_val p)" "cmp_le cmp (Bignum p) y = Inr (big_val p \<le> b)"
    "cmp_equal cmp (Bignum p) y = Inr (big_val p = b)"
proof -
  have c: "cmp (Bignum p) y = Inr (LONG2FIX (word_of_int (sgn (big_val p - b))))"
    using big_cmp_int [OF assms(1,2), of dc bnc INT2FIX] by (simp add: cmp_def integer_cmp_def integer_binop_def integer_op_def INT2FIX_def)
  have s: "sgn (big_val p - b) = 1 \<or> sgn (big_val p - b) = 0 \<or> sgn (big_val p - b) = - 1" by (auto simp: sgn_if)
  have f: "LONG2FIX (word_of_int z) = Fixnum (word_of_int z :: u64)" "rb_fix2int (word_of_int z) = Inr z" if "z = 1 \<or> z = 0 \<or> z = - 1" for z
    using that by (auto simp: LONG2FIX_id FIXABLE_iff rb_fix2int_def)
  note r = c [unfolded f(1) [OF s]] f(2) [OF s]
  show "cmp_gt cmp (Bignum p) y = Inr (b < big_val p)" "cmp_lt cmp (Bignum p) y = Inr (big_val p < b)"
    "cmp_ge cmp (Bignum p) y = Inr (b \<le> big_val p)" "cmp_le cmp (Bignum p) y = Inr (big_val p \<le> b)"
    by (simp_all add: cmp_gt_def cmp_lt_def cmp_ge_def cmp_le_def r) (auto simp: sgn_if)
  show "cmp_equal cmp (Bignum p) y = Inr (big_val p = b)"
    using s by (auto simp: cmp_equal_def c sgn_if LONG2FIX_id FIXABLE_iff split: if_splits)
qed

lemma integer_order:
  assumes "is_int x a" "is_int y b"
  shows "integer_gt dc bnc oc coerce other x y = Inr (b < a)" "integer_lt dc bnc oc coerce other x y = Inr (a < b)"
proof -
  note big = big_compares(1,2) [where dc = dc and bnc = bnc and coerce = coerce and other = oc]
  from assms show "integer_gt dc bnc oc coerce other x y = Inr (b < a)"
  proof (cases rule: integer_binop_cases [where raise = Inl and fix_op = "\<lambda>nc. fix_gt nc Inr" and coerce = coerce
        and big_op = "\<lambda>p. cmp_gt (integer_cmp dc bnc coerce oc) (Bignum p)" and other = other])
    case (Mixed n q)
    then show ?thesis using big [of "rb_int2big n" y b] assms(2) by (simp add: integer_gt_def fix_gt_def)
  next
    case (BigFix p m)
    then show ?thesis using big [of p y b] assms(2) by (simp add: integer_gt_def)
  next
    case (Big p q)
    then show ?thesis using big [of p y b] assms(2) by (simp add: integer_gt_def)
  qed (simp add: integer_gt_def fix_gt_def)
  from assms show "integer_lt dc bnc oc coerce other x y = Inr (a < b)"
  proof (cases rule: integer_binop_cases [where raise = Inl and fix_op = "\<lambda>nc. fix_lt nc Inr" and coerce = coerce
        and big_op = "\<lambda>p. cmp_lt (integer_cmp dc bnc coerce oc) (Bignum p)" and other = other])
    case (Mixed n q)
    then show ?thesis using big [of "rb_int2big n" y b] assms(2) by (simp add: integer_lt_def fix_lt_def)
  next
    case (BigFix p m)
    then show ?thesis using big [of p y b] assms(2) by (simp add: integer_lt_def)
  next
    case (Big p q)
    then show ?thesis using big [of p y b] assms(2) by (simp add: integer_lt_def)
  qed (simp add: integer_lt_def fix_lt_def)
qed

section \<open>Counting loops\<close>

text \<open>The loop of calls, for a step that adds and a test that compares.\<close>

lemma call_loop_rounds:
  assumes d: "diff \<noteq> 0"
    and nx: "\<And>i z. is_int i z \<Longrightarrow> \<exists>r. nxt i = Inr r \<and> is_int r (z + diff)"
    and stop: "\<And>i z. is_int i z \<Longrightarrow> stop i = Inr (if diff > 0 then b < z else z < b)"
  shows "is_int from a \<Longrightarrow> \<exists>vs. call_loop stop nxt yield from st = Some (Inr (fold yield vs st)) \<and>
    list_all2 is_int vs (map (\<lambda>k. a + int k * diff) [0..<rounds diff a b])"
proof (induction "rounds diff a b" arbitrary: "from" a st)
  case 0
  then have "\<not> (if diff > 0 then a \<le> b else a \<ge> b)" using rounds_step(1) [OF d, of a b] by simp
  with 0 stop [OF 0(2)] show ?case by (subst call_loop.simps) (simp split: if_splits)
next
  case (Suc n)
  then have go: "(if diff > 0 then a \<le> b else a \<ge> b)" "n = rounds diff (a + diff) b"
    using rounds_step [OF d, of a b] by simp_all
  obtain r where r: "nxt from = Inr r" "is_int r (a + diff)" using nx [OF Suc(3)] by blast
  from Suc(1) [OF go(2) r(2), of "yield from st"] obtain vs where vs:
    "call_loop stop nxt yield r (yield from st) = Some (Inr (fold yield vs (yield from st)))"
    "list_all2 is_int vs (map (\<lambda>k. a + diff + int k * diff) [0..<n])" using go(2) by auto
  have "call_loop stop nxt yield from st = Some (Inr (fold yield (from # vs) st))"
    using vs(1) r(1) stop [OF Suc(3)] go(1) by (subst call_loop.simps) (simp split: if_splits)
  moreover have "map (\<lambda>k. a + int k * diff) [0..<Suc n] = a # map (\<lambda>k. a + diff + int k * diff) [0..<n]"
    by (simp add: map_upt_Suc algebra_simps del: upt_Suc)
  ultimately show ?case using vs(2) Suc(2,3) by (intro exI [of _ "from # vs"]) (simp del: upt_Suc)
qed

lemma downto_rounds: "map (\<lambda>k. a + int k * - 1) [0..<rounds (- 1) a b] = rev [b..a]"
  by (auto simp: rounds_def list_eq_iff_nth_eq rev_nth)

lemma loops_fixnums:
  fixes x y :: "('f, 'o) VALUE"
  assumes "is_int x a" "is_int y b" "diff \<noteq> 0" "x = Fixnum m" "y = Fixnum n"
  shows "\<exists>vs. step_loop yield diff (sint m) (sint n) st = Some (fold yield vs st) \<and>
    list_all2 is_int (vs :: ('f, 'o) VALUE list) (map (\<lambda>k. a + int k * diff) [0..<rounds diff a b])"
  using step_loop_fixnums [OF assms(3), of a b yield st] assms(1,2,4,5) by auto

text \<open>Each loop is the loop between Fixnums or the loop of calls.\<close>

lemma loop_or_calls:
  fixes x y :: "('f, 'o) VALUE"
  assumes "is_int x a" "is_int y b" "diff \<noteq> 0"
    and "\<And>m n. x = Fixnum m \<Longrightarrow> y = Fixnum n \<Longrightarrow> fixed \<Longrightarrow> res = map_option Inr (step_loop yield diff (sint m) (sint n) st)"
    and "\<not> (fixed \<and> (\<exists>m n. x = Fixnum m \<and> y = Fixnum n)) \<Longrightarrow> res = call_loop stop nxt yield x st"
    and "\<And>i z. is_int i z \<Longrightarrow> \<exists>r. nxt i = Inr r \<and> is_int r (z + diff)"
    and "\<And>i z. is_int i z \<Longrightarrow> stop i = Inr (if diff > 0 then b < z else z < b)"
  shows "\<exists>vs. res = Some (Inr (fold yield vs st)) \<and>
    list_all2 is_int (vs :: ('f, 'o) VALUE list) (map (\<lambda>k. a + int k * diff) [0..<rounds diff a b])"
proof (cases "fixed \<and> (\<exists>m n. x = Fixnum m \<and> y = Fixnum n)")
  case True
  then obtain m n where "x = Fixnum m" "y = Fixnum n" by blast
  with loops_fixnums [OF assms(1-3) this, of yield st] assms(4) True show ?thesis by auto
next
  case False
  with call_loop_rounds [OF assms(3,6,7,1), where yield = yield and st = st] assms(5) show ?thesis by simp
qed

section \<open>Properties\<close>

text \<open>
  C33. \<^verbatim>\<open>upto\<close>, \<^verbatim>\<open>downto\<close> and \<^verbatim>\<open>step\<close> between any two integers, Fixnum or big, end. \<^verbatim>\<open>upto\<close> and \<^verbatim>\<open>downto\<close> call the block once
  for each integer from the first to the last, in order; \<^verbatim>\<open>step\<close> with a step that is not zero calls it on the first
  integer and those that lie a multiple of the step further, up to the last.
\<close>

theorem integer_loops_end:
  fixes x y s :: "('f, 'o) VALUE"
  assumes "is_int x a" "is_int y b" "is_int s diff" "diff \<noteq> 0"
  shows "(\<exists>vs. int_upto (integer_gt dc bnc oc coerce ot) (integer_plus flo fp pnc coerce other) yield x y st =
                 Some (Inr (fold yield vs st)) \<and>
               list_all2 is_int vs [a..b]) \<and>
         (\<exists>vs. int_downto (integer_lt dc bnc oc coerce ot) (integer_minus flo fp pnc coerce other) yield x y st =
                 Some (Inr (fold yield vs st)) \<and>
               list_all2 is_int vs (rev [b..a])) \<and>
         (\<exists>vs. num_step (\<lambda>u v. u = v) fs (integer_gt dc bnc oc coerce ot) (integer_lt dc bnc oc coerce ot)
                 (integer_plus flo fp pnc coerce other) yield x y (Some s) st =
                 Some (Inr (fold yield vs st)) \<and>
               list_all2 is_int vs (map (\<lambda>k. a + int k * diff) [0..<rounds diff a b]))"
proof (intro conjI)
  have one: "is_int (LONG2FIX 1 :: ('f, 'o) VALUE) 1" "is_int (LONG2FIX 0 :: ('f, 'o) VALUE) 0"
    using is_int_word [of 1] is_int_word [of 0] by (simp_all add: FIXABLE_iff)
  note order = integer_order [OF _ assms(2)]
  have add: "\<exists>r. integer_plus flo fp pnc coerce other i v = Inr r \<and> is_int r (z + w)"
    and sub: "\<exists>r. integer_minus flo fp pnc coerce other i v = Inr r \<and> is_int r (z - w)"
    if "is_int i z" "is_int v w" for i v z w
    using int_add.exact [OF that] int_sub.exact [OF that] by (simp_all add: integer_plus_def integer_minus_def)
  have "\<exists>vs. int_upto (integer_gt dc bnc oc coerce ot) (integer_plus flo fp pnc coerce other) yield x y st =
      Some (Inr (fold yield vs st)) \<and> list_all2 is_int vs (map (\<lambda>k. a + int k * 1) [0..<rounds 1 a b])"
    by (rule loop_or_calls [OF assms(1,2), where fixed = True and stop = "\<lambda>i. integer_gt dc bnc oc coerce ot i y"
        and nxt = "\<lambda>i. integer_plus flo fp pnc coerce other i (LONG2FIX 1)"])
      (auto simp: int_upto_def order intro: add one(1) split: VALUE.splits)
  then show "\<exists>vs. int_upto (integer_gt dc bnc oc coerce ot) (integer_plus flo fp pnc coerce other) yield x y st =
      Some (Inr (fold yield vs st)) \<and> list_all2 is_int vs [a..b]" unfolding upto_rounds .
  have "\<exists>vs. int_downto (integer_lt dc bnc oc coerce ot) (integer_minus flo fp pnc coerce other) yield x y st =
      Some (Inr (fold yield vs st)) \<and> list_all2 is_int vs (map (\<lambda>k. a + int k * - 1) [0..<rounds (- 1) a b])"
    by (rule loop_or_calls [OF assms(1,2), where fixed = True and stop = "\<lambda>i. integer_lt dc bnc oc coerce ot i y"
        and nxt = "\<lambda>i. integer_minus flo fp pnc coerce other i (LONG2FIX 1)"])
      (use sub [OF _ one(1)] in \<open>auto simp: int_downto_def order split: VALUE.splits\<close>)
  then show "\<exists>vs. int_downto (integer_lt dc bnc oc coerce ot) (integer_minus flo fp pnc coerce other) yield x y st =
      Some (Inr (fold yield vs st)) \<and> list_all2 is_int vs (rev [b..a])" unfolding downto_rounds .
  have nz: "s \<noteq> LONG2FIX 0" using assms(3,4) one(2) by (auto simp: is_int_def)
  note up = integer_order(1) [OF assms(3) one(2)]
  have fl: "\<forall>f. x \<noteq> Float f \<and> y \<noteq> Float f \<and> s \<noteq> Float f" using assms(1-3) by (auto simp: is_int_def)
  have ob: "\<forall>f. x \<noteq> Other f \<and> y \<noteq> Other f \<and> s \<noteq> Other f" using assms(1-3) by (auto simp: is_int_def)
  show "\<exists>vs. num_step (\<lambda>u v. u = v) fs (integer_gt dc bnc oc coerce ot) (integer_lt dc bnc oc coerce ot)
      (integer_plus flo fp pnc coerce other) yield x y (Some s) st = Some (Inr (fold yield vs st)) \<and>
      list_all2 is_int vs (map (\<lambda>k. a + int k * diff) [0..<rounds diff a b])"
  proof (rule loop_or_calls [OF assms(1,2,4), where fixed = "\<exists>n. s = Fixnum n" and nxt = "\<lambda>i. integer_plus flo fp pnc coerce other i s"
      and stop = "\<lambda>i. (if diff > 0 then integer_gt dc bnc oc coerce ot else integer_lt dc bnc oc coerce ot) i y"])
    show "num_step (\<lambda>u v. u = v) fs (integer_gt dc bnc oc coerce ot) (integer_lt dc bnc oc coerce ot)
      (integer_plus flo fp pnc coerce other) yield x y (Some s) st = map_option Inr (step_loop yield diff (sint m) (sint n) st)"
      if "x = Fixnum m" "y = Fixnum n" "\<exists>n. s = Fixnum n" for m n
      using that assms(3) nz by (auto simp: num_step_def)
    show "num_step (\<lambda>u v. u = v) fs (integer_gt dc bnc oc coerce ot) (integer_lt dc bnc oc coerce ot)
      (integer_plus flo fp pnc coerce other) yield x y (Some s) st =
      call_loop (\<lambda>i. (if diff > 0 then integer_gt dc bnc oc coerce ot else integer_lt dc bnc oc coerce ot) i y)
        (\<lambda>i. integer_plus flo fp pnc coerce other i s) yield x st"
      if "\<not> ((\<exists>n. s = Fixnum n) \<and> (\<exists>m n. x = Fixnum m \<and> y = Fixnum n))"
      using that nz fl ob up [of dc bnc oc coerce ot] by (cases x; cases y; cases s) (simp_all add: num_step_def)
  qed (use add [OF _ assms(3)] in \<open>auto simp: order\<close>)
qed

theorem integer_loops_end_witness:
  "\<exists>vs :: (unit, unit) VALUE list. num_step (\<lambda>u v. u = v) (\<lambda>_ _ _ _. None)
      (integer_gt (\<lambda>_ _. Inl TypeError) (\<lambda>_ _. Inl TypeError) (\<lambda>_ _. Inl TypeError) (\<lambda>_ _. Inl TypeError) (\<lambda>_ _. Inl TypeError))
      (integer_lt (\<lambda>_ _. Inl TypeError) (\<lambda>_ _. Inl TypeError) (\<lambda>_ _. Inl TypeError) (\<lambda>_ _. Inl TypeError) (\<lambda>_ _. Inl TypeError))
      (integer_plus (\<lambda>_ _. Inl TypeError) (\<lambda>_ _. Other ()) (\<lambda>_ _. Other ()) (\<lambda>_ _. Inl TypeError) (\<lambda>_ _. Inl TypeError))
      (\<lambda>v n. n + 1) (Fixnum 1) (Fixnum 10) (Some (Fixnum 4 :: (unit, unit) VALUE)) (0 :: nat) =
    Some (Inr (fold (\<lambda>v n. n + 1) vs 0)) \<and> list_all2 is_int vs [1, 5, 9]"
proof -
  have i: "is_int (Fixnum 1 :: (unit, unit) VALUE) 1" "is_int (Fixnum 10 :: (unit, unit) VALUE) 10" "is_int (Fixnum 4 :: (unit, unit) VALUE) 4"
    by (simp_all add: FIXABLE_iff)
  have "map (\<lambda>k. 1 + int k * 4) [0..<rounds 4 1 10] = [1, 5, 9]" by (simp add: rounds_def upt_rec)
  with conjunct2 [OF conjunct2 [OF integer_loops_end [OF i]]] show ?thesis by simp
qed

end
