(* ===== verification/Hash_Object.thy ===== *)
theory Hash_Object
  imports Hash_Keys
begin

text \<open>
  The class Hash of \<^verbatim>\<open>src/ruby/hash.c\<close>, over the tables of \<^verbatim>\<open>St_Table\<close> with the keys of \<^verbatim>\<open>Hash_Keys\<close>: the
  object with its default, its iteration level and its flags, and the operations on it. A hash may be
  changed by the block of an iteration over it: deletions then only mark entries, and the end of the
  outermost iteration unlinks them.

  Keys and values are of type \<^verbatim>\<open>prim rval\<close>. Arrays that an operation returns are lists, two-element
  arrays are pairs.
\<close>

section \<open>Definitions\<close>

type_synonym val = "prim rval"

record rhash =
  rh_tbl :: "(val, val) st_table option"
  iter_lev :: int
  ifnone :: val
  hash_deleted :: bool
  hash_proc_default :: bool
  rh_frozen :: bool
  rh_tainted :: bool

text \<open>Every access to the table goes through the pointer \<^verbatim>\<open>tbl\<close>.\<close>

definition with_tbl :: "rhash \<Rightarrow> ((val, val) st_table \<Rightarrow> rb_error + 'r) \<Rightarrow> rb_error + 'r" where
  "with_tbl h f = (case rh_tbl h of None \<Rightarrow> Inl OutOfBounds | Some t \<Rightarrow> f t)"

definition rb_hash_modify :: "int \<Rightarrow> rhash \<Rightarrow> rb_error + unit" where
  "rb_hash_modify safe hash =
     (if rh_tbl hash = None then Inl TypeError
      else if rh_frozen hash then Inl FrozenError
      else if \<not> rh_tainted hash \<and> safe \<ge> 4 then Inl SecurityError
      else Inr ())"

definition rb_hash_freeze :: "rhash \<Rightarrow> rhash" where
  "rb_hash_freeze hash = hash\<lparr>rh_frozen := True\<rparr>"

text \<open>\<^verbatim>\<open>OBJSETUP\<close> taints what is made at a safe level from 3 on.\<close>

definition rb_hash_s_alloc :: "int \<Rightarrow> val st_hash_type \<Rightarrow> rb_error + rhash" where
  "rb_hash_s_alloc safe ty =
     bindR (st_init_table ty) (\<lambda>t.
       Inr \<lparr>rh_tbl = Some t, iter_lev = 0, ifnone = Qnil, hash_deleted = False, hash_proc_default = False,
            rh_frozen = False, rh_tainted = safe \<ge> 3\<rparr>)"

definition rb_hash_new :: "int \<Rightarrow> val st_hash_type \<Rightarrow> rb_error + rhash" where
  "rb_hash_new safe ty = rb_hash_s_alloc safe ty"

text \<open>\<^verbatim>\<open>blk\<close> is the object that \<^verbatim>\<open>rb_f_lambda\<close> makes of a given block.\<close>

definition rb_hash_initialize :: "int \<Rightarrow> val option \<Rightarrow> val list \<Rightarrow> rhash \<Rightarrow> rb_error + rhash" where
  "rb_hash_initialize safe blk argv hash =
     bindR (rb_hash_modify safe hash) (\<lambda>_.
       case blk of
         Some p \<Rightarrow>
           if argv \<noteq> [] then Inl ArgError
           else Inr (hash\<lparr>ifnone := p, hash_proc_default := True\<rparr>)
       | None \<Rightarrow>
           (case argv of
              [] \<Rightarrow> Inr (hash\<lparr>ifnone := Qnil\<rparr>)
            | [v] \<Rightarrow> Inr (hash\<lparr>ifnone := v\<rparr>)
            | _ \<Rightarrow> Inl ArgError))"

definition rb_hash_aset :: "int \<Rightarrow> rhash \<Rightarrow> val \<Rightarrow> val \<Rightarrow> rb_error + rhash" where
  "rb_hash_aset safe hash key val =
     bindR (rb_hash_modify safe hash) (\<lambda>_.
       with_tbl hash (\<lambda>t. bindR (hash_store t key val) (\<lambda>t. Inr (hash\<lparr>rh_tbl := Some t\<rparr>))))"

fun aset_pairs :: "int \<Rightarrow> rhash \<Rightarrow> val list \<Rightarrow> rb_error + rhash" where
  "aset_pairs safe hash (k # v # argv) = bindR (rb_hash_aset safe hash k v) (\<lambda>hash. aset_pairs safe hash argv)"
| "aset_pairs safe hash _ = Inr hash"

text \<open>\<^verbatim>\<open>Hash[...]\<close>: with one hash as argument, or with keys and values in turn.\<close>

definition rb_hash_s_create :: "int \<Rightarrow> val st_hash_type \<Rightarrow> rhash + val list \<Rightarrow> rb_error + rhash" where
  "rb_hash_s_create safe ty arg =
     (case arg of
        Inl orig \<Rightarrow>
          bindR (rb_hash_s_alloc safe ty) (\<lambda>hash.
            with_tbl orig (\<lambda>t. Inr (hash\<lparr>ifnone := Qnil, rh_tbl := Some (st_copy t)\<rparr>)))
      | Inr argv \<Rightarrow>
          if length argv mod 2 \<noteq> 0 then Inl ArgError
          else bindR (rb_hash_s_alloc safe ty) (\<lambda>hash. aset_pairs safe hash argv))"

text \<open>
  A callback of \<^verbatim>\<open>st_foreach\<close> that can raise ends the iteration; its state is then the error.
\<close>

definition raising :: "(val \<Rightarrow> val \<Rightarrow> 's \<Rightarrow> rb_error + st_retval \<times> 's) \<Rightarrow> val \<Rightarrow> val \<Rightarrow> rb_error + 's \<Rightarrow> st_retval \<times> (rb_error + 's)" where
  "raising func key value arg =
     (case arg of
        Inl e \<Rightarrow> (ST_STOP, Inl e)
      | Inr s \<Rightarrow> (case func key value s of Inl e \<Rightarrow> (ST_STOP, Inl e) | Inr (r, s) \<Rightarrow> (r, Inr s)))"

definition rb_hash_rehash_i :: "val \<Rightarrow> val \<Rightarrow> (val, val) st_table \<Rightarrow> rb_error + st_retval \<times> (val, val) st_table" where
  "rb_hash_rehash_i key value tbl =
     (if key \<noteq> Qundef then bindR (st_insert tbl key value) (\<lambda>(_, tbl). Inr (ST_CONTINUE, tbl))
      else Inr (ST_CONTINUE, tbl))"

definition rb_hash_rehash :: "int \<Rightarrow> val st_hash_type \<Rightarrow> rhash \<Rightarrow> rb_error + rhash" where
  "rb_hash_rehash safe ty hash =
     bindR (rb_hash_modify safe hash) (\<lambda>_.
       with_tbl hash (\<lambda>old.
         bindR (st_init_table_with_size ty (num_entries old)) (\<lambda>tbl.
           bindR (snd (st_foreach old (raising rb_hash_rehash_i) (Inr tbl))) (\<lambda>tbl.
             Inr (hash\<lparr>rh_tbl := Some tbl\<rparr>)))))"

text \<open>
  \<^verbatim>\<open>call\<close> is the call of a default procedure with the hash and a key; it may change the hash.
\<close>

definition rb_hash_default :: "(val \<Rightarrow> rhash \<Rightarrow> val \<Rightarrow> rb_error + val \<times> rhash) \<Rightarrow> rhash \<Rightarrow> val list \<Rightarrow> rb_error + val \<times> rhash" where
  "rb_hash_default call hash argv =
     (if length argv > 1 then Inl ArgError
      else let key = (case argv of [] \<Rightarrow> Qnil | k # _ \<Rightarrow> k)
           in if hash_proc_default hash then call (ifnone hash) hash key else Inr (ifnone hash, hash))"

text \<open>\<^verbatim>\<open>default_m\<close> is the method \<^verbatim>\<open>default\<close>, which is \<^verbatim>\<open>rb_hash_default\<close> unless a subclass redefines it.\<close>

definition rb_hash_aref :: "(rhash \<Rightarrow> val list \<Rightarrow> rb_error + val \<times> rhash) \<Rightarrow> rhash \<Rightarrow> val \<Rightarrow> rb_error + val \<times> rhash" where
  "rb_hash_aref default_m hash key =
     with_tbl hash (\<lambda>t.
       case st_lookup t key of
         None \<Rightarrow> default_m hash [key]
       | Some val \<Rightarrow> Inr (val, hash))"

definition rb_hash_fetch :: "(val \<Rightarrow> rb_error + val) option \<Rightarrow> val list \<Rightarrow> rhash \<Rightarrow> rb_error + val" where
  "rb_hash_fetch blk argv hash =
     (if length argv \<noteq> 1 \<and> length argv \<noteq> 2 then Inl ArgError
      else with_tbl hash (\<lambda>t.
        case st_lookup t (argv ! 0) of
          None \<Rightarrow>
            (case blk of
               Some b \<Rightarrow> if length argv > 1 then Inl ArgError else b (argv ! 0)
             | None \<Rightarrow> if length argv = 1 then Inl IndexError else Inr (argv ! 1))
        | Some val \<Rightarrow> Inr val))"

definition rb_hash_set_default :: "int \<Rightarrow> rhash \<Rightarrow> val \<Rightarrow> rb_error + rhash" where
  "rb_hash_set_default safe hash v =
     bindR (rb_hash_modify safe hash) (\<lambda>_. Inr (hash\<lparr>ifnone := v, hash_proc_default := False\<rparr>))"

definition rb_hash_default_proc :: "rhash \<Rightarrow> val" where
  "rb_hash_default_proc hash = (if hash_proc_default hash then ifnone hash else Qnil)"

definition index_i :: "(val \<Rightarrow> val \<Rightarrow> bool) \<Rightarrow> val \<Rightarrow> val \<Rightarrow> val \<Rightarrow> val \<Rightarrow> st_retval \<times> val" where
  "index_i rb_equal wanted key value found =
     (if rb_equal value wanted then (ST_STOP, key) else (ST_CONTINUE, found))"

definition rb_hash_index :: "(val \<Rightarrow> val \<Rightarrow> bool) \<Rightarrow> rhash \<Rightarrow> val \<Rightarrow> rb_error + val" where
  "rb_hash_index rb_equal hash value =
     with_tbl hash (\<lambda>t. Inr (snd (st_foreach t (index_i rb_equal value) Qnil)))"

fun rb_hash_indexes :: "(rhash \<Rightarrow> val list \<Rightarrow> rb_error + val \<times> rhash) \<Rightarrow> rhash \<Rightarrow> val list \<Rightarrow> rb_error + val list \<times> rhash" where
  "rb_hash_indexes default_m hash [] = Inr ([], hash)"
| "rb_hash_indexes default_m hash (k # argv) =
     bindR (rb_hash_aref default_m hash k) (\<lambda>(v, hash).
       bindR (rb_hash_indexes default_m hash argv) (\<lambda>(vs, hash). Inr (v # vs, hash)))"

definition rb_hash_delete :: "int \<Rightarrow> (val \<Rightarrow> rb_error + val) option \<Rightarrow> rhash \<Rightarrow> val \<Rightarrow> rb_error + val \<times> rhash" where
  "rb_hash_delete safe blk hash key =
     bindR (rb_hash_modify safe hash) (\<lambda>_.
       with_tbl hash (\<lambda>t.
         let r = (if iter_lev hash > 0 then st_delete_safe t key Qundef Qundef else st_delete t key)
         in if del_ret r \<noteq> 0
            then (case del_value r of
                    SetTo val \<Rightarrow>
                      Inr (val, hash\<lparr>rh_tbl := Some (del_table r),
                                     hash_deleted := hash_deleted hash \<or> iter_lev hash > 0\<rparr>)
                  | _ \<Rightarrow> Inl Uninitialised)
            else (case blk of
                    Some b \<Rightarrow> bindR (b key) (\<lambda>v. Inr (v, hash))
                  | None \<Rightarrow> Inr (Qnil, hash))))"

text \<open>\<^verbatim>\<open>shift\<close> takes the first entry; without one it gives the default.\<close>

record shift_var =
  sv_stop :: bool
  sv_key :: val
  sv_val :: val

definition shift_i :: "val \<Rightarrow> val \<Rightarrow> shift_var \<Rightarrow> st_retval \<times> shift_var" where
  "shift_i key value var =
     (if key = Qundef then (ST_CONTINUE, var)
      else if sv_stop var then (ST_STOP, var)
      else (ST_DELETE, var\<lparr>sv_stop := True, sv_key := key, sv_val := value\<rparr>))"

definition rb_hash_shift ::
  "int \<Rightarrow> (val \<Rightarrow> rhash \<Rightarrow> val \<Rightarrow> rb_error + val \<times> rhash) \<Rightarrow> rhash \<Rightarrow> rb_error + (val \<times> val + val) \<times> rhash" where
  "rb_hash_shift safe call hash =
     bindR (rb_hash_modify safe hash) (\<lambda>_.
       with_tbl hash (\<lambda>t.
         case st_foreach t shift_i \<lparr>sv_stop = False, sv_key = Qundef, sv_val = Qundef\<rparr> of
           (t, var) \<Rightarrow>
             let hash = hash\<lparr>rh_tbl := Some t\<rparr>
             in if sv_stop var then Inr (Inl (sv_key var, sv_val var), hash)
                else if hash_proc_default hash
                then bindR (call (ifnone hash) hash Qnil) (\<lambda>(v, hash). Inr (Inr v, hash))
                else Inr (Inr (ifnone hash), hash)))"

definition clear_i :: "val \<Rightarrow> val \<Rightarrow> unit \<Rightarrow> st_retval \<times> unit" where
  "clear_i key value dummy = (ST_DELETE, ())"

definition rb_hash_clear :: "int \<Rightarrow> rhash \<Rightarrow> rb_error + rhash" where
  "rb_hash_clear safe hash =
     bindR (rb_hash_modify safe hash) (\<lambda>_.
       with_tbl hash (\<lambda>t. Inr (hash\<lparr>rh_tbl := Some (fst (st_foreach t clear_i ()))\<rparr>)))"

definition replace_i :: "int \<Rightarrow> val \<Rightarrow> val \<Rightarrow> rhash \<Rightarrow> rb_error + st_retval \<times> rhash" where
  "replace_i safe key val hash =
     (if key \<noteq> Qundef then bindR (rb_hash_aset safe hash key val) (\<lambda>hash. Inr (ST_CONTINUE, hash))
      else Inr (ST_CONTINUE, hash))"

text \<open>\<^verbatim>\<open>same\<close> tells whether the two are one object.\<close>

definition rb_hash_become :: "int \<Rightarrow> bool \<Rightarrow> rhash \<Rightarrow> rhash \<Rightarrow> rb_error + rhash" where
  "rb_hash_become safe same hash hash2 =
     (if same then Inr hash
      else bindR (rb_hash_clear safe hash) (\<lambda>hash.
        with_tbl hash2 (\<lambda>t2.
          bindR (snd (st_foreach t2 (raising (replace_i safe)) (Inr hash))) (\<lambda>hash.
            Inr (hash\<lparr>ifnone := ifnone hash2, hash_proc_default := hash_proc_default hash2\<rparr>)))))"

text \<open>\<^verbatim>\<open>rb_obj_dup\<close> of a hash: a new one with the taint of the original, then \<^verbatim>\<open>become\<close>.\<close>

definition rb_hash_dup :: "int \<Rightarrow> val st_hash_type \<Rightarrow> rhash \<Rightarrow> rb_error + rhash" where
  "rb_hash_dup safe ty obj =
     bindR (rb_hash_s_alloc safe ty) (\<lambda>dest.
       rb_hash_become safe False (dest\<lparr>rh_tainted := rh_tainted dest \<or> rh_tainted obj\<rparr>) obj)"

definition rb_hash_size :: "rhash \<Rightarrow> rb_error + int" where
  "rb_hash_size hash = with_tbl hash (\<lambda>t. Inr (num_entries t))"

definition rb_hash_empty_p :: "rhash \<Rightarrow> rb_error + bool" where
  "rb_hash_empty_p hash = with_tbl hash (\<lambda>t. Inr (num_entries t = 0))"

definition to_a_i :: "val \<Rightarrow> val \<Rightarrow> (val \<times> val) list \<Rightarrow> st_retval \<times> (val \<times> val) list" where
  "to_a_i key value ary = (ST_CONTINUE, if key = Qundef then ary else ary @ [(key, value)])"

definition rb_hash_to_a :: "rhash \<Rightarrow> rb_error + (val \<times> val) list" where
  "rb_hash_to_a hash = with_tbl hash (\<lambda>t. Inr (snd (st_foreach t to_a_i [])))"

definition keys_i :: "val \<Rightarrow> val \<Rightarrow> val list \<Rightarrow> st_retval \<times> val list" where
  "keys_i key value ary = (ST_CONTINUE, if key = Qundef then ary else ary @ [key])"

definition rb_hash_keys :: "rhash \<Rightarrow> rb_error + val list" where
  "rb_hash_keys hash = with_tbl hash (\<lambda>t. Inr (snd (st_foreach t keys_i [])))"

definition values_i :: "val \<Rightarrow> val \<Rightarrow> val list \<Rightarrow> st_retval \<times> val list" where
  "values_i key value ary = (ST_CONTINUE, if key = Qundef then ary else ary @ [value])"

definition rb_hash_values :: "rhash \<Rightarrow> rb_error + val list" where
  "rb_hash_values hash = with_tbl hash (\<lambda>t. Inr (snd (st_foreach t values_i [])))"

definition rb_hash_has_key :: "rhash \<Rightarrow> val \<Rightarrow> rb_error + bool" where
  "rb_hash_has_key hash key = with_tbl hash (\<lambda>t. Inr (st_lookup t key \<noteq> None))"

definition rb_hash_search_value :: "(val \<Rightarrow> val \<Rightarrow> bool) \<Rightarrow> val \<Rightarrow> val \<Rightarrow> val \<Rightarrow> bool \<Rightarrow> st_retval \<times> bool" where
  "rb_hash_search_value rb_equal wanted key value found =
     (if key = Qundef then (ST_CONTINUE, found)
      else if rb_equal value wanted then (ST_STOP, True)
      else (ST_CONTINUE, found))"

definition rb_hash_has_value :: "(val \<Rightarrow> val \<Rightarrow> bool) \<Rightarrow> rhash \<Rightarrow> val \<Rightarrow> rb_error + bool" where
  "rb_hash_has_value rb_equal hash val =
     with_tbl hash (\<lambda>t. Inr (snd (st_foreach t (rb_hash_search_value rb_equal val) False)))"

definition equal_i :: "(val \<Rightarrow> val \<Rightarrow> bool) \<Rightarrow> (val, val) st_table \<Rightarrow> val \<Rightarrow> val \<Rightarrow> bool \<Rightarrow> st_retval \<times> bool" where
  "equal_i rb_equal tbl key val1 result =
     (if key = Qundef then (ST_CONTINUE, result)
      else case st_lookup tbl key of
             None \<Rightarrow> (ST_STOP, False)
           | Some val2 \<Rightarrow> if \<not> rb_equal val1 val2 then (ST_STOP, False) else (ST_CONTINUE, result))"

definition rb_hash_equal :: "(val \<Rightarrow> val \<Rightarrow> bool) \<Rightarrow> bool \<Rightarrow> rhash \<Rightarrow> rhash option \<Rightarrow> rb_error + bool" where
  "rb_hash_equal rb_equal same hash1 hash2 =
     (if same then Inr True
      else case hash2 of
             None \<Rightarrow> Inr False
           | Some hash2 \<Rightarrow>
               with_tbl hash1 (\<lambda>t1. with_tbl hash2 (\<lambda>t2.
                 if num_entries t1 \<noteq> num_entries t2 then Inr False
                 else if \<not> (rb_equal (ifnone hash1) (ifnone hash2) \<and> hash_proc_default hash1 = hash_proc_default hash2)
                 then Inr False
                 else Inr (snd (st_foreach t1 (equal_i rb_equal t2) True)))))"

definition rb_hash_invert_i :: "int \<Rightarrow> val \<Rightarrow> val \<Rightarrow> rhash \<Rightarrow> rb_error + st_retval \<times> rhash" where
  "rb_hash_invert_i safe key value hash =
     (if key = Qundef then Inr (ST_CONTINUE, hash)
      else bindR (rb_hash_aset safe hash value key) (\<lambda>hash. Inr (ST_CONTINUE, hash)))"

definition rb_hash_invert :: "int \<Rightarrow> val st_hash_type \<Rightarrow> rhash \<Rightarrow> rb_error + rhash" where
  "rb_hash_invert safe ty hash =
     bindR (rb_hash_new safe ty) (\<lambda>h.
       with_tbl hash (\<lambda>t. snd (st_foreach t (raising (rb_hash_invert_i safe)) (Inr h))))"

definition rb_hash_update_i :: "int \<Rightarrow> val \<Rightarrow> val \<Rightarrow> rhash \<Rightarrow> rb_error + st_retval \<times> rhash" where
  "rb_hash_update_i safe key value hash =
     (if key = Qundef then Inr (ST_CONTINUE, hash)
      else bindR (rb_hash_aset safe hash key value) (\<lambda>hash. Inr (ST_CONTINUE, hash)))"

definition rb_hash_update_block_i ::
  "int \<Rightarrow> (rhash \<Rightarrow> val list \<Rightarrow> rb_error + val \<times> rhash) \<Rightarrow> (val \<times> val \<times> val \<Rightarrow> rb_error + val) \<Rightarrow> val \<Rightarrow> val \<Rightarrow> rhash \<Rightarrow>
   rb_error + st_retval \<times> rhash" where
  "rb_hash_update_block_i safe default_m blk key value hash =
     (if key = Qundef then Inr (ST_CONTINUE, hash)
      else bindR (rb_hash_has_key hash key) (\<lambda>b.
        bindR (if b then bindR (rb_hash_aref default_m hash key) (\<lambda>(old, hash).
                            bindR (blk (key, old, value)) (\<lambda>v. Inr (v, hash)))
               else Inr (value, hash)) (\<lambda>(value, hash).
          bindR (rb_hash_aset safe hash key value) (\<lambda>hash. Inr (ST_CONTINUE, hash)))))"

definition rb_hash_update ::
  "int \<Rightarrow> (rhash \<Rightarrow> val list \<Rightarrow> rb_error + val \<times> rhash) \<Rightarrow> (val \<times> val \<times> val \<Rightarrow> rb_error + val) option \<Rightarrow> rhash \<Rightarrow> rhash \<Rightarrow>
   rb_error + rhash" where
  "rb_hash_update safe default_m blk hash1 hash2 =
     with_tbl hash2 (\<lambda>t2.
       snd (st_foreach t2 (raising (case blk of
              Some b \<Rightarrow> rb_hash_update_block_i safe default_m b
            | None \<Rightarrow> rb_hash_update_i safe)) (Inr hash1)))"

text \<open>\<^verbatim>\<open>inspect_m\<close> gives the text of a value.\<close>

definition inspect_i :: "(val \<Rightarrow> byte list) \<Rightarrow> val \<Rightarrow> val \<Rightarrow> byte list \<Rightarrow> st_retval \<times> byte list" where
  "inspect_i inspect_m key value str =
     (ST_CONTINUE,
      if key = Qundef then str
      else str @ (if length str > 1 then [0x2c, 0x20] else []) @ inspect_m key @ [0x3d, 0x3e] @ inspect_m value)"

definition inspect_hash :: "(val \<Rightarrow> byte list) \<Rightarrow> rhash \<Rightarrow> rb_error + byte list" where
  "inspect_hash inspect_m hash =
     with_tbl hash (\<lambda>t. Inr (snd (st_foreach t (inspect_i inspect_m) [0x7b]) @ [0x7d]))"

definition rb_hash_inspect :: "(val \<Rightarrow> byte list) \<Rightarrow> bool \<Rightarrow> rhash \<Rightarrow> rb_error + byte list" where
  "rb_hash_inspect inspect_m inspecting hash =
     (if (case rh_tbl hash of None \<Rightarrow> True | Some t \<Rightarrow> num_entries t = 0) then Inr [0x7b, 0x7d]
      else if inspecting then Inr [0x7b, 0x2e, 0x2e, 0x2e, 0x7d]
      else inspect_hash inspect_m hash)"

subsection \<open>Iteration with blocks\<close>

text \<open>
  A block may change the hash it iterates over. What it does to the hash is a sequence of insertions
  and deletions; what it does besides is its state. It sees its arguments and its state, and its result
  is tested for truth. An operation that raises ends the block.
\<close>

datatype hash_op = OpDelete val | OpAset val val

type_synonym ('a, 's) block = "'a \<Rightarrow> 's \<Rightarrow> hash_op list \<times> bool \<times> 's"

definition run_op :: "int \<Rightarrow> hash_op \<Rightarrow> rhash \<Rightarrow> rb_error + rhash" where
  "run_op safe x hash =
     (case x of
        OpDelete k \<Rightarrow> bindR (rb_hash_delete safe None hash k) (\<lambda>(_, hash). Inr hash)
      | OpAset k v \<Rightarrow> rb_hash_aset safe hash k v)"

fun run_ops :: "int \<Rightarrow> hash_op list \<Rightarrow> rhash \<Rightarrow> rb_error option \<times> rhash" where
  "run_ops safe [] hash = (None, hash)"
| "run_ops safe (x # xs) hash =
     (case run_op safe x hash of Inl e \<Rightarrow> (Some e, hash) | Inr hash \<Rightarrow> run_ops safe xs hash)"

definition rb_yield :: "int \<Rightarrow> ('a, 's) block \<Rightarrow> 'a \<Rightarrow> rhash \<times> 's \<Rightarrow> (rb_error + bool) \<times> rhash \<times> 's" where
  "rb_yield safe blk x st =
     (case st of
        (hash, s) \<Rightarrow>
          (case blk x s of
             (ops, b, s) \<Rightarrow>
               (case run_ops safe ops hash of
                  (Some e, hash) \<Rightarrow> (Inl e, hash, s)
                | (None, hash) \<Rightarrow> (Inr b, hash, s))))"

text \<open>
  The test for a change of the table, which compares the addresses of the table and of its array of bins. The
  array is only replaced when the table is rehashed, which changes its size; the table itself is not replaced by
  any operation of a block. That the addresses differ is taken of the allocator: a block that rehashes the table
  twice could be handed the first array's address again, and the code would then go on.
\<close>

type_synonym 's live_func = "val \<Rightarrow> val \<Rightarrow> rhash \<times> 's \<Rightarrow> (rb_error + st_retval) \<times> rhash \<times> 's"

definition rb_hash_foreach_iter :: "'s live_func \<Rightarrow> 's live_func" where
  "rb_hash_foreach_iter func key value st =
     (if key = Qundef then (Inr ST_CONTINUE, st)
      else (case func key value st of
              (Inl e, st') \<Rightarrow> (Inl e, st')
            | (Inr status, st') \<Rightarrow>
                if map_option num_bins (rh_tbl (fst st')) \<noteq> map_option num_bins (rh_tbl (fst st))
                then (Inl IndexError, st') else (Inr status, st')))"

text \<open>
  \<^verbatim>\<open>st_foreach\<close> walks the chains while the callback works on the table. New entries enter a chain at its
  front, so the entry under the pointer is known by the number of entries behind it, \<^verbatim>\<open>rest\<close>. \<^verbatim>\<open>last\<close> says
  that an entry of the chain was passed before. Unlinking sets the pointer in the last entry, or the
  head of the bin when there is none. A pointer past the entries of the chain would be freed memory.
\<close>

definition unlink_live :: "nat \<Rightarrow> bool \<Rightarrow> nat \<Rightarrow> (val, val) st_table \<Rightarrow> (val, val) st_table" where
  "unlink_live i passed rest t =
     (let chain = bins t ! i; p = length chain - Suc rest
      in t\<lparr>bins := (bins t)[i := if passed then unlink_entry p chain else drop (Suc p) chain],
           num_entries := num_entries t - 1\<rparr>)"

fun live_chain ::
  "'s live_func \<Rightarrow> nat \<Rightarrow> bool \<Rightarrow> nat \<Rightarrow> rhash \<times> 's \<Rightarrow> (rb_error + bool) \<times> rhash \<times> 's" where
  "live_chain func i passed 0 st = (Inr False, st)"
| "live_chain func i passed (Suc rest) st =
     (case rh_tbl (fst st) of
        None \<Rightarrow> (Inl OutOfBounds, st)
      | Some t \<Rightarrow>
          if length (bins t ! i) < Suc rest then (Inl OutOfBounds, st)
          else let ptr = bins t ! i ! (length (bins t ! i) - Suc rest)
          in (case rb_hash_foreach_iter func (ent_key ptr) (ent_record ptr) st of
                (Inl e, st) \<Rightarrow> (Inl e, st)
              | (Inr ST_CONTINUE, st) \<Rightarrow> live_chain func i True rest st
              | (Inr ST_STOP, st) \<Rightarrow> (Inr True, st)
              | (Inr ST_DELETE, (hash, s)) \<Rightarrow>
                  live_chain func i passed rest
                    (hash\<lparr>rh_tbl := map_option (unlink_live i passed rest) (rh_tbl hash)\<rparr>, s)))"

fun live_bins :: "'s live_func \<Rightarrow> nat list \<Rightarrow> rhash \<times> 's \<Rightarrow> (rb_error + unit) \<times> rhash \<times> 's" where
  "live_bins func [] st = (Inr (), st)"
| "live_bins func (i # is) st =
     (case rh_tbl (fst st) of
        None \<Rightarrow> (Inl OutOfBounds, st)
      | Some t \<Rightarrow>
          (case live_chain func i False (length (bins t ! i)) st of
             (Inl e, st) \<Rightarrow> (Inl e, st)
           | (Inr stop, st) \<Rightarrow> if stop then (Inr (), st) else live_bins func is st))"

text \<open>The number of bins cannot change without ending the iteration, so the bins are counted once.\<close>

definition rb_hash_foreach_call :: "'s live_func \<Rightarrow> rhash \<times> 's \<Rightarrow> (rb_error + unit) \<times> rhash \<times> 's" where
  "rb_hash_foreach_call func st =
     (case rh_tbl (fst st) of
        None \<Rightarrow> (Inl OutOfBounds, st)
      | Some t \<Rightarrow> live_bins func [0..<nat (num_bins t)] st)"

definition rb_hash_foreach_ensure :: "rhash \<Rightarrow> rhash" where
  "rb_hash_foreach_ensure hash =
     (let hash = hash\<lparr>iter_lev := int32 (iter_lev hash - 1)\<rparr>
      in if iter_lev hash = 0 \<and> hash_deleted hash
         then hash\<lparr>rh_tbl := map_option (\<lambda>t. st_cleanup_safe t Qundef) (rh_tbl hash), hash_deleted := False\<rparr>
         else hash)"

text \<open>\<^verbatim>\<open>rb_ensure\<close>: the second function runs whether the first returns or raises.\<close>

definition rb_hash_foreach :: "'s live_func \<Rightarrow> rhash \<times> 's \<Rightarrow> (rb_error + unit) \<times> rhash \<times> 's" where
  "rb_hash_foreach func st =
     (case rb_hash_foreach_call func ((fst st)\<lparr>iter_lev := int32 (iter_lev (fst st) + 1)\<rparr>, snd st) of
        (r, hash, s) \<Rightarrow> (r, rb_hash_foreach_ensure hash, s))"

definition then_status :: "(bool \<Rightarrow> st_retval) \<Rightarrow> (rb_error + bool) \<times> rhash \<times> 's \<Rightarrow> (rb_error + st_retval) \<times> rhash \<times> 's" where
  "then_status f r = (case r of (Inl e, st) \<Rightarrow> (Inl e, st) | (Inr b, st) \<Rightarrow> (Inr (f b), st))"

definition each_value_i :: "int \<Rightarrow> (val, 's) block \<Rightarrow> 's live_func" where
  "each_value_i safe blk key value st =
     (if key = Qundef then (Inr ST_CONTINUE, st)
      else then_status (\<lambda>_. ST_CONTINUE) (rb_yield safe blk value st))"

definition each_key_i :: "int \<Rightarrow> (val, 's) block \<Rightarrow> 's live_func" where
  "each_key_i safe blk key value st =
     (if key = Qundef then (Inr ST_CONTINUE, st)
      else then_status (\<lambda>_. ST_CONTINUE) (rb_yield safe blk key st))"

definition each_pair_i :: "int \<Rightarrow> (val \<times> val, 's) block \<Rightarrow> 's live_func" where
  "each_pair_i safe blk key value st =
     (if key = Qundef then (Inr ST_CONTINUE, st)
      else then_status (\<lambda>_. ST_CONTINUE) (rb_yield safe blk (key, value) st))"

definition rb_hash_each_value :: "int \<Rightarrow> (val, 's) block \<Rightarrow> rhash \<times> 's \<Rightarrow> (rb_error + unit) \<times> rhash \<times> 's" where
  "rb_hash_each_value safe blk st = rb_hash_foreach (each_value_i safe blk) st"

definition rb_hash_each_key :: "int \<Rightarrow> (val, 's) block \<Rightarrow> rhash \<times> 's \<Rightarrow> (rb_error + unit) \<times> rhash \<times> 's" where
  "rb_hash_each_key safe blk st = rb_hash_foreach (each_key_i safe blk) st"

definition rb_hash_each_pair :: "int \<Rightarrow> (val \<times> val, 's) block \<Rightarrow> rhash \<times> 's \<Rightarrow> (rb_error + unit) \<times> rhash \<times> 's" where
  "rb_hash_each_pair safe blk st = rb_hash_foreach (each_pair_i safe blk) st"

definition delete_if_i :: "(val \<times> val \<Rightarrow> rhash \<times> 's \<Rightarrow> (rb_error + bool) \<times> rhash \<times> 's) \<Rightarrow> 's live_func" where
  "delete_if_i yield key value st =
     (if key = Qundef then (Inr ST_CONTINUE, st)
      else then_status (\<lambda>b. if b then ST_DELETE else ST_CONTINUE) (yield (key, value) st))"

definition delete_if ::
  "int \<Rightarrow> (val \<times> val \<Rightarrow> rhash \<times> 's \<Rightarrow> (rb_error + bool) \<times> rhash \<times> 's) \<Rightarrow> rhash \<times> 's \<Rightarrow> (rb_error + unit) \<times> rhash \<times> 's" where
  "delete_if safe yield st =
     (case rb_hash_modify safe (fst st) of
        Inl e \<Rightarrow> (Inl e, st)
      | Inr _ \<Rightarrow> rb_hash_foreach (delete_if_i yield) st)"

definition rb_hash_delete_if :: "int \<Rightarrow> (val \<times> val, 's) block \<Rightarrow> rhash \<times> 's \<Rightarrow> (rb_error + unit) \<times> rhash \<times> 's" where
  "rb_hash_delete_if safe blk st = delete_if safe (rb_yield safe blk) st"

text \<open>\<^verbatim>\<open>reject!\<close> answers whether anything changed (\<^verbatim>\<open>nil\<close> if not).\<close>

definition rb_hash_reject_bang :: "int \<Rightarrow> (val \<times> val, 's) block \<Rightarrow> rhash \<times> 's \<Rightarrow> (rb_error + bool) \<times> rhash \<times> 's" where
  "rb_hash_reject_bang safe blk st =
     (case rb_hash_size (fst st) of
        Inl e \<Rightarrow> (Inl e, st)
      | Inr n \<Rightarrow>
          (case rb_hash_delete_if safe blk st of
             (Inl e, st) \<Rightarrow> (Inl e, st)
           | (Inr _, st) \<Rightarrow> (bindR (rb_hash_size (fst st)) (\<lambda>m. Inr (n \<noteq> m)), st)))"

text \<open>\<^verbatim>\<open>reject\<close> iterates over a copy while its block works on the original.\<close>

definition rb_hash_reject ::
  "int \<Rightarrow> val st_hash_type \<Rightarrow> (val \<times> val, 's) block \<Rightarrow> rhash \<times> 's \<Rightarrow> (rb_error + rhash) \<times> rhash \<times> 's" where
  "rb_hash_reject safe ty blk st =
     (case rb_hash_dup safe ty (fst st) of
        Inl e \<Rightarrow> (Inl e, st)
      | Inr dup \<Rightarrow>
          (case delete_if safe (\<lambda>x (dup, st). case rb_yield safe blk x st of (r, st) \<Rightarrow> (r, dup, st)) (dup, st) of
             (Inl e, _, st) \<Rightarrow> (Inl e, st)
           | (Inr _, dup, st) \<Rightarrow> (Inr dup, st)))"

definition select_i :: "int \<Rightarrow> (val \<times> val, 's) block \<Rightarrow> ((val \<times> val) list \<times> 's) live_func" where
  "select_i safe blk key value st =
     (if key = Qundef then (Inr ST_CONTINUE, st)
      else (case st of
              (hash, result, s) \<Rightarrow>
                (case rb_yield safe blk (key, value) (hash, s) of
                   (Inl e, hash, s) \<Rightarrow> (Inl e, hash, result, s)
                 | (Inr b, hash, s) \<Rightarrow>
                     (Inr ST_CONTINUE, hash, if b then result @ [(key, value)] else result, s))))"

text \<open>\<^verbatim>\<open>select\<close> with a block; without one it is \<^verbatim>\<open>rb_hash_indexes\<close>.\<close>

definition rb_hash_select ::
  "int \<Rightarrow> (rhash \<Rightarrow> val list \<Rightarrow> rb_error + val \<times> rhash) \<Rightarrow> (val \<times> val, 's) block option \<Rightarrow> val list \<Rightarrow> rhash \<times> 's \<Rightarrow>
   (rb_error + ((val \<times> val) list + val list)) \<times> rhash \<times> 's" where
  "rb_hash_select safe default_m blk argv st =
     (case blk of
        Some b \<Rightarrow>
          if argv \<noteq> [] then (Inl ArgError, st)
          else (case rb_hash_foreach (select_i safe b) (fst st, [], snd st) of
                  (Inl e, hash, _, s) \<Rightarrow> (Inl e, hash, s)
                | (Inr _, hash, result, s) \<Rightarrow> (Inr (Inl result), hash, s))
      | None \<Rightarrow>
          (case rb_hash_indexes default_m (fst st) argv of
             Inl e \<Rightarrow> (Inl e, st)
           | Inr (vs, hash) \<Rightarrow> (Inr (Inr vs), hash, snd st)))"

end
