(* ===== verification/Hash_Live.thy ===== *)
theory Hash_Live
  imports Hash_Object
begin

text \<open>
  Hashes that are changed while they are iterated over. A deletion inside an iteration only marks the
  entry; \<^verbatim>\<open>marked_keys\<close> is what the marker must satisfy. Under it every operation on a marked table acts on
  the table without the marked entries as the plain operation does: taking the marks out is a
  simulation. On it rest the invariant of hash objects and the results on iterations.
\<close>

section \<open>Tables with marked entries\<close>

lemma nth_list_update_if: "j < length xs \<Longrightarrow> xs[i := x] ! j = (if i = j then x else xs ! j)"
  by (simp add: nth_list_update)

lemma set_concat_update2:
  assumes "i < length xss"
  shows "set (concat (xss[i := (xss ! i)[n := e]])) \<subseteq> insert e (set (concat xss))"
proof
  fix x assume "x \<in> set (concat (xss[i := (xss ! i)[n := e]]))"
  then obtain j where j: "j < length xss" "x \<in> set (xss[i := (xss ! i)[n := e]] ! j)"
    unfolding set_concat_nth by auto
  then have "x = e \<or> x \<in> set (xss ! j)"
    using set_update_subset_insert [of "xss ! i" n e] by (cases "i = j") auto
  then show "x \<in> insert e (set (concat xss))" using j(1) unfolding insert_iff set_concat_nth by blast
qed

lemma new_size_grows: "0 \<le> new_size s \<Longrightarrow> s < new_size s"
proof (cases "s < 2 ^ 30")
  case False
  then have "new_size s = - 1" by (simp add: new_size_def primes_def MINSIZE_def int32_def)
  then show "0 \<le> new_size s \<Longrightarrow> s < new_size s" by simp
qed (simp add: new_size_gt)

text \<open>How far the counter moves: past six entries for each bin only with more bins.\<close>

lemma ADD_DIRECT_size:
  assumes "ADD_DIRECT t k v h b = Inr t'" "0 < num_bins t" "0 \<le> num_entries t" "num_entries t < 2 ^ 31 - 1"
  shows "num_entries t' = num_entries t + 1 \<and> num_bins t \<le> num_bins t' \<and>
    (num_bins t' = num_bins t \<longrightarrow> num_entries t' \<le> 6 * num_bins t)"
proof (cases "num_entries t div num_bins t > ST_DEFAULT_MAX_DENSITY")
  case True
  with assms(1) obtain u where u: "rehash t = Inr u" "num_entries t' = int32 (num_entries u + 1)" "num_bins t' = num_bins u"
    by (auto simp: ADD_DIRECT_def split: sum.splits)
  then show ?thesis
    using new_size_grows [of "num_bins t + 1"] assms(3,4) by (auto simp: rehash_def Let_def split: if_splits)
next
  case False
  then have t': "num_entries t' = num_entries t + 1" "num_bins t' = num_bins t"
    using assms by (auto simp: ADD_DIRECT_def)
  have "num_bins t * (num_entries t div num_bins t) \<le> num_bins t * 5"
    by (rule mult_left_mono) (use False assms(2) in \<open>simp_all add: ST_DEFAULT_MAX_DENSITY_def\<close>)
  moreover have "num_entries t mod num_bins t < num_bins t" using assms(2) by simp
  moreover have "num_entries t = num_bins t * (num_entries t div num_bins t) + num_entries t mod num_bins t" by simp
  ultimately show ?thesis using t' by linarith
qed

lemma insert_size:
  assumes "st_insert t k v = Inr (r, t')" "0 < num_bins t" "0 \<le> num_entries t" "num_entries t < 2 ^ 31 - 1"
  shows "num_entries t' \<le> num_entries t + 1 \<and> num_bins t \<le> num_bins t' \<and>
    (num_bins t' = num_bins t \<longrightarrow> num_entries t' \<le> max (num_entries t) (6 * num_bins t))"
proof (cases "FIND_ENTRY t (do_hash k t) k")
  case None
  then have "ADD_DIRECT t k v (do_hash k t) (unat (do_hash k t) mod nat (num_bins t)) = Inr t'"
    using assms(1) by (auto simp: st_insert_def Let_def split: sum.splits)
  then show ?thesis using ADD_DIRECT_size [OF _ assms(2-4)] by fastforce
next
  case (Some n)
  then show ?thesis using assms(1) by (auto simp: st_insert_def Let_def)
qed

locale marked_keys = st_hash_laws ty for ty :: "'k st_hash_type" +
  fixes nk :: 'k and nr :: 'v
  assumes equal_marker: "EQUAL ty nk x \<Longrightarrow> x = nk"
begin

abbreviation live :: "('k, 'v) st_table_entry list \<Rightarrow> ('k, 'v) st_table_entry list" where
  "live \<equiv> filter (\<lambda>e. ent_record e \<noteq> nr)"

abbreviation clean :: "('k, 'v) st_table \<Rightarrow> ('k, 'v) st_table" where
  "clean t \<equiv> st_cleanup_safe t nr"

lemma not_marker: "k \<noteq> nk \<Longrightarrow> EQUAL ty k x \<Longrightarrow> x \<noteq> nk"
  using equal_marker equal_sym by blast

lemma find_live:
  assumes "k \<noteq> nk" "marks_ok nk nr chain"
  shows "case find_entry ty h k chain of
      None \<Rightarrow> find_entry ty h k (live chain) = None
    | Some n \<Rightarrow> \<exists>m. find_entry ty h k (live chain) = Some m \<and> live chain ! m = chain ! n \<and>
        (\<forall>v. v \<noteq> nr \<longrightarrow> live (chain[n := (chain ! n)\<lparr>ent_record := v\<rparr>]) = (live chain)[m := (chain ! n)\<lparr>ent_record := v\<rparr>])"
  using assms(2)
proof (induction chain)
  case (Cons e es)
  then have IH: "marks_ok nk nr es" by (simp add: marks_ok_def)
  show ?case
  proof (cases "PTR_NOT_EQUAL ty e h k")
    case True
    then show ?thesis using Cons.IH [OF IH] by (auto split: option.splits)
  next
    case False
    then have "ent_key e \<noteq> nk" using not_marker [OF assms(1)] by (simp add: PTR_NOT_EQUAL_def)
    then have "ent_record e \<noteq> nr" using Cons.prems by (simp add: marks_ok_def)
    then show ?thesis using False by simp
  qed
qed simp

text \<open>The invariant of a marked table.\<close>

definition marked_ok :: "('k, 'v) st_table \<Rightarrow> bool" where
  "marked_ok t \<longleftrightarrow> st_inv (clean t) \<and> st_type t = ty \<and> marks_ok nk nr (concat (bins t))"

lemma clean_simps [simp]:
  "st_type (clean t) = st_type t" "num_bins (clean t) = num_bins t" "num_entries (clean t) = num_entries t"
  "bins (clean t) = map live (bins t)" "clean (clean t) = clean t"
  by (simp_all add: cleanup_safe_eq)

lemma clean_id: "clean t = t \<longleftrightarrow> (\<forall>e \<in> st_entries t. ent_record e \<noteq> nr)"
proof
  assume "clean t = t"
  then have "map live (bins t) = bins t" using clean_simps(4) [of t] by simp
  then have "live b = b" if "b \<in> set (bins t)" for b using that map_eq_conv [of live "bins t" id] by simp
  then show "\<forall>e \<in> st_entries t. ent_record e \<noteq> nr" by (auto simp: filter_id_conv)
qed (rule cleanup_no_marks)

lemma marked_bin:
  assumes "marked_ok t"
  shows "length (bins t) = nat (num_bins t)" "0 < num_bins t" "unat h mod nat (num_bins t) < length (bins t)"
    "i < length (bins t) \<Longrightarrow> marks_ok nk nr (bins t ! i)"
  using assms unfolding marked_ok_def st_inv_def marks_ok_def set_concat_nth by auto

lemma lookup_clean:
  assumes "marked_ok t" "k \<noteq> nk"
  shows "st_lookup (clean t) k = st_lookup t k"
proof -
  let ?i = "unat (hash_fn ty k) mod nat (num_bins t)"
  have ty: "st_type t = ty" using assms(1) by (simp add: marked_ok_def)
  note b = marked_bin [OF assms(1)]
  show ?thesis
    using find_live [OF assms(2) b(4) [OF b(3) [of "hash_fn ty k"]], of "hash_fn ty k"] b(3) [of "hash_fn ty k"]
    by (auto simp: st_lookup_def FIND_ENTRY_def do_hash_def Let_def ty split: option.splits)
qed

lemma live_rehash_entry:
  assumes "0 < n" "length nb = n"
  shows "map live (rehash_entry n nb e) = (if ent_record e = nr then map live nb else rehash_entry n (map live nb) e)"
proof -
  let ?i = "unat (ent_hash e) mod n"
  have i: "?i < length nb" using assms by simp
  have "(map live nb)[?i := live (nb ! ?i)] = map live nb" using i by (simp add: list_update_same_conv)
  with i show ?thesis by (simp add: rehash_entry_def Let_def map_update)
qed

lemma length_rehash_entry [simp]: "length (rehash_entry n nb e) = length nb"
  by (simp add: rehash_entry_def Let_def)

lemma length_rehash_chain [simp]: "length (foldl (rehash_entry n) nb es) = length nb"
  by (induction es arbitrary: nb) simp_all

lemma length_rehash_bins [simp]: "length (foldl (foldl (rehash_entry n)) nb bs) = length nb"
  by (induction bs arbitrary: nb) simp_all

lemma live_rehash_chain:
  assumes "0 < n"
  shows "length nb = n \<Longrightarrow> map live (foldl (rehash_entry n) nb es) = foldl (rehash_entry n) (map live nb) (live es)"
  by (induction es arbitrary: nb) (simp_all add: live_rehash_entry [OF assms])

lemma live_rehash_bins:
  assumes "0 < n"
  shows "length nb = n \<Longrightarrow>
    map live (foldl (foldl (rehash_entry n)) nb bs) = foldl (foldl (rehash_entry n)) (map live nb) (map live bs)"
  by (induction bs arbitrary: nb) (simp_all add: live_rehash_chain [OF assms])

lemma set_rehash_entry: "set (concat (rehash_entry n nb e)) \<subseteq> insert e (set (concat nb))"
proof (cases "unat (ent_hash e) mod n < length nb")
  case True
  then show ?thesis
    unfolding rehash_entry_def Let_def set_concat
    by (auto dest!: set_update_subset_insert [THEN subsetD] intro: nth_mem)
next
  case False
  then show ?thesis by (auto simp: rehash_entry_def Let_def list_update_beyond)
qed

lemma set_rehash_chain: "set (concat (foldl (rehash_entry n) nb es)) \<subseteq> set es \<union> set (concat nb)"
proof (induction es arbitrary: nb)
  case (Cons e es)
  from Cons.IH [of "rehash_entry n nb e"] set_rehash_entry [of n nb e] show ?case by auto
qed simp

lemma set_rehash_bins: "set (concat (foldl (foldl (rehash_entry n)) nb bs)) \<subseteq> set (concat bs) \<union> set (concat nb)"
proof (induction bs arbitrary: nb)
  case (Cons b bs)
  from Cons.IH [of "foldl (rehash_entry n) nb b"] set_rehash_chain [of n nb b] show ?case by auto
qed simp

lemma marks_ok_subset: "set xs \<subseteq> set ys \<Longrightarrow> marks_ok nk nr ys \<Longrightarrow> marks_ok nk nr xs"
  by (auto simp: marks_ok_def)

lemma marks_ok_insert: "set xs \<subseteq> insert e (set ys) \<Longrightarrow> marks_ok nk nr ys \<Longrightarrow> marks_ok nk nr [e] \<Longrightarrow> marks_ok nk nr xs"
  unfolding marks_ok_def by fastforce

text \<open>Rehashing and adding an entry.\<close>

lemma rehash_clean:
  assumes "0 < num_bins t"
  shows "rehash (clean t) = map_sum id clean (rehash t)"
    and "rehash t = Inr t' \<Longrightarrow> marks_ok nk nr (concat (bins t)) \<Longrightarrow> marks_ok nk nr (concat (bins t'))"
    and "rehash t = Inr t' \<Longrightarrow> num_bins t < num_bins t' \<and> length (bins t') = nat (num_bins t') \<and> st_type t' = st_type t"
proof -
  have n: "num_bins t < new_size (num_bins t + 1)" if "0 \<le> new_size (num_bins t + 1)"
    using new_size_grows [OF that] by simp
  then show "rehash (clean t) = map_sum id clean (rehash t)"
    using live_rehash_bins [of "nat (new_size (num_bins t + 1))" "replicate (nat (new_size (num_bins t + 1))) []" "bins t"] assms
    by (auto simp: rehash_def Let_def cleanup_safe_eq)
  show "marks_ok nk nr (concat (bins t'))" if "rehash t = Inr t'" "marks_ok nk nr (concat (bins t))"
  proof (rule marks_ok_subset [OF _ that(2)])
    show "set (concat (bins t')) \<subseteq> set (concat (bins t))"
      using that(1) set_rehash_bins [of "nat (new_size (num_bins t + 1))" "replicate (nat (new_size (num_bins t + 1))) []" "bins t"]
      by (auto simp: rehash_def Let_def simp del: set_concat split: if_splits)
  qed
  show "rehash t = Inr t' \<Longrightarrow> num_bins t < num_bins t' \<and> length (bins t') = nat (num_bins t') \<and> st_type t' = st_type t"
    using n by (auto simp: rehash_def Let_def split: if_splits)
qed

lemma ADD_DIRECT_clean:
  assumes "marked_ok t" "k \<noteq> nk" "v \<noteq> nr" "b = unat h mod nat (num_bins t)"
  shows "ADD_DIRECT (clean t) k v h b = map_sum id clean (ADD_DIRECT t k v h b)"
    and "ADD_DIRECT t k v h b = Inr t' \<Longrightarrow> marks_ok nk nr (concat (bins t')) \<and> st_type t' = ty \<and>
      (if num_bins t' = num_bins t
       then \<forall>i < length (bins t). length (bins t ! i) \<le> length (bins t' ! i) else num_bins t < num_bins t')"
proof -
  define e where "e = \<lparr>ent_hash = h, ent_key = k, ent_record = v\<rparr>"
  define big where "big \<longleftrightarrow> num_entries t div num_bins t > ST_DEFAULT_MAX_DENSITY"
  define add where "add = (\<lambda>t. t\<lparr>bins := (bins t)[unat h mod nat (num_bins t) := e # bins t ! (unat h mod nat (num_bins t))],
    num_entries := int32 (num_entries t + 1)\<rparr> :: ('k, 'v) st_table)"
  have unfold: "ADD_DIRECT u k v h b = (if big then map_sum id add (rehash u) else Inr (add u))"
    if "num_entries u = num_entries t" "num_bins u = num_bins t" for u
    using that assms(4)
    by (auto simp: ADD_DIRECT_def e_def big_def add_def split: sum.splits)
  have add: "clean (add u) = add (clean u)" "marks_ok nk nr (concat (bins u)) \<Longrightarrow> marks_ok nk nr (concat (bins (add u)))"
    "num_bins (add u) = num_bins u" "st_type (add u) = st_type u" "length (bins u ! i) \<le> length (bins (add u) ! i)"
    if "0 < num_bins u" "length (bins u) = nat (num_bins u)" for u i
  proof -
    let ?i = "unat h mod nat (num_bins u)"
    have i: "?i < length (bins u)" using that by simp
    show "clean (add u) = add (clean u)" using i assms(3) by (simp add: add_def cleanup_safe_eq e_def map_update)
    have "set (concat (bins (add u))) \<subseteq> insert e (set (concat (bins u)))"
      using i unfolding add_def by (auto dest!: set_update_subset_insert [THEN subsetD] intro: nth_mem)
    moreover have "marks_ok nk nr [e]" using assms(2,3) by (simp add: marks_ok_def e_def)
    ultimately show "marks_ok nk nr (concat (bins u)) \<Longrightarrow> marks_ok nk nr (concat (bins (add u)))"
      unfolding marks_ok_def by auto
    show "length (bins u ! i) \<le> length (bins (add u) ! i)"
      by (cases "i = ?i") (use i in \<open>simp_all add: add_def\<close>)
  qed (simp_all add: add_def)
  note m = marked_bin [OF assms(1)]
  have mk: "marks_ok nk nr (concat (bins t))" "st_type t = ty" using assms(1) by (simp_all add: marked_ok_def)
  note r = rehash_clean [OF m(2)]
  show "ADD_DIRECT (clean t) k v h b = map_sum id clean (ADD_DIRECT t k v h b)"
  proof (cases "rehash t")
    case (Inr u)
    with r(3) [of u] m(2) have "0 < num_bins u" "length (bins u) = nat (num_bins u)" by auto
    with add(1) [of u] Inr r(1) show ?thesis
      using add(1) [OF m(2,1)] by (simp add: unfold)
  qed (use r(1) add(1) [OF m(2,1)] in \<open>simp add: unfold\<close>)
  show "marks_ok nk nr (concat (bins t')) \<and> st_type t' = ty \<and>
      (if num_bins t' = num_bins t
       then \<forall>i < length (bins t). length (bins t ! i) \<le> length (bins t' ! i) else num_bins t < num_bins t')"
    if "ADD_DIRECT t k v h b = Inr t'"
  proof (cases big)
    case True
    with that obtain u where u: "rehash t = Inr u" "t' = add u" by (cases "rehash t") (auto simp: unfold)
    with r(3) [of u] m(2) have "0 < num_bins u" "length (bins u) = nat (num_bins u)" "num_bins t < num_bins u" by auto
    with add [of u] r(2,3) [OF u(1)] mk u show ?thesis by simp
  next
    case False
    with that have "t' = add t" by (simp add: unfold)
    with add [OF m(2,1)] mk show ?thesis by simp
  qed
qed

text \<open>The chains of a table only grow until it is rehashed.\<close>

definition grows :: "('k, 'v) st_table \<Rightarrow> ('k, 'v) st_table \<Rightarrow> bool" where
  "grows t t' \<longleftrightarrow> num_bins t \<le> num_bins t' \<and>
     (num_bins t' = num_bins t \<longrightarrow> (\<forall>i < length (bins t). length (bins t ! i) \<le> length (bins t' ! i)))"

lemma insert_clean:
  assumes "marked_ok t" "k \<noteq> nk" "v \<noteq> nr"
  shows "st_insert (clean t) k v = map_sum id (apsnd clean) (st_insert t k v)"
    and "num_entries t < 2 ^ 31 - 1 \<Longrightarrow> st_insert t k v = Inr (r, t') \<Longrightarrow> marked_ok t' \<and> grows t t'"
proof -
  let ?h = "hash_fn ty k" and ?i = "unat (hash_fn ty k) mod nat (num_bins t)"
  note m = marked_bin [OF assms(1)]
  have i: "?i < length (bins t)" by (rule m(3))
  have mk: "marks_ok nk nr (concat (bins t))" "st_type t = ty" using assms(1) by (simp_all add: marked_ok_def)
  have bin: "bins (clean t) ! ?i = live (bins t ! ?i)" using i by simp
  note f = find_live [OF assms(2) m(4) [OF i], of ?h]
  have eq: "st_insert (clean t) k v = map_sum id (apsnd clean) (st_insert t k v)"
    and mg: "st_insert t k v = Inr (r, t') \<Longrightarrow> marks_ok nk nr (concat (bins t')) \<and> st_type t' = ty \<and> grows t t'"
  proof -
    show "st_insert (clean t) k v = map_sum id (apsnd clean) (st_insert t k v)"
    proof (cases "find_entry ty ?h k (bins t ! ?i)")
      case None
      with f have "find_entry ty ?h k (live (bins t ! ?i)) = None" by simp
      with None bin ADD_DIRECT_clean(1) [OF assms refl, of ?h] show ?thesis
        by (auto simp: st_insert_def FIND_ENTRY_def do_hash_def Let_def mk(2) simp del: clean_simps(4) split: sum.splits)
    next
      case (Some n)
      with f obtain j where j: "find_entry ty ?h k (live (bins t ! ?i)) = Some j" "live (bins t ! ?i) ! j = bins t ! ?i ! n"
        "live ((bins t ! ?i)[n := (bins t ! ?i ! n)\<lparr>ent_record := v\<rparr>]) = (live (bins t ! ?i))[j := (bins t ! ?i ! n)\<lparr>ent_record := v\<rparr>]"
        using assms(3) by auto
      with Some bin show ?thesis
        by (simp add: st_insert_def FIND_ENTRY_def do_hash_def Let_def mk(2) cleanup_safe_eq map_update)
    qed
    show "marks_ok nk nr (concat (bins t')) \<and> st_type t' = ty \<and> grows t t'" if ins: "st_insert t k v = Inr (r, t')"
    proof (cases "find_entry ty ?h k (bins t ! ?i)")
      case None
      with ins have "ADD_DIRECT t k v ?h ?i = Inr t'"
        by (simp add: st_insert_def FIND_ENTRY_def do_hash_def Let_def mk(2) split: sum.splits)
      from ADD_DIRECT_clean(2) [OF assms refl this] show ?thesis
        by (cases "num_bins t' = num_bins t") (simp_all add: grows_def)
    next
      case (Some n)
      let ?e = "(bins t ! ?i ! n)\<lparr>ent_record := v\<rparr>"
      have t': "t' = t\<lparr>bins := (bins t)[?i := (bins t ! ?i)[n := ?e]]\<rparr>"
        using ins Some by (simp add: st_insert_def FIND_ENTRY_def do_hash_def Let_def mk(2))
      have "EQUAL ty k (ent_key (bins t ! ?i ! n))" using find_entry_Some [OF Some] by blast
      then have "marks_ok nk nr [?e]" using not_marker [OF assms(2)] assms(3) by (simp add: marks_ok_def)
      moreover have "set (concat (bins t')) \<subseteq> insert ?e (set (concat (bins t)))"
        using set_concat_update2 [OF i, of n ?e] by (simp add: t')
      ultimately have "marks_ok nk nr (concat (bins t'))" using mk(1) by (blast intro: marks_ok_insert)
      moreover have "grows t t'" using i by (simp add: grows_def nth_list_update t')
      ultimately show ?thesis using mk t' by simp
    qed
  qed
  show "st_insert (clean t) k v = map_sum id (apsnd clean) (st_insert t k v)" by (rule eq)
  show "marked_ok t' \<and> grows t t'" if room: "num_entries t < 2 ^ 31 - 1" and ins: "st_insert t k v = Inr (r, t')"
  proof -
    from eq ins have "st_insert (clean t) k v = Inr (r, clean t')" by simp
    with dict.put_wf [of "clean t" k v r "clean t'"] assms(1) room have "st_inv (clean t')" by (simp add: marked_ok_def)
    with mg [OF ins] show ?thesis by (simp add: marked_ok_def)
  qed
qed

lemma marked_count: "marked_ok t \<Longrightarrow> 0 \<le> num_entries t"
  using st_invD(4) [of "clean t"] by (simp add: marked_ok_def)

lemma delete_safe_rest_Some:
  "delete_safe_rest ty k nk chain = Some n \<Longrightarrow> n < length chain \<and> ent_key (chain ! n) \<noteq> nk \<and> EQUAL ty (ent_key (chain ! n)) k"
  by (induction chain arbitrary: n) (auto split: if_splits)

lemma delete_safe_clean:
  assumes "marked_ok t"
  shows "clean (del_table (st_delete_safe t k nk nr)) = del_table (st_delete (clean t) k)"
    and "del_ret (st_delete_safe t k nk nr) = del_ret (st_delete (clean t) k)"
    and "marked_ok (del_table (st_delete_safe t k nk nr))" "grows t (del_table (st_delete_safe t k nk nr))"
    and "del_ret (st_delete_safe t k nk nr) \<noteq> 0 \<Longrightarrow> \<exists>v. del_value (st_delete_safe t k nk nr) = SetTo v \<and> st_lookup (clean t) k = Some v"
proof -
  have ty: "st_type t = ty" and mk: "\<forall>chain \<in> set (bins t). marks_ok nk nr chain"
    using assms by (auto simp: marked_ok_def marks_ok_def)
  note c = delete_safe_cleanup [OF _ marked_bin(1,2) [OF assms] mk, of k, unfolded ty, OF equal_sym]
  show 1: "clean (del_table (st_delete_safe t k nk nr)) = del_table (st_delete (clean t) k)"
    "del_ret (st_delete_safe t k nk nr) = del_ret (st_delete (clean t) k)"
    using c by blast+
  have "st_inv (clean (del_table (st_delete_safe t k nk nr)))"
    unfolding 1 using dict.del_wf [of "clean t" k] assms by (simp add: marked_ok_def)
  then show "marked_ok (del_table (st_delete_safe t k nk nr))"
    using marks_ok_delete_safe [OF mk, of k] ty by (auto simp: marked_ok_def delete_safe_frame marks_ok_def)
  show "grows t (del_table (st_delete_safe t k nk nr))"
    by (auto simp: grows_def st_delete_safe_unfold(2) nth_list_update_if split: option.splits)
  let ?c = "bins t ! do_hash_bin k t"
  show "\<exists>v. del_value (st_delete_safe t k nk nr) = SetTo v \<and> st_lookup (clean t) k = Some v"
    if "del_ret (st_delete_safe t k nk nr) \<noteq> 0"
  proof -
    from that obtain n where n: "delete_safe_rest ty k nk ?c = Some n" "del_value (st_delete_safe t k nk nr) = SetTo (ent_record (?c ! n))"
      by (auto simp: st_delete_safe_def Let_def ty split: list.splits option.splits)
    note m = marked_bin(3) [OF assms, of "do_hash k t", folded do_hash_bin_def]
    note d = delete_safe_rest_Some [OF n(1)]
    have c: "?c ! n \<in> set ?c" using d by simp
    then have "ent_record (?c ! n) \<noteq> nr" using bspec [OF mk nth_mem [OF m]] d by (auto simp: marks_ok_def)
    then have "?c ! n \<in> st_entries (clean t)"
      using c m unfolding set_concat_nth by (intro exI [of _ "do_hash_bin k t"]) simp
    then show ?thesis
      using n(2) d equal_sym lookup_iff [of "clean t" k] assms by (auto simp: marked_ok_def)
  qed
qed

end

lemma delete_entries_subset: "st_entries (del_table (st_delete t k)) \<subseteq> st_entries t"
proof (cases "do_hash_bin k t < length (bins t)")
  case True
  have "set (unlink_entry n xs) \<subseteq> set xs" for n and xs :: "('a, 'b) st_table_entry list"
    unfolding unlink_entry_def using set_take_subset [of n xs] set_drop_subset [of "Suc n" xs] by auto
  then show ?thesis
    using True by (auto simp: st_delete_unfold(2) split: option.splits dest!: set_update_subset_insert [THEN subsetD])
      (meson nth_mem subsetD)+
next
  case False
  then show ?thesis by (auto simp: st_delete_unfold(2) list_update_beyond split: option.splits)
qed

sublocale any_hash_laws \<subseteq> mk: marked_keys "objhash eql_m hash_m" Qundef Qundef
  by unfold_locales (auto simp: any_equal_iff)

section \<open>Hash objects\<close>

text \<open>
  The invariant of a hash object: its table is well formed but for marked entries; there are marked
  entries only inside an iteration, and then the flag says so.
\<close>

definition hash_ok :: "val st_hash_type \<Rightarrow> rhash \<Rightarrow> bool" where
  "hash_ok ty h \<longleftrightarrow>
     (case rh_tbl h of
        None \<Rightarrow> False
      | Some t \<Rightarrow>
          st_type t = ty \<and> st_inv (st_cleanup_safe t Qundef) \<and> marks_ok Qundef Qundef (concat (bins t)) \<and>
          0 \<le> iter_lev h \<and> (hash_deleted h \<longrightarrow> 0 < iter_lev h) \<and>
          (\<not> hash_deleted h \<longrightarrow> (\<forall>e \<in> st_entries t. ent_record e \<noteq> Qundef)))"

text \<open>The map that a hash stands for, and what the operations of a block do to it.\<close>

definition hash_map :: "rhash \<Rightarrow> val \<Rightarrow> val option" where
  "hash_map h k = (case rh_tbl h of None \<Rightarrow> None | Some t \<Rightarrow> st_lookup (st_cleanup_safe t Qundef) k)"

definition wf_op :: "hash_op \<Rightarrow> bool" where
  "wf_op x = (case x of OpDelete k \<Rightarrow> k \<noteq> Qundef | OpAset k v \<Rightarrow> k \<noteq> Qundef \<and> v \<noteq> Qundef)"

definition map_op :: "val st_hash_type \<Rightarrow> hash_op \<Rightarrow> (val \<Rightarrow> val option) \<Rightarrow> val \<Rightarrow> val option" where
  "map_op ty x m k' =
     (case x of
        OpDelete k \<Rightarrow> if EQUAL ty k k' then None else m k'
      | OpAset k v \<Rightarrow> if EQUAL ty k k' then Some v else m k')"

text \<open>The errors that an operation of a block can raise.\<close>

definition op_errors :: "rb_error set" where
  "op_errors = {FrozenError, SecurityError, NoMemError}"

abbreviation size_of :: "rhash \<Rightarrow> int" where
  "size_of h \<equiv> num_entries (the (rh_tbl h))"

abbreviation bins_of :: "rhash \<Rightarrow> int" where
  "bins_of h \<equiv> num_bins (the (rh_tbl h))"

text \<open>
  The stores among the operations of a block, and when there is room for \<open>L\<close> of them in each call of an iteration:
  the counter of entries is an \<^verbatim>\<open>int\<close> and must not wrap. Until it is rehashed, which ends the iteration, a table has no
  more entries than at the start or than six for each bin.
\<close>

definition stores :: "hash_op list \<Rightarrow> nat" where
  "stores ops = length (filter (\<lambda>x. case x of OpAset _ _ \<Rightarrow> True | OpDelete _ \<Rightarrow> False) ops)"

definition room :: "nat \<Rightarrow> rhash \<Rightarrow> bool" where
  "room L h \<longleftrightarrow> L = 0 \<or> max (size_of h) (6 * bins_of h) + int L < 2 ^ 31"

lemma hash_store_insert: "hash_store t k v = bindR (st_insert t k v) (\<lambda>(_, t). Inr t)"
proof (cases "rb_str_new4 k = None \<or> st_lookup t k \<noteq> None")
  case True
  then show ?thesis by (auto simp: hash_store_def split: option.splits)
next
  case False
  then have k: "rb_str_new4 k = Some k" "st_lookup t k = None"
    by (auto simp: rb_str_new4_def split: rval.splits prim.splits)
  then have "FIND_ENTRY t (do_hash k t) k = None" by (auto simp: st_lookup_def Let_def split: option.splits)
  then have "st_add_direct t k v = bindR (st_insert t k v) (\<lambda>(_, t). Inr t)"
    by (auto simp: st_add_direct_def st_insert_def Let_def split: sum.splits)
  with k show ?thesis by (simp add: hash_store_def)
qed

context any_hash_laws
begin

abbreviation hty :: "val st_hash_type" where
  "hty \<equiv> objhash eql_m hash_m"

lemma hash_okD:
  assumes "hash_ok hty h"
  obtains t where "rh_tbl h = Some t" "mk.marked_ok t" "0 \<le> iter_lev h" "hash_deleted h \<longrightarrow> 0 < iter_lev h"
    "\<not> hash_deleted h \<longrightarrow> (\<forall>e \<in> st_entries t. ent_record e \<noteq> Qundef)"
  using assms that by (auto simp: hash_ok_def mk.marked_ok_def split: option.splits)

lemma hash_okI:
  assumes "rh_tbl h = Some t" "mk.marked_ok t" "0 \<le> iter_lev h" "hash_deleted h \<longrightarrow> 0 < iter_lev h"
    "\<not> hash_deleted h \<longrightarrow> (\<forall>e \<in> st_entries t. ent_record e \<noteq> Qundef)"
  shows "hash_ok hty h"
  using assms by (simp add: hash_ok_def mk.marked_ok_def)

lemma hash_map_lookup: "rh_tbl h = Some t \<Longrightarrow> mk.marked_ok t \<Longrightarrow> k \<noteq> Qundef \<Longrightarrow> st_lookup t k = hash_map h k"
  by (simp add: hash_map_def mk.lookup_clean)

lemma hash_modify_tbl: "rb_hash_modify safe h = Inr () \<Longrightarrow> \<exists>t. rh_tbl h = Some t"
  by (auto simp: rb_hash_modify_def split: if_splits)

lemma aset_ok:
  assumes "hash_ok hty h" "k \<noteq> Qundef" "v \<noteq> Qundef" "rb_hash_aset safe h k v = Inr h'" "size_of h < 2 ^ 31 - 1"
  shows "hash_ok hty h' \<and> hash_map h' = map_op hty (OpAset k v) (hash_map h) \<and> iter_lev h' = iter_lev h \<and>
    mk.grows (the (rh_tbl h)) (the (rh_tbl h'))"
    and "size_of h' \<le> size_of h + 1 \<and> bins_of h \<le> bins_of h' \<and>
      (bins_of h' = bins_of h \<longrightarrow> size_of h' \<le> max (size_of h) (6 * bins_of h))"
proof -
  obtain t where t: "rh_tbl h = Some t" "mk.marked_ok t" "0 \<le> iter_lev h" "hash_deleted h \<longrightarrow> 0 < iter_lev h"
    "\<not> hash_deleted h \<longrightarrow> (\<forall>e \<in> st_entries t. ent_record e \<noteq> Qundef)" using hash_okD [OF assms(1)] .
  with assms(4) obtain r t' where t': "st_insert t k v = Inr (r, t')" "h' = h\<lparr>rh_tbl := Some t'\<rparr>"
    by (cases "st_insert t k v") (auto simp: rb_hash_aset_def with_tbl_def hash_store_insert bindR_def split: sum.splits)
  note ins = mk.insert_clean [OF t(2) assms(2,3)]
  have room: "num_entries t < 2 ^ 31 - 1" using assms(5) t(1) by simp
  have c: "st_insert (mk.clean t) k v = Inr (r, mk.clean t')" using ins(1) t'(1) by simp
  have "hash_map h' = map_op hty (OpAset k v) (hash_map h)"
    using keys.dict.put_get [OF _ _ c] t(2) room by (auto simp: hash_map_def t'(2) t(1) map_op_def mk.marked_ok_def)
  moreover have "\<not> hash_deleted h \<longrightarrow> mk.clean t' = t'"
    using t(5) c t'(1) mk.clean_id [of t] by (metis prod.inject sum.inject(2))
  ultimately show "hash_ok hty h' \<and> hash_map h' = map_op hty (OpAset k v) (hash_map h) \<and> iter_lev h' = iter_lev h \<and>
    mk.grows (the (rh_tbl h)) (the (rh_tbl h'))"
    using ins(2) [OF room t'(1)] t t'(2) by (auto intro!: hash_okI simp: mk.clean_id)
  show "size_of h' \<le> size_of h + 1 \<and> bins_of h \<le> bins_of h' \<and>
      (bins_of h' = bins_of h \<longrightarrow> size_of h' \<le> max (size_of h) (6 * bins_of h))"
    using insert_size [OF t'(1) mk.marked_bin(2) [OF t(2)] mk.marked_count [OF t(2)] room] t(1) t'(2) by simp
qed

lemma delete_ok:
  assumes "hash_ok hty h" "k \<noteq> Qundef" "rb_hash_delete safe blk h k = Inr (v, h')"
  shows "hash_ok hty h' \<and> hash_map h' = map_op hty (OpDelete k) (hash_map h) \<and> iter_lev h' = iter_lev h \<and>
    (0 < iter_lev h \<longrightarrow> mk.grows (the (rh_tbl h)) (the (rh_tbl h'))) \<and>
    (case hash_map h k of Some x \<Rightarrow> v = x | None \<Rightarrow> case blk of None \<Rightarrow> v = Qnil | Some b \<Rightarrow> b k = Inr v)"
proof -
  obtain t where t: "rh_tbl h = Some t" "mk.marked_ok t" "0 \<le> iter_lev h" "hash_deleted h \<longrightarrow> 0 < iter_lev h"
    "\<not> hash_deleted h \<longrightarrow> (\<forall>e \<in> st_entries t. ent_record e \<noteq> Qundef)" using hash_okD [OF assms(1)] .
  define d where "d = (if iter_lev h > 0 then st_delete_safe t k Qundef Qundef else st_delete t k)"
  have inv: "st_inv (mk.clean t)" "st_type (mk.clean t) = hty" using t(2) by (simp_all add: mk.marked_ok_def)
  note spec = keys.delete_spec [OF inv, where k = k]
  have no: "mk.clean t = t" if "\<not> 0 < iter_lev h" using t(4,5) that mk.clean_id by blast
  have d: "mk.clean (del_table d) = del_table (st_delete (mk.clean t) k)" "del_ret d = del_ret (st_delete (mk.clean t) k)"
    "mk.marked_ok (del_table d)" "0 < iter_lev h \<Longrightarrow> mk.grows t (del_table d)"
    "del_ret d \<noteq> 0 \<Longrightarrow> \<exists>v. del_value d = SetTo v \<and> st_lookup (mk.clean t) k = Some v"
    "\<not> 0 < iter_lev h \<Longrightarrow> mk.clean (del_table d) = del_table d"
  proof -
    have *: "mk.clean (del_table d) = del_table (st_delete (mk.clean t) k) \<and> del_ret d = del_ret (st_delete (mk.clean t) k) \<and>
      mk.marked_ok (del_table d) \<and> (del_ret d \<noteq> 0 \<longrightarrow> (\<exists>v. del_value d = SetTo v \<and> st_lookup (mk.clean t) k = Some v)) \<and>
      (\<not> 0 < iter_lev h \<longrightarrow> mk.clean (del_table d) = del_table d)"
    proof (cases "0 < iter_lev h")
      case True
      then show ?thesis using mk.delete_safe_clean [OF t(2), of k] by (simp add: d_def)
    next
      case False
      note c = no [OF False]
      have "mk.clean (del_table d) = del_table d"
        using False c delete_entries_subset [of t k] unfolding mk.clean_id by (auto simp: d_def)
      moreover have "mk.marked_ok (del_table d)"
        using calculation spec(1,2) c False t(2) delete_entries_subset [of t k]
        by (auto simp: mk.marked_ok_def d_def marks_ok_def)
      ultimately show ?thesis using spec(3,6) c False by (auto simp: d_def split: if_splits)
    qed
    then show "mk.clean (del_table d) = del_table (st_delete (mk.clean t) k)" "del_ret d = del_ret (st_delete (mk.clean t) k)"
      "mk.marked_ok (del_table d)" "del_ret d \<noteq> 0 \<Longrightarrow> \<exists>v. del_value d = SetTo v \<and> st_lookup (mk.clean t) k = Some v"
      "\<not> 0 < iter_lev h \<Longrightarrow> mk.clean (del_table d) = del_table d" by blast+
    show "0 < iter_lev h \<Longrightarrow> mk.grows t (del_table d)" using mk.delete_safe_clean(4) [OF t(2)] by (simp add: d_def)
  qed
  show ?thesis
  proof (cases "del_ret d = 0")
    case True
    then have "st_lookup (mk.clean t) k = None" using d(2) spec(3) by (auto split: if_splits)
    moreover have "h' = h" "case blk of None \<Rightarrow> v = Qnil | Some b \<Rightarrow> b k = Inr v"
      using assms(3) True t(1)
      by (auto simp: rb_hash_delete_def with_tbl_def d_def bindR_def Let_def split: sum.splits option.splits if_splits)
    moreover have "st_lookup (mk.clean t) k' = None" if "EQUAL hty k k'" for k'
      using keys.dict.get_same [of "mk.clean t" k k'] inv calculation(1) that by simp
    ultimately show ?thesis
      using assms(1) t(1) by (auto simp: hash_map_def map_op_def fun_eq_iff mk.grows_def)
  next
    case False
    then obtain x where x: "del_value d = SetTo x" "st_lookup (mk.clean t) k = Some x" using d(5) by blast
    then have "v = x" "h' = h\<lparr>rh_tbl := Some (del_table d), hash_deleted := hash_deleted h \<or> iter_lev h > 0\<rparr>"
      using assms(3) False t(1) by (auto simp: rb_hash_delete_def with_tbl_def d_def bindR_def Let_def split: sum.splits if_splits)
    moreover have "hash_map (h\<lparr>rh_tbl := Some (del_table d), hash_deleted := b\<rparr>) = map_op hty (OpDelete k) (hash_map h)" for b
      using spec(5) d(1) t(1) by (simp add: hash_map_def map_op_def fun_eq_iff)
    moreover have "hash_ok hty (h\<lparr>rh_tbl := Some (del_table d), hash_deleted := hash_deleted h \<or> iter_lev h > 0\<rparr>)"
      using d(3,6) t(3,4) mk.clean_id [of "del_table d"] by (intro hash_okI) auto
    ultimately show ?thesis using t(1) d(4) x(2) by (simp add: hash_map_def)
  qed
qed

lemma delete_size:
  assumes "rb_hash_delete safe blk h k = Inr (v, h')"
  shows "bins_of h' = bins_of h" "size_of h' \<le> size_of h"
proof -
  have "num_bins (del_table (st_delete_safe t k Qundef Qundef)) = num_bins t \<and> num_entries (del_table (st_delete_safe t k Qundef Qundef)) \<le> num_entries t"
    "num_bins (del_table (st_delete t k)) = num_bins t \<and> num_entries (del_table (st_delete t k)) \<le> num_entries t" for t :: "(val, val) st_table"
    by (auto simp: st_delete_unfold(2) st_delete_safe_unfold(2) split: option.splits)
  with assms have "bins_of h' = bins_of h \<and> size_of h' \<le> size_of h"
    by (auto simp: rb_hash_delete_def with_tbl_def bindR_def Let_def split: sum.splits option.splits if_splits out_param.splits)
  then show "bins_of h' = bins_of h" "size_of h' \<le> size_of h" by blast+
qed

lemma insert_error: "st_insert t k v = Inl e \<Longrightarrow> e = NoMemError"
  by (auto simp: st_insert_def ADD_DIRECT_def rehash_def Let_def split: option.splits sum.splits if_splits)

text \<open>What holds from a hash to a later state of it, inside an iteration.\<close>

definition later :: "rhash \<Rightarrow> hash_op list \<Rightarrow> rhash \<Rightarrow> bool" where
  "later h ops h' \<longleftrightarrow>
     hash_ok hty h' \<and> iter_lev h' = iter_lev h \<and> hash_map h' = fold (map_op hty) ops (hash_map h) \<and>
     (0 < iter_lev h \<longrightarrow> mk.grows (the (rh_tbl h)) (the (rh_tbl h'))) \<and>
     size_of h' \<le> size_of h + int (stores ops) \<and> bins_of h \<le> bins_of h' \<and>
     (bins_of h' = bins_of h \<longrightarrow> size_of h' \<le> max (size_of h) (6 * bins_of h))"

lemma later_refl: "hash_ok hty h \<Longrightarrow> later h [] h"
  by (simp add: later_def mk.grows_def stores_def)

lemma ok_bins: "hash_ok hty h \<Longrightarrow> rh_tbl h = Some t \<Longrightarrow> length (bins t) = nat (num_bins t)"
  using mk.marked_bin(1) by (auto elim!: hash_okD)

lemma later_trans:
  assumes "hash_ok hty h" "later h ops h'" "later h' ops' h''"
  shows "later h (ops @ ops') h''"
proof -
  obtain t t' t'' where t: "rh_tbl h = Some t" "rh_tbl h' = Some t'" "rh_tbl h'' = Some t''"
    using assms by (auto simp: later_def elim!: hash_okD)
  moreover have "hash_ok hty h'" "hash_ok hty h''" using assms by (auto simp: later_def)
  ultimately have "length (bins t) = nat (num_bins t)" "length (bins t') = nat (num_bins t')"
    using assms(1) by (auto intro: ok_bins)
  then have "mk.grows t t' \<Longrightarrow> mk.grows t' t'' \<Longrightarrow> mk.grows t t''"
    unfolding mk.grows_def by (smt (verit) le_trans)
  moreover have "int (stores (ops @ ops')) = int (stores ops) + int (stores ops')" by (simp add: stores_def)
  ultimately show ?thesis using assms(2,3) t unfolding later_def by auto
qed

lemma run_op_ok:
  assumes "hash_ok hty h" "wf_op x" "stores [x] = 0 \<or> size_of h < 2 ^ 31 - 1"
  shows "run_op safe x h = Inr h' \<Longrightarrow> later h [x] h'" "run_op safe x h = Inl e \<Longrightarrow> e \<in> op_errors"
proof -
  show "later h [x] h'" if "run_op safe x h = Inr h'"
  proof (cases x)
    case (OpDelete k)
    with that obtain v where "rb_hash_delete safe None h k = Inr (v, h')"
      by (cases "rb_hash_delete safe None h k") (auto simp: run_op_def)
    from delete_ok [OF assms(1) _ this] delete_size [OF this] OpDelete assms(2) show ?thesis
      by (simp add: later_def wf_op_def stores_def)
  next
    case (OpAset k v)
    with that aset_ok [OF assms(1), of k v safe h'] assms(2,3) show ?thesis
      by (simp add: later_def wf_op_def run_op_def stores_def)
  qed
  obtain t where t: "rh_tbl h = Some t" "mk.marked_ok t" using hash_okD [OF assms(1)] .
  show "e \<in> op_errors" if "run_op safe x h = Inl e"
  proof (cases "rb_hash_modify safe h")
    case (Inl f)
    with t that show ?thesis
      by (cases x) (auto simp: run_op_def rb_hash_delete_def rb_hash_aset_def op_errors_def rb_hash_modify_def split: if_splits)
  next
    case (Inr u)
    show ?thesis
    proof (cases x)
      case (OpDelete k)
      have 1: "del_ret (st_delete_safe t k Qundef Qundef) \<noteq> 0 \<Longrightarrow> \<exists>v. del_value (st_delete_safe t k Qundef Qundef) = SetTo v"
        using mk.delete_safe_clean(5) [OF t(2)] by blast
      have 2: "del_ret (st_delete t k) \<noteq> 0 \<Longrightarrow> \<exists>v. del_value (st_delete t k) = SetTo v"
        by (auto simp: st_delete_def Let_def split: list.splits option.splits if_splits)
      from OpDelete Inr t that 1 2 show ?thesis
        by (auto simp: run_op_def rb_hash_delete_def with_tbl_def Let_def bindR_def split: sum.splits out_param.splits if_splits)
    next
      case (OpAset k v)
      with Inr t that show ?thesis
        by (auto simp: run_op_def rb_hash_aset_def with_tbl_def hash_store_insert bindR_def op_errors_def
            split: sum.splits dest: insert_error)
    qed
  qed
qed

lemma run_ops_ok:
  assumes "hash_ok hty h" "\<forall>x \<in> set xs. wf_op x" "run_ops safe xs h = (r, h')"
    "stores xs = 0 \<or> size_of h + int (stores xs) < 2 ^ 31"
  shows "\<exists>ys. later h ys h' \<and> set ys \<subseteq> set xs \<and> (r = None \<longrightarrow> ys = xs) \<and> (\<forall>e. r = Some e \<longrightarrow> e \<in> op_errors)"
  using assms
proof (induction xs arbitrary: h)
  case Nil
  then show ?case using later_refl by auto
next
  case (Cons x xs)
  have st: "stores (x # xs) = stores [x] + stores xs" by (simp add: stores_def)
  have room: "stores [x] = 0 \<or> size_of h < 2 ^ 31 - 1" using Cons.prems(4) unfolding st by linarith
  show ?case
  proof (cases "run_op safe x h")
    case (Inl e)
    with Cons.prems run_op_ok(2) [OF Cons.prems(1) _ room Inl] later_refl [OF Cons.prems(1)] show ?thesis
      by (intro exI [of _ "[]"]) auto
  next
    case (Inr g)
    have g: "later h [x] g" using run_op_ok(1) [OF Cons.prems(1) _ room Inr] Cons.prems(2) by simp
    then have g': "hash_ok hty g" "size_of g \<le> size_of h + int (stores [x])" by (simp_all add: later_def)
    then have "stores xs = 0 \<or> size_of g + int (stores xs) < 2 ^ 31" using Cons.prems(4) unfolding st by linarith
    from Cons.IH [OF g'(1) _ _ this] Cons.prems(2,3) Inr obtain ys where "later g ys h'" "set ys \<subseteq> set xs" "r = None \<longrightarrow> ys = xs"
      "\<forall>e. r = Some e \<longrightarrow> e \<in> op_errors" by auto
    with later_trans [OF Cons.prems(1) g] show ?thesis by (intro exI [of _ "x # ys"]) auto
  qed
qed

subsection \<open>The walk\<close>

text \<open>
  A callback that keeps the entries: what it does to the hash is a sequence of operations out of \<open>A\<close>, with at most \<open>L\<close>
  stores in one call.
\<close>

lemma room_later: "room L h \<Longrightarrow> later h ops h' \<Longrightarrow> bins_of h' = bins_of h \<Longrightarrow> room L h'"
  by (auto simp: room_def later_def)

definition keeping :: "nat \<Rightarrow> hash_op set \<Rightarrow> 's live_func \<Rightarrow> bool" where
  "keeping L A func \<longleftrightarrow>
     (\<forall>key value h s r h' s'. hash_ok hty h \<longrightarrow> 0 < iter_lev h \<longrightarrow> room L h \<longrightarrow> func key value (h, s) = (r, h', s') \<longrightarrow>
        (\<exists>ops. later h ops h' \<and> set ops \<subseteq> A) \<and> r \<noteq> Inr ST_DELETE \<and> (\<forall>e. r = Inl e \<longrightarrow> e \<in> op_errors))"

lemma keeping_iter:
  assumes "keeping L A func" "hash_ok hty h" "0 < iter_lev h" "room L h" "rb_hash_foreach_iter func key value (h, s) = (r, h', s')"
  shows "\<exists>ops. later h ops h' \<and> set ops \<subseteq> A" "r \<noteq> Inr ST_DELETE" "r = Inl e \<Longrightarrow> e \<in> insert IndexError op_errors"
    "r = Inr x \<Longrightarrow> bins_of h' = bins_of h"
proof -
  obtain r1 h1 s1 where f: "func key value (h, s) = (r1, h1, s1)" by (metis prod_cases3)
  have f': "(\<exists>ops. later h ops h1 \<and> set ops \<subseteq> A) \<and> r1 \<noteq> Inr ST_DELETE \<and> (\<forall>e. r1 = Inl e \<longrightarrow> e \<in> op_errors)"
    using assms(1-4) f unfolding keeping_def by blast
  have q: "\<exists>ops. later h ops h \<and> set ops \<subseteq> A" using later_refl [OF assms(2)] by (intro exI [of _ "[]"]) simp
  obtain t where t: "rh_tbl h = Some t" using hash_okD [OF assms(2)] by metis
  obtain t1 where t1: "rh_tbl h1 = Some t1" using f' by (auto simp: later_def elim!: hash_okD)
  have "(\<exists>ops. later h ops h' \<and> set ops \<subseteq> A) \<and> r \<noteq> Inr ST_DELETE \<and> (\<forall>e. r = Inl e \<longrightarrow> e \<in> insert IndexError op_errors) \<and>
    (\<forall>x. r = Inr x \<longrightarrow> bins_of h' = bins_of h)"
    using assms(5) f' q t t1 unfolding rb_hash_foreach_iter_def f
    by (cases r1) (auto split: if_splits)
  then show "\<exists>ops. later h ops h' \<and> set ops \<subseteq> A" "r \<noteq> Inr ST_DELETE" "r = Inl e \<Longrightarrow> e \<in> insert IndexError op_errors"
    "r = Inr x \<Longrightarrow> bins_of h' = bins_of h" by blast+
qed

lemma live_chain_keeping:
  assumes "keeping L A func" "hash_ok hty h" "0 < iter_lev h" "room L h" "i < nat (bins_of h)" "n \<le> length (bins (the (rh_tbl h)) ! i)"
    "live_chain func i passed n (h, s) = (r, h', s')"
  shows "(\<exists>ops. later h ops h' \<and> set ops \<subseteq> A) \<and> (\<forall>e. r = Inl e \<longrightarrow> e \<in> insert IndexError op_errors) \<and>
    (\<forall>x. r = Inr x \<longrightarrow> bins_of h' = bins_of h)"
  using assms(2-7)
proof (induction n arbitrary: h s passed)
  case 0
  then show ?case using later_refl by (auto intro!: exI [of _ "[]"])
next
  case (Suc n)
  obtain t where t: "rh_tbl h = Some t" using hash_okD [OF Suc.prems(1)] by metis
  define ptr where "ptr = bins t ! i ! (length (bins t ! i) - Suc n)"
  obtain r1 h1 s1 where f: "rb_hash_foreach_iter func (ent_key ptr) (ent_record ptr) (h, s) = (r1, h1, s1)" by (metis prod_cases3)
  note k = keeping_iter [OF assms(1) Suc.prems(1-3) f]
  from k(1) obtain ops where ops: "later h ops h1" "set ops \<subseteq> A" by blast
  have unfold: "live_chain func i passed (Suc n) (h, s) =
      (case r1 of Inl e \<Rightarrow> (Inl e, h1, s1)
        | Inr v \<Rightarrow> if v = ST_STOP then (Inr True, h1, s1) else live_chain func i True n (h1, s1))"
    using Suc.prems(5) k(2) t f by (auto simp: ptr_def Let_def split: sum.splits st_retval.splits)
  show ?case
  proof (cases "\<exists>v. r1 = Inr v \<and> v \<noteq> ST_STOP")
    case False
    with unfold Suc.prems(6) k(3,4) ops show ?thesis by (cases r1) auto
  next
    case True
    then obtain v where v: "r1 = Inr v" "v \<noteq> ST_STOP" by blast
    obtain t1 where t1: "rh_tbl h1 = Some t1" using ops(1) by (auto simp: later_def elim!: hash_okD)
    have b: "bins_of h1 = bins_of h" by (rule k(4) [OF v(1)])
    have "mk.grows t t1" using ops(1) Suc.prems(2) t t1 by (simp add: later_def)
    then have len: "length (bins t ! i) \<le> length (bins t1 ! i)"
      using b t t1 Suc.prems(4) ok_bins [OF Suc.prems(1) t] by (simp add: mk.grows_def)
    have "(\<exists>ops. later h1 ops h' \<and> set ops \<subseteq> A) \<and> (\<forall>e. r = Inl e \<longrightarrow> e \<in> insert IndexError op_errors) \<and>
      (\<forall>x. r = Inr x \<longrightarrow> bins_of h' = bins_of h1)"
    proof (rule Suc.IH)
      show "live_chain func i True n (h1, s1) = (r, h', s')" using unfold v Suc.prems(6) by simp
      show "room L h1" by (rule room_later [OF Suc.prems(3) ops(1) b])
    qed (use ops(1) Suc.prems b len t t1 in \<open>simp_all add: later_def\<close>)
    then show ?thesis using b ops later_trans [OF Suc.prems(1) ops(1)] by (metis (no_types, lifting) Un_least set_append)
  qed
qed

lemma live_bins_keeping:
  assumes "keeping L A func" "hash_ok hty h" "0 < iter_lev h" "room L h" "\<forall>i \<in> set is. i < nat (bins_of h)"
    "live_bins func is (h, s) = (r, h', s')"
  shows "(\<exists>ops. later h ops h' \<and> set ops \<subseteq> A) \<and> (\<forall>e. r = Inl e \<longrightarrow> e \<in> insert IndexError op_errors)"
  using assms(2-6)
proof (induction "is" arbitrary: h s)
  case Nil
  then show ?case using later_refl by (auto intro!: exI [of _ "[]"])
next
  case (Cons i "is")
  obtain t where t: "rh_tbl h = Some t" using hash_okD [OF Cons.prems(1)] by metis
  obtain r1 h1 s1 where c: "live_chain func i False (length (bins t ! i)) (h, s) = (r1, h1, s1)" by (metis prod_cases3)
  have k: "(\<exists>ops. later h ops h1 \<and> set ops \<subseteq> A) \<and> (\<forall>e. r1 = Inl e \<longrightarrow> e \<in> insert IndexError op_errors) \<and>
    (\<forall>x. r1 = Inr x \<longrightarrow> bins_of h1 = bins_of h)"
    by (rule live_chain_keeping [OF assms(1) Cons.prems(1-3) _ _ c]) (use Cons.prems(4) t in simp_all)
  then obtain ops where ops: "later h ops h1" "set ops \<subseteq> A" by blast
  show ?case
  proof (cases "r1 = Inr False")
    case False
    with Cons.prems(5) k t c show ?thesis by (cases r1) auto
  next
    case True
    have "(\<exists>ops. later h1 ops h' \<and> set ops \<subseteq> A) \<and> (\<forall>e. r = Inl e \<longrightarrow> e \<in> insert IndexError op_errors)"
    proof (rule Cons.IH)
      show "live_bins func is (h1, s1) = (r, h', s')" using True Cons.prems(5) t c by simp
      show "room L h1" by (rule room_later [OF Cons.prems(3) ops(1)]) (use k True in blast)
    qed (use ops(1) Cons.prems k True in \<open>auto simp: later_def\<close>)
    then show ?thesis using ops later_trans [OF Cons.prems(1) ops(1)] by (metis (no_types, lifting) Un_least set_append)
  qed
qed

lemma foreach_keeping:
  assumes "keeping L A func" "hash_ok hty h" "room L h" "iter_lev h < 2 ^ 31 - 1" "rb_hash_foreach func (h, s) = (r, h', s')"
  shows "hash_ok hty h' \<and> iter_lev h' = iter_lev h \<and>
    (\<exists>ops. set ops \<subseteq> A \<and> hash_map h' = fold (map_op hty) ops (hash_map h)) \<and>
    (\<forall>e. r = Inl e \<longrightarrow> e \<in> insert IndexError op_errors)"
proof -
  obtain t where t: "rh_tbl h = Some t" "mk.marked_ok t" "0 \<le> iter_lev h" "hash_deleted h \<longrightarrow> 0 < iter_lev h"
    "\<not> hash_deleted h \<longrightarrow> (\<forall>e \<in> st_entries t. ent_record e \<noteq> Qundef)" using hash_okD [OF assms(2)] .
  let ?h = "h\<lparr>iter_lev := iter_lev h + 1\<rparr>"
  have ok: "hash_ok hty ?h" "0 < iter_lev ?h" using t hash_okI [of ?h t] by auto
  obtain r1 h1 s1 where b: "live_bins func [0..<nat (num_bins t)] (?h, s) = (r1, h1, s1)" by (metis prod_cases3)
  obtain ops where ops: "later ?h ops h1" "set ops \<subseteq> A" "\<forall>e. r1 = Inl e \<longrightarrow> e \<in> insert IndexError op_errors"
    using live_bins_keeping [OF assms(1) ok _ _ b] assms(3) t(1) by (auto simp: room_def)
  have h': "r = r1" "h' = rb_hash_foreach_ensure h1"
    using assms(4,5) b t(1,3) by (auto simp: rb_hash_foreach_def rb_hash_foreach_call_def)
  have "hash_ok hty h1" "iter_lev h1 = iter_lev h + 1" using ops(1) by (simp_all add: later_def)
  then obtain t1 where t1: "rh_tbl h1 = Some t1" "mk.marked_ok t1"
    "\<not> hash_deleted h1 \<longrightarrow> (\<forall>e \<in> st_entries t1. ent_record e \<noteq> Qundef)" by (elim hash_okD) blast
  have c: "mk.marked_ok (mk.clean t1)" using t1(2) by (auto simp: mk.marked_ok_def marks_ok_def)
  have "hash_ok hty h'"
    unfolding h'(2) rb_hash_foreach_ensure_def Let_def
    using t1 c t(3) assms(4) \<open>iter_lev h1 = iter_lev h + 1\<close> mk.clean_id [of "mk.clean t1"]
    by (auto intro!: hash_okI)
  moreover have "hash_map h' = hash_map h1" "iter_lev h' = iter_lev h"
    using t1(1) t(3) assms(4) \<open>iter_lev h1 = iter_lev h + 1\<close> mk.clean_simps(5)
    by (auto simp: h'(2) rb_hash_foreach_ensure_def Let_def hash_map_def fun_eq_iff)
  moreover have "hash_map ?h = hash_map h" by (simp add: hash_map_def fun_eq_iff)
  ultimately show ?thesis using ops h'(1) by (auto simp: later_def)
qed

text \<open>The callbacks of \<^verbatim>\<open>each\<close>, \<^verbatim>\<open>each_key\<close>, \<^verbatim>\<open>each_value\<close> and \<^verbatim>\<open>select\<close>.\<close>

lemma yield_ok:
  assumes "\<forall>x s. \<forall>y \<in> set (fst (blk x s)). wf_op y" "\<forall>x s. stores (fst (blk x s)) \<le> L" "hash_ok hty h" "room L h"
    "rb_yield safe blk x (h, s) = (r, h', s')"
  shows "(\<exists>ops. later h ops h' \<and> set ops \<subseteq> {y. \<exists>x s. y \<in> set (fst (blk x s))}) \<and> (\<forall>e. r = Inl e \<longrightarrow> e \<in> op_errors)"
proof -
  obtain ops b s1 where b: "blk x s = (ops, b, s1)" by (metis prod_cases3)
  obtain q h1 where q: "run_ops safe ops h = (q, h1)" by fastforce
  have wf: "\<forall>y \<in> set ops. wf_op y" using assms(1) b by (metis fst_conv)
  have "stores ops \<le> L" using assms(2) b by (metis fst_conv)
  then have "stores ops = 0 \<or> size_of h + int (stores ops) < 2 ^ 31" using assms(4) by (auto simp: room_def)
  from run_ops_ok [OF assms(3) wf q this] obtain ys where "later h ys h1" "set ys \<subseteq> set ops" "\<forall>e. q = Some e \<longrightarrow> e \<in> op_errors" by blast
  moreover have "set ops \<subseteq> {y. \<exists>x s. y \<in> set (fst (blk x s))}" using b by (auto intro!: exI [of _ x] exI [of _ s])
  ultimately have "\<exists>ops. later h ops h1 \<and> set ops \<subseteq> {y. \<exists>x s. y \<in> set (fst (blk x s))}" by blast
  with \<open>\<forall>e. q = Some e \<longrightarrow> e \<in> op_errors\<close> show ?thesis
    using assms(5) b q by (auto simp: rb_yield_def split: option.splits)
qed

lemma keeping_each:
  assumes "\<forall>x s. \<forall>y \<in> set (fst (blk x s)). wf_op y" "\<forall>x s. stores (fst (blk x s)) \<le> L"
    "\<And>key value st. func key value st =
       (if key = Qundef then (Inr ST_CONTINUE, st) else then_status (\<lambda>_. ST_CONTINUE) (rb_yield safe blk (g key value) st))"
  shows "keeping L {y. \<exists>x s. y \<in> set (fst (blk x s))} func"
  unfolding keeping_def
proof (intro allI impI)
  fix key v h s r h' s'
  assume h: "hash_ok hty h" "room L h" "func key v (h, s) = (r, h', s')"
  show "(\<exists>ops. later h ops h' \<and> set ops \<subseteq> {y. \<exists>x s. y \<in> set (fst (blk x s))}) \<and> r \<noteq> Inr ST_DELETE \<and> (\<forall>e. r = Inl e \<longrightarrow> e \<in> op_errors)"
  proof (cases "key = Qundef")
    case True
    with h later_refl show ?thesis by (auto simp: assms(3) intro!: exI [of _ "[]"])
  next
    case False
    obtain r1 h1 s1 where y: "rb_yield safe blk (g key v) (h, s) = (r1, h1, s1)" by (metis prod_cases3)
    from yield_ok [OF assms(1,2) h(1,2) y] h(3) y False show ?thesis
      by (auto simp: assms(3) then_status_def split: sum.splits)
  qed
qed

lemmas keeping_callbacks =
  keeping_each [where func = "each_pair_i safe blk" and g = "\<lambda>k v. (k, v)" for safe blk, OF _ _ each_pair_i_def]
  keeping_each [where func = "each_key_i safe blk" and g = "\<lambda>k v. k" for safe blk, OF _ _ each_key_i_def]
  keeping_each [where func = "each_value_i safe blk" and g = "\<lambda>k v. v" for safe blk, OF _ _ each_value_i_def]

lemma keeping_select:
  assumes "\<forall>x s. \<forall>y \<in> set (fst (blk x s)). wf_op y" "\<forall>x s. stores (fst (blk x s)) \<le> L"
  shows "keeping L {y. \<exists>x s. y \<in> set (fst (blk x s))} (select_i safe blk)"
  unfolding keeping_def
proof (intro allI impI)
  fix key v h s r h' s'
  assume h: "hash_ok hty h" "room L h" "select_i safe blk key v (h, s) = (r, h', s')"
  obtain acc u where s: "s = (acc, u)" by fastforce
  show "(\<exists>ops. later h ops h' \<and> set ops \<subseteq> {y. \<exists>x s. y \<in> set (fst (blk x s))}) \<and> r \<noteq> Inr ST_DELETE \<and> (\<forall>e. r = Inl e \<longrightarrow> e \<in> op_errors)"
  proof (cases "key = Qundef")
    case True
    with h later_refl show ?thesis by (auto simp: select_i_def intro!: exI [of _ "[]"])
  next
    case False
    obtain r1 h1 s1 where y: "rb_yield safe blk (key, v) (h, u) = (r1, h1, s1)" by (metis prod_cases3)
    from yield_ok [OF assms h(1,2) y] h(3) y s False show ?thesis
      by (auto simp: select_i_def split: sum.splits)
  qed
qed

end

end
