(* ===== verification/Hash_Iter.thy ===== *)
theory Hash_Iter
  imports Hash_Live
begin

text \<open>
  Iteration over hashes: what a block sees that deletes while it is run, what \<^verbatim>\<open>delete_if\<close> leaves, and
  the hash operations as operations on finite maps.
\<close>

section \<open>Blocks that delete\<close>

text \<open>
  The reference: the entries in their order, without those whose key has been deleted meanwhile. The
  block gives the keys it deletes.
\<close>

fun each_ref ::
  "(val \<Rightarrow> val \<Rightarrow> bool) \<Rightarrow> (val \<times> val \<Rightarrow> 's \<Rightarrow> val list \<times> 's) \<Rightarrow> (val \<times> val) list \<Rightarrow> val list \<Rightarrow> 's \<Rightarrow> val list \<times> 's" where
  "each_ref eq del [] gone s = (gone, s)"
| "each_ref eq del ((k, v) # es) gone s =
     (if \<exists>g \<in> set gone. eq g k then each_ref eq del es gone s
      else case del (k, v) s of (ks, s) \<Rightarrow> each_ref eq del es (gone @ ks) s)"

definition deleting :: "('a \<Rightarrow> 's \<Rightarrow> val list \<times> 's) \<Rightarrow> ('a, 's) block" where
  "deleting del x s = (case del x s of (ks, s) \<Rightarrow> (map OpDelete ks, False, s))"

lemma each_ref_append:
  "each_ref eq del (xs @ ys) gone s = (case each_ref eq del xs gone s of (gone, s) \<Rightarrow> each_ref eq del ys gone s)"
  by (induction eq del xs gone s rule: each_ref.induct) (auto split: prod.splits)

abbreviation kv :: "('k, 'v) st_table_entry \<Rightarrow> 'k \<times> 'v" where
  "kv e \<equiv> (ent_key e, ent_record e)"

text \<open>The reference of \<^verbatim>\<open>delete_if\<close>: a test with a state, run on the entries in order.\<close>

fun reject_ref :: "('a \<Rightarrow> 's \<Rightarrow> bool \<times> 's) \<Rightarrow> 'a list \<Rightarrow> 's \<Rightarrow> 'a list \<times> 's" where
  "reject_ref f [] s = ([], s)"
| "reject_ref f (x # xs) s =
     (case f x s of (b, s) \<Rightarrow> (case reject_ref f xs s of (ys, s) \<Rightarrow> (if b then ys else x # ys, s)))"

definition testing :: "('a \<Rightarrow> 's \<Rightarrow> bool \<times> 's) \<Rightarrow> ('a, 's) block" where
  "testing f x s = (case f x s of (b, s) \<Rightarrow> ([], b, s))"

lemma reject_ref_append:
  "reject_ref f (xs @ ys) s = (case reject_ref f xs s of (xs, s) \<Rightarrow> (case reject_ref f ys s of (ys, s) \<Rightarrow> (xs @ ys, s)))"
  by (induction f xs s rule: reject_ref.induct) (auto split: prod.splits)

lemma reject_ref_map: "reject_ref f (map g xs) s = (case reject_ref (\<lambda>x. f (g x)) xs s of (ys, s) \<Rightarrow> (map g ys, s))"
  by (induction xs arbitrary: s) (auto split: prod.splits)

lemma reject_ref_mset: "mset (fst (reject_ref f xs s)) \<subseteq># mset xs"
  by (induction f xs s rule: reject_ref.induct) (auto split: prod.splits intro: subset_add_mset)

context any_hash_laws
begin

abbreviation is_gone :: "val list \<Rightarrow> (val, val) st_table_entry \<Rightarrow> bool" where
  "is_gone gone e \<equiv> \<exists>g \<in> set gone. EQUAL hty g (ent_key e)"

definition mark :: "val list \<Rightarrow> (val, val) st_table_entry \<Rightarrow> (val, val) st_table_entry" where
  "mark gone e = (if is_gone gone e then e\<lparr>ent_key := Qundef, ent_record := Qundef\<rparr> else e)"

definition mark_tbl :: "val list \<Rightarrow> (val, val) st_table \<Rightarrow> (val, val) st_table" where
  "mark_tbl gone t =
     t\<lparr>bins := map (map (mark gone)) (bins t),
       num_entries := int (length (concat (map mk.live (map (map (mark gone)) (bins t)))))\<rparr>"

lemma mark_tbl_simps [simp]:
  "bins (mark_tbl gone t) = map (map (mark gone)) (bins t)" "st_type (mark_tbl gone t) = st_type t"
  "num_bins (mark_tbl gone t) = num_bins t" "do_hash_bin k (mark_tbl gone t) = do_hash_bin k t"
  by (simp_all add: mark_tbl_def do_hash_bin_def do_hash_def)

lemma mark_snoc: "mark (gone @ [k]) e = (if EQUAL hty k (ent_key e) then e\<lparr>ent_key := Qundef, ent_record := Qundef\<rparr> else mark gone e)"
  by (auto simp: mark_def)

lemma delete_safe_rest_None: "delete_safe_rest ty k nk c = None \<Longrightarrow> e \<in> set c \<Longrightarrow> ent_key e = nk \<or> \<not> EQUAL ty (ent_key e) k"
  by (induction c) (auto split: if_splits)

lemma delete_safe_mark_bins:
  assumes t: "st_inv t" "st_type t = hty" and live: "\<forall>e \<in> st_entries t. ent_key e \<noteq> Qundef"
  shows "bins (del_table (st_delete_safe (mark_tbl gone t) k Qundef Qundef)) = map (map (mark (gone @ [k]))) (bins t)"
proof -
  let ?i = "do_hash_bin k t"
  let ?c = "bins t ! ?i"
  have i: "?i < length (bins t)" unfolding do_hash_bin_def by (rule bin_in_range [OF t(1)])
  have inbin: "j = ?i" if "j < length (bins t)" "e \<in> set (bins t ! j)" "EQUAL hty k (ent_key e)" for j e
    using bins_ok_nth [OF st_invD(5) [OF t(1)] that(1,2)] keys.equal_hash [OF that(3)] st_invD(2) [OF t(1)] t(2)
    by (simp add: entry_ok_def do_hash_bin_def do_hash_def)
  have other: "map (mark (gone @ [k])) (bins t ! j) = map (mark gone) (bins t ! j)" if "j < length (bins t)" "j \<noteq> ?i" for j
    using inbin [OF that(1)] that(2) by (auto simp: mark_snoc)
  show ?thesis
  proof (cases "delete_safe_rest hty k Qundef (map (mark gone) ?c)")
    case None
    have "mark gone e = e\<lparr>ent_key := Qundef, ent_record := Qundef\<rparr>" if "e \<in> set ?c" "EQUAL hty k (ent_key e)" for e
    proof (rule ccontr)
      assume "mark gone e \<noteq> e\<lparr>ent_key := Qundef, ent_record := Qundef\<rparr>"
      then have "mark gone e = e" by (auto simp: mark_def split: if_splits)
      with delete_safe_rest_None [OF None, of e] that keys.equal_sym have "ent_key e = Qundef" by (metis image_eqI list.set_map)
      then show False using live that(1) i by (auto simp: set_concat_nth)
    qed
    then have "map (mark (gone @ [k])) ?c = map (mark gone) ?c" by (auto simp: mark_snoc)
    then have "map (mark (gone @ [k])) (bins t ! j) = map (mark gone) (bins t ! j)" if "j < length (bins t)" for j
      using other that by (cases "j = ?i") auto
    then have "map (map (mark gone)) (bins t) = map (map (mark (gone @ [k]))) (bins t)" by (auto simp: list_eq_iff_nth_eq)
    with None i t(2) show ?thesis by (simp add: st_delete_safe_unfold(2))
  next
    case (Some n)
    note d = mk.delete_safe_rest_Some [OF Some]
    then have n: "n < length ?c" and e: "EQUAL hty k (ent_key (?c ! n))" and m: "mark gone (?c ! n) = ?c ! n"
      using keys.equal_sym by (auto simp: mark_def split: if_splits)
    have u: "p = n" if "p < length ?c" "EQUAL hty k (ent_key (?c ! p))" for p
    proof -
      have mem: "?c ! q \<in> st_entries t" if "q < length ?c" for q
        unfolding set_concat_nth by (rule exI [of _ ?i]) (use i that in simp)
      from keys.entries_unique [OF t mem [OF that(1)] mem [OF n] that(2) e] have eq: "?c ! p = ?c ! n" .
      have "distinct ?c" using st_invD(6) [OF t(1)] nth_mem [OF i] by (simp add: keys_unique_def distinct_concat_iff)
      then show ?thesis using eq that(1) n by (simp add: nth_eq_iff_index_eq)
    qed
    have "(map (mark gone) ?c)[n := (?c ! n)\<lparr>ent_key := Qundef, ent_record := Qundef\<rparr>] = map (mark (gone @ [k])) ?c"
    proof (rule nth_equalityI)
      fix p assume "p < length ((map (mark gone) ?c)[n := (?c ! n)\<lparr>ent_key := Qundef, ent_record := Qundef\<rparr>])"
      then have p: "p < length ?c" by simp
      show "(map (mark gone) ?c)[n := (?c ! n)\<lparr>ent_key := Qundef, ent_record := Qundef\<rparr>] ! p = map (mark (gone @ [k])) ?c ! p"
        using u [OF p] p e by (cases "p = n") (auto simp: mark_snoc)
    qed simp
    then have "(map (map (mark gone)) (bins t))[?i := (map (mark gone) ?c)[n := (?c ! n)\<lparr>ent_key := Qundef, ent_record := Qundef\<rparr>]]
        = map (map (mark (gone @ [k]))) (bins t)"
      using i other by (intro nth_equalityI) (auto simp: nth_list_update)
    with Some i t(2) n m show ?thesis by (simp add: st_delete_safe_unfold(2))
  qed
qed

lemma delete_safe_mark:
  assumes "st_inv t" "st_type t = hty" "\<forall>e \<in> st_entries t. ent_key e \<noteq> Qundef" "mk.marked_ok (mark_tbl gone t)"
  shows "del_table (st_delete_safe (mark_tbl gone t) k Qundef Qundef) = mark_tbl (gone @ [k]) t"
proof -
  let ?d = "del_table (st_delete_safe (mark_tbl gone t) k Qundef Qundef)"
  note b = delete_safe_mark_bins [OF assms(1-3), of gone k]
  have "st_inv (mk.clean ?d)" using mk.delete_safe_clean(3) [OF assms(4)] by (simp add: mk.marked_ok_def)
  then have "num_entries ?d = int (length (concat (map mk.live (bins ?d))))" using st_invD(4) by fastforce
  moreover have "st_type ?d = st_type t" "num_bins ?d = num_bins t" by (simp_all add: delete_safe_frame mark_tbl_def)
  ultimately show ?thesis using b by (intro st_table.equality) (simp_all add: mark_tbl_def)
qed

text \<open>The state of the walk: the table with the marks of the keys deleted so far.\<close>

definition walk_state :: "int \<Rightarrow> (val, val) st_table \<Rightarrow> val list \<Rightarrow> rhash \<Rightarrow> bool" where
  "walk_state safe t gone h \<longleftrightarrow>
     hash_ok hty h \<and> iter_lev h = 1 \<and> rb_hash_modify safe h = Inr () \<and> rh_tbl h = Some (mark_tbl gone t)"

lemma modify_upd:
  "rh_tbl h \<noteq> None \<Longrightarrow> rb_hash_modify safe (h\<lparr>rh_tbl := Some t, hash_deleted := b\<rparr>) = rb_hash_modify safe h"
  by (simp add: rb_hash_modify_def)

lemma walk_delete:
  assumes t: "st_inv t" "st_type t = hty" "\<forall>e \<in> st_entries t. ent_key e \<noteq> Qundef"
    and w: "walk_state safe t gone h" and k: "k \<noteq> Qundef"
  shows "\<exists>h'. run_op safe (OpDelete k) h = Inr h' \<and> walk_state safe t (gone @ [k]) h'"
proof -
  have ok: "hash_ok hty h" "iter_lev h = 1" "rb_hash_modify safe h = Inr ()" "rh_tbl h = Some (mark_tbl gone t)"
    using w by (simp_all add: walk_state_def)
  then have m: "mk.marked_ok (mark_tbl gone t)" by (elim hash_okD) simp
  note d = delete_safe_mark [OF t m, of k]
  let ?d = "st_delete_safe (mark_tbl gone t) k Qundef Qundef"
  have "del_ret ?d = 0 \<Longrightarrow> del_table ?d = mark_tbl gone t"
    by (auto simp: st_delete_safe_unfold split: option.splits if_splits)
  then have "\<exists>v h'. rb_hash_delete safe None h k = Inr (v, h') \<and> rh_tbl h' = Some (mark_tbl (gone @ [k]) t) \<and> rb_hash_modify safe h' = Inr ()"
    using ok mk.delete_safe_clean(5) [OF m, of k] d
    by (cases "del_ret ?d = 0") (auto simp: rb_hash_delete_def with_tbl_def Let_def modify_upd)
  then obtain v h' where h': "rb_hash_delete safe None h k = Inr (v, h')" "rh_tbl h' = Some (mark_tbl (gone @ [k]) t)"
    "rb_hash_modify safe h' = Inr ()" by blast
  with delete_ok [OF ok(1) k h'(1)] ok(2) show ?thesis by (auto simp: walk_state_def run_op_def)
qed

lemma walk_deletes:
  assumes t: "st_inv t" "st_type t = hty" "\<forall>e \<in> st_entries t. ent_key e \<noteq> Qundef"
    and "walk_state safe t gone h" "Qundef \<notin> set ks"
  shows "\<exists>h'. run_ops safe (map OpDelete ks) h = (None, h') \<and> walk_state safe t (gone @ ks) h'"
  using assms(4-5)
proof (induction ks arbitrary: gone h)
  case (Cons k ks)
  then obtain h1 where "run_op safe (OpDelete k) h = Inr h1" "walk_state safe t (gone @ [k]) h1"
    using walk_delete [OF t Cons.prems(1), of k] by auto
  with Cons.IH [of "gone @ [k]" h1] Cons.prems(2) show ?case by auto
qed simp

lemma walk_chain:
  assumes t: "st_inv t" "st_type t = hty" "\<forall>e \<in> st_entries t. ent_key e \<noteq> Qundef"
    and del: "\<And>x s. Qundef \<notin> set (fst (del x s))" and i: "i < length (bins t)"
  shows "walk_state safe t gone h \<Longrightarrow> n \<le> length (bins t ! i) \<Longrightarrow>
    each_ref (EQUAL hty) del (map kv (drop (length (bins t ! i) - n) (bins t ! i))) gone s = (gone', s') \<Longrightarrow>
    \<exists>h'. live_chain (each_pair_i safe (deleting del)) i passed n (h, s) = (Inr False, h', s') \<and> walk_state safe t gone' h'"
proof (induction n arbitrary: gone h s passed)
  case (Suc n)
  let ?c = "bins t ! i"
  let ?p = "length ?c - Suc n"
  let ?e = "?c ! ?p"
  have p: "?p < length ?c" "length ?c - n = Suc ?p" using Suc.prems(2) by auto
  then have split: "drop ?p ?c = ?e # drop (length ?c - n) ?c" by (simp add: Cons_nth_drop_Suc)
  have tbl: "rh_tbl h = Some (mark_tbl gone t)" using Suc.prems(1) by (simp add: walk_state_def)
  have ptr: "bins (mark_tbl gone t) ! i ! (length (bins (mark_tbl gone t) ! i) - Suc n) = mark gone ?e"
    using i p by simp
  have len: "\<not> length (bins (mark_tbl gone t) ! i) < Suc n" using Suc.prems(2) i by simp
  have "?e \<in> st_entries t" using i p(1) unfolding set_concat_nth by (intro exI [of _ i]) simp
  then have key: "ent_key ?e \<noteq> Qundef" using t(3) by blast
  show ?case
  proof (cases "is_gone gone ?e")
    case True
    have "live_chain (each_pair_i safe (deleting del)) i passed (Suc n) (h, s) = live_chain (each_pair_i safe (deleting del)) i True n (h, s)"
      using tbl ptr len True by (simp add: rb_hash_foreach_iter_def mark_def Let_def del: mark_tbl_simps)
    moreover have "each_ref (EQUAL hty) del (map kv (drop (length ?c - n) ?c)) gone s = (gone', s')"
      using Suc.prems(3) True unfolding split by auto
    ultimately show ?thesis using Suc.IH [OF Suc.prems(1)] Suc.prems(2) by simp
  next
    case False
    obtain ks s1 where ks: "del (kv ?e) s = (ks, s1)" by fastforce
    obtain h1 where h1: "run_ops safe (map OpDelete ks) h = (None, h1)" "walk_state safe t (gone @ ks) h1"
      using walk_deletes [OF t Suc.prems(1), of ks] del [of "kv ?e" s] ks by auto
    have y: "rb_yield safe (deleting del) (kv ?e) (h, s) = (Inr False, h1, s1)"
      using ks h1(1) by (simp add: rb_yield_def deleting_def)
    have "live_chain (each_pair_i safe (deleting del)) i passed (Suc n) (h, s) = live_chain (each_pair_i safe (deleting del)) i True n (h1, s1)"
      using tbl ptr len False y h1(2) key
      by (simp add: rb_hash_foreach_iter_def mark_def Let_def each_pair_i_def then_status_def walk_state_def del: mark_tbl_simps(1))
    moreover have "each_ref (EQUAL hty) del (map kv (drop (length ?c - n) ?c)) (gone @ ks) s1 = (gone', s')"
      using Suc.prems(3) False ks unfolding split by auto
    ultimately show ?thesis using Suc.IH [OF h1(2)] Suc.prems(2) by simp
  qed
qed simp

lemma walk_bins:
  assumes t: "st_inv t" "st_type t = hty" "\<forall>e \<in> st_entries t. ent_key e \<noteq> Qundef"
    and del: "\<And>x s. Qundef \<notin> set (fst (del x s))"
  shows "walk_state safe t gone h \<Longrightarrow> \<forall>i \<in> set is. i < length (bins t) \<Longrightarrow>
    each_ref (EQUAL hty) del (concat (map (\<lambda>i. map kv (bins t ! i)) is)) gone s = (gone', s') \<Longrightarrow>
    \<exists>h'. live_bins (each_pair_i safe (deleting del)) is (h, s) = (Inr (), h', s') \<and> walk_state safe t gone' h'"
proof (induction "is" arbitrary: gone h s)
  case (Cons i "is")
  obtain gone1 s1 where r: "each_ref (EQUAL hty) del (map kv (bins t ! i)) gone s = (gone1, s1)" by fastforce
  have "\<exists>h1. live_chain (each_pair_i safe (deleting del)) i False (length (bins t ! i)) (h, s) = (Inr False, h1, s1) \<and> walk_state safe t gone1 h1"
    by (rule walk_chain [OF t del _ Cons.prems(1)]) (use Cons.prems(2) r in simp_all)
  then obtain h1 where h1: "live_chain (each_pair_i safe (deleting del)) i False (length (bins t ! i)) (h, s) = (Inr False, h1, s1)"
    "walk_state safe t gone1 h1" by blast
  moreover have "rh_tbl h = Some (mark_tbl gone t)" using Cons.prems(1) by (simp add: walk_state_def)
  moreover have "each_ref (EQUAL hty) del (concat (map (\<lambda>i. map kv (bins t ! i)) is)) gone1 s1 = (gone', s')"
    using Cons.prems(3) r by (simp add: each_ref_append)
  ultimately show ?case using Cons.IH [OF h1(2)] Cons.prems(2) by simp
qed simp

lemma to_a_clean:
  assumes "hash_ok hty h" "rh_tbl h = Some t"
  shows "rb_hash_to_a h = Inr (map kv (concat (bins (mk.clean t))))"
proof -
  have "fold (\<lambda>e ary. snd (to_a_i (ent_key e) (ent_record e) ary)) es acc = acc @ map kv (mk.live es)"
    if "marks_ok Qundef Qundef es" for es acc
    using that by (induction es arbitrary: acc) (auto simp: to_a_i_def marks_ok_def)
  moreover have "marks_ok Qundef Qundef (concat (bins t))" using assms by (simp add: hash_ok_def)
  ultimately show ?thesis
    using assms(2) foreach_bins_visits [of to_a_i "[]" "bins t"]
    by (simp add: rb_hash_to_a_def with_tbl_def st_foreach_def to_a_i_def filter_concat)
qed

lemma each_deleting:
  fixes s :: 's
  assumes "hash_ok hty h" "iter_lev h = 0" "rb_hash_modify safe h = Inr ()" "rb_hash_to_a h = Inr ps"
    and del: "\<And>x s. Qundef \<notin> set (fst (del x s))" and r: "each_ref (EQUAL hty) del ps [] s = (gone, s')"
  shows "\<exists>h'. rb_hash_each_pair safe (deleting del) (h, s) = (Inr (), h', s') \<and> hash_ok hty h' \<and> iter_lev h' = 0 \<and>
    rb_hash_to_a h' = Inr (filter (\<lambda>(k, v). \<not> (\<exists>g \<in> set gone. EQUAL hty g k)) ps)"
proof -
  obtain t where t: "rh_tbl h = Some t" "mk.marked_ok t" "hash_deleted h \<longrightarrow> 0 < iter_lev h"
    "\<not> hash_deleted h \<longrightarrow> (\<forall>e \<in> st_entries t. ent_record e \<noteq> Qundef)" using hash_okD [OF assms(1)] .
  then have nm: "\<forall>e \<in> st_entries t. ent_record e \<noteq> Qundef" "mk.clean t = t" using assms(2) mk.clean_id by auto
  have inv: "st_inv t" "st_type t = hty" using t(2) nm(2) by (simp_all add: mk.marked_ok_def)
  have keys: "\<forall>e \<in> st_entries t. ent_key e \<noteq> Qundef" using t(2) nm(1) by (auto simp: mk.marked_ok_def marks_ok_def)
  have ps: "ps = map kv (concat (bins t))" using to_a_clean [OF assms(1) t(1)] assms(4) nm(2) by simp
  let ?h = "h\<lparr>iter_lev := iter_lev h + 1\<rparr>"
  have m0: "mark [] = id" by (simp add: mark_def fun_eq_iff)
  have "map mk.live (bins t) = bins t" using nm(2) mk.clean_simps(4) [of t] by simp
  then have "mark_tbl [] t = t" using st_invD(4) [OF inv(1)] by (intro st_table.equality) (simp_all add: mark_tbl_def m0)
  moreover have "hash_ok hty ?h" using t assms(2) by (intro hash_okI [of _ t]) auto
  moreover have "rb_hash_modify safe ?h = Inr ()" using assms(3) by (simp add: rb_hash_modify_def split: if_splits)
  ultimately have w: "walk_state safe t [] ?h" using t(1) assms(2) by (simp add: walk_state_def)
  have "map (\<lambda>i. map kv (bins t ! i)) [0..<nat (num_bins t)] = map (map kv) (bins t)"
    using st_invD(2) [OF inv(1)] by (intro nth_equalityI) simp_all
  then obtain h1 where h1: "live_bins (each_pair_i safe (deleting del)) [0..<nat (num_bins t)] (?h, s) = (Inr (), h1, s')" "walk_state safe t gone h1"
    using walk_bins [where del = del, OF inv keys del w, of "[0..<nat (num_bins t)]" s gone s'] r st_invD(2) [OF inv(1)]
    by (auto simp: ps map_concat)
  define h' where "h' = rb_hash_foreach_ensure h1"
  have e: "rb_hash_each_pair safe (deleting del) (h, s) = (Inr (), h', s')"
    using t(1) h1(1) assms(2) by (simp add: rb_hash_each_pair_def rb_hash_foreach_def rb_hash_foreach_call_def h'_def)
  have "stores (fst (deleting del x s)) \<le> 0" for x s by (auto simp: deleting_def stores_def split: prod.splits)
  then have "keeping 0 {y. \<exists>x s. y \<in> set (fst (deleting del x s))} (each_pair_i safe (deleting del))"
    using del by (intro keeping_callbacks) (auto simp: deleting_def wf_op_def split: prod.splits, metis fst_conv)
  from foreach_keeping [OF this assms(1)] e have ok: "hash_ok hty h'" "iter_lev h' = 0"
    using assms(2) by (auto simp: rb_hash_each_pair_def room_def)
  obtain t' where t': "rh_tbl h' = Some t'" using ok(1) by (elim hash_okD)
  have "mk.clean t' = mk.clean (mark_tbl gone t)"
    using t' h1(2) by (auto simp: h'_def walk_state_def rb_hash_foreach_ensure_def Let_def split: if_splits)
  moreover have "mk.live (map (mark gone) es) = filter (\<lambda>e. \<not> is_gone gone e) es" if "\<forall>e \<in> set es. ent_record e \<noteq> Qundef" for es
    using that by (induction es) (auto simp: mark_def)
  ultimately have "concat (bins (mk.clean t')) = filter (\<lambda>e. \<not> is_gone gone e) (concat (bins t))"
    using nm(1) by (simp add: filter_concat map_concat comp_def cong: map_cong)
  then have "rb_hash_to_a h' = Inr (filter (\<lambda>(k, v). \<not> (\<exists>g \<in> set gone. EQUAL hty g k)) ps)"
    using to_a_clean [OF ok(1) t'] by (simp add: ps filter_map comp_def)
  with e ok show ?thesis by blast
qed

section \<open>Deleting by a test\<close>

lemma reject_chain:
  assumes "reject_ref (\<lambda>e. f (kv e)) es s = (es', s')" "\<forall>e \<in> set es. ent_key e \<noteq> Qundef" "bins t ! i = pre @ es" "i < length (bins t)"
  shows "live_chain (delete_if_i (rb_yield safe (testing f))) i (pre \<noteq> []) (length es) (h\<lparr>rh_tbl := Some t\<rparr>, s) =
    (Inr False, h\<lparr>rh_tbl := Some (t\<lparr>bins := (bins t)[i := pre @ es'],
       num_entries := num_entries t - (int (length es) - int (length es'))\<rparr>)\<rparr>, s')"
  using assms
proof (induction es arbitrary: pre t s es')
  case Nil
  then have "(bins t)[i := pre] = bins t" by (metis append_Nil2 list_update_id)
  with Nil show ?case by simp
next
  case (Cons e es)
  obtain b s1 where b: "f (kv e) s = (b, s1)" by fastforce
  obtain es1 where r: "reject_ref (\<lambda>e. f (kv e)) es s1 = (es1, s')" "es' = (if b then es1 else e # es1)"
    using Cons.prems(1) b by (auto split: prod.splits)
  have y: "rb_yield safe (testing f) (kv e) (g, s) = (Inr b, g, s1)" for g
    using b by (simp add: rb_yield_def testing_def)
  have it: "rb_hash_foreach_iter (delete_if_i (rb_yield safe (testing f))) (ent_key e) (ent_record e) (g, s) =
      (Inr (if b then ST_DELETE else ST_CONTINUE), g, s1)" for g
    using Cons.prems(2) y by (simp add: rb_hash_foreach_iter_def delete_if_i_def then_status_def)
  have ptr: "(pre @ e # es) ! (length (pre @ e # es) - Suc (length es)) = e" by simp
  show ?case
  proof (cases b)
    case True
    let ?t = "t\<lparr>bins := (bins t)[i := pre @ es], num_entries := num_entries t - 1\<rparr>"
    have "unlink_live i (pre \<noteq> []) (length es) t = ?t"
      using Cons.prems(3) by (simp add: unlink_live_def Let_def unlink_entry_def)
    then have "live_chain (delete_if_i (rb_yield safe (testing f))) i (pre \<noteq> []) (length (e # es)) (h\<lparr>rh_tbl := Some t\<rparr>, s) =
        live_chain (delete_if_i (rb_yield safe (testing f))) i (pre \<noteq> []) (length es) (h\<lparr>rh_tbl := Some ?t\<rparr>, s1)"
      using Cons.prems(3) it True by (simp add: Let_def)
    also have "\<dots> = (Inr False, h\<lparr>rh_tbl := Some (?t\<lparr>bins := (bins ?t)[i := pre @ es1],
       num_entries := num_entries ?t - (int (length es) - int (length es1))\<rparr>)\<rparr>, s')"
      using Cons.prems by (intro Cons.IH [OF r(1)]) simp_all
    finally show ?thesis using r(2) True by simp
  next
    case False
    have "live_chain (delete_if_i (rb_yield safe (testing f))) i (pre \<noteq> []) (length (e # es)) (h\<lparr>rh_tbl := Some t\<rparr>, s) =
        live_chain (delete_if_i (rb_yield safe (testing f))) i (pre @ [e] \<noteq> []) (length es) (h\<lparr>rh_tbl := Some t\<rparr>, s1)"
      using Cons.prems(3) it False by (simp add: Let_def)
    also have "\<dots> = (Inr False, h\<lparr>rh_tbl := Some (t\<lparr>bins := (bins t)[i := (pre @ [e]) @ es1],
       num_entries := num_entries t - (int (length es) - int (length es1))\<rparr>)\<rparr>, s')"
      using Cons.prems by (intro Cons.IH [OF r(1)]) simp_all
    finally show ?thesis using r(2) False by simp
  qed
qed

lemma reject_bins:
  assumes "\<forall>e \<in> set (concat rest). ent_key e \<noteq> Qundef" "bins t = done @ rest" "reject_ref (\<lambda>e. f (kv e)) (concat rest) s = (es', s')"
  shows "\<exists>rest'. live_bins (delete_if_i (rb_yield safe (testing f))) [length done..<length (bins t)] (h\<lparr>rh_tbl := Some t\<rparr>, s) =
    (Inr (), h\<lparr>rh_tbl := Some (t\<lparr>bins := done @ rest',
       num_entries := num_entries t - (int (length (concat rest)) - int (length es'))\<rparr>)\<rparr>, s') \<and>
    concat rest' = es' \<and> list_all2 (\<lambda>b b'. mset b \<subseteq># mset b') rest' rest"
  using assms
proof (induction rest arbitrary: "done" t s es')
  case Nil
  then show ?case by (intro exI [of _ "[]"]) simp
next
  case (Cons c rest)
  let ?i = "length done"
  obtain c1 s1 where c: "reject_ref (\<lambda>e. f (kv e)) c s = (c1, s1)" by fastforce
  obtain es1 where r: "reject_ref (\<lambda>e. f (kv e)) (concat rest) s1 = (es1, s')" "es' = c1 @ es1"
    using Cons.prems(3) c by (auto simp: reject_ref_append split: prod.splits)
  define t1 where "t1 = t\<lparr>bins := (done @ [c1]) @ rest, num_entries := num_entries t - (int (length c) - int (length c1))\<rparr>"
  have up: "[?i..<length (bins t)] = ?i # [length (done @ [c1])..<length (bins t1)]"
    using Cons.prems(2) upt_conv_Cons [of ?i "length (bins t)"] by (simp add: t1_def del: upt_Suc)
  have ch: "live_chain (delete_if_i (rb_yield safe (testing f))) ?i False (length c) (h\<lparr>rh_tbl := Some t\<rparr>, s) =
      (Inr False, h\<lparr>rh_tbl := Some t1\<rparr>, s1)"
    using reject_chain [OF c, of t ?i "[]" safe h] Cons.prems(1,2) by (simp add: t1_def)
  have "\<exists>rest'. live_bins (delete_if_i (rb_yield safe (testing f))) [length (done @ [c1])..<length (bins t1)] (h\<lparr>rh_tbl := Some t1\<rparr>, s1) =
    (Inr (), h\<lparr>rh_tbl := Some (t1\<lparr>bins := (done @ [c1]) @ rest',
       num_entries := num_entries t1 - (int (length (concat rest)) - int (length es1))\<rparr>)\<rparr>, s') \<and>
    concat rest' = es1 \<and> list_all2 (\<lambda>b b'. mset b \<subseteq># mset b') rest' rest"
    using Cons.prems(1) by (intro Cons.IH r(1)) (simp_all add: t1_def)
  then obtain rest' where rest': "live_bins (delete_if_i (rb_yield safe (testing f))) [length (done @ [c1])..<length (bins t1)] (h\<lparr>rh_tbl := Some t1\<rparr>, s1) =
    (Inr (), h\<lparr>rh_tbl := Some (t1\<lparr>bins := (done @ [c1]) @ rest',
       num_entries := num_entries t1 - (int (length (concat rest)) - int (length es1))\<rparr>)\<rparr>, s')"
    "concat rest' = es1" "list_all2 (\<lambda>b b'. mset b \<subseteq># mset b') rest' rest" by blast
  have "mset c1 \<subseteq># mset c" using reject_ref_mset [of "\<lambda>e. f (kv e)" c s] c by simp
  with rest' r(2) ch Cons.prems(2) show ?case
    unfolding up by (intro exI [of _ "c1 # rest'"]) (simp add: t1_def)
qed

lemma delete_if_testing:
  assumes "hash_ok hty h" "iter_lev h = 0" "rb_hash_modify safe h = Inr ()" "rb_hash_to_a h = Inr ps"
    and r: "reject_ref f ps s = (qs, s')"
  shows "\<exists>h'. rb_hash_delete_if safe (testing f) (h, s) = (Inr (), h', s') \<and> hash_ok hty h' \<and> iter_lev h' = 0 \<and>
    rb_hash_to_a h' = Inr qs \<and>
    rb_hash_reject_bang safe (testing f) (h, s) = (Inr (length qs \<noteq> length ps), h', s')"
proof -
  obtain t where t: "rh_tbl h = Some t" "mk.marked_ok t" "hash_deleted h \<longrightarrow> 0 < iter_lev h"
    "\<not> hash_deleted h \<longrightarrow> (\<forall>e \<in> st_entries t. ent_record e \<noteq> Qundef)" using hash_okD [OF assms(1)] .
  then have nm: "\<forall>e \<in> st_entries t. ent_record e \<noteq> Qundef" "mk.clean t = t" and hd: "\<not> hash_deleted h"
    using assms(2) mk.clean_id by auto
  have inv: "st_inv t" "st_type t = hty" using t(2) nm(2) by (simp_all add: mk.marked_ok_def)
  have keys: "\<forall>e \<in> st_entries t. ent_key e \<noteq> Qundef" using t(2) nm(1) by (auto simp: mk.marked_ok_def marks_ok_def)
  have ps: "ps = map kv (concat (bins t))" using to_a_clean [OF assms(1) t(1)] assms(4) nm(2) by simp
  obtain es' where es': "reject_ref (\<lambda>e. f (kv e)) (concat (bins t)) s = (es', s')" "qs = map kv es'"
    using r by (auto simp: ps reject_ref_map split: prod.splits)
  let ?h = "h\<lparr>iter_lev := iter_lev h + 1\<rparr>"
  have n: "num_entries t = int (length (concat (bins t)))" by (rule st_invD(4) [OF inv(1)])
  have hh: "?h\<lparr>rh_tbl := Some t\<rparr> = ?h" using t(1) by simp
  from reject_bins [OF keys, of t "[]" f s es' s' safe ?h, unfolded hh] es'(1) n
  obtain bs where b: "live_bins (delete_if_i (rb_yield safe (testing f))) [0..<length (bins t)] (?h, s) =
      (Inr (), ?h\<lparr>rh_tbl := Some (t\<lparr>bins := bs, num_entries := int (length (concat bs))\<rparr>)\<rparr>, s')"
    "concat bs = es'" "list_all2 (\<lambda>b b'. mset b \<subseteq># mset b') bs (bins t)" by auto
  let ?t = "t\<lparr>bins := bs, num_entries := int (length (concat bs))\<rparr>"
  define h' where "h' = h\<lparr>rh_tbl := Some ?t\<rparr>"
  have d: "rb_hash_delete_if safe (testing f) (h, s) = (Inr (), h', s')"
    using assms(2,3) b(1) t(1) hd st_invD(2) [OF inv(1)]
    by (simp add: rb_hash_delete_if_def delete_if_def rb_hash_foreach_def rb_hash_foreach_call_def rb_hash_foreach_ensure_def Let_def h'_def)
  have inv': "st_inv ?t" by (rule keep_entries_inv [OF inv(1) b(3)])
  have "mset es' \<subseteq># mset (concat (bins t))" using reject_ref_mset [of "\<lambda>e. f (kv e)" "concat (bins t)" s] es'(1) by simp
  then have sub: "set es' \<subseteq> st_entries t" by (metis set_mset_mono set_mset_mset)
  then have nm': "\<forall>e \<in> st_entries ?t. ent_record e \<noteq> Qundef" using nm(1) b(2) by (simp del: set_concat) blast
  then have c: "mk.clean ?t = ?t" using mk.clean_id by blast
  have "mk.marked_ok ?t"
    unfolding mk.marked_ok_def c using inv' inv(2) nm' keys sub b(2) unfolding marks_ok_def by (simp del: set_concat) blast
  then have ok: "hash_ok hty h'" using hd assms(2) nm' by (intro hash_okI [of _ ?t]) (simp_all add: h'_def)
  have a: "rb_hash_to_a h' = Inr qs" using to_a_clean [OF ok, of ?t] unfolding c by (simp add: h'_def b(2) es'(2))
  have "rb_hash_reject_bang safe (testing f) (h, s) = (Inr (length qs \<noteq> length ps), h', s')"
    using d t(1) n b(2) by (auto simp: rb_hash_reject_bang_def rb_hash_size_def with_tbl_def h'_def ps es'(2))
  with d ok a assms(2) show ?thesis by (auto simp: h'_def)
qed

end

section \<open>Properties\<close>

text \<open>A hash with one entry, whose key and the Fixnum 11 share a bin.\<close>

definition kernel_type :: "val st_hash_type" where
  "kernel_type = objhash (\<lambda>x y. x = y) rb_obj_id"

definition ex_hash :: rhash where
  "ex_hash = \<lparr>rh_tbl = Some \<lparr>st_type = kernel_type, num_bins = 11, num_entries = 1,
       bins = [[], [\<lparr>ent_hash = 1, ent_key = Obj (Fixnum 0), ent_record = Qnil\<rparr>], [], [], [], [], [], [], [], [], []]\<rparr>,
     iter_lev = 0, ifnone = Qnil, hash_deleted = False, hash_proc_default = False, rh_frozen = False, rh_tainted = False\<rparr>"

lemma bins_ok_enumerate:
  "bins_ok ty bs \<longleftrightarrow> (\<forall>(i, c) \<in> set (enumerate 0 bs). \<forall>e \<in> set c. entry_ok ty (length bs) i e)"
  by (force simp: bins_ok_def in_set_enumerate_eq)

lemma ex_hash_ok: "hash_ok kernel_type ex_hash"
proof -
  let ?e = "\<lparr>ent_hash = 1, ent_key = Obj (Fixnum 0), ent_record = Qnil\<rparr> :: (val, val) st_table_entry"
  let ?bs = "[[], [?e], [], [], [], [], [], [], [], [], []]"
  have "bins_ok kernel_type ?bs"
    unfolding bins_ok_enumerate by (simp add: entry_ok_def kernel_type_def objhash_def rb_any_hash_def)
  then show ?thesis
    by (simp add: hash_ok_def ex_hash_def cleanup_safe_eq st_inv_def keys_unique_def marks_ok_def)
qed

text \<open>
  \<^verbatim>\<open>delete_if\<close> and a block that changes the hash: an entry that the block inserts in the bin of the entry
  under the iteration is lost while it stays counted, and an entry that the block deletes itself is
  counted down twice. \<^verbatim>\<open>clear\<close> inside an iteration counts entries down that were deleted before.
\<close>

theorem delete_if_miscounts:
  "(case rb_hash_delete_if 0 (\<lambda>_ s. ([OpAset (Obj (Fixnum 11)) Qnil], True, s)) (ex_hash, ()) of
      (r, h, _) \<Rightarrow> (r, rb_hash_size h, rb_hash_to_a h)) = (Inr (), Inr 1, Inr []) \<and>
   (case rb_hash_delete_if 0 (\<lambda>(k, _) s. ([OpDelete k], True, s)) (ex_hash, ()) of
      (r, h, _) \<Rightarrow> (r, rb_hash_size h, rb_hash_to_a h)) = (Inr (), Inr (- 1), Inr []) \<and>
   bindR (rb_hash_delete 0 None (ex_hash\<lparr>iter_lev := 1\<rparr>) (Obj (Fixnum 0))) (\<lambda>(_, h). bindR (rb_hash_clear 0 h) rb_hash_size) = Inr (- 1)"
  by code_simp

end
