(* ===== verification/Hash_Maps.thy ===== *)
theory Hash_Maps
  imports Hash_Iter
begin

text \<open>
  Hashes as finite maps with a default: storing, looking up and deleting, and the operations on whole
  hashes (\<^verbatim>\<open>update\<close>, \<^verbatim>\<open>replace\<close>, \<^verbatim>\<open>dup\<close>, \<^verbatim>\<open>rehash\<close>, \<^verbatim>\<open>invert\<close>, \<^verbatim>\<open>==\<close>), which all go over the entries of one hash and store
  into or look up in another.
\<close>

section \<open>Loops that store\<close>

fun foldR :: "('k \<Rightarrow> 'v \<Rightarrow> 's \<Rightarrow> rb_error + 's) \<Rightarrow> ('k \<times> 'v) list \<Rightarrow> 's \<Rightarrow> rb_error + 's" where
  "foldR g [] s = Inr s"
| "foldR g ((k, v) # es) s = bindR (g k v s) (foldR g es)"

lemma foreach_chain_raising:
  assumes "\<And>k v s. func k v s = (if k = Qundef then Inr (ST_CONTINUE, s) else bindR (g k v s) (\<lambda>s. Inr (ST_CONTINUE, s)))"
  shows "foreach_chain (raising func) (Inr s) es =
    (case foldR g (map kv (filter (\<lambda>e. ent_key e \<noteq> Qundef) es)) s of
       Inl x \<Rightarrow> (es, 0, Inl x, True) | Inr s \<Rightarrow> (es, 0, Inr s, False))"
  by (induction es arbitrary: s) (auto simp: raising_def assms bindR_def split: sum.splits)

lemma foldR_append: "foldR g (xs @ ys) s = bindR (foldR g xs s) (foldR g ys)"
  by (induction g xs s rule: foldR.induct) (auto simp: bindR_def split: sum.splits)

lemma foreach_raising:
  assumes "\<And>k v s. func k v s = (if k = Qundef then Inr (ST_CONTINUE, s) else bindR (g k v s) (\<lambda>s. Inr (ST_CONTINUE, s)))"
  shows "snd (st_foreach t (raising func) (Inr s)) = foldR g (map kv (filter (\<lambda>e. ent_key e \<noteq> Qundef) (concat (bins t)))) s"
proof -
  have "snd (snd (foreach_bins (raising func) (Inr s) bs)) = foldR g (map kv (filter (\<lambda>e. ent_key e \<noteq> Qundef) (concat bs))) s" for bs
  proof (induction bs arbitrary: s)
    case (Cons b bs)
    show ?case
    proof (cases "foldR g (map kv (filter (\<lambda>e. ent_key e \<noteq> Qundef) b)) s")
      case (Inr s')
      with Cons.IH [of s'] show ?thesis
        by (cases "foreach_bins (raising func) (Inr s') bs") (simp add: foreach_chain_raising [OF assms] foldR_append)
    qed (simp add: foreach_chain_raising [OF assms] foldR_append)
  qed simp
  from this [of "bins t"] show ?thesis
    by (cases "foreach_bins (raising func) (Inr s) (bins t)") (simp add: st_foreach_def)
qed

text \<open>Storing a list of entries, the later ones over the earlier ones.\<close>

definition put_all :: "val st_hash_type \<Rightarrow> (val \<times> val) list \<Rightarrow> (val \<Rightarrow> val option) \<Rightarrow> val \<Rightarrow> val option" where
  "put_all ty ps m k = (case find (\<lambda>(k', v). EQUAL ty k' k) (rev ps) of Some (k', v) \<Rightarrow> Some v | None \<Rightarrow> m k)"

lemma find_append: "find P (xs @ ys) = (case find P xs of None \<Rightarrow> find P ys | Some x \<Rightarrow> Some x)"
  by (induction xs) auto

lemma find_SomeD: "find P xs = Some x \<Longrightarrow> x \<in> set xs \<and> P x"
  by (induction xs) (auto split: if_splits)

lemma put_all_Cons: "put_all ty ((k, v) # ps) m = put_all ty ps (map_op ty (OpAset k v) m)"
  by (auto simp: put_all_def map_op_def find_append fun_eq_iff split: option.splits)

lemma put_all_Nil [simp]: "put_all ty [] m = m"
  by (simp add: put_all_def fun_eq_iff)

context any_hash_laws
begin

lemma aset_returns:
  assumes "hash_ok hty h" "rb_hash_modify safe h = Inr ()" "k \<noteq> Qundef" "v \<noteq> Qundef" "size_of h < 2 ^ 31 - 1"
  shows "\<exists>h'. rb_hash_aset safe h k v = Inr h' \<and> rb_hash_modify safe h' = Inr () \<and> size_of h' \<le> size_of h + 1 \<and>
    h' = h\<lparr>rh_tbl := rh_tbl h'\<rparr>"
proof -
  obtain t where t: "rh_tbl h = Some t" "mk.marked_ok t" using hash_okD [OF assms(1)] .
  note c = mk.insert_clean(1) [OF t(2) assms(3,4)]
  have wf: "st_inv (mk.clean t) \<and> st_type (mk.clean t) = hty" using t(2) by (simp add: mk.marked_ok_def)
  obtain r u where u: "st_insert (mk.clean t) k v = Inr (r, u)"
    using keys.dict.put_ok [OF wf, of k v] assms(5) t(1) by auto
  then obtain t' where t': "st_insert t k v = Inr (r, t')" "u = mk.clean t'" using c by (cases "st_insert t k v") auto
  have "num_entries (mk.clean t) < 2 ^ 31 - 1" using assms(5) t(1) by simp
  note cnt = keys.dict.put_cnt [OF wf this u] and ret = keys.dict.put_ret [OF wf this u]
  have "num_entries u \<le> num_entries t + 1" using cnt ret by (auto split: if_splits)
  with t t' assms(2) show ?thesis
    by (auto simp: rb_hash_aset_def with_tbl_def hash_store_insert rb_hash_modify_def split: if_splits)
qed

lemma asets_ok:
  assumes "hash_ok hty h" "rb_hash_modify safe h = Inr ()" "size_of h + int (length ps) < 2 ^ 31"
    "\<forall>(k, v) \<in> set ps. k \<noteq> Qundef \<and> v \<noteq> Qundef"
  shows "\<exists>h'. foldR (\<lambda>k v h. rb_hash_aset safe h k v) ps h = Inr h' \<and> hash_ok hty h' \<and>
    hash_map h' = put_all hty ps (hash_map h) \<and> h' = h\<lparr>rh_tbl := rh_tbl h'\<rparr>"
  using assms
proof (induction ps arbitrary: h)
  case Nil
  then show ?case by simp
next
  case (Cons p ps)
  obtain k v where p: "p = (k, v)" by fastforce
  have kv: "k \<noteq> Qundef" "v \<noteq> Qundef" using Cons.prems(4) p by auto
  obtain h1 where h1: "rb_hash_aset safe h k v = Inr h1" "rb_hash_modify safe h1 = Inr ()" "size_of h1 \<le> size_of h + 1"
    "h1 = h\<lparr>rh_tbl := rh_tbl h1\<rparr>"
    using aset_returns [OF Cons.prems(1,2) kv] Cons.prems(3) by auto
  have room: "size_of h < 2 ^ 31 - 1" using Cons.prems(3) by simp
  note a = aset_ok(1) [OF Cons.prems(1) kv h1(1) room]
  obtain h' where h': "foldR (\<lambda>k v h. rb_hash_aset safe h k v) ps h1 = Inr h'" "hash_ok hty h'"
    "hash_map h' = put_all hty ps (hash_map h1)" "h' = h1\<lparr>rh_tbl := rh_tbl h'\<rparr>"
    using Cons.IH [of h1] a h1 Cons.prems by auto
  have "h' = h\<lparr>rh_tbl := rh_tbl h'\<rparr>" using h1(4) h'(4) by (metis rhash.update_convs(1) rhash.surjective)
  with h' a h1(1) p show ?case by (simp add: put_all_Cons)
qed

lemma lookup_put_all:
  assumes "st_inv t" "st_type t = hty"
  shows "put_all hty (map kv (concat (bins t))) m k = (case st_lookup t k of Some v \<Rightarrow> Some v | None \<Rightarrow> m k)"
proof (cases "find (\<lambda>(k', v). EQUAL hty k' k) (rev (map kv (concat (bins t))))")
  case None
  then have "\<forall>e \<in> st_entries t. \<not> EQUAL hty (ent_key e) k" by (auto simp: find_None_iff)
  then have "st_lookup t k = None" using keys.lookup_None_iff [OF assms] keys.equal_sym by blast
  with None show ?thesis by (simp add: put_all_def)
next
  case (Some p)
  obtain k' v where p: "p = (k', v)" by fastforce
  from Some have "p \<in> set (map kv (concat (bins t)))" "EQUAL hty k' k"
    using find_SomeD [OF Some] p by auto
  then obtain e where "e \<in> st_entries t" "p = kv e" "EQUAL hty k (ent_key e)" using p keys.equal_sym by auto
  then have "st_lookup t k = Some v" using keys.lookup_iff [OF assms] p by blast
  with Some p show ?thesis by (simp add: put_all_def)
qed

section \<open>Whole hashes\<close>

text \<open>The live entries of a hash, as the loops of this section see them.\<close>

lemma live_pairs:
  assumes "hash_ok hty h" "rh_tbl h = Some t"
  shows "rb_hash_to_a h = Inr (map kv (filter (\<lambda>e. ent_key e \<noteq> Qundef) (concat (bins t))))"
    and "\<forall>(k, v) \<in> set (map kv (filter (\<lambda>e. ent_key e \<noteq> Qundef) (concat (bins t)))). k \<noteq> Qundef \<and> v \<noteq> Qundef"
    and "put_all hty (map kv (filter (\<lambda>e. ent_key e \<noteq> Qundef) (concat (bins t)))) m k = (case hash_map h k of Some v \<Rightarrow> Some v | None \<Rightarrow> m k)"
    and "int (length (map kv (filter (\<lambda>e. ent_key e \<noteq> Qundef) (concat (bins t))))) = num_entries t"
proof -
  have t: "st_inv (mk.clean t)" "st_type (mk.clean t) = hty" and m: "marks_ok Qundef Qundef (concat (bins t))"
    using assms by (simp_all add: hash_ok_def)
  have eq: "filter (\<lambda>e. ent_key e \<noteq> Qundef) (concat (bins t)) = concat (bins (mk.clean t))"
    unfolding mk.clean_simps(4) filter_concat [symmetric] using m by (intro filter_cong) (auto simp: marks_ok_def)
  show "rb_hash_to_a h = Inr (map kv (filter (\<lambda>e. ent_key e \<noteq> Qundef) (concat (bins t))))"
    using to_a_clean [OF assms] eq by simp
  show "\<forall>(k, v) \<in> set (map kv (filter (\<lambda>e. ent_key e \<noteq> Qundef) (concat (bins t)))). k \<noteq> Qundef \<and> v \<noteq> Qundef"
    using m by (auto simp: marks_ok_def)
  show "put_all hty (map kv (filter (\<lambda>e. ent_key e \<noteq> Qundef) (concat (bins t)))) m k = (case hash_map h k of Some v \<Rightarrow> Some v | None \<Rightarrow> m k)"
    using lookup_put_all [OF t, of m k] assms(2) unfolding eq by (simp add: hash_map_def)
  show "int (length (map kv (filter (\<lambda>e. ent_key e \<noteq> Qundef) (concat (bins t))))) = num_entries t"
    using st_invD(4) [OF t(1)] unfolding eq by simp
qed

lemma update_map:
  assumes "hash_ok hty h1" "hash_ok hty h2" "rb_hash_modify safe h1 = Inr ()" "size_of h1 + size_of h2 < 2 ^ 31"
  shows "\<exists>h'. rb_hash_update safe dm None h1 h2 = Inr h' \<and> hash_ok hty h' \<and> h' = h1\<lparr>rh_tbl := rh_tbl h'\<rparr> \<and>
    hash_map h' = (\<lambda>k. case hash_map h2 k of Some v \<Rightarrow> Some v | None \<Rightarrow> hash_map h1 k)"
proof -
  obtain t2 where t2: "rh_tbl h2 = Some t2" using hash_okD [OF assms(2)] .
  note l = live_pairs [OF assms(2) t2]
  have "rb_hash_update safe dm None h1 h2 =
      foldR (\<lambda>k v h. rb_hash_aset safe h k v) (map kv (filter (\<lambda>e. ent_key e \<noteq> Qundef) (concat (bins t2)))) h1"
    using t2 by (simp add: rb_hash_update_def with_tbl_def foreach_raising [OF rb_hash_update_i_def])
  moreover obtain h' where "foldR (\<lambda>k v h. rb_hash_aset safe h k v) (map kv (filter (\<lambda>e. ent_key e \<noteq> Qundef) (concat (bins t2)))) h1 = Inr h'"
    "hash_ok hty h'" "hash_map h' = put_all hty (map kv (filter (\<lambda>e. ent_key e \<noteq> Qundef) (concat (bins t2)))) (hash_map h1)"
    "h' = h1\<lparr>rh_tbl := rh_tbl h'\<rparr>"
    using asets_ok [OF assms(1,3) _ l(2)] assms(4) l(4) t2 by auto
  ultimately show ?thesis using l(3) by (auto simp: fun_eq_iff)
qed

lemma clear_ok:
  assumes "hash_ok hty h" "iter_lev h = 0" "rb_hash_modify safe h = Inr ()"
  shows "\<exists>h'. rb_hash_clear safe h = Inr h' \<and> hash_ok hty h' \<and> size_of h' = 0 \<and> hash_map h' = Map.empty \<and>
    rb_hash_modify safe h' = Inr () \<and> h' = h\<lparr>rh_tbl := rh_tbl h'\<rparr>"
proof -
  obtain t where t: "rh_tbl h = Some t" "mk.marked_ok t" "hash_deleted h \<longrightarrow> 0 < iter_lev h"
    "\<not> hash_deleted h \<longrightarrow> (\<forall>e \<in> st_entries t. ent_record e \<noteq> Qundef)" using hash_okD [OF assms(1)] .
  then have c: "mk.clean t = t" and hd: "\<not> hash_deleted h" using assms(2) mk.clean_id by auto
  then have inv: "st_inv t" "st_type t = hty" using t(2) by (simp_all add: mk.marked_ok_def)
  have "foreach_chain clear_i () es = ([], int (length es), (), False)" for es
    by (induction es) (simp_all add: clear_i_def)
  then have "foreach_bins clear_i () bs = (map (\<lambda>_. []) bs, int (length (concat bs)), ())" for bs
    by (induction bs) simp_all
  then have f: "fst (st_foreach t clear_i ()) = t\<lparr>bins := map (\<lambda>_. []) (bins t), num_entries := 0\<rparr>"
    using st_invD(4) [OF inv(1)] by (simp add: st_foreach_def)
  let ?t = "t\<lparr>bins := map (\<lambda>_. []) (bins t), num_entries := 0\<rparr>"
  have nil: "concat (map (\<lambda>_. []) (bins t)) = []" by simp
  then have e: "concat (bins ?t) = []" by simp
  have i: "st_inv ?t" using keep_entries_inv [OF inv(1), of "map (\<lambda>_. []) (bins t)"] unfolding nil by (simp add: list_all2_conv_all_nth)
  have c': "mk.clean ?t = ?t" using e by (simp only: mk.clean_id) simp
  have m: "mk.marked_ok ?t" "st_lookup (mk.clean ?t) = Map.empty"
    unfolding mk.marked_ok_def c' using i inv(2) keys.lookup_None_iff [of ?t] e by (auto simp: marks_ok_def)
  let ?h = "h\<lparr>rh_tbl := Some ?t\<rparr>"
  have "rb_hash_clear safe h = Inr ?h" using assms(3) t(1) f by (simp add: rb_hash_clear_def with_tbl_def)
  moreover have "hash_ok hty ?h" using m(1) assms(2) hd e by (intro hash_okI [of _ ?t]) auto
  moreover have "hash_map ?h = Map.empty" using m(2) by (simp add: hash_map_def fun_eq_iff)
  moreover have "rb_hash_modify safe ?h = Inr ()" using assms(3) by (simp add: rb_hash_modify_def split: if_splits)
  ultimately show ?thesis by auto
qed

lemma become_map:
  assumes "hash_ok hty h" "hash_ok hty h2" "iter_lev h = 0" "rb_hash_modify safe h = Inr ()" "size_of h2 < 2 ^ 31"
  shows "\<exists>h'. rb_hash_become safe False h h2 = Inr h' \<and> hash_ok hty h' \<and> hash_map h' = hash_map h2 \<and>
    h' = h\<lparr>rh_tbl := rh_tbl h', ifnone := ifnone h2, hash_proc_default := hash_proc_default h2\<rparr>"
proof -
  obtain t2 where t2: "rh_tbl h2 = Some t2" using hash_okD [OF assms(2)] .
  note l = live_pairs [OF assms(2) t2]
  let ?ps = "map kv (filter (\<lambda>e. ent_key e \<noteq> Qundef) (concat (bins t2)))"
  obtain h1 where h1: "rb_hash_clear safe h = Inr h1" "hash_ok hty h1" "size_of h1 = 0" "hash_map h1 = Map.empty"
    "rb_hash_modify safe h1 = Inr ()" "h1 = h\<lparr>rh_tbl := rh_tbl h1\<rparr>" using clear_ok [OF assms(1,3,4)] by blast
  obtain h3 where h3: "foldR (\<lambda>k v h. rb_hash_aset safe h k v) ?ps h1 = Inr h3" "hash_ok hty h3"
    "hash_map h3 = put_all hty ?ps (hash_map h1)" "h3 = h1\<lparr>rh_tbl := rh_tbl h3\<rparr>"
    using asets_ok [OF h1(2,5) _ l(2)] assms(5) l(4) t2 h1(3) by auto
  let ?h = "h3\<lparr>ifnone := ifnone h2, hash_proc_default := hash_proc_default h2\<rparr>"
  have r: "replace_i safe k v s = (if k = Qundef then Inr (ST_CONTINUE, s) else bindR (rb_hash_aset safe s k v) (\<lambda>s. Inr (ST_CONTINUE, s)))" for k v s
    by (simp add: replace_i_def)
  have "rb_hash_become safe False h h2 = Inr ?h"
    using h1(1) h3(1) t2 by (simp add: rb_hash_become_def with_tbl_def foreach_raising [OF r])
  moreover have "hash_ok hty ?h" using h3(2) by (cases "rh_tbl h3") (simp_all add: hash_ok_def)
  moreover have "hash_map ?h = hash_map h2"
    using h3(3) h1(4) l(3) by (auto simp: hash_map_def fun_eq_iff split: option.splits)
  moreover have "?h = h\<lparr>rh_tbl := rh_tbl ?h, ifnone := ifnone h2, hash_proc_default := hash_proc_default h2\<rparr>"
    by (subst h3(4), subst h1(6)) simp
  ultimately show ?thesis by blast
qed

lemma new_hash_ok:
  "\<exists>h. rb_hash_s_alloc safe hty = Inr h \<and> hash_ok hty h \<and> iter_lev h = 0 \<and> hash_map h = Map.empty \<and> size_of h = 0 \<and>
     \<not> rh_frozen h \<and> rh_tainted h = (safe \<ge> 3)"
proof -
  have n: "0 < new_size 0" by (simp add: new_size_def primes_def MINSIZE_def)
  let ?t = "\<lparr>st_type = hty, num_bins = new_size 0, num_entries = 0, bins = replicate (nat (new_size 0)) []\<rparr> :: (val, val) st_table"
  have init: "st_init_table hty = Inr ?t" using n by (simp add: st_init_table_def st_init_table_with_size_def Let_def)
  have i: "st_inv ?t" using n by (simp add: st_inv_def keys_unique_def)
  have c: "mk.clean ?t = ?t" by (simp only: mk.clean_id) simp
  have m: "mk.marked_ok ?t" "st_lookup (mk.clean ?t) = Map.empty"
    unfolding mk.marked_ok_def c using i keys.lookup_None_iff [of ?t] by (auto simp: marks_ok_def)
  then show ?thesis
    using init hash_okI [of _ ?t] by (auto simp: rb_hash_s_alloc_def hash_map_def fun_eq_iff)
qed

lemma dup_map:
  assumes "hash_ok hty h" "size_of h < 2 ^ 31"
  shows "\<exists>h'. rb_hash_dup safe hty h = Inr h' \<and> hash_ok hty h' \<and> hash_map h' = hash_map h \<and>
    iter_lev h' = 0 \<and> \<not> rh_frozen h' \<and> rh_tainted h' = (rh_tainted h \<or> safe \<ge> 3) \<and> ifnone h' = ifnone h \<and>
    hash_proc_default h' = hash_proc_default h"
proof -
  obtain d where d: "rb_hash_s_alloc safe hty = Inr d" "hash_ok hty d" "iter_lev d = 0" "\<not> rh_frozen d" "rh_tainted d = (safe \<ge> 3)"
    using new_hash_ok [of safe] by blast
  let ?d = "d\<lparr>rh_tainted := rh_tainted d \<or> rh_tainted h\<rparr>"
  obtain t where t: "rh_tbl d = Some t" using hash_okD [OF d(2)] .
  have "hash_ok hty ?d" "iter_lev ?d = 0" "rb_hash_modify safe ?d = Inr ()"
    using d t by (auto simp: hash_ok_def rb_hash_modify_def)
  from become_map [OF this(1) assms(1) this(2,3) assms(2)] obtain h' where
    h': "rb_hash_become safe False ?d h = Inr h'" "hash_ok hty h'" "hash_map h' = hash_map h"
    "h' = ?d\<lparr>rh_tbl := rh_tbl h', ifnone := ifnone h, hash_proc_default := hash_proc_default h\<rparr>" by blast
  have "iter_lev h' = 0" "\<not> rh_frozen h'" "rh_tainted h' = (rh_tainted h \<or> safe \<ge> 3)" "ifnone h' = ifnone h" "hash_proc_default h' = hash_proc_default h"
    by (subst h'(4), use d in simp; blast)+
  with h' d(1) show ?thesis by (auto simp: rb_hash_dup_def)
qed

lemma merge_and_copy:
  assumes "hash_ok hty h1" "hash_ok hty h2" "rb_hash_modify safe h1 = Inr ()" "size_of h1 + size_of h2 < 2 ^ 31"
    "safe < 4" "iter_lev h1 = 0"
  shows "(\<exists>h'. rb_hash_update safe default_m None h1 h2 = Inr h' \<and> hash_ok hty h' \<and>
            hash_map h' = (\<lambda>k. case hash_map h2 k of Some v \<Rightarrow> Some v | None \<Rightarrow> hash_map h1 k)) \<and>
         (\<exists>h'. rb_hash_become safe False h1 h2 = Inr h' \<and> hash_ok hty h' \<and> hash_map h' = hash_map h2 \<and>
            ifnone h' = ifnone h2 \<and> hash_proc_default h' = hash_proc_default h2) \<and>
         (\<exists>h'. rb_hash_dup safe hty h2 = Inr h' \<and> hash_ok hty h' \<and> hash_map h' = hash_map h2 \<and>
            ifnone h' = ifnone h2 \<and> \<not> rh_frozen h' \<and> iter_lev h' = 0)"
proof -
  have "0 \<le> size_of h" if "hash_ok hty h" for h
    using that st_invD(4) by (auto simp: hash_ok_def split: option.splits dest!: st_invD(4))
  then have size: "size_of h2 < 2 ^ 31" using assms(1,4) by fastforce
  obtain b where b: "rb_hash_become safe False h1 h2 = Inr b" "hash_ok hty b" "hash_map b = hash_map h2"
    "b = h1\<lparr>rh_tbl := rh_tbl b, ifnone := ifnone h2, hash_proc_default := hash_proc_default h2\<rparr>"
    using become_map [OF assms(1,2,6,3) size] by blast
  have "ifnone b = ifnone h2" "hash_proc_default b = hash_proc_default h2" by (subst b(4), simp)+
  with b(1-3) update_map [OF assms(1-4), of default_m] dup_map [OF assms(2) size, of safe] show ?thesis by blast
qed

text \<open>Rehashing needs nothing of the old table but its list of entries.\<close>

lemma insert_all:
  assumes "st_inv t" "st_type t = hty" "num_entries t + int (length ps) < 2 ^ 31"
  shows "\<exists>t'. foldR (\<lambda>k v t. bindR (st_insert t k v) (\<lambda>(_, t). Inr t)) ps t = Inr t' \<and> st_inv t' \<and> st_type t' = hty \<and>
    st_lookup t' = put_all hty ps (st_lookup t)"
  using assms
proof (induction ps arbitrary: t)
  case (Cons p ps)
  obtain k v where p: "p = (k, v)" by fastforce
  have wf: "st_inv t \<and> st_type t = hty" using Cons.prems by simp
  obtain r u where u: "st_insert t k v = Inr (r, u)" using keys.dict.put_ok [OF wf, of k v] Cons.prems(3) by auto
  have room: "num_entries t < 2 ^ 31 - 1" using Cons.prems(3) by simp
  have "num_entries u \<le> num_entries t + 1"
    using keys.dict.put_cnt [OF wf room u] keys.dict.put_ret [OF wf room u] by (auto split: if_splits)
  then obtain t' where "foldR (\<lambda>k v t. bindR (st_insert t k v) (\<lambda>(_, t). Inr t)) ps u = Inr t'" "st_inv t'" "st_type t' = hty"
    "st_lookup t' = put_all hty ps (st_lookup u)"
    using Cons.IH [of u] keys.dict.put_wf [OF wf room u] Cons.prems(3) by auto
  moreover have "st_lookup u = map_op hty (OpAset k v) (st_lookup t)"
    using keys.dict.put_get [OF wf room u] by (auto simp: map_op_def fun_eq_iff)
  ultimately show ?case using u p by (simp add: put_all_Cons)
qed simp

lemma rehash_map:
  assumes "rh_tbl h = Some t" "rb_hash_modify safe h = Inr ()" "num_entries t < 2 ^ 30" "length (concat (bins t)) < 2 ^ 31"
  shows "\<exists>t'. rb_hash_rehash safe hty h = Inr (h\<lparr>rh_tbl := Some t'\<rparr>) \<and> st_inv t' \<and> st_type t' = hty \<and>
    st_lookup t' = put_all hty (map kv (filter (\<lambda>e. ent_key e \<noteq> Qundef) (concat (bins t)))) Map.empty"
proof -
  let ?n = "new_size (num_entries t)"
  let ?ps = "map kv (filter (\<lambda>e. ent_key e \<noteq> Qundef) (concat (bins t)))"
  have n: "0 < ?n" using new_size_gt assms(3) by blast
  let ?t = "\<lparr>st_type = hty, num_bins = ?n, num_entries = 0, bins = replicate (nat ?n) []\<rparr> :: (val, val) st_table"
  have init: "st_init_table_with_size hty (num_entries t) = Inr ?t" using n by (simp add: st_init_table_with_size_def Let_def)
  have i: "st_inv ?t" using n by (simp add: st_inv_def keys_unique_def)
  have e: "st_lookup ?t = Map.empty" using keys.lookup_None_iff [OF i] by auto
  have r: "rb_hash_rehash_i k v s =
      (if k = Qundef then Inr (ST_CONTINUE, s) else bindR (bindR (st_insert s k v) (\<lambda>(_, t). Inr t)) (\<lambda>s. Inr (ST_CONTINUE, s)))" for k v s
    by (cases "st_insert s k v") (auto simp: rb_hash_rehash_i_def)
  have "length ?ps < 2 ^ 31" by (rule le_less_trans [OF _ assms(4)]) (simp only: length_map length_filter_le)
  then have "num_entries ?t + int (length ?ps) < 2 ^ 31" by simp
  from insert_all [OF i _ this] obtain t' where "foldR (\<lambda>k v t. bindR (st_insert t k v) (\<lambda>(_, t). Inr t)) ?ps ?t = Inr t'"
    "st_inv t'" "st_type t' = hty" "st_lookup t' = put_all hty ?ps (st_lookup ?t)" by fastforce
  then show ?thesis
    using assms(1,2) init e
    by (intro exI [of _ t']) (simp add: rb_hash_rehash_def with_tbl_def foreach_raising [OF r])
qed

section \<open>Equality\<close>

lemma equal_loop:
  "snd (st_foreach t1 (equal_i eq t2) True) \<longleftrightarrow>
     (\<forall>e \<in> st_entries t1. ent_key e \<noteq> Qundef \<longrightarrow> (\<exists>w. st_lookup t2 (ent_key e) = Some w \<and> eq (ent_record e) w))"
proof -
  let ?ok = "\<lambda>e. ent_key e \<noteq> Qundef \<longrightarrow> (\<exists>w. st_lookup t2 (ent_key e) = Some w \<and> eq (ent_record e) w)"
  have c: "foreach_chain (equal_i eq t2) True es = (es, 0, list_all ?ok es, \<not> list_all ?ok es)" for es
    by (induction es) (auto simp: equal_i_def split: option.splits)
  have "snd (snd (foreach_bins (equal_i eq t2) True bs)) \<longleftrightarrow> list_all ?ok (concat bs)" for bs
  proof (induction bs)
    case (Cons b bs)
    then show ?case
      by (cases "foreach_bins (equal_i eq t2) True bs") (auto simp: c)
  qed simp
  from this [of "bins t1"] show ?thesis
    by (cases "foreach_bins (equal_i eq t2) True (bins t1)") (auto simp: st_foreach_def list_all_iff)
qed

text \<open>Matching entries of two tables by their keys.\<close>

lemma entries_card:
  fixes t1 t2 :: "(val, val) st_table"
  assumes t1: "st_inv t1" "st_type t1 = hty" and t2: "st_inv t2" "st_type t2 = hty"
    and sub: "\<forall>e \<in> st_entries t1. st_lookup t2 (ent_key e) \<noteq> None"
    and X: "X \<subseteq> st_entries t2" "\<forall>x \<in> X. st_lookup t1 (ent_key x) = None"
  shows "num_entries t1 + int (card X) \<le> num_entries t2"
proof -
  have card: "num_entries t = int (card (st_entries t))" if "st_inv t" for t :: "(val, val) st_table"
    using st_invD(4,6) [OF that] by (simp add: keys_unique_def distinct_card del: set_concat)
  have "\<forall>e \<in> st_entries t1. \<exists>e2 \<in> st_entries t2. EQUAL hty (ent_key e) (ent_key e2)"
    using sub keys.lookup_None_iff [OF t2] by blast
  then obtain g where g: "\<And>e. e \<in> st_entries t1 \<Longrightarrow> g e \<in> st_entries t2 \<and> EQUAL hty (ent_key e) (ent_key (g e))"
    by metis
  have "inj_on g (st_entries t1)"
  proof (rule inj_onI)
    fix a b assume ab: "a \<in> st_entries t1" "b \<in> st_entries t1" "g a = g b"
    have "EQUAL hty (ent_key a) (ent_key b)" using g [OF ab(1)] g [OF ab(2)] ab(3) keys.equal_sym keys.equal_trans by metis
    with keys.entries_unique [OF t1 ab(1,2), of "ent_key a"] show "a = b" by simp
  qed
  moreover have "g ` st_entries t1 \<subseteq> st_entries t2 - X"
  proof -
    have "g e \<notin> X" if "e \<in> st_entries t1" for e
    proof
      assume "g e \<in> X"
      then have "st_lookup t1 (ent_key (g e)) = None" using X(2) by blast
      with keys.lookup_None_iff [OF t1] g [OF that] keys.equal_sym that show False by blast
    qed
    then show ?thesis using g by blast
  qed
  ultimately have "card (st_entries t1) \<le> card (st_entries t2 - X)" by (intro card_inj_on_le) auto
  moreover have "card (st_entries t2 - X) + card X = card (st_entries t2)"
    using X(1) card_Diff_subset [of X "st_entries t2"] card_mono [of "st_entries t2" X] by (simp add: finite_subset del: set_concat)
  ultimately show ?thesis unfolding card [OF t1(1)] card [OF t2(1)] by linarith
qed

lemma same_maps:
  fixes t1 t2 :: "(val, val) st_table"
  assumes t1: "st_inv t1" "st_type t1 = hty" and t2: "st_inv t2" "st_type t2 = hty"
  shows "num_entries t1 = num_entries t2 \<and> (\<forall>e \<in> st_entries t1. st_lookup t2 (ent_key e) = Some (ent_record e)) \<longleftrightarrow>
    st_lookup t1 = st_lookup t2"
proof
  assume a: "num_entries t1 = num_entries t2 \<and> (\<forall>e \<in> st_entries t1. st_lookup t2 (ent_key e) = Some (ent_record e))"
  show "st_lookup t1 = st_lookup t2"
  proof
    fix k
    show "st_lookup t1 k = st_lookup t2 k"
    proof (cases "st_lookup t1 k")
      case (Some v)
      then obtain e where "e \<in> st_entries t1" "EQUAL hty k (ent_key e)" "ent_record e = v"
        using keys.lookup_iff [OF t1] by blast
      then show ?thesis using a Some keys.lookup_cong [OF t2] by auto
    next
      case None
      show ?thesis
      proof (rule ccontr)
        assume "st_lookup t1 k \<noteq> st_lookup t2 k"
        then obtain x where x: "x \<in> st_entries t2" "EQUAL hty k (ent_key x)"
          using None keys.lookup_iff [OF t2, of k] by (metis option.exhaust)
        have "st_lookup t1 (ent_key x) = None" using keys.lookup_cong [OF t1 x(2)] None by simp
        with entries_card [OF t1 t2, of "{x}"] a x(1) show False by (auto simp del: set_concat)
      qed
    qed
  qed
next
  assume eq: "st_lookup t1 = st_lookup t2"
  have l: "st_lookup t (ent_key e) = Some (ent_record e)" if "st_inv t" "st_type t = hty" "e \<in> st_entries t" for t :: "(val, val) st_table" and e
    using keys.lookup_iff [OF that(1,2)] that(3) by (metis EQUAL_refl)
  have "num_entries t1 \<le> num_entries t2" "num_entries t2 \<le> num_entries t1"
    using entries_card [OF t1 t2, of "{}"] entries_card [OF t2 t1, of "{}"] l [OF t1] l [OF t2] eq
    by (simp_all del: set_concat)
  then show "num_entries t1 = num_entries t2 \<and> (\<forall>e \<in> st_entries t1. st_lookup t2 (ent_key e) = Some (ent_record e))"
    using l [OF t1] eq by auto
qed

lemma equal_decides:
  assumes "hash_ok hty h1" "hash_ok hty h2"
  shows "rb_hash_equal (\<lambda>x y. x = y) False h1 (Some h2) =
    Inr (hash_map h1 = hash_map h2 \<and> ifnone h1 = ifnone h2 \<and> hash_proc_default h1 = hash_proc_default h2)"
proof -
  obtain t1 where t1: "rh_tbl h1 = Some t1" "mk.marked_ok t1" using hash_okD [OF assms(1)] .
  obtain t2 where t2: "rh_tbl h2 = Some t2" "mk.marked_ok t2" using hash_okD [OF assms(2)] .
  have inv: "st_inv (mk.clean t1)" "st_type (mk.clean t1) = hty" "st_inv (mk.clean t2)" "st_type (mk.clean t2) = hty"
    and m: "marks_ok Qundef Qundef (concat (bins t1))" using t1(2) t2(2) by (simp_all add: mk.marked_ok_def)
  have "(\<forall>e \<in> st_entries t1. ent_key e \<noteq> Qundef \<longrightarrow> st_lookup t2 (ent_key e) = Some (ent_record e)) \<longleftrightarrow>
      (\<forall>e \<in> st_entries (mk.clean t1). st_lookup (mk.clean t2) (ent_key e) = Some (ent_record e))"
    using m mk.lookup_clean [OF t2(2)] by (auto simp: marks_ok_def)
  then have "num_entries t1 = num_entries t2 \<and> snd (st_foreach t1 (equal_i (\<lambda>x y. x = y) t2) True) \<longleftrightarrow>
      st_lookup (mk.clean t1) = st_lookup (mk.clean t2)"
    using same_maps [OF inv] by (simp add: equal_loop del: set_concat mk.clean_simps(4))
  moreover have "hash_map h1 = st_lookup (mk.clean t1)" "hash_map h2 = st_lookup (mk.clean t2)"
    using t1(1) t2(1) by (simp_all add: hash_map_def fun_eq_iff)
  ultimately show ?thesis using t1(1) t2(1) by (auto simp: rb_hash_equal_def with_tbl_def)
qed

lemma delete_returns:
  assumes "hash_ok hty h" "rb_hash_modify safe h = Inr ()"
  shows "\<exists>v h'. rb_hash_delete safe None h k = Inr (v, h')"
proof -
  obtain t where t: "rh_tbl h = Some t" "mk.marked_ok t" using hash_okD [OF assms(1)] .
  have "del_ret (st_delete t k) \<noteq> 0 \<Longrightarrow> \<exists>v. del_value (st_delete t k) = SetTo v"
    by (auto simp: st_delete_def Let_def split: list.splits option.splits if_splits)
  with t assms(2) mk.delete_safe_clean(5) [OF t(2), of k] show ?thesis
    by (auto simp: rb_hash_delete_def with_tbl_def Let_def)
qed

lemma refines_map:
  assumes "hash_ok hty h" "rb_hash_modify safe h = Inr ()" "k \<noteq> Qundef" "v \<noteq> Qundef" "size_of h < 2 ^ 31 - 1"
  shows "(\<exists>h'. rb_hash_aset safe h k v = Inr h' \<and> hash_ok hty h' \<and>
            hash_map h' = (\<lambda>k'. if EQUAL hty k k' then Some v else hash_map h k')) \<and>
         (\<exists>x h'. rb_hash_delete safe None h k = Inr (x, h') \<and> hash_ok hty h' \<and>
            x = (case hash_map h k of Some w \<Rightarrow> w | None \<Rightarrow> Qnil) \<and>
            hash_map h' = (\<lambda>k'. if EQUAL hty k k' then None else hash_map h k')) \<and>
         rb_hash_aref default_m h k = (case hash_map h k of Some w \<Rightarrow> Inr (w, h) | None \<Rightarrow> default_m h [k]) \<and>
         rb_hash_fetch None [k] h = (case hash_map h k of Some w \<Rightarrow> Inr w | None \<Rightarrow> Inl IndexError) \<and>
         rb_hash_has_key h k = Inr (hash_map h k \<noteq> None)"
proof -
  obtain t where t: "rh_tbl h = Some t" "mk.marked_ok t" using hash_okD [OF assms(1)] .
  note look = hash_map_lookup [OF t assms(3)]
  obtain h' where h': "rb_hash_aset safe h k v = Inr h'" using aset_returns [OF assms] by blast
  obtain x d where d: "rb_hash_delete safe None h k = Inr (x, d)" using delete_returns [OF assms(1,2)] by blast
  have "map_op hty (OpAset k v) (hash_map h) = (\<lambda>k'. if EQUAL hty k k' then Some v else hash_map h k')"
    "map_op hty (OpDelete k) (hash_map h) = (\<lambda>k'. if EQUAL hty k k' then None else hash_map h k')"
    by (simp_all add: map_op_def fun_eq_iff)
  then show ?thesis
    using h' aset_ok(1) [OF assms(1,3,4) h' assms(5)] d delete_ok [OF assms(1,3) d] t(1)
    by (simp add: rb_hash_aref_def rb_hash_fetch_def rb_hash_has_key_def with_tbl_def look split: option.splits)
qed

end

section \<open>Properties\<close>

lemma kernel_laws: "any_hash_laws (\<lambda>x y. x = y) rb_obj_id"
  by (rule kernel.any_hash_laws_axioms)

lemma ex_hash_facts:
  "hash_ok (objhash (\<lambda>x y. x = y) rb_obj_id) ex_hash" "iter_lev ex_hash = 0" "rb_hash_modify 0 ex_hash = Inr ()"
  "rb_hash_to_a ex_hash = Inr [(Obj (Fixnum 0), Qnil)]" "num_entries (the (rh_tbl ex_hash)) = 1"
proof -
  show "hash_ok (objhash (\<lambda>x y. x = y) rb_obj_id) ex_hash" using ex_hash_ok by (simp add: kernel_type_def)
  show "rb_hash_to_a ex_hash = Inr [(Obj (Fixnum 0), Qnil)]" by code_simp
qed (simp_all add: ex_hash_def rb_hash_modify_def)


text \<open>
  C13. A hash stays well formed under an iteration whose block inserts and deletes in it at will, also when
  the block raises or the table is rehashed: the iteration level returns to its value, at the outermost
  level no marked entry is left, the result is what the operations of the block make of the map, in
  their order, and no freed entry is read. The errors are those of the operations, or IndexError. The
  counters are \<^verbatim>\<open>int\<close>s: a call of the block makes at most \<open>L\<close> stores, and so many fit on top of the entries the table
  can have without being rehashed.
\<close>

theorem hash_iteration_safe:
  assumes "any_hash_laws eql hash" "hash_ok (objhash eql hash) h" "\<forall>x s. \<forall>y \<in> set (fst (blk x s)). wf_op y"
    "\<forall>x s. stores (fst (blk x s)) \<le> L" "max (num_entries (the (rh_tbl h))) (6 * num_bins (the (rh_tbl h))) + int L < 2 ^ 31"
    "iter_lev h < 2 ^ 31 - 1" "rb_hash_each_pair safe blk (h, s) = (r, h', s')"
  shows "hash_ok (objhash eql hash) h' \<and> iter_lev h' = iter_lev h \<and>
    (\<exists>ops. set ops \<subseteq> {y. \<exists>x s. y \<in> set (fst (blk x s))} \<and>
       hash_map h' = fold (map_op (objhash eql hash)) ops (hash_map h)) \<and>
    (\<forall>e. r = Inl e \<longrightarrow> e \<in> insert IndexError op_errors)"
  using any_hash_laws.foreach_keeping [OF assms(1) any_hash_laws.keeping_callbacks(1) [OF assms(1,3,4)] assms(2) _ assms(6)] assms(5,7)
  by (simp add: rb_hash_each_pair_def room_def)

theorem hash_iteration_safe_witness:
  "case rb_hash_each_pair 0 (\<lambda>_ s. ([OpAset (Obj (Str [97])) Qnil, OpDelete (Obj (Fixnum 0))], True, s)) (ex_hash, ()) of
     (r, h', _) \<Rightarrow> hash_ok (objhash (\<lambda>x y. x = y) rb_obj_id) h' \<and> iter_lev h' = 0"
proof (cases "rb_hash_each_pair 0 (\<lambda>_ s. ([OpAset (Obj (Str [97])) Qnil, OpDelete (Obj (Fixnum 0))], True, s)) (ex_hash, ())")
  case (fields r h' s')
  from hash_iteration_safe [OF kernel_laws ex_hash_facts(1) _ _ _ _ fields, of 1] ex_hash_facts(2,5) fields show ?thesis
    by (simp add: wf_op_def stores_def ex_hash_def)
qed

text \<open>
  C12. \<^verbatim>\<open>each\<close> with a block that deletes keys of the hash: the block sees the entries in their order, without
  those it has deleted before their turn, and is called once for each; afterwards the hash has exactly
  the entries that were not deleted, in their order.
\<close>

theorem hash_each_while_deleting:
  assumes "any_hash_laws eql hash" "hash_ok (objhash eql hash) h" "iter_lev h = 0" "rb_hash_modify safe h = Inr ()"
    "rb_hash_to_a h = Inr ps" "\<And>x s. Qundef \<notin> set (fst (del x s))"
    "each_ref (EQUAL (objhash eql hash)) del ps [] s = (gone, s')"
  shows "\<exists>h'. rb_hash_each_pair safe (deleting del) (h, s) = (Inr (), h', s') \<and> hash_ok (objhash eql hash) h' \<and>
    iter_lev h' = 0 \<and> rb_hash_to_a h' = Inr (filter (\<lambda>(k, v). \<not> (\<exists>g \<in> set gone. EQUAL (objhash eql hash) g k)) ps)"
  by (rule any_hash_laws.each_deleting [OF assms])

theorem hash_each_while_deleting_witness:
  "\<exists>h'. rb_hash_each_pair 0 (deleting (\<lambda>_ n. ([Obj (Fixnum 0)], n + 1))) (ex_hash, 0 :: nat) = (Inr (), h', 1) \<and>
     rb_hash_to_a h' = Inr []"
  using hash_each_while_deleting [OF kernel_laws ex_hash_facts(1-4), of "\<lambda>_ n. ([Obj (Fixnum 0)], n + 1)" "0 :: nat" "[Obj (Fixnum 0)]" 1]
  by auto

text \<open>
  C35. \<^verbatim>\<open>delete_if\<close> and \<^verbatim>\<open>reject!\<close> with a block that leaves the hash alone run the test on every entry once, in
  order, and keep exactly the entries that fail it; \<^verbatim>\<open>reject!\<close> answers whether one was removed.
\<close>

theorem hash_delete_if_rejects:
  assumes "any_hash_laws eql hash" "hash_ok (objhash eql hash) h" "iter_lev h = 0" "rb_hash_modify safe h = Inr ()"
    "rb_hash_to_a h = Inr ps" "reject_ref f ps s = (qs, s')"
  shows "\<exists>h'. rb_hash_delete_if safe (testing f) (h, s) = (Inr (), h', s') \<and> hash_ok (objhash eql hash) h' \<and> iter_lev h' = 0 \<and>
    rb_hash_to_a h' = Inr qs \<and>
    rb_hash_reject_bang safe (testing f) (h, s) = (Inr (length qs \<noteq> length ps), h', s')"
  by (rule any_hash_laws.delete_if_testing [OF assms])

theorem hash_delete_if_rejects_witness:
  "\<exists>h'. rb_hash_reject_bang 0 (testing (\<lambda>(k, v) n. (v = Qnil, n + 1))) (ex_hash, 0 :: nat) = (Inr True, h', 1) \<and> rb_hash_to_a h' = Inr []"
  using hash_delete_if_rejects [OF kernel_laws ex_hash_facts(1-4), of "\<lambda>(k, v) n. (v = Qnil, n + 1)" "0 :: nat" "[]" 1]
  by auto

text \<open>
  C14. A hash implements a finite map up to \<^verbatim>\<open>eql?\<close>: storing updates it, deleting removes the key and gives back
  its value, and looking up finds the value or turns to the default. All of them return for a hash that
  may be modified, inside an iteration as well as outside.
\<close>

theorem hash_refines_map:
  assumes "any_hash_laws eql hash" "hash_ok (objhash eql hash) h" "rb_hash_modify safe h = Inr ()"
    "k \<noteq> Qundef" "v \<noteq> Qundef" "num_entries (the (rh_tbl h)) < 2 ^ 31 - 1"
  shows "(\<exists>h'. rb_hash_aset safe h k v = Inr h' \<and> hash_ok (objhash eql hash) h' \<and>
            hash_map h' = (\<lambda>k'. if EQUAL (objhash eql hash) k k' then Some v else hash_map h k')) \<and>
         (\<exists>x h'. rb_hash_delete safe None h k = Inr (x, h') \<and> hash_ok (objhash eql hash) h' \<and>
            x = (case hash_map h k of Some w \<Rightarrow> w | None \<Rightarrow> Qnil) \<and>
            hash_map h' = (\<lambda>k'. if EQUAL (objhash eql hash) k k' then None else hash_map h k')) \<and>
         rb_hash_aref default_m h k = (case hash_map h k of Some w \<Rightarrow> Inr (w, h) | None \<Rightarrow> default_m h [k]) \<and>
         rb_hash_fetch None [k] h = (case hash_map h k of Some w \<Rightarrow> Inr w | None \<Rightarrow> Inl IndexError) \<and>
         rb_hash_has_key h k = Inr (hash_map h k \<noteq> None)"
  by (rule any_hash_laws.refines_map [OF assms])

theorem hash_refines_map_witness:
  "\<exists>h'. rb_hash_aset 0 ex_hash (Obj (Str [97])) (Obj (Fixnum 5)) = Inr h' \<and> hash_map h' (Obj (Str [97])) = Some (Obj (Fixnum 5))"
  using conjunct1 [OF hash_refines_map [OF kernel_laws ex_hash_facts(1,3), of "Obj (Str [97])" "Obj (Fixnum 5)"]] ex_hash_facts(5)
  by auto



text \<open>
  \<^verbatim>\<open>rehash\<close> repairs a hash whose keys have been changed: whatever the old table looks like, the new one
  is well formed, finds every key of the old entries, and of entries whose keys have become equal it has
  the last.
\<close>

theorem hash_rehash_repairs:
  assumes "any_hash_laws eql hash" "rh_tbl h = Some t" "rb_hash_modify safe h = Inr ()" "num_entries t < 2 ^ 30"
    "length (concat (bins t)) < 2 ^ 31"
  shows "\<exists>t'. rb_hash_rehash safe (objhash eql hash) h = Inr (h\<lparr>rh_tbl := Some t'\<rparr>) \<and> st_inv t' \<and> st_type t' = objhash eql hash \<and>
    (\<forall>k. st_lookup t' k =
       map_option snd (find (\<lambda>(k', v). EQUAL (objhash eql hash) k' k)
         (rev (map kv (filter (\<lambda>e. ent_key e \<noteq> Qundef) (concat (bins t)))))))"
proof -
  obtain t' where "rb_hash_rehash safe (objhash eql hash) h = Inr (h\<lparr>rh_tbl := Some t'\<rparr>)" "st_inv t'" "st_type t' = objhash eql hash"
    "st_lookup t' = put_all (objhash eql hash) (map kv (filter (\<lambda>e. ent_key e \<noteq> Qundef) (concat (bins t)))) Map.empty"
    using any_hash_laws.rehash_map [OF assms] by blast
  then show ?thesis by (intro exI [of _ t']) (auto simp: put_all_def split: option.splits)
qed

theorem hash_rehash_repairs_witness:
  "\<exists>t'. rb_hash_rehash 0 (objhash (\<lambda>x y. x = y) rb_obj_id) ex_hash = Inr (ex_hash\<lparr>rh_tbl := Some t'\<rparr>) \<and>
     st_lookup t' (Obj (Fixnum 0)) = Some Qnil"
  using hash_rehash_repairs [OF kernel_laws _ ex_hash_facts(3)] by (auto simp: ex_hash_def)

text \<open>
  C36. \<^verbatim>\<open>==\<close> of hashes decides the equality of the maps and of the defaults, when \<^verbatim>\<open>==\<close> of their values is identity.
  The loop looks only at the keys of one hash; that the sizes agree makes up for the other direction.
\<close>

theorem hash_equal_decides:
  assumes "any_hash_laws eql hash" "hash_ok (objhash eql hash) h1" "hash_ok (objhash eql hash) h2"
  shows "rb_hash_equal (\<lambda>x y. x = y) False h1 (Some h2) =
    Inr (hash_map h1 = hash_map h2 \<and> ifnone h1 = ifnone h2 \<and> hash_proc_default h1 = hash_proc_default h2)"
  by (rule any_hash_laws.equal_decides [OF assms])

theorem hash_equal_decides_witness: "rb_hash_equal (\<lambda>x y. x = y) False ex_hash (Some (ex_hash\<lparr>ifnone := Obj (Fixnum 1)\<rparr>)) = Inr False"
proof -
  have "hash_ok (objhash (\<lambda>x y. x = y) rb_obj_id) (ex_hash\<lparr>ifnone := Obj (Fixnum 1)\<rparr>)"
    using ex_hash_facts(1) by (simp add: hash_ok_def ex_hash_def)
  from hash_equal_decides [OF kernel_laws ex_hash_facts(1) this] show ?thesis by (simp add: ex_hash_def)
qed

end
