(* ===== verification/Pack_Codecs.thy ===== *)
theory Pack_Codecs
  imports Numeric_Fix
begin

text \<open>
  The byte codecs of \<^verbatim>\<open>src/ruby/pack.c\<close>: base64 and uuencode, quoted-printable, UTF-8, BER-compressed
  integers, and hexadecimal and bit strings. A string is its list of bytes; the byte behind it is the
  terminator, and a read past that is out of bounds. A \<^verbatim>\<open>char\<close> is signed.
\<close>

section \<open>Base64 and uuencode\<close>

definition b64_table :: "byte list" where
  "b64_table = map word_of_int ([65..90] @ [97..122] @ [48..57] @ [43, 47])"

definition uu_table :: "byte list" where
  "uu_table = 0x60 # map word_of_int [33..95]"

text \<open>The index into a translation table; the operators work on \<^verbatim>\<open>char\<close> promoted to \<^verbatim>\<open>int\<close>.\<close>

definition trans_at :: "byte list \<Rightarrow> int \<Rightarrow> byte" where
  "trans_at tab i = tab ! nat (63 AND i)"

fun encode_groups :: "byte list \<Rightarrow> byte \<Rightarrow> byte list \<Rightarrow> byte list" where
  "encode_groups tab padding (s0 # s1 # s2 # s) =
     trans_at tab (drop_bit 2 (sint s0)) #
     trans_at tab ((push_bit 4 (sint s0) AND 48) OR (drop_bit 4 (sint s1) AND 15)) #
     trans_at tab ((push_bit 2 (sint s1) AND 60) OR (drop_bit 6 (sint s2) AND 3)) #
     trans_at tab (sint s2) # encode_groups tab padding s"
| "encode_groups tab padding [s0, s1] =
     [trans_at tab (drop_bit 2 (sint s0)),
      trans_at tab ((push_bit 4 (sint s0) AND 48) OR (drop_bit 4 (sint s1) AND 15)),
      trans_at tab ((push_bit 2 (sint s1) AND 60) OR (drop_bit 6 0 AND 3)), padding]"
| "encode_groups tab padding [s0] =
     [trans_at tab (drop_bit 2 (sint s0)),
      trans_at tab ((push_bit 4 (sint s0) AND 48) OR (drop_bit 4 0 AND 15)), padding, padding]"
| "encode_groups tab padding [] = []"

definition encodes :: "byte list \<Rightarrow> bool \<Rightarrow> byte list" where
  "encodes s uu =
     (let tab = (if uu then uu_table else b64_table); padding = (if uu then 0x60 else 0x3d)
      in (if uu then [of_nat (length s) + 0x20] else []) @ encode_groups tab padding s @ [0x0a])"

text \<open>\<^verbatim>\<open>pack\<close> with \<^verbatim>\<open>u\<close> or \<^verbatim>\<open>m\<close>: the string in lines of \<^verbatim>\<open>len\<close> bytes.\<close>

definition line_len :: "nat \<Rightarrow> nat" where
  "line_len len = (if len \<le> 2 then 45 else len div 3 * 3)"

function encode_lines :: "bool \<Rightarrow> nat \<Rightarrow> byte list \<Rightarrow> byte list" where
  "encode_lines uu len ptr =
     (if ptr = [] \<or> len = 0 then []
      else let todo = (if length ptr > len then len else length ptr)
           in encodes (take todo ptr) uu @ encode_lines uu len (drop todo ptr))"
  by auto
termination by (relation "measure (\<lambda>(_, _, ptr). length ptr)") auto

definition pack_um :: "bool \<Rightarrow> nat \<Rightarrow> byte list \<Rightarrow> byte list" where
  "pack_um uu len from = encode_lines uu (line_len len) from"

text \<open>Reading from the string or its terminator.\<close>

definition peek :: "byte list \<Rightarrow> nat \<Rightarrow> rb_error + byte" where
  "peek s i = (if i < length s then Inr (s ! i) else if i = length s then Inr 0 else Inl OutOfBounds)"

text \<open>\<^verbatim>\<open>b64_xtable[(int)s[i]]\<close>: a negative character is outside of the table.\<close>

fun index_of :: "'a list \<Rightarrow> 'a \<Rightarrow> int \<Rightarrow> int" where
  "index_of [] c i = - 1"
| "index_of (x # xs) c i = (if x = c then i else index_of xs c (i + 1))"

definition b64_xtable :: "byte \<Rightarrow> rb_error + int" where
  "b64_xtable c = (if sint c < 0 then Inl OutOfBounds else Inr (index_of b64_table c 0))"

definition xt :: "byte list \<Rightarrow> nat \<Rightarrow> rb_error + int" where
  "xt s i = bindR (peek s i) b64_xtable"

definition hunk :: "int \<Rightarrow> int \<Rightarrow> int \<Rightarrow> int \<Rightarrow> byte list" where
  "hunk a b c d =
     [word_of_int (push_bit 2 a OR drop_bit 4 b), word_of_int (push_bit 4 b OR drop_bit 2 c), word_of_int (push_bit 6 c OR d)]"

text \<open>
  The tests after the loop of \<^verbatim>\<open>unpack\<close> with \<^verbatim>\<open>m\<close>: a group that ends in one or two padding characters. The
  position stays before that group.
\<close>

definition unpack_m_tail :: "byte list \<Rightarrow> int \<Rightarrow> int \<Rightarrow> int \<Rightarrow> rb_error + byte list \<times> byte list" where
  "unpack_m_tail s a b c =
     bindR (if a \<noteq> - 1 \<and> b \<noteq> - 1
            then bindR (peek s 2) (\<lambda>x. Inr (if x = 0x3d then take 1 (hunk a b 0 0) else []))
            else Inr []) (\<lambda>out1.
     bindR (if a \<noteq> - 1 \<and> b \<noteq> - 1 \<and> c \<noteq> - 1
            then bindR (peek s 3) (\<lambda>x. Inr (if x = 0x3d then take 2 (hunk a b c 0) else []))
            else Inr []) (\<lambda>out2. Inr (out1 @ out2, s)))"

lemma bindR_cong [fundef_cong]:
  "m = m' \<Longrightarrow> (\<And>x. m' = Inr x \<Longrightarrow> k x = k' x) \<Longrightarrow> bindR m k = bindR m' k'"
  by (cases m') simp_all

lemma b64_xtable_0: "b64_xtable 0 = Inr (- 1)"
  by code_simp

lemma xt_length: "xt s i = Inr d \<Longrightarrow> d \<noteq> - 1 \<Longrightarrow> i < length s"
  by (auto simp: xt_def peek_def b64_xtable_0 split: if_splits)

text \<open>
  The variable \<^verbatim>\<open>b\<close> is not set before the first group and \<^verbatim>\<open>c\<close> is 0 then; a group sets them in turn, and the
  tests after the loop look at \<^verbatim>\<open>a\<close> first.
\<close>

function unpack_m :: "byte list \<Rightarrow> int \<Rightarrow> int \<Rightarrow> rb_error + byte list \<times> byte list" where
  "unpack_m s0 b0 c0 =
     (let s = dropWhile (\<lambda>x. x = 0x0d \<or> x = 0x0a) s0
      in bindR (xt s 0) (\<lambda>a. if a = - 1 then unpack_m_tail s a b0 c0 else
         bindR (xt s 1) (\<lambda>b. if b = - 1 then unpack_m_tail s a b c0 else
         bindR (xt s 2) (\<lambda>c. if c = - 1 then unpack_m_tail s a b c else
         bindR (xt s 3) (\<lambda>d. if d = - 1 then unpack_m_tail s a b c else
         bindR (unpack_m (drop 4 s) b c) (\<lambda>(out, rest). Inr (hunk a b c d @ out, rest)))))))"
  by auto
termination
proof (relation "measure (\<lambda>(s, _, _). length s)", goal_cases)
  case (2 s0 b0 c0 s a b c d)
  then have "3 < length s" by (intro xt_length)
  moreover have "length s \<le> length s0" unfolding 2(1) by (rule length_dropWhile_le)
  ultimately show ?case by simp
qed simp

declare encode_lines.simps [simp del] unpack_m.simps [simp del]

subsection \<open>Decoding undoes encoding\<close>

lemma b64_back:
  assumes "i < 64"
  shows "b64_xtable (b64_table ! i) = Inr (int i)" "b64_table ! i \<noteq> 0x0d" "b64_table ! i \<noteq> 0x0a" "b64_table ! i \<noteq> 0x3d"
proof -
  have "\<forall>i \<in> set [0..<64]. b64_xtable (b64_table ! i) = Inr (int i) \<and> b64_table ! i \<noteq> 0x0d \<and> b64_table ! i \<noteq> 0x0a \<and> b64_table ! i \<noteq> 0x3d"
    by code_simp
  with assms show "b64_xtable (b64_table ! i) = Inr (int i)" "b64_table ! i \<noteq> 0x0d" "b64_table ! i \<noteq> 0x0a" "b64_table ! i \<noteq> 0x3d"
    by auto
qed

lemma mask_63: "nat (63 AND i) < 64" "int (nat (63 AND i)) = 63 AND i" "63 AND i \<noteq> (- 1 :: int)"
proof -
  have m: "63 AND i = i mod 64" using take_bit_eq_mask [of 6 i] by (simp add: take_bit_eq_mod mask_eq_exp_minus_1 and.commute)
  have "0 \<le> i mod 64" "i mod 64 < 64" by simp_all
  then show "nat (63 AND i) < 64" "int (nat (63 AND i)) = 63 AND i" "63 AND i \<noteq> (- 1 :: int)" unfolding m by linarith+
qed

lemma trans_back [simp]:
  "b64_xtable (trans_at b64_table i) = Inr (63 AND i)" "trans_at b64_table i \<noteq> 0x0d" "trans_at b64_table i \<noteq> 0x0a"
  "trans_at b64_table i \<noteq> 0x3d"
  using b64_back [OF mask_63(1), of i] by (simp_all add: trans_at_def mask_63(2))

lemma bit_masks:
  "bit (63 :: int) n \<longleftrightarrow> n < 6" "bit (48 :: int) n \<longleftrightarrow> 4 \<le> n \<and> n < 6" "bit (15 :: int) n \<longleftrightarrow> n < 4"
  "bit (60 :: int) n \<longleftrightarrow> 2 \<le> n \<and> n < 6" "bit (3 :: int) n \<longleftrightarrow> n < 2"
proof -
  have m: "63 = (mask 6 :: int)" "15 = (mask 4 :: int)" "3 = (mask 2 :: int)" "48 = push_bit 4 (mask 2 :: int)" "60 = push_bit 2 (mask 4 :: int)"
    by (simp_all add: mask_eq_exp_minus_1 push_bit_eq_mult)
  show "bit (63 :: int) n \<longleftrightarrow> n < 6" "bit (48 :: int) n \<longleftrightarrow> 4 \<le> n \<and> n < 6" "bit (15 :: int) n \<longleftrightarrow> n < 4"
    "bit (60 :: int) n \<longleftrightarrow> 2 \<le> n \<and> n < 6" "bit (3 :: int) n \<longleftrightarrow> n < 2"
    unfolding m by (auto simp: bit_mask_iff bit_push_bit_iff)
qed

lemma bit_sint_low: "n < 8 \<Longrightarrow> bit (sint (x :: byte)) n = bit x n"
  by (auto simp: bit_sint_iff min_def less_Suc_eq)

lemmas group_bits = bit_word_of_int_iff bit_or_iff bit_and_iff bit_push_bit_iff_int bit_drop_bit_eq comp_apply bit_masks len_num0

lemma Suc2_diff: "2 \<le> n \<Longrightarrow> Suc (Suc (n - 2)) = n" "\<not> n < 2 \<Longrightarrow> Suc (Suc (n - 2)) = n"
  by simp_all

lemma hunk_0:
  "word_of_int (push_bit 2 (63 AND drop_bit 2 (sint s0)) OR
     drop_bit 4 (63 AND ((push_bit 4 (sint s0) AND 48) OR (drop_bit 4 x AND 15)))) = (s0 :: byte)"
  by (rule bit_word_eqI, simp only: group_bits) (auto simp: bit_sint_low Suc2_diff)

lemma hunk_1:
  "word_of_int (push_bit 4 (63 AND ((push_bit 4 x AND 48) OR (drop_bit 4 (sint s1) AND 15))) OR
     drop_bit 2 (63 AND ((push_bit 2 (sint s1) AND 60) OR (drop_bit 6 y AND 3)))) = (s1 :: byte)"
  by (rule bit_word_eqI, simp only: group_bits) (auto simp: bit_sint_low)

lemma hunk_2:
  "word_of_int (push_bit 6 (63 AND ((push_bit 2 x AND 60) OR (drop_bit 6 (sint s2) AND 3))) OR (63 AND sint s2)) = (s2 :: byte)"
  by (rule bit_word_eqI, simp only: group_bits) (auto simp: bit_sint_low)

lemma hunk_back:
  "hunk (63 AND drop_bit 2 (sint s0)) (63 AND ((push_bit 4 (sint s0) AND 48) OR (drop_bit 4 (sint s1) AND 15)))
     (63 AND ((push_bit 2 (sint s1) AND 60) OR (drop_bit 6 (sint s2) AND 3))) (63 AND sint s2) = [s0, s1, s2]"
  unfolding hunk_def hunk_0 hunk_1 hunk_2 ..

lemma unpack_m_vars: "unpack_m s b c = unpack_m s b' c'"
  by (subst (1 2) unpack_m.simps) (auto simp: Let_def unpack_m_tail_def intro!: bindR_cong)

lemma xt_simps [simp]:
  "xt (x # s) 0 = b64_xtable x" "xt (x # y # s) 1 = b64_xtable y" "xt (x # y # z # s) 2 = b64_xtable z" "xt (x # y # z # w # s) 3 = b64_xtable w"
  "xt (x # y # s) (Suc 0) = b64_xtable y"
  by (simp_all add: xt_def peek_def)

lemma peek_simps [simp]: "peek (x # y # z # s) 2 = Inr z" "peek (x # y # z # w # s) 3 = Inr w"
  by (simp_all add: peek_def)

lemma unpack_m_group:
  "unpack_m (trans_at b64_table i # trans_at b64_table j # trans_at b64_table k # trans_at b64_table l # s) b c =
     bindR (unpack_m s 0 0) (\<lambda>(out, rest). Inr (hunk (63 AND i) (63 AND j) (63 AND k) (63 AND l) @ out, rest))"
  by (subst unpack_m.simps) (simp add: mask_63 unpack_m_vars [of s "63 AND j" "63 AND k" 0 0])

lemma b64_pad: "b64_xtable 0x3d = Inr (- 1)"
  by code_simp

lemma unpack_m_pad:
  "unpack_m [trans_at b64_table i, trans_at b64_table j, 0x3d, 0x3d, 0x0a] b c =
     Inr (take 1 (hunk (63 AND i) (63 AND j) 0 0), [trans_at b64_table i, trans_at b64_table j, 0x3d, 0x3d, 0x0a])"
  "unpack_m [trans_at b64_table i, trans_at b64_table j, trans_at b64_table k, 0x3d, 0x0a] b c =
     Inr (take 2 (hunk (63 AND i) (63 AND j) (63 AND k) 0),
          [trans_at b64_table i, trans_at b64_table j, trans_at b64_table k, 0x3d, 0x0a])"
  by (subst unpack_m.simps, simp add: mask_63 b64_pad unpack_m_tail_def)+

lemma hunk_pad:
  "take 1 (hunk (63 AND drop_bit 2 (sint s0)) (63 AND ((push_bit 4 (sint s0) AND 48) OR (drop_bit 4 x AND 15))) y z) = [s0]"
  "take 2 (hunk (63 AND drop_bit 2 (sint s0)) (63 AND ((push_bit 4 (sint s0) AND 48) OR (drop_bit 4 (sint s1) AND 15)))
     (63 AND ((push_bit 2 (sint s1) AND 60) OR (drop_bit 6 x AND 3))) z) = [s0, s1]"
  unfolding hunk_def hunk_0 hunk_1 by simp_all

lemma unpack_m_end: "unpack_m [] b c = Inr ([], [])" "unpack_m (0x0a # s) b c = unpack_m s b c"
  by (subst unpack_m.simps, simp add: xt_def peek_def b64_xtable_0 unpack_m_tail_def)
    (subst (1 2) unpack_m.simps, simp)

lemma unpack_m_groups:
  "length s mod 3 = 0 \<Longrightarrow>
   unpack_m (encode_groups b64_table p s @ r) b c = bindR (unpack_m r 0 0) (\<lambda>(out, rest). Inr (s @ out, rest))"
proof (induction b64_table p s arbitrary: b c rule: encode_groups.induct)
  case (1 p s0 s1 s2 s)
  then show ?case
    by (simp only: encode_groups.simps append_Cons unpack_m_group hunk_back)
      (cases "unpack_m r 0 0", auto)
next
  case 4
  then show ?case using unpack_m_vars [of r b c 0 0] by (cases "unpack_m r 0 0") simp_all
qed simp_all

lemma unpack_m_last:
  "\<exists>rest. unpack_m (encode_groups b64_table 0x3d s @ [0x0a]) b c = Inr (s, rest)"
proof (induction b64_table "0x3d :: byte" s arbitrary: b c rule: encode_groups.induct)
  case (1 s0 s1 s2 s)
  then obtain rest where "unpack_m (encode_groups b64_table 0x3d s @ [0x0a]) 0 0 = Inr (s, rest)" by blast
  then show ?case by (simp only: encode_groups.simps append_Cons unpack_m_group hunk_back) simp
next
  case (2 s0 s1)
  show ?case by (simp only: encode_groups.simps append_Cons append_Nil unpack_m_pad hunk_pad) simp
next
  case (3 s0)
  show ?case by (simp only: encode_groups.simps append_Cons append_Nil unpack_m_pad hunk_pad) simp
next
  case 4
  show ?case using unpack_m_end(1) [of b c] unpack_m_end(2) [of "[]" b c] by simp
qed

lemma encode_lines_Nil [simp]: "encode_lines uu len [] = []"
  by (subst encode_lines.simps) simp

lemma unpack_m_lines:
  assumes "0 < len" "len mod 3 = 0"
  shows "\<exists>rest. unpack_m (encode_lines False len s) b c = Inr (s, rest)"
proof (induction "length s" arbitrary: s b c rule: less_induct)
  case less
  consider (more) "len < length s" | (none) "s = []" | (last_line) "\<not> len < length s" "s \<noteq> []" by blast
  then show ?case
  proof cases
    case more
    then have e: "encode_lines False len s = encode_groups b64_table 0x3d (take len s) @ 0x0a # encode_lines False len (drop len s)"
      using assms(1) by (subst encode_lines.simps) (auto simp: encodes_def)
    obtain rest where "unpack_m (encode_lines False len (drop len s)) 0 0 = Inr (drop len s, rest)"
      using less [of "drop len s" 0 0] more assms(1) by (metis diff_less length_drop order_less_trans)
    moreover have "length (take len s) mod 3 = 0" using more assms(2) by simp
    ultimately show ?thesis unfolding e by (simp add: unpack_m_groups unpack_m_end(2))
  next
    case none
    then show ?thesis using unpack_m_end(1) by simp
  next
    case last_line
    then have "encode_lines False len s = encode_groups b64_table 0x3d s @ [0x0a]"
      using assms(1) by (subst encode_lines.simps) (simp add: encodes_def Let_def)
    then show ?thesis using unpack_m_last by simp
  qed
qed

section \<open>UTF-8\<close>

definition utf8_cont :: "nat \<Rightarrow> u64 \<Rightarrow> byte" where
  "utf8_cont k uv = ucast ((drop_bit k uv AND 0x3f) OR 0x80)"

definition uv_to_utf8 :: "u64 \<Rightarrow> rb_error + byte list" where
  "uv_to_utf8 uv =
     (if uv \<le> 0x7f then Inr [ucast uv]
      else if uv \<le> 0x7ff then Inr [ucast ((drop_bit 6 uv AND 0xff) OR 0xc0), utf8_cont 0 uv]
      else if uv \<le> 0xffff then Inr [ucast ((drop_bit 12 uv AND 0xff) OR 0xe0), utf8_cont 6 uv, utf8_cont 0 uv]
      else if uv \<le> 0x1fffff
      then Inr [ucast ((drop_bit 18 uv AND 0xff) OR 0xf0), utf8_cont 12 uv, utf8_cont 6 uv, utf8_cont 0 uv]
      else if uv \<le> 0x3ffffff
      then Inr [ucast ((drop_bit 24 uv AND 0xff) OR 0xf8), utf8_cont 18 uv, utf8_cont 12 uv, utf8_cont 6 uv, utf8_cont 0 uv]
      else if uv \<le> 0x7fffffff
      then Inr [ucast ((drop_bit 30 uv AND 0xff) OR 0xfc), utf8_cont 24 uv, utf8_cont 18 uv, utf8_cont 12 uv,
                utf8_cont 6 uv, utf8_cont 0 uv]
      else if uv \<le> 0xfffffffff
      then Inr [0xfe, utf8_cont 30 uv, utf8_cont 24 uv, utf8_cont 18 uv, utf8_cont 12 uv, utf8_cont 6 uv, utf8_cont 0 uv]
      else Inl ArgError)"

text \<open>The length that the first byte announces, and the value with the number of bytes read.\<close>

definition utf8_len :: "byte \<Rightarrow> nat" where
  "utf8_len c =
     (if c < 0xc0 then 1 else if c < 0xe0 then 2 else if c < 0xf0 then 3 else if c < 0xf8 then 4
      else if c < 0xfc then 5 else if c < 0xfe then 6 else if c = 0xfe then 7 else 1)"

definition utf8_to_uv :: "byte \<Rightarrow> byte list \<Rightarrow> u64 \<times> nat" where
  "utf8_to_uv c p =
     (let len = Suc (length p); n = utf8_len c
      in if n > len then (0, len)
         else if n = 1 then (ucast c, n)
         else (foldl (\<lambda>uv x. push_bit 6 uv OR ucast (x AND 63)) (ucast c AND (push_bit (8 - 2 - (n - 1)) 1 - 1)) (take (n - 1) p), n))"

subsection \<open>Reading back what was written\<close>

lemma bit_mask_64: "bit (63 :: 64 word) n \<longleftrightarrow> n < 6" "bit (63 :: byte) n \<longleftrightarrow> n < 6" "bit (0xff :: u64) n \<longleftrightarrow> n < 8"
  "bit (0x80 :: u64) n \<longleftrightarrow> n = 7"
proof -
  have m: "63 = (mask 6 :: u64)" "63 = (mask 6 :: byte)" "0xff = (mask 8 :: u64)" "0x80 = (push_bit 7 1 :: u64)" by (simp_all add: mask_eq_exp_minus_1)
  show "bit (63 :: 64 word) n \<longleftrightarrow> n < 6" "bit (63 :: byte) n \<longleftrightarrow> n < 6" "bit (0xff :: u64) n \<longleftrightarrow> n < 8"
    unfolding m by (auto simp: bit_mask_iff)
  show "bit (0x80 :: u64) n \<longleftrightarrow> n = 7" unfolding m(4) bit_push_bit_iff bit_1_iff by auto
qed

lemmas word_bits = bit_or_iff bit_and_iff bit_push_bit_iff bit_drop_bit_eq comp_apply bit_unsigned_iff bit_mask_64

lemma utf8_step: "push_bit 6 (drop_bit (k + 6) uv) OR ucast (utf8_cont k uv AND 63) = drop_bit k uv"
proof (rule bit_word_eqI)
  fix n assume "n < LENGTH(64)"
  then show "bit (push_bit 6 (drop_bit (k + 6) uv) OR ucast (utf8_cont k uv AND 63)) n = bit (drop_bit k uv) n"
    unfolding utf8_cont_def word_bits by (cases "n < 6") (auto simp: ac_simps)
qed

lemma lead_bits:
  fixes x top :: u64
  assumes "unat x < 2 ^ j" "take_bit j top = 0" "j < 8"
  shows "(ucast (ucast ((x AND 0xff) OR top) :: byte) :: u64) AND (push_bit j 1 - 1) = x"
    "(x AND 0xff) OR top = x + top"
proof -
  note b = bit_below [OF assms(1)]
  have t: "\<not> bit top n" if "n < j" for n using that assms(2) by (metis bit_0_eq bit_take_bit_iff bot_apply bot_bool_def)
  have m: "push_bit j 1 - 1 = (mask j :: u64)" by (simp add: mask_eq_exp_minus_1 push_bit_eq_mult)
  show "(ucast (ucast ((x AND 0xff) OR top) :: byte) :: u64) AND (push_bit j 1 - 1) = x"
  proof (rule bit_word_eqI)
    fix n assume "n < LENGTH(64)"
    then show "bit ((ucast (ucast ((x AND 0xff) OR top) :: byte) :: u64) AND (push_bit j 1 - 1)) n = bit x n"
      unfolding word_bits m bit_mask_iff using b [of n] t [of n] assms(3) by auto
  qed
  have "x AND 0xff = x"
  proof (rule bit_word_eqI)
    fix n
    show "bit (x AND 0xff) n = bit x n" unfolding bit_and_iff bit_mask_64 using b [of n] assms(3) by auto
  qed
  moreover have "x OR top = x + top"
    using b t by (intro disjunctive_add [symmetric]) blast
  ultimately show "(x AND 0xff) OR top = x + top" by simp
qed

lemma lead_len:
  fixes x top :: u64
  assumes "unat x < 2 ^ j" "take_bit j top = 0" "j < 8" "unat top + 2 ^ j \<le> 256"
  shows "unat (ucast ((x AND 0xff) OR top) :: byte) = unat x + unat top"
proof -
  have "unat x + unat top < 256" using assms(1,4) by linarith
  then have "unat (x + top) = unat x + unat top" by (intro unat_add_lem [THEN iffD1]) simp
  then show ?thesis using \<open>unat x + unat top < 256\<close> unfolding lead_bits(2) [OF assms(1-3)]
    by (simp add: unsigned_ucast_eq take_bit_nat_eq_self)
qed

lemma unat_drop: "unat (uv :: u64) < 2 ^ (k + j) \<Longrightarrow> unat (drop_bit k uv) < 2 ^ j"
  by (simp add: unat_drop_bit power_add less_mult_imp_div_less mult.commute)

lemma utf8_len_unat:
  "utf8_len c =
     (if unat c < 192 then 1 else if unat c < 224 then 2 else if unat c < 240 then 3 else if unat c < 248 then 4
      else if unat c < 252 then 5 else if unat c < 254 then 6 else if unat c = 254 then 7 else 1)"
  by (simp add: utf8_len_def word_less_nat_alt word_unat_eq_iff)

lemmas utf8_steps = utf8_step [of 0, simplified] utf8_step [of 6, simplified] utf8_step [of 12, simplified]
  utf8_step [of 18, simplified] utf8_step [of 24, simplified] utf8_step [of 30, simplified]

lemma utf8_read:
  fixes uv top :: u64
  assumes "unat uv < 2 ^ (k + j)" "take_bit j top = 0" "j < 8" "unat top + 2 ^ j \<le> 256" 
    "n = Suc (length cs)" "\<And>c. unat top \<le> unat c \<Longrightarrow> unat c < unat top + 2 ^ j \<Longrightarrow> utf8_len c = n" "j = 7 - n" "n \<noteq> 1"
    "foldl (\<lambda>uv x. push_bit 6 uv OR ucast (x AND 63)) (drop_bit k uv) cs = uv"
  shows "utf8_to_uv (ucast ((drop_bit k uv AND 0xff) OR top)) (cs @ rest) = (uv, n)"
proof -
  note u = unat_drop [OF assms(1)]
  have "utf8_len (ucast ((drop_bit k uv AND 0xff) OR top)) = n"
    using lead_len [OF u assms(2-4)] u by (intro assms(6)) simp_all
  then show ?thesis using lead_bits(1) [OF u assms(2,3)] assms(5,7-9) by (simp add: utf8_to_uv_def)
qed

lemma utf8_reads:
  "unat uv \<le> 0x7ff \<Longrightarrow> utf8_to_uv (ucast ((drop_bit 6 uv AND 0xff) OR 0xc0)) ([utf8_cont 0 uv] @ rest) = (uv, 2)"
  "unat uv \<le> 0xffff \<Longrightarrow>
   utf8_to_uv (ucast ((drop_bit 12 uv AND 0xff) OR 0xe0)) ([utf8_cont 6 uv, utf8_cont 0 uv] @ rest) = (uv, 3)"
  "unat uv \<le> 0x1fffff \<Longrightarrow>
   utf8_to_uv (ucast ((drop_bit 18 uv AND 0xff) OR 0xf0)) ([utf8_cont 12 uv, utf8_cont 6 uv, utf8_cont 0 uv] @ rest) = (uv, 4)"
  "unat uv \<le> 0x3ffffff \<Longrightarrow>
   utf8_to_uv (ucast ((drop_bit 24 uv AND 0xff) OR 0xf8))
     ([utf8_cont 18 uv, utf8_cont 12 uv, utf8_cont 6 uv, utf8_cont 0 uv] @ rest) = (uv, 5)"
  "unat uv \<le> 0x7fffffff \<Longrightarrow>
   utf8_to_uv (ucast ((drop_bit 30 uv AND 0xff) OR 0xfc))
     ([utf8_cont 24 uv, utf8_cont 18 uv, utf8_cont 12 uv, utf8_cont 6 uv, utf8_cont 0 uv] @ rest) = (uv, 6)"
  by (rule utf8_read [where j = 5] utf8_read [where j = 4] utf8_read [where j = 3] utf8_read [where j = 2] utf8_read [where j = 1];
      simp add: utf8_len_unat utf8_steps; fail)+

lemma utf8_read_7:
  assumes "unat uv \<le> 0xfffffffff"
  shows "utf8_to_uv 0xfe (utf8_cont 30 uv # utf8_cont 24 uv # utf8_cont 18 uv # utf8_cont 12 uv # utf8_cont 6 uv # utf8_cont 0 uv # rest) =
    (uv, 7)"
proof -
  have "drop_bit 36 uv = 0" using assms by (simp add: word_unat_eq_iff unat_drop_bit)
  then show ?thesis using utf8_step [of 30 uv] utf8_steps by (simp add: utf8_to_uv_def utf8_len_unat)
qed

lemma utf8_read_1:
  assumes "unat uv \<le> 0x7f"
  shows "utf8_to_uv (ucast uv) rest = (uv, 1)"
proof -
  have u: "unat (ucast uv :: byte) = unat uv" using assms by (simp add: unsigned_ucast_eq take_bit_nat_eq_self)
  then have "ucast (ucast uv :: byte) = uv" by (simp add: word_unat_eq_iff unsigned_take_bit_eq unsigned_ucast_eq)
  with u assms show ?thesis by (simp add: utf8_to_uv_def utf8_len_unat)
qed

lemma utf8_back:
  assumes "uv_to_utf8 uv = Inr bs"
  shows "utf8_to_uv (hd bs) (tl bs @ rest) = (uv, length bs)" "bs \<noteq> []"
proof -
  show "bs \<noteq> []" using assms by (auto simp: uv_to_utf8_def split: if_splits)
  have "(uv \<le> n) = (unat uv \<le> unat n)" for n by (rule word_le_nat_alt)
  with assms show "utf8_to_uv (hd bs) (tl bs @ rest) = (uv, length bs)"
    using utf8_reads [simplified] utf8_read_7 utf8_read_1 by (auto simp: uv_to_utf8_def split: if_splits)
qed

section \<open>Quoted-printable\<close>

definition hex_table :: "byte list" where
  "hex_table = map word_of_int ([48..57] @ [65..70])"

text \<open>What one round of the loop stores into the buffer, and the new \<^verbatim>\<open>n\<close> and \<^verbatim>\<open>prev\<close>; \<^verbatim>\<open>EOF\<close> is -1.\<close>

definition qp_round :: "int \<Rightarrow> byte \<Rightarrow> int \<Rightarrow> int \<Rightarrow> byte list \<times> int \<times> int" where
  "qp_round len s n prev =
     (let (w, n, prev) =
        (if s > 126 \<or> s < 32 \<and> s \<noteq> 0x0a \<and> s \<noteq> 0x09 \<or> s = 0x3d
         then ([0x3d, hex_table ! unat (drop_bit 4 s), hex_table ! unat (s AND 0x0f)], n + 3, - 1)
         else if s = 0x0a then ((if prev = 32 \<or> prev = 9 then [0x3d, s] else []) @ [s], 0, uint s)
         else ([s], n + 1, uint s))
      in if n > len then (w @ [0x3d, 0x0a], 0, 10) else (w, n, prev))"

text \<open>\<^verbatim>\<open>buff\<close> has 1024 bytes; it goes to the string when fewer than five are left.\<close>

fun qp_loop :: "int \<Rightarrow> byte list \<Rightarrow> byte list \<Rightarrow> int \<Rightarrow> int \<Rightarrow> rb_error + byte list \<times> byte list \<times> int" where
  "qp_loop len [] buff n prev = Inr ([], buff, n)"
| "qp_loop len (s # rest) buff n prev =
     (let (w, n, prev) = qp_round len s n prev; buff = buff @ w
      in if length buff > 1024 then Inl OutOfBounds
         else if length buff > 1024 - 5
         then bindR (qp_loop len rest [] n prev) (\<lambda>(out, b, n). Inr (buff @ out, b, n))
         else qp_loop len rest buff n prev)"

definition qpencode :: "byte list \<Rightarrow> int \<Rightarrow> rb_error + byte list" where
  "qpencode from len =
     bindR (qp_loop len from [] 0 (- 1)) (\<lambda>(out, buff, n).
       let buff = (if n > 0 then buff @ [0x3d, 0x0a] else buff)
       in if length buff > 1024 then Inl OutOfBounds else Inr (out @ buff))"

definition hex2num :: "byte \<Rightarrow> int" where
  "hex2num c =
     (if 48 \<le> c \<and> c \<le> 57 then uint c - 48
      else if 97 \<le> c \<and> c \<le> 102 then uint c - 97 + 10
      else if 65 \<le> c \<and> c \<le> 70 then uint c - 65 + 10
      else - 1)"

text \<open>\<^verbatim>\<open>unpack\<close> with \<^verbatim>\<open>M\<close>: the decoded bytes and the bytes that are left where the loop stops.\<close>

fun unpack_M :: "byte list \<Rightarrow> byte list \<times> byte list" where
  "unpack_M [] = ([], [])"
| "unpack_M (c # s) =
     (if c = 0x3d
      then case s of
             [] \<Rightarrow> ([], [])
           | x # s1 \<Rightarrow>
               if x \<noteq> 0x0a
               then if hex2num x = - 1 then ([], x # s1)
                    else (case s1 of
                            [] \<Rightarrow> ([], [])
                          | y # s2 \<Rightarrow>
                              if hex2num y = - 1 then ([], y # s2)
                              else let (out, rest) = unpack_M s2
                                   in (word_of_int (push_bit 4 (hex2num x) OR hex2num y) # out, rest))
               else unpack_M s1
      else let (out, rest) = unpack_M s in (c # out, rest))"

subsection \<open>Decoding undoes encoding, and the buffers suffice\<close>

lemma unpack_M_length: "length (fst (unpack_M s)) \<le> length s"
proof (induction "length s" arbitrary: s rule: less_induct)
  case less
  consider "s = []" | c where "s = [c]" | c x where "s = [c, x]" | c x y s' where "s = c # x # y # s'"
    by (metis list.exhaust)
  then show ?case
  proof cases
    case (4 c x y s')
    with less [of s'] less [of "y # s'"] less [of "x # y # s'"] show ?thesis
      by (simp add: case_prod_beta del: unpack_M.simps) (simp add: unpack_M.simps(2) [of c] case_prod_beta)
  qed (simp_all add: case_prod_beta)
qed

lemma hex_back:
  "hex2num (hex_table ! unat (drop_bit 4 s)) = uint (drop_bit 4 s)" "hex2num (hex_table ! unat (s AND 0x0f)) = uint (s AND 0x0f)"
  "hex_table ! unat (drop_bit 4 (s :: byte)) \<noteq> 0x0a"
proof -
  have "\<forall>i \<in> set [0..<16]. hex2num (hex_table ! i) = int i \<and> hex_table ! i \<noteq> 0x0a" by code_simp
  then have h: "hex2num (hex_table ! i) = int i" "hex_table ! i \<noteq> 0x0a" if "i < 16" for i using that by auto
  have "unat (drop_bit 4 s) < 16" using unsigned_less [of s, where 'a = nat] by (simp add: unat_drop_bit)
  moreover have "unat (s AND 0x0f) < 16"
    using take_bit_nat_less_exp [of 4 "unat s"] by (simp add: take_bit_eq_mask mask_eq_exp_minus_1 unsigned_and_eq)
  ultimately show "hex2num (hex_table ! unat (drop_bit 4 s)) = uint (drop_bit 4 s)"
    "hex2num (hex_table ! unat (s AND 0x0f)) = uint (s AND 0x0f)" "hex_table ! unat (drop_bit 4 (s :: byte)) \<noteq> 0x0a"
    using h by (simp_all add: uint_unat)
qed

lemma nibbles: "word_of_int (push_bit 4 (uint (drop_bit 4 s)) OR uint (s AND 0x0f)) = (s :: byte)"
proof (rule bit_word_eqI)
  fix n assume "n < LENGTH(8)"
  have "bit (0x0f :: byte) n \<longleftrightarrow> n < 4"
    using bit_mask_iff [where 'a = byte, of 4 n] by (auto simp: mask_eq_exp_minus_1)
  with \<open>n < LENGTH(8)\<close> show "bit (word_of_int (push_bit 4 (uint (drop_bit 4 s)) OR uint (s AND 0x0f)) :: byte) n = bit s n"
    unfolding bit_word_of_int_iff bit_or_iff bit_push_bit_iff_int bit_uint_iff bit_drop_bit_eq bit_and_iff comp_apply by auto
qed

lemma unpack_M_hex:
  "unpack_M (0x3d # hex_table ! unat (drop_bit 4 s) # hex_table ! unat (s AND 0x0f) # r) = (s # fst (unpack_M r), snd (unpack_M r))"
proof -
  have "uint w \<noteq> - 1" for w :: byte using unsigned_greater_eq [of w, where 'a = int] by linarith
  then show ?thesis by (subst unpack_M.simps(2)) (simp add: hex_back nibbles case_prod_beta del: unpack_M.simps)
qed

lemma unpack_M_plain: "c \<noteq> 0x3d \<Longrightarrow> unpack_M (c # r) = (c # fst (unpack_M r), snd (unpack_M r))"
  "unpack_M (0x3d # 0x0a # r) = unpack_M r"
  by (simp_all add: case_prod_beta)

declare unpack_M.simps(2) [simp del]

lemma qp_round_back:
  "qp_round len s n prev = (w, n', prev') \<Longrightarrow> unpack_M (w @ r) = (s # fst (unpack_M r), snd (unpack_M r)) \<and> length w \<le> 5"
  by (auto simp: qp_round_def Let_def unpack_M_hex [of "0x3d", simplified] unpack_M_hex unpack_M_plain split: if_splits)

lemma qp_loop_back:
  "length buff \<le> 1019 \<Longrightarrow>
   \<exists>out buff' n'. qp_loop len s buff n prev = Inr (out, buff', n') \<and> length buff' \<le> 1019 \<and>
     (\<exists>w. out @ buff' = buff @ w \<and> (\<forall>r. unpack_M (w @ r) = (s @ fst (unpack_M r), snd (unpack_M r))))"
proof (induction s arbitrary: buff n prev)
  case (Cons c s)
  obtain w n1 prev1 where q: "qp_round len c n prev = (w, n1, prev1)" by (metis prod_cases3)
  note b = qp_round_back [OF q]
  show ?case
  proof (cases "length (buff @ w) > 1019")
    case True
    obtain out buff' n' w' where "qp_loop len s [] n1 prev1 = Inr (out, buff', n')" "length buff' \<le> 1019"
      "out @ buff' = w'" "\<forall>r. unpack_M (w' @ r) = (s @ fst (unpack_M r), snd (unpack_M r))"
      using Cons.IH [of "[]" n1 prev1] by auto
    then show ?thesis using q b True Cons.prems by (auto simp: Let_def)
  next
    case False
    then show ?thesis using q b Cons.IH [of "buff @ w" n1 prev1] by (auto simp: Let_def)
  qed
qed simp

lemma qpencode_back: "\<exists>out. qpencode s len = Inr out \<and> unpack_M out = (s, [])"
proof -
  obtain out buff' n' where q: "qp_loop len s [] 0 (- 1) = Inr (out, buff', n')" "length buff' \<le> 1019"
    "\<forall>r. unpack_M (out @ buff' @ r) = (s @ fst (unpack_M r), snd (unpack_M r))"
    using qp_loop_back [of "[]" len s 0 "- 1"] by auto
  from spec [OF q(3), of "[]"] spec [OF q(3), of "[0x3d, 0x0a]"] q(1,2) show ?thesis
    by (auto simp: qpencode_def Let_def unpack_M_plain)
qed

section \<open>Bit and hexadecimal strings\<close>

definition ISALPHA :: "byte \<Rightarrow> bool" where
  "ISALPHA c \<longleftrightarrow> 65 \<le> c \<and> c \<le> 90 \<or> 97 \<le> c \<and> c \<le> 122"

text \<open>
  The loop that the directives \<^verbatim>\<open>b\<close>, \<^verbatim>\<open>B\<close>, \<^verbatim>\<open>h\<close> and \<^verbatim>\<open>H\<close> of \<^verbatim>\<open>pack\<close> share: \<^verbatim>\<open>put\<close> adds a character to \<^verbatim>\<open>byte\<close>,
  \<^verbatim>\<open>shift\<close> moves on to the next digit, and a byte is complete when the mask has no bit of \<^verbatim>\<open>i\<close>.
\<close>

fun digits_in :: "(int \<Rightarrow> byte \<Rightarrow> int) \<Rightarrow> (int \<Rightarrow> int) \<Rightarrow> int \<Rightarrow> int \<Rightarrow> int \<Rightarrow> byte list \<Rightarrow> byte list \<times> int" where
  "digits_in put shift m i byte [] = ([], byte)"
| "digits_in put shift m i byte (c # cs) =
     (let byte = put byte c
      in if i AND m \<noteq> 0 then digits_in put shift m (i + 1) (shift byte) cs
         else let (out, last) = digits_in put shift m (i + 1) 0 cs in (word_of_int byte # out, last))"

text \<open>
  Around it: a count beyond the string asks for \<^verbatim>\<open>j\<close> further bytes, which \<^verbatim>\<open>rb_str_buf_cat\<close> copies from the null
  pointer.
\<close>

definition pack_digits ::
    "(int \<Rightarrow> byte \<Rightarrow> int) \<Rightarrow> (int \<Rightarrow> int) \<Rightarrow> int \<Rightarrow> (int \<Rightarrow> int \<Rightarrow> int) \<Rightarrow> byte list \<Rightarrow> int \<Rightarrow> rb_error + byte list" where
  "pack_digits put shift m finish ptr len =
     (let plen = int (length ptr);
          j = (if len > plen then cdiv (len - plen + 1) 2 else 0);
          len = (if len > plen then plen else len);
          (out, byte) = digits_in put shift m 1 0 (take (nat len) ptr);
          out = (if len AND m \<noteq> 0 then out @ [word_of_int (finish len byte)] else out)
      in if j = 0 then Inr out else Inl OutOfBounds)"

definition pack_b :: "byte list \<Rightarrow> int \<Rightarrow> rb_error + byte list" where
  "pack_b = pack_digits (\<lambda>byte c. if sint c AND 1 \<noteq> 0 then byte OR 128 else byte) (drop_bit 1) 7
     (\<lambda>len. drop_bit (nat (7 - (len AND 7))))"

definition pack_B :: "byte list \<Rightarrow> int \<Rightarrow> rb_error + byte list" where
  "pack_B = pack_digits (\<lambda>byte c. byte OR (sint c AND 1)) (push_bit 1) 7 (\<lambda>len. push_bit (nat (7 - (len AND 7))))"

definition hex_nibble :: "byte \<Rightarrow> int" where
  "hex_nibble c = (if ISALPHA c then ((sint c AND 15) + 9) AND 15 else sint c AND 15)"

definition pack_h :: "byte list \<Rightarrow> int \<Rightarrow> rb_error + byte list" where
  "pack_h = pack_digits (\<lambda>byte c. byte OR push_bit 4 (hex_nibble c)) (drop_bit 4) 1 (\<lambda>len byte. byte)"

definition pack_H :: "byte list \<Rightarrow> int \<Rightarrow> rb_error + byte list" where
  "pack_H = pack_digits (\<lambda>byte c. byte OR hex_nibble c) (push_bit 4) 1 (\<lambda>len byte. byte)"

text \<open>The loop of \<^verbatim>\<open>unpack\<close> with the same directives, for \<^verbatim>\<open>n\<close> characters from index \<^verbatim>\<open>i\<close> on.\<close>

fun digits_out :: "(int \<Rightarrow> int) \<Rightarrow> int \<Rightarrow> (int \<Rightarrow> byte) \<Rightarrow> int \<Rightarrow> nat \<Rightarrow> int \<Rightarrow> byte list \<Rightarrow> rb_error + byte list \<times> byte list" where
  "digits_out shift m emit i 0 bits s = Inr ([], s)"
| "digits_out shift m emit i (Suc n) bits s =
     bindR (if i AND m \<noteq> 0 then Inr (shift bits, s)
            else case s of [] \<Rightarrow> Inl OutOfBounds | c # s \<Rightarrow> Inr (sint c, s)) (\<lambda>(bits, s).
     bindR (digits_out shift m emit (i + 1) n bits s) (\<lambda>(t, s). Inr (emit bits # t, s)))"

definition hexdigits :: "byte list" where
  "hexdigits = map word_of_int ([48..57] @ [97..102] @ [48..57] @ [65..70] @ [120])"

definition unpack_b :: "nat \<Rightarrow> byte list \<Rightarrow> rb_error + byte list \<times> byte list" where
  "unpack_b len s = digits_out (drop_bit 1) 7 (\<lambda>bits. if bits AND 1 \<noteq> 0 then 0x31 else 0x30) 0 len 0 s"

definition unpack_B :: "nat \<Rightarrow> byte list \<Rightarrow> rb_error + byte list \<times> byte list" where
  "unpack_B len s = digits_out (push_bit 1) 7 (\<lambda>bits. if bits AND 128 \<noteq> 0 then 0x31 else 0x30) 0 len 0 s"

definition unpack_h :: "nat \<Rightarrow> byte list \<Rightarrow> rb_error + byte list \<times> byte list" where
  "unpack_h len s = digits_out (drop_bit 4) 1 (\<lambda>bits. hexdigits ! nat (bits AND 15)) 0 len 0 s"

definition unpack_H :: "nat \<Rightarrow> byte list \<Rightarrow> rb_error + byte list \<times> byte list" where
  "unpack_H len s = digits_out (push_bit 4) 1 (\<lambda>bits. hexdigits ! nat (drop_bit 4 bits AND 15)) 0 len 0 s"

subsection \<open>Packing what was unpacked\<close>

text \<open>The characters of one byte, and that each loop turns one byte into them and back.\<close>

fun chars_of :: "(int \<Rightarrow> int) \<Rightarrow> (int \<Rightarrow> byte) \<Rightarrow> nat \<Rightarrow> int \<Rightarrow> byte list" where
  "chars_of shift emit 0 bits = []"
| "chars_of shift emit (Suc n) bits = emit bits # chars_of shift emit n (shift bits)"

lemma and_mask_mod: "i AND (2 ^ k - 1) = i mod (2 :: int) ^ k"
  by (simp add: take_bit_eq_mod [symmetric] take_bit_eq_mask mask_eq_exp_minus_1)

lemma mod_Suc_less: "i mod 2 ^ k + 1 < (2 :: int) ^ k \<Longrightarrow> (i + 1) mod 2 ^ k = i mod 2 ^ k + 1"
  using mod_add_left_eq [of i "2 ^ k" 1] by (simp add: mod_pos_pos_trivial)

lemma digits_out_rest:
  assumes "i mod 2 ^ k = r" "0 < r" "r + int n = 2 ^ k"
  shows "digits_out shift (2 ^ k - 1) emit i (n + l) bits s =
    bindR (digits_out shift (2 ^ k - 1) emit (i + int n) l ((shift ^^ n) bits) s)
      (\<lambda>(t, s). Inr (chars_of shift emit n (shift bits) @ t, s))"
  using assms
proof (induction n arbitrary: i r bits)
  case 0
  then show ?case by (cases "digits_out shift (2 ^ k - 1) emit i l bits s") auto
next
  case (Suc n)
  then have nz: "i AND (2 ^ k - 1) \<noteq> 0" by (simp add: and_mask_mod)
  show ?case
  proof (cases n)
    case 0
    then show ?thesis using nz by (cases "digits_out shift (2 ^ k - 1) emit (i + 1) l (shift bits) s") auto
  next
    case n: (Suc n')
    then have "(i + 1) mod 2 ^ k = r + 1" using mod_Suc_less [of i k] Suc.prems by simp
    from Suc.IH [OF this, of "shift bits"] Suc.prems nz n show ?thesis
      by (cases "digits_out shift (2 ^ k - 1) emit (i + 1 + int n) l ((shift ^^ n) (shift bits)) s") (auto simp: funpow_swap1 add.assoc)
  qed
qed

lemma digits_out_bytes:
  assumes "i mod 2 ^ k = 0" "0 < k"
  shows "digits_out shift (2 ^ k - 1) emit i (2 ^ k * length s) bits (s @ r) = Inr (concat (map (\<lambda>c. chars_of shift emit (2 ^ k) (sint c)) s), r)"
  using assms(1)
proof (induction s arbitrary: i bits)
  case (Cons c s)
  obtain n where n: "2 ^ k = Suc n" by (metis Suc_pred' zero_less_numeral zero_less_power)
  have k: "(2 :: int) ^ k = 1 + int n" using arg_cong [OF n, of int] by simp
  have "0 < n" using n assms(2) by (cases n; cases k) auto
  then have "(i + 1) mod 2 ^ k = 1" using mod_Suc_less [of i k] Cons.prems k by simp
  from digits_out_rest [OF this, of n shift emit "2 ^ k * length s" "sint c" "s @ r"] k
    Cons.IH [of "i + 1 + int n" "(shift ^^ n) (sint c)"] Cons.prems
  have "digits_out shift (2 ^ k - 1) emit (i + 1) (n + 2 ^ k * length s) (sint c) (s @ r) =
    Inr (chars_of shift emit n (shift (sint c)) @ concat (map (\<lambda>c. chars_of shift emit (2 ^ k) (sint c)) s), r)"
    by (simp add: add.assoc)
  moreover have "2 ^ k * length (c # s) = Suc (n + 2 ^ k * length s)" using n by simp
  moreover have "i AND (2 ^ k - 1) = 0" using Cons.prems by (simp add: and_mask_mod)
  ultimately show ?case using n by simp
qed simp

text \<open>The byte that a group of digits makes.\<close>

fun in_byte :: "(int \<Rightarrow> byte \<Rightarrow> int) \<Rightarrow> (int \<Rightarrow> int) \<Rightarrow> int \<Rightarrow> byte list \<Rightarrow> int" where
  "in_byte put shift b [] = b"
| "in_byte put shift b [c] = put b c"
| "in_byte put shift b (c # cs) = in_byte put shift (shift (put b c)) cs"

lemma digits_in_byte:
  assumes "cs \<noteq> []" "(i + int (length cs)) mod 2 ^ k = 1 mod 2 ^ k" "length cs \<le> 2 ^ k" "0 < k"
  shows "digits_in put shift (2 ^ k - 1) i b (cs @ r) =
    (let (out, rest) = digits_in put shift (2 ^ k - 1) (i + int (length cs)) 0 r in (word_of_int (in_byte put shift b cs) # out, rest))"
  using assms(1-3)
proof (induction put shift b cs arbitrary: i rule: in_byte.induct)
  case (2 put shift b c)
  then have "2 ^ k dvd i + 1 - 1" by (subst mod_eq_dvd_iff [symmetric]) simp
  then have "2 ^ k dvd i" by simp
  then show ?case by (simp add: and_mask_mod Let_def)
next
  case (3 put shift b c c' cs)
  then have "2 ^ k dvd i + int (length (c # c' # cs)) - 1" by (subst mod_eq_dvd_iff [symmetric]) simp
  then have "2 ^ k dvd i + int (length (c' # cs))" by (simp add: add_ac)
  moreover have "length (c' # cs) < 2 ^ k" using 3(4) by simp
  then have "int (length (c' # cs)) < 2 ^ k" "0 < int (length (c' # cs))" unfolding of_nat_less_numeral_power_cancel_iff by simp_all
  ultimately have "\<not> 2 ^ k dvd i" using zdvd_not_zless dvd_add_right_iff by blast
  then have "i mod 2 ^ k \<noteq> 0" by (simp add: dvd_eq_mod_eq_0)
  then show ?case using 3 by (simp add: and_mask_mod Let_def add.assoc)
qed simp

lemma digits_in_bytes:
  assumes "\<And>x. word_of_int (in_byte put shift 0 (f x)) = x" "\<And>x. length (f x) = 2 ^ k" "0 < k" "i mod 2 ^ k = 1 mod 2 ^ k"
  shows "digits_in put shift (2 ^ k - 1) i 0 (concat (map f s)) = (s, 0)"
  using assms(4)
proof (induction s arbitrary: i)
  case (Cons c s)
  have "f c \<noteq> []" using assms(2) [of c] by auto
  moreover have "(i + int (length (f c))) mod 2 ^ k = 1 mod 2 ^ k" using Cons.prems assms(2) [of c] by simp
  ultimately show ?case using digits_in_byte [of "f c" i k put shift 0 "concat (map f s)"] assms(1) [of c] assms(2) [of c] assms(3)
      Cons.IH [of "i + 2 ^ k"] Cons.prems by simp
qed simp

lemma length_chars_of [simp]: "length (chars_of shift emit n b) = n"
  by (induction n arbitrary: b) simp_all

lemma pack_unpack_digits:
  assumes "\<And>x :: byte. word_of_int (in_byte put shift 0 (chars_of shift' emit (2 ^ k) (sint x))) = x" "0 < k"
  shows "\<exists>t. digits_out shift' (2 ^ k - 1) emit 0 (2 ^ k * length s) 0 s = Inr (t, []) \<and>
    pack_digits put shift (2 ^ k - 1) finish t (int (length t)) = Inr s"
proof -
  let ?f = "\<lambda>c. chars_of shift' emit (2 ^ k) (sint c)"
  have "digits_in put shift (2 ^ k - 1) 1 0 (concat (map ?f s)) = (s, 0)"
    by (rule digits_in_bytes) (simp_all add: assms)
  moreover have "length (concat (map ?f s)) = 2 ^ k * length s" by (induction s) simp_all
  then have "int (length (concat (map ?f s))) AND (2 ^ k - 1) = 0" by (simp add: and_mask_mod)
  ultimately show ?thesis using digits_out_bytes [of 0 k shift' emit s 0 "[]"] assms(2) by (simp add: pack_digits_def Let_def comp_def)
qed

lemma bit_128: "bit (128 :: int) n \<longleftrightarrow> n = 7"
  using bit_push_bit_iff_int [of 7 1 n] bit_1_iff [of "n - 7", where 'a = int] by (auto simp: push_bit_eq_mult)

lemma byte_cases: "n < 8 \<Longrightarrow> n = 0 \<or> n = 1 \<or> n = 2 \<or> n = 3 \<or> n = 4 \<or> n = 5 \<or> n = 6 \<or> n = (7 :: nat)"
  by linarith

lemma hex_nibble_back:
  assumes "0 \<le> i" "i < 16"
  shows "hex_nibble (hexdigits ! nat i) = i"
proof -
  have "\<forall>i \<in> set [0..<16]. hex_nibble (hexdigits ! i) = int i" by code_simp
  moreover have "nat i \<in> set [0..<16]" using assms by simp
  ultimately show ?thesis using assms(1) by (metis int_nat_eq)
qed

lemma and_15: "0 \<le> i AND 15" "i AND 15 < (16 :: int)"
  using and_mask_mod [of i 4] by simp_all

lemma two_pow: "2 ^ 1 = Suc (Suc 0)" "2 ^ 3 = Suc (Suc (Suc (Suc (Suc (Suc (Suc (Suc 0)))))))"
  by simp_all

lemma byte_of_h:
  "word_of_int (in_byte (\<lambda>byte c. byte OR push_bit 4 (hex_nibble c)) (drop_bit 4) 0
     (chars_of (drop_bit 4) (\<lambda>bits. hexdigits ! nat (bits AND 15)) (2 ^ 1) (sint x))) = (x :: byte)"
proof -
  have "word_of_int (drop_bit 4 (0 OR push_bit 4 (sint x AND 15)) OR push_bit 4 (drop_bit 4 (sint x) AND 15)) = (x :: byte)"
    by (rule bit_word_eqI, simp only: group_bits) (auto simp: bit_sint_low)
  then show ?thesis by (simp only: two_pow chars_of.simps in_byte.simps hex_nibble_back and_15)
qed

lemma byte_of_H:
  "word_of_int (in_byte (\<lambda>byte c. byte OR hex_nibble c) (push_bit 4) 0
     (chars_of (push_bit 4) (\<lambda>bits. hexdigits ! nat (drop_bit 4 bits AND 15)) (2 ^ 1) (sint x))) = (x :: byte)"
proof -
  have "word_of_int (push_bit 4 (0 OR (drop_bit 4 (sint x) AND 15)) OR (drop_bit 4 (push_bit 4 (sint x)) AND 15)) = (x :: byte)"
    by (rule bit_word_eqI, simp only: group_bits) (auto simp: bit_sint_low)
  then show ?thesis by (simp only: two_pow chars_of.simps in_byte.simps hex_nibble_back and_15)
qed

lemma byte_of_b:
  "word_of_int (in_byte (\<lambda>byte c. if sint c AND 1 \<noteq> 0 then byte OR 128 else byte) (drop_bit 1) 0
     (chars_of (drop_bit 1) (\<lambda>bits. if bits AND 1 \<noteq> 0 then 0x31 else 0x30) (2 ^ 3) (sint x))) = (x :: byte)"
  (is "word_of_int (in_byte ?put _ _ (chars_of _ ?emit _ _)) = _")
proof (rule bit_word_eqI)
  have e: "?emit b = (if bit b 0 then 0x31 else 0x30)" for b by (simp add: and_one_eq odd_iff_mod_2_eq_one bit_0)
  have put: "?put b (if c then 0x31 else 0x30) = b OR (if c then 128 else 0)" for b c by simp
  fix n assume "n < LENGTH(8)"
  then have n: "n < 8" by simp
  have c: "bit (if c then 128 else 0 :: int) m \<longleftrightarrow> m = 7 \<and> c" for m c by (simp add: bit_128)
  from n byte_cases [OF n]
  show "bit (word_of_int (in_byte ?put (drop_bit 1) 0 (chars_of (drop_bit 1) ?emit (2 ^ 3) (sint x))) :: byte) n = bit x n"
    unfolding e two_pow chars_of.simps in_byte.simps put group_bits c
    by (elim disjE) (simp_all add: bit_sint_low eval_nat_numeral)
qed

lemma byte_of_B:
  "word_of_int (in_byte (\<lambda>byte c. byte OR (sint c AND 1)) (push_bit 1) 0
     (chars_of (push_bit 1) (\<lambda>bits. if bits AND 128 \<noteq> 0 then 0x31 else 0x30) (2 ^ 3) (sint x))) = (x :: byte)"
  (is "word_of_int (in_byte ?put _ _ (chars_of _ ?emit _ _)) = _")
proof (rule bit_word_eqI)
  have "(b AND 128 = 0) = (\<forall>n. \<not> bit (b AND 128) n)" for b :: int by (auto intro: bit_eqI)
  then have e: "?emit b = (if bit b 7 then 0x31 else 0x30)" for b by (simp add: bit_and_iff bit_128)
  have put: "?put b (if c then 0x31 else 0x30) = b OR of_bool c" for b c by simp
  fix n assume "n < LENGTH(8)"
  then have n: "n < 8" by simp
  have c: "bit (of_bool c :: int) m \<longleftrightarrow> m = 0 \<and> c" for m c by (simp add: bit_of_bool_iff)
  from n byte_cases [OF n]
  show "bit (word_of_int (in_byte ?put (push_bit 1) 0 (chars_of (push_bit 1) ?emit (2 ^ 3) (sint x))) :: byte) n = bit x n"
    unfolding e two_pow chars_of.simps in_byte.simps put group_bits c
    by (elim disjE) (simp_all add: bit_sint_low eval_nat_numeral)
qed

lemmas digit_codecs = unpack_b_def pack_b_def unpack_B_def pack_B_def unpack_h_def pack_h_def unpack_H_def pack_H_def

lemma digit_strings_back:
  "\<exists>t. unpack_b (8 * length s) s = Inr (t, []) \<and> pack_b t (int (length t)) = Inr s"
  "\<exists>t. unpack_B (8 * length s) s = Inr (t, []) \<and> pack_B t (int (length t)) = Inr s"
  "\<exists>t. unpack_h (2 * length s) s = Inr (t, []) \<and> pack_h t (int (length t)) = Inr s"
  "\<exists>t. unpack_H (2 * length s) s = Inr (t, []) \<and> pack_H t (int (length t)) = Inr s"
  unfolding digit_codecs
  using pack_unpack_digits [OF byte_of_b, of s] pack_unpack_digits [OF byte_of_B, of s]
    pack_unpack_digits [OF byte_of_h, of s] pack_unpack_digits [OF byte_of_H, of s]
  by simp_all

section \<open>Decoding of uuencode\<close>

text \<open>One character of a group: a blank or a character after it stands for itself, the end for 0.\<close>

definition u_char :: "byte list \<Rightarrow> int \<times> byte list" where
  "u_char s = (case s of [] \<Rightarrow> (0, s) | c # r \<Rightarrow> if sint c \<ge> 32 then ((sint c - 32) AND 63, r) else (0, s))"

text \<open>The groups of a line that announces \<^verbatim>\<open>len\<close> bytes.\<close>

function u_line :: "nat \<Rightarrow> byte list \<Rightarrow> byte list \<times> byte list" where
  "u_line len s =
     (if len = 0 then ([], s)
      else let mlen = (if len > 3 then 3 else len);
               (a, s) = u_char s; (b, s) = u_char s; (c, s) = u_char s; (d, s) = u_char s;
               (out, s) = u_line (len - mlen) s
           in (take mlen (hunk a b c d) @ out, s))"
  by auto
termination by (relation "measure fst") (auto split: if_splits)

text \<open>
  How far the tests at the end of a line advance: over \<^verbatim>\<open>\r\<close>, then over \<^verbatim>\<open>\n\<close> or over a possible checksum byte with
  what follows it. When the checksum byte is the last one the position goes one beyond the end.
\<close>

definition u_eol :: "byte list \<Rightarrow> nat" where
  "u_eol s =
     (let k = (if s \<noteq> [] \<and> hd s = 0x0d then 1 else 0); s = drop k s
      in if s \<noteq> [] \<and> hd s = 0x0a then k + 1
         else if s \<noteq> [] \<and> (tl s = [] \<or> hd (tl s) = 0x0a) then k + 2
         else k)"

text \<open>The bytes, and by how much \<^verbatim>\<open>s\<close> advances; \<^verbatim>\<open>cap\<close> is the length of the result string.\<close>

function unpack_u :: "nat \<Rightarrow> nat \<Rightarrow> byte list \<Rightarrow> byte list \<times> nat" where
  "unpack_u cap tot s =
     (if s = [] \<or> sint (hd s) \<le> 32 \<or> sint (hd s) \<ge> 97 then ([], 0)
      else let len = nat ((sint (hd s) - 32) AND 63); s1 = tl s;
               tot' = tot + len;
               len = (if tot' > cap then len - (tot' - cap) else len);
               tot' = (if tot' > cap then cap else tot');
               (out, s2) = u_line len s1;
               n = 1 + (length s1 - length s2) + u_eol s2;
               (rest, m) = unpack_u cap tot' (drop n s)
           in (out @ rest, n + m))"
  by auto
termination by (relation "measure (\<lambda>(_, _, s). length s)") auto

declare u_line.simps [simp del] unpack_u.simps [simp del]

lemma uu_back:
  assumes "i < 64"
  shows "32 \<le> sint (uu_table ! i)" "(sint (uu_table ! i) - 32) AND 63 = int i"
proof -
  have "\<forall>i \<in> set [0..<64]. 32 \<le> sint (uu_table ! i) \<and> (sint (uu_table ! i) - 32) AND 63 = int i" by code_simp
  with assms show "32 \<le> sint (uu_table ! i)" "(sint (uu_table ! i) - 32) AND 63 = int i" by auto
qed

lemma u_char_trans [simp]: "u_char (trans_at uu_table i # s) = (63 AND i, s)"
  using uu_back [OF mask_63(1), of i] by (simp add: u_char_def trans_at_def mask_63(2))

lemma u_line_group:
  "0 < len \<Longrightarrow>
   u_line len (trans_at uu_table i # trans_at uu_table j # trans_at uu_table k # trans_at uu_table l # s) =
     (take len (hunk (63 AND i) (63 AND j) (63 AND k) (63 AND l)) @ fst (u_line (len - 3) s), snd (u_line (len - 3) s))"
  by (subst u_line.simps) (auto simp: Let_def hunk_def split: prod.splits)

lemma uu_padding: "0x60 = trans_at uu_table 0"
  by (simp add: trans_at_def uu_table_def)

lemma u_line_back: "u_line (length s) (encode_groups uu_table 0x60 s @ r) = (s, r)"
proof (induction uu_table "0x60 :: byte" s rule: encode_groups.induct)
  case (1 s0 s1 s2 s)
  then show ?case by (simp only: encode_groups.simps append_Cons u_line_group list.size hunk_back zero_less_Suc) simp
next
  case (2 s0 s1)
  have "length [s0, s1] = 2" by simp
  then show ?case unfolding uu_padding
    by (simp only: encode_groups.simps append_Cons append_Nil u_line_group zero_less_numeral hunk_pad(2)) (simp add: u_line.simps)
next
  case (3 s0)
  have "length [s0] = 1" by simp
  then show ?case unfolding uu_padding
    by (simp only: encode_groups.simps append_Cons append_Nil u_line_group zero_less_one hunk_pad(1)) (simp add: u_line.simps)
next
  case 4
  show ?case by (simp add: u_line.simps)
qed

lemma length_encode_groups: "4 * length s \<le> 3 * length (encode_groups tab p s)"
  by (induction tab p s rule: encode_groups.induct) simp_all

lemma unpack_u_line:
  assumes "0 < length s" "length s \<le> 63" "tot + length s \<le> cap"
  shows "unpack_u cap tot (encodes s True @ r) =
    (s @ fst (unpack_u cap (tot + length s) r), length (encodes s True) + snd (unpack_u cap (tot + length s) r))"
proof -
  have u: "uint (of_nat (length s) + 0x20 :: byte) = int (length s) + 32"
    using assms(2) by (simp add: uint_word_ariths unsigned_of_nat take_bit_eq_mod)
  have c: "sint (of_nat (length s) + 0x20 :: byte) = int (length s) + 32"
    using assms(2) u by (simp add: sint_uint signed_take_bit_int_eq_self)
  have "int (length s) AND 63 = int (length s)" using assms(2) and_mask_mod [of _ 6] by simp
  with c have x: "nat ((sint (of_nat (length s) + 0x20 :: byte) - 32) AND 63) = length s" by simp
  let ?g = "encode_groups uu_table 0x60 s"
  obtain x where e: "encodes s True @ r = x # ?g @ 0x0a # r" "length (encodes s True) = length ?g + 2" and
    x: "nat ((sint x - 32) AND 63) = length s" "\<not> sint x \<le> 32" "\<not> sint x \<ge> 97"
    using c x assms(1,2) by (auto simp: encodes_def)
  have "drop (1 + (length (?g @ 0x0a # r) - length (0x0a # r)) + 1) (x # ?g @ 0x0a # r) = r" by simp
  moreover have "u_eol (0x0a # r) = 1" by (simp add: u_eol_def)
  moreover have "\<not> cap < tot + length s" using assms(3) by simp
  ultimately show ?thesis unfolding e
    by (subst unpack_u.simps)
      (simp only: x u_line_back Let_def list.sel list.simps if_False simp_thms case_prod_beta fst_conv snd_conv, simp)
qed

lemma unpack_u_lines:
  assumes "0 < len" "len \<le> 63"
  shows "tot + length s \<le> cap \<Longrightarrow> unpack_u cap tot (encode_lines True len s) = (s, length (encode_lines True len s))"
proof (induction "length s" arbitrary: s tot rule: less_induct)
  case less
  show ?case
  proof (cases "s = []")
    case True
    then show ?thesis by (simp add: unpack_u.simps)
  next
    case False
    let ?n = "if length s > len then len else length s"
    have e: "encode_lines True len s = encodes (take ?n s) True @ encode_lines True len (drop ?n s)"
      using False assms(1) by (subst encode_lines.simps) (simp add: Let_def)
    have "unpack_u cap (tot + ?n) (encode_lines True len (drop ?n s)) = (drop ?n s, length (encode_lines True len (drop ?n s)))"
      by (rule less(1)) (use False assms(1) less.prems in auto)
    then show ?thesis unfolding e
      using unpack_u_line [of "take ?n s" tot cap] False assms less.prems by auto
  qed
qed

lemma length_encode_lines: "0 < len \<Longrightarrow> 4 * length s \<le> 3 * length (encode_lines uu len s)"
proof (induction "length s" arbitrary: s rule: less_induct)
  case less
  show ?case
  proof (cases "s = []")
    case False
    let ?n = "if length s > len then len else length s"
    have e: "encode_lines uu len s = encodes (take ?n s) uu @ encode_lines uu len (drop ?n s)"
      using False less.prems by (subst encode_lines.simps) (simp add: Let_def)
    have "4 * length (drop ?n s) \<le> 3 * length (encode_lines uu len (drop ?n s))"
      by (rule less(1)) (use False less.prems in auto)
    moreover have "4 * length (take ?n s) \<le> 3 * length (encodes (take ?n s) uu)"
      using length_encode_groups [of "take ?n s" uu_table "0x60"] length_encode_groups [of "take ?n s" b64_table "0x3d"]
      by (auto simp: encodes_def Let_def split: if_splits)
    ultimately show ?thesis unfolding e by (auto split: if_splits)
  qed simp
qed

subsection \<open>The result strings are large enough\<close>

lemma unpack_m_tail_bound:
  "unpack_m_tail s a b c = Inr (out, rest) \<Longrightarrow> 4 * length out \<le> 3 * length s \<and> rest = s"
  by (auto simp: unpack_m_tail_def bindR_def peek_def hunk_def split: sum.splits if_splits)

lemma bindR_eq_Inr: "bindR m k = Inr y \<longleftrightarrow> (\<exists>x. m = Inr x \<and> k x = Inr y)"
  by (cases m) simp_all

lemma unpack_m_bound: "unpack_m s b c = Inr (out, rest) \<Longrightarrow> 4 * length out \<le> 3 * length s \<and> (\<exists>k. rest = drop k s)"
proof (induction s b c arbitrary: out rest rule: unpack_m.induct)
  case (1 s0 b0 c0)
  define s where "s = dropWhile (\<lambda>x. x = 0x0d \<or> x = 0x0a) s0"
  have l: "\<exists>k. s = drop k s0" unfolding s_def dropWhile_eq_drop by blast
  then have le: "length s \<le> length s0" by auto
  have stop: "4 * length out \<le> 3 * length s0 \<and> (\<exists>k. rest = drop k s0)"
    if "unpack_m_tail s a b c = Inr (out, rest)" for a b c
    using unpack_m_tail_bound [OF that] l le by (auto intro: order_trans)
  consider a b c where "unpack_m_tail s a b c = Inr (out, rest)"
    | a b c d out' where "xt s 0 = Inr a" "a \<noteq> - 1" "xt s 1 = Inr b" "b \<noteq> - 1" "xt s 2 = Inr c" "c \<noteq> - 1" "xt s 3 = Inr d" "d \<noteq> - 1"
      "unpack_m (drop 4 s) b c = Inr (out', rest)" "out = hunk a b c d @ out'"
    using 1(2) by (subst (asm) unpack_m.simps) (auto simp: s_def [symmetric] Let_def bindR_eq_Inr split: if_splits)
  then show ?case
  proof cases
    case 1
    then show ?thesis by (rule stop)
  next
    case (2 a b c d out')
    have "4 * length out' \<le> 3 * length (drop 4 s) \<and> (\<exists>k. rest = drop k (drop 4 s))"
      by (rule "1.IH" [OF s_def 2(1-9)])
    moreover have "3 < length s" using xt_length 2(7,8) .
    ultimately show ?thesis using l le 2(10) by (auto simp: hunk_def)
  qed
qed

section \<open>BER-compressed integers\<close>

text \<open>
  \<^verbatim>\<open>pack\<close> with \<^verbatim>\<open>w\<close>: a big number is divided by 128 until a Fixnum is left. The result is \<^verbatim>\<open>None\<close> when a loop
  does not end.
\<close>

partial_function (option) ber_big ::
    "(('f, 'o) VALUE \<Rightarrow> rb_error + u64) \<Rightarrow> (rbignum \<Rightarrow> ('f, 'o) VALUE \<Rightarrow> ('f, 'o) VALUE \<times> ('f, 'o) VALUE) \<Rightarrow>
     ('f, 'o) VALUE \<Rightarrow> (rb_error + byte list \<times> ('f, 'o) VALUE) option" where
  "ber_big conv nc from =
     (case from of
        Bignum b \<Rightarrow>
          (case rb_big_divmod nc b (Bignum (rb_uint2big 128)) of
             None \<Rightarrow> None
           | Some (Inl e) \<Rightarrow> Some (Inl e)
           | Some (Inr (d, m)) \<Rightarrow>
               (case rb_num2int conv m of
                  Inl e \<Rightarrow> Some (Inl e)
                | Inr i \<Rightarrow>
                    Option.bind (ber_big conv nc d) (\<lambda>r.
                      Some (bindR r (\<lambda>(buf, v). Inr (word_of_int (i OR 0x80) # buf, v))))))
      | _ \<Rightarrow> Some (Inr ([], from)))"

function ber_word :: "u64 \<Rightarrow> byte list" where
  "ber_word ul = (if ul = 0 then [] else ucast ((ul AND 0x7f) OR 0x80) # ber_word (drop_bit 7 ul))"
  by auto
termination
proof (relation "measure unat", goal_cases)
  case (2 ul)
  then have "0 < unat ul" by (simp add: unat_gt_0)
  then show ?case by (simp add: unat_drop_bit)
qed simp

text \<open>The loop that reverses the buffer.\<close>

function swap_loop :: "nat \<Rightarrow> nat \<Rightarrow> byte list \<Rightarrow> byte list" where
  "swap_loop bufs bufe buf =
     (if bufs < bufe then swap_loop (bufs + 1) (bufe - 1) (buf[bufs := buf ! bufe, bufe := buf ! bufs]) else buf)"
  by auto
termination by (relation "measure (\<lambda>(i, j, _). j - i)") auto

definition pack_w ::
    "(('f, 'o) VALUE \<Rightarrow> rb_error + u64) \<Rightarrow> (rbignum \<Rightarrow> ('f, 'o) VALUE \<Rightarrow> ('f, 'o) VALUE \<times> ('f, 'o) VALUE) \<Rightarrow>
     (('f, 'o) VALUE \<Rightarrow> bool) \<Rightarrow> ('f, 'o) VALUE \<Rightarrow> (rb_error + byte list) option" where
  "pack_w conv nc nil_p from =
     map_option (\<lambda>r. bindR r (\<lambda>(buf, v).
       bindR (if nil_p v then Inr 0 else rb_num2ulong conv v) (\<lambda>ul.
         let buf = buf @ ber_word ul
         in Inr (if buf \<noteq> [] then swap_loop 0 (length buf - 1) (buf[0 := buf ! 0 AND 0x7f]) else [0]))))
       (ber_big conv nc from)"

text \<open>\<^verbatim>\<open>unpack\<close> with \<^verbatim>\<open>w\<close>: a value that fills its top seven bits goes on as a big number.\<close>

fun ber_read_big ::
    "(('f, 'o) VALUE \<Rightarrow> 'f \<Rightarrow> ('f, 'o) VALUE) \<Rightarrow> (('f, 'o) VALUE \<Rightarrow> 'o \<Rightarrow> ('f, 'o) VALUE) \<Rightarrow>
     (rbignum \<Rightarrow> 'f \<Rightarrow> ('f, 'o) VALUE) \<Rightarrow> (rbignum \<Rightarrow> 'o \<Rightarrow> ('f, 'o) VALUE) \<Rightarrow>
     ('f, 'o) VALUE \<Rightarrow> byte list \<Rightarrow> rb_error + ('f, 'o) VALUE option \<times> byte list" where
  "ber_read_big fm nm fp np big [] = Inr (None, [])"
| "ber_read_big fm nm fp np big (x # s) =
     (case rb_big_mul fm nm big (Bignum (rb_uint2big 128)) of
        Bignum b \<Rightarrow>
          (let big = rb_big_plus fp np b (Bignum (rb_uint2big (ucast (x AND 0x7f))))
           in if x AND 0x80 = 0 then Inr (Some big, s) else ber_read_big fm nm fp np big s)
      | _ \<Rightarrow> Inl OutOfBounds)"

text \<open>The loop of \<^verbatim>\<open>unpack\<close> for at most \<^verbatim>\<open>len\<close> integers.\<close>

lemma ber_read_big_length: "ber_read_big fm nm fp np big s = Inr (v, r) \<Longrightarrow> length r \<le> length s"
  by (induction fm nm fp np big s rule: ber_read_big.induct) (auto simp: Let_def split: VALUE.splits if_splits intro: le_SucI)

definition ulmask :: u64 where
  "ulmask = push_bit 56 0xfe"

function unpack_w ::
    "(('f, 'o) VALUE \<Rightarrow> 'f \<Rightarrow> ('f, 'o) VALUE) \<Rightarrow> (('f, 'o) VALUE \<Rightarrow> 'o \<Rightarrow> ('f, 'o) VALUE) \<Rightarrow>
     (rbignum \<Rightarrow> 'f \<Rightarrow> ('f, 'o) VALUE) \<Rightarrow> (rbignum \<Rightarrow> 'o \<Rightarrow> ('f, 'o) VALUE) \<Rightarrow>
     int \<Rightarrow> u64 \<Rightarrow> byte list \<Rightarrow> rb_error + ('f, 'o) VALUE list \<times> byte list" where
  "unpack_w fm nm fp np len ul [] = Inr ([], [])"
| "unpack_w fm nm fp np len ul (x # s) =
     (if len \<le> 0 then Inr ([], x # s)
      else let ul = push_bit 7 ul OR ucast (x AND 0x7f)
           in if x AND 0x80 = 0
              then bindR (unpack_w fm nm fp np (len - 1) 0 s) (\<lambda>(vs, s). Inr (rb_uint2inum ul # vs, s))
              else if ul AND ulmask \<noteq> 0
              then bindR (ber_read_big fm nm fp np (Bignum (rb_uint2big ul)) s) (\<lambda>(v, s').
                     case v of
                       None \<Rightarrow> unpack_w fm nm fp np len ul s'
                     | Some big \<Rightarrow> bindR (unpack_w fm nm fp np (len - 1) 0 s') (\<lambda>(vs, s). Inr (big # vs, s)))
              else unpack_w fm nm fp np len ul s)"
  by pat_completeness auto
termination by (relation "measure (\<lambda>(_, _, _, _, _, _, s). length s)") (auto dest: ber_read_big_length)

declare ber_word.simps [simp del] swap_loop.simps [simp del] unpack_w.simps(2) [simp del]

subsection \<open>Reading back what was written\<close>

text \<open>The base-128 digits of a number from the lowest up, each with the continuation bit.\<close>

fun ber_low :: "nat \<Rightarrow> byte list" where
  "ber_low n = (if n = 0 then [] else (of_nat (n mod 128) OR 0x80) # ber_low (n div 128))"

declare ber_low.simps [simp del]

lemma ber_byte:
  assumes "k < 128"
  shows "(of_nat k OR 0x80) AND 0x7f = (of_nat k :: byte)" "(of_nat k OR 0x80) AND 0x80 \<noteq> (0 :: byte)"
    "of_nat k AND 0x80 = (0 :: byte)" "of_nat k AND 0x7f = (of_nat k :: byte)"
proof -
  have "\<forall>k \<in> set [0..<128]. (of_nat k OR 0x80) AND 0x7f = (of_nat k :: byte) \<and> (of_nat k OR 0x80) AND 0x80 \<noteq> (0 :: byte) \<and>
    of_nat k AND 0x80 = (0 :: byte) \<and> of_nat k AND 0x7f = (of_nat k :: byte)" by code_simp
  then show "(of_nat k OR 0x80) AND 0x7f = (of_nat k :: byte)" "(of_nat k OR 0x80) AND 0x80 \<noteq> (0 :: byte)"
    "of_nat k AND 0x80 = (0 :: byte)" "of_nat k AND 0x7f = (of_nat k :: byte)" using assms by auto
qed

lemma ber_word_low: "ber_word ul = ber_low (unat ul)"
proof (induction ul rule: ber_word.induct)
  case (1 ul)
  have "unat (ul AND 0x7f) = unat ul mod 128"
    using take_bit_eq_mod [of 7 "unat ul"] by (simp add: take_bit_eq_mask mask_eq_exp_minus_1 unsigned_and_eq)
  then have "ucast (ul AND 0x7f) = (of_nat (unat ul mod 128) :: byte)" by (metis of_nat_unat)
  then have "ucast ((ul AND 0x7f) OR 0x80) = (of_nat (unat ul mod 128) OR 0x80 :: byte)" by (simp add: unsigned_or_eq)
  with 1 show ?case
    by (subst ber_word.simps, subst ber_low.simps) (simp add: unat_eq_0 unat_drop_bit)
qed

lemma swap_loop_nth:
  "j < length xs \<Longrightarrow> i \<le> Suc j \<Longrightarrow> length (swap_loop i j xs) = length xs \<and>
   (\<forall>m < length xs. swap_loop i j xs ! m = (if i \<le> m \<and> m \<le> j then xs ! (i + j - m) else xs ! m))"
proof (induction i j xs rule: swap_loop.induct)
  case (1 i j xs)
  show ?case
  proof (cases "i < j")
    case True
    from "1.IH" [OF True] 1(2,3) True show ?thesis
      by (subst (1 2) swap_loop.simps) (auto simp: nth_list_update)
  next
    case False
    with 1(2,3) have "i = j \<or> i = Suc j" by linarith
    with False show ?thesis by (subst (1 2) swap_loop.simps) auto
  qed
qed

lemma swap_loop_rev: "xs \<noteq> [] \<Longrightarrow> swap_loop 0 (length xs - 1) xs = rev xs"
  using swap_loop_nth [of "length xs - 1" xs 0] by (intro nth_equalityI) (auto simp: rev_nth)

lemma big_uint: "big_ok (rb_uint2big n)" "big_val (rb_uint2big n) = int (unat n)"
proof -
  have "bsign (rb_uint2big n)" "digits (rb_uint2big n) \<noteq> []" by (simp_all add: rb_uint2big_def Let_def)
  then show "big_ok (rb_uint2big n)" "big_val (rb_uint2big n) = int (unat n)"
    using rb_uint2big_digits [of n] by (auto simp: big_ok_def big_norm_ok_def big_val_def)
qed

lemma ber_big_low:
  assumes "is_int v (int n)"
  shows "\<exists>buf w. ber_big conv nc v = Some (Inr (buf, Fixnum w)) \<and> ber_low n = buf @ ber_low (unat w)"
  using assms
proof (induction n arbitrary: v rule: less_induct)
  case (less n)
  from less.prems show ?case
  proof (cases rule: is_int_cases)
    case (Fix w)
    then have "0 \<le> sint w" by simp
    then have "unat w = n" using Fix(3) unsigned_less [of w, where 'a = nat] by (auto simp: sint_unat split: if_splits)
    then show ?thesis unfolding Fix(1) by (subst ber_big.simps) simp
  next
    case (Big b)
    then have nf: "\<not> FIXABLE (int n)" by simp
    then have n: "n \<noteq> 0" "n div 128 < n" by (auto simp: FIXABLE_iff)
    obtain d m where dm: "rb_big_divmod nc b (Bignum (rb_uint2big 128)) = Some (Inr (d, m))"
      "is_int d (int n div 128)" "is_int m (int n mod 128)"
      using bigdivmod_value [of b "rb_uint2big 128"] Big(2,3) big_uint [of 128] by (auto simp: rb_big_divmod_def)
    have "is_int d (int (n div 128))" using dm(2) by (simp add: zdiv_int)
    from less.IH [OF n(2) this] obtain buf w where
      r: "ber_big conv nc d = Some (Inr (buf, Fixnum w))" "ber_low (n div 128) = buf @ ber_low (unat w)" by blast
    have "FIXABLE (int n mod 128)"
    proof -
      define k where "k = int n mod 128"
      have "0 \<le> k" "k < 128" by (simp_all add: k_def)
      then show ?thesis unfolding k_def [symmetric] by (simp add: FIXABLE_iff)
    qed
    with dm(3) obtain mm where m: "m = Fixnum mm" "sint mm = int n mod 128"
      by (cases rule: is_int_cases) auto
    have "0 \<le> sint mm \<and> sint mm < 128" unfolding m(2) by simp
    then have "rb_num2int conv m = Inr (sint mm)" by (simp add: m(1) rb_num2int_def)
    then have "rb_num2int conv m = Inr (int (n mod 128))" unfolding m(2) zmod_int by simp
    then have "ber_big conv nc (Bignum b) = Some (Inr (word_of_int (int (n mod 128) OR 0x80) # buf, Fixnum w))"
      using dm(1) r(1) by (subst ber_big.simps) simp
    moreover have "word_of_int (int (n mod 128) OR 0x80) = (of_nat (n mod 128) OR 0x80 :: byte)"
      by (simp add: of_int_or_eq del: of_nat_mod)
    ultimately show ?thesis using r(2) n(1) by (subst ber_low.simps) (simp add: Big(1))
  qed
qed

lemma ber_low_eq_Nil: "ber_low n = [] \<longleftrightarrow> n = 0"
  by (subst ber_low.simps) simp

lemma pack_w_bytes:
  assumes "is_int v (int n)" "\<not> nil_p v" "\<And>w. \<not> nil_p (Fixnum w)"
  shows "pack_w conv nc nil_p v = Some (Inr (rev (ber_low (n div 128)) @ [of_nat (n mod 128)]))"
proof -
  obtain buf w where b: "ber_big conv nc v = Some (Inr (buf, Fixnum w))" "ber_low n = buf @ ber_low (unat w)"
    using ber_big_low [OF assms(1)] by blast
  have "pack_w conv nc nil_p v = Some (Inr (if ber_low n \<noteq> [] then swap_loop 0 (length (ber_low n) - 1) ((ber_low n)[0 := ber_low n ! 0 AND 0x7f]) else [0]))"
    using b(1) assms(3) by (simp add: pack_w_def b(2) ber_word_low rb_num2ulong_def rb_num2long_def Let_def)
  moreover have "swap_loop 0 (length (ber_low n) - 1) ((ber_low n)[0 := ber_low n ! 0 AND 0x7f]) = rev (ber_low (n div 128)) @ [of_nat (n mod 128)]"
    if "n \<noteq> 0"
  proof -
    have e: "ber_low n = (of_nat (n mod 128) OR 0x80) # ber_low (n div 128)" using that by (subst ber_low.simps) simp
    then have "(ber_low n)[0 := ber_low n ! 0 AND 0x7f] = of_nat (n mod 128) # ber_low (n div 128)" by (simp add: ber_byte del: of_nat_mod)
    moreover have "length (ber_low n) = length (of_nat (n mod 128) # ber_low (n div 128))" using e by simp
    ultimately show ?thesis using swap_loop_rev [of "of_nat (n mod 128) # ber_low (n div 128)"] by (simp del: of_nat_mod)
  qed
  ultimately show ?thesis by (cases "n = 0") (simp_all add: ber_low_eq_Nil ber_low.simps [of 0])
qed

lemma ber_join:
  assumes "m < 2 ^ 57" "d < 128"
  shows "push_bit 7 (of_nat m) OR ucast (of_nat d :: byte) = (of_nat (m * 128 + d) :: u64)"
proof -
  have u: "ucast (of_nat d :: byte) = (of_nat d :: u64)" using assms(2)
    by (simp add: word_unat_eq_iff unsigned_ucast_eq unsigned_of_nat take_bit_nat_eq_self)
  have b: "bit (of_nat d :: u64) n \<Longrightarrow> n < 7" for n
    using assms(2) by (intro bit_below [of "of_nat d" 7 n]) (simp_all add: unsigned_of_nat take_bit_nat_eq_self)
  have "push_bit 7 (of_nat m) OR of_nat d = push_bit 7 (of_nat m) + (of_nat d :: u64)"
    by (intro disjunctive_add [symmetric]) (auto simp: bit_push_bit_iff dest: b)
  then show ?thesis by (simp add: u push_bit_eq_mult)
qed

lemma ulmask_iff: "m < 2 ^ 64 \<Longrightarrow> (of_nat m AND ulmask \<noteq> 0) \<longleftrightarrow> 2 ^ 57 \<le> m"
proof -
  assume m: "m < 2 ^ 64"
  have u: "ulmask = NOT (mask 57)" by (simp add: ulmask_def mask_eq_exp_minus_1)
  have "of_nat m AND ulmask = push_bit 57 (drop_bit 57 (of_nat m))" unfolding u
    by (rule bit_word_eqI) (auto simp: bit_and_iff bit_not_iff bit_mask_iff bit_push_bit_iff bit_drop_bit_eq)
  moreover have "unat (of_nat m :: u64) = m" using m by (simp add: unsigned_of_nat take_bit_nat_eq_self)
  then have "unat (push_bit 57 (drop_bit 57 (of_nat m :: u64))) = 2 ^ 57 * (m div 2 ^ 57)"
    using m by (simp add: push_bit_eq_mult unat_word_ariths unat_drop_bit)
  ultimately show ?thesis by (simp add: unat_eq_0 [symmetric] div_greater_zero_iff)
qed

text \<open>The rest of the loop of \<^verbatim>\<open>unpack\<close> once it reads a big number.\<close>

definition ber_rest ::
    "(('f, 'o) VALUE \<Rightarrow> 'f \<Rightarrow> ('f, 'o) VALUE) \<Rightarrow> (('f, 'o) VALUE \<Rightarrow> 'o \<Rightarrow> ('f, 'o) VALUE) \<Rightarrow>
     (rbignum \<Rightarrow> 'f \<Rightarrow> ('f, 'o) VALUE) \<Rightarrow> (rbignum \<Rightarrow> 'o \<Rightarrow> ('f, 'o) VALUE) \<Rightarrow>
     int \<Rightarrow> u64 \<Rightarrow> ('f, 'o) VALUE \<Rightarrow> byte list \<Rightarrow> rb_error + ('f, 'o) VALUE list \<times> byte list" where
  "ber_rest fm nm fp np len ul big s =
     bindR (ber_read_big fm nm fp np big s) (\<lambda>(v, s').
       case v of
         None \<Rightarrow> unpack_w fm nm fp np len ul s'
       | Some big \<Rightarrow> bindR (unpack_w fm nm fp np (len - 1) 0 s') (\<lambda>(vs, s). Inr (big # vs, s)))"

lemma ber_read_step:
  fixes big :: "('f, 'o) VALUE"
  assumes "int_of big = Some (int m)" "2 ^ 57 \<le> m" "x AND 0x7f = of_nat d" "d < 128"
  shows "\<exists>big' :: ('f, 'o) VALUE. is_int big' (int (m * 128 + d)) \<and>
    ber_read_big fm nm fp np big (x # s) =
      (if x AND 0x80 = 0 then Inr (Some big', s) else ber_read_big fm nm fp np big' s)"
proof -
  let ?p = "rb_big_mul fm nm big (Bignum (rb_uint2big 128))"
  have "is_int ?p (int m * 128)"
    using rb_big_mul_value [OF assms(1), of "Bignum (rb_uint2big 128)" 128 fm nm] by (simp add: is_int_def big_uint)
  moreover have "\<not> FIXABLE (int m * 128)"
  proof -
    have "(2 :: int) ^ 57 \<le> int m" using assms(2) by (metis of_nat_le_iff of_nat_power of_nat_numeral)
    then show ?thesis unfolding FIXABLE_iff by simp
  qed
  ultimately obtain b where b: "?p = Bignum b" "big_ok b" "big_val b = int m * 128"
    by (cases rule: is_int_cases) auto
  have "unat (ucast (of_nat d :: byte) :: u64) = d" using assms(4)
    by (simp add: unsigned_ucast_eq unsigned_of_nat take_bit_nat_eq_self)
  then have "is_int (rb_big_plus fp np b (Bignum (rb_uint2big (ucast (x AND 0x7f))))) (int (m * 128 + d))"
    using bigadd_ok [OF b(2) big_uint(1)] by (simp add: rb_big_plus_def b(3) big_uint assms(3))
  then show ?thesis using b(1) by (auto simp: Let_def)
qed

lemma ber_low_snoc: "n \<noteq> 0 \<Longrightarrow> rev (ber_low n) @ s = rev (ber_low (n div 128)) @ (of_nat (n mod 128) OR 0x80) # s"
  by (subst ber_low.simps) simp

lemma unpack_w_step:
  assumes "0 < len" "m < 2 ^ 57" "x AND 0x7f = of_nat d" "d < 128"
  shows "unpack_w fm nm fp np len (of_nat m) (x # s) =
    (if x AND 0x80 = 0
     then bindR (unpack_w fm nm fp np (len - 1) 0 s) (\<lambda>(vs, s). Inr (rb_uint2inum (of_nat (m * 128 + d)) # vs, s))
     else if 2 ^ 57 \<le> m * 128 + d
     then ber_rest fm nm fp np len (of_nat (m * 128 + d)) (Bignum (rb_uint2big (of_nat (m * 128 + d)))) s
     else unpack_w fm nm fp np len (of_nat (m * 128 + d)) s)"
proof -
  have "m * 128 + d < 2 ^ 64" using assms(2,4) by simp
  from ulmask_iff [OF this] assms(1) ber_join [OF assms(2,4)] assms(3) show ?thesis
    by (subst unpack_w.simps) (simp add: Let_def ber_rest_def del: of_nat_add of_nat_mult)
qed

lemma unpack_w_prefix:
  fixes fm :: "('f, 'o) VALUE \<Rightarrow> 'f \<Rightarrow> ('f, 'o) VALUE"
  assumes "0 < len"
  shows "if n < 2 ^ 57 then unpack_w fm nm fp np len 0 (rev (ber_low n) @ s) = unpack_w fm nm fp np len (of_nat n) s
         else \<exists>(big :: ('f, 'o) VALUE) ul. int_of big = Some (int n) \<and>
           unpack_w fm nm fp np len 0 (rev (ber_low n) @ s) = ber_rest fm nm fp np len ul big s"
proof (induction n arbitrary: s rule: less_induct)
  case (less n)
  show ?case
  proof (cases "n = 0")
    case True
    then show ?thesis by (simp add: ber_low.simps)
  next
    case False
    let ?m = "n div 128" and ?d = "n mod 128" and ?x = "of_nat (n mod 128) OR 0x80 :: byte"
    have n: "?m * 128 + ?d = n" "?m < n" "?d < 128" using False by simp_all
    note IH = less [OF n(2), of "?x # s"] and x = ber_byte(1,2) [OF n(3)]
    have e: "rev (ber_low n) @ s = rev (ber_low ?m) @ ?x # s" by (rule ber_low_snoc [OF False])
    show ?thesis
    proof (cases "?m < 2 ^ 57")
      case True
      have "unpack_w fm nm fp np len 0 (rev (ber_low n) @ s) = unpack_w fm nm fp np len (of_nat ?m) (?x # s)"
        unfolding e using IH unfolding if_P [OF True] .
      then have u: "unpack_w fm nm fp np len 0 (rev (ber_low n) @ s) =
          (if 2 ^ 57 \<le> n then ber_rest fm nm fp np len (of_nat n) (Bignum (rb_uint2big (of_nat n))) s
           else unpack_w fm nm fp np len (of_nat n) s)"
        using unpack_w_step [OF assms True x(1) n(3), of fm nm fp np s] unfolding n(1) if_not_P [OF x(2)] by (rule trans)
      have "n < 2 ^ 64" using True n(1,3) by simp
      then have "int_of (Bignum (rb_uint2big (of_nat n)) :: ('f, 'o) VALUE) = Some (int n)"
        by (simp add: big_uint unsigned_of_nat take_bit_nat_eq_self)
      with u show ?thesis by (metis not_le)
    next
      case m: False
      then obtain big :: "('f, 'o) VALUE" and ul where b: "int_of big = Some (int ?m)"
        "unpack_w fm nm fp np len 0 (rev (ber_low n) @ s) = ber_rest fm nm fp np len ul big (?x # s)"
        unfolding e using IH unfolding if_not_P [OF m] by blast
      obtain big' :: "('f, 'o) VALUE" where "is_int big' (int n)"
        "ber_read_big fm nm fp np big (?x # s) = ber_read_big fm nm fp np big' s"
        using ber_read_step [OF b(1) _ x(1) n(3), of fm nm fp np s] m x(2) unfolding n(1) by (auto simp: not_less)
      then have "int_of big' = Some (int n) \<and> unpack_w fm nm fp np len 0 (rev (ber_low n) @ s) = ber_rest fm nm fp np len ul big' s"
        using b(2) by (simp add: ber_rest_def is_int_def)
      moreover have "\<not> n < 2 ^ 57" using m by simp
      ultimately show ?thesis unfolding if_not_P [OF \<open>\<not> n < 2 ^ 57\<close>] by blast
    qed
  qed
qed

lemma unpack_w_back:
  fixes v :: "('f, 'o) VALUE"
  assumes "0 < len" "is_int v (int n)"
  shows "unpack_w fm nm fp np len 0 (rev (ber_low (n div 128)) @ of_nat (n mod 128) # s) =
    bindR (unpack_w fm nm fp np (len - 1) 0 s) (\<lambda>(vs, s). Inr (v # vs, s))"
proof -
  let ?m = "n div 128" and ?x = "of_nat (n mod 128) :: byte"
  have d: "n mod 128 < 128" "?m * 128 + n mod 128 = n" by simp_all
  note x = ber_byte(3,4) [OF d(1)] and p = unpack_w_prefix [OF assms(1), of ?m fm nm fp np "?x # s"]
  have same: "w = v" if "is_int w (int n)" for w :: "('f, 'o) VALUE"
    using that assms(2) canonical_unique unfolding is_int_def by blast
  show ?thesis
  proof (cases "?m < 2 ^ 57")
    case True
    have "n < 2 ^ 64" using True by simp
    then have "rb_uint2inum (of_nat n) = v"
      using rb_uint2inum_value [OF refl, of "of_nat n", where 'f = 'f and 'o = 'o]
      by (intro same) (simp add: is_int_def unsigned_of_nat take_bit_nat_eq_self)
    then show ?thesis
      using p unpack_w_step [OF assms(1) True x(2) d(1), of fm nm fp np s] unfolding d(2) if_P [OF True] if_P [OF x(1)] by simp
  next
    case False
    then obtain big :: "('f, 'o) VALUE" and ul where b: "int_of big = Some (int ?m)"
      "unpack_w fm nm fp np len 0 (rev (ber_low ?m) @ ?x # s) = ber_rest fm nm fp np len ul big (?x # s)"
      using p unfolding if_not_P [OF False] by blast
    obtain big' :: "('f, 'o) VALUE" where "is_int big' (int n)" "ber_read_big fm nm fp np big (?x # s) = Inr (Some big', s)"
      using ber_read_step [OF b(1) _ x(2) d(1), of fm nm fp np s] False x(1) unfolding d(2) by (auto simp: not_less)
    then show ?thesis using b(2) same [of big'] by (simp add: ber_rest_def)
  qed
qed

end
