(* ===== verification/Pack_Format.thy ===== *)
theory Pack_Format
  imports Pack_Codecs
begin

text \<open>
  \<^verbatim>\<open>Array#pack\<close> and \<^verbatim>\<open>String#unpack\<close> of \<^verbatim>\<open>src/ruby/pack.c\<close>: the interpreters of the format string and their
  directives, over the codecs of \<^verbatim>\<open>Pack_Codecs\<close>. The machine is little-endian with 64-bit \<^verbatim>\<open>long\<close>, so that
  \<^verbatim>\<open>NATINT_PACK\<close> is defined, \<^verbatim>\<open>OFF32\<close> is the start of a \<^verbatim>\<open>long\<close> and \<^verbatim>\<open>OFF32B\<close> its upper half.
\<close>

section \<open>Objects and parameters\<close>

text \<open>What an array element can be besides a number.\<close>

datatype 'o pobj = Nil | Str "byte list" | Obj 'o

type_synonym ('f, 'o) item = "('f, 'o pobj) VALUE"

text \<open>
  Code outside of the file: conversion of an object that is no string (\<^verbatim>\<open>to_str\<close>, \<^verbatim>\<open>to_s\<close>) or no integer (floats,
  \<^verbatim>\<open>to_int\<close>); \<^verbatim>\<open>rb_Float\<close> with the bits of the double that it gives, the conversions of the machine between the bits of
  double and of single precision, the float object with given bits; the address of the bytes of a string.
\<close>

record ('f, 'o) pack_env =
  to_str :: "('f, 'o) item \<Rightarrow> rb_error + byte list"
  to_s :: "('f, 'o) item \<Rightarrow> rb_error + byte list"
  to_long :: "('f, 'o) item \<Rightarrow> rb_error + u64"
  to_quad :: "('f, 'o) item \<Rightarrow> rb_error + u64"
  rb_Float :: "('f, 'o) item \<Rightarrow> rb_error + u64"
  to_single :: "u64 \<Rightarrow> u32"
  to_double :: "u32 \<Rightarrow> u64"
  rb_float_new :: "u64 \<Rightarrow> 'f"
  address :: "byte list \<Rightarrow> u64"

definition NIL_P :: "('f, 'o) item \<Rightarrow> bool" where
  "NIL_P v \<longleftrightarrow> (case v of Other Nil \<Rightarrow> True | _ \<Rightarrow> False)"

definition StringValue :: "('f, 'o) pack_env \<Rightarrow> ('f, 'o) item \<Rightarrow> rb_error + byte list" where
  "StringValue env v = (case v of Other (Str s) \<Rightarrow> Inr s | _ \<Rightarrow> to_str env v)"

definition rb_obj_as_string :: "('f, 'o) pack_env \<Rightarrow> ('f, 'o) item \<Rightarrow> rb_error + byte list" where
  "rb_obj_as_string env v = (case v of Other (Str s) \<Rightarrow> Inr s | _ \<Rightarrow> to_s env v)"

definition NUM2INT :: "('f, 'o) pack_env \<Rightarrow> ('f, 'o) item \<Rightarrow> rb_error + int" where
  "NUM2INT env = rb_num2int (to_long env)"

definition NUM2ULONG :: "('f, 'o) pack_env \<Rightarrow> ('f, 'o) item \<Rightarrow> rb_error + u64" where
  "NUM2ULONG env = rb_num2ulong (to_long env)"

text \<open>\<^verbatim>\<open>NUM2UINT(x)\<close> is \<^verbatim>\<open>(unsigned int)NUM2INT(x)\<close> where \<^verbatim>\<open>int\<close> is shorter than \<^verbatim>\<open>long\<close>.\<close>

definition NUM2UINT :: "('f, 'o) pack_env \<Rightarrow> ('f, 'o) item \<Rightarrow> rb_error + u32" where
  "NUM2UINT env v = bindR (NUM2INT env v) (\<lambda>i. Inr (word_of_int i))"

definition NATINT_U32 :: "('f, 'o) pack_env \<Rightarrow> bool \<Rightarrow> ('f, 'o) item \<Rightarrow> rb_error + u64" where
  "NATINT_U32 env natint v =
     (if natint then NUM2ULONG env v else bindR (NUM2UINT env v) (\<lambda>u. Inr (ucast u)))"

section \<open>Byte images\<close>

text \<open>The bytes of a word in memory, lowest first, and the word with given bytes.\<close>

definition mem_image :: "nat \<Rightarrow> u64 \<Rightarrow> byte list" where
  "mem_image n w = map (\<lambda>i. ucast (drop_bit (8 * i) w)) [0..<n]"

fun word_at :: "byte list \<Rightarrow> u64" where
  "word_at [] = 0"
| "word_at (b # bs) = ucast b OR push_bit 8 (word_at bs)"

definition swaps :: "u64 \<Rightarrow> u64" where
  "swaps x = push_bit 8 (x AND 0xFF) OR (drop_bit 8 x AND 0xFF)"

definition swapl :: "u64 \<Rightarrow> u64" where
  "swapl x =
     push_bit 56 (x AND 0x00000000000000FF) OR drop_bit 56 (x AND 0xFF00000000000000) OR
     push_bit 40 (x AND 0x000000000000FF00) OR drop_bit 40 (x AND 0x00FF000000000000) OR
     push_bit 24 (x AND 0x0000000000FF0000) OR drop_bit 24 (x AND 0x0000FF0000000000) OR
     push_bit 8 (x AND 0x00000000FF000000) OR drop_bit 8 (x AND 0x000000FF00000000)"

text \<open>
  \<^verbatim>\<open>swapf\<close> reverses the bytes of a float. It is a function without a prototype, so its argument is passed as a double and made
  a float again before the bytes are reversed.
\<close>

definition reverse_bytes :: "u32 \<Rightarrow> u32" where
  "reverse_bytes x = ucast (word_at (rev (mem_image 4 (ucast x))))"

definition swapf :: "('f, 'o) pack_env \<Rightarrow> u32 \<Rightarrow> u32" where
  "swapf env z = reverse_bytes (to_single env (to_double env z))"

section \<open>Packing one element\<close>

definition or_nil :: "'b \<Rightarrow> (('f, 'o) item \<Rightarrow> rb_error + 'b) \<Rightarrow> ('f, 'o) item \<Rightarrow> rb_error + 'b" where
  "or_nil z f from = (if NIL_P from then Inr z else f from)"

definition pack_c :: "('f, 'o) pack_env \<Rightarrow> ('f, 'o) item \<Rightarrow> rb_error + byte list" where
  "pack_c env from = bindR (or_nil 0 (NUM2INT env) from) (\<lambda>c. Inr [word_of_int c])"

definition pack_s :: "('f, 'o) pack_env \<Rightarrow> ('f, 'o) item \<Rightarrow> rb_error + byte list" where
  "pack_s env from = bindR (or_nil 0 (NUM2INT env) from) (\<lambda>s. Inr (mem_image 2 (word_of_int s)))"

definition pack_i :: "('f, 'o) pack_env \<Rightarrow> ('f, 'o) item \<Rightarrow> rb_error + byte list" where
  "pack_i env from = bindR (or_nil 0 (NUM2UINT env) from) (\<lambda>i. Inr (mem_image 4 (ucast i)))"

definition pack_l :: "('f, 'o) pack_env \<Rightarrow> bool \<Rightarrow> ('f, 'o) item \<Rightarrow> rb_error + byte list" where
  "pack_l env natint from =
     bindR (or_nil 0 (NATINT_U32 env natint) from) (\<lambda>l. Inr (mem_image (if natint then 8 else 4) l))"

definition pack_q :: "('f, 'o) pack_env \<Rightarrow> ('f, 'o) item \<Rightarrow> rb_error + byte list" where
  "pack_q env from =
     bindR (or_nil 0 (\<lambda>v. case rb_quad_pack v of Some q \<Rightarrow> Inr q | None \<Rightarrow> to_quad env v) from) (\<lambda>q. Inr (mem_image 8 q))"

definition pack_n :: "('f, 'o) pack_env \<Rightarrow> ('f, 'o) item \<Rightarrow> rb_error + byte list" where
  "pack_n env from =
     bindR (or_nil 0 (NUM2INT env) from) (\<lambda>s. Inr (mem_image 2 (swaps (take_bit 16 (word_of_int s)))))"

definition pack_N :: "('f, 'o) pack_env \<Rightarrow> ('f, 'o) item \<Rightarrow> rb_error + byte list" where
  "pack_N env from = bindR (or_nil 0 (NATINT_U32 env False) from) (\<lambda>l. Inr (drop 4 (mem_image 8 (swapl l))))"

definition pack_v :: "('f, 'o) pack_env \<Rightarrow> ('f, 'o) item \<Rightarrow> rb_error + byte list" where
  "pack_v env from = bindR (or_nil 0 (NUM2INT env) from) (\<lambda>s. Inr (mem_image 2 (take_bit 16 (word_of_int s))))"

definition pack_V :: "('f, 'o) pack_env \<Rightarrow> ('f, 'o) item \<Rightarrow> rb_error + byte list" where
  "pack_V env from = bindR (or_nil 0 (NATINT_U32 env False) from) (\<lambda>l. Inr (mem_image 4 l))"

definition pack_U :: "('f, 'o) pack_env \<Rightarrow> ('f, 'o) item \<Rightarrow> rb_error + byte list" where
  "pack_U env from = bindR (or_nil 0 (NUM2ULONG env) from) uv_to_utf8"

definition pack_f :: "('f, 'o) pack_env \<Rightarrow> char \<Rightarrow> ('f, 'o) item \<Rightarrow> rb_error + byte list" where
  "pack_f env type from =
     bindR (rb_Float env from) (\<lambda>d.
       let f = to_single env d in Inr (mem_image 4 (ucast (if type = CHR ''g'' then swapf env f else f))))"

definition pack_d :: "('f, 'o) pack_env \<Rightarrow> char \<Rightarrow> ('f, 'o) item \<Rightarrow> rb_error + byte list" where
  "pack_d env type from =
     bindR (rb_Float env from) (\<lambda>d. Inr (mem_image 8 (if type = CHR ''G'' then swapl d else d)))"

text \<open>
  The loop \<^verbatim>\<open>while (len-- > 0)\<close> around \<^verbatim>\<open>NEXTFROM\<close>, which raises when the array is exhausted. A result is \<^verbatim>\<open>None\<close> when
  an element's loop does not end.
\<close>

definition bindO :: "(rb_error + 'a) option \<Rightarrow> ('a \<Rightarrow> (rb_error + 'b) option) \<Rightarrow> (rb_error + 'b) option" where
  "bindO m k = (case m of None \<Rightarrow> None | Some (Inl e) \<Rightarrow> Some (Inl e) | Some (Inr x) \<Rightarrow> k x)"

fun pack_each ::
    "(('f, 'o) item \<Rightarrow> (rb_error + byte list) option) \<Rightarrow> nat \<Rightarrow> ('f, 'o) item list \<Rightarrow>
     (rb_error + byte list \<times> ('f, 'o) item list) option" where
  "pack_each f 0 items = Some (Inr ([], items))"
| "pack_each f (Suc len) [] = Some (Inl ArgError)"
| "pack_each f (Suc len) (from # items) =
     bindO (f from) (\<lambda>bytes. bindO (pack_each f len items) (\<lambda>(rest, items). Some (Inr (bytes @ rest, items))))"

definition pack_ptr :: "('f, 'o) pack_env \<Rightarrow> ('f, 'o) item \<Rightarrow> rb_error + byte list" where
  "pack_ptr env from = bindR (or_nil 0 (\<lambda>v. bindR (StringValue env v) (\<lambda>s. Inr (address env s))) from) (\<lambda>t. Inr (mem_image 8 t))"

text \<open>The element directives of \<^verbatim>\<open>pack\<close>. The division inside \<^verbatim>\<open>w\<close> has two big operands and coerces nothing.\<close>

definition pack_element :: "('f, 'o) pack_env \<Rightarrow> char \<Rightarrow> bool \<Rightarrow> (('f, 'o) item \<Rightarrow> (rb_error + byte list) option) option" where
  "pack_element env type natint =
     (if type \<in> set ''cC'' then Some (Some \<circ> pack_c env)
      else if type \<in> set ''sS'' then Some (Some \<circ> pack_s env)
      else if type \<in> set ''iI'' then Some (Some \<circ> pack_i env)
      else if type \<in> set ''lL'' then Some (Some \<circ> pack_l env natint)
      else if type \<in> set ''qQ'' then Some (Some \<circ> pack_q env)
      else if type = CHR ''n'' then Some (Some \<circ> pack_n env)
      else if type = CHR ''N'' then Some (Some \<circ> pack_N env)
      else if type = CHR ''v'' then Some (Some \<circ> pack_v env)
      else if type = CHR ''V'' then Some (Some \<circ> pack_V env)
      else if type \<in> set ''fFeg'' then Some (Some \<circ> pack_f env type)
      else if type \<in> set ''dDEG'' then Some (Some \<circ> pack_d env type)
      else if type = CHR ''U'' then Some (Some \<circ> pack_U env)
      else if type = CHR ''w''
      then Some (pack_w (to_long env) (\<lambda>_ v. (v, v)) NIL_P)
      else None)"

section \<open>Array#pack\<close>

text \<open>\<^verbatim>\<open>rb_str_buf_cat\<close> raises for a negative length.\<close>

definition buf_cat :: "byte list \<Rightarrow> byte list \<Rightarrow> int \<Rightarrow> rb_error + byte list" where
  "buf_cat res ptr len = (if len < 0 then Inl ArgError else Inr (res @ take (nat len) ptr))"

definition grow :: "byte list \<Rightarrow> byte \<Rightarrow> int \<Rightarrow> rb_error + byte list" where
  "grow res c len = (if len < 0 then Inl ArgError else Inr (res @ replicate (nat len) c))"

definition shrink :: "byte list \<Rightarrow> int \<Rightarrow> rb_error + byte list" where
  "shrink res len =
     (let plen = int (length res)
      in if plen < len then Inl ArgError
         else if plen - len > plen then Inl OutOfBounds
         else Inr (take (nat (plen - len)) res))"

definition pack_at :: "byte list \<Rightarrow> int \<Rightarrow> rb_error + byte list" where
  "pack_at res len =
     (let len = int64 (len - int (length res))
      in if len > 0 then grow res 0 len
         else let len = int64 (- len) in if len > 0 then shrink res len else Inr res)"

definition pack_a :: "byte list \<Rightarrow> byte \<Rightarrow> byte list \<Rightarrow> int \<Rightarrow> rb_error + byte list" where
  "pack_a res pad ptr len =
     (let plen = int (length ptr)
      in if plen \<ge> len then buf_cat res ptr len else grow (res @ ptr) pad (len - plen))"

text \<open>The directives on one string; a count of \<^verbatim>\<open>*\<close> is the length of the string.\<close>

definition pack_string :: "('f, 'o) pack_env \<Rightarrow> char \<Rightarrow> int \<Rightarrow> bool \<Rightarrow> byte list \<Rightarrow> ('f, 'o) item \<Rightarrow> rb_error + byte list" where
  "pack_string env type len star res from =
     bindR (or_nil [] (StringValue env) from) (\<lambda>ptr.
       let len = (if star then int (length ptr) else len); cat = (\<lambda>r. bindR r (\<lambda>bytes. Inr (res @ bytes)))
       in if type = CHR ''A'' then pack_a res 0x20 ptr len
          else if type = CHR ''b'' then cat (pack_b ptr len)
          else if type = CHR ''B'' then cat (pack_B ptr len)
          else if type = CHR ''h'' then cat (pack_h ptr len)
          else if type = CHR ''H'' then cat (pack_H ptr len)
          else pack_a res 0 ptr len)"

record ('f, 'o) pack_state =
  res :: "byte list"
  items :: "('f, 'o) item list"
  associates :: "('f, 'o) item list"

definition on_next ::
    "('f, 'o) pack_state \<Rightarrow> (('f, 'o) item \<Rightarrow> rb_error + byte list) \<Rightarrow> (rb_error + ('f, 'o) pack_state) option" where
  "on_next st f =
     (case items st of
        [] \<Rightarrow> Some (Inl ArgError)
      | from # rest \<Rightarrow> Some (bindR (f from) (\<lambda>r. Inr (st\<lparr>res := r, items := rest\<rparr>))))"

definition pack_pointers :: "('f, 'o) pack_env \<Rightarrow> nat \<Rightarrow> ('f, 'o) pack_state \<Rightarrow> (rb_error + ('f, 'o) pack_state) option" where
  "pack_pointers env len st =
     bindO (pack_each (Some \<circ> pack_ptr env) len (items st)) (\<lambda>(bytes, rest).
       Some (Inr (st\<lparr>res := res st @ bytes, items := rest, associates := associates st @ take len (items st)\<rparr>)))"

text \<open>
  One directive. \<^verbatim>\<open>P\<close> looks at the next element before it is known to exist; \<^verbatim>\<open>u\<close> and \<^verbatim>\<open>m\<close> take the count as the line
  length.
\<close>

definition pack_directive ::
    "('f, 'o) pack_env \<Rightarrow> char \<Rightarrow> bool \<Rightarrow> int \<Rightarrow> bool \<Rightarrow> ('f, 'o) pack_state \<Rightarrow> (rb_error + ('f, 'o) pack_state) option" where
  "pack_directive env type natint len star st =
     (let set_res = (\<lambda>r. Some (bindR r (\<lambda>bytes. Inr (st\<lparr>res := bytes\<rparr>))))
      in if type \<in> set ''AaZBbHh'' then on_next st (pack_string env type len star (res st))
         else if type = CHR ''x'' then set_res (grow (res st) 0 len)
         else if type = CHR ''X'' then set_res (shrink (res st) len)
         else if type = CHR ''@'' then set_res (pack_at (res st) len)
         else if type = CHR ''%'' then Some (Inl ArgError)
         else if type \<in> set ''um''
         then on_next st (\<lambda>from. bindR (StringValue env from) (\<lambda>ptr. Inr (res st @ pack_um (type = CHR ''u'') (nat len) ptr)))
         else if type = CHR ''M''
         then on_next st (\<lambda>from. bindR (rb_obj_as_string env from) (\<lambda>s.
                bindR (qpencode s (if len \<le> 1 then 72 else len)) (\<lambda>bytes. Inr (res st @ bytes))))
         else if type = CHR ''P''
         then (case items st of
                 [] \<Rightarrow> Some (Inl OutOfBounds)
               | from # _ \<Rightarrow>
                   bindO (Some (or_nil () (\<lambda>v. bindR (StringValue env v) (\<lambda>s.
                       if int (length s) < len then Inl ArgError else Inr ())) from)) (\<lambda>_. pack_pointers env 1 st))
         else if type = CHR ''p'' then pack_pointers env (nat len) st
         else (case pack_element env type natint of
                 None \<Rightarrow> Some (Inr st)
               | Some f \<Rightarrow>
                   bindO (pack_each f (nat len) (items st)) (\<lambda>(bytes, rest).
                     Some (Inr (st\<lparr>res := res st @ bytes, items := rest\<rparr>)))))"

section \<open>The format string\<close>

text \<open>\<^verbatim>\<open>strchr\<close> finds the terminator too.\<close>

definition strchr :: "string \<Rightarrow> char \<Rightarrow> bool" where
  "strchr s c \<longleftrightarrow> c \<in> set s \<or> c = CHR 0x00"

definition ISDIGIT :: "char \<Rightarrow> bool" where
  "ISDIGIT c \<longleftrightarrow> digit_of c < 10"

text \<open>The modifier behind a type: whether it asks for native size.\<close>

definition natint_mod :: "char \<Rightarrow> string \<Rightarrow> rb_error + bool \<times> string" where
  "natint_mod type p =
     (if deref p = CHR ''_'' \<or> deref p = CHR ''!''
      then if strchr ''sSiIlL'' type then Inr (True, tl p) else Inl ArgError
      else Inr (False, p))"

definition pack_count :: "char \<Rightarrow> nat \<Rightarrow> string \<Rightarrow> int \<times> bool \<times> string" where
  "pack_count type n p =
     (if deref p = CHR ''*'' then ((if strchr ''@Xxu'' type then 0 else int n), True, tl p)
      else if ISDIGIT (deref p) then let (len, p) = strtoul p 10 in (sint len, False, p)
      else (1, False, p))"

definition skip_comment :: "string \<Rightarrow> string" where
  "skip_comment p = dropWhile (\<lambda>c. c \<noteq> CHR 0x0A) p"

lemma length_strtoul: "length (snd (strtoul p base)) \<le> length p"
proof -
  have "length (snd (read_sign s)) \<le> length s" for s by (simp add: read_sign_def)
  then show ?thesis
    by (auto simp: strtoul_def Let_def split: prod.splits)
      (smt (verit) diff_le_self le_trans length_dropWhile_le length_tl snd_conv)+
qed

lemma length_natint_mod: "natint_mod type p = Inr (b, p') \<Longrightarrow> length p' \<le> length p"
  by (auto simp: natint_mod_def split: if_splits)

lemma length_pack_count: "pack_count type n p = (len, star, p') \<Longrightarrow> length p' \<le> length p"
  using length_strtoul [of p 10] by (auto simp: pack_count_def split: if_splits prod.splits)

lemma length_skip_comment: "length (skip_comment p) \<le> length p"
  by (simp add: skip_comment_def length_dropWhile_le)

lemma bindO_simps [simp]: "bindO None k = None" "bindO (Some (Inl e)) k = Some (Inl e)" "bindO (Some (Inr x)) k = k x"
  by (simp_all add: bindO_def)

lemma bindO_cong [fundef_cong]:
  "m = m' \<Longrightarrow> (\<And>x. m' = Some (Inr x) \<Longrightarrow> k x = k' x) \<Longrightarrow> bindO m k = bindO m' k'"
  by (auto simp: bindO_def split: option.splits sum.splits)

function pack_loop :: "('f, 'o) pack_env \<Rightarrow> string \<Rightarrow> ('f, 'o) pack_state \<Rightarrow> (rb_error + ('f, 'o) pack_state) option" where
  "pack_loop env [] st = Some (Inr st)"
| "pack_loop env (type # p) st =
     (if ISSPACE type then pack_loop env p st
      else if type = CHR ''#'' then pack_loop env (skip_comment p) st
      else bindO (Some (natint_mod type p)) (\<lambda>(natint, p1).
           let (len, star, p2) = pack_count type (length (items st)) p1
           in bindO (pack_directive env type natint len star st) (pack_loop env p2)))"
  by pat_completeness auto
termination
proof (relation "measure (\<lambda>(_, p, _). length p)", goal_cases)
  case (3 env type p st)
  then show ?case using length_skip_comment [of p] by simp
next
  case (4 env type p st x natint p1 y len z star p2 st')
  then have "length p1 \<le> length p" "length p2 \<le> length p1"
    using length_natint_mod [of type p natint p1] length_pack_count [of type "length (items st)" p1 len star p2] by auto
  then show ?case by simp
qed simp_all

definition pack_pack :: "('f, 'o) pack_env \<Rightarrow> ('f, 'o) item list \<Rightarrow> string \<Rightarrow> (rb_error + byte list \<times> ('f, 'o) item list) option" where
  "pack_pack env ary fmt =
     bindO (pack_loop env fmt \<lparr>res = [], items = ary, associates = []\<rparr>) (\<lambda>st. Some (Inr (res st, associates st)))"

section \<open>String#unpack\<close>

text \<open>
  The position \<^verbatim>\<open>s\<close> is a number that the directives \<^verbatim>\<open>@\<close>, \<^verbatim>\<open>x\<close>, \<^verbatim>\<open>X\<close> and \<^verbatim>\<open>u\<close> can move outside of the string; a read there is
  out of bounds.
\<close>

definition avail :: "byte list \<Rightarrow> int \<Rightarrow> int" where
  "avail str s = int (length str) - s"

definition suffix_at :: "byte list \<Rightarrow> int \<Rightarrow> rb_error + byte list" where
  "suffix_at str s = (if 0 \<le> s \<and> s \<le> int (length str) then Inr (drop (nat s) str) else Inl OutOfBounds)"

definition bytes_at :: "byte list \<Rightarrow> int \<Rightarrow> int \<Rightarrow> rb_error + byte list" where
  "bytes_at str s n =
     (if n \<le> 0 then Inr []
      else if s < 0 \<or> s + n > int (length str) then Inl OutOfBounds
      else Inr (take (nat n) (drop (nat s) str)))"

text \<open>\<^verbatim>\<open>rb_str_new\<close> raises for a negative length.\<close>

definition unpack_a :: "(byte \<Rightarrow> bool) \<Rightarrow> byte list \<Rightarrow> int \<Rightarrow> int \<Rightarrow> rb_error + ('f, 'o) item list \<times> int" where
  "unpack_a strip str s len =
     (let len = (if len > avail str s then avail str s else len)
      in if len < 0 then Inl ArgError
         else bindR (bytes_at str s len) (\<lambda>b. Inr ([Other (Str (rev (dropWhile strip (rev b))))], s + len)))"

definition unpack_digits ::
    "(nat \<Rightarrow> byte list \<Rightarrow> rb_error + byte list \<times> byte list) \<Rightarrow> int \<Rightarrow> byte list \<Rightarrow> int \<Rightarrow> bool \<Rightarrow> int \<Rightarrow>
     rb_error + ('f, 'o) item list \<times> int" where
  "unpack_digits dec per str s star len =
     (let len = (if star \<or> len > avail str s * per then avail str s * per else len)
      in if len < 0 then Inl ArgError
         else if len = 0 then Inr ([Other (Str [])], s)
         else bindR (suffix_at str s) (\<lambda>x. bindR (dec (nat len) x) (\<lambda>(t, r).
                Inr ([Other (Str t)], s + int (length x - length r)))))"

text \<open>
  \<^verbatim>\<open>PACK_LENGTH_ADJUST\<close>: clip the count and note how many elements are missing, in an \<^verbatim>\<open>int\<close>. The size is an \<^verbatim>\<open>int\<close> for
  all types but the quads, for which it is unsigned and so are the division and the comparison.
\<close>

definition length_adjust :: "bool \<Rightarrow> int \<Rightarrow> int \<Rightarrow> bool \<Rightarrow> int \<Rightarrow> int \<times> int" where
  "length_adjust quad sz av star len =
     (let n = (if quad then (av mod 2 ^ 64) div sz else cdiv av sz)
      in if (if quad then len mod 2 ^ 64 > n else len > n)
         then (n, if star then 0 else int32 (len - n))
         else (len, 0))"

fun read_items :: "(byte list \<Rightarrow> ('f, 'o) item) \<Rightarrow> int \<Rightarrow> nat \<Rightarrow> byte list \<Rightarrow> int \<Rightarrow> rb_error + ('f, 'o) item list \<times> int" where
  "read_items f sz 0 str s = Inr ([], s)"
| "read_items f sz (Suc n) str s =
     bindR (bytes_at str s sz) (\<lambda>b. bindR (read_items f sz n str (s + sz)) (\<lambda>(vs, s). Inr (f b # vs, s)))"

text \<open>\<^verbatim>\<open>PACK_ITEM_ADJUST\<close> appends the missing elements, in a loop that ends when \<^verbatim>\<open>tmp\<close> is 0.\<close>

definition unpack_items ::
    "bool \<Rightarrow> bool \<Rightarrow> int \<Rightarrow> (byte list \<Rightarrow> ('f, 'o) item) \<Rightarrow> byte list \<Rightarrow> int \<Rightarrow> bool \<Rightarrow> int \<Rightarrow>
     rb_error + ('f, 'o) item list \<times> int" where
  "unpack_items quad adjust sz f str s star len =
     (let (len, tmp) = length_adjust quad sz (avail str s) star len
      in bindR (read_items f sz (nat len) str s) (\<lambda>(vs, s).
           Inr (vs @ (if adjust then replicate (nat (tmp mod 2 ^ 32)) (Other Nil) else []), s)))"

definition unpack_c :: "byte list \<Rightarrow> ('f, 'o) item" where
  "unpack_c b = (let c = sint (hd b); c = (if c > 127 then c - 256 else c) in LONG2FIX (word_of_int c))"

definition unpack_C :: "byte list \<Rightarrow> ('f, 'o) item" where
  "unpack_C b = LONG2FIX (ucast (hd b))"

definition unpack_s :: "byte list \<Rightarrow> ('f, 'o) item" where
  "unpack_s b = LONG2FIX (scast (ucast (word_at b) :: 16 word))"

definition unpack_S :: "byte list \<Rightarrow> ('f, 'o) item" where
  "unpack_S b = LONG2FIX (word_at b)"

definition unpack_i :: "byte list \<Rightarrow> ('f, 'o) item" where
  "unpack_i b = rb_int2inum (scast (ucast (word_at b) :: u32))"

definition unpack_I :: "byte list \<Rightarrow> ('f, 'o) item" where
  "unpack_I b = rb_uint2inum (word_at b)"

definition unpack_l :: "byte list \<Rightarrow> ('f, 'o) item" where
  "unpack_l b = rb_int2inum (word_at b)"

definition unpack_L :: "byte list \<Rightarrow> ('f, 'o) item" where
  "unpack_L b = rb_uint2inum (word_at b)"

definition unpack_q :: "byte list \<Rightarrow> ('f, 'o) item" where
  "unpack_q b = rb_quad_unpack (word_at b) True"

definition unpack_Q :: "byte list \<Rightarrow> ('f, 'o) item" where
  "unpack_Q b = rb_quad_unpack (word_at b) False"

definition unpack_n :: "byte list \<Rightarrow> ('f, 'o) item" where
  "unpack_n b = rb_uint2inum (swaps (word_at b))"

definition unpack_N :: "byte list \<Rightarrow> ('f, 'o) item" where
  "unpack_N b = rb_uint2inum (swapl (push_bit 32 (word_at b)))"

definition unpack_v :: "byte list \<Rightarrow> ('f, 'o) item" where
  "unpack_v b = rb_uint2inum (word_at b)"

definition unpack_V :: "byte list \<Rightarrow> ('f, 'o) item" where
  "unpack_V b = rb_uint2inum (word_at b)"

definition unpack_f :: "('f, 'o) pack_env \<Rightarrow> char \<Rightarrow> byte list \<Rightarrow> ('f, 'o) item" where
  "unpack_f env type b =
     (let f = ucast (word_at b)
      in Float (rb_float_new env (to_double env (if type = CHR ''g'' then swapf env f else f))))"

definition unpack_d :: "('f, 'o) pack_env \<Rightarrow> char \<Rightarrow> byte list \<Rightarrow> ('f, 'o) item" where
  "unpack_d env type b =
     (let d = word_at b in Float (rb_float_new env (if type = CHR ''G'' then swapl d else d)))"

text \<open>The decoders of elements of a fixed size: size, whether missing elements are appended, and the conversion.\<close>

definition unpack_element :: "('f, 'o) pack_env \<Rightarrow> char \<Rightarrow> bool \<Rightarrow> (int \<times> bool \<times> (byte list \<Rightarrow> ('f, 'o) item)) option" where
  "unpack_element env type natint =
     (let long = (if natint then 8 else 4)
      in if type = CHR ''c'' then Some (1, True, unpack_c)
         else if type = CHR ''C'' then Some (1, True, unpack_C)
         else if type = CHR ''s'' then Some (2, True, unpack_s)
         else if type = CHR ''S'' then Some (2, True, unpack_S)
         else if type = CHR ''i'' then Some (4, True, unpack_i)
         else if type = CHR ''I'' then Some (4, True, unpack_I)
         else if type = CHR ''l'' then Some (long, True, unpack_l)
         else if type = CHR ''L'' then Some (long, True, unpack_L)
         else if type = CHR ''q'' then Some (8, True, unpack_q)
         else if type = CHR ''Q'' then Some (8, False, unpack_Q)
         else if type = CHR ''n'' then Some (2, True, unpack_n)
         else if type = CHR ''N'' then Some (4, True, unpack_N)
         else if type = CHR ''v'' then Some (2, True, unpack_v)
         else if type = CHR ''V'' then Some (4, True, unpack_V)
         else if type \<in> set ''fFeg'' then Some (4, True, unpack_f env type)
         else if type \<in> set ''dDEG'' then Some (8, True, unpack_d env type)
         else None)"

lemma utf8_to_uv_length: "0 < snd (utf8_to_uv c p)" "snd (utf8_to_uv c p) \<le> Suc (length p)"
  by (auto simp: utf8_to_uv_def Let_def utf8_len_def)

function unpack_U_loop :: "int \<Rightarrow> byte list \<Rightarrow> ('f, 'o) item list \<times> byte list" where
  "unpack_U_loop len s =
     (if len \<le> 0 \<or> s = [] then ([], s)
      else let (l, alen) = utf8_to_uv (hd s) (tl s); (vs, r) = unpack_U_loop (len - 1) (drop alen s)
           in (rb_uint2inum l # vs, r))"
  by auto
termination
proof (relation "measure (\<lambda>(_, s). length s)", goal_cases)
  case (2 len s x l alen)
  then have "alen = snd (utf8_to_uv (hd s) (tl s))" by (metis snd_conv)
  with 2 show ?case using utf8_to_uv_length(1) [of "hd s" "tl s"] by (cases s) auto
qed simp

definition unpack_U :: "byte list \<Rightarrow> int \<Rightarrow> int \<Rightarrow> rb_error + ('f, 'o) item list \<times> int" where
  "unpack_U str s len =
     (let len = (if len > avail str s then avail str s else len)
      in if len \<le> 0 then Inr ([], s)
         else bindR (suffix_at str s) (\<lambda>x. let (vs, r) = unpack_U_loop len x in Inr (vs, s + int (length x - length r))))"

definition unpack_uu :: "byte list \<Rightarrow> int \<Rightarrow> rb_error + ('f, 'o) item list \<times> int" where
  "unpack_uu str s =
     (let cap = cdiv (avail str s * 3) 4
      in if cap < 0 then Inl ArgError
         else if avail str s \<le> 0 then Inr ([Other (Str [])], s)
         else bindR (suffix_at str s) (\<lambda>x.
                let (out, adv) = unpack_u (nat cap) 0 x
                in if length out > nat cap then Inl OutOfBounds else Inr ([Other (Str out)], s + int adv)))"

definition unpack_base64 :: "byte list \<Rightarrow> int \<Rightarrow> rb_error + ('f, 'o) item list \<times> int" where
  "unpack_base64 str s =
     (let cap = cdiv (avail str s * 3) 4
      in if cap < 0 then Inl ArgError
         else bindR (suffix_at str s) (\<lambda>x. bindR (unpack_m x 0 0) (\<lambda>(out, r).
                if length out > nat cap then Inl OutOfBounds
                else Inr ([Other (Str out)], s + int (length x - length r)))))"

definition unpack_qp :: "byte list \<Rightarrow> int \<Rightarrow> rb_error + ('f, 'o) item list \<times> int" where
  "unpack_qp str s =
     (if avail str s < 0 then Inl ArgError
      else bindR (suffix_at str s) (\<lambda>x.
             let (out, r) = unpack_M x
             in if length out > length x then Inl OutOfBounds
                else Inr ([Other (Str out)], s + int (length x - length r))))"

text \<open>A pointer in the string is followed when it belongs to a string associated with it.\<close>

definition associated :: "('f, 'o) pack_env \<Rightarrow> ('f, 'o) item list option \<Rightarrow> u64 \<Rightarrow> rb_error + byte list" where
  "associated env assoc t =
     (case assoc of
        None \<Rightarrow> Inl ArgError
      | Some a \<Rightarrow>
          (case List.find (\<lambda>v. case v of Other (Str b) \<Rightarrow> address env b = t | _ \<Rightarrow> False) a of
             Some (Other (Str b)) \<Rightarrow> Inr b
           | _ \<Rightarrow> Inl ArgError))"

text \<open>The sizes are compared as unsigned numbers.\<close>

definition unpack_P ::
    "('f, 'o) pack_env \<Rightarrow> ('f, 'o) item list option \<Rightarrow> byte list \<Rightarrow> int \<Rightarrow> int \<Rightarrow> rb_error + ('f, 'o) item list \<times> int" where
  "unpack_P env assoc str s len =
     (if 8 \<le> avail str s mod 2 ^ 64
      then bindR (bytes_at str s 8) (\<lambda>b.
             let t = word_at b
             in if t \<noteq> 0
                then bindR (associated env assoc t) (\<lambda>p.
                       let len = (if len > int (length p) then int (length p) else len)
                       in if len < 0 then Inl ArgError else Inr ([Other (Str (take (nat len) p))], s + 8))
                else Inr ([Other Nil], s + 8))
      else Inr ([], s))"

fun unpack_p_loop ::
    "('f, 'o) pack_env \<Rightarrow> ('f, 'o) item list option \<Rightarrow> nat \<Rightarrow> byte list \<Rightarrow> int \<Rightarrow> rb_error + ('f, 'o) item list \<times> int" where
  "unpack_p_loop env assoc 0 str s = Inr ([], s)"
| "unpack_p_loop env assoc (Suc n) str s =
     (if avail str s mod 2 ^ 64 < 8 then Inr ([], s)
      else bindR (bytes_at str s 8) (\<lambda>b.
           bindR (if word_at b \<noteq> 0
                  then bindR (associated env assoc (word_at b)) (\<lambda>p. Inr (Other (Str (takeWhile (\<lambda>c. c \<noteq> 0) p))))
                  else Inr (Other Nil)) (\<lambda>v.
           bindR (unpack_p_loop env assoc n str (s + 8)) (\<lambda>(vs, s). Inr (v # vs, s)))))"

definition unpack_p ::
    "('f, 'o) pack_env \<Rightarrow> ('f, 'o) item list option \<Rightarrow> byte list \<Rightarrow> int \<Rightarrow> int \<Rightarrow> rb_error + ('f, 'o) item list \<times> int" where
  "unpack_p env assoc str s len =
     (let n = avail str s mod 2 ^ 64 div 8
      in unpack_p_loop env assoc (nat (if len mod 2 ^ 64 > n then n else len)) str s)"

definition unpack_ber :: "byte list \<Rightarrow> int \<Rightarrow> int \<Rightarrow> rb_error + ('f, 'o) item list \<times> int" where
  "unpack_ber str s len =
     (if len \<le> 0 \<or> avail str s \<le> 0 then Inr ([], s)
      else bindR (suffix_at str s) (\<lambda>x. bindR (unpack_w (\<lambda>v _. v) (\<lambda>v _. v) (\<lambda>b _. Bignum b) (\<lambda>b _. Bignum b) len 0 x) (\<lambda>(vs, r).
             Inr (vs, s + int (length x - length r)))))"

definition unpack_directive ::
    "('f, 'o) pack_env \<Rightarrow> ('f, 'o) item list option \<Rightarrow> byte list \<Rightarrow> char \<Rightarrow> bool \<Rightarrow> int \<Rightarrow> bool \<Rightarrow> int \<Rightarrow>
     rb_error + ('f, 'o) item list \<times> int" where
  "unpack_directive env assoc str type natint len star s =
     (if type = CHR ''%'' then Inl ArgError
      else if type = CHR ''A'' then unpack_a (\<lambda>c. c = 0x20 \<or> c = 0) str s len
      else if type = CHR ''Z'' then unpack_a (\<lambda>c. c = 0) str s len
      else if type = CHR ''a'' then unpack_a (\<lambda>c. False) str s len
      else if type = CHR ''b'' then unpack_digits unpack_b 8 str s star len
      else if type = CHR ''B'' then unpack_digits unpack_B 8 str s star len
      else if type = CHR ''h'' then unpack_digits unpack_h 2 str s star len
      else if type = CHR ''H'' then unpack_digits unpack_H 2 str s star len
      else if type = CHR ''U'' then unpack_U str s len
      else if type = CHR ''u'' then unpack_uu str s
      else if type = CHR ''m'' then unpack_base64 str s
      else if type = CHR ''M'' then unpack_qp str s
      else if type = CHR ''@'' then Inr ([], len)
      else if type = CHR ''X'' then if len > s then Inl ArgError else Inr ([], s - len)
      else if type = CHR ''x'' then if len > avail str s then Inl ArgError else Inr ([], s + len)
      else if type = CHR ''P'' then unpack_P env assoc str s len
      else if type = CHR ''p'' then unpack_p env assoc str s len
      else if type = CHR ''w'' then unpack_ber str s len
      else (case unpack_element env type natint of
              None \<Rightarrow> Inr ([], s)
            | Some (sz, adjust, f) \<Rightarrow> unpack_items (type \<in> set ''qQ'') adjust sz f str s star len))"

definition unpack_count :: "char \<Rightarrow> int \<Rightarrow> string \<Rightarrow> int \<times> bool \<times> string" where
  "unpack_count type av p =
     (if p = [] then (1, False, p)
      else if deref p = CHR ''*'' then (av, True, tl p)
      else if ISDIGIT (deref p) then let (len, p) = strtoul p 10 in (sint len, False, p)
      else ((if type \<noteq> CHR ''@'' then 1 else 0), False, p))"

lemma length_unpack_count: "unpack_count type av p = (len, star, p') \<Longrightarrow> length p' \<le> length p"
  using length_strtoul [of p 10] by (auto simp: unpack_count_def split: if_splits prod.splits)

function unpack_loop ::
    "('f, 'o) pack_env \<Rightarrow> ('f, 'o) item list option \<Rightarrow> byte list \<Rightarrow> string \<Rightarrow> int \<Rightarrow> rb_error + ('f, 'o) item list" where
  "unpack_loop env assoc str [] s = Inr []"
| "unpack_loop env assoc str (type # p) s =
     (if ISSPACE type then unpack_loop env assoc str p s
      else if type = CHR ''#'' then unpack_loop env assoc str (skip_comment p) s
      else bindR (natint_mod type p) (\<lambda>(natint, p1).
           let (len, star, p2) = unpack_count type (avail str s) p1
           in bindR (unpack_directive env assoc str type natint len star s) (\<lambda>(vs, s).
              bindR (unpack_loop env assoc str p2 s) (\<lambda>ws. Inr (vs @ ws)))))"
  by pat_completeness auto
termination
proof (relation "measure (\<lambda>(_, _, _, p, _). length p)", goal_cases)
  case (3 env assoc str type p s)
  then show ?case using length_skip_comment [of p] by simp
next
  case (4 env assoc str type p s x natint p1 y len z star p2)
  then have "length p1 \<le> length p" "length p2 \<le> length p1"
    using length_natint_mod [of type p natint p1] length_unpack_count [of type "avail str s" p1 len star p2] by auto
  then show ?case by simp
qed simp_all

definition pack_unpack ::
    "('f, 'o) pack_env \<Rightarrow> ('f, 'o) item list option \<Rightarrow> byte list \<Rightarrow> string \<Rightarrow> rb_error + ('f, 'o) item list" where
  "pack_unpack env assoc str fmt = unpack_loop env assoc str fmt 0"

declare pack_loop.simps(2) [simp del] unpack_loop.simps(2) [simp del] unpack_U_loop.simps [simp del]

end
