(* ===== verification/Pack_Props.thy ===== *)
theory Pack_Props
  imports Pack_Format
begin

text \<open>
  The properties of \<^verbatim>\<open>Array#pack\<close> and \<^verbatim>\<open>String#unpack\<close>: what was packed is unpacked again, for the string directives
  and for the integers that each integer directive can carry.
\<close>

section \<open>Running a format of one directive\<close>

lemma ISDIGIT_chars: "ISDIGIT c \<Longrightarrow> \<not> ISSPACE c \<and> c \<noteq> CHR ''+'' \<and> c \<noteq> CHR ''-'' \<and> c \<noteq> CHR ''_'' \<and> c \<noteq> CHR ''!'' \<and> c \<noteq> CHR ''*''"
  using ISSPACE_digit [of c] by (auto simp: ISDIGIT_def digit_of_def)

text \<open>A count in a format: digits, of which the value fits a \<^verbatim>\<open>long\<close>, or nothing.\<close>

definition count_text :: "string \<Rightarrow> bool" where
  "count_text ds \<longleftrightarrow> (\<forall>c \<in> set ds. ISDIGIT c) \<and> numeral_val 10 0 ds < 2 ^ 63"

definition count_of :: "string \<Rightarrow> int" where
  "count_of ds = (if ds = [] then 1 else int (numeral_val 10 0 ds))"

lemma strtoul_digits:
  assumes "count_text ds" "ds \<noteq> []"
  shows "strtoul ds 10 = (of_nat (numeral_val 10 0 ds), [])"
proof -
  obtain c cs where ds: "ds = c # cs" using assms(2) by (cases ds) auto
  have c: "\<not> ISSPACE c" "c \<noteq> CHR ''+''" "c \<noteq> CHR ''-''"
    using assms(1) ISDIGIT_chars [of c] by (auto simp: ds count_text_def)
  then have r: "dropWhile ISSPACE ds = ds" "read_sign ds = (True, ds)" by (simp_all add: ds read_sign_def deref_def)
  have w: "takeWhile (\<lambda>c. digit_of c < 10) ds = ds"
    using assms(1) by (auto simp: count_text_def ISDIGIT_def takeWhile_eq_all_conv)
  have "\<not> 2 ^ 64 \<le> numeral_val 10 0 ds" using assms(1) by (simp add: count_text_def)
  with r assms(2) show ?thesis by (simp add: strtoul_def Let_def w)
qed

lemma sint_count: "count_text ds \<Longrightarrow> sint (of_nat (numeral_val 10 0 ds) :: u64) = int (numeral_val 10 0 ds)"
  by (simp add: count_text_def sint_of_nat)

lemma counts:
  assumes "count_text ds"
  shows "pack_count type n ds = (count_of ds, False, [])" "natint_mod type ds = Inr (False, ds)"
    "type \<noteq> CHR ''@'' \<Longrightarrow> unpack_count type av ds = (count_of ds, False, [])"
proof -
  have s: "ds \<noteq> [] \<Longrightarrow> strtoul ds 10 = (of_nat (numeral_val 10 0 ds), [])" by (rule strtoul_digits [OF assms])
  have d: "ISDIGIT (deref ds)" if "ds \<noteq> []"
    using assms that by (cases ds) (auto simp: count_text_def deref_def)
  have n: "\<not> ISDIGIT CHR 0x00" by (simp add: ISDIGIT_def digit_of_def)
  show "pack_count type n ds = (count_of ds, False, [])"
    using s d ISDIGIT_chars [OF d] n sint_count [OF assms]
    by (cases "ds = []") (simp_all add: pack_count_def count_of_def deref_def [of "[]"])
  show "type \<noteq> CHR ''@'' \<Longrightarrow> unpack_count type av ds = (count_of ds, False, [])"
    using s d ISDIGIT_chars [OF d] sint_count [OF assms] by (cases "ds = []") (simp_all add: unpack_count_def count_of_def)
  show "natint_mod type ds = Inr (False, ds)"
    using ISDIGIT_chars [OF d] by (cases "ds = []") (simp_all add: natint_mod_def deref_def [of "[]"])
qed

lemma bindO_pack_end [simp]: "bindO m (pack_loop env []) = m"
  by (auto simp: bindO_def split: option.splits sum.splits)

lemma pack_one:
  assumes "\<not> ISSPACE type" "type \<noteq> CHR ''#''" "count_text ds"
  shows "pack_loop env (type # ds) st = pack_directive env type False (count_of ds) False st"
  using assms(1,2) counts(1,2) [OF assms(3)] by (simp add: pack_loop.simps(2))

lemma unpack_one:
  assumes "\<not> ISSPACE type" "type \<noteq> CHR ''#''" "type \<noteq> CHR ''@''" "count_text ds"
  shows "pack_unpack env assoc str (type # ds) =
    bindR (unpack_directive env assoc str type False (count_of ds) False 0) (\<lambda>(vs, s). Inr vs)"
  using assms(1,2) counts(2,3) [OF assms(4)] assms(3)
  by (simp add: pack_unpack_def unpack_loop.simps(2) case_prod_beta)

lemma pack_star:
  assumes "\<not> ISSPACE type" "type \<noteq> CHR ''#''"
  shows "pack_loop env [type, CHR ''*''] st =
    pack_directive env type False (if strchr ''@Xxu'' type then 0 else int (length (items st))) True st"
  using assms by (simp add: pack_loop.simps(2) natint_mod_def pack_count_def deref_def)

lemma unpack_star:
  assumes "\<not> ISSPACE type" "type \<noteq> CHR ''#''"
  shows "pack_unpack env assoc str [type, CHR ''*''] =
    bindR (unpack_directive env assoc str type False (int (length str)) True 0) (\<lambda>(vs, s). Inr vs)"
  using assms by (simp add: pack_unpack_def unpack_loop.simps(2) case_prod_beta natint_mod_def unpack_count_def deref_def avail_def)

section \<open>Strings\<close>

lemma cdiv_4: "cdiv (int n * 3) 4 = int (n * 3 div 4)"
  by (cases "n = 0") (simp_all add: cdiv_def zdiv_int)

lemma suffix_0 [simp]: "suffix_at str 0 = Inr str" "avail str 0 = int (length str)"
  by (simp_all add: suffix_at_def avail_def)

lemma pack_um_lines: "0 < line_len n" "line_len n mod 3 = 0"
  by (auto simp: line_len_def)

lemma base64_back:
  "\<exists>v. unpack_directive env assoc (pack_um False n s) CHR ''m'' natint len star 0 = Inr ([Other (Str s)], v)"
proof -
  let ?r = "pack_um False n s"
  obtain rest where u: "unpack_m ?r 0 0 = Inr (s, rest)"
    unfolding pack_um_def using unpack_m_lines [OF pack_um_lines, of n s 0 0] by blast
  have "4 * length s \<le> 3 * length ?r"
    using length_encode_lines [OF pack_um_lines(1)] by (simp add: pack_um_def)
  then have "\<not> length s > nat (cdiv (int (length ?r) * 3) 4)" by (simp add: cdiv_4)
  with u show ?thesis by (simp add: unpack_directive_def unpack_base64_def Let_def cdiv_4)
qed

lemma uu_back_directive:
  assumes "line_len n \<le> 63"
  shows "\<exists>v. unpack_directive env assoc (pack_um True n s) CHR ''u'' natint len star 0 = Inr ([Other (Str s)], v)"
proof (cases "s = []")
  case True
  then show ?thesis by (simp add: unpack_directive_def unpack_uu_def pack_um_def Let_def cdiv_def)
next
  case False
  let ?r = "pack_um True n s"
  have le: "4 * length s \<le> 3 * length ?r"
    using length_encode_lines [OF pack_um_lines(1)] by (simp add: pack_um_def)
  then have c: "\<not> length s > nat (cdiv (int (length ?r) * 3) 4)" "0 + length s \<le> length ?r * 3 div 4" by (simp_all add: cdiv_4)
  have "?r \<noteq> []" using le False by auto
  moreover have "unpack_u (length ?r * 3 div 4) 0 ?r = (s, length ?r)"
    unfolding pack_um_def by (rule unpack_u_lines [OF pack_um_lines(1) assms]) (use c in \<open>simp add: pack_um_def\<close>)
  ultimately show ?thesis using c by (simp add: unpack_directive_def unpack_uu_def Let_def cdiv_4)
qed

lemma qp_back_directive:
  assumes "unpack_M r = (s, [])"
  shows "\<exists>v. unpack_directive env assoc r CHR ''M'' natint len star 0 = Inr ([Other (Str s)], v)"
  using unpack_M_length [of r] assms by (simp add: unpack_directive_def unpack_qp_def)

lemma raw_back: "unpack_directive env assoc s CHR ''a'' natint (int (length s)) star 0 = Inr ([Other (Str s)], int (length s))"
  by (simp add: unpack_directive_def unpack_a_def bytes_at_def Let_def)

lemma unpack_digits_star:
  assumes "\<exists>t. dec (per * length s) s = Inr (t, []) \<and> enc t (int (length t)) = Inr s" "\<And>x. dec 0 x = Inr ([], x)" "0 < per"
  shows "\<exists>t. (\<exists>v. unpack_digits dec (int per) s 0 True len = Inr ([Other (Str t)], v)) \<and> enc t (int (length t)) = Inr s"
proof -
  obtain t where t: "dec (per * length s) s = Inr (t, [])" "enc t (int (length t)) = Inr s" using assms(1) by blast
  then have "s = [] \<Longrightarrow> t = []" using assms(2) [of "[]"] by simp
  moreover have "int (length s) * int per = int (per * length s)" by simp
  ultimately have "\<exists>v. unpack_digits dec (int per) s 0 True len = Inr ([Other (Str t)], v)"
    using t(1) assms(3) unfolding unpack_digits_def suffix_0 by (cases "s = []") (simp_all add: Let_def del: of_nat_mult)
  with t(2) show ?thesis by blast
qed

lemma digits_back:
  assumes "type \<in> set ''bBhH''"
  shows "\<exists>t. (\<exists>v. unpack_directive env assoc s type natint len True 0 = Inr ([Other (Str t)], v)) \<and>
    pack_string env type n True [] (Other (Str t)) = Inr s"
proof -
  note u = unpack_digits_star [of unpack_b 8 s pack_b len, OF digit_strings_back(1)]
    unpack_digits_star [of unpack_B 8 s pack_B len, OF digit_strings_back(2)]
    unpack_digits_star [of unpack_h 2 s pack_h len, OF digit_strings_back(3)]
    unpack_digits_star [of unpack_H 2 s pack_H len, OF digit_strings_back(4)]
  have u: "\<exists>t. (\<exists>v. unpack_digits unpack_b 8 s 0 True len = Inr ([Other (Str t)], v)) \<and> pack_b t (int (length t)) = Inr s"
    "\<exists>t. (\<exists>v. unpack_digits unpack_B 8 s 0 True len = Inr ([Other (Str t)], v)) \<and> pack_B t (int (length t)) = Inr s"
    "\<exists>t. (\<exists>v. unpack_digits unpack_h 2 s 0 True len = Inr ([Other (Str t)], v)) \<and> pack_h t (int (length t)) = Inr s"
    "\<exists>t. (\<exists>v. unpack_digits unpack_H 2 s 0 True len = Inr ([Other (Str t)], v)) \<and> pack_H t (int (length t)) = Inr s"
    using u by (simp_all add: unpack_b_def unpack_B_def unpack_h_def unpack_H_def)
  consider "type = CHR ''b''" | "type = CHR ''B''" | "type = CHR ''h''" | "type = CHR ''H''" using assms by auto
  then show ?thesis
    by cases (insert u, simp_all add: unpack_directive_def pack_string_def or_nil_def NIL_P_def StringValue_def, fastforce+)
qed

text \<open>
  C6. String directives lose nothing. A string packed with base64 (\<^verbatim>\<open>m\<close>) or quoted-printable (\<^verbatim>\<open>M\<close>), with any count,
  or with uuencode (\<^verbatim>\<open>u\<close>) for lines of at most 63 bytes, is unpacked by the same format to the same bytes: the encoder
  does not overrun its buffer, the decoder does not read or write out of bounds. Packed as \<^verbatim>\<open>a*\<close> it is unchanged.
  Conversely the bit and hexadecimal strings that \<^verbatim>\<open>unpack\<close> makes with \<^verbatim>\<open>b*\<close>, \<^verbatim>\<open>B*\<close>, \<^verbatim>\<open>h*\<close> or \<^verbatim>\<open>H*\<close> pack to the original bytes.
\<close>

theorem pack_strings_round_trip:
  fixes env :: "('f, 'o) pack_env"
  assumes "count_text ds" "type \<in> set ''mMa'' \<or> type = CHR ''u'' \<and> line_len (nat (count_of ds)) \<le> 63"
    "fmt = (if type = CHR ''a'' then ''a*'' else type # ds)" "digit_type \<in> set ''bBhH''"
  shows "(\<exists>r. pack_pack env [Other (Str s)] fmt = Some (Inr (r, [])) \<and> pack_unpack env assoc r fmt = Inr [Other (Str s)]) \<and>
    (\<exists>t. pack_unpack env assoc s [digit_type, CHR ''*''] = Inr [Other (Str t)] \<and>
         pack_pack env [Other (Str t)] [digit_type, CHR ''*''] = Some (Inr (s, [])))"
proof
  let ?st = "\<lparr>res = [], items = [Other (Str s)], associates = []\<rparr> :: ('f, 'o) pack_state"
  have sv: "StringValue env (Other (Str s)) = Inr s" "rb_obj_as_string env (Other (Str s)) = Inr s" for s
    by (simp_all add: StringValue_def rb_obj_as_string_def)
  consider "type = CHR ''m''" | "type = CHR ''M''" | "type = CHR ''a''" | "type = CHR ''u''" "line_len (nat (count_of ds)) \<le> 63"
    using assms(2) by auto
  then show "\<exists>r. pack_pack env [Other (Str s)] fmt = Some (Inr (r, [])) \<and> pack_unpack env assoc r fmt = Inr [Other (Str s)]"
  proof cases
    case 1
    then have "pack_pack env [Other (Str s)] fmt = Some (Inr (pack_um False (nat (count_of ds)) s, []))"
      by (simp add: assms(3) pack_pack_def pack_one assms(1) ISSPACE_def pack_directive_def on_next_def sv)
    moreover have "pack_unpack env assoc (pack_um False (nat (count_of ds)) s) fmt = Inr [Other (Str s)]"
      using base64_back [of env assoc "nat (count_of ds)" s False "count_of ds" False] 1
      by (auto simp: assms(3) unpack_one assms(1) ISSPACE_def)
    ultimately show ?thesis by blast
  next
    case 2
    obtain r where r: "qpencode s (if count_of ds \<le> 1 then 72 else count_of ds) = Inr r" "unpack_M r = (s, [])"
      using qpencode_back by blast
    then have "pack_pack env [Other (Str s)] fmt = Some (Inr (r, []))"
      using 2 by (simp add: assms(3) pack_pack_def pack_one assms(1) ISSPACE_def pack_directive_def on_next_def sv)
    moreover have "pack_unpack env assoc r fmt = Inr [Other (Str s)]"
      using qp_back_directive [OF r(2), of env assoc False "count_of ds" False] 2
      by (auto simp: assms(3) unpack_one assms(1) ISSPACE_def)
    ultimately show ?thesis by blast
  next
    case 3
    then show ?thesis
      using raw_back [of env assoc s False True]
      by (auto simp: assms(3) pack_pack_def pack_star unpack_star ISSPACE_def pack_directive_def on_next_def pack_string_def
          or_nil_def NIL_P_def sv pack_a_def buf_cat_def)
  next
    case 4
    then have "pack_pack env [Other (Str s)] fmt = Some (Inr (pack_um True (nat (count_of ds)) s, []))"
      by (simp add: assms(3) pack_pack_def pack_one assms(1) ISSPACE_def pack_directive_def on_next_def sv)
    moreover have "pack_unpack env assoc (pack_um True (nat (count_of ds)) s) fmt = Inr [Other (Str s)]"
      using uu_back_directive [OF 4(2), of env assoc s False "count_of ds" False] 4(1)
      by (auto simp: assms(3) unpack_one assms(1) ISSPACE_def)
    ultimately show ?thesis by blast
  qed
  show "\<exists>t. pack_unpack env assoc s [digit_type, CHR ''*''] = Inr [Other (Str t)] \<and>
         pack_pack env [Other (Str t)] [digit_type, CHR ''*''] = Some (Inr (s, []))"
  proof -
    have c: "\<not> ISSPACE digit_type" "digit_type \<noteq> CHR ''#''" "digit_type \<in> set ''AaZBbHh''"
      using assms(4) by (auto simp: ISSPACE_def)
    obtain t v where "unpack_directive env assoc s digit_type False (int (length s)) True 0 = Inr ([Other (Str t)], v)"
      "pack_string env digit_type (if strchr ''@Xxu'' digit_type then 0 else 1) True [] (Other (Str t)) = Inr s"
      using digits_back [OF assms(4)] by blast
    then show ?thesis using c by (auto simp: unpack_star pack_pack_def pack_star pack_directive_def on_next_def)
  qed
qed
section \<open>Integers\<close>

subsection \<open>Byte images\<close>

lemma length_image [simp]: "length (mem_image n w) = n"
  by (simp add: mem_image_def)

lemma image_Suc: "mem_image (Suc n) w = ucast w # mem_image n (drop_bit 8 w)"
  by (simp add: mem_image_def upt_conv_Cons map_Suc_upt [symmetric] comp_def drop_bit_drop_bit add.commute del: upt_Suc)

lemma word_at_image: "word_at (mem_image n w) = take_bit (8 * n) w"
proof (induction n arbitrary: w)
  case 0
  then show ?case by (simp add: mem_image_def)
next
  case (Suc n)
  have "ucast (ucast w :: byte) OR push_bit 8 (take_bit (8 * n) (drop_bit 8 w)) = take_bit (8 * Suc n) w"
  proof (rule bit_word_eqI)
    fix k assume "k < LENGTH(64)"
    then show "bit (ucast (ucast w :: byte) OR push_bit 8 (take_bit (8 * n) (drop_bit 8 w))) k = bit (take_bit (8 * Suc n) w) k"
      unfolding bit_or_iff bit_unsigned_iff bit_push_bit_iff bit_take_bit_iff bit_drop_bit_eq comp_apply by auto
  qed
  then show ?case by (simp add: image_Suc Suc)
qed

lemma drop_image: "drop 4 (mem_image 8 w) = mem_image 4 (drop_bit 32 w)"
  by (simp add: mem_image_def drop_map drop_upt drop_bit_drop_bit eval_nat_numeral)

lemma byte_masks:
  "bit (0xFF :: u64) n \<longleftrightarrow> n < 8" "bit (0xFF00 :: u64) n \<longleftrightarrow> 8 \<le> n \<and> n < 16" "bit (0xFF0000 :: u64) n \<longleftrightarrow> 16 \<le> n \<and> n < 24"
  "bit (0xFF000000 :: u64) n \<longleftrightarrow> 24 \<le> n \<and> n < 32" "bit (0xFF00000000 :: u64) n \<longleftrightarrow> 32 \<le> n \<and> n < 40"
  "bit (0xFF0000000000 :: u64) n \<longleftrightarrow> 40 \<le> n \<and> n < 48" "bit (0xFF000000000000 :: u64) n \<longleftrightarrow> 48 \<le> n \<and> n < 56"
  "bit (0xFF00000000000000 :: u64) n \<longleftrightarrow> 56 \<le> n \<and> n < 64"
proof -
  have m: "0xFF = (push_bit 0 (mask 8) :: u64)" "0xFF00 = (push_bit 8 (mask 8) :: u64)" "0xFF0000 = (push_bit 16 (mask 8) :: u64)"
    "0xFF000000 = (push_bit 24 (mask 8) :: u64)" "0xFF00000000 = (push_bit 32 (mask 8) :: u64)"
    "0xFF0000000000 = (push_bit 40 (mask 8) :: u64)" "0xFF000000000000 = (push_bit 48 (mask 8) :: u64)"
    "0xFF00000000000000 = (push_bit 56 (mask 8) :: u64)"
    by (simp_all add: mask_eq_exp_minus_1)
  show "bit (0xFF :: u64) n \<longleftrightarrow> n < 8" "bit (0xFF00 :: u64) n \<longleftrightarrow> 8 \<le> n \<and> n < 16" "bit (0xFF0000 :: u64) n \<longleftrightarrow> 16 \<le> n \<and> n < 24"
    "bit (0xFF000000 :: u64) n \<longleftrightarrow> 24 \<le> n \<and> n < 32" "bit (0xFF00000000 :: u64) n \<longleftrightarrow> 32 \<le> n \<and> n < 40"
    "bit (0xFF0000000000 :: u64) n \<longleftrightarrow> 40 \<le> n \<and> n < 48" "bit (0xFF000000000000 :: u64) n \<longleftrightarrow> 48 \<le> n \<and> n < 56"
    "bit (0xFF00000000000000 :: u64) n \<longleftrightarrow> 56 \<le> n \<and> n < 64"
    unfolding m bit_push_bit_iff bit_mask_iff by auto
qed

lemmas swap_bits = bit_or_iff bit_and_iff bit_push_bit_iff bit_drop_bit_eq bit_take_bit_iff comp_apply byte_masks

lemma swaps_back: "swaps (take_bit 16 (swaps (take_bit 16 x))) = take_bit 16 x"
proof (rule bit_word_eqI)
  fix n assume "n < LENGTH(64)"
  then show "bit (swaps (take_bit 16 (swaps (take_bit 16 x)))) n = bit (take_bit 16 x) n"
    unfolding swaps_def swap_bits by auto
qed

lemma swapl_bits:
  "n < 8 \<Longrightarrow> bit (swapl x) n = bit x (n + 56)" "8 \<le> n \<Longrightarrow> n < 16 \<Longrightarrow> bit (swapl x) n = bit x (n + 40)"
  "16 \<le> n \<Longrightarrow> n < 24 \<Longrightarrow> bit (swapl x) n = bit x (n + 24)" "24 \<le> n \<Longrightarrow> n < 32 \<Longrightarrow> bit (swapl x) n = bit x (n + 8)"
  "32 \<le> n \<Longrightarrow> n < 40 \<Longrightarrow> bit (swapl x) n = bit x (n - 8)" "40 \<le> n \<Longrightarrow> n < 48 \<Longrightarrow> bit (swapl x) n = bit x (n - 24)"
  "48 \<le> n \<Longrightarrow> n < 56 \<Longrightarrow> bit (swapl x) n = bit x (n - 40)" "56 \<le> n \<Longrightarrow> n < 64 \<Longrightarrow> bit (swapl x) n = bit x (n - 56)"
  unfolding swapl_def swap_bits by (simp_all add: add.commute less_diff_conv2 le_diff_conv2)

lemma byte_ranges:
  assumes "n < (64 :: nat)"
  obtains "n < 8" | "8 \<le> n" "n < 16" | "16 \<le> n" "n < 24" | "24 \<le> n" "n < 32"
  | "32 \<le> n" "n < 40" | "40 \<le> n" "n < 48" | "48 \<le> n" "n < 56" | "56 \<le> n" "n < 64"
  using assms by linarith

lemma swapl_swapl: "swapl (swapl x) = x"
proof (rule bit_word_eqI)
  fix n assume "n < LENGTH(64)"
  then have "n < 64" by simp
  then show "bit (swapl (swapl x)) n = bit x n" by (cases rule: byte_ranges) (simp_all add: swapl_bits)
qed

lemma swapl_back: "swapl (push_bit 32 (take_bit 32 (drop_bit 32 (swapl (take_bit 32 x))))) = take_bit 32 x"
proof -
  have "push_bit 32 (take_bit 32 (drop_bit 32 (swapl (take_bit 32 x)))) = swapl (take_bit 32 x)"
  proof (rule bit_word_eqI)
    fix n assume "n < LENGTH(64)"
    then have "n < 64" by simp
    then show "bit (push_bit 32 (take_bit 32 (drop_bit 32 (swapl (take_bit 32 x))))) n = bit (swapl (take_bit 32 x)) n"
      by (cases rule: byte_ranges) (simp_all add: swapl_bits bit_push_bit_iff bit_take_bit_iff bit_drop_bit_eq less_diff_conv2)
  qed
  then show ?thesis by (simp add: swapl_swapl)
qed

subsection \<open>One element\<close>

lemma is_int_unique: "is_int v z \<Longrightarrow> is_int w z \<Longrightarrow> v = w"
  unfolding is_int_def using canonical_unique by blast

lemma is_int_uint2inum: "is_int (rb_uint2inum w :: ('f, 'o) VALUE) (uint w)"
  using rb_uint2inum_value [OF refl, of w, where 'f = 'f and 'o = 'o] by (simp add: is_int_def uint_unat)

lemma is_int_nil: "is_int v z \<Longrightarrow> \<not> NIL_P v"
  by (auto simp: is_int_def NIL_P_def split: VALUE.splits pobj.splits)

lemma is_int_num2int:
  assumes "is_int v z" "- (2 ^ 31) \<le> z" "z < 2 ^ 31"
  shows "NUM2INT env v = Inr z"
  using assms(1)
proof (cases rule: is_int_cases)
  case (Fix n)
  then show ?thesis using assms(2,3) by (simp add: NUM2INT_def rb_num2int_def)
next
  case (Big b)
  then show ?thesis using assms(2,3) by (simp add: FIXABLE_iff)
qed

lemma is_int_num2ulong:
  assumes "is_int v z" "- (2 ^ 63) \<le> z" "z < 2 ^ 64"
  shows "NUM2ULONG env v = Inr (word_of_int z)"
  using assms(1)
proof (cases rule: is_int_cases)
  case (Fix n)
  then show ?thesis by (simp add: NUM2ULONG_def rb_num2ulong_def rb_num2long_def)
next
  case (Big b)
  then have "big_norm_ok b" by simp
  note u = big2ulong_value [OF this]
  have "dval (digits b) < 2 ^ 64" using Big(3) assms(2,3) by (auto simp: big_val_def split: if_splits)
  with u Big(3) show ?thesis unfolding Big(1)
    by (auto simp: NUM2ULONG_def rb_num2ulong_def rb_big2ulong_def big_val_def split: if_splits)
qed

text \<open>What a directive of fixed size must do for the round trip.\<close>

definition element_back ::
    "(('f, 'o) item \<Rightarrow> rb_error + byte list) \<Rightarrow> int \<Rightarrow> (byte list \<Rightarrow> ('f, 'o) item) \<Rightarrow> ('f, 'o) item \<Rightarrow> bool" where
  "element_back f sz g v \<longleftrightarrow> (\<exists>b. f v = Inr b \<and> int (length b) = sz \<and> g b = v)"

lemma sint_byte: "- (2 ^ 7) \<le> z \<Longrightarrow> z < 2 ^ 7 \<Longrightarrow> sint (word_of_int z :: byte) = z"
  by (simp add: sint_sbintrunc' signed_take_bit_int_eq_self)

lemma take_bit_word_of_int: "0 \<le> z \<Longrightarrow> z < 2 ^ n \<Longrightarrow> take_bit n (word_of_int z) = (word_of_int z :: u64)"
  by (metis take_bit_int_eq_self_iff take_bit_of_int)

lemma uint_small: "0 \<le> z \<Longrightarrow> z < 2 ^ 64 \<Longrightarrow> uint (word_of_int z :: u64) = z"
  by (simp add: uint_word_of_int)

lemma element_backI:
  "is_int v z \<Longrightarrow> f v = Inr b \<Longrightarrow> int (length b) = sz \<Longrightarrow> is_int (g b) z \<Longrightarrow> element_back f sz g v"
  unfolding element_back_def using is_int_unique by blast

lemma or_nil_int: "is_int v z \<Longrightarrow> or_nil x f v = f v"
  using is_int_nil [of v z] by (simp add: or_nil_def)

lemma natint_u32:
  assumes "is_int v z" "0 \<le> z" "z < 2 ^ 31"
  shows "NATINT_U32 env False v = Inr (word_of_int z)" "NUM2UINT env v = Inr (word_of_int z)"
proof -
  show u: "NUM2UINT env v = Inr (word_of_int z)" using is_int_num2int [OF assms(1)] assms(2,3) by (simp add: NUM2UINT_def)
  have "ucast (word_of_int z :: u32) = (word_of_int z :: u64)"
    using assms(2,3) by (simp add: unsigned_of_int take_bit_int_eq_self)
  with u show "NATINT_U32 env False v = Inr (word_of_int z)" by (simp add: NATINT_U32_def)
qed

lemma back_c:
  assumes "is_int v z" "- (2 ^ 7) \<le> z" "z < 2 ^ 7"
  shows "element_back (pack_c env) 1 unpack_c v"
proof (rule element_backI [OF assms(1)])
  show "pack_c env v = Inr [word_of_int z]"
    using is_int_num2int [OF assms(1), of env] assms(2,3) by (simp add: pack_c_def or_nil_int [OF assms(1)])
  show "is_int (unpack_c [word_of_int z]) z"
    using is_int_word [of z] assms(2,3) sint_byte by (simp add: unpack_c_def FIXABLE_iff Let_def)
qed simp

lemma back_C:
  assumes "is_int v z" "0 \<le> z" "z < 2 ^ 8"
  shows "element_back (pack_c env) 1 unpack_C v"
proof (rule element_backI [OF assms(1)])
  show "pack_c env v = Inr [word_of_int z]"
    using is_int_num2int [OF assms(1), of env] assms(2,3) by (simp add: pack_c_def or_nil_int [OF assms(1)])
  have "ucast (word_of_int z :: byte) = (word_of_int z :: u64)"
    using assms(2,3) by (simp add: unsigned_of_int take_bit_int_eq_self)
  then show "is_int (unpack_C [word_of_int z]) z"
    using is_int_word [of z] assms(2,3) by (simp add: unpack_C_def FIXABLE_iff)
qed simp

lemma low_half:
  "ucast (take_bit 16 (word_of_int z :: u64)) = (word_of_int z :: 16 word)"
  "ucast (take_bit 32 (word_of_int z :: u64)) = (word_of_int z :: u32)"
  by (rule bit_word_eqI, auto simp only: bit_unsigned_iff bit_take_bit_iff bit_word_of_int_iff len_num0 len_bit0 len_num1; simp)+

lemma sint_16: "- (2 ^ 15) \<le> z \<Longrightarrow> z < 2 ^ 15 \<Longrightarrow> scast (word_of_int z :: 16 word) = (word_of_int z :: u64)"
  by (simp add: scast_eq sint_sbintrunc' signed_take_bit_int_eq_self)

lemma sint_32: "- (2 ^ 31) \<le> z \<Longrightarrow> z < 2 ^ 31 \<Longrightarrow> scast (word_of_int z :: u32) = (word_of_int z :: u64)"
  by (simp add: scast_eq sint_sbintrunc' signed_take_bit_int_eq_self)

lemma back_s:
  assumes "is_int v z" "- (2 ^ 15) \<le> z" "z < 2 ^ 15"
  shows "element_back (pack_s env) 2 unpack_s v"
proof (rule element_backI [OF assms(1)])
  show "pack_s env v = Inr (mem_image 2 (word_of_int z))"
    using is_int_num2int [OF assms(1), of env] assms(2,3) by (simp add: pack_s_def or_nil_int [OF assms(1)])
  show "is_int (unpack_s (mem_image 2 (word_of_int z))) z" unfolding unpack_s_def word_at_image
    using low_half(1) [of z] sint_16 [OF assms(2,3)] is_int_word [of z] assms(2,3) by (simp add: FIXABLE_iff)
qed simp

lemma back_S:
  assumes "is_int v z" "0 \<le> z" "z < 2 ^ 16"
  shows "element_back (pack_s env) 2 unpack_S v"
proof (rule element_backI [OF assms(1)])
  show "pack_s env v = Inr (mem_image 2 (word_of_int z))"
    using is_int_num2int [OF assms(1), of env] assms(2,3) by (simp add: pack_s_def or_nil_int [OF assms(1)])
  show "is_int (unpack_S (mem_image 2 (word_of_int z))) z" unfolding unpack_S_def word_at_image
    using take_bit_word_of_int [of z 16] is_int_word [of z] assms(2,3) by (simp add: FIXABLE_iff)
qed simp

lemma back_i:
  assumes "is_int v z" "- (2 ^ 31) \<le> z" "z < 2 ^ 31"
  shows "element_back (pack_i env) 4 unpack_i v"
proof (rule element_backI [OF assms(1)])
  show "pack_i env v = Inr (mem_image 4 (ucast (word_of_int z :: u32)))"
    using is_int_num2int [OF assms(1), of env] assms(2,3) by (simp add: pack_i_def or_nil_int [OF assms(1)] NUM2UINT_def)
  have u: "ucast (take_bit 32 (ucast (word_of_int z :: u32) :: u64)) = (word_of_int z :: u32)"
    by (rule bit_word_eqI) (auto simp: bit_unsigned_iff bit_take_bit_iff)
  have "sint (word_of_int z :: u64) = z" using assms(2,3) by (intro sint_word_of_int) auto
  then show "is_int (unpack_i (mem_image 4 (ucast (word_of_int z :: u32)))) z" unfolding unpack_i_def word_at_image
    using u sint_32 [OF assms(2,3)] by simp
qed simp

lemma back_I:
  assumes "is_int v z" "0 \<le> z" "z < 2 ^ 31"
  shows "element_back (pack_i env) 4 unpack_I v"
proof (rule element_backI [OF assms(1)])
  show "pack_i env v = Inr (mem_image 4 (word_of_int z))"
    using natint_u32 [OF assms, of env] assms(2,3)
    by (simp add: pack_i_def or_nil_int [OF assms(1)] unsigned_of_int take_bit_int_eq_self)
  show "is_int (unpack_I (mem_image 4 (word_of_int z))) z" unfolding unpack_I_def word_at_image
    using is_int_uint2inum [of "word_of_int z"] take_bit_word_of_int [of z 32] uint_small [of z] assms(2,3) by simp
qed simp

lemma back_l:
  assumes "is_int v z" "0 \<le> z" "z < 2 ^ 31"
  shows "element_back (pack_l env False) 4 unpack_l v" "element_back (pack_l env False) 4 unpack_L v" "element_back (pack_V env) 4 unpack_V v"
proof -
  have p: "pack_l env False v = Inr (mem_image 4 (word_of_int z))" "pack_V env v = Inr (mem_image 4 (word_of_int z))"
    using natint_u32 [OF assms, of env] by (simp_all add: pack_l_def pack_V_def or_nil_int [OF assms(1)])
  have t: "take_bit 32 (word_of_int z :: u64) = word_of_int z" using take_bit_word_of_int [of z 32] assms(2,3) by simp
  have "sint (word_of_int z :: u64) = z" using assms(2,3) by (intro sint_word_of_int) auto
  moreover have "uint (word_of_int z :: u64) = z" using uint_small assms(2,3) by simp
  ultimately show "element_back (pack_l env False) 4 unpack_l v" "element_back (pack_l env False) 4 unpack_L v"
    "element_back (pack_V env) 4 unpack_V v"
    using t is_int_uint2inum [of "word_of_int z"]
    by (auto intro!: element_backI [OF assms(1), where b = "mem_image 4 (word_of_int z)"]
        simp: p unpack_l_def unpack_L_def unpack_V_def word_at_image)
qed

lemma take_bit_64 [simp]: "take_bit 64 (w :: u64) = w"
  by (rule bit_word_eqI) (simp add: bit_take_bit_iff)

lemma is_int_quad: "is_int (rb_quad_unpack w True) (sint w)" "is_int (rb_quad_unpack w False) (uint w)"
proof -
  have m: "- int (unat (- w)) = sint w" if "sint w < 0"
    using that unat_dbl_less [of w] by (auto simp: sint_unat unat_uminus of_nat_diff split: if_splits)
  have p: "int (unat w) = sint w" if "\<not> sint w < 0"
    using that unat_dbl_less [of w] by (auto simp: sint_unat split: if_splits)
  show "is_int (rb_quad_unpack w True) (sint w)"
    using m p by (auto simp: rb_quad_unpack_def is_int_LONG2FIX big_val_def)
  show "is_int (rb_quad_unpack w False) (uint w)"
  proof (cases "POSFIXABLE (uint w)")
    case True
    then have "FIXABLE (sint w)" "sint w = uint w" by (auto simp: POSFIXABLE_def FIXNUM_MAX_def uint_unat sint_unat FIXABLE_iff)
    with True show ?thesis by (simp add: rb_quad_unpack_def is_int_LONG2FIX)
  next
    case False
    then show ?thesis by (simp add: rb_quad_unpack_def big_val_def uint_unat)
  qed
qed

lemma back_l_native:
  assumes "is_int v z"
  shows "- (2 ^ 63) \<le> z \<Longrightarrow> z < 2 ^ 63 \<Longrightarrow> element_back (pack_l env True) 8 unpack_l v"
    "0 \<le> z \<Longrightarrow> z < 2 ^ 64 \<Longrightarrow> element_back (pack_l env True) 8 unpack_L v"
proof -
  have p: "pack_l env True v = Inr (mem_image 8 (word_of_int z))" if "- (2 ^ 63) \<le> z" "z < 2 ^ 64"
    using is_int_num2ulong [OF assms that, of env] by (simp add: pack_l_def NATINT_U32_def or_nil_int [OF assms])
  show "element_back (pack_l env True) 8 unpack_l v" if "- (2 ^ 63) \<le> z" "z < 2 ^ 63"
    using that p sint_word_of_int [of z]
    by (intro element_backI [OF assms, where b = "mem_image 8 (word_of_int z)"]) (simp_all add: unpack_l_def word_at_image)
  show "element_back (pack_l env True) 8 unpack_L v" if "0 \<le> z" "z < 2 ^ 64"
    using that p is_int_uint2inum [of "word_of_int z"] uint_small [of z]
    by (intro element_backI [OF assms, where b = "mem_image 8 (word_of_int z)"]) (simp_all add: unpack_L_def word_at_image)
qed

lemma back_n:
  assumes "is_int v z" "0 \<le> z" "z < 2 ^ 16"
  shows "element_back (pack_n env) 2 unpack_n v" "element_back (pack_v env) 2 unpack_v v"
proof -
  have t: "take_bit 16 (word_of_int z :: u64) = word_of_int z" using take_bit_word_of_int [of z 16] assms(2,3) by simp
  have u: "uint (word_of_int z :: u64) = z" using uint_small assms(2,3) by simp
  have i: "NUM2INT env v = Inr z" using is_int_num2int [OF assms(1)] assms(2,3) by simp
  show "element_back (pack_n env) 2 unpack_n v"
  proof (rule element_backI [OF assms(1)])
    show "pack_n env v = Inr (mem_image 2 (swaps (take_bit 16 (word_of_int z))))"
      using i by (simp add: pack_n_def or_nil_int [OF assms(1)])
    show "is_int (unpack_n (mem_image 2 (swaps (take_bit 16 (word_of_int z))))) z"
      unfolding unpack_n_def word_at_image using swaps_back [of "word_of_int z"] t u is_int_uint2inum [of "word_of_int z"] by simp
  qed simp
  show "element_back (pack_v env) 2 unpack_v v"
  proof (rule element_backI [OF assms(1)])
    show "pack_v env v = Inr (mem_image 2 (word_of_int z))" using i t by (simp add: pack_v_def or_nil_int [OF assms(1)])
    show "is_int (unpack_v (mem_image 2 (word_of_int z))) z"
      unfolding unpack_v_def word_at_image using t u is_int_uint2inum [of "word_of_int z"] by simp
  qed simp
qed

lemma back_N:
  assumes "is_int v z" "0 \<le> z" "z < 2 ^ 31"
  shows "element_back (pack_N env) 4 unpack_N v"
proof (rule element_backI [OF assms(1)])
  have t: "take_bit 32 (word_of_int z :: u64) = word_of_int z" using take_bit_word_of_int [of z 32] assms(2,3) by simp
  show "pack_N env v = Inr (mem_image 4 (drop_bit 32 (swapl (word_of_int z))))"
    using natint_u32 [OF assms, of env] by (simp add: pack_N_def or_nil_int [OF assms(1)] drop_image)
  show "is_int (unpack_N (mem_image 4 (drop_bit 32 (swapl (word_of_int z))))) z"
    unfolding unpack_N_def word_at_image
    using swapl_back [of "word_of_int z"] t uint_small [of z] assms(2,3) is_int_uint2inum [of "word_of_int z"] by simp
qed simp

lemma back_q:
  assumes "is_int v z"
  shows "- (2 ^ 62) \<le> z \<Longrightarrow> z < 2 ^ 63 \<Longrightarrow> element_back (pack_q env) 8 unpack_q v"
    "0 \<le> z \<Longrightarrow> z < 2 ^ 64 \<Longrightarrow> element_back (pack_q env) 8 unpack_Q v"
proof -
  have p: "pack_q env v = Inr (mem_image 8 (word_of_int z))" if "- (2 ^ 62) \<le> z" "z < 2 ^ 64"
    using assms
  proof (cases rule: is_int_cases)
    case (Fix n)
    then show ?thesis by (simp add: pack_q_def or_nil_def NIL_P_def rb_quad_pack_def)
  next
    case (Big b)
    then have "\<not> FIXABLE z" by simp
    with that have z: "0 \<le> z" by (simp add: FIXABLE_iff)
    have "bsign b" using z Big(3) \<open>\<not> FIXABLE z\<close> by (auto simp: big_val_def FIXABLE_iff split: if_splits)
    then have d: "int (dval (digits b)) = z" using Big(3) by (simp add: big_val_def)
    have "big_norm_ok b" using Big(4) by simp
    from big2ulong_value [OF this] d that(2) have "digits_to_dbl (digits b) = word_of_int z"
      by (auto simp: big2ulong_def split: if_splits)
    then show ?thesis by (simp add: Big(1) pack_q_def or_nil_def NIL_P_def rb_quad_pack_def)
  qed
  show "element_back (pack_q env) 8 unpack_q v" if "- (2 ^ 62) \<le> z" "z < 2 ^ 63"
    using that p is_int_quad(1) [of "word_of_int z"] sint_word_of_int [of z]
    by (intro element_backI [OF assms, where b = "mem_image 8 (word_of_int z)"]) (simp_all add: unpack_q_def word_at_image)
  show "element_back (pack_q env) 8 unpack_Q v" if "0 \<le> z" "z < 2 ^ 64"
    using that p is_int_quad(2) [of "word_of_int z"] uint_small [of z]
    by (intro element_backI [OF assms, where b = "mem_image 8 (word_of_int z)"]) (simp_all add: unpack_Q_def word_at_image)
qed

subsection \<open>All elements\<close>

lemma pack_each_all:
  assumes "\<forall>v \<in> set vs. f v = Some (Inr (h v))"
  shows "pack_each f (length vs) vs = Some (Inr (concat (map h vs), []))"
  using assms by (induction vs) simp_all

lemma read_items_all:
  assumes "\<forall>v \<in> set vs. int (length (h v)) = sz \<and> g (h v) = k v" "0 < sz" "str = pre @ concat (map h vs)" "s = int (length pre)"
  shows "read_items g sz (length vs) str s = Inr (map k vs, int (length str))"
  using assms
proof (induction vs arbitrary: pre s)
  case (Cons v vs)
  then have b: "int (length (h v)) = sz" "g (h v) = k v" by simp_all
  then have "bytes_at str s sz = Inr (h v)" using Cons.prems(2-4) by (auto simp: bytes_at_def nat_int)
  moreover have "read_items g sz (length vs) str (s + sz) = Inr (map k vs, int (length str))"
    using Cons.IH [of "pre @ h v" "s + sz"] Cons.prems b(1) by simp
  ultimately show ?case using b(2) by simp
qed simp

lemma items_back:
  assumes "\<forall>v \<in> set vs. \<exists>b. f v = Inr b \<and> int (length b) = sz \<and> g b = k v" "0 < sz" "sz \<le> 8" "length vs < 2 ^ 40"
  shows "\<exists>r. pack_each (Some \<circ> f) (length vs) vs = Some (Inr (r, [])) \<and>
    unpack_items quad adjust sz g r 0 True (int (length r)) = Inr (map k vs, int (length r))"
proof -
  obtain h where h: "\<forall>v \<in> set vs. f v = Inr (h v) \<and> int (length (h v)) = sz \<and> g (h v) = k v"
    using assms(1) by metis
  let ?r = "concat (map h vs)"
  have l: "int (length ?r) = sz * int (length vs)" using h by (induction vs) (auto simp: algebra_simps)
  have "sz * int (length vs) \<le> 8 * 2 ^ 40" using assms(2-4) by (intro mult_mono) auto
  then have m: "int (length ?r) mod 2 ^ 64 = int (length ?r)" using l by simp
  have q: "cdiv (int (length ?r)) sz = int (length vs)" "int (length ?r) div sz = int (length vs)"
    using assms(2) l by (auto simp: cdiv_def sgn_if)
  have "int (length vs) \<le> sz * int (length vs)" using assms(2) mult_right_mono [of 1 sz "int (length vs)"] by simp
  then have "length_adjust quad sz (int (length ?r)) True (int (length ?r)) = (int (length vs), 0)"
    using q m l by (auto simp: length_adjust_def Let_def)
  moreover have "read_items g sz (length vs) ?r 0 = Inr (map k vs, int (length ?r))"
    using read_items_all [of vs h sz g k ?r "[]" 0] h assms(2) by simp
  ultimately have "unpack_items quad adjust sz g ?r 0 True (int (length ?r)) = Inr (map k vs, int (length ?r))"
    by (simp add: unpack_items_def avail_def)
  moreover have "pack_each (Some \<circ> f) (length vs) vs = Some (Inr (?r, []))" using h by (intro pack_each_all) simp
  ultimately show ?thesis by blast
qed

definition utf8_of :: "(('f, 'o) item \<Rightarrow> byte list) \<Rightarrow> ('f, 'o) item \<Rightarrow> bool" where
  "utf8_of h v \<longleftrightarrow> (\<exists>uv. v = rb_uint2inum uv \<and> uv_to_utf8 uv = Inr (h v))"

lemma unpack_U_back:
  assumes "\<forall>v \<in> set vs. utf8_of h v" "int (length vs) \<le> len"
  shows "unpack_U_loop len (concat (map h vs)) = (vs, [])"
  using assms
proof (induction vs arbitrary: len)
  case (Cons v vs)
  then obtain uv where v: "v = rb_uint2inum uv" "uv_to_utf8 uv = Inr (h v)" by (auto simp: utf8_of_def)
  let ?rest = "concat (map h vs)"
  have u: "utf8_to_uv (hd (h v)) (tl (h v) @ ?rest) = (uv, length (h v))" "h v \<noteq> []"
    using utf8_back [OF v(2)] by blast+
  have "unpack_U_loop (len - 1) ?rest = (vs, [])" using Cons by simp
  with Cons.prems u v(1) show ?case by (subst unpack_U_loop.simps) simp
qed (simp add: unpack_U_loop.simps)

lemma length_concat_nonempty: "\<forall>v \<in> set vs. 0 < length (h v) \<Longrightarrow> length vs \<le> length (concat (map h vs))"
proof (induction vs)
  case (Cons v vs)
  then have "0 < length (h v)" "length vs \<le> length (concat (map h vs))" by auto
  then show ?case unfolding list.simps concat.simps length_append list.size by linarith
qed simp

lemma uv_to_utf8_ok: "uv \<le> 0xfffffffff \<Longrightarrow> \<exists>b. uv_to_utf8 uv = Inr b"
  by (simp add: uv_to_utf8_def)

lemma back_U:
  assumes "\<forall>v \<in> set vs. \<exists>z. is_int v z \<and> 0 \<le> z \<and> z < 2 ^ 36"
  shows "\<exists>r. pack_each (Some \<circ> pack_U env) (length vs) vs = Some (Inr (r, [])) \<and>
    unpack_U r 0 (int (length r)) = Inr (vs, int (length r))"
proof -
  have "\<forall>v \<in> set vs. \<exists>b. pack_U env v = Inr b \<and> (\<exists>uv. v = rb_uint2inum uv \<and> uv_to_utf8 uv = Inr b)"
  proof
    fix v assume "v \<in> set vs"
    then obtain z where z: "is_int v z" "0 \<le> z" "z < 2 ^ 36" using assms by blast
    have u: "NUM2ULONG env v = Inr (word_of_int z)" using is_int_num2ulong [OF z(1)] z(2,3) by simp
    have i: "uint (word_of_int z :: u64) = z" using uint_small z(2,3) by simp
    then have "word_of_int z \<le> (0xfffffffff :: u64)" using z(3) by (simp add: word_le_def)
    then obtain b where "uv_to_utf8 (word_of_int z) = Inr b" using uv_to_utf8_ok by blast
    moreover have "v = rb_uint2inum (word_of_int z)" using is_int_unique z(1) is_int_uint2inum i by metis
    ultimately show "\<exists>b. pack_U env v = Inr b \<and> (\<exists>uv. v = rb_uint2inum uv \<and> uv_to_utf8 uv = Inr b)"
      unfolding pack_U_def or_nil_int [OF z(1)] u bindR_simps by blast
  qed
  from bchoice [OF this] obtain h where h: "\<forall>v \<in> set vs. pack_U env v = Inr (h v) \<and> utf8_of h v" by (auto simp: utf8_of_def)
  let ?r = "concat (map h vs)"
  have p: "pack_each (Some \<circ> pack_U env) (length vs) vs = Some (Inr (?r, []))" using h by (intro pack_each_all) simp
  have "\<forall>v \<in> set vs. 0 < length (h v)" using h utf8_back(2) by (auto simp: utf8_of_def)
  note l = length_concat_nonempty [OF this]
  have "unpack_U ?r 0 (int (length ?r)) = Inr (vs, int (length ?r))"
  proof (cases "vs = []")
    case False
    then have "0 < length vs" by simp
    then have "0 < length ?r" using l by linarith
    then show ?thesis using unpack_U_back [of vs h "int (length ?r)"] h l by (auto simp: unpack_U_def)
  qed (simp add: unpack_U_def avail_def)
  with p show ?thesis by blast
qed

lemma unpack_w_all:
  assumes "\<forall>v \<in> set vs. \<exists>n. is_int v (int n) \<and> h v = rev (ber_low (n div 128)) @ [of_nat (n mod 128)]" "int (length vs) \<le> len"
  shows "unpack_w fm nm fp np len 0 (concat (map h vs)) = Inr (vs, [])"
  using assms
proof (induction vs arbitrary: len)
  case (Cons v vs)
  then obtain n where n: "is_int v (int n)" "h v = rev (ber_low (n div 128)) @ [of_nat (n mod 128)]" by auto
  have "unpack_w fm nm fp np (len - 1) 0 (concat (map h vs)) = Inr (vs, [])" using Cons by simp
  moreover have "0 < len" using Cons.prems(2) by simp
  ultimately show ?case using unpack_w_back [OF _ n(1), of len fm nm fp np "concat (map h vs)"] n(2) by (simp del: of_nat_mod)
qed simp

lemma back_w:
  assumes "\<forall>v \<in> set vs. \<exists>z. is_int v z \<and> 0 \<le> z"
  shows "\<exists>r. pack_each (pack_w (to_long env) nc NIL_P) (length vs) vs = Some (Inr (r, [])) \<and>
    unpack_ber r 0 (int (length r)) = Inr (vs, int (length r))"
proof -
  have "\<forall>v \<in> set vs. \<exists>b. pack_w (to_long env) nc NIL_P v = Some (Inr b) \<and>
    (\<exists>n. is_int v (int n) \<and> b = rev (ber_low (n div 128)) @ [of_nat (n mod 128)])"
  proof
    fix v assume "v \<in> set vs"
    then obtain z where "is_int v z" "0 \<le> z" using assms by blast
    then have "is_int v (int (nat z))" by simp
    moreover have "\<not> NIL_P (Fixnum w)" for w by (simp add: NIL_P_def)
    ultimately show "\<exists>b. pack_w (to_long env) nc NIL_P v = Some (Inr b) \<and>
        (\<exists>n. is_int v (int n) \<and> b = rev (ber_low (n div 128)) @ [of_nat (n mod 128)])"
      using pack_w_bytes [of v "nat z" NIL_P "to_long env" nc] is_int_nil [of v "int (nat z)"] by blast
  qed
  from bchoice [OF this] obtain h where h: "\<forall>v \<in> set vs. pack_w (to_long env) nc NIL_P v = Some (Inr (h v)) \<and>
      (\<exists>n. is_int v (int n) \<and> h v = rev (ber_low (n div 128)) @ [of_nat (n mod 128)])" by blast
  let ?r = "concat (map h vs)"
  have p: "pack_each (pack_w (to_long env) nc NIL_P) (length vs) vs = Some (Inr (?r, []))" using h by (intro pack_each_all) simp
  have "\<forall>v \<in> set vs. 0 < length (h v)"
  proof
    fix v assume "v \<in> set vs"
    then obtain n where "h v = rev (ber_low (n div 128)) @ [of_nat (n mod 128)]" using h by blast
    then show "0 < length (h v)" by simp
  qed
  note l = length_concat_nonempty [OF this]
  have "unpack_ber ?r 0 (int (length ?r)) = Inr (vs, int (length ?r))"
  proof (cases "vs = []")
    case False
    then have "0 < length vs" by simp
    then have "0 < length ?r" using l by linarith
    then show ?thesis using unpack_w_all [of vs h "int (length ?r)"] h l by (auto simp: unpack_ber_def)
  qed (simp add: unpack_ber_def avail_def)
  with p show ?thesis by blast
qed

section \<open>Integers survive\<close>

text \<open>The integers that a directive can carry on a 64-bit machine.\<close>

definition carries :: "string \<Rightarrow> int \<Rightarrow> bool" where
  "carries d z \<longleftrightarrow>
     (if d = ''c'' then - (2 ^ 7) \<le> z \<and> z < 2 ^ 7
      else if d = ''C'' then 0 \<le> z \<and> z < 2 ^ 8
      else if d = ''s'' then - (2 ^ 15) \<le> z \<and> z < 2 ^ 15
      else if d = ''S'' \<or> d = ''n'' \<or> d = ''v'' then 0 \<le> z \<and> z < 2 ^ 16
      else if d = ''i'' then - (2 ^ 31) \<le> z \<and> z < 2 ^ 31
      else if d = ''I'' \<or> d = ''l'' \<or> d = ''L'' \<or> d = ''N'' \<or> d = ''V'' then 0 \<le> z \<and> z < 2 ^ 31
      else if d = ''l_'' then - (2 ^ 63) \<le> z \<and> z < 2 ^ 63
      else if d = ''q'' then - (2 ^ 62) \<le> z \<and> z < 2 ^ 63
      else if d = ''L_'' \<or> d = ''Q'' then 0 \<le> z \<and> z < 2 ^ 64
      else if d = ''U'' then 0 \<le> z \<and> z < 2 ^ 36
      else d = ''w'' \<and> 0 \<le> z)"

definition int_directives :: "string list" where
  "int_directives = [''c'', ''C'', ''s'', ''S'', ''n'', ''v'', ''i'', ''I'', ''l'', ''L'', ''N'', ''V'', ''l_'', ''q'', ''L_'', ''Q'', ''U'', ''w'']"

definition round_trips :: "('f, 'o) pack_env \<Rightarrow> ('f, 'o) item list option \<Rightarrow> char \<Rightarrow> bool \<Rightarrow> ('f, 'o) item list \<Rightarrow>
     ('f, 'o) item list \<Rightarrow> bool" where
  "round_trips env assoc type natint vs ws \<longleftrightarrow>
     (\<exists>r v st. pack_directive env type natint (int (length vs)) True \<lparr>res = [], items = vs, associates = []\<rparr> = Some (Inr st) \<and>
       res st = r \<and> associates st = [] \<and> unpack_directive env assoc r type natint (int (length r)) True 0 = Inr (ws, v))"

lemma fixed_round_trips:
  assumes "\<forall>v \<in> set vs. \<exists>b. f v = Inr b \<and> int (length b) = sz \<and> g b = k v" "length vs < 2 ^ 40"
    "type \<in> set ''cCsSnviIlLNVqQfFeEdDgG''"
    "pack_element env type natint = Some (Some \<circ> f)" "unpack_element env type natint = Some (sz, adjust, g)" "0 < sz" "sz \<le> 8"
  shows "round_trips env assoc type natint vs (map k vs)"
proof -
  obtain r where r: "pack_each (Some \<circ> f) (length vs) vs = Some (Inr (r, []))"
    "unpack_items (type \<in> set ''qQ'') adjust sz g r 0 True (int (length r)) = Inr (map k vs, int (length r))"
    using items_back [OF assms(1,6,7,2)] by blast
  have t: "\<not> type \<in> set ''AaZBbHh''" "\<not> type \<in> set ''um''" "\<forall>c \<in> set ''xX@%MPpAaZBbHhUumw''. type \<noteq> c" using assms(3) by auto
  have "pack_directive env type natint (int (length vs)) True \<lparr>res = [], items = vs, associates = []\<rparr> =
      Some (Inr \<lparr>res = r, items = [], associates = []\<rparr>)"
    unfolding pack_directive_def if_not_P [OF t(1)] if_not_P [OF t(2)] Let_def assms(4) using t(3) r(1) by simp
  moreover have "unpack_directive env assoc r type natint (int (length r)) True 0 = Inr (map k vs, int (length r))"
    unfolding unpack_directive_def assms(5) using t(3) r(2) by simp
  ultimately show ?thesis unfolding round_trips_def by (metis pack_state.select_convs(1,3))
qed

lemma U_round_trips: "\<forall>v \<in> set vs. \<exists>z. is_int v z \<and> carries ''U'' z \<Longrightarrow> round_trips env assoc CHR ''U'' natint vs vs"
  using back_U [of vs env] by (auto simp: round_trips_def pack_directive_def pack_element_def unpack_directive_def carries_def)

lemma w_round_trips: "\<forall>v \<in> set vs. \<exists>z. is_int v z \<and> carries ''w'' z \<Longrightarrow> round_trips env assoc CHR ''w'' natint vs vs"
  using back_w [of vs env "\<lambda>_ v. (v, v)"]
  by (auto simp: round_trips_def pack_directive_def pack_element_def unpack_directive_def carries_def)

lemma round_trips_format:
  assumes "round_trips env assoc type natint vs ws" "type \<in> set ''cCsSnviIlLNVqQUwfFeEdDgG''" "natint \<Longrightarrow> type \<in> set ''lL''"
    "fmt = type # (if natint then ''_*'' else ''*'')"
  shows "\<exists>r. pack_pack env vs fmt = Some (Inr (r, [])) \<and> pack_unpack env assoc r fmt = Inr ws"
proof -
  have c: "\<not> ISSPACE type" "type \<noteq> CHR ''#''" "\<not> strchr ''@Xxu'' type" using assms(2) by (auto simp: ISSPACE_def strchr_def)
  from assms(1) obtain r v st where r:
    "pack_directive env type natint (int (length vs)) True \<lparr>res = [], items = vs, associates = []\<rparr> = Some (Inr st)"
    "res st = r" "associates st = []" "unpack_directive env assoc r type natint (int (length r)) True 0 = Inr (ws, v)"
    unfolding round_trips_def by blast
  have p: "pack_loop env fmt st' = pack_directive env type natint (int (length (items st'))) True st'" for st'
    using c assms(3,4) by (cases natint)
      (auto simp: pack_loop.simps(2) natint_mod_def pack_count_def deref_def strchr_def)
  have "pack_unpack env assoc r fmt = bindR (unpack_directive env assoc r type natint (int (length r)) True 0) (\<lambda>(vs, s). Inr vs)"
    using c assms(3,4) by (cases natint)
      (auto simp: pack_unpack_def unpack_loop.simps(2) natint_mod_def unpack_count_def deref_def strchr_def case_prod_beta)
  then show ?thesis using p r by (simp add: pack_pack_def)
qed

text \<open>A directive for elements of a fixed size that round-trip.\<close>

definition fixed_directive ::
    "('f, 'o) pack_env \<Rightarrow> string \<Rightarrow> char \<Rightarrow> bool \<Rightarrow> (('f, 'o) item \<Rightarrow> rb_error + byte list) \<Rightarrow> int \<Rightarrow> bool \<Rightarrow>
     (byte list \<Rightarrow> ('f, 'o) item) \<Rightarrow> bool" where
  "fixed_directive env d type natint f sz adjust g \<longleftrightarrow>
     d = type # (if natint then ''_'' else []) \<and> type \<in> set ''cCsSnviIlLNVqQ'' \<and> (natint \<longrightarrow> type \<in> set ''lL'') \<and>
     pack_element env type natint = Some (Some \<circ> f) \<and> unpack_element env type natint = Some (sz, adjust, g) \<and> 0 < sz \<and> sz \<le> 8 \<and>
     (\<forall>v z. is_int v z \<longrightarrow> carries d z \<longrightarrow> element_back f sz g v)"

lemmas directive_defs = fixed_directive_def pack_element_def unpack_element_def carries_def

lemma fixed_directives:
  fixes env :: "('f, 'o) pack_env"
  assumes "d \<in> set int_directives" "d \<noteq> ''U''" "d \<noteq> ''w''"
  shows "\<exists>type natint f sz adjust g. fixed_directive env d type natint f sz adjust g"
proof -
  from assms(1) show ?thesis unfolding int_directives_def list.set
  proof (elim insertE emptyE)
    assume "d = ''c''"
    then have "fixed_directive env d (CHR ''c'') False (pack_c env) 1 True unpack_c" using back_c [where env = env] by (auto simp: directive_defs)
    then show ?thesis by blast
  next
    assume "d = ''C''"
    then have "fixed_directive env d (CHR ''C'') False (pack_c env) 1 True unpack_C" using back_C [where env = env] by (auto simp: directive_defs)
    then show ?thesis by blast
  next
    assume "d = ''s''"
    then have "fixed_directive env d (CHR ''s'') False (pack_s env) 2 True unpack_s" using back_s [where env = env] by (auto simp: directive_defs)
    then show ?thesis by blast
  next
    assume "d = ''S''"
    then have "fixed_directive env d (CHR ''S'') False (pack_s env) 2 True unpack_S" using back_S [where env = env] by (auto simp: directive_defs)
    then show ?thesis by blast
  next
    assume "d = ''n''"
    then have "fixed_directive env d (CHR ''n'') False (pack_n env) 2 True unpack_n" using back_n(1) [where env = env] by (auto simp: directive_defs)
    then show ?thesis by blast
  next
    assume "d = ''v''"
    then have "fixed_directive env d (CHR ''v'') False (pack_v env) 2 True unpack_v" using back_n(2) [where env = env] by (auto simp: directive_defs)
    then show ?thesis by blast
  next
    assume "d = ''i''"
    then have "fixed_directive env d (CHR ''i'') False (pack_i env) 4 True unpack_i" using back_i [where env = env] by (auto simp: directive_defs)
    then show ?thesis by blast
  next
    assume "d = ''I''"
    then have "fixed_directive env d (CHR ''I'') False (pack_i env) 4 True unpack_I" using back_I [where env = env] by (auto simp: directive_defs)
    then show ?thesis by blast
  next
    assume "d = ''l''"
    then have "fixed_directive env d (CHR ''l'') False (pack_l env False) 4 True unpack_l" using back_l(1) [where env = env] by (auto simp: directive_defs)
    then show ?thesis by blast
  next
    assume "d = ''L''"
    then have "fixed_directive env d (CHR ''L'') False (pack_l env False) 4 True unpack_L" using back_l(2) [where env = env] by (auto simp: directive_defs)
    then show ?thesis by blast
  next
    assume "d = ''N''"
    then have "fixed_directive env d (CHR ''N'') False (pack_N env) 4 True unpack_N" using back_N [where env = env] by (auto simp: directive_defs)
    then show ?thesis by blast
  next
    assume "d = ''V''"
    then have "fixed_directive env d (CHR ''V'') False (pack_V env) 4 True unpack_V" using back_l(3) [where env = env] by (auto simp: directive_defs)
    then show ?thesis by blast
  next
    assume "d = ''l_''"
    then have "fixed_directive env d (CHR ''l'') True (pack_l env True) 8 True unpack_l" using back_l_native(1) [where env = env] by (auto simp: directive_defs)
    then show ?thesis by blast
  next
    assume "d = ''q''"
    then have "fixed_directive env d (CHR ''q'') False (pack_q env) 8 True unpack_q" using back_q(1) [where env = env] by (auto simp: directive_defs)
    then show ?thesis by blast
  next
    assume "d = ''L_''"
    then have "fixed_directive env d (CHR ''L'') True (pack_l env True) 8 True unpack_L" using back_l_native(2) [where env = env] by (auto simp: directive_defs)
    then show ?thesis by blast
  next
    assume "d = ''Q''"
    then have "fixed_directive env d (CHR ''Q'') False (pack_q env) 8 False unpack_Q" using back_q(2) [where env = env] by (auto simp: directive_defs)
    then show ?thesis by blast
  qed (use assms(2,3) in simp_all)
qed

text \<open>
  C5. Integer directives lose nothing that they can carry. For every integer directive (\<^verbatim>\<open>c C s S i I l L n N v V q Q\<close>, the
  native \<^verbatim>\<open>l_\<close> and \<^verbatim>\<open>L_\<close>, UTF-8 \<^verbatim>\<open>U\<close> and BER-compressed \<^verbatim>\<open>w\<close>), an array of integers in its range is packed without error
  and unpacked to the same values, Fixnums and big numbers alike. The range is that of the type, except that \<^verbatim>\<open>I\<close>, \<^verbatim>\<open>L\<close>, \<^verbatim>\<open>N\<close>
  and \<^verbatim>\<open>V\<close> stop at \<^verbatim>\<open>2**31\<close>, \<^verbatim>\<open>l\<close> does not carry negative numbers and \<^verbatim>\<open>q\<close> no big negative ones; \<^verbatim>\<open>w\<close> carries every natural
  number, of any size.
\<close>

theorem pack_integers_round_trip:
  assumes "d \<in> set int_directives" "\<forall>v \<in> set vs. \<exists>z. is_int v z \<and> carries d z" "length vs < 2 ^ 40"
  shows "\<exists>r. pack_pack env vs (d @ ''*'') = Some (Inr (r, [])) \<and> pack_unpack env assoc r (d @ ''*'') = Inr vs"
proof -
  consider "d = ''U''" | "d = ''w''" | "d \<noteq> ''U''" "d \<noteq> ''w''" by blast
  then show ?thesis
  proof cases
    case 1
    then show ?thesis
      using round_trips_format [OF U_round_trips, of vs False "d @ ''*''" env assoc] assms(2) by simp
  next
    case 2
    then show ?thesis
      using round_trips_format [OF w_round_trips, of vs False "d @ ''*''" env assoc] assms(2) by simp
  next
    case 3
    with fixed_directives [OF assms(1), of env] obtain type natint f sz adjust g where
      d: "d = type # (if natint then ''_'' else [])" and t: "type \<in> set ''cCsSnviIlLNVqQ''" "natint \<longrightarrow> type \<in> set ''lL''" and
      e: "pack_element env type natint = Some (Some \<circ> f)" "unpack_element env type natint = Some (sz, adjust, g)" "0 < sz" "sz \<le> 8"
        "\<forall>v z. is_int v z \<longrightarrow> carries d z \<longrightarrow> element_back f sz g v" unfolding fixed_directive_def by blast
    have "\<forall>v \<in> set vs. element_back f sz g v" using assms(2) e(5) by blast
    moreover have f: "type \<in> set ''cCsSnviIlLNVqQfFeEdDgG''" "type \<in> set ''cCsSnviIlLNVqQUwfFeEdDgG''" using t(1) by auto
    ultimately have "round_trips env assoc type natint vs vs"
      using fixed_round_trips [where k = "\<lambda>v. v", OF _ assms(3) f(1) e(1-4), of assoc] by (simp add: element_back_def)
    note this f(2)
    moreover have "d @ ''*'' = type # (if natint then ''_*'' else ''*'')" using d by simp
    ultimately show ?thesis using t(2) by (intro round_trips_format) blast+
  qed
qed

section \<open>Floats survive\<close>

lemma ucast_32 [simp]: "ucast (take_bit 32 (ucast x :: u64)) = (x :: u32)"
  by (rule bit_word_eqI) (auto simp: bit_simps)

lemma reverse_bytes_twice: "reverse_bytes (reverse_bytes x) = x"
proof -
  have "mem_image 4 (ucast (ucast (word_at bs) :: u32)) = bs" if "length bs = 4" for bs
  proof -
    from that obtain a b c d where "bs = [a, b, c, d]" by (auto simp: length_Suc_conv numeral_eq_Suc)
    moreover have "mem_image 4 (ucast (ucast (word_at [a, b, c, d]) :: u32)) = [a, b, c, d]"
      unfolding mem_image_def by (simp add: upt_rec) (intro conjI bit_word_eqI; auto simp: bit_simps dest: bit_imp_le_length)
    ultimately show ?thesis by simp
  qed
  then show ?thesis by (simp add: reverse_bytes_def word_at_image)
qed

lemma back_f:
  assumes "rb_Float env v = Inr d"
  shows "\<exists>b. pack_f env type v = Inr b \<and> int (length b) = 4 \<and> unpack_f env type b =
    Float (rb_float_new env (to_double env (if type = CHR ''g'' then swapf env (swapf env (to_single env d)) else to_single env d)))"
  using assms by (auto simp: pack_f_def unpack_f_def Let_def word_at_image)

lemma back_d:
  assumes "rb_Float env v = Inr d"
  shows "\<exists>b. pack_d env type v = Inr b \<and> int (length b) = 8 \<and> unpack_d env type b = Float (rb_float_new env d)"
  using assms by (auto simp: pack_d_def unpack_d_def Let_def word_at_image swapl_swapl)

text \<open>
  C37. Float directives. Objects that convert to floats are packed without error; with the double directives (\<^verbatim>\<open>d D E G\<close>) they
  come back with exactly their bits, in either byte order, with the single directives in the machine's byte order
  (\<^verbatim>\<open>f F e\<close>) rounded once to single precision. With \<^verbatim>\<open>g\<close> they come back so rounded when neither the rounded float nor its
  reversed bytes change by being converted to double and back; a reversed pattern that is a signalling NaN does
  change. If an object does not convert, \<^verbatim>\<open>pack\<close> raises its error and packs nothing.
\<close>

theorem pack_floats_round_trip:
  fixes env :: "('f, 'o) pack_env"
  assumes "type \<in> set ''fFegdDEG''" "length vs < 2 ^ 40"
    "stays = (\<lambda>f. to_single env (to_double env f) = f)"
    "k = (\<lambda>d. if type \<in> set ''fFeg''
             then to_double env (if type = CHR ''g'' then swapf env (swapf env (to_single env d)) else to_single env d) else d)"
  shows "(\<forall>ds. map (rb_Float env) vs = map Inr ds \<longrightarrow>
      (\<exists>r. pack_pack env vs [type, CHR ''*''] = Some (Inr (r, [])) \<and>
           pack_unpack env assoc r [type, CHR ''*''] = Inr (map (\<lambda>d. Float (rb_float_new env (k d))) ds))) \<and>
    (\<forall>d. stays (to_single env d) \<and> stays (reverse_bytes (to_single env d)) \<longrightarrow>
      k d = (if type \<in> set ''fFeg'' then to_double env (to_single env d) else d)) \<and>
    (\<forall>v e ws. rb_Float env v = Inl e \<longrightarrow> pack_pack env (v # ws) [type] = Some (Inl e))"
proof -
  let ?single = "type \<in> set ''fFeg''"
  define p where "p = (if ?single then pack_f env type else pack_d env type)"
  define u where "u = (if ?single then unpack_f env type else unpack_d env type)"
  define sz :: int where "sz = (if ?single then 4 else 8)"
  have t: "\<not> ISSPACE type" "type \<noteq> CHR ''#''" "type \<in> set ''cCsSnviIlLNVqQfFeEdDgG''" "type \<in> set ''cCsSnviIlLNVqQUwfFeEdDgG''"
    using assms(1) by (auto simp: ISSPACE_def)
  have "pack_element env type False = Some (Some \<circ> p) \<and> unpack_element env type False = Some (sz, True, u)"
    using assms(1) unfolding list.set by (elim insertE emptyE) (simp_all add: pack_element_def unpack_element_def p_def u_def sz_def)
  then have e: "pack_element env type False = Some (Some \<circ> p)" "unpack_element env type False = Some (sz, True, u)" by blast+
  have bk: "\<exists>b. p v = Inr b \<and> int (length b) = sz \<and> u b = Float (rb_float_new env (k d))" if "rb_Float env v = Inr d" for v d
    using back_f [OF that, of type] back_d [OF that, of type] by (simp add: p_def u_def sz_def assms(4))
  show ?thesis
  proof (intro conjI allI impI)
    fix ds assume ds: "map (rb_Float env) vs = map Inr ds"
    define c where "c v = (Float (rb_float_new env (k (projr (rb_Float env v)))) :: ('f, 'o) item)" for v
    have "\<forall>v \<in> set vs. rb_Float env v \<in> set (map Inr ds)" unfolding ds [symmetric] by simp
    then have "\<forall>v \<in> set vs. rb_Float env v = Inr (projr (rb_Float env v))" by auto
    then have "\<forall>v \<in> set vs. \<exists>b. p v = Inr b \<and> int (length b) = sz \<and> u b = c v" using bk unfolding c_def by blast
    from fixed_round_trips [OF this assms(2) t(3) e, of assoc] have "round_trips env assoc type False vs (map c vs)"
      by (simp add: sz_def)
    from round_trips_format [OF this t(4), of "[type, CHR ''*'']"] obtain r where
      r: "pack_pack env vs [type, CHR ''*''] = Some (Inr (r, []))" "pack_unpack env assoc r [type, CHR ''*''] = Inr (map c vs)" by auto
    have "map c vs = map (\<lambda>x. Float (rb_float_new env (k (projr x)))) (map (rb_Float env) vs)" by (simp add: c_def)
    then have "map c vs = map (\<lambda>d. Float (rb_float_new env (k d))) ds" unfolding ds by simp
    with r show "\<exists>r. pack_pack env vs [type, CHR ''*''] = Some (Inr (r, [])) \<and>
           pack_unpack env assoc r [type, CHR ''*''] = Inr (map (\<lambda>d. Float (rb_float_new env (k d))) ds)" by auto
  next
    fix d assume "stays (to_single env d) \<and> stays (reverse_bytes (to_single env d))"
    then show "k d = (if type \<in> set ''fFeg'' then to_double env (to_single env d) else d)"
      by (simp add: assms(3,4) swapf_def reverse_bytes_twice)
  next
    fix v e' ws assume v: "rb_Float env v = Inl e'"
    have "\<forall>c \<in> set ''xX@%MPpAaZBbHhum''. type \<noteq> c" using assms(1) by auto
    then have "pack_directive env type False 1 False st = bindO (pack_each (Some \<circ> p) 1 (items st)) (\<lambda>(bytes, rest).
      Some (Inr (st\<lparr>res := res st @ bytes, items := rest\<rparr>)))" for st unfolding pack_directive_def Let_def e(1) by simp
    moreover have "p v = Inl e'" using v by (simp add: p_def pack_f_def pack_d_def)
    ultimately show "pack_pack env (v # ws) [type] = Some (Inl e')"
      using pack_one [OF t(1,2), of "[]" env] by (simp add: pack_pack_def count_text_def count_of_def)
  qed
qed

section \<open>Instances\<close>

text \<open>An interpreter whose floats are the bits of a double, with truncation to the upper half as single precision.\<close>

definition ex_env :: "(u64, unit) pack_env" where
  "ex_env = \<lparr>to_str = \<lambda>_. Inl TypeError, to_s = \<lambda>_. Inr [], to_long = \<lambda>_. Inl TypeError, to_quad = \<lambda>_. Inl TypeError,
     rb_Float = \<lambda>v. case v of Float d \<Rightarrow> Inr d | _ \<Rightarrow> Inl TypeError,
     to_single = \<lambda>d. ucast (drop_bit 32 d), to_double = \<lambda>f. push_bit 32 (ucast f), rb_float_new = \<lambda>d. d, address = \<lambda>s. of_nat (length s)\<rparr>"

theorem pack_strings_round_trip_witness:
  "(\<exists>r. pack_pack ex_env [Other (Str [1, 2, 255, 0])] ''u45'' = Some (Inr (r, [])) \<and>
        pack_unpack ex_env None r ''u45'' = Inr [Other (Str [1, 2, 255, 0])]) \<and>
   (\<exists>t. pack_unpack ex_env None [1, 2, 255, 0] ''H*'' = Inr [Other (Str t)] \<and>
        pack_pack ex_env [Other (Str t)] ''H*'' = Some (Inr ([1, 2, 255, 0], [])))"
proof -
  have "count_text ''45''" "line_len (nat (count_of ''45'')) \<le> 63"
    by (simp_all add: count_text_def count_of_def ISDIGIT_def digit_of_def line_len_def)
  then show ?thesis
    using pack_strings_round_trip [of "''45''" "CHR ''u''" "''u45''" "CHR ''H''" ex_env "[1, 2, 255, 0]" None] by simp
qed

theorem pack_integers_round_trip_witness:
  "''s'' \<in> set int_directives \<and>
   (\<exists>r. pack_pack ex_env [Fixnum (- 2), Fixnum 32767] ''s*'' = Some (Inr (r, [])) \<and>
        pack_unpack ex_env None r ''s*'' = Inr [Fixnum (- 2), Fixnum 32767])"
proof -
  let ?vs = "[Fixnum (- 2), Fixnum 32767] :: (u64, unit) item list"
  have "is_int (Fixnum (- 2) :: (u64, unit) item) (- 2)" "is_int (Fixnum 32767 :: (u64, unit) item) 32767"
    by (simp_all add: is_int_def FIXABLE_iff)
  then have "\<forall>v \<in> set ?vs. \<exists>z. is_int v z \<and> carries ''s'' z" by (force simp: carries_def)
  moreover have "''s'' \<in> set int_directives" by (simp add: int_directives_def)
  ultimately show ?thesis using pack_integers_round_trip [of "''s''" ?vs ex_env None] by simp
qed

text \<open>The same with the conversions of the machine on signalling NaNs, which become quiet.\<close>

definition quiet :: "u32 \<Rightarrow> u32" where
  "quiet f = (if f AND 0x7f800000 = 0x7f800000 \<and> f AND 0x007fffff \<noteq> 0 then f OR 0x00400000 else f)"

definition quiet_env :: "(u64, unit) pack_env" where
  "quiet_env = ex_env\<lparr>to_double := \<lambda>f. push_bit 32 (ucast (quiet f))\<rparr>"

theorem pack_floats_round_trip_witness:
  "(\<exists>r. pack_pack ex_env [Float 0x3ff0000000000001] ''G*'' = Some (Inr (r, [])) \<and>
        pack_unpack ex_env None r ''G*'' = Inr [Float 0x3ff0000000000001]) \<and>
   pack_pack ex_env [Fixnum 1] ''G'' = Some (Inl TypeError) \<and>
   (\<exists>r. pack_pack quiet_env [Float 0x3f80a07f00000000] ''g*'' = Some (Inr (r, [])) \<and>
        pack_unpack quiet_env None r ''g*'' = Inr [Float 0x3f80e07f00000000])"
proof (intro conjI)
  have e: "rb_Float ex_env (Float d) = Inr d" "rb_Float ex_env (Fixnum 1) = Inl TypeError" "rb_float_new ex_env d = d"
    "rb_Float quiet_env (Float d) = Inr d" "rb_float_new quiet_env d = d" for d
    by (simp_all add: ex_env_def quiet_env_def)
  note t = pack_floats_round_trip [of "CHR ''G''" "[Float 0x3ff0000000000001]" _ ex_env _ None, OF _ _ refl refl]
  have "(\<forall>ds. map (rb_Float ex_env) [Float 0x3ff0000000000001] = map Inr ds \<longrightarrow>
      (\<exists>r. pack_pack ex_env [Float 0x3ff0000000000001] ''G*'' = Some (Inr (r, [])) \<and>
           pack_unpack ex_env None r ''G*'' = Inr (map (\<lambda>d. Float (rb_float_new ex_env d)) ds)))"
    "\<forall>v e ws. rb_Float ex_env v = Inl e \<longrightarrow> pack_pack ex_env (v # ws) ''G'' = Some (Inl e)" using t by simp_all
  from this(1) [rule_format, of "[0x3ff0000000000001]"] this(2) [rule_format, of "Fixnum 1" TypeError "[]"]
  show "\<exists>r. pack_pack ex_env [Float 0x3ff0000000000001] ''G*'' = Some (Inr (r, [])) \<and>
        pack_unpack ex_env None r ''G*'' = Inr [Float 0x3ff0000000000001]" "pack_pack ex_env [Fixnum 1] ''G'' = Some (Inl TypeError)"
    using e by simp_all
  have k: "to_double quiet_env (swapf quiet_env (swapf quiet_env (to_single quiet_env 0x3f80a07f00000000))) = 0x3f80e07f00000000" by code_simp
  have "\<forall>ds. map (rb_Float quiet_env) [Float 0x3f80a07f00000000] = map Inr ds \<longrightarrow>
      (\<exists>r. pack_pack quiet_env [Float 0x3f80a07f00000000] ''g*'' = Some (Inr (r, [])) \<and>
           pack_unpack quiet_env None r ''g*'' = Inr (map (\<lambda>d. Float (rb_float_new quiet_env
             (to_double quiet_env (swapf quiet_env (swapf quiet_env (to_single quiet_env d)))))) ds))"
    using pack_floats_round_trip [of "CHR ''g''" "[Float 0x3f80a07f00000000]" _ quiet_env _ None, OF _ _ refl refl] by simp
  from this [rule_format, of "[0x3f80a07f00000000]"]
  show "\<exists>r. pack_pack quiet_env [Float 0x3f80a07f00000000] ''g*'' = Some (Inr (r, [])) \<and>
        pack_unpack quiet_env None r ''g*'' = Inr [Float 0x3f80e07f00000000]"
    using e k by simp
qed

end
