(* ===== verification/Pack_Results.thy ===== *)
theory Pack_Results
  imports Pack_Props
begin

text \<open>
  What \<^verbatim>\<open>String#unpack\<close> returns is well formed, and where the 32-bit and 64-bit integer directives go wrong on a 64-bit
  machine.
\<close>

section \<open>Well-formed results\<close>

lemma canonical_LONG2FIX [simp]: "canonical (LONG2FIX i)"
proof -
  have "FIXABLE (sint (signed_drop_bit 1 (push_bit 1 i)))"
    using sint_range64 [of "push_bit 1 i"] by (simp add: FIXABLE_iff sint_signed_drop_bit_eq drop_bit_eq_div) linarith
  then show ?thesis by (simp add: LONG2FIX_def)
qed

lemma canonical_results [simp]: "canonical (rb_int2inum n)" "canonical (rb_uint2inum n)" "canonical (rb_quad_unpack n b)"
proof -
  show "canonical (rb_int2inum n)" using is_int_int2inum [of n "sint n"] unfolding is_int_def by blast
  show "canonical (rb_uint2inum n)" using is_int_uint2inum [of n] unfolding is_int_def by blast
  show "canonical (rb_quad_unpack n b)" using is_int_quad [of n] unfolding is_int_def by (cases b) auto
qed

lemma element_canonical [simp]:
  "canonical (unpack_c b)" "canonical (unpack_C b)" "canonical (unpack_s b)" "canonical (unpack_S b)" "canonical (unpack_i b)"
  "canonical (unpack_I b)" "canonical (unpack_l b)" "canonical (unpack_L b)" "canonical (unpack_q b)" "canonical (unpack_Q b)"
  "canonical (unpack_n b)" "canonical (unpack_N b)" "canonical (unpack_v b)" "canonical (unpack_V b)"
  "canonical (unpack_f env type b)" "canonical (unpack_d env type b)"
  by (simp_all add: Let_def unpack_c_def unpack_C_def unpack_s_def unpack_S_def unpack_i_def unpack_I_def
      unpack_l_def unpack_L_def unpack_q_def unpack_Q_def unpack_n_def unpack_N_def unpack_v_def unpack_V_def unpack_f_def unpack_d_def)

lemma unpack_element_canonical:
  assumes "unpack_element env type natint = Some (sz, adjust, g)"
  shows "canonical (g b)"
proof -
  have "case unpack_element env type natint of None \<Rightarrow> True | Some (sz, adjust, g) \<Rightarrow> canonical (g b)"
    unfolding unpack_element_def Let_def by (simp only: if_distrib [of "case_option _ _"] option.case prod.case element_canonical canonical.simps if_cancel)
  with assms show ?thesis by simp
qed

lemma read_items_canonical: "read_items g sz n str s = Inr (vs, s') \<Longrightarrow> (\<And>b. canonical (g b)) \<Longrightarrow> \<forall>v \<in> set vs. canonical v"
  by (induction g sz n str s arbitrary: vs s' rule: read_items.induct) (fastforce simp: bindR_eq_Inr)+

lemma ber_read_big_canonical: "ber_read_big fm nm fp np big s = Inr (Some v, r) \<Longrightarrow> canonical v"
  by (induction fm nm fp np big s rule: ber_read_big.induct)
    (auto simp: Let_def rb_big_plus_def split: VALUE.splits if_splits)

lemma unpack_w_canonical: "unpack_w fm nm fp np len ul s = Inr (vs, r) \<Longrightarrow> \<forall>v \<in> set vs. canonical v"
proof (induction "length s" arbitrary: len ul s vs r rule: less_induct)
  case less
  show ?case
  proof (cases s)
    case Nil
    then show ?thesis using less.prems by simp
  next
    case (Cons x t)
    have IH: "\<forall>v \<in> set ws. canonical v" if "unpack_w fm nm fp np l u t' = Inr (ws, q)" "length t' \<le> length t" for l u t' ws q
      using less.hyps [of t' l u ws q] that Cons by simp
    let ?ul = "push_bit 7 ul OR ucast (x AND 0x7f)"
    from less.prems [unfolded Cons unpack_w.simps(2)] consider "vs = []"
      | ws where "unpack_w fm nm fp np (len - 1) 0 t = Inr (ws, r)" "vs = rb_uint2inum ?ul # ws"
      | t' where "ber_read_big fm nm fp np (Bignum (rb_uint2big ?ul)) t = Inr (None, t')" "unpack_w fm nm fp np len ?ul t' = Inr (vs, r)"
      | v t' ws where "ber_read_big fm nm fp np (Bignum (rb_uint2big ?ul)) t = Inr (Some v, t')"
          "unpack_w fm nm fp np (len - 1) 0 t' = Inr (ws, r)" "vs = v # ws"
      | "unpack_w fm nm fp np len ?ul t = Inr (vs, r)"
      unfolding Let_def by (auto simp: bindR_eq_Inr split: if_split_asm option.split_asm) (metis option.exhaust)
    then show ?thesis
    proof cases
      case 2
      then show ?thesis using IH [of "len - 1" 0 t ws r] by simp
    next
      case 3
      then show ?thesis using IH ber_read_big_length by blast
    next
      case 4
      then show ?thesis using IH [of "len - 1" 0 t' ws r] ber_read_big_canonical [of fm nm fp np _ t v t'] ber_read_big_length by fastforce
    next
      case 5
      then show ?thesis using IH by blast
    qed simp
  qed
qed

text \<open>Every value that a directive returns is canonical.\<close>

definition well_formed :: "rb_error + ('f, 'o) item list \<times> int \<Rightarrow> bool" where
  "well_formed r \<longleftrightarrow> (case r of Inl e \<Rightarrow> True | Inr (vs, s) \<Rightarrow> \<forall>v \<in> set vs. canonical v)"

lemma well_formed_simps [simp]: "well_formed (Inl e)" "well_formed (Inr (vs, s)) \<longleftrightarrow> (\<forall>v \<in> set vs. canonical v)"
  by (simp_all add: well_formed_def)

lemma well_formed_bind [intro!]: "(\<And>x. m = Inr x \<Longrightarrow> well_formed (k x)) \<Longrightarrow> well_formed (bindR m k)"
  by (cases m) simp_all

lemma well_formed_if: "well_formed a \<Longrightarrow> well_formed b \<Longrightarrow> well_formed (if c then a else b)"
  by simp

lemma unpack_U_loop_canonical: "\<forall>v \<in> set (fst (unpack_U_loop len s)). canonical v"
  by (induction len s rule: unpack_U_loop.induct) (subst unpack_U_loop.simps, auto simp: Let_def case_prod_beta, metis surjective_pairing)

lemma unpack_p_loop_canonical: "well_formed (unpack_p_loop env assoc n str s)"
proof (induction env assoc n str s rule: unpack_p_loop.induct)
  case (2 env assoc n str s)
  show ?case
  proof (cases "unpack_p_loop env assoc n str (s + 8)")
    case (Inr x)
    with 2 show ?thesis by (cases x) (auto simp: bindR_eq_Inr well_formed_def split: sum.splits if_splits)
  qed (auto split: if_splits)
qed simp

lemma unpack_items_canonical:
  assumes "unpack_element env type natint = Some (sz, adjust, g)"
  shows "well_formed (unpack_items quad adjust sz g str s star len)"
  unfolding unpack_items_def Let_def
  using unpack_element_canonical [OF assms] read_items_canonical [of g sz]
  by (auto simp: case_prod_beta) 

lemma unpack_directive_canonical: "well_formed (unpack_directive env assoc str type natint len star s)"
proof -
  have a: "well_formed (unpack_a strip str s len)" for strip by (auto simp: unpack_a_def Let_def)
  have d: "well_formed (unpack_digits dec per str s star len)" for dec per by (auto simp: unpack_digits_def Let_def)
  have u: "well_formed (unpack_U str s len)" "well_formed (unpack_uu str s)" "well_formed (unpack_base64 str s)" "well_formed (unpack_qp str s)"
    using unpack_U_loop_canonical by (fastforce simp: unpack_U_def unpack_uu_def unpack_base64_def unpack_qp_def Let_def case_prod_beta)+
  have p: "well_formed (unpack_P env assoc str s len)" "well_formed (unpack_p env assoc str s len)"
    using unpack_p_loop_canonical by (auto simp: unpack_P_def unpack_p_def Let_def)
  have w: "well_formed (unpack_ber str s len)" by (auto simp: unpack_ber_def dest: unpack_w_canonical)
  have e: "well_formed (case unpack_element env type natint of None \<Rightarrow> Inr ([], s)
            | Some (sz, adjust, f) \<Rightarrow> unpack_items (type \<in> set ''qQ'') adjust sz f str s star len)"
    using unpack_items_canonical by (auto split: option.splits)
  show ?thesis unfolding unpack_directive_def by (intro well_formed_if a d u p w e) simp_all
qed

text \<open>One round of the format loop: it skips, or runs a directive and goes on behind it.\<close>

lemma unpack_loop_round:
  obtains (skip) p' where "unpack_loop env assoc str (type # p) s = unpack_loop env assoc str p' s" "length p' \<le> length p"
  | (bad) "unpack_loop env assoc str (type # p) s = Inl ArgError"
  | (run) natint len star p1 p2 where
      "natint_mod type p = Inr (natint, p1)" "unpack_count type (avail str s) p1 = (len, star, p2)" "length p2 \<le> length p"
      "unpack_loop env assoc str (type # p) s =
         bindR (unpack_directive env assoc str type natint len star s) (\<lambda>(vs, s).
         bindR (unpack_loop env assoc str p2 s) (\<lambda>ws. Inr (vs @ ws)))"
proof (cases "ISSPACE type \<or> type = CHR ''#''")
  case True
  have "unpack_loop env assoc str (type # p) s = unpack_loop env assoc str (if ISSPACE type then p else skip_comment p) s"
    using True by (cases "ISSPACE type") (simp_all add: unpack_loop.simps(2))
  then show ?thesis by (rule skip) (simp add: length_skip_comment)
next
  case False
  show ?thesis
  proof (cases "natint_mod type p")
    case (Inl e)
    then have "e = ArgError" by (auto simp: natint_mod_def split: if_splits)
    then show ?thesis using bad False Inl by (simp add: unpack_loop.simps(2))
  next
    case (Inr x)
    obtain natint p1 where x: "x = (natint, p1)" by (cases x)
    obtain len star p2 where c: "unpack_count type (avail str s) p1 = (len, star, p2)" by (metis prod_cases3)
    have "length p2 \<le> length p" using length_natint_mod [of type p] length_unpack_count [OF c] Inr x by fastforce
    then show ?thesis using run [of natint p1 len star p2] False Inr x c by (simp add: unpack_loop.simps(2))
  qed
qed

text \<open>
  C20. What \<^verbatim>\<open>unpack\<close> returns is well formed: whatever the string and the format, each value in the array is a string, a
  float, nil or an integer in canonical form (a Fixnum whenever one can hold it, a big number without leading zeros
  otherwise), as every other operation of the interpreter expects it.
\<close>

theorem unpack_canonical:
  assumes "pack_unpack env assoc str fmt = Inr vs"
  shows "\<forall>v \<in> set vs. canonical v"
proof -
  have "unpack_loop env assoc str fmt s = Inr vs \<Longrightarrow> \<forall>v \<in> set vs. canonical v" for s
  proof (induction "length fmt" arbitrary: fmt s vs rule: less_induct)
    case less
    show ?case
    proof (cases fmt)
      case (Cons type p)
      show ?thesis
      proof (cases rule: unpack_loop_round [of env assoc str type p s])
        case (skip p')
        then show ?thesis using less.hyps [of p' s vs] less.prems Cons by simp
      next
        case bad
        then show ?thesis using less.prems Cons by simp
      next
        case (run natint len star p1 p2)
        from run(4) less.prems Cons obtain us s' ws where r: "unpack_directive env assoc str type natint len star s = Inr (us, s')"
          "unpack_loop env assoc str p2 s' = Inr ws" "vs = us @ ws" by (auto simp: bindR_eq_Inr)
        have "\<forall>v \<in> set ws. canonical v" using less.hyps [of p2 s' ws] r(2) run(3) Cons by simp
        then show ?thesis using unpack_directive_canonical [of env assoc str type natint len star s] r(1,3) by auto
      qed
    qed (use less.prems in simp)
  qed
  with assms show ?thesis unfolding pack_unpack_def by blast
qed

section \<open>Where the integer directives fail\<close>

lemma big2long_value:
  assumes "big_norm_ok x"
  shows "rb_big2long x = (if - (2 ^ 63) \<le> big_val x \<and> big_val x < 2 ^ 63 then Inr (word_of_int (big_val x)) else Inl RangeError)"
proof (cases "2 ^ 64 \<le> dval (digits x)")
  case False
  then show ?thesis using big2ulong_value [OF assms]
    by (auto simp: rb_big2long_def big_val_def sint_of_nat not_le)
qed (auto simp: rb_big2long_def big2ulong_value [OF assms] big_val_def)

lemma is_int_num2int_range:
  assumes "is_int v z" "z < - (2 ^ 31) \<or> 2 ^ 31 \<le> z"
  shows "NUM2INT env v = Inl RangeError"
  using assms(1)
proof (cases rule: is_int_cases)
  case (Fix n)
  then show ?thesis using assms(2) by (auto simp: NUM2INT_def rb_num2int_def)
next
  case (Big b)
  then have "big_norm_ok b" by simp
  from big2long_value [OF this] show ?thesis using assms(2) Big(1,3)
    by (auto simp: NUM2INT_def rb_num2int_def sint_word_of_int split: if_splits)
qed

lemma pack_int_range:
  fixes env :: "('f, 'o) pack_env"
  assumes "is_int v z" "z < - (2 ^ 31) \<or> 2 ^ 31 \<le> z" "type \<in> set ''cCsSiIlLnNvV''"
  shows "\<exists>f. pack_element env type False = Some f \<and> f v = Some (Inl RangeError)"
proof -
  have n: "NUM2INT env v = Inl RangeError" by (rule is_int_num2int_range [OF assms(1,2)])
  note u = NUM2UINT_def NATINT_U32_def pack_c_def pack_s_def pack_i_def pack_l_def pack_n_def pack_N_def pack_v_def pack_V_def
  from assms(3) show ?thesis unfolding list.set
    by (elim insertE emptyE) (simp_all add: pack_element_def u n or_nil_int [OF assms(1)])
qed

lemma count_text_none [simp]: "count_text []" "count_of [] = 1"
  by (simp_all add: count_text_def count_of_def)

lemma unpack_one_item:
  assumes "int (length r) = sz" "0 < sz" "sz \<le> 8"
  shows "unpack_items quad adjust sz g r 0 False 1 = Inr ([g r], sz)"
proof -
  have "length_adjust quad sz sz False 1 = (1, 0)"
    using assms(2,3) by (auto simp: length_adjust_def Let_def cdiv_def sgn_if)
  moreover have "bytes_at r 0 sz = Inr r" using assms by (simp add: bytes_at_def)
  ultimately show ?thesis using assms by (simp add: unpack_items_def avail_def)
qed

lemma pack_one_item:
  assumes "type \<in> set ''cCsSnviIlLNVqQ''" "pack_element env type False = Some f" "f v = Some x"
  shows "pack_pack env (v # vs) [type] = Some (bindR x (\<lambda>b. Inr (b, [])))"
proof -
  have c: "\<not> ISSPACE type" "type \<noteq> CHR ''#''" "\<not> type \<in> set ''AaZBbHh''" "\<not> type \<in> set ''um''" "\<forall>c \<in> set ''xX@%MPp''. type \<noteq> c"
    using assms(1) by (auto simp: ISSPACE_def)
  have "pack_directive env type False 1 False st = bindO (pack_each f 1 (items st)) (\<lambda>(bytes, rest).
      Some (Inr (st\<lparr>res := res st @ bytes, items := rest\<rparr>)))" for st
    unfolding pack_directive_def if_not_P [OF c(3)] if_not_P [OF c(4)] Let_def assms(2) using c(5) by simp
  then show ?thesis using pack_one [OF c(1,2) count_text_none(1), of env] assms(3)
    by (cases x) (simp_all add: pack_pack_def)
qed

lemma unpack_one_element:
  assumes "type \<in> set ''cCsSnviIlLNVqQ''" "unpack_element env type False = Some (sz, adjust, g)" "int (length r) = sz" "0 < sz" "sz \<le> 8"
  shows "pack_unpack env assoc r [type] = Inr [g r]"
proof -
  have c: "\<not> ISSPACE type" "type \<noteq> CHR ''#''" "type \<noteq> CHR ''@''" "\<forall>c \<in> set ''xX@%MPpAaZBbHhUumw''. type \<noteq> c"
    using assms(1) by (auto simp: ISSPACE_def)
  have "unpack_directive env assoc r type False 1 False 0 = Inr ([g r], sz)"
    unfolding unpack_directive_def assms(2) using c(4) unpack_one_item [OF assms(3-5)] by simp
  then show ?thesis using unpack_one [OF c(1-3) count_text_none(1), of env assoc r] by simp
qed

lemma natint_negative:
  assumes "is_int v z" "- (2 ^ 31) \<le> z" "z < 0"
  shows "NATINT_U32 env False v = Inr (word_of_int (z + 2 ^ 32))"
proof -
  have "uint (word_of_int z :: u32) = z + 2 ^ 32" using assms(2,3)
    by (simp add: uint_word_of_int take_bit_eq_mod) (smt (verit) mod_add_self2 mod_pos_pos_trivial)
  then have "ucast (word_of_int z :: u32) = (word_of_int (z + 2 ^ 32) :: u64)" by (metis word_of_int_uint uint_word_of_int unsigned_word_eqI ucast_eq)
  then show ?thesis using is_int_num2int [OF assms(1,2), of env] assms(3) by (simp add: NATINT_U32_def NUM2UINT_def)
qed

text \<open>
  C19. Where the integer directives fail on a 64-bit machine. A number that is no C \<^verbatim>\<open>int\<close> is refused with RangeError by
  every directive of at most 32 bits, even when it is in the range of the unsigned 32-bit type (\<^verbatim>\<open>I L N V\<close>), and nothing is
  packed. A negative 32-bit number packed with \<^verbatim>\<open>l\<close> comes back \<^verbatim>\<open>2**32\<close> too big, since \<^verbatim>\<open>unpack\<close> does not extend its sign.
  A negative number between \<^verbatim>\<open>-2**63\<close> and \<^verbatim>\<open>-2**62\<close>, which is a big number, loses its sign with \<^verbatim>\<open>q\<close>.
\<close>

theorem pack_integer_flaws:
  fixes env :: "('f, 'o) pack_env"
  assumes "is_int v z" "type \<in> set ''cCsSiIlLnNvV''"
  shows "(z < - (2 ^ 31) \<or> 2 ^ 31 \<le> z \<longrightarrow> pack_pack env (v # vs) [type] = Some (Inl RangeError)) \<and>
    (- (2 ^ 31) \<le> z \<and> z < 0 \<longrightarrow>
       (\<exists>r w. pack_pack env [v] ''l'' = Some (Inr (r, [])) \<and> pack_unpack env assoc r ''l'' = Inr [w] \<and> is_int w (z + 2 ^ 32))) \<and>
    (- (2 ^ 63) < z \<and> z < - (2 ^ 62) \<longrightarrow>
       (\<exists>r w. pack_pack env [v] ''q'' = Some (Inr (r, [])) \<and> pack_unpack env assoc r ''q'' = Inr [w] \<and> is_int w (- z)))"
proof (intro conjI impI)
  assume "z < - (2 ^ 31) \<or> 2 ^ 31 \<le> z"
  then obtain f where "pack_element env type False = Some f" "f v = Some (Inl RangeError)"
    using pack_int_range [OF assms(1) _ assms(2)] by blast
  moreover have "type \<in> set ''cCsSnviIlLNVqQ''" using assms(2) by auto
  ultimately show "pack_pack env (v # vs) [type] = Some (Inl RangeError)" by (simp only: pack_one_item bindR_simps)
next
  assume z: "- (2 ^ 31) \<le> z \<and> z < 0"
  let ?r = "mem_image 4 (word_of_int (z + 2 ^ 32))"
  have "pack_l env False v = Inr ?r" using natint_negative [OF assms(1)] z by (simp add: pack_l_def or_nil_int [OF assms(1)] del: of_int_add)
  then have "pack_pack env [v] ''l'' = Some (Inr (?r, []))"
    using pack_one_item [of "CHR ''l''" env "Some \<circ> pack_l env False" v "Inr ?r" "[]"] by (simp add: pack_element_def del: of_int_add)
  moreover have "pack_unpack env assoc ?r ''l'' = Inr [unpack_l ?r]"
    by (rule unpack_one_element [where sz = 4]) (simp_all add: unpack_element_def)
  moreover have "is_int (unpack_l ?r :: ('f, 'o) item) (z + 2 ^ 32)"
  proof -
    have "take_bit 32 (word_of_int (z + 2 ^ 32)) = (word_of_int (z + 2 ^ 32) :: u64)" using z by (intro take_bit_word_of_int) auto
    moreover have "sint (word_of_int (z + 2 ^ 32) :: u64) = z + 2 ^ 32" using z by (intro sint_word_of_int) auto
    ultimately show ?thesis unfolding unpack_l_def word_at_image by (simp del: of_int_add)
  qed
  ultimately show "\<exists>r w. pack_pack env [v] ''l'' = Some (Inr (r, [])) \<and> pack_unpack env assoc r ''l'' = Inr [w] \<and> is_int w (z + 2 ^ 32)" by blast
next
  assume z: "- (2 ^ 63) < z \<and> z < - (2 ^ 62)"
  let ?r = "mem_image 8 (word_of_int (- z))"
  have "rb_quad_pack v = Some (word_of_int (- z))" 
    using assms(1) z by (cases rule: is_int_cases) (auto simp: FIXABLE_iff rb_quad_pack_value)
  then have "pack_q env v = Inr ?r" by (simp add: pack_q_def or_nil_int [OF assms(1)])
  then have "pack_pack env [v] ''q'' = Some (Inr (?r, []))"
    using pack_one_item [of "CHR ''q''" env "Some \<circ> pack_q env" v "Inr ?r" "[]"] by (simp add: pack_element_def)
  moreover have "pack_unpack env assoc ?r ''q'' = Inr [unpack_q ?r]"
    by (rule unpack_one_element [where sz = 8]) (simp_all add: unpack_element_def)
  moreover have "is_int (unpack_q ?r :: ('f, 'o) item) (- z)"
    using is_int_quad(1) [of "word_of_int (- z)"] sint_word_of_int [of "- z"] z by (simp add: unpack_q_def word_at_image)
  ultimately show "\<exists>r w. pack_pack env [v] ''q'' = Some (Inr (r, [])) \<and> pack_unpack env assoc r ''q'' = Inr [w] \<and> is_int w (- z)" by blast
qed

theorem pack_integer_flaws_witness:
  "pack_pack ex_env [Fixnum 4294967295] ''N'' = Some (Inl RangeError) \<and>
   (\<exists>r w. pack_pack ex_env [Fixnum (- 1)] ''l'' = Some (Inr (r, [])) \<and> pack_unpack ex_env None r ''l'' = Inr [w] \<and>
      is_int w 4294967295)"
proof -
  have "is_int (Fixnum 4294967295 :: (u64, unit) item) 4294967295" "is_int (Fixnum (- 1) :: (u64, unit) item) (- 1)"
    by (simp_all add: is_int_def FIXABLE_iff)
  from this [THEN pack_integer_flaws, of "CHR ''N''" ex_env "[]" None] show ?thesis by simp
qed

theorem unpack_canonical_witness:
  "pack_unpack ex_env None [255, 255, 255, 255] ''L'' = Inr [Fixnum 4294967295] \<and>
   canonical (Fixnum 4294967295 :: (u64, unit) item)"
proof -
  have "pack_unpack ex_env None [255, 255, 255, 255] ''L'' = Inr [unpack_L [255, 255, 255, 255]]"
    by (rule unpack_one_element [where sz = 4]) (simp_all add: unpack_element_def)
  moreover have "(unpack_L [255, 255, 255, 255] :: (u64, unit) item) = Fixnum 4294967295"
    by (simp add: unpack_L_def) code_simp
  ultimately have "pack_unpack ex_env None [255, 255, 255, 255] ''L'' = Inr [Fixnum 4294967295]" by simp
  with unpack_canonical [OF this] show ?thesis by simp
qed

end
