(* ===== verification/St_Reach.thy ===== *)
theory St_Reach
  imports Hash_Live
begin

text \<open>
  The tables a program can build: every operation of \<^verbatim>\<open>st.c\<close> as a step, deletion by marking and the removal of the
  marked entries included, with the invariant of all of them by rule induction.
\<close>

section \<open>Reachable tables\<close>




section \<open>Properties\<close>



end
