(* ===== verification/String_Core.thy ===== *)
theory String_Core
  imports Array_Sets Numeric_Fix
begin

text \<open>
  String objects of \<^verbatim>\<open>src/ruby/string.c\<close>: access, splicing, search, successor and iteration by it, letter case. The
  buffer of a string is the list of its bytes, followed in memory by a terminating null byte; that a buffer can be
  shared until the first change (\<^verbatim>\<open>str_make_independent\<close>) has no effect on the bytes and is left out, as are spare
  capacity, taint propagation and the operations on regular expressions. Integer arguments are the \<^verbatim>\<open>long\<close>s that \<^verbatim>\<open>NUM2LONG\<close> gives.
\<close>

section \<open>Objects\<close>

text \<open>A string created by \<^verbatim>\<open>rb_str_s_alloc\<close> alone has no buffer.\<close>

record strobj =
  sbytes :: "byte list"
  has_ptr :: bool
  sfrozen :: bool
  stainted :: bool

definition str_ok :: "strobj \<Rightarrow> bool" where
  "str_ok s \<longleftrightarrow> (\<not> has_ptr s \<longrightarrow> sbytes s = []) \<and> int (length (sbytes s)) + 1 < address_space"

definition rb_str_s_alloc :: strobj where
  "rb_str_s_alloc = \<lparr>sbytes = [], has_ptr = False, sfrozen = False, stainted = False\<rparr>"

definition rb_str_modify :: "int \<Rightarrow> strobj \<Rightarrow> rb_error + unit" where
  "rb_str_modify safe str =
     (if sfrozen str then Inl FrozenError
      else if \<not> stainted str \<and> safe \<ge> 4 then Inl SecurityError
      else Inr ())"

text \<open>\<^verbatim>\<open>str_new\<close> with \<^verbatim>\<open>len\<close> bytes from a pointer, of which \<^verbatim>\<open>src\<close> are valid.\<close>

definition str_new :: "byte list \<Rightarrow> int \<Rightarrow> rb_error + byte list" where
  "str_new src len =
     (if len < 0 then Inl ArgError
      else if int64 (len + 1) < 0 \<or> len + 1 \<ge> address_space then Inl NoMemError
      else if len > int (length src) then Inl OutOfBounds
      else Inr (take (nat len) src))"

definition str_zero :: "int \<Rightarrow> rb_error + byte list" where
  "str_zero len = str_new (replicate (nat len) 0) len"

definition rb_str_plus :: "byte list \<Rightarrow> byte list \<Rightarrow> rb_error + byte list" where
  "rb_str_plus str1 str2 =
     bindR (str_zero (int (length str1) + int (length str2))) (\<lambda>_. Inr (str1 @ str2))"

definition rb_str_times :: "byte list \<Rightarrow> int \<Rightarrow> rb_error + byte list" where
  "rb_str_times str len =
     (if len = 0 then Inr []
      else if len < 0 then Inl ArgError
      else if cdiv (2 ^ 63 - 1) len < int (length str) then Inl ArgError
      else bindR (str_zero (int (length str) * len)) (\<lambda>_. Inr (concat (replicate (nat len) str))))"

definition rb_str_substr :: "byte list \<Rightarrow> int \<Rightarrow> int \<Rightarrow> rb_error + byte list option" where
  "rb_str_substr str beg len =
     (let n = int (length str)
      in if len < 0 then Inr None
         else if beg > n then Inr None
         else if beg < 0 \<and> beg + n < 0 then Inr None
         else let beg = (if beg < 0 then beg + n else beg);
                  len = (if int64 (beg + len) > n then n - beg else len);
                  len = (if len < 0 then 0 else len)
              in if len = 0 then Inr (Some [])
                 else bindR (str_new (drop (nat beg) str) len) (\<lambda>s. Inr (Some s)))"

section \<open>Search\<close>

text \<open>The scan \<^verbatim>\<open>while (s < e)\<close> over the suffixes of the string.\<close>

fun index_scan :: "bool \<Rightarrow> byte list \<Rightarrow> int \<Rightarrow> byte list \<Rightarrow> rb_error + int" where
  "index_scan ic sub pos [] = Inr (- 1)"
| "index_scan ic sub pos (x # xs) =
     (if length (x # xs) < length sub then Inr (- 1)
      else bindR (rb_memcmp ic (take (length sub) (x # xs)) sub) (\<lambda>r.
             if r = 0 then Inr pos else index_scan ic sub (pos + 1) xs))"

definition rb_str_index :: "bool \<Rightarrow> byte list \<Rightarrow> byte list \<Rightarrow> int \<Rightarrow> rb_error + int" where
  "rb_str_index ic str sub offset =
     (let n = int (length str); offset1 = (if offset < 0 then offset + n else offset)
      in if offset1 < 0 then Inr (- 1)
         else if n - offset1 < int (length sub) then Inr (- 1)
         else if sub = [] then Inr offset1
         else index_scan ic sub offset1 (drop (nat offset1) str))"

fun rindex_scan :: "bool \<Rightarrow> byte list \<Rightarrow> byte list \<Rightarrow> nat \<Rightarrow> rb_error + int" where
  "rindex_scan ic str sub 0 =
     bindR (rb_memcmp ic (take (length sub) str) sub) (\<lambda>r. Inr (if r = 0 then 0 else - 1))"
| "rindex_scan ic str sub (Suc s) =
     bindR (rb_memcmp ic (take (length sub) (drop (Suc s) str)) sub) (\<lambda>r.
       if r = 0 then Inr (int (Suc s)) else rindex_scan ic str sub s)"

definition rb_str_rindex :: "bool \<Rightarrow> byte list \<Rightarrow> byte list \<Rightarrow> int \<Rightarrow> rb_error + int" where
  "rb_str_rindex ic str sub pos =
     (let n = int (length str); len = int (length sub)
      in if n < len then Inr (- 1)
         else let pos = (if n - pos < len then n - len else pos)
              in if sub = [] then Inr pos
                 else if pos < 0 then Inr (- 1)
                 else rindex_scan ic str sub (nat pos))"

text \<open>
  What is searched for or stored: a string or a Fixnum, which \<^verbatim>\<open>FIX2INT\<close> requires to be an \<^verbatim>\<open>int\<close>. A byte is compared
  with it as a signed \<^verbatim>\<open>char\<close>.
\<close>

datatype sval = VFix int | VStr "byte list"

definition FIX2INT :: "int \<Rightarrow> rb_error + int" where
  "FIX2INT c = (if - (2 ^ 31) \<le> c \<and> c < 2 ^ 31 then Inr c else Inl RangeError)"

fun byte_scan :: "int \<Rightarrow> int \<Rightarrow> byte list \<Rightarrow> int option" where
  "byte_scan c pos [] = None"
| "byte_scan c pos (x # xs) = (if sint x = c then Some pos else byte_scan c (pos + 1) xs)"

definition rb_str_index_m :: "bool \<Rightarrow> byte list \<Rightarrow> sval \<Rightarrow> int \<Rightarrow> rb_error + int option" where
  "rb_str_index_m ic str sub pos =
     (let pos1 = (if pos < 0 then pos + int (length str) else pos)
      in if pos1 < 0 then Inr None
         else case sub of
                VStr s \<Rightarrow> bindR (rb_str_index ic str s pos1) (\<lambda>p. Inr (if p = - 1 then None else Some p))
              | VFix c \<Rightarrow> bindR (FIX2INT c) (\<lambda>c. Inr (byte_scan c pos1 (drop (nat pos1) str))))"

text \<open>The scan backwards starts at \<^verbatim>\<open>pos\<close>, which can be that of the terminating null byte.\<close>

fun byte_rscan :: "int \<Rightarrow> byte list \<Rightarrow> nat \<Rightarrow> int option" where
  "byte_rscan c mem 0 = (if sint (mem ! 0) = c then Some 0 else None)"
| "byte_rscan c mem (Suc p) = (if sint (mem ! Suc p) = c then Some (int (Suc p)) else byte_rscan c mem p)"

definition rb_str_rindex_m :: "bool \<Rightarrow> byte list \<Rightarrow> sval \<Rightarrow> int option \<Rightarrow> rb_error + int option" where
  "rb_str_rindex_m ic str sub position =
     (let n = int (length str);
          pos = (case position of
                   None \<Rightarrow> Some n
                 | Some p \<Rightarrow>
                     let p = (if p < 0 then p + n else p)
                     in if p < 0 then None else Some (if p > n then n else p))
      in case pos of
           None \<Rightarrow> Inr None
         | Some pos \<Rightarrow>
             (case sub of
                VStr s \<Rightarrow> bindR (rb_str_rindex ic str s pos) (\<lambda>p. Inr (if p \<ge> 0 then Some p else None))
              | VFix c \<Rightarrow> bindR (FIX2INT c) (\<lambda>c. Inr (byte_rscan c (str @ [0]) (nat pos)))))"

definition rb_str_include :: "bool \<Rightarrow> byte list \<Rightarrow> sval \<Rightarrow> rb_error + bool" where
  "rb_str_include ic str arg =
     (case arg of
        VFix c \<Rightarrow> bindR (FIX2INT c) (\<lambda>c. Inr (byte_scan c 0 str \<noteq> None))
      | VStr s \<Rightarrow> bindR (rb_str_index ic str s 0) (\<lambda>i. Inr (i \<noteq> - 1)))"

section \<open>Subscription and splicing\<close>

datatype str_index = ByPos int | ByRange int int bool | ByStr "byte list"
datatype sres = SNil | SFix int | SStr "byte list"

definition of_option :: "byte list option \<Rightarrow> sres" where
  "of_option r = (case r of None \<Rightarrow> SNil | Some s \<Rightarrow> SStr s)"

definition rb_str_aref :: "bool \<Rightarrow> byte list \<Rightarrow> str_index \<Rightarrow> rb_error + sres" where
  "rb_str_aref ic str indx =
     (let n = int (length str)
      in case indx of
           ByPos idx \<Rightarrow>
             let idx = (if idx < 0 then n + idx else idx)
             in Inr (if idx < 0 \<or> n \<le> idx then SNil else SFix (uint (str ! nat idx)))
         | ByStr sub \<Rightarrow> bindR (rb_str_index ic str sub 0) (\<lambda>i. Inr (if i \<noteq> - 1 then SStr sub else SNil))
         | ByRange b e excl \<Rightarrow>
             bindR (rb_range_beg_len b e excl n 0) (\<lambda>r.
               case r of
                 None \<Rightarrow> Inr SNil
               | Some (beg, len) \<Rightarrow> bindR (rb_str_substr str beg len) (\<lambda>r. Inr (of_option r))))"

definition rb_str_aref_m :: "bool \<Rightarrow> byte list \<Rightarrow> str_index + (int \<times> int) \<Rightarrow> rb_error + sres" where
  "rb_str_aref_m ic str args =
     (case args of
        Inl indx \<Rightarrow> rb_str_aref ic str indx
      | Inr (beg, len) \<Rightarrow> bindR (rb_str_substr str beg len) (\<lambda>r. Inr (of_option r)))"

text \<open>
  The moves at the end of \<^verbatim>\<open>rb_str_update\<close>: the tail to its new place, when its place changes, and the value before it.
\<close>

definition str_move :: "byte list \<Rightarrow> int \<Rightarrow> int \<Rightarrow> byte list \<Rightarrow> rb_error + byte list" where
  "str_move str beg len val =
     (let n = int (length str); vlen = int (length val)
      in if len < vlen \<and> n + vlen - len + 1 \<ge> address_space then Inl NoMemError
         else if vlen = 0 \<and> len = 0 then Inr str
         else if beg < 0 \<or> beg + len > n then Inl OutOfBounds
         else Inr (take (nat beg) str @ val @ drop (nat (beg + len)) str))"

definition rb_str_update :: "byte list \<Rightarrow> int \<Rightarrow> int \<Rightarrow> sval \<Rightarrow> rb_error + byte list" where
  "rb_str_update str beg len val =
     (let n = int (length str)
      in if len < 0 then Inl IndexError
         else if n < beg then Inl IndexError
         else if beg < 0 \<and> int64 (- beg) > n then Inl IndexError
         else let beg = (if beg < 0 then beg + n else beg);
                  len = (if n < int64 (beg + len) then n - beg else len)
              in (case val of VFix _ \<Rightarrow> Inl TypeError | VStr v \<Rightarrow> str_move str beg len v))"

definition rb_str_aset :: "bool \<Rightarrow> byte list \<Rightarrow> str_index \<Rightarrow> sval \<Rightarrow> rb_error + byte list" where
  "rb_str_aset ic str indx val =
     (let n = int (length str)
      in case indx of
           ByPos idx \<Rightarrow>
             if n \<le> idx then Inl IndexError
             else if idx < 0 \<and> int64 (- idx) > n then Inl IndexError
             else let idx = (if idx < 0 then idx + n else idx)
                  in (case val of
                        VFix c \<Rightarrow>
                          bindR (FIX2INT c) (\<lambda>c.
                            if idx < 0 then Inl OutOfBounds else Inr (str[nat idx := word_of_int c]))
                      | VStr _ \<Rightarrow> rb_str_update str idx 1 val)
         | ByStr sub \<Rightarrow>
             bindR (rb_str_index ic str sub 0) (\<lambda>beg.
               if beg < 0 then Inl IndexError else rb_str_update str beg (int (length sub)) val)
         | ByRange b e excl \<Rightarrow>
             bindR (rb_range_beg_len b e excl n 2) (\<lambda>r.
               case r of None \<Rightarrow> Inl Uninitialised | Some (beg, len) \<Rightarrow> rb_str_update str beg len val))"

text \<open>
  A change of the bytes of an object: \<^verbatim>\<open>rb_str_modify\<close> before, and after it the terminating null byte, for which a string
  without a buffer that stays empty has no room.
\<close>

definition on_bytes :: "int \<Rightarrow> strobj \<Rightarrow> (byte list \<Rightarrow> rb_error + byte list) \<Rightarrow> rb_error + strobj" where
  "on_bytes safe str f =
     bindR (rb_str_modify safe str) (\<lambda>_. bindR (f (sbytes str)) (\<lambda>b.
       if \<not> has_ptr str \<and> b = [] then Inl OutOfBounds else Inr (str\<lparr>sbytes := b, has_ptr := True\<rparr>)))"

definition rb_str_aset_m ::
    "bool \<Rightarrow> int \<Rightarrow> strobj \<Rightarrow> str_index + (int \<times> int) \<Rightarrow> sval \<Rightarrow> rb_error + strobj" where
  "rb_str_aset_m ic safe str args val =
     on_bytes safe str (\<lambda>s.
       case args of
         Inl indx \<Rightarrow> rb_str_aset ic s indx val
       | Inr (beg, len) \<Rightarrow> rb_str_update s beg len val)"

definition rb_str_insert :: "int \<Rightarrow> strobj \<Rightarrow> int \<Rightarrow> sval \<Rightarrow> rb_error + strobj" where
  "rb_str_insert safe str idx str2 =
     on_bytes safe str (\<lambda>s.
       let pos = (if idx = - 1 then int (length s) else if idx < 0 then idx + 1 else idx)
       in rb_str_update s pos 0 str2)"

definition rb_str_slice_bang ::
    "bool \<Rightarrow> int \<Rightarrow> strobj \<Rightarrow> str_index + (int \<times> int) \<Rightarrow> rb_error + sres \<times> strobj" where
  "rb_str_slice_bang ic safe str args =
     bindR (rb_str_aref_m ic (sbytes str) args) (\<lambda>result.
       if result = SNil then Inr (result, str)
       else bindR (rb_str_aset_m ic safe str args (VStr [])) (\<lambda>str. Inr (result, str)))"

text \<open>Appending: a Fixnum that is a byte, or a string.\<close>

definition rb_str_cat :: "int \<Rightarrow> strobj \<Rightarrow> byte list \<Rightarrow> rb_error + strobj" where
  "rb_str_cat safe str ptr =
     (if ptr = [] then Inr str
      else on_bytes safe str (\<lambda>s.
             if int (length s) + int (length ptr) + 1 \<ge> address_space then Inl NoMemError else Inr (s @ ptr)))"

definition rb_str_append :: "int \<Rightarrow> strobj \<Rightarrow> byte list \<Rightarrow> rb_error + strobj" where
  "rb_str_append safe str str2 =
     bindR (rb_str_modify safe str) (\<lambda>_. rb_str_cat safe str str2)"

definition rb_str_concat :: "int \<Rightarrow> strobj \<Rightarrow> sval \<Rightarrow> rb_error + strobj" where
  "rb_str_concat safe str1 str2 =
     (case str2 of
        VFix c \<Rightarrow>
          bindR (FIX2INT c) (\<lambda>i.
            if 0 \<le> i \<and> i \<le> 0xff then rb_str_cat safe str1 [word_of_int i]
            else bindR (rb_str_modify safe str1) (\<lambda>_. Inl TypeError))
      | VStr s \<Rightarrow> rb_str_append safe str1 s)"

section \<open>Characters\<close>

definition ISUPPER :: "byte \<Rightarrow> bool" where "ISUPPER c \<longleftrightarrow> 0x41 \<le> c \<and> c \<le> 0x5a"
definition ISLOWER :: "byte \<Rightarrow> bool" where "ISLOWER c \<longleftrightarrow> 0x61 \<le> c \<and> c \<le> 0x7a"
definition ISALNUM :: "byte \<Rightarrow> bool" where "ISALNUM c \<longleftrightarrow> 0x30 \<le> c \<and> c \<le> 0x39 \<or> ISUPPER c \<or> ISLOWER c"
definition toupper :: "byte \<Rightarrow> byte" where "toupper c = (if ISLOWER c then c - 32 else c)"
definition tolower :: "byte \<Rightarrow> byte" where "tolower c = (if ISUPPER c then c + 32 else c)"

section \<open>Successor\<close>

text \<open>The new character and the carry, which is 0 for none.\<close>

definition succ_char :: "byte \<Rightarrow> byte \<times> byte" where
  "succ_char c =
     (if 0x30 \<le> c \<and> c < 0x39 then (c + 1, 0)
      else if c = 0x39 then (0x30, 0x31)
      else if 0x61 \<le> c \<and> c < 0x7a then (c + 1, 0)
      else if c = 0x7a then (0x61, 0x61)
      else if 0x41 \<le> c \<and> c < 0x5a then (c + 1, 0)
      else if c = 0x5a then (0x41, 0x41)
      else (c, 0))"

text \<open>
  The loops from the right end, at the position below \<^verbatim>\<open>s\<close>. The results are the string, whether the loop was left by
  \<^verbatim>\<open>break\<close>, the last carry if an alphanumeric character was seen, and the position of that carry.
\<close>

fun succ_loop :: "byte list \<Rightarrow> nat \<Rightarrow> byte option \<Rightarrow> nat \<Rightarrow> byte list \<times> bool \<times> byte option \<times> nat" where
  "succ_loop str 0 c n = (str, False, c, n)"
| "succ_loop str (Suc s) c n =
     (if ISALNUM (str ! s)
      then let (b, carry) = succ_char (str ! s); str = str[s := b]
           in if carry = 0 then (str, True, Some 0, n) else succ_loop str s (Some carry) s
      else succ_loop str s c n)"

fun incr_loop :: "byte list \<Rightarrow> nat \<Rightarrow> byte list \<times> bool" where
  "incr_loop str 0 = (str, False)"
| "incr_loop str (Suc s) =
     (let b = str ! s + 1; str = str[s := b] in if b \<noteq> 0 then (str, True) else incr_loop str s)"

definition rb_str_succ :: "byte list \<Rightarrow> byte list" where
  "rb_str_succ orig =
     (if orig = [] then []
      else let (str, broke, c, n) = succ_loop orig (length orig) None 0;
               (str, broke, c) = (case c of
                                    Some c \<Rightarrow> (str, broke, c)
                                  | None \<Rightarrow> let (str, broke) = incr_loop str (length str) in (str, broke, 1))
           in if broke then str else take n str @ c # drop n str)"

definition rb_str_succ_bang :: "int \<Rightarrow> strobj \<Rightarrow> rb_error + strobj" where
  "rb_str_succ_bang safe str =
     bindR (rb_str_modify safe str) (\<lambda>_. Inr (str\<lparr>sbytes := rb_str_succ (sbytes str), has_ptr := True\<rparr>))"

definition rb_str_equal :: "bool \<Rightarrow> byte list \<Rightarrow> byte list \<Rightarrow> rb_error + bool" where
  "rb_str_equal ic str1 str2 =
     (if length str1 = length str2 then bindR (rb_str_cmp ic str1 str2) (\<lambda>r. Inr (r = 0)) else Inr False)"

text \<open>
  The strings that \<^verbatim>\<open>upto\<close> yields, for the method \<^verbatim>\<open>succ\<close> of strings; \<^verbatim>\<open>None\<close> when the loop does not end.
\<close>

partial_function (option) upto_loop ::
    "bool \<Rightarrow> bool \<Rightarrow> byte list \<Rightarrow> byte list \<Rightarrow> (rb_error + byte list list) option" where
  "upto_loop ic excl last_str current =
     (case rb_str_cmp ic current last_str of
        Inl e \<Rightarrow> Some (Inl e)
      | Inr r \<Rightarrow>
          if r > 0 then Some (Inr [])
          else
            (case (if excl then Inr False else rb_str_equal ic current last_str) of
               Inl e \<Rightarrow> Some (Inl e)
             | Inr here \<Rightarrow>
                 if here then Some (Inr [current])
                 else
                   (case (if excl then rb_str_equal ic (rb_str_succ current) last_str else Inr False) of
                      Inl e \<Rightarrow> Some (Inl e)
                    | Inr there \<Rightarrow>
                        if there \<or> length (rb_str_succ current) > length last_str then Some (Inr [current])
                        else Option.bind (upto_loop ic excl last_str (rb_str_succ current))
                               (\<lambda>r. Some (bindR r (\<lambda>ys. Inr (current # ys)))))))"

definition rb_str_upto :: "bool \<Rightarrow> byte list \<Rightarrow> byte list \<Rightarrow> bool \<Rightarrow> (rb_error + byte list list) option" where
  "rb_str_upto ic beg last_str excl = upto_loop ic excl last_str beg"

section \<open>Reversal\<close>

function rev_loop :: "byte list \<Rightarrow> int \<Rightarrow> int \<Rightarrow> byte list" where
  "rev_loop str s e =
     (if s < e then rev_loop (str[nat s := str ! nat e, nat e := str ! nat s]) (s + 1) (e - 1) else str)"
  by auto
termination by (relation "measure (\<lambda>(_, s, e). nat (e - s))") auto

declare rev_loop.simps [simp del]

definition rb_str_reverse_bang :: "int \<Rightarrow> strobj \<Rightarrow> rb_error + strobj" where
  "rb_str_reverse_bang safe str =
     bindR (rb_str_modify safe str) (\<lambda>_.
       Inr (str\<lparr>sbytes := rev_loop (sbytes str) 0 (int (length (sbytes str)) - 1)\<rparr>))"

fun copy_back :: "byte list \<Rightarrow> nat \<Rightarrow> byte list" where
  "copy_back str 0 = []"
| "copy_back str (Suc e) = str ! e # copy_back str e"

definition rb_str_reverse :: "byte list \<Rightarrow> byte list" where
  "rb_str_reverse str = (if length str \<le> 1 then str else copy_back str (length str))"

section \<open>Letter case\<close>

text \<open>
  The loop over the characters; \<^verbatim>\<open>mbctab\<close> gives the number of bytes that follow a leading byte in the current encoding,
  and these are skipped. The second result is \<^verbatim>\<open>modify\<close>.
\<close>

function case_loop :: "(byte \<Rightarrow> nat) \<Rightarrow> (byte \<Rightarrow> byte) \<Rightarrow> byte list \<Rightarrow> byte list \<times> bool" where
  "case_loop mbctab f [] = ([], False)"
| "case_loop mbctab f (c # s) =
     (if mbctab c \<noteq> 0
      then let (t, md) = case_loop mbctab f (drop (mbctab c) s) in (c # take (mbctab c) s @ t, md)
      else let (t, md) = case_loop mbctab f s in (f c # t, f c \<noteq> c \<or> md))"
  by pat_completeness auto
termination by (relation "measure (\<lambda>(_, _, s). length s)") auto

definition swapcase_char :: "byte \<Rightarrow> byte" where
  "swapcase_char c = (if ISUPPER c then tolower c else if ISLOWER c then toupper c else c)"

definition case_bang ::
    "int \<Rightarrow> strobj \<Rightarrow> (byte list \<Rightarrow> byte list \<times> bool) \<Rightarrow> rb_error + bool \<times> strobj" where
  "case_bang safe str f =
     bindR (rb_str_modify safe str) (\<lambda>_. let (b, md) = f (sbytes str) in Inr (md, str\<lparr>sbytes := b\<rparr>))"

definition rb_str_upcase_bang :: "(byte \<Rightarrow> nat) \<Rightarrow> int \<Rightarrow> strobj \<Rightarrow> rb_error + bool \<times> strobj" where
  "rb_str_upcase_bang mbctab safe str = case_bang safe str (case_loop mbctab toupper)"

definition rb_str_downcase_bang :: "(byte \<Rightarrow> nat) \<Rightarrow> int \<Rightarrow> strobj \<Rightarrow> rb_error + bool \<times> strobj" where
  "rb_str_downcase_bang mbctab safe str = case_bang safe str (case_loop mbctab tolower)"

definition rb_str_swapcase_bang :: "(byte \<Rightarrow> nat) \<Rightarrow> int \<Rightarrow> strobj \<Rightarrow> rb_error + bool \<times> strobj" where
  "rb_str_swapcase_bang mbctab safe str = case_bang safe str (case_loop mbctab swapcase_char)"

text \<open>\<^verbatim>\<open>capitalize!\<close> looks at the first byte, if there is one or not, and not at its length.\<close>

definition rb_str_capitalize_bang :: "(byte \<Rightarrow> nat) \<Rightarrow> int \<Rightarrow> strobj \<Rightarrow> rb_error + bool \<times> strobj" where
  "rb_str_capitalize_bang mbctab safe str =
     bindR (rb_str_modify safe str) (\<lambda>_.
       if \<not> has_ptr str then Inl OutOfBounds
       else Inr (case sbytes str of
                   [] \<Rightarrow> (False, str)
                 | c # s \<Rightarrow> let (t, md) = case_loop mbctab tolower s
                            in (ISLOWER c \<or> md, str\<lparr>sbytes := toupper c # t\<rparr>)))"

end
