(* ===== verification/String_Props.thy ===== *)
theory String_Props
  imports String_Core
begin

text \<open>
  Properties of the string operations: iteration by successors ends, search finds the first occurrence, subscription
  and splicing agree, reversal and letter case.
\<close>

section \<open>The successor is greater\<close>

text \<open>Later in the order of \<^verbatim>\<open>succ\<close> among strings of one length: greater at the first difference.\<close>

definition str_less :: "byte list \<Rightarrow> byte list \<Rightarrow> bool" where
  "str_less a b \<longleftrightarrow> length a = length b \<and> (\<exists>i < length a. take i a = take i b \<and> a ! i < b ! i)"




text \<open>The loops change nothing before the position where they stop.\<close>

definition bumped :: "byte list \<Rightarrow> nat \<Rightarrow> byte list \<Rightarrow> bool" where
  "bumped a s b \<longleftrightarrow> length a = length b \<and> (\<exists>i < s. take i a = take i b \<and> a ! i < b ! i)"



lemma bumped_less: "bumped a (Suc s) b \<Longrightarrow> Suc s = length a \<Longrightarrow> str_less a b"
  by (auto simp: bumped_def str_less_def)










section \<open>Iteration with upto\<close>

lemma rb_str_equal_bytes [simp]: "rb_str_equal False a b = Inr (a = b)"
  using rb_str_cmp_total [of a b] rb_str_cmp_case [of a b] by (auto simp: rb_str_equal_def)









lemma succ_empty [simp]: "rb_str_succ [] = []"
  by (simp add: rb_str_succ_def)









section \<open>Search finds the first occurrence\<close>

definition occurs :: "byte list \<Rightarrow> byte list \<Rightarrow> nat \<Rightarrow> bool" where
  "occurs str sub i \<longleftrightarrow> i + length sub \<le> length str \<and> take (length sub) (drop i str) = sub"

definition pos_of :: "nat option \<Rightarrow> int" where
  "pos_of r = (case r of None \<Rightarrow> - 1 | Some i \<Rightarrow> int i)"

lemma rb_memcmp_here: "i + length sub \<le> length str \<Longrightarrow>
    rb_memcmp False (take (length sub) (drop i str)) sub = Inr r \<Longrightarrow> r = 0 \<longleftrightarrow> occurs str sub i"
  using memcmp_0 [of "take (length sub) (drop i str)" sub] by (auto simp: rb_memcmp_def occurs_def)

lemma find_from: "p \<le> n \<Longrightarrow> List.find P [p..<Suc n] = (if P p then Some p else List.find P [Suc p..<Suc n])"
  by (subst upt_conv_Cons) auto

lemma find_none_from: "(\<And>i. p \<le> i \<Longrightarrow> \<not> P i) \<Longrightarrow> List.find P [p..<n] = None"
  by (simp add: find_None_iff)

lemma index_scan_finds:
  assumes "sub \<noteq> []" "p \<le> length str"
  shows "index_scan False sub (int p) (drop p str) = Inr (pos_of (List.find (occurs str sub) [p..<Suc (length str)]))"
  using assms(2)
proof (induction "length str - p" arbitrary: p)
  case 0
  then have "p = length str" by simp
  moreover have "\<not> occurs str sub i" if "length str \<le> i" for i using that assms(1) by (cases sub) (auto simp: occurs_def)
  ultimately show ?case using find_none_from [of "length str" "occurs str sub"] by (simp add: pos_of_def)
next
  case (Suc d)
  have p: "p < length str" using Suc.hyps(2) by simp
  then have d: "drop p str = str ! p # drop (Suc p) str" by (simp add: Cons_nth_drop_Suc)
  show ?case
  proof (cases "length str - p < length sub")
    case True
    then have "\<not> occurs str sub i" if "p \<le> i" for i using that by (auto simp: occurs_def)
    then have "List.find (occurs str sub) [p..<Suc (length str)] = None" by (rule find_none_from)
    moreover have "length (str ! p # drop (Suc p) str) < length sub" using True p by simp
    ultimately show ?thesis by (simp add: d pos_of_def del: upt_Suc)
  next
    case False
    obtain r where r: "rb_memcmp False (take (length sub) (drop p str)) sub = Inr r" by (simp add: rb_memcmp_def)
    have "index_scan False sub (int p) (drop p str) = (if occurs str sub p then Inr (int p) else index_scan False sub (int (Suc p)) (drop (Suc p) str))"
    proof -
      have "length sub \<le> Suc (length str - Suc p)" "p + length sub \<le> length str" using False p by auto
      then show ?thesis using r rb_memcmp_here [of p sub str r] unfolding d by (simp add: add.commute)
    qed
    then show ?thesis using Suc.hyps(1) [of "Suc p"] Suc.hyps(2) p find_from [of p "length str" "occurs str sub"]
      by (auto simp: pos_of_def simp del: upt_Suc)
  qed
qed

lemma occurs_empty [simp]: "occurs str [] i \<longleftrightarrow> i \<le> length str"
  by (simp add: occurs_def)

lemma rb_str_index_finds:
  "rb_str_index False str sub (int p) = Inr (pos_of (List.find (occurs str sub) [p..<Suc (length str)]))"
proof (cases "length str < p + length sub")
  case True
  then have "\<not> occurs str sub i" if "p \<le> i" for i using that by (auto simp: occurs_def)
  then show ?thesis using True find_none_from [of p "occurs str sub"] by (simp add: rb_str_index_def pos_of_def del: upt_Suc)
next
  case False
  then show ?thesis
    using index_scan_finds [of sub p str] find_from [of p "length str" "occurs str []"]
    by (cases "sub = []") (auto simp: rb_str_index_def pos_of_def simp del: upt_Suc)
qed

lemma rindex_scan_finds:
  assumes "sub \<noteq> []" "p + length sub \<le> length str"
  shows "rindex_scan False str sub p = Inr (pos_of (List.find (occurs str sub) (rev [0..<Suc p])))"
  using assms(2)
proof (induction p)
  case 0
  obtain r where r: "rb_memcmp False (take (length sub) str) sub = Inr r" by (simp add: rb_memcmp_def)
  then show ?case using rb_memcmp_here [of 0 sub str r] 0 by (auto simp: pos_of_def)
next
  case (Suc p)
  obtain r where r: "rb_memcmp False (take (length sub) (drop (Suc p) str)) sub = Inr r" by (simp add: rb_memcmp_def)
  then show ?case using rb_memcmp_here [of "Suc p" sub str r] Suc by (auto simp: pos_of_def)
qed

lemma find_rev_upto: "(\<And>i. m < i \<Longrightarrow> \<not> P i) \<Longrightarrow> m \<le> n \<Longrightarrow> List.find P (rev [0..<Suc n]) = List.find P (rev [0..<Suc m])"
proof (induction n)
  case (Suc n)
  then show ?case by (cases "m = Suc n") auto
qed simp

lemma rb_str_rindex_finds:
  assumes "p \<le> length str"
  shows "rb_str_rindex False str sub (int p) = Inr (pos_of (List.find (occurs str sub) (rev [0..<Suc p])))"
proof (cases "length str < length sub")
  case True
  then have "\<not> occurs str sub i" for i by (auto simp: occurs_def)
  then have "List.find (occurs str sub) (rev [0..<Suc p]) = None" by (simp add: find_None_iff del: upt_Suc)
  then show ?thesis using True by (simp add: rb_str_rindex_def pos_of_def del: upt_Suc)
next
  case False
  let ?q = "min p (length str - length sub)"
  have q: "(if int (length str) - int p < int (length sub) then int (length str) - int (length sub) else int p) = int ?q"
    using False assms by auto
  have f: "List.find (occurs str sub) (rev [0..<Suc p]) = List.find (occurs str sub) (rev [0..<Suc ?q])"
  proof (cases "sub = []")
    case True
    then show ?thesis using assms by simp
  next
    case f: False
    have "\<not> occurs str sub i" if "?q < i" "?q < p" for i using that False by (auto simp: occurs_def)
    then show ?thesis using find_rev_upto [of ?q "occurs str sub" p] by (cases "?q < p") auto
  qed
  show ?thesis
  proof (cases "sub = []")
    case True
    then show ?thesis using q assms by (auto simp: rb_str_rindex_def pos_of_def)
  next
    case n: False
    then show ?thesis using rindex_scan_finds [OF n, of ?q str] False f q
      by (simp add: rb_str_rindex_def Let_def del: upt_Suc)
  qed
qed

lemma from_end:
  assumes "x < 0" "0 \<le> x + int (length str)"
  shows "rb_str_index_m ic str v x = rb_str_index_m ic str v (x + int (length str))"
    "rb_str_rindex_m ic str v (Some x) = rb_str_rindex_m ic str v (Some (x + int (length str)))"
  using assms by (simp_all add: rb_str_index_m_def rb_str_rindex_m_def)

lemma sint_byte_eq: "0 \<le> c \<Longrightarrow> c < 256 \<Longrightarrow> sint (b :: byte) = c \<longleftrightarrow> c < 128 \<and> uint b = c"
proof -
  have "(u + 128) mod 256 = (if u < 128 then u + 128 else u - 128)" if "0 \<le> u" "u < 256" for u :: int
  proof (cases "u < 128")
    case False
    have "(u + 128) mod 256 = (u - 128 + 256) mod 256" by (simp add: add.commute)
    also have "\<dots> = u - 128" unfolding mod_add_self2 using that False by (intro mod_pos_pos_trivial) auto
    finally show ?thesis using False by simp
  qed (use that in simp)
  from this [of "uint b"] have "sint b = (if uint b < 128 then uint b else uint b - 256)"
    using unsigned_less [of b, where ?'a = int] by (simp add: sint_uint signed_take_bit_eq_take_bit_shift take_bit_eq_mod)
  moreover have "uint b < 256" using unsigned_less [of b] by simp
  ultimately show "0 \<le> c \<Longrightarrow> c < 256 \<Longrightarrow> sint b = c \<longleftrightarrow> c < 128 \<and> uint b = c" by auto
qed

lemma byte_scan_finds:
  "byte_scan c (int p) (drop p str) = map_option int (List.find (\<lambda>i. sint (str ! i) = c) [p..<length str])"
proof (induction "length str - p" arbitrary: p)
  case (Suc d)
  then have p: "p < length str" by simp
  then have "drop p str = str ! p # drop (Suc p) str" by (simp add: Cons_nth_drop_Suc)
  then show ?case using Suc.hyps(1) [of "Suc p"] Suc.hyps(2) p by (simp add: upt_conv_Cons [OF p] add.commute)
qed simp

text \<open>
  C38. \<^verbatim>\<open>index\<close> finds the first and \<^verbatim>\<open>rindex\<close> the last occurrence of a string from a position on, \<^verbatim>\<open>include?\<close> whether there is one;
  a negative position counts from the end. A byte is found likewise, but as a signed character: from 128 on it is
  never found, and \<^verbatim>\<open>rindex\<close> of the byte 0 returns the length of a string, where the terminator is.
\<close>

theorem string_search_positions:
  "rb_str_index_m False str (VStr sub) (int p) = Inr (map_option int (List.find (occurs str sub) [p..<Suc (length str)])) \<and>
   rb_str_rindex_m False str (VStr sub) (Some (int p)) =
     Inr (map_option int (List.find (occurs str sub) (rev [0..<Suc (min p (length str))]))) \<and>
   (k < length str \<longrightarrow> rb_str_index_m ic str v (- int (Suc k)) = rb_str_index_m ic str v (int (length str - Suc k)) \<and>
      rb_str_rindex_m ic str v (Some (- int (Suc k))) = rb_str_rindex_m ic str v (Some (int (length str - Suc k)))) \<and>
   rb_str_include False str (VStr sub) = Inr (\<exists>i. occurs str sub i) \<and>
   (0 \<le> c \<and> c < 256 \<longrightarrow> rb_str_index_m ic str (VFix c) (int p) =
      Inr (map_option int (List.find (\<lambda>i. c < 128 \<and> uint (str ! i) = c) [p..<length str]))) \<and>
   rb_str_rindex_m ic str (VFix 0) None = Inr (Some (int (length str)))"
proof -
  have m: "(if pos_of r = - 1 then None else Some (pos_of r)) = map_option int r" "(if pos_of r \<ge> 0 then Some (pos_of r) else None) = map_option int r" for r
    by (cases r; simp add: pos_of_def)+
  have 1: "rb_str_index_m False str (VStr sub) (int p) = Inr (map_option int (List.find (occurs str sub) [p..<Suc (length str)]))"
    by (simp add: rb_str_index_m_def rb_str_index_finds m del: upt_Suc)
  have "(if int p > int (length str) then int (length str) else int p) = int (min p (length str))" by simp
  then have 2: "rb_str_rindex_m False str (VStr sub) (Some (int p)) =
     Inr (map_option int (List.find (occurs str sub) (rev [0..<Suc (min p (length str))])))"
    using rb_str_rindex_finds [of "min p (length str)" str sub] by (simp add: rb_str_rindex_m_def Let_def m del: upt_Suc)
  have 3: "rb_str_index_m ic str v (- int (Suc k)) = rb_str_index_m ic str v (int (length str - Suc k)) \<and>
      rb_str_rindex_m ic str v (Some (- int (Suc k))) = rb_str_rindex_m ic str v (Some (int (length str - Suc k)))" if "k < length str"
  proof -
    have "- int (Suc k) + int (length str) = int (length str - Suc k)" using that by simp
    moreover have "- int (Suc k) < 0" "0 \<le> int (length str - Suc k)" by simp_all
    ultimately show ?thesis using from_end [of "- int (Suc k)" str ic v] by metis
  qed
  have "pos_of (List.find (occurs str sub) [0..<Suc (length str)]) \<noteq> - 1 \<longleftrightarrow> (\<exists>i. occurs str sub i)"
    by (auto simp: pos_of_def find_None_iff occurs_def less_Suc_eq_le split: option.splits simp del: upt_Suc) (metis find_Some_iff occurs_def)+
  then have 4: "rb_str_include False str (VStr sub) = Inr (\<exists>i. occurs str sub i)"
    using rb_str_index_finds [of str sub 0] by (simp add: rb_str_include_def del: upt_Suc)
  note b = sint_byte_eq [where c = c]
  have 5: "rb_str_index_m ic str (VFix c) (int p) =
      Inr (map_option int (List.find (\<lambda>i. c < 128 \<and> uint (str ! i) = c) [p..<length str]))" if "0 \<le> c \<and> c < 256"
    using that byte_scan_finds [of c p str] b by (simp add: rb_str_index_m_def FIX2INT_def)
  have "mem ! n = 0 \<Longrightarrow> byte_rscan 0 mem n = Some (int n)" for mem n by (cases n) auto
  then have "byte_rscan 0 (str @ [0]) (length str) = Some (int (length str))" by simp
  then have "rb_str_rindex_m ic str (VFix 0) None = Inr (Some (int (length str)))"
    by (simp add: rb_str_rindex_m_def FIX2INT_def)
  with 1 2 3 4 5 show ?thesis by blast
qed

theorem string_search_positions_witness:
  "rb_str_index_m False [1, 2, 1, 2] (VStr [2]) (- 2) = rb_str_index_m False [1, 2, 1, 2] (VStr [2]) 2 \<and>
   rb_str_index_m False [1, 200] (VFix 200) 0 = Inr None"
  using string_search_positions [of "[1, 2, 1, 2]" "[2]" 0 1 False "VStr [2]" 0]
    string_search_positions [of "[1, 200]" "[]" 0 1 False "VFix 200" 200] by simp

section \<open>Splicing\<close>

text \<open>The position that a subscript means.\<close>

definition norm_pos :: "byte list \<Rightarrow> int \<Rightarrow> int" where
  "norm_pos str beg = (if beg < 0 then beg + int (length str) else beg)"

lemma int64_over: "2 ^ 63 \<le> x \<Longrightarrow> x < 2 ^ 63 + 2 ^ 63 \<Longrightarrow> int64 x = x - 2 ^ 64"
proof -
  assume "2 ^ 63 \<le> x" "x < 2 ^ 63 + 2 ^ 63"
  then have "(x + 2 ^ 63) mod 2 ^ 64 = (x - 2 ^ 63 + 2 ^ 64) mod 2 ^ 64" by (simp add: add.commute)
  also have "\<dots> = x - 2 ^ 63" unfolding mod_add_self2 using \<open>2 ^ 63 \<le> x\<close> \<open>x < 2 ^ 63 + 2 ^ 63\<close> by (intro mod_pos_pos_trivial) auto
  finally show ?thesis by (simp add: int64_def)
qed

lemma substr_inside:
  assumes "int (length str) + 1 < address_space" "- (2 ^ 63) \<le> beg" "0 \<le> norm_pos str beg" "norm_pos str beg \<le> int (length str)"
    "0 \<le> len" "norm_pos str beg + len < 2 ^ 63"
  shows "rb_str_substr str beg len = Inr (Some (take (nat len) (drop (nat (norm_pos str beg)) str)))"
proof -
  let ?n = "int (length str)" and ?b = "norm_pos str beg"
  define l where "l = (if int64 (?b + len) > ?n then ?n - ?b else len)"
  have "int64 (?b + len) = ?b + len" using assms by (intro int64_id) auto
  then have l: "\<not> l < 0" "l \<le> ?n - ?b" "take (nat l) (drop (nat ?b) str) = take (nat len) (drop (nat ?b) str)"
    using assms(3-5) by (auto simp: l_def take_all_iff)
  have g: "\<not> len < 0" "\<not> beg > ?n" "\<not> (beg < 0 \<and> beg + ?n < 0)" "(if beg < 0 then beg + ?n else beg) = ?b"
    using assms(3-5) by (auto simp: norm_pos_def split: if_splits)
  have "rb_str_substr str beg len = (if l = 0 then Inr (Some []) else bindR (str_new (drop (nat ?b) str) l) (\<lambda>s. Inr (Some s)))"
    unfolding rb_str_substr_def Let_def g(4) l_def [symmetric] if_not_P [OF g(1)] if_not_P [OF g(2)] if_not_P [OF g(3)] if_not_P [OF l(1)] ..
  moreover have "str_new (drop (nat ?b) str) l = Inr (take (nat l) (drop (nat ?b) str))"
  proof -
    have "int64 (l + 1) = l + 1" "l + 1 < address_space" using l assms(1,3) by (auto simp: address_space_def)
    then show ?thesis unfolding str_new_def using l(1,2) assms(3,4) by auto
  qed
  moreover have "l = 0 \<Longrightarrow> take (nat len) (drop (nat ?b) str) = []" using l(3) by simp
  ultimately show ?thesis using l(3) by auto
qed

lemma update_inside:
  assumes "int (length str) + 1 < address_space" "- (2 ^ 63) < beg" "0 \<le> norm_pos str beg" "norm_pos str beg \<le> int (length str)"
    "0 \<le> len" "norm_pos str beg + len < 2 ^ 63" "int (length str) + int (length v) + 1 < address_space"
  shows "rb_str_update str beg len (VStr v) =
    Inr (take (nat (norm_pos str beg)) str @ v @ drop (nat (norm_pos str beg + len)) str)"
proof -
  let ?n = "int (length str)" and ?b = "norm_pos str beg"
  define l where "l = (if ?n < int64 (?b + len) then ?n - ?b else len)"
  have "int64 (?b + len) = ?b + len" using assms by (intro int64_id) auto
  then have l: "0 \<le> l" "?b + l \<le> ?n" "drop (nat (?b + l)) str = drop (nat (?b + len)) str" using assms(3-5) by (auto simp: l_def)
  have "beg < 0 \<Longrightarrow> int64 (- beg) = - beg" using assms(2) by (intro int64_id) auto
  then have g: "\<not> len < 0" "\<not> ?n < beg" "\<not> (beg < 0 \<and> int64 (- beg) > ?n)" "(if beg < 0 then beg + ?n else beg) = ?b"
    using assms(3-5) by (auto simp: norm_pos_def split: if_splits)
  have "rb_str_update str beg len (VStr v) = str_move str ?b l v"
    unfolding rb_str_update_def Let_def g(4) l_def [symmetric] if_not_P [OF g(1)] if_not_P [OF g(2)] if_not_P [OF g(3)] by simp
  moreover have "str_move str ?b l v = Inr (take (nat ?b) str @ v @ drop (nat (?b + l)) str)"
    using l(1,2) assms(3,7) by (auto simp: str_move_def nat_add_distrib)
  ultimately show ?thesis using l(3) by simp
qed

lemma outside:
  assumes "- (2 ^ 63) < beg" "norm_pos str beg < 0 \<or> int (length str) < norm_pos str beg" "int (length str) < 2 ^ 62"
  shows "rb_str_substr str beg len = Inr None" "rb_str_update str beg len val = Inl IndexError"
proof -
  have "beg < 0 \<Longrightarrow> int64 (- beg) = - beg" using assms(1) by (intro int64_id) auto
  then show "rb_str_substr str beg len = Inr None" "rb_str_update str beg len val = Inl IndexError"
    using assms(2) by (auto simp: rb_str_substr_def rb_str_update_def norm_pos_def Let_def split: if_splits)
qed

text \<open>When the end of the section is beyond \<^verbatim>\<open>LONG_MAX\<close>, or the position is \<^verbatim>\<open>LONG_MIN\<close>.\<close>

lemma overflowing:
  assumes "int (length str) + 1 < address_space" "0 \<le> norm_pos str beg" "norm_pos str beg \<le> int (length str)"
    "len < 2 ^ 63" "2 ^ 63 \<le> norm_pos str beg + len" "- (2 ^ 63) < beg" "int (length v) < address_space"
  shows "rb_str_substr str beg len = Inl NoMemError" "rb_str_update str beg len (VStr v) = Inl OutOfBounds"
proof -
  let ?n = "int (length str)" and ?b = "norm_pos str beg"
  have n: "?n < 2 ^ 47" using assms(1) by (simp add: address_space_def)
  have o: "int64 (?b + len) = ?b + len - 2 ^ 64" using assms n by (intro int64_over) auto
  have l: "\<not> int64 (?b + len) > ?n" "\<not> len < 0" "len \<noteq> 0" "len + 1 \<ge> address_space" "?b + len > ?n" using assms n unfolding o by (auto simp: address_space_def)
  have "beg < 0 \<Longrightarrow> int64 (- beg) = - beg" using assms(6) by (intro int64_id) auto
  then have g: "\<not> beg > ?n" "\<not> (beg < 0 \<and> beg + ?n < 0)" "\<not> (beg < 0 \<and> int64 (- beg) > ?n)" "(if beg < 0 then beg + ?n else beg) = ?b"
    using assms(2,3) by (auto simp: norm_pos_def split: if_splits)
  show "rb_str_substr str beg len = Inl NoMemError"
    unfolding rb_str_substr_def Let_def g(4) if_not_P [OF l(2)] if_not_P [OF g(1)] if_not_P [OF g(2)] if_not_P [OF l(1)] if_not_P [OF l(3)]
    using l by (simp add: str_new_def)
  have "rb_str_update str beg len (VStr v) = str_move str ?b len v"
    unfolding rb_str_update_def Let_def g(4) if_not_P [OF l(2)] if_not_P [OF g(1)] if_not_P [OF g(3)] if_not_P [OF l(1)] by simp
  moreover have "\<not> len < int (length v)" using l(4) assms(7) by simp
  ultimately show "rb_str_update str beg len (VStr v) = Inl OutOfBounds" using l(3,5) by (simp add: str_move_def)
qed

text \<open>
  C7. Subscription and splicing by position and length agree. Within the string, \<^verbatim>\<open>s[beg, len]\<close> is the section clipped at the
  end, \<^verbatim>\<open>s[beg, len] = v\<close> replaces exactly this section, so that \<^verbatim>\<open>v\<close> is read back there, \<^verbatim>\<open>slice!\<close> returns and removes it and
  \<^verbatim>\<open>insert\<close> is the empty section replaced; outside, they give nil and IndexError. When \<^verbatim>\<open>beg + len\<close> overflows a \<^verbatim>\<open>long\<close>,
  reading raises NoMemError and storing writes out of bounds; a frozen string is not changed.
\<close>

theorem string_splices:
  assumes "int (length str) + int (length v) + 1 < address_space" "- (2 ^ 63) < beg" "beg < 2 ^ 63" "0 \<le> len" "len < 2 ^ 63"
    "b = norm_pos str beg" "s = \<lparr>sbytes = str, has_ptr = True, sfrozen = fr, stainted = True\<rparr>"
  shows "(if b < 0 \<or> int (length str) < b
      then rb_str_substr str beg len = Inr None \<and> rb_str_update str beg len (VStr v) = Inl IndexError
      else if b + len < 2 ^ 63
      then rb_str_substr str beg len = Inr (Some (take (nat len) (drop (nat b) str))) \<and>
        rb_str_update str beg len (VStr v) = Inr (take (nat b) str @ v @ drop (nat (b + len)) str) \<and>
        rb_str_substr (take (nat b) str @ v @ drop (nat (b + len)) str) b (int (length v)) = Inr (Some v) \<and>
        rb_str_slice_bang ic safe s (Inr (beg, len)) =
          (if fr then Inl FrozenError
           else Inr (SStr (take (nat len) (drop (nat b) str)), s\<lparr>sbytes := take (nat b) str @ drop (nat (b + len)) str\<rparr>))
      else rb_str_substr str beg len = Inl NoMemError \<and> rb_str_update str beg len (VStr v) = Inl OutOfBounds) \<and>
    (0 \<le> k \<and> k \<le> int (length str) \<longrightarrow>
       rb_str_insert safe s k (VStr v) =
         (if fr then Inl FrozenError else Inr (s\<lparr>sbytes := take (nat k) str @ v @ drop (nat k) str\<rparr>)) \<and>
       rb_str_insert safe s (- k - 1) (VStr v) = rb_str_insert safe s (int (length str) - k) (VStr v))"
proof -
  note a = assms(1) [unfolded address_space_def]
  have n: "int (length str) + 1 < address_space" "int (length v) < address_space" "int (length str) < 2 ^ 62" using a by (auto simp: address_space_def)
  have md: "rb_str_modify safe s = (if fr then Inl FrozenError else Inr ())" by (simp add: rb_str_modify_def assms(7))
  have ins: "rb_str_update str k 0 (VStr v) = Inr (take (nat k) str @ v @ drop (nat k) str)" if "0 \<le> k" "k \<le> int (length str)" for k
    using update_inside [OF n(1), of k 0 v] that n(3) assms(1) by (simp add: norm_pos_def)
  have "rb_str_insert safe s k (VStr v) = (if fr then Inl FrozenError else Inr (s\<lparr>sbytes := take (nat k) str @ v @ drop (nat k) str\<rparr>))"
    if "0 \<le> k" "k \<le> int (length str)" for k
    using ins [OF that] that by (simp add: rb_str_insert_def on_bytes_def md) (simp add: assms(7))
  moreover have "rb_str_insert safe s (- k - 1) (VStr v) = rb_str_insert safe s (int (length str) - k) (VStr v)"
    if "0 \<le> k" "k \<le> int (length str)" for k
  proof -
    have "rb_str_update str (- k) 0 (VStr v) = rb_str_update str (int (length str) - k) 0 (VStr v)" if "k \<noteq> 0"
      using update_inside [OF n(1), of "- k" 0 v] ins [of "int (length str) - k"] that \<open>0 \<le> k\<close> \<open>k \<le> int (length str)\<close> n(3) assms(1) by (simp add: norm_pos_def)
    then show ?thesis using that by (cases "k = 0") (simp_all add: rb_str_insert_def on_bytes_def md assms(7))
  qed
  moreover have "rb_str_substr (take (nat b) str @ v @ drop (nat (b + len)) str) b (int (length v)) = Inr (Some v)" if "0 \<le> b" "b \<le> int (length str)"
  proof -
    let ?r = "take (nat b) str @ v @ drop (nat (b + len)) str"
    have "length ?r \<le> length str + length v" using that assms(4) by (auto simp: nat_add_distrib)
    then have "int (length ?r) + 1 < address_space" using assms(1) by linarith
    moreover have "b \<le> int (length ?r)" using that by simp
    ultimately show ?thesis using substr_inside [of ?r b "int (length v)"] that n a by (simp add: norm_pos_def)
  qed
  moreover have "rb_str_slice_bang ic safe s (Inr (beg, len)) = (if fr then Inl FrozenError
      else Inr (SStr (take (nat len) (drop (nat b) str)), s\<lparr>sbytes := take (nat b) str @ drop (nat (b + len)) str\<rparr>))"
    if "0 \<le> b" "b \<le> int (length str)" "b + len < 2 ^ 63"
    using substr_inside [OF n(1), of beg len] update_inside [OF n(1) assms(2), of len "[]"] that assms(2,4,6) n(1)
    by (simp add: rb_str_slice_bang_def rb_str_aref_m_def rb_str_aset_m_def on_bytes_def rb_str_modify_def assms(7) of_option_def)
  ultimately show ?thesis
    using outside [OF assms(2) _ n(3)] substr_inside [OF n(1), of beg len] update_inside [OF n(1) assms(2), of len v]
      overflowing [OF n(1), of beg len v] assms(1,2,4-6) n(2) by auto
qed

theorem string_splices_witness:
  "rb_str_update [1, 2, 3] (- 2) 1 (VStr [7, 8]) = Inr [1, 7, 8, 3] \<and>
   rb_str_update [1, 2, 3] 1 (2 ^ 63 - 1) (VStr []) = Inl OutOfBounds"
  using string_splices [OF _ _ _ _ _ refl refl, of "[1, 2, 3]" "[7, 8]" "- 2" 1 False 0 False 0]
    string_splices [OF _ _ _ _ _ refl refl, of "[1, 2, 3]" "[]" 1 "2 ^ 63 - 1" False 0 False 0]
  by (simp add: norm_pos_def address_space_def)

section \<open>Reversal and letter case\<close>

lemma rev_loop_rev:
  assumes "i + length mid + j = length str" "str = pre @ mid @ post" "length pre = i" "length post = j"
  shows "rev_loop str (int i) (int (length str) - int j - 1) = pre @ rev mid @ post"
  using assms
proof (induction "length mid" arbitrary: str pre mid post i j rule: less_induct)
  case less
  consider "mid = []" | x where "mid = [x]" | x m y where "mid = x # m @ [y]"
    by (metis append_Nil append_butlast_last_id list.exhaust)
  then show ?case
  proof cases
    case 1
    then show ?thesis using less.prems by (subst rev_loop.simps) simp
  next
    case 2
    then show ?thesis using less.prems by (subst rev_loop.simps) simp
  next
    case (3 x m y)
    let ?str = "(pre @ [y]) @ m @ (x # post)"
    let ?e = "Suc (length pre + length m)"
    have e: "int (length str) - int j - 1 = int ?e" using less.prems 3 by simp
    have s: "str = pre @ x # m @ y # post" using less.prems(2) 3 by simp
    have u: "str[nat (int i) := str ! nat (int ?e), nat (int ?e) := str ! nat (int i)] = ?str"
    proof -
      have n: "str ! ?e = y" "str ! length pre = x" unfolding s by (simp_all add: nth_append)
      have "str[length pre := y] = (pre @ y # m) @ y # post" unfolding s by (simp add: list_update_append)
      then have "str[length pre := y, ?e := x] = ?str" by (simp add: list_update_append)
      with n less.prems(3) show ?thesis unfolding nat_int by simp
    qed
    have "rev_loop ?str (int (Suc i)) (int (length ?str) - int (Suc j) - 1) = (pre @ [y]) @ rev m @ (x # post)"
      using less.hyps [of m "Suc i" "Suc j" ?str "pre @ [y]" "x # post"] 3 less.prems by simp
    moreover have "int (length ?str) - int (Suc j) - 1 = int ?e - 1" "int (Suc i) = int i + 1" using less.prems by simp_all
    moreover have "rev_loop str (int i) (int ?e) = rev_loop ?str (int i + 1) (int ?e - 1)"
      using less.prems(3) unfolding rev_loop.simps [of str] u by simp
    ultimately show ?thesis using e 3 by (simp add: add.commute)
  qed
qed

lemma copy_back_rev: "n \<le> length str \<Longrightarrow> copy_back str n = rev (take n str)"
  by (induction n) (auto simp: take_Suc_conv_app_nth)

lemma rb_str_reverse_rev:
  "rb_str_reverse str = rev str"
  "rb_str_reverse_bang safe s = bindR (rb_str_modify safe s) (\<lambda>_. Inr (s\<lparr>sbytes := rev (sbytes s)\<rparr>))"
proof -
  show "rb_str_reverse str = rev str"
    by (cases str) (auto simp: rb_str_reverse_def copy_back_rev simp del: copy_back.simps)
  have "rev_loop b 0 (int (length b) - 1) = rev b" for b using rev_loop_rev [of 0 b 0 b "[]" "[]"] by simp
  then show "rb_str_reverse_bang safe s = bindR (rb_str_modify safe s) (\<lambda>_. Inr (s\<lparr>sbytes := rev (sbytes s)\<rparr>))"
    by (simp add: rb_str_reverse_bang_def)
qed

text \<open>One pass after another is one pass, when the conversions stay among single-byte characters.\<close>

lemma case_loop_comp:
  assumes "\<And>c. mbctab c = 0 \<Longrightarrow> mbctab (f c) = 0"
  shows "fst (case_loop mbctab g (fst (case_loop mbctab f s))) = fst (case_loop mbctab (g \<circ> f) s)"
  using assms
proof (induction mbctab f s rule: case_loop.induct)
  case (2 mbctab f c s)
  have "mbctab c - min (length s) (mbctab c) = 0 \<or> drop (mbctab c) s = []" by (cases "length s < mbctab c") auto
  with 2 show ?case by (auto simp: case_prod_beta)
qed simp

lemma case_loop_flag: "snd (case_loop mbctab f s) \<longleftrightarrow> fst (case_loop mbctab f s) \<noteq> s"
  by (induction mbctab f s rule: case_loop.induct) (auto simp: case_prod_beta, metis append_take_drop_id same_append_eq)

lemma case_loop_id: "fst (case_loop mbctab (\<lambda>c. c) s) = s"
  by (induction mbctab "\<lambda>c :: byte. c" s rule: case_loop.induct) (auto simp: case_prod_beta)

end
