(* ===== verification/String_Text.thy ===== *)
theory String_Text
  imports String_Core
begin

text \<open>
  The text operations of \<^verbatim>\<open>src/ruby/string.c\<close>: translation and character sets (\<^verbatim>\<open>tr\<close>, \<^verbatim>\<open>delete\<close>, \<^verbatim>\<open>squeeze\<close>, \<^verbatim>\<open>count\<close>), lines
  and words, chopping and stripping, \<^verbatim>\<open>dump\<close> and \<^verbatim>\<open>inspect\<close>, justification, check sums.
\<close>

section \<open>Character sets\<close>

record tr =
  gen :: bool
  now :: int
  tmax :: int
  rest :: "byte list"

text \<open>An escaped character stands for itself.\<close>

definition unescape :: "byte list \<Rightarrow> byte list" where
  "unescape p = (if length p > 1 \<and> hd p = 0x5c then tl p else p)"

lemma unescape_length: "p \<noteq> [] \<Longrightarrow> unescape p \<noteq> []" "length (unescape p) \<le> length p"
  by (auto simp: unescape_def neq_Nil_conv)

text \<open>
  \<^verbatim>\<open>trnext\<close>: the next character of a description with ranges and escapes, or -1. A range whose end is before its
  start is skipped (\<^verbatim>\<open>continue\<close>).
\<close>

function trnext :: "tr \<Rightarrow> int \<times> tr" where
  "trnext t =
     (if \<not> gen t
      then if rest t = [] then (- 1, t)
           else let p = unescape (rest t);
                    t = t\<lparr>now := uint (hd p), rest := tl p\<rparr>
                in if length (tl p) > 1 \<and> hd (tl p) = 0x2d
                   then let q = tl (tl p)
                        in if now t > uint (hd q) then trnext (t\<lparr>rest := tl q\<rparr>)
                           else (now t, t\<lparr>gen := True, tmax := uint (hd q), rest := tl q\<rparr>)
                   else (now t, t)
      else let t = t\<lparr>now := now t + 1\<rparr>
           in if now t < tmax t then (now t, t) else (tmax t, t\<lparr>gen := False\<rparr>))"
  by auto
termination
proof (relation "measure (length \<circ> rest)", goal_cases)
  case (2 t p t' q)
  then have "length p \<le> length (rest t)" "0 < length (rest t)" using unescape_length(2) by auto
  with 2 show ?case by (simp add: less_diff_conv2) linarith
qed simp

declare trnext.simps [simp del]

text \<open>What is left of a description; every character taken from it makes it less.\<close>

definition tr_left :: "tr \<Rightarrow> nat" where
  "tr_left t = 300 * length (rest t) + (if gen t then nat (tmax t - now t) + 1 else 0)"

lemma uint_byte: "0 \<le> uint (b :: byte)" "uint b < 256"
  using unsigned_less [of b, where ?'a = int] by simp_all

lemma trnext_less: "0 \<le> fst (trnext t) \<Longrightarrow> tr_left (snd (trnext t)) < tr_left t"
proof (induction t rule: trnext.induct)
  case (1 t)
  show ?case
  proof (cases "gen t")
    case True
    then show ?thesis by (subst trnext.simps) (auto simp: tr_left_def Let_def)
  next
    case g: False
    show ?thesis
    proof (cases "rest t = []")
      case True
      then show ?thesis using g "1.prems" by (simp add: trnext.simps [of t])
    next
      case False
      define p where "p = unescape (rest t)"
      have p: "p \<noteq> []" "length p \<le> length (rest t)" using False unescape_length by (auto simp: p_def)
      define q where "q = tl (tl p)"
      define t1 where "t1 = t\<lparr>now := uint (hd p), rest := tl p\<rparr>"
      have e: "trnext t = (if length (tl p) > 1 \<and> hd (tl p) = 0x2d
          then if uint (hd p) > uint (hd q) then trnext (t1\<lparr>rest := tl q\<rparr>)
               else (uint (hd p), t1\<lparr>gen := True, tmax := uint (hd q), rest := tl q\<rparr>)
          else (uint (hd p), t1))"
        using g False by (subst trnext.simps) (simp add: Let_def p_def t1_def q_def)
      have l: "length (tl p) < length (rest t)" using p by (cases p) auto
      consider "\<not> (length (tl p) > 1 \<and> hd (tl p) = 0x2d)"
        | "length (tl p) > 1 \<and> hd (tl p) = 0x2d" "uint (hd p) > uint (hd q)"
        | "length (tl p) > 1 \<and> hd (tl p) = 0x2d" "\<not> uint (hd p) > uint (hd q)" by blast
      then show ?thesis
      proof cases
        case 1
        then have "trnext t = (uint (hd p), t1)" unfolding e by (simp only: if_False)
        then show ?thesis using l g by (simp add: tr_left_def t1_def)
      next
        case 2
        then have r: "trnext t = trnext (t1\<lparr>rest := tl q\<rparr>)" unfolding e by (simp only: if_True simp_thms)
        have "length (tl q) < length (rest t)" using l by (auto simp: q_def)
        then have "tr_left (t1\<lparr>rest := tl q\<rparr>) < tr_left t" using g by (simp add: tr_left_def t1_def)
        moreover have "tr_left (snd (trnext (t1\<lparr>rest := tl q\<rparr>))) < tr_left (t1\<lparr>rest := tl q\<rparr>)"
          using "1.IH" [OF g False p_def t1_def 2(1) q_def] 2(2) "1.prems" r by (simp add: t1_def)
        ultimately show ?thesis using r by simp
      next
        case 3
        then have "trnext t = (uint (hd p), t1\<lparr>gen := True, tmax := uint (hd q), rest := tl q\<rparr>)" unfolding e by (simp only: if_True if_False simp_thms)
        moreover have "length (tl q) < length (rest t)" using l by (auto simp: q_def)
        moreover have "nat (uint (hd q) - uint (hd p)) < 256" using uint_byte [of "hd p"] uint_byte [of "hd q"] by linarith
        ultimately show ?thesis using g by (simp add: tr_left_def t1_def)
      qed
    qed
  qed
qed

text \<open>The loops over a description: fill a table in step with another description, mark, or only run to the end.\<close>

function fill_trans :: "tr \<Rightarrow> tr \<Rightarrow> (byte \<Rightarrow> int) \<Rightarrow> byte \<Rightarrow> int" where
  "fill_trans src repl trans_tab =
     (let (c, src1) = trnext src
      in if c < 0 then trans_tab
         else let (r, repl) = trnext repl
              in fill_trans src1 repl (trans_tab(word_of_int c := (if r = - 1 then now repl else r))))"
  by auto
termination
proof (relation "measure (\<lambda>(src, _, _). tr_left src)", goal_cases)
  case (2 src repl trans_tab x c src1 y r repl1)
  then have "trnext src = (c, src1)" by simp
  with 2 show ?case using trnext_less [of src] by auto
qed simp

function mark :: "tr \<Rightarrow> 'a \<Rightarrow> (byte \<Rightarrow> 'a) \<Rightarrow> byte \<Rightarrow> 'a" where
  "mark src v tab = (let (c, src1) = trnext src in if c < 0 then tab else mark src1 v (tab(word_of_int c := v)))"
  by auto
termination
proof (relation "measure (\<lambda>(src, _, _). tr_left src)", goal_cases)
  case (2 src v tab x c src1)
  then have "trnext src = (c, src1)" by simp
  with 2 show ?case using trnext_less [of src] by auto
qed simp

function tr_end :: "tr \<Rightarrow> tr" where
  "tr_end t = (let (c, t1) = trnext t in if c < 0 then t1 else tr_end t1)"
  by auto
termination
proof (relation "measure tr_left", goal_cases)
  case (2 t x c t1)
  then have "trnext t = (c, t1)" by simp
  with 2 show ?case using trnext_less [of t] by auto
qed simp

declare fill_trans.simps [simp del] mark.simps [simp del] tr_end.simps [simp del]

definition tr_start :: "byte list \<Rightarrow> tr" where
  "tr_start p = \<lparr>gen = False, now = 0, tmax = 0, rest = p\<rparr>"

definition cflag :: "byte list \<Rightarrow> bool" where
  "cflag src \<longleftrightarrow> length src \<ge> 2 \<and> hd src = 0x5e"

definition tr_table :: "byte list \<Rightarrow> byte list \<Rightarrow> byte \<Rightarrow> int" where
  "tr_table src repl =
     (if cflag src
      then let tab = mark (tr_start (tl src)) (- 1) (\<lambda>_. 1); t = tr_end (tr_start repl)
           in (\<lambda>i. if tab i \<ge> 0 then now t else tab i)
      else fill_trans (tr_start src) (tr_start repl) (\<lambda>_. - 1))"

text \<open>The loops over the string: with \<^verbatim>\<open>sflag\<close> runs of one replacement are squeezed. The second result is \<^verbatim>\<open>modify\<close>.\<close>

fun tr_s_loop :: "(byte \<Rightarrow> int) \<Rightarrow> int \<Rightarrow> byte list \<Rightarrow> byte list \<times> bool" where
  "tr_s_loop tab prev [] = ([], False)"
| "tr_s_loop tab prev (x # s) =
     (let c = tab x
      in if c \<ge> 0
         then if prev = c then tr_s_loop tab prev s
              else let (t, md) = tr_s_loop tab c s in (word_of_int c # t, True)
         else let (t, md) = tr_s_loop tab (- 1) s in (x # t, md))"

fun tr_loop :: "(byte \<Rightarrow> int) \<Rightarrow> byte list \<Rightarrow> byte list \<times> bool" where
  "tr_loop tab [] = ([], False)"
| "tr_loop tab (x # s) =
     (let (t, md) = tr_loop tab s in if tab x \<ge> 0 then (word_of_int (tab x) # t, True) else (x # t, md))"

text \<open>The sets of \<^verbatim>\<open>delete\<close>, \<^verbatim>\<open>squeeze\<close> and \<^verbatim>\<open>count\<close>: the intersection of those described.\<close>

definition tr_setup_table :: "byte list \<Rightarrow> (byte \<Rightarrow> bool) \<Rightarrow> byte \<Rightarrow> bool" where
  "tr_setup_table str table =
     (let cf = cflag str;
          buf = mark (tr_start (if cf then tl str else str)) (\<not> cf) (\<lambda>_. cf)
      in (\<lambda>i. table i \<and> buf i))"

definition tr_tables :: "byte list list \<Rightarrow> byte \<Rightarrow> bool" where
  "tr_tables args = fold tr_setup_table args (\<lambda>_. True)"

definition rb_str_delete_bang :: "int \<Rightarrow> strobj \<Rightarrow> byte list list \<Rightarrow> rb_error + bool \<times> strobj" where
  "rb_str_delete_bang safe str args =
     (if args = [] then Inl ArgError
      else bindR (rb_str_modify safe str) (\<lambda>_.
             let squeez = tr_tables args; s = sbytes str
             in if s = [] then Inr (False, str)
                else Inr (\<exists>c \<in> set s. squeez c, str\<lparr>sbytes := filter (\<lambda>c. \<not> squeez c) s\<rparr>)))"

definition tr_trans :: "int \<Rightarrow> strobj \<Rightarrow> byte list \<Rightarrow> byte list \<Rightarrow> bool \<Rightarrow> rb_error + bool \<times> strobj" where
  "tr_trans safe str src repl sflag =
     bindR (rb_str_modify safe str) (\<lambda>_.
       let s = sbytes str
       in if s = [] then Inr (False, str)
          else if repl = [] then rb_str_delete_bang safe str [src]
          else let tab = tr_table src repl;
                   (t, md) = (if sflag then tr_s_loop tab (- 1) s else tr_loop tab s)
               in Inr (md \<or> length t < length s, str\<lparr>sbytes := t\<rparr>))"

fun squeeze_loop :: "(byte \<Rightarrow> bool) \<Rightarrow> byte option \<Rightarrow> byte list \<Rightarrow> byte list" where
  "squeeze_loop squeez save [] = []"
| "squeeze_loop squeez save (c # s) =
     (if save \<noteq> Some c \<or> \<not> squeez c then c # squeeze_loop squeez (Some c) s else squeeze_loop squeez save s)"

definition rb_str_squeeze_bang :: "int \<Rightarrow> strobj \<Rightarrow> byte list list \<Rightarrow> rb_error + bool \<times> strobj" where
  "rb_str_squeeze_bang safe str args =
     bindR (rb_str_modify safe str) (\<lambda>_.
       let squeez = tr_tables args; s = sbytes str; t = squeeze_loop squeez None s
       in if s = [] then Inr (False, str) else Inr (length t \<noteq> length s, str\<lparr>sbytes := t\<rparr>))"

text \<open>The result for an empty string is nil. The characters are counted in an \<^verbatim>\<open>int\<close>.\<close>

definition rb_str_count :: "byte list \<Rightarrow> byte list list \<Rightarrow> rb_error + int option" where
  "rb_str_count str args =
     (if args = [] then Inl ArgError
      else if str = [] then Inr None
      else Inr (Some (int32 (int (length (filter (tr_tables args) str))))))"

section \<open>Lines and words\<close>

definition is_space :: "byte \<Rightarrow> bool" where
  "is_space c \<longleftrightarrow> c = 0x20 \<or> 9 \<le> c \<and> c \<le> 13"

text \<open>Whether a line ends before position \<^verbatim>\<open>p\<close>; the memory of a string ends with a null byte.\<close>

definition line_end :: "bool \<Rightarrow> byte list \<Rightarrow> byte list \<Rightarrow> nat \<Rightarrow> rb_error + bool" where
  "line_end ic rs str p =
     (let newline = (if rs = [] then 0x0a else last rs)
      in if p = 0 \<or> (str @ [0]) ! (p - 1) \<noteq> newline then Inr False
         else if length rs \<le> 1 then Inr True
         else bindR (rb_memcmp ic rs (take (length rs) (drop (p - length rs) str))) (\<lambda>r. Inr (r = 0)))"

text \<open>
  The loop of \<^verbatim>\<open>each_line\<close> from the line start \<^verbatim>\<open>s\<close> and the position \<^verbatim>\<open>p\<close>, with the lines and the final values of both. With an
  empty separator a paragraph ends after a run of at least two newlines.
\<close>

function line_loop :: "bool \<Rightarrow> byte list \<Rightarrow> byte list \<Rightarrow> nat \<Rightarrow> nat \<Rightarrow> rb_error + byte list list \<times> nat \<times> nat" where
  "line_loop ic rs str s p =
     (if p \<ge> length str then Inr ([], s, p)
      else let mem = str @ [0]; blank = (rs = [] \<and> mem ! p = 0x0a)
           in if blank \<and> mem ! Suc p \<noteq> 0x0a then line_loop ic rs str s (Suc (Suc p))
              else let p1 = (if blank then Suc p + length (takeWhile (\<lambda>c. c = 0x0a) (drop (Suc p) mem)) else p)
                   in bindR (line_end ic rs str p1) (\<lambda>hit.
                        if hit
                        then bindR (line_loop ic rs str p1 (Suc p1)) (\<lambda>(ls, s', p').
                               Inr (take (p1 - s) (drop s str) # ls, s', p'))
                        else line_loop ic rs str s (Suc p1)))"
  by auto
termination by (relation "measure (\<lambda>(_, _, str, _, p). length str - p)") auto

declare line_loop.simps [simp del]

text \<open>The lines that a block gets which does not change the string; the separator is nil or a string.\<close>

definition rb_str_each_line :: "bool \<Rightarrow> byte list \<Rightarrow> byte list option \<Rightarrow> rb_error + byte list list" where
  "rb_str_each_line ic str rs =
     (case rs of
        None \<Rightarrow> Inr [str]
      | Some rs \<Rightarrow>
          bindR (line_loop ic rs str 0 (length rs)) (\<lambda>(ls, s, p).
            Inr (if s \<noteq> length str then ls @ [take (min p (length str) - s) (drop s str)] else ls)))"

text \<open>
  The loop of \<^verbatim>\<open>split\<close> at white space over the bytes at \<^verbatim>\<open>ptr\<close>, with the words found and the final \<^verbatim>\<open>beg\<close>; \<^verbatim>\<open>lim\<close> is the
  limit if there is one.
\<close>

fun awk_loop :: "byte list \<Rightarrow> int option \<Rightarrow> byte list \<Rightarrow> nat \<Rightarrow> nat \<Rightarrow> bool \<Rightarrow> int \<Rightarrow> byte list list \<times> nat" where
  "awk_loop str lim [] beg e skip i = ([], beg)"
| "awk_loop str lim (x # xs) beg e skip i =
     (if skip
      then if is_space x then awk_loop str lim xs (Suc beg) e True i else awk_loop str lim xs beg (Suc beg) False i
      else if is_space x
      then let word = take (e - beg) (drop beg str)
           in (case lim of
                 Some l \<Rightarrow>
                   if l \<le> i + 1 then ([word], Suc e)
                   else let (ws, b) = awk_loop str lim xs (Suc e) e True (i + 1) in (word # ws, b)
               | None \<Rightarrow> let (ws, b) = awk_loop str lim xs (Suc e) e True i in (word # ws, b))
      else awk_loop str lim xs beg (Suc e) False i)"

definition rb_str_split_awk :: "byte list \<Rightarrow> int option \<Rightarrow> byte list list" where
  "rb_str_split_awk str limit =
     (let lim = (case limit of None \<Rightarrow> 0 | Some l \<Rightarrow> l); has = (lim > 0)
      in if has \<and> lim = 1 then [str]
         else let (ws, beg) = awk_loop str (if has then Some lim else None) str 0 0 True (if limit = None then 0 else 1);
                  ws = (if has \<or> length str > beg \<or> lim < 0 then ws @ [drop beg str] else ws)
              in if \<not> has \<and> lim = 0 then rev (dropWhile (\<lambda>w. w = []) (rev ws)) else ws)"

section \<open>Ends of strings\<close>

definition rb_str_chop_bang :: "int \<Rightarrow> strobj \<Rightarrow> rb_error + bool \<times> strobj" where
  "rb_str_chop_bang safe str =
     (let s = sbytes str
      in if length s > 0
         then bindR (rb_str_modify safe str) (\<lambda>_.
                let len = length s - 1
                in if s ! len = 0x0a \<and> len > 0 \<and> s ! (len - 1) = 0x0d
                   then Inr (True, str\<lparr>sbytes := take (len - 1) s\<rparr>)
                   else Inr (True, str\<lparr>sbytes := take len s\<rparr>))
         else Inr (False, str))"

text \<open>Without an argument and with the default separator, with nil, or with a separator.\<close>

datatype chomp_arg = DefaultRs | NilRs | Rs "byte list"

definition smart_chomp :: "int \<Rightarrow> strobj \<Rightarrow> rb_error + bool \<times> strobj" where
  "smart_chomp safe str =
     bindR (rb_str_modify safe str) (\<lambda>_.
       let s = sbytes str; len = length s
       in if s ! (len - 1) = 0x0a
          then let len = len - 1
               in if len > 0 \<and> s ! (len - 1) = 0x0d then Inr (True, str\<lparr>sbytes := take (len - 1) s\<rparr>)
                  else Inr (True, str\<lparr>sbytes := take len s\<rparr>)
          else if s ! (len - 1) = 0x0d then Inr (True, str\<lparr>sbytes := take (len - 1) s\<rparr>)
          else Inr (False, str))"

fun chomp_lines :: "byte list \<Rightarrow> nat \<Rightarrow> nat" where
  "chomp_lines p 0 = 0"
| "chomp_lines p (Suc len) =
     (if p ! len = 0x0a
      then (case len of 0 \<Rightarrow> 0 | Suc l \<Rightarrow> if p ! l = 0x0d then chomp_lines p l else chomp_lines p len)
      else Suc len)"

definition rb_str_chomp_bang :: "bool \<Rightarrow> int \<Rightarrow> strobj \<Rightarrow> chomp_arg \<Rightarrow> rb_error + bool \<times> strobj" where
  "rb_str_chomp_bang ic safe str arg =
     (let s = sbytes str; len = length s
      in case arg of
           DefaultRs \<Rightarrow> if len = 0 then Inr (False, str) else smart_chomp safe str
         | NilRs \<Rightarrow> Inr (False, str)
         | Rs rs \<Rightarrow>
             if len = 0 then Inr (False, str)
             else bindR (rb_str_modify safe str) (\<lambda>_.
                    let rslen = length rs
                    in if rslen = 0
                       then let l = chomp_lines s len
                            in Inr (if l < len then (True, str\<lparr>sbytes := take l s\<rparr>) else (False, str))
                       else if rslen > len then Inr (False, str)
                       else if rslen = 1 \<and> last rs = 0x0a then smart_chomp safe str
                       else if s ! (len - 1) = last rs
                       then bindR (if rslen \<le> 1 then Inr 0 else rb_memcmp ic rs (drop (len - rslen) s)) (\<lambda>r.
                              Inr (if r = 0 then (True, str\<lparr>sbytes := take (len - rslen) s\<rparr>) else (False, str)))
                       else Inr (False, str)))"

definition rb_str_lstrip_bang :: "int \<Rightarrow> strobj \<Rightarrow> rb_error + bool \<times> strobj" where
  "rb_str_lstrip_bang safe str =
     bindR (rb_str_modify safe str) (\<lambda>_.
       let s = sbytes str; t = dropWhile is_space s
       in Inr (if s = [] then (False, str) else (length t < length s, str\<lparr>sbytes := t\<rparr>)))"

definition rb_str_rstrip_bang :: "int \<Rightarrow> strobj \<Rightarrow> rb_error + bool \<times> strobj" where
  "rb_str_rstrip_bang safe str =
     bindR (rb_str_modify safe str) (\<lambda>_.
       let s = sbytes str; t = rev (dropWhile is_space (rev s))
       in Inr (if s = [] then (False, str) else (length t < length s, str\<lparr>sbytes := t\<rparr>)))"

definition rb_str_strip_bang :: "int \<Rightarrow> strobj \<Rightarrow> rb_error + bool \<times> strobj" where
  "rb_str_strip_bang safe str =
     bindR (rb_str_lstrip_bang safe str) (\<lambda>(l, str). bindR (rb_str_rstrip_bang safe str) (\<lambda>(r, str). Inr (l \<or> r, str)))"

text \<open>Justification: the padding before and after.\<close>

definition justify :: "byte list \<Rightarrow> int \<Rightarrow> (int \<Rightarrow> int) \<Rightarrow> rb_error + byte list" where
  "justify str width before_of =
     (let len = int (length str)
      in if width < 0 \<or> len \<ge> width then Inr str
         else bindR (str_zero width) (\<lambda>_.
                let n = before_of (width - len)
                in Inr (replicate (nat n) 0x20 @ str @ replicate (nat (width - len - n)) 0x20)))"

definition rb_str_ljust :: "byte list \<Rightarrow> int \<Rightarrow> rb_error + byte list" where
  "rb_str_ljust str w = justify str w (\<lambda>_. 0)"

definition rb_str_rjust :: "byte list \<Rightarrow> int \<Rightarrow> rb_error + byte list" where
  "rb_str_rjust str w = justify str w (\<lambda>d. d)"

definition rb_str_center :: "byte list \<Rightarrow> int \<Rightarrow> rb_error + byte list" where
  "rb_str_center str w = justify str w (\<lambda>d. cdiv d 2)"

section \<open>Printing\<close>

definition ISPRINT :: "byte \<Rightarrow> bool" where
  "ISPRINT c \<longleftrightarrow> 0x20 \<le> c \<and> c \<le> 0x7e"

definition octal3 :: "byte \<Rightarrow> byte list" where
  "octal3 c = [0x30 + drop_bit 6 c, 0x30 + (drop_bit 3 c AND 7), 0x30 + (c AND 7)]"

text \<open>The letter of a control character with an escape of its own.\<close>

definition control_letter :: "byte \<Rightarrow> byte option" where
  "control_letter c =
     (if c = 0x0a then Some 0x6e else if c = 0x0d then Some 0x72 else if c = 0x09 then Some 0x74
      else if c = 0x0c then Some 0x66 else if c = 0x0b then Some 0x76 else if c = 0x07 then Some 0x61
      else if c = 0x1b then Some 0x65 else None)"

definition dump_width :: "byte \<Rightarrow> nat" where
  "dump_width c =
     (if c = 0x22 \<or> c = 0x5c \<or> c = 0x23 \<or> control_letter c \<noteq> None then 2 else if ISPRINT c then 1 else 4)"

definition dump_char :: "byte \<Rightarrow> byte list" where
  "dump_char c =
     (if c = 0x22 \<or> c = 0x5c then [0x5c, c]
      else if c = 0x23 then [0x5c, 0x23]
      else if ISPRINT c then [c]
      else case control_letter c of Some l \<Rightarrow> [0x5c, l] | None \<Rightarrow> 0x5c # octal3 c)"

text \<open>
  \<^verbatim>\<open>dump\<close> computes the length of the result first and then writes into a buffer of this length, of which the byte after
  it is the terminator.
\<close>

definition rb_str_dump :: "byte list \<Rightarrow> rb_error + byte list" where
  "rb_str_dump str =
     (let len = 2 + sum_list (map dump_width str); out = 0x22 # concat (map dump_char str) @ [0x22]
      in bindR (str_zero (int len)) (\<lambda>buf. if length out > len then Inl OutOfBounds else Inr (out @ drop (length out) buf)))"

function inspect_loop :: "(byte \<Rightarrow> nat) \<Rightarrow> byte list \<Rightarrow> rb_error + byte list" where
  "inspect_loop mbctab [] = Inr []"
| "inspect_loop mbctab (c # s) =
     (if mbctab c \<noteq> 0 \<and> s \<noteq> []
      then if mbctab c > Suc (length s) then Inl OutOfBounds
           else bindR (inspect_loop mbctab (drop (mbctab c) s)) (\<lambda>t. Inr (take (Suc (mbctab c)) (c # s @ [0]) @ t))
      else bindR (inspect_loop mbctab s) (\<lambda>t.
             Inr ((if c = 0x22 \<or> c = 0x5c then [0x5c, c]
                   else if ISPRINT c then [c]
                   else case control_letter c of Some l \<Rightarrow> [0x5c, l] | None \<Rightarrow> 0x5c # octal3 c) @ t)))"
  by pat_completeness auto
termination by (relation "measure (\<lambda>(_, s). length s)") auto

definition rb_str_inspect :: "(byte \<Rightarrow> nat) \<Rightarrow> byte list \<Rightarrow> rb_error + byte list" where
  "rb_str_inspect mbctab str = bindR (inspect_loop mbctab str) (\<lambda>t. Inr ([0x22] @ t @ [0x22]))"

text \<open>The check sum for at most 31 bits, in which a byte counts as a signed \<^verbatim>\<open>char\<close>; no bits mean all 32.\<close>

definition rb_str_sum :: "byte list \<Rightarrow> nat \<Rightarrow> u32" where
  "rb_str_sum str bits =
     (let md = push_bit bits 1 - 1; md = (if md = 0 then - 1 else md)
      in foldl (\<lambda>res c. res + scast c) 0 str AND md)"

end
