(* ===== verification/Text_Sets.thy ===== *)
theory Text_Sets
  imports String_Text
begin

text \<open>
  The character-set operations of \<^verbatim>\<open>string.c\<close>: what a description such as \<^verbatim>\<open>"a-z"\<close>, \<^verbatim>\<open>"^aeiou"\<close> or \<^verbatim>\<open>"\\-x"\<close> means
  (\<^verbatim>\<open>expand\<close>, \<^verbatim>\<open>described\<close>), the stream of characters that \<^verbatim>\<open>trnext\<close> makes of it, and that \<^verbatim>\<open>delete!\<close>, \<^verbatim>\<open>count\<close>, \<^verbatim>\<open>squeeze!\<close> and
  \<^verbatim>\<open>tr!\<close> agree with that meaning.
\<close>

section \<open>Descriptions of character sets\<close>

text \<open>The bytes from one to another.\<close>

definition byte_range :: "byte \<Rightarrow> byte \<Rightarrow> byte list" where
  "byte_range a b = map word_of_int [uint a..uint b]"

text \<open>The items of a description: single characters, escaped or not, and ranges.\<close>

datatype tr_item = TrChar byte | TrRange byte byte

function tr_items :: "byte list \<Rightarrow> tr_item list" where
  "tr_items p =
     (if p = [] then []
      else let q = unescape p
           in if length (tl q) > 1 \<and> hd (tl q) = 0x2d
              then TrRange (hd q) (hd (tl (tl q))) # tr_items (tl (tl (tl q)))
              else TrChar (hd q) # tr_items (tl q))"
  by auto
termination
proof (relation "measure length", goal_cases)
  case (2 p q)
  then have "length q \<le> length p" "0 < length p" using unescape_length(2) by auto
  with 2 show ?case by (simp add: less_diff_conv2) linarith
next
  case (3 p q)
  then have "length q \<le> length p" "length (tl q) < length q" using unescape_length [of p] by auto
  then have "length (tl q) < length p" by simp
  then show ?case by simp
qed simp

declare tr_items.simps [simp del]

text \<open>What a description means: its characters in order, with those of its ranges, which are empty when reversed.\<close>

fun item_meant :: "tr_item \<Rightarrow> byte list" where
  "item_meant (TrChar c) = [c]"
| "item_meant (TrRange a b) = byte_range a b"

definition expand :: "byte list \<Rightarrow> byte list" where
  "expand p = concat (map item_meant (tr_items p))"

text \<open>
  What the code makes of it: a range of one character is listed twice, and the character that fills up is not always the last
  one listed. A range of one character leaves its successor behind, a reversed range its first character.
\<close>

fun item_listed :: "tr_item \<Rightarrow> byte list" where
  "item_listed (TrChar c) = [c]"
| "item_listed (TrRange a b) = (if a = b then [a, a] else byte_range a b)"

fun item_pad :: "tr_item \<Rightarrow> int" where
  "item_pad (TrChar c) = uint c"
| "item_pad (TrRange a b) = (if a = b then uint b + 1 else if b < a then uint a else uint b)"

definition listed :: "byte list \<Rightarrow> byte list" where
  "listed p = concat (map item_listed (tr_items p))"

definition tr_pad :: "int \<Rightarrow> byte list \<Rightarrow> int" where
  "tr_pad n p = (if tr_items p = [] then n else item_pad (last (tr_items p)))"

text \<open>For a description in which every range is increasing the two agree.\<close>

fun item_clean :: "tr_item \<Rightarrow> bool" where
  "item_clean (TrChar c) = True"
| "item_clean (TrRange a b) = (a < b)"

definition clean :: "byte list \<Rightarrow> bool" where
  "clean p = list_all item_clean (tr_items p)"

lemma byte_range_simps: "byte_range a b = [] \<longleftrightarrow> b < a" "a \<le> b \<Longrightarrow> last (byte_range a b) = b" "byte_range a a = [a]"
  by (auto simp: byte_range_def last_map upto_rec2 word_less_def word_le_def)

lemma tr_items_nonempty: "p \<noteq> [] \<Longrightarrow> tr_items p \<noteq> []"
  by (subst tr_items.simps) (simp add: Let_def)

lemma set_listed [simp]: "set (listed p) = set (expand p)"
proof -
  have "set (item_listed x) = set (item_meant x)" for x by (cases x) (auto simp: byte_range_simps(3))
  then show ?thesis by (simp add: listed_def expand_def)
qed

lemma clean_listed: "clean p \<Longrightarrow> listed p = expand p"
proof -
  have "item_clean x \<Longrightarrow> item_listed x = item_meant x" for x by (cases x) auto
  then show "clean p \<Longrightarrow> listed p = expand p" by (auto simp: clean_def listed_def expand_def list_all_iff cong: map_cong)
qed

lemma clean_pad: "clean p \<Longrightarrow> p \<noteq> [] \<Longrightarrow> tr_pad n p = uint (last (expand p))"
proof -
  assume c: "clean p" "p \<noteq> []"
  have ne: "tr_items p \<noteq> []" by (rule tr_items_nonempty [OF c(2)])
  then have "item_clean (last (tr_items p))" using c(1) by (simp add: clean_def list_all_iff)
  then have l: "item_meant (last (tr_items p)) \<noteq> []" "item_pad (last (tr_items p)) = uint (last (item_meant (last (tr_items p))))"
    by (cases "last (tr_items p)"; force simp: byte_range_simps)+
  have "expand p = concat (map item_meant (butlast (tr_items p))) @ item_meant (last (tr_items p))"
    unfolding expand_def by (subst append_butlast_last_id [OF ne, symmetric]) (simp del: append_butlast_last_id)
  then show ?thesis using ne l by (simp add: tr_pad_def)
qed

text \<open>The characters that \<^verbatim>\<open>trnext\<close> gives one after another.\<close>

function emits :: "tr \<Rightarrow> int list" where
  "emits t = (let (c, t1) = trnext t in if c < 0 then [] else c # emits t1)"
  by auto
termination
proof (relation "measure tr_left", goal_cases)
  case (2 t x c t1)
  then have "trnext t = (c, t1)" by simp
  with 2 show ?case using trnext_less [of t] by auto
qed simp

declare emits.simps [simp del]

lemma emits_step: "trnext t = (c, t1) \<Longrightarrow> emits t = (if c < 0 then [] else c # emits t1)"
  by (simp add: emits.simps [of t])

lemma mark_emits: "mark t v tab = (\<lambda>i. if uint i \<in> set (map (\<lambda>c. c mod 256) (emits t)) then v else tab i)"
proof (induction t v tab rule: mark.induct)
  case (1 t v tab)
  obtain c t1 where n: "trnext t = (c, t1)" by (cases "trnext t")
  show ?case
  proof (cases "c < 0")
    case True
    then show ?thesis using n emits_step [OF n] by (simp add: mark.simps [of t])
  next
    case False
    have w: "uint (word_of_int c :: byte) = c mod 256" by (simp add: uint_word_of_int)
    then have e: "i = word_of_int c \<longleftrightarrow> uint i = c mod 256" for i :: byte by (metis word_uint_eq_iff)
    have "mark t v tab = mark t1 v (tab(word_of_int c := v))" using n False by (simp add: mark.simps [of t])
    also have "\<dots> = (\<lambda>i. if uint i \<in> set (map (\<lambda>c. c mod 256) (emits t1)) then v else (tab(word_of_int c := v)) i)"
      by (rule "1.IH" [OF n [symmetric] refl False])
    finally show ?thesis using emits_step [OF n] False e by (auto simp: fun_eq_iff)
  qed
qed

text \<open>A running range.\<close>

lemma emits_range:
  assumes "gen t" "now t < tmax t" "0 \<le> now t"
  shows "emits t = [now t + 1..tmax t] @ emits (t\<lparr>now := tmax t, gen := False\<rparr>)"
  using assms
proof (induction "nat (tmax t - now t)" arbitrary: t)
  case (Suc d)
  let ?t = "t\<lparr>now := now t + 1\<rparr>"
  show ?case
  proof (cases "now t + 1 < tmax t")
    case True
    have n: "trnext t = (now t + 1, ?t)" using True Suc.prems by (simp add: trnext.simps [of t])
    have "emits ?t = [now t + 1 + 1..tmax t] @ emits (?t\<lparr>now := tmax t, gen := False\<rparr>)"
      using Suc.hyps(1) [of ?t] Suc.hyps(2) Suc.prems True by simp
    then show ?thesis using emits_step [OF n] Suc.prems upto_rec1 [of "now t + 1" "tmax t"] by simp
  next
    case False
    then have m: "tmax t = now t + 1" using Suc.prems by simp
    then have n: "trnext t = (tmax t, ?t\<lparr>gen := False\<rparr>)" using Suc.prems by (simp add: trnext.simps [of t])
    show ?thesis using emits_step [OF n] Suc.prems m by simp
  qed
qed simp

lemma emits_single:
  assumes "gen t" "now t = tmax t" "0 \<le> now t"
  shows "emits t = tmax t # emits (t\<lparr>now := tmax t + 1, gen := False\<rparr>)"
proof -
  have n: "trnext t = (tmax t, t\<lparr>now := now t + 1, gen := False\<rparr>)" using assms by (simp add: trnext.simps [of t])
  show ?thesis using emits_step [OF n] assms by (simp add: add.commute)
qed


lemma map_uint_range: "map uint (byte_range a b) = [uint a..uint b]"
proof -
  have "uint (word_of_int x :: byte) = x" if "x \<in> set [uint a..uint b]" for x
  proof -
    have "uint a \<le> x" "x \<le> uint b" using that by auto
    then have "0 \<le> x" "x < 256" using uint_byte(1) [of a] uint_byte(2) [of b] by linarith+
    then show ?thesis by (simp add: uint_word_of_int)
  qed
  then have "map (uint \<circ> (word_of_int :: int \<Rightarrow> byte)) [uint a..uint b] = [uint a..uint b]" by (intro map_idI) (simp del: set_upto)
  then show ?thesis by (simp add: byte_range_def)
qed

text \<open>The first character of a description, by the form of what comes first.\<close>

lemma trnext_cases [consumes 3, case_names char range]:
  assumes "p \<noteq> []" "q = unescape p" "t = \<lparr>gen = False, now = n, tmax = m, rest = p\<rparr>"
  obtains (char) "tr_items p = TrChar (hd q) # tr_items (tl q)"
      "trnext t = (uint (hd q), \<lparr>gen = False, now = uint (hd q), tmax = m, rest = tl q\<rparr>)"
  | (range) d r where "q = hd q # 0x2d # d # r" "tr_items p = TrRange (hd q) d # tr_items r"
      "trnext t = (if uint (hd q) > uint d then trnext \<lparr>gen = False, now = uint (hd q), tmax = m, rest = r\<rparr>
                   else (uint (hd q), \<lparr>gen = True, now = uint (hd q), tmax = uint d, rest = r\<rparr>))"
proof (cases "length (tl q) > 1 \<and> hd (tl q) = 0x2d")
  case False
  show ?thesis
  proof (rule char)
    show "tr_items p = TrChar (hd q) # tr_items (tl q)"
      unfolding tr_items.simps [of p] Let_def assms(2) [symmetric] using assms(1) False by (simp_all only: if_False)
    have "t\<lparr>now := uint (hd q), rest := tl q\<rparr> = \<lparr>gen = False, now = uint (hd q), tmax = m, rest = tl q\<rparr>" by (simp add: assms(3))
    moreover have "\<not> gen t" "rest t = p" by (simp_all add: assms(3))
    ultimately show "trnext t = (uint (hd q), \<lparr>gen = False, now = uint (hd q), tmax = m, rest = tl q\<rparr>)"
      unfolding trnext.simps [of t] Let_def using assms(1) False by (simp only: if_False if_True not_False_eq_True assms(2) [symmetric]) (simp add: assms(3))
  qed
next
  case True
  then obtain c x d r where "q = c # x # d # r" by (cases q; cases "tl q"; cases "tl (tl q)") auto
  with True have "q = c # 0x2d # d # r" by simp
  then have q: "q = c # 0x2d # d # r" "unescape p = c # 0x2d # d # r" using assms(2) by simp_all
  show ?thesis
  proof (rule range [of d r])
    show "trnext t = (if uint (hd q) > uint d then trnext \<lparr>gen = False, now = uint (hd q), tmax = m, rest = r\<rparr>
        else (uint (hd q), \<lparr>gen = True, now = uint (hd q), tmax = uint d, rest = r\<rparr>))"
      using assms(1) q by (subst trnext.simps) (simp add: assms(3))
  qed (use assms(1) q in \<open>simp_all add: tr_items.simps [of p]\<close>)
qed

lemma tr_end_step: "trnext t = (c, t1) \<Longrightarrow> tr_end t = (if c < 0 then t1 else tr_end t1)"
  by (simp add: tr_end.simps [of t])

lemma tr_end_range:
  assumes "gen t" "now t < tmax t" "0 \<le> now t"
  shows "tr_end t = tr_end (t\<lparr>now := tmax t, gen := False\<rparr>)"
  using assms
proof (induction "nat (tmax t - now t)" arbitrary: t)
  case (Suc d)
  let ?t = "t\<lparr>now := now t + 1\<rparr>"
  show ?case
  proof (cases "now t + 1 < tmax t")
    case True
    have n: "trnext t = (now t + 1, ?t)" using True Suc.prems by (simp add: trnext.simps [of t])
    then show ?thesis using Suc.hyps(1) [of ?t] Suc.hyps(2) Suc.prems True tr_end_step [OF n] by simp
  next
    case False
    then have m: "tmax t = now t + 1" using Suc.prems by simp
    then have n: "trnext t = (tmax t, ?t\<lparr>gen := False\<rparr>)" using Suc.prems by (simp add: trnext.simps [of t])
    show ?thesis using tr_end_step [OF n] Suc.prems m by simp
  qed
qed simp

lemma tr_end_single:
  assumes "gen t" "now t = tmax t" "0 \<le> now t"
  shows "tr_end t = tr_end (t\<lparr>now := tmax t + 1, gen := False\<rparr>)"
proof -
  have n: "trnext t = (tmax t, t\<lparr>now := now t + 1, gen := False\<rparr>)" using assms by (simp add: trnext.simps [of t])
  show ?thesis using tr_end_step [OF n] assms by (simp add: add.commute)
qed

text \<open>The characters given are those listed, in order and number, and the last state has the character that fills up.\<close>

lemma pad_Cons: "tr_items p = x # tr_items r \<Longrightarrow> tr_pad n p = tr_pad (item_pad x) r"
  by (simp add: tr_pad_def)

lemma listed_emits:
  "emits \<lparr>gen = False, now = n, tmax = m, rest = p\<rparr> = map uint (listed p) \<and>
   now (tr_end \<lparr>gen = False, now = n, tmax = m, rest = p\<rparr>) = tr_pad n p"
proof (induction p arbitrary: n m rule: length_induct)
  case (1 p)
  show ?case
  proof (cases "p = []")
    case True
    then show ?thesis by (simp add: listed_def tr_pad_def tr_items.simps emits.simps tr_end.simps trnext.simps)
  next
    case False
    define q where "q = unescape p"
    define t where "t = \<lparr>gen = False, now = n, tmax = m, rest = p\<rparr>"
    have q: "q \<noteq> []" "length q \<le> length p" using False unescape_length by (auto simp: q_def)
    have l: "\<not> uint b < 0" for b :: byte using uint_byte(1) [of b] by simp
    have "emits t = map uint (listed p) \<and> now (tr_end t) = tr_pad n p"
      using False q_def t_def
    proof (cases rule: trnext_cases)
      case char
      have "length (tl q) < length p" using q by (cases q) auto
      then show ?thesis
        using "1.IH" emits_step [OF char(2)] tr_end_step [OF char(2)] l pad_Cons [OF char(1)] char(1) by (simp add: listed_def)
    next
      case (range d r)
      have "length r < length p" using q(2) range(1) by (metis length_Cons less_SucI less_le_trans lessI)
      then have IH: "emits \<lparr>gen = False, now = n', tmax = m', rest = r\<rparr> = map uint (listed r)"
        "now (tr_end \<lparr>gen = False, now = n', tmax = m', rest = r\<rparr>) = tr_pad n' r" for n' m'
        using "1.IH" by blast+
      have p: "listed p = item_listed (TrRange (hd q) d) @ listed r" "tr_pad n p = tr_pad (item_pad (TrRange (hd q) d)) r"
        using range(2) pad_Cons [OF range(2)] by (simp_all add: listed_def)
      let ?g = "\<lparr>gen = True, now = uint (hd q), tmax = uint d, rest = r\<rparr>"
      have go: "emits t = uint (hd q) # emits ?g" "tr_end t = tr_end ?g" if "uint (hd q) \<le> uint d"
        using range(3) that l emits_step [of t "uint (hd q)" ?g] tr_end_step [of t "uint (hd q)" ?g] by simp_all
      consider "uint (hd q) > uint d" | "uint (hd q) = uint d" | "uint (hd q) < uint d" by linarith
      then show ?thesis
      proof cases
        case 1
        let ?r = "\<lparr>gen = False, now = uint (hd q), tmax = m, rest = r\<rparr>"
        have "emits t = emits ?r" "tr_end t = tr_end ?r"
          using range(3) 1 by (simp_all add: emits.simps [of t] emits.simps [of ?r] tr_end.simps [of t] tr_end.simps [of ?r])
        moreover have "item_listed (TrRange (hd q) d) = []" "item_pad (TrRange (hd q) d) = uint (hd q)"
          using 1 by (auto simp: byte_range_simps word_less_def)
        ultimately show ?thesis using IH p by simp
      next
        case 2
        then have "hd q = d" by (simp add: word_uint_eq_iff)
        then show ?thesis using go emits_single [of ?g] tr_end_single [of ?g] uint_byte(1) [of d] IH p by simp
      next
        case 3
        then have "item_listed (TrRange (hd q) d) = byte_range (hd q) d" "item_pad (TrRange (hd q) d) = uint d"
          by (auto simp: word_less_def)
        then show ?thesis
          using go emits_range [of ?g] tr_end_range [of ?g] 3 l IH p map_uint_range [of "hd q" d] upto_rec1 [of "uint (hd q)" "uint d"] by simp
      qed
    qed
    then show ?thesis by (simp add: t_def)
  qed
qed

lemma emits_set: "set (emits \<lparr>gen = False, now = n, tmax = m, rest = p\<rparr>) = uint ` set (expand p)"
  by (simp add: listed_emits)

text \<open>States that the loops reach.\<close>

definition tr_wf :: "tr \<Rightarrow> bool" where
  "tr_wf t \<longleftrightarrow> 0 \<le> now t \<and> (gen t \<longrightarrow> 0 \<le> tmax t)"

lemma trnext_wf: "tr_wf t \<Longrightarrow> tr_wf (snd (trnext t)) \<and> (fst (trnext t) < 0 \<longrightarrow> fst (trnext t) = - 1 \<and> trnext (snd (trnext t)) = trnext t)"
proof (induction "length (rest t)" arbitrary: t rule: less_induct)
  case (less t)
  show ?case
  proof (cases "gen t")
    case True
    then show ?thesis using less.prems by (auto simp: trnext.simps [of t] tr_wf_def Let_def)
  next
    case g: False
    show ?thesis
    proof (cases "rest t = []")
      case True
      then have "trnext t = (- 1, t)" using g by (simp add: trnext.simps [of t])
      then show ?thesis using less.prems by simp
    next
      case False
      define q where "q = unescape (rest t)"
      have q: "q \<noteq> []" "length q \<le> length (rest t)" using False unescape_length by (auto simp: q_def)
      have t: "t = \<lparr>gen = False, now = now t, tmax = tmax t, rest = rest t\<rparr>" using g by simp
      from False q_def t show ?thesis
      proof (cases rule: trnext_cases)
        case char
        then show ?thesis using uint_byte(1) [of "hd q"] by (simp add: tr_wf_def)
      next
        case (range d r)
        let ?t = "\<lparr>gen = False, now = uint (hd q), tmax = tmax t, rest = r\<rparr>"
        have "length r < length (rest t)" using q(2) range(1) by (metis length_Cons less_SucI less_le_trans lessI)
        then have "tr_wf (snd (trnext ?t)) \<and> (fst (trnext ?t) < 0 \<longrightarrow> fst (trnext ?t) = - 1 \<and> trnext (snd (trnext ?t)) = trnext ?t)"
          using less.hyps [of ?t] uint_byte(1) [of "hd q"] by (simp add: tr_wf_def)
        then show ?thesis using range(3) uint_byte(1) [of "hd q"] uint_byte(1) [of d]
          by (cases "uint d < uint (hd q)") (simp_all add: tr_wf_def)
      qed
    qed
  qed
qed

lemma trnext_at_end: "trnext t = (c, t1) \<Longrightarrow> c < 0 \<Longrightarrow> tr_wf t \<Longrightarrow> c = - 1 \<and> trnext t1 = (- 1, t1) \<and> tr_wf t1"
  using trnext_wf [of t] by auto

text \<open>Filling the table in step: replacements that run out are continued with the last one.\<close>

definition pairs :: "tr \<Rightarrow> tr \<Rightarrow> (int \<times> int) list" where
  "pairs src repl = zip (emits src) (emits repl @ replicate (length (emits src)) (now (tr_end repl)))"

lemma zip_pad: "length xs \<le> k \<Longrightarrow> length xs \<le> l \<Longrightarrow> zip xs (ys @ replicate k z) = zip xs (ys @ replicate l z)"
proof (induction xs arbitrary: ys k l)
  case (Cons x xs)
  show ?case
  proof (cases ys)
    case Nil
    obtain k' l' where "k = Suc k'" "l = Suc l'" using Cons.prems by (cases k; cases l) auto
    then show ?thesis using Cons.IH [of k' l' "[]"] Cons.prems Nil by simp
  next
    case (Cons y ys')
    then show ?thesis using Cons.IH [of k l ys'] Cons.prems by simp
  qed
qed simp

lemma pairs_step:
  assumes "trnext src = (c, src1)" "\<not> c < 0" "trnext repl = (r, repl1)" "tr_wf repl"
  shows "pairs src repl = (c, if r = - 1 then now repl1 else r) # pairs src1 repl1"
proof (cases "r < 0")
  case True
  have e: "r = - 1" "trnext repl1 = (- 1, repl1)" using trnext_at_end [OF assms(3) True assms(4)] by blast+
  have "emits repl = []" "emits repl1 = []" "tr_end repl = repl1" "tr_end repl1 = repl1"
    using emits_step [OF assms(3)] emits_step [OF e(2)] tr_end_step [OF assms(3)] tr_end_step [OF e(2)] e(1) by simp_all
  then show ?thesis using emits_step [OF assms(1)] assms(2) e(1) by (simp add: pairs_def)
next
  case False
  show ?thesis using False emits_step [OF assms(1)] emits_step [OF assms(3)] tr_end_step [OF assms(3)] assms(2)
      zip_pad [of "emits src1" "Suc (length (emits src1))" "length (emits src1)"] by (simp add: pairs_def)
qed

lemma fill_trans_pairs:
  assumes "tr_wf repl"
  shows "fill_trans src repl tab = fold (\<lambda>(c, r) tab. tab(word_of_int c := r)) (pairs src repl) tab"
  using assms
proof (induction src repl tab rule: fill_trans.induct)
  case (1 src repl tab)
  obtain c src1 where n: "trnext src = (c, src1)" by (cases "trnext src")
  obtain r repl1 where m: "trnext repl = (r, repl1)" by (cases "trnext repl")
  have wf: "tr_wf repl1" using trnext_wf [of repl] "1.prems" m by simp
  show ?case
  proof (cases "c < 0")
    case True
    then show ?thesis using n emits_step [OF n] by (simp add: fill_trans.simps [of src] pairs_def)
  next
    case False
    then have "fill_trans src repl tab = fill_trans src1 repl1 (tab(word_of_int c := (if r = - 1 then now repl1 else r)))"
      using n m by (simp add: fill_trans.simps [of src])
    then show ?thesis using "1.IH" [OF n [symmetric] refl False m [symmetric] refl wf] pairs_step [OF n False m "1.prems"] by simp
  qed
qed

lemma fold_update_map_of:
  "fold (\<lambda>(c, r) tab. tab(c := g r)) ps tab x = (case map_of (rev ps) x of None \<Rightarrow> tab x | Some r \<Rightarrow> g r)"
  by (induction ps arbitrary: tab) (auto simp: map_of_append map_add_def split: option.splits)

section \<open>Sets\<close>

text \<open>A byte is described by its characters, or by not being among them after a caret.\<close>

definition described :: "byte list \<Rightarrow> byte \<Rightarrow> bool" where
  "described d c \<longleftrightarrow> (if cflag d then c \<notin> set (expand (tl d)) else c \<in> set (expand d))"

lemma emits_member: "uint i \<in> set (map (\<lambda>c. c mod 256) (emits (tr_start p))) \<longleftrightarrow> i \<in> set (expand p)"
proof -
  have "(\<lambda>c. c mod 256) ` uint ` A = uint ` A" for A :: "byte set" unfolding image_image using uint_byte by (intro image_cong) auto
  moreover have "uint i \<in> uint ` A \<longleftrightarrow> i \<in> A" for A by (auto dest: iffD2 [OF word_uint_eq_iff])
  ultimately show ?thesis by (simp add: tr_start_def emits_set)
qed

lemma mark_expand: "mark (tr_start p) v tab = (\<lambda>i. if i \<in> set (expand p) then v else tab i)"
  by (simp only: mark_emits emits_member)

lemma tr_setup_table_iff: "tr_setup_table d table c \<longleftrightarrow> table c \<and> described d c"
  by (simp add: tr_setup_table_def mark_expand described_def)

lemma tr_tables_iff: "tr_tables args c \<longleftrightarrow> (\<forall>d \<in> set args. described d c)"
proof -
  have "fold tr_setup_table args table c \<longleftrightarrow> table c \<and> (\<forall>d \<in> set args. described d c)" for table
    by (induction args arbitrary: table) (auto simp: tr_setup_table_iff)
  then show ?thesis by (simp add: tr_tables_def)
qed

text \<open>What \<^verbatim>\<open>squeeze\<close> keeps.\<close>

lemma squeeze_loop_keeps:
  "filter (\<lambda>c. \<not> P c) (squeeze_loop P save s) = filter (\<lambda>c. \<not> P c) s"
  by (induction P save s rule: squeeze_loop.induct) auto

lemma squeeze_loop_remdups:
  "remdups_adj (case save of None \<Rightarrow> squeeze_loop P save s | Some c \<Rightarrow> c # squeeze_loop P save s) =
   remdups_adj (case save of None \<Rightarrow> s | Some c \<Rightarrow> c # s)"
proof (induction P save s rule: squeeze_loop.induct)
  case (2 P save c s)
  then show ?case by (cases save) (auto simp: remdups_adj_Cons')
qed (simp split: option.splits)

lemma squeeze_loop_adj:
  "successively (\<lambda>a b. a = b \<longrightarrow> \<not> P b) (case save of None \<Rightarrow> squeeze_loop P save s | Some c \<Rightarrow> c # squeeze_loop P save s)"
proof (induction P save s rule: squeeze_loop.induct)
  case (2 P save c s)
  then show ?case by (cases save) (auto simp: successively_Cons split: if_splits)
qed (auto split: option.splits)

text \<open>
  C39. The set operations decide the sets described: for the characters that all arguments describe, ranges, escapes and
  complements included, \<^verbatim>\<open>delete!\<close> removes exactly these, \<^verbatim>\<open>count\<close> counts them up to the wrap-around of an \<^verbatim>\<open>int\<close>, and \<^verbatim>\<open>squeeze!\<close> removes only repetitions of them
  next to each other and leaves none. The result tells whether the string has changed; only \<^verbatim>\<open>count\<close> of an empty string is nil
  where it should be 0.
\<close>

theorem string_sets_decide:
  assumes "args \<noteq> []" "rb_str_modify safe s = Inr ()" "b = sbytes s" "b \<noteq> []" "P = (\<lambda>c. \<forall>d \<in> set args. described d c)"
  shows "rb_str_delete_bang safe s args = Inr (filter (\<lambda>c. \<not> P c) b \<noteq> b, s\<lparr>sbytes := filter (\<lambda>c. \<not> P c) b\<rparr>) \<and>
    rb_str_count b args = Inr (Some (int32 (int (length (filter P b))))) \<and>
    (length b < 2 ^ 31 \<longrightarrow> rb_str_count b args = Inr (Some (int (length (filter P b))))) \<and> rb_str_count [] args = Inr None \<and>
    (\<exists>t. rb_str_squeeze_bang safe s args = Inr (t \<noteq> b, s\<lparr>sbytes := t\<rparr>) \<and> remdups_adj t = remdups_adj b \<and>
       filter (\<lambda>c. \<not> P c) t = filter (\<lambda>c. \<not> P c) b \<and> successively (\<lambda>x y. x = y \<longrightarrow> \<not> P y) t)"
proof -
  have P: "tr_tables args = P" unfolding assms(5) by (rule ext) (simp add: tr_tables_iff)
  have "(\<exists>c \<in> set b. P c) \<longleftrightarrow> filter (\<lambda>c. \<not> P c) b \<noteq> b" by (auto simp: filter_id_conv)
  then have 1: "rb_str_delete_bang safe s args = Inr (filter (\<lambda>c. \<not> P c) b \<noteq> b, s\<lparr>sbytes := filter (\<lambda>c. \<not> P c) b\<rparr>)"
    using assms(1,2,4) by (simp add: rb_str_delete_bang_def P assms(3) [symmetric])
  let ?t = "squeeze_loop P None b"
  have "length ?t = length b \<longleftrightarrow> ?t = b"
  proof -
    have "length (squeeze_loop P save x) \<le> length x" for save x
      by (induction P save x rule: squeeze_loop.induct) auto
    then have "length (squeeze_loop P save x) = length x \<Longrightarrow> squeeze_loop P save x = x" for save x
      by (induction P save x rule: squeeze_loop.induct) (auto split: if_splits, metis Suc_n_not_le_n)
    then show ?thesis by auto
  qed
  then have "rb_str_squeeze_bang safe s args = Inr (?t \<noteq> b, s\<lparr>sbytes := ?t\<rparr>)"
    using assms(2,4) by (simp add: rb_str_squeeze_bang_def P assms(3) [symmetric] Let_def)
  moreover have "int32 (int (length (filter P b))) = int (length (filter P b))" if "length b < 2 ^ 31"
    using le_less_trans [OF length_filter_le that, of P] by simp
  ultimately show ?thesis using 1 assms(1,4) squeeze_loop_keeps [of P None b]
      squeeze_loop_remdups [of P None b] squeeze_loop_adj [of P None b]
    by (auto simp: rb_str_count_def P)
qed

section \<open>Translation\<close>

text \<open>
  The replacement of a byte: that at the last place of the byte, and where there are fewer the one that fills up.
\<close>

definition tr_map :: "byte list \<Rightarrow> byte list \<Rightarrow> byte \<Rightarrow> byte \<Rightarrow> byte" where
  "tr_map from_set to_set pad c =
     (case map_of (rev (zip from_set (to_set @ replicate (length from_set) pad))) c of None \<Rightarrow> c | Some r \<Rightarrow> r)"

lemma tr_start_wf: "tr_wf (tr_start p)"
  by (simp add: tr_wf_def tr_start_def)

lemma tr_table_map:
  assumes "\<not> cflag src"
  shows "tr_table src repl c =
    (case map_of (rev (zip (listed src) (map uint (listed repl) @ replicate (length (listed src)) (tr_pad 0 repl)))) c of
       None \<Rightarrow> - 1 | Some r \<Rightarrow> r)"
proof -
  let ?z = "zip (listed src) (map uint (listed repl) @ replicate (length (listed src)) (tr_pad 0 repl))"
  have "pairs (tr_start src) (tr_start repl) = map (\<lambda>(c, r). (uint c, r)) ?z"
    by (simp add: pairs_def tr_start_def listed_emits zip_map1)
  then have "tr_table src repl = fold (\<lambda>(c, r) tab. tab(c := r)) ?z (\<lambda>_. - 1)"
    using assms fill_trans_pairs [OF tr_start_wf] by (simp add: tr_table_def fold_map comp_def case_prod_unfold)
  then show ?thesis using fold_update_map_of [of "\<lambda>r. r" ?z "\<lambda>_. - 1" c] by simp
qed

theorem string_sets_decide_witness:
  "let s = \<lparr>sbytes = [0x68, 0x65, 0x6c, 0x6c, 0x6f], has_ptr = True, sfrozen = False, stainted = True\<rparr> in
   rb_str_delete_bang 0 s [[0x5e, 0x61, 0x2d, 0x66], [0x6c]] = Inr (True, s\<lparr>sbytes := [0x68, 0x65, 0x6f]\<rparr>) \<and>
   rb_str_count (sbytes s) [[0x5e, 0x61, 0x2d, 0x66], [0x6c]] = Inr (Some 2)"
proof -
  have d: "filter (\<lambda>c. \<not> (\<forall>d \<in> set [[0x5e, 0x61, 0x2d, 0x66], [0x6c]]. described d c)) [0x68, 0x65, 0x6c, 0x6c, 0x6f] = [0x68, 0x65, 0x6f :: byte]"
    "length (filter (\<lambda>c. \<forall>d \<in> set [[0x5e, 0x61, 0x2d, 0x66], [0x6c]]. described d c) [0x68, 0x65, 0x6c, 0x6c, 0x6f]) = 2" by code_simp+
  show ?thesis
    using string_sets_decide [of "[[0x5e, 0x61, 0x2d, 0x66], [0x6c]]" 0
      "\<lparr>sbytes = [0x68, 0x65, 0x6c, 0x6c, 0x6f], has_ptr = True, sfrozen = False, stainted = True\<rparr>", OF _ _ refl _ refl]
    unfolding Let_def strobj.simps d by (simp add: rb_str_modify_def)
qed

lemma tr_pad_nonneg: "0 \<le> n \<Longrightarrow> 0 \<le> tr_pad n p"
proof -
  have "0 \<le> item_pad x" for x by (cases x) (auto intro: uint_byte(1) add_nonneg_nonneg)
  then show "0 \<le> n \<Longrightarrow> 0 \<le> tr_pad n p" by (simp add: tr_pad_def)
qed

lemma tr_table_tr_map:
  assumes "\<not> cflag src"
  shows "tr_table src repl c \<ge> 0 \<longleftrightarrow> c \<in> set (expand src)"
    and "(if tr_table src repl c \<ge> 0 then word_of_int (tr_table src repl c) else c) =
      tr_map (listed src) (listed repl) (word_of_int (tr_pad 0 repl)) c"
proof -
  let ?n = "length (listed src)"
  let ?is = "map uint (listed repl) @ replicate ?n (tr_pad 0 repl)"
  let ?z = "rev (zip (listed src) ?is)"
  have "map fst ?z = rev (listed src)" by (simp add: rev_map [symmetric] map_fst_zip_take)
  then have none: "map_of ?z c = None \<longleftrightarrow> c \<notin> set (expand src)"
    unfolding map_of_eq_None_iff by (metis image_set set_rev set_listed)
  have "0 \<le> r" if "map_of ?z c = Some r" for r
  proof -
    from map_of_SomeD [OF that] have "r \<in> set ?is" by (auto dest: set_zip_rightD)
    then show ?thesis using tr_pad_nonneg [of 0 repl] uint_byte(1) by auto
  qed
  with none show iff: "tr_table src repl c \<ge> 0 \<longleftrightarrow> c \<in> set (expand src)"
    unfolding tr_table_map [OF assms] by (fastforce split: option.splits)
  have "listed repl @ replicate ?n (word_of_int (tr_pad 0 repl)) = map word_of_int ?is" by (simp add: comp_def)
  then have "map_of (rev (zip (listed src) (listed repl @ replicate ?n (word_of_int (tr_pad 0 repl))))) c = map_option word_of_int (map_of ?z c)"
    by (simp only: zip_map2 rev_map map_of_map comp_apply)
  then show "(if tr_table src repl c \<ge> 0 then word_of_int (tr_table src repl c) else c) =
      tr_map (listed src) (listed repl) (word_of_int (tr_pad 0 repl)) c"
    using iff none unfolding tr_map_def by (auto simp: tr_table_map [OF assms] split: option.splits)
qed

lemma tr_loop_map: "tr_loop tab s = (map (\<lambda>c. if tab c \<ge> 0 then word_of_int (tab c) else c) s, \<exists>c \<in> set s. tab c \<ge> 0)"
  by (induction s) auto

text \<open>
  C8. Translation, for all descriptions: \<^verbatim>\<open>tr!\<close> replaces each byte that the first description lists by the byte at the same place of
  the list of the second, and beyond its end by the byte that fills up; with a caret every byte outside the set becomes the
  byte that fills up. When every range is increasing, the lists are the characters meant, in order, and the last one
  fills up. A range of one character counts twice and leaves its successor behind to fill up.
\<close>

theorem tr_translates:
  assumes "rb_str_modify safe s = Inr ()" "b = sbytes s" "b \<noteq> []" "repl \<noteq> []" "pad = word_of_int (tr_pad 0 repl)"
  shows "(\<not> cflag src \<longrightarrow> tr_trans safe s src repl False =
      Inr (\<exists>c \<in> set b. c \<in> set (expand src), s\<lparr>sbytes := map (tr_map (listed src) (listed repl) pad) b\<rparr>)) \<and>
    (cflag src \<longrightarrow> tr_trans safe s src repl False =
      Inr (\<exists>c \<in> set b. c \<notin> set (expand (tl src)),
        s\<lparr>sbytes := map (\<lambda>c. if c \<in> set (expand (tl src)) then c else pad) b\<rparr>)) \<and>
    (clean src \<longrightarrow> listed src = expand src) \<and>
    (clean repl \<longrightarrow> listed repl = expand repl \<and> pad = last (expand repl)) \<and>
    (\<forall>c. c \<noteq> 0x5c \<longrightarrow> listed [c, 0x2d, c] = [c, c] \<and> word_of_int (tr_pad 0 [c, 0x2d, c]) = c + 1)"
proof (intro conjI impI allI)
  have run: "tr_trans safe s src repl False = (let (t, md) = tr_loop (tr_table src repl) b in Inr (md, s\<lparr>sbytes := t\<rparr>))"
    using assms(1,3,4) by (simp add: tr_trans_def assms(2) [symmetric] tr_loop_map Let_def)
  {
    assume c: "\<not> cflag src"
    have "map (\<lambda>c. if tr_table src repl c \<ge> 0 then word_of_int (tr_table src repl c) else c) b = map (tr_map (listed src) (listed repl) pad) b"
      unfolding assms(5) by (intro map_cong refl tr_table_tr_map(2) [OF c])
    then show "tr_trans safe s src repl False =
      Inr (\<exists>c \<in> set b. c \<in> set (expand src), s\<lparr>sbytes := map (tr_map (listed src) (listed repl) pad) b\<rparr>)"
      unfolding run tr_loop_map by (simp only: Let_def prod.case tr_table_tr_map(1) [OF c])
  next
    assume c: "cflag src"
    have "now (tr_end (tr_start repl)) = tr_pad 0 repl" by (simp add: tr_start_def listed_emits)
    then have t: "tr_table src repl x = (if x \<in> set (expand (tl src)) then - 1 else tr_pad 0 repl)" for x
      using c by (simp add: tr_table_def mark_expand)
    then show "tr_trans safe s src repl False = Inr (\<exists>c \<in> set b. c \<notin> set (expand (tl src)),
        s\<lparr>sbytes := map (\<lambda>c. if c \<in> set (expand (tl src)) then c else pad) b\<rparr>)"
      using run tr_pad_nonneg [of 0 repl] by (auto simp: tr_loop_map assms(5))
  }
  show "clean src \<Longrightarrow> listed src = expand src" "clean repl \<Longrightarrow> listed repl = expand repl" by (auto intro: clean_listed)
  show "clean repl \<Longrightarrow> pad = last (expand repl)" using clean_pad [OF _ assms(4)] assms(5) by simp
  fix c :: byte
  assume "c \<noteq> 0x5c"
  then have "tr_items [c, 0x2d, c] = [TrRange c c]" by (simp add: tr_items.simps unescape_def)
  then show "listed [c, 0x2d, c] = [c, c]" "word_of_int (tr_pad 0 [c, 0x2d, c]) = c + 1"
    by (simp_all add: listed_def tr_pad_def)
qed

theorem tr_translates_witness:
  "let s = \<lparr>sbytes = [0x68, 0x65, 0x6c, 0x6c, 0x6f], has_ptr = True, sfrozen = False, stainted = True\<rparr> in
   tr_trans 0 s [0x61, 0x2d, 0x79] [0x62, 0x2d, 0x7a] False = Inr (True, s\<lparr>sbytes := [0x69, 0x66, 0x6d, 0x6d, 0x70]\<rparr>) \<and>
   tr_trans 0 s [0x5e, 0x6c] [0x2a] False = Inr (True, s\<lparr>sbytes := [0x2a, 0x2a, 0x6c, 0x6c, 0x2a]\<rparr>)"
proof -
  let ?s = "\<lparr>sbytes = [0x68, 0x65, 0x6c, 0x6c, 0x6f], has_ptr = True, sfrozen = False, stainted = True\<rparr>"
  have c: "clean [0x61, 0x2d, 0x79]" "clean [0x62, 0x2d, 0x7a]" "clean [0x5e, 0x6c]" "clean [0x2a]" by code_simp+
  have m: "map (tr_map (expand [0x61, 0x2d, 0x79]) (expand [0x62, 0x2d, 0x7a]) (last (expand [0x62, 0x2d, 0x7a]))) [0x68, 0x65, 0x6c, 0x6c, 0x6f] = [0x69, 0x66, 0x6d, 0x6d, 0x70]"
    "(\<exists>c \<in> set [0x68, 0x65, 0x6c, 0x6c, 0x6f]. c \<in> set (expand [0x61, 0x2d, 0x79])) = True" by code_simp+
  have n: "expand [0x6c] = [0x6c]" "expand [0x2a] = [0x2a]" by code_simp+
  have k: "\<not> cflag [0x61, 0x2d, 0x79]" "cflag [0x5e, 0x6c]" by code_simp+
  have w: "rb_str_modify 0 ?s = Inr ()" by (simp add: rb_str_modify_def)
  have 1: "tr_trans 0 ?s [0x61, 0x2d, 0x79] [0x62, 0x2d, 0x7a] False = Inr (True, ?s\<lparr>sbytes := [0x69, 0x66, 0x6d, 0x6d, 0x70]\<rparr>)"
    using tr_translates [OF w refl _ _ refl, of "[0x62, 0x2d, 0x7a]" "[0x61, 0x2d, 0x79]"] k(1) c(1,2) m by simp
  have 2: "tr_trans 0 ?s [0x5e, 0x6c] [0x2a] False = Inr (True, ?s\<lparr>sbytes := [0x2a, 0x2a, 0x6c, 0x6c, 0x2a]\<rparr>)"
    using tr_translates [OF w refl _ _ refl, of "[0x2a]" "[0x5e, 0x6c]"] k(2) c(4) by (simp add: n)
  show ?thesis unfolding Let_def using 1 2 by blast
qed

end
