(* ===== verification/Text_Props.thy ===== *)
theory Text_Props
  imports Text_Sets
begin

text \<open>
  Theorems on the text operations of \<^verbatim>\<open>string.c\<close>: \<^verbatim>\<open>dump\<close> with a reader of its escapes, lines, and words separated by white space.
\<close>

section \<open>Dumping\<close>

text \<open>A reader of the escapes.\<close>

definition letter_control :: "byte \<Rightarrow> byte" where
  "letter_control l =
     (if l = 0x6e then 0x0a else if l = 0x72 then 0x0d else if l = 0x74 then 0x09 else if l = 0x66 then 0x0c
      else if l = 0x76 then 0x0b else if l = 0x61 then 0x07 else if l = 0x65 then 0x1b else l)"

definition octal_value :: "byte \<Rightarrow> byte \<Rightarrow> byte \<Rightarrow> byte" where
  "octal_value x y z = push_bit 6 (x - 0x30) OR push_bit 3 (y - 0x30) OR (z - 0x30)"

fun undump :: "byte list \<Rightarrow> byte list" where
  "undump (x # y # z # w # s) =
     (if x \<noteq> 0x5c then x # undump (y # z # w # s)
      else if 0x30 \<le> y \<and> y \<le> 0x37 then octal_value y z w # undump s
      else letter_control y # undump (z # w # s))"
| "undump [x, y, z] = (if x \<noteq> 0x5c then x # undump [y, z] else letter_control y # undump [z])"
| "undump [x, y] = (if x \<noteq> 0x5c then x # undump [y] else [letter_control y])"
| "undump [x] = [x]"
| "undump [] = []"

lemma octal_digit: "unat k < 8 \<Longrightarrow> 0x30 \<le> 0x30 + k \<and> 0x30 + k \<le> (0x37 :: byte)"
  by (simp add: word_le_nat_alt unat_word_ariths)

lemma octal3_digits:
  "octal3 c = [x, y, z] \<Longrightarrow> d \<in> {x, y, z} \<Longrightarrow> 0x30 \<le> d \<and> d \<le> 0x37"
proof -
  have a: "w AND 7 = take_bit 3 w" for w :: byte by (simp add: take_bit_eq_mask mask_eq_exp_minus_1)
  have "unat (w AND 7) < 8" for w :: byte unfolding a by (simp add: unsigned_take_bit_eq take_bit_nat_less_exp [of 3, simplified])
  moreover have "unat (drop_bit 6 c) < 8" using unsigned_less [of c, where ?'a = nat] by (simp add: word_nat div_less_iff_less_mult)
  ultimately show "octal3 c = [x, y, z] \<Longrightarrow> d \<in> {x, y, z} \<Longrightarrow> 0x30 \<le> d \<and> d \<le> 0x37"
    using octal_digit unfolding octal3_def by blast
qed

lemma octal3_back: "\<exists>x y z. octal3 c = [x, y, z] \<and> 0x30 \<le> x \<and> x \<le> 0x37 \<and> octal_value x y z = c"
proof -
  have a: "w AND 7 = take_bit 3 w" for w :: byte by (simp add: take_bit_eq_mask mask_eq_exp_minus_1)
  have "push_bit 6 (drop_bit 6 c) OR push_bit 3 (take_bit 3 (drop_bit 3 c)) OR take_bit 3 c = c"
  proof (rule bit_word_eqI)
    fix n assume n: "n < LENGTH(8)"
    consider "n < 3" | "3 \<le> n" "n < 6" | "6 \<le> n" by linarith
    then show "bit (push_bit 6 (drop_bit 6 c) OR push_bit 3 (take_bit 3 (drop_bit 3 c)) OR take_bit 3 c) n = bit c n"
      by cases (use n in \<open>auto simp: bit_simps\<close>)
  qed
  then have "octal_value (0x30 + drop_bit 6 c) (0x30 + (drop_bit 3 c AND 7)) (0x30 + (c AND 7)) = c"
    unfolding octal_value_def a by simp
  then show ?thesis using octal3_digits [of c] unfolding octal3_def by blast
qed

lemma undump_plain: "x \<noteq> 0x5c \<Longrightarrow> undump (x # s) = x # undump s"
  by (cases s; cases "tl s"; cases "tl (tl s)") auto

lemma undump_letter: "\<not> (0x30 \<le> y \<and> y \<le> 0x37) \<Longrightarrow> undump (0x5c # y # s) = letter_control y # undump s"
  by (cases s; cases "tl s") auto

lemma control_letter_back:
  assumes "control_letter c = Some l"
  shows "letter_control l = c" "\<not> (0x30 \<le> l \<and> l \<le> 0x37)" "ISPRINT l"
  using assms by (auto simp: control_letter_def letter_control_def ISPRINT_def split: if_splits)

lemma dump_char_back:
  "undump (dump_char c @ s) = c # undump s" "length (dump_char c) = dump_width c" "\<forall>x \<in> set (dump_char c). ISPRINT x"
proof -
  obtain x y z where o: "octal3 c = [x, y, z]" "0x30 \<le> x \<and> x \<le> 0x37" "octal_value x y z = c" using octal3_back by blast
  have "\<forall>d \<in> {x, y, z}. 0x30 \<le> d \<and> d \<le> 0x37" using octal3_digits [OF o(1)] by blast
  then have p: "\<forall>x \<in> set (octal3 c). ISPRINT x" unfolding o(1) ISPRINT_def by (auto simp: word_le_nat_alt)
  consider "c = 0x22 \<or> c = 0x5c \<or> c = 0x23" | "c \<noteq> 0x22" "c \<noteq> 0x5c" "c \<noteq> 0x23" "ISPRINT c" | l where "\<not> ISPRINT c" "control_letter c = Some l"
    | "\<not> ISPRINT c" "control_letter c = None" by (cases "control_letter c") auto
  then have "undump (dump_char c @ s) = c # undump s \<and> length (dump_char c) = dump_width c \<and> (\<forall>x \<in> set (dump_char c). ISPRINT x)"
  proof cases
    case 1
    have "\<not> (0x30 \<le> c \<and> c \<le> 0x37)" "letter_control c = c" "ISPRINT c" using 1 by (auto simp: letter_control_def ISPRINT_def)
    then show ?thesis using 1 undump_letter [of c s] by (auto simp: dump_char_def dump_width_def ISPRINT_def)
  next
    case 2
    then have "control_letter c = None" by (auto simp: control_letter_def ISPRINT_def)
    then show ?thesis using 2 undump_plain [of c s] by (simp add: dump_char_def dump_width_def)
  next
    case (3 l)
    then have "c \<noteq> 0x22" "c \<noteq> 0x5c" "c \<noteq> 0x23" by (auto simp: ISPRINT_def)
    then show ?thesis using 3 control_letter_back [OF 3(2)] undump_letter [of l s] by (simp add: dump_char_def dump_width_def) (simp add: ISPRINT_def)
  next
    case 4
    then have "c \<noteq> 0x22" "c \<noteq> 0x5c" "c \<noteq> 0x23" by (auto simp: ISPRINT_def)
    then show ?thesis using 4 o p by (simp add: dump_char_def dump_width_def) (simp add: ISPRINT_def)
  qed
  then show "undump (dump_char c @ s) = c # undump s" "length (dump_char c) = dump_width c" "\<forall>x \<in> set (dump_char c). ISPRINT x" by blast+
qed

text \<open>
  C9. \<^verbatim>\<open>dump\<close> loses nothing: the length computed in the first pass is that of the text written in the second, so that it stays
  inside its buffer; the text is quoted, consists of printable characters only, and reading its escapes gives
  back the bytes of the string.
\<close>

theorem rb_str_dump_round_trip:
  assumes "4 * int (length str) + 3 < address_space"
  shows "\<exists>body. rb_str_dump str = Inr ([0x22] @ body @ [0x22]) \<and> length body = sum_list (map dump_width str) \<and>
    (\<forall>x \<in> set body. ISPRINT x) \<and> undump body = str"
proof -
  let ?body = "concat (map dump_char str)"
  have l: "length ?body = sum_list (map dump_width str)" by (induction str) (simp_all add: dump_char_back(2))
  have u: "undump ?body = str" by (induction str) (simp_all add: dump_char_back(1))
  have "sum_list (map dump_width str) \<le> 4 * length str" by (induction str) (auto simp: dump_width_def)
  then have "str_zero (2 + int (sum_list (map dump_width str))) = Inr (replicate (2 + sum_list (map dump_width str)) 0)"
    using assms by (simp add: str_zero_def str_new_def address_space_def nat_add_distrib)
  then have "rb_str_dump str = Inr ([0x22] @ ?body @ [0x22])" by (simp add: rb_str_dump_def Let_def l)
  then show ?thesis using l u dump_char_back(3) by fastforce
qed

theorem rb_str_dump_round_trip_witness:
  "\<exists>body. rb_str_dump [0x22, 0x61, 0x0a, 0xff] = Inr ([0x22] @ body @ [0x22]) \<and> length body = 9 \<and> undump body = [0x22, 0x61, 0x0a, 0xff]"
proof -
  have "sum_list (map dump_width [0x22, 0x61, 0x0a, 0xff]) = 9" by code_simp
  then show ?thesis using rb_str_dump_round_trip [of "[0x22, 0x61, 0x0a, 0xff]"] unfolding address_space_def by fastforce
qed

section \<open>Lines\<close>

lemma newlines_inside:
  fixes str :: "byte list"
  assumes "p < length str"
  shows "Suc p + length (takeWhile (\<lambda>c. c = 0x0a) (drop (Suc p) (str @ [0]))) \<le> length str"
proof -
  have "takeWhile (\<lambda>c. c = 0x0a) (drop (Suc p) (str @ [0 :: byte])) = takeWhile (\<lambda>c. c = 0x0a) (drop (Suc p) str)"
    using assms by (auto simp: takeWhile_tail intro!: takeWhile_append1 takeWhile_append2)
  moreover have "length (takeWhile (\<lambda>c. c = 0x0a) (drop (Suc p) str)) \<le> length (drop (Suc p) str)" by (rule length_takeWhile_le)
  ultimately show ?thesis using assms by simp
qed

text \<open>
  Where a line ends inside the string: after the separator, wherever it stands, and with an empty separator after a run of at
  least two newlines.
\<close>

definition line_stop :: "byte list \<Rightarrow> byte list \<Rightarrow> nat \<Rightarrow> bool" where
  "line_stop rs str p \<longleftrightarrow>
     (if rs = [] then 2 \<le> p \<and> str ! (p - 1) = 0x0a \<and> str ! (p - 2) = 0x0a \<and> str ! p \<noteq> 0x0a
      else length rs \<le> p \<and> take (length rs) (drop (p - length rs) str) = rs)"

text \<open>The positions at which the loop looks.\<close>

definition line_at :: "byte list \<Rightarrow> byte list \<Rightarrow> nat \<Rightarrow> bool" where
  "line_at rs str p \<longleftrightarrow> (if rs = [] then p = 0 \<or> length str < p \<or> str ! (p - 1) \<noteq> 0x0a else length rs \<le> p)"

lemma line_end_stop:
  assumes "rs \<noteq> []" "length rs \<le> p" "p \<le> length str"
  shows "line_end False rs str p = Inr (line_stop rs str p)"
proof -
  define x where "x = take (length rs) (drop (p - length rs) str)"
  have x: "length x = length rs" "x \<noteq> []" using assms by (simp_all add: x_def) (cases rs; simp)
  have l: "last x = str ! (p - 1)"
  proof -
    have "0 < length rs" using assms(1) by simp
    then have k: "p - length rs + (length rs - 1) = p - 1" "length rs - 1 < length rs" using assms(2) by linarith+
    have "last x = x ! (length rs - 1)" using last_conv_nth [OF x(2)] x(1) by simp
    also have "\<dots> = drop (p - length rs) str ! (length rs - 1)" unfolding x_def using k(2) by (rule nth_take)
    also have "\<dots> = str ! (p - 1)" using nth_drop [of "p - length rs" str "length rs - 1"] assms(3) k(1) by simp
    finally show ?thesis .
  qed
  have rs: "0 < length rs" using assms(1) by simp
  have p: "0 < p" using rs assms(2) by linarith
  then have p': "(str @ [0]) ! (p - 1) = str ! (p - 1)" using assms(3) by (auto simp: nth_append)
  have m: "rb_memcmp False rs x = Inr (memcmp rs x)" by (simp add: rb_memcmp_def)
  have e: "memcmp rs x = 0 \<longleftrightarrow> rs = x" by (rule memcmp_0) (simp add: x(1))
  have s: "line_stop rs str p \<longleftrightarrow> x = rs" using assms by (simp add: line_stop_def x_def)
  show ?thesis
  proof (cases "length rs \<le> 1")
    case True
    then obtain c where "rs = [c]" using assms(1) by (cases rs) auto
    moreover from this x obtain d where "x = [d]" by (cases x) auto
    ultimately show ?thesis using s l p p' by (auto simp: line_end_def)
  next
    case False
    then show ?thesis using s l p p' e m assms(1) unfolding line_end_def x_def [symmetric] by (auto simp: Let_def)
  qed
qed

lemma newline_run:
  assumes "p < length str" "str ! p = (0x0a :: byte)" "(str @ [0]) ! Suc p = 0x0a"
    "p1 = Suc p + length (takeWhile (\<lambda>c. c = 0x0a) (drop (Suc p) (str @ [0])))" "p1 \<le> length str"
  shows "Suc (Suc p) \<le> p1" "\<And>x. p \<le> x \<Longrightarrow> x < p1 \<Longrightarrow> str ! x = 0x0a" "p1 < length str \<Longrightarrow> str ! p1 \<noteq> 0x0a"
proof -
  define w where "w = takeWhile (\<lambda>c. c = 0x0a) (drop (Suc p) (str @ [0]))"
  have d: "drop (Suc p) (str @ [0]) = (str @ [0]) ! Suc p # drop (Suc (Suc p)) (str @ [0])"
    using assms(1) by (intro Cons_nth_drop_Suc [symmetric]) simp
  then have "w = 0x0a # takeWhile (\<lambda>c. c = 0x0a) (drop (Suc (Suc p)) (str @ [0]))" using assms(3) by (simp add: w_def)
  then have "0 < length w" by (simp only: list.size)
  have p1: "p1 = Suc p + length w" using assms(4) by (simp add: w_def)
  then show "Suc (Suc p) \<le> p1" using \<open>0 < length w\<close> by linarith
  show "str ! x = 0x0a" if "p \<le> x" "x < p1" for x
  proof (cases "x = p")
    case False
    then have i: "x - Suc p < length w" "Suc p + (x - Suc p) = x" using that p1 by auto
    have "w ! (x - Suc p) = 0x0a" using nth_mem [OF i(1)] set_takeWhileD unfolding w_def by fast
    moreover have "w ! (x - Suc p) = drop (Suc p) (str @ [0]) ! (x - Suc p)"
      unfolding w_def by (rule takeWhile_nth) (use i(1) in \<open>simp only: w_def\<close>)
    moreover have "drop (Suc p) (str @ [0]) ! (x - Suc p) = (str @ [0]) ! x"
      using nth_drop [of "Suc p" "str @ [0]" "x - Suc p"] assms(1) i(2) by simp
    ultimately show ?thesis using that(2) assms(5) by (simp add: nth_append)
  qed (use assms(2) in simp)
  show "str ! p1 \<noteq> 0x0a" if "p1 < length str"
  proof -
    have "length w < length (drop (Suc p) (str @ [0]))" using that p1 by simp
    from nth_length_takeWhile [OF this [unfolded w_def]] have "(str @ [0]) ! p1 \<noteq> 0x0a"
      using nth_drop [of "Suc p" "str @ [0]" "length w"] p1 assms(1) unfolding w_def by simp
    then show ?thesis using that by (simp add: nth_append)
  qed
qed

lemma line_end_nil: "line_end False [] str p = Inr (0 < p \<and> (str @ [0]) ! (p - 1) = 0x0a)"
  by (simp add: line_end_def)

text \<open>
  What the loop does in one round: it passes over a newline, goes on, or ends a line; each time the ends from its position on
  are those from the next position on, and the one it makes.
\<close>

lemma line_loop_round:
  assumes "p < length str" "line_at rs str p"
  obtains (go) p1 where "p < p1" "line_at rs str p1" "\<forall>x < length str. line_stop rs str x \<longrightarrow> p \<le> x \<longrightarrow> p1 \<le> x"
      "line_loop False rs str s p = line_loop False rs str s p1"
  | (hit) p1 where "p \<le> p1" "0 < p1" "p1 \<le> length str" "line_at rs str (Suc p1)" "p1 < length str \<longrightarrow> line_stop rs str p1"
      "\<forall>x < length str. line_stop rs str x \<longrightarrow> p \<le> x \<longrightarrow> x = p1 \<or> Suc p1 \<le> x"
      "line_loop False rs str s p = bindR (line_loop False rs str p1 (Suc p1)) (\<lambda>(ls, s', p'). Inr (take (p1 - s) (drop s str) # ls, s', p'))"
proof -
  have np: "\<not> length str \<le> p" using assms(1) by simp
  consider (plain) "rs \<noteq> []" | (char) "rs = []" "str ! p \<noteq> 0x0a" | (single) "rs = []" "str ! p = 0x0a" "(str @ [0]) ! Suc p \<noteq> 0x0a"
    | (many) "rs = []" "str ! p = 0x0a" "(str @ [0]) ! Suc p = 0x0a" by blast
  then show ?thesis
  proof cases
    case plain
    then have l: "length rs \<le> p" using assms(2) by (simp add: line_at_def)
    have e: "line_loop False rs str s p = (if line_stop rs str p
        then bindR (line_loop False rs str p (Suc p)) (\<lambda>(ls, s', p'). Inr (take (p - s) (drop s str) # ls, s', p'))
        else line_loop False rs str s (Suc p))"
      using assms(1) plain line_end_stop [OF plain l] by (subst line_loop.simps) (simp add: Let_def)
    have a: "line_at rs str (Suc p)" "0 < p" using plain l by (cases rs; simp add: line_at_def)+
    show ?thesis
    proof (cases "line_stop rs str p")
      case True
      then show ?thesis using assms(1) a e by (intro hit [of p]) auto
    next
      case False
      then show ?thesis using a e by (intro go [of "Suc p"]) (auto simp: Suc_le_eq order.order_iff_strict)
    qed
  next
    case char
    have n: "0 < p \<Longrightarrow> str ! (p - 1) \<noteq> 0x0a" using assms char by (simp add: line_at_def)
    then have "line_end False rs str p = Inr False" using char assms(1) by (auto simp: line_end_nil nth_append)
    then have "line_loop False rs str s p = line_loop False rs str s (Suc p)"
      using assms(1) char by (subst line_loop.simps) (simp add: Let_def nth_append)
    moreover have "\<not> line_stop rs str p" using n char by (auto simp: line_stop_def)
    ultimately show ?thesis using char by (intro go [of "Suc p"]) (auto simp: line_at_def Suc_le_eq order.order_iff_strict)
  next
    case single
    have n: "0 < p \<Longrightarrow> str ! (p - 1) \<noteq> 0x0a" using assms single by (simp add: line_at_def)
    have "line_loop False rs str s p = line_loop False rs str s (Suc (Suc p))"
      using assms(1) single by (subst line_loop.simps) (simp add: Let_def nth_append)
    moreover have "\<not> line_stop rs str p" "\<not> line_stop rs str (Suc p)" using n single by (auto simp: line_stop_def)
    moreover have "line_at rs str (Suc (Suc p))" using single assms(1) by (auto simp: line_at_def nth_append split: if_splits)
    moreover have "x = p \<or> x = Suc p \<or> Suc (Suc p) \<le> x" if "p \<le> x" for x using that by linarith
    ultimately show ?thesis by (intro go [of "Suc (Suc p)"]) auto
  next
    case many
    define p1 where "p1 = Suc p + length (takeWhile (\<lambda>c. c = 0x0a) (drop (Suc p) (str @ [0])))"
    have i: "p1 \<le> length str" unfolding p1_def by (rule newlines_inside [OF assms(1)])
    note run = newline_run [OF assms(1) many(2,3) p1_def i]
    have n: "0 < p \<Longrightarrow> str ! (p - 1) \<noteq> 0x0a" using assms many by (simp add: line_at_def)
    have "str ! (p1 - 1) = 0x0a" "str ! (p1 - 2) = 0x0a" using run(1) run(2) [of "p1 - 1"] run(2) [of "p1 - 2"] by auto
    then have "line_end False rs str p1 = Inr True" "p1 < length str \<longrightarrow> line_stop rs str p1"
      using many(1) run(1,3) i by (auto simp: line_end_nil line_stop_def nth_append)
    moreover have "line_loop False rs str s p =
        bindR (line_loop False rs str p1 (Suc p1)) (\<lambda>(ls, s', p'). Inr (take (p1 - s) (drop s str) # ls, s', p'))"
    proof -
      have b: "(rs = [] \<and> (str @ [0]) ! p = 0x0a) = True" using many assms(1) by (simp add: nth_append)
      have "line_loop False rs str s p = bindR (line_end False rs str p1) (\<lambda>hit.
          if hit then bindR (line_loop False rs str p1 (Suc p1)) (\<lambda>(ls, s', p'). Inr (take (p1 - s) (drop s str) # ls, s', p'))
          else line_loop False rs str s (Suc p1))"
        unfolding line_loop.simps [of False rs str s p] Let_def if_not_P [OF np] b
        by (simp only: many(3) simp_thms if_True if_False p1_def)
      with \<open>line_end False rs str p1 = Inr True\<close> show ?thesis by simp
    qed
    moreover have "x = p1 \<or> Suc p1 \<le> x" if x: "x < length str" "line_stop rs str x" "p \<le> x" for x
    proof (rule ccontr)
      assume "\<not> (x = p1 \<or> Suc p1 \<le> x)"
      then have "x < p1" by simp
      then have "str ! x = 0x0a" using run(2) x(3) by simp
      then show False using x(2) many(1) by (simp add: line_stop_def)
    qed
    moreover have "line_at rs str (Suc p1)" using many(1) run(3) i by (auto simp: line_at_def order.order_iff_strict)
    ultimately show ?thesis using run(1) i by (intro hit [of p1]) auto
  qed
qed

text \<open>The positions at which the lines end, from a start on.\<close>

fun ends :: "nat \<Rightarrow> byte list list \<Rightarrow> nat list" where
  "ends s [] = []"
| "ends s (l # ls) = (s + length l) # ends (s + length l) ls"

lemma ends_append: "ends s (ls @ ms) = ends s ls @ ends (s + length (concat ls)) ms"
  by (induction s ls rule: ends.induct) (simp_all add: add.assoc)

lemma ends_take: "x \<in> set (ends s ls) \<longleftrightarrow> (\<exists>k < length ls. x = s + length (concat (take (Suc k) ls)))"
proof (induction s ls rule: ends.induct)
  case (2 s l ls)
  have "(\<exists>k < length (l # ls). x = s + length (concat (take (Suc k) (l # ls)))) \<longleftrightarrow>
      x = s + length l \<or> (\<exists>k < length ls. x = s + length l + length (concat (take (Suc k) ls)))"
    unfolding length_Cons by (subst Ex_less_Suc2) (simp add: add.assoc)
  with 2 show ?case by simp
qed simp

lemma line_loop_lines:
  assumes "s < p \<or> s = 0 \<and> p = 0" "s \<le> length str" "line_at rs str p"
  shows "\<exists>ls s' p'. line_loop False rs str s p = Inr (ls, s', p') \<and> s \<le> s' \<and> s' \<le> length str \<and> length str \<le> p' \<and>
    concat ls = take (s' - s) (drop s str) \<and> [] \<notin> set ls \<and>
    (\<forall>x < length str. x \<in> set (ends s ls) \<longleftrightarrow> p \<le> x \<and> line_stop rs str x)"
  using assms
proof (induction "length str + 1 - p" arbitrary: s p rule: less_induct)
  case less
  show ?case
  proof (cases "p < length str")
    case False
    then show ?thesis using less.prems by (subst line_loop.simps) auto
  next
    case True
    show ?thesis
    proof (cases rule: line_loop_round [OF True less.prems(3), of s, case_names go hit])
      case (go p1)
      have "length str + 1 - p1 < length str + 1 - p" "s < p1" using go(1) True less.prems(1) by auto
      from less.hyps [OF this(1) disjI1 [OF this(2)] less.prems(2) go(2)] obtain ls s' p' where IH:
        "line_loop False rs str s p1 = Inr (ls, s', p')" "s \<le> s'" "s' \<le> length str" "length str \<le> p'"
        "concat ls = take (s' - s) (drop s str)" "[] \<notin> set ls" "\<forall>x < length str. x \<in> set (ends s ls) \<longleftrightarrow> p1 \<le> x \<and> line_stop rs str x"
        by blast
      moreover have "p1 \<le> x \<and> line_stop rs str x \<longleftrightarrow> p \<le> x \<and> line_stop rs str x" if "x < length str" for x
        using go(1,3) that by auto
      ultimately show ?thesis using go(4) by auto
    next
      case (hit p1)
      have s: "s < p1" using less.prems(1) hit(1,2) by auto
      have "length str + 1 - Suc p1 < length str + 1 - p" using hit(1) True by linarith
      from less.hyps [OF this disjI1 [OF lessI] hit(3,4)] obtain ls s' p' where IH:
        "line_loop False rs str p1 (Suc p1) = Inr (ls, s', p')" "p1 \<le> s'" "s' \<le> length str" "length str \<le> p'"
        "concat ls = take (s' - p1) (drop p1 str)" "[] \<notin> set ls"
        "\<forall>x < length str. x \<in> set (ends p1 ls) \<longleftrightarrow> Suc p1 \<le> x \<and> line_stop rs str x" by blast
      let ?l = "take (p1 - s) (drop s str)"
      have "?l @ take (s' - p1) (drop p1 str) = take (s' - s) (drop s str)"
      proof -
        have "s' - s = (p1 - s) + (s' - p1)" "drop (p1 - s) (drop s str) = drop p1 str" using s IH(2) by simp_all
        then show ?thesis by (simp only: take_add)
      qed
      moreover have "?l \<noteq> []" "s + length ?l = p1" using s hit(3) by simp_all
      moreover have "x = p1 \<or> Suc p1 \<le> x \<and> line_stop rs str x \<longleftrightarrow> p \<le> x \<and> line_stop rs str x" if "x < length str" for x
        using hit(1,5,6) that by auto
      moreover have "line_loop False rs str s p = Inr (?l # ls, s', p')" using hit(7) IH(1) by simp
      ultimately show ?thesis using IH(2-7) s
        by (intro exI [of _ "?l # ls"] exI [of _ s'] exI [of _ p']) (simp del: length_take length_drop)
    qed
  qed
qed

section \<open>Words\<close>

function words :: "byte list \<Rightarrow> byte list list" where
  "words s =
     (let t = dropWhile is_space s
      in if t = [] then [] else takeWhile (\<lambda>c. \<not> is_space c) t # words (dropWhile (\<lambda>c. \<not> is_space c) t))"
  by auto
termination
proof (relation "measure length", goal_cases)
  case (2 s t)
  then have t: "\<not> is_space (hd t)" "length t \<le> length s" using hd_dropWhile [of is_space s] length_dropWhile_le [of is_space s] by simp_all
  obtain x u where u: "t = x # u" using 2(2) by (meson list.exhaust)
  then have "dropWhile (\<lambda>c. \<not> is_space c) t = dropWhile (\<lambda>c. \<not> is_space c) u" using t(1) by simp
  then show ?case using t(2) u length_dropWhile_le [of "\<lambda>c. \<not> is_space c" u] by simp
qed simp

declare words.simps [simp del]

lemma words_space: "is_space x \<Longrightarrow> words (x # s) = words s"
  by (simp add: words.simps)

lemma words_word:
  "w \<noteq> [] \<Longrightarrow> \<forall>c \<in> set w. \<not> is_space c \<Longrightarrow> s = [] \<or> is_space (hd s) \<Longrightarrow> words (w @ s) = w # words s"
proof -
  assume w: "w \<noteq> []" "\<forall>c \<in> set w. \<not> is_space c" "s = [] \<or> is_space (hd s)"
  then have "dropWhile is_space (w @ s) = w @ s" by (cases w) auto
  moreover have "takeWhile (\<lambda>c. \<not> is_space c) (w @ s) = w" "dropWhile (\<lambda>c. \<not> is_space c) (w @ s) = s"
    using w by (cases s; simp add: takeWhile_append dropWhile_append)+
  ultimately show ?thesis using w(1) by (subst words.simps) simp
qed

lemma words_nil [simp]: "words [] = []"
  by (simp add: words.simps)

text \<open>The loop, between words and inside one.\<close>

lemma awk_loop_words:
  shows "str = pre @ xs \<Longrightarrow> awk_loop str None xs (length pre) e True i = (ws, b) \<Longrightarrow>
      words xs = ws @ (if b < length str then [drop b str] else []) \<and> [] \<notin> set ws"
    and "str = pre @ w @ xs \<Longrightarrow> w \<noteq> [] \<Longrightarrow> \<forall>c \<in> set w. \<not> is_space c \<Longrightarrow>
      awk_loop str None xs (length pre) (length pre + length w) False i = (ws, b) \<Longrightarrow>
      words (w @ xs) = ws @ (if b < length str then [drop b str] else []) \<and> [] \<notin> set ws"
proof (induction xs arbitrary: pre w e i ws b)
  case Nil
  {
    case 1
    then show ?case by simp
  next
    case 2
    then show ?case using words_word [of w "[]"] by auto
  }
next
  case (Cons x xs)
  {
    case 1
    show ?case
    proof (cases "is_space x")
      case True
      then show ?thesis using Cons.IH(1) [of "pre @ [x]" e i ws b] 1 words_space by simp
    next
      case False
      then show ?thesis using Cons.IH(2) [of pre "[x]" i ws b] 1 by simp
    qed
  next
    case 2
    show ?case
    proof (cases "is_space x")
      case True
      obtain ws1 where ws: "awk_loop str None xs (length (pre @ w @ [x])) (length pre + length w) True i = (ws1, b)" "ws = w # ws1"
        using 2 True by (auto split: prod.splits)
      then have "words xs = ws1 @ (if b < length str then [drop b str] else []) \<and> [] \<notin> set ws1"
        using Cons.IH(1) [of "pre @ w @ [x]"] 2(1) by simp
      then show ?thesis using words_word [of w "x # xs"] words_space [OF True] True 2(2,3) ws(2) by auto
    next
      case False
      then show ?thesis using Cons.IH(2) [of pre "w @ [x]" i ws b] 2 by simp
    qed
  }
qed

lemma split_awk_words: "rb_str_split_awk str None = words str"
proof -
  obtain ws b where l: "awk_loop str None str 0 0 True 0 = (ws, b)" by (cases "awk_loop str None str 0 0 True 0")
  then have w: "words str = ws @ (if b < length str then [drop b str] else [])" "[] \<notin> set ws"
    using awk_loop_words(1) [of str "[]" str 0 0 ws b] by simp_all
  have "[] \<notin> set (words str)" using w by auto
  then have "dropWhile (\<lambda>w. w = []) (rev (words str)) = rev (words str)"
    unfolding dropWhile_eq_self_iff by (metis hd_in_set set_rev)
  then have "rev (dropWhile (\<lambda>w. w = []) (rev (words str))) = words str" by simp
  then show ?thesis using l w(1) by (cases "b < length str") (simp_all add: rb_str_split_awk_def)
qed

text \<open>
  C40. Lines and words: the lines that \<^verbatim>\<open>each_line\<close> yields are not empty and make up the string, for every separator, the empty one
  included (paragraphs). Inside the string a line ends exactly where the separator ends, and with the empty separator
  exactly after each run of two or more newlines. The separator is also found when it begins in the line before:
  \<^verbatim>\<open>"aaaa"\<close> at \<^verbatim>\<open>"aa"\<close> gives \<^verbatim>\<open>"aa"\<close>, \<^verbatim>\<open>"a"\<close>, \<^verbatim>\<open>"a"\<close>. \<^verbatim>\<open>split\<close> at white space gives the maximal runs of other characters in order.
\<close>

theorem lines_and_words:
  "(\<exists>ls. rb_str_each_line False str (Some rs) = Inr ls \<and> concat ls = str \<and> [] \<notin> set ls \<and>
      (\<forall>p. 0 < p \<and> p < length str \<longrightarrow> ((\<exists>k < length ls. p = length (concat (take (Suc k) ls))) \<longleftrightarrow> line_stop rs str p))) \<and>
   rb_str_split_awk str None = words str"
proof (intro conjI)
  have at: "line_at rs str (length rs)" by (simp add: line_at_def)
  obtain ls s p where l: "line_loop False rs str 0 (length rs) = Inr (ls, s, p)" "s \<le> length str" "length str \<le> p"
    "concat ls = take s str" "[] \<notin> set ls" "\<forall>x < length str. x \<in> set (ends 0 ls) \<longleftrightarrow> length rs \<le> x \<and> line_stop rs str x"
    using line_loop_lines [OF _ _ at, of 0] by auto
  have t: "take (min p (length str) - s) (drop s str) = drop s str" using l(3) by simp
  define ms where "ms = (if s \<noteq> length str then ls @ [drop s str] else ls)"
  have "rb_str_each_line False str (Some rs) = Inr ms" using l(1) t by (simp add: rb_str_each_line_def ms_def)
  moreover have "concat ms = str" "[] \<notin> set ms" using l(2,4,5) by (auto simp: ms_def)
  moreover have "(\<exists>k < length ms. x = length (concat (take (Suc k) ms))) \<longleftrightarrow> line_stop rs str x" if "0 < x \<and> x < length str" for x
  proof -
    have "x \<in> set (ends 0 ms) \<longleftrightarrow> x \<in> set (ends 0 ls)" using that l(2,4) by (auto simp: ms_def ends_append)
    moreover have "line_stop rs str x \<Longrightarrow> length rs \<le> x" by (auto simp: line_stop_def split: if_splits)
    ultimately show ?thesis using l(6) that ends_take [of x 0 ms] by auto
  qed
  ultimately show "\<exists>ls. rb_str_each_line False str (Some rs) = Inr ls \<and> concat ls = str \<and> [] \<notin> set ls \<and>
      (\<forall>p. 0 < p \<and> p < length str \<longrightarrow> ((\<exists>k < length ls. p = length (concat (take (Suc k) ls))) \<longleftrightarrow> line_stop rs str p))" by blast
  show "rb_str_split_awk str None = words str" by (rule split_awk_words)
qed

theorem lines_and_words_witness:
  "(\<exists>ls. rb_str_each_line False [0x61, 0x61, 0x61, 0x61] (Some [0x61, 0x61]) = Inr ls \<and> concat ls = [0x61, 0x61, 0x61, 0x61] \<and>
      (\<exists>k < length ls. 3 = length (concat (take (Suc k) ls))) \<and> \<not> (\<exists>k < length ls. 1 = length (concat (take (Suc k) ls)))) \<and>
   rb_str_split_awk [0x61, 0x0a, 0x62, 0x20, 0x63] None = [[0x61], [0x62], [0x63]]"
proof
  let ?s = "[0x61, 0x61, 0x61, 0x61] :: byte list"
  have st: "line_stop [0x61, 0x61] ?s 3" "\<not> line_stop [0x61, 0x61] ?s 1" by (simp_all add: line_stop_def)
  obtain ls where ls: "rb_str_each_line False ?s (Some [0x61, 0x61]) = Inr ls" "concat ls = ?s"
    "\<forall>p. 0 < p \<and> p < length ?s \<longrightarrow> ((\<exists>k < length ls. p = length (concat (take (Suc k) ls))) \<longleftrightarrow> line_stop [0x61, 0x61] ?s p)"
    using lines_and_words [of ?s "[0x61, 0x61]"] by blast
  have b: "0 < (3 :: nat) \<and> 3 < length ?s" "0 < (1 :: nat) \<and> 1 < length ?s" by simp_all
  have "\<exists>k < length ls. 3 = length (concat (take (Suc k) ls))" "\<not> (\<exists>k < length ls. 1 = length (concat (take (Suc k) ls)))"
    using ls(3) [rule_format, OF b(1)] ls(3) [rule_format, OF b(2)] st by blast+
  with ls show "\<exists>ls. rb_str_each_line False ?s (Some [0x61, 0x61]) = Inr ls \<and> concat ls = ?s \<and>
      (\<exists>k < length ls. 3 = length (concat (take (Suc k) ls))) \<and> \<not> (\<exists>k < length ls. 1 = length (concat (take (Suc k) ls)))" by blast
  have "words [0x61, 0x0a, 0x62, 0x20, 0x63] = [[0x61], [0x62], [0x63]]" by code_simp
  then show "rb_str_split_awk [0x61, 0x0a, 0x62, 0x20, 0x63] None = [[0x61], [0x62], [0x63]]"
    using lines_and_words [of "[0x61, 0x0a, 0x62, 0x20, 0x63]" "[]"] by simp
qed

end
