(* ===== verification/Spec2Isabelle.thy ===== *)
theory Spec2Isabelle
  imports Array_Props Comparable Hash_Maps Pack_Results St_Reach String_Props Text_Props
begin

text \<open>
  A verification of the data structures at the core of the Ruby interpreter in \<^verbatim>\<open>src/ruby\<close>.

  \<^bold>\<open>The program.\<close> The interpreter parses a script (\<^verbatim>\<open>parse.y\<close>) and walks the tree (\<^verbatim>\<open>eval.c\<close>); the values
  it computes with are implemented in C, one file per class. \<^verbatim>\<open>st.c\<close> holds the hash tables behind symbols, method tables, instance variables and the class
  Hash. \<^verbatim>\<open>bignum.c\<close> holds the integers that do not fit a tagged machine word, \<^verbatim>\<open>numeric.c\<close> those that do and the
  coercion between them, \<^verbatim>\<open>compar.c\<close> the comparisons that both share. \<^verbatim>\<open>array.c\<close> holds the arrays, which share buffers between an array and its slices and copy them
  on the first write; its set operations use \<^verbatim>\<open>st.c\<close> through the key functions of \<^verbatim>\<open>hash.c\<close> and \<^verbatim>\<open>string.c\<close>.
  \<^verbatim>\<open>hash.c\<close> puts a table of \<^verbatim>\<open>st.c\<close> into an object that may be changed while it is iterated over. \<^verbatim>\<open>string.c\<close> holds the
  byte strings, and \<^verbatim>\<open>pack.c\<close> turns arrays of values into strings by a format and back.

  \<^bold>\<open>The theories.\<close>

  \<^item> \<^verbatim>\<open>CRuby_Prelude\<close>: machine types, the error type, sequencing of fallible steps (\<^verbatim>\<open>bindR\<close>), collections
    and facts on lists and words.

  \<^item> \<^verbatim>\<open>St_Table\<close> (\<^verbatim>\<open>st.c\<close>, \<^verbatim>\<open>st.h\<close>): the record \<^verbatim>\<open>st_table\<close> has the fields of the struct, chains are lists;
    one definition per function (\<^verbatim>\<open>st_insert\<close>, \<^verbatim>\<open>st_lookup\<close>, \<^verbatim>\<open>st_delete\<close>, \<^verbatim>\<open>st_foreach\<close>, \<^verbatim>\<open>rehash\<close>, ...). Shown: an
    invariant that every operation keeps and every reachable table has; insertion and deletion refine
    updates of a finite map; rehashing changes no lookup; deferred deletion agrees with direct
    deletion; the prime table reaches as far as the counter. What a table asks of its hash type is the
    locale \<^verbatim>\<open>st_hash_laws\<close>, what it promises is a dictionary contract, interpreted on these operations. The counter
    \<^verbatim>\<open>num_entries\<close> is an \<^verbatim>\<open>int\<close> that wraps, so adding an entry asks for fewer than \<^verbatim>\<open>INT_MAX\<close> of them. \<^verbatim>\<open>St_Reach\<close> has the
    reachable tables as an inductive predicate over all operations.

  \<^item> \<^verbatim>\<open>Bignum_Base\<close>, \<^verbatim>\<open>Bignum_Arith\<close>, \<^verbatim>\<open>Bignum_Div\<close>, \<^verbatim>\<open>Bignum_Bits\<close> (\<^verbatim>\<open>bignum.c\<close>): the record \<^verbatim>\<open>rbignum\<close> is a sign
    and a list of 32-bit digits; the loops over digits are recursions with the 64-bit intermediate
    values of the code. Shown: every operator returns the canonical value of the exact result, with
    the precise exceptions; Knuth's division ends and is exact; conversions to machine integers are
    exact or raise.

  \<^item> \<^verbatim>\<open>Bignum_Print\<close>, \<^verbatim>\<open>Bignum_Parse\<close> (\<^verbatim>\<open>bignum.c\<close>, \<^verbatim>\<open>numeric.c\<close>, \<^verbatim>\<open>string.c\<close>): \<^verbatim>\<open>rb_big2str\<close>, \<^verbatim>\<open>rb_fix2str\<close> and
    \<^verbatim>\<open>rb_cstr_to_inum\<close> with their buffers. Shown: printing ends, stays in its buffer and gives the shortest
    numeral; parsing gives the value of a numeral on both of its ways; parsing undoes printing.

  \<^item> \<^verbatim>\<open>Numeric_Fix\<close>, \<^verbatim>\<open>Comparable\<close> (\<^verbatim>\<open>numeric.c\<close>, \<^verbatim>\<open>compar.c\<close>): the operators of Fixnums with their overflow tests, the
    coercion of mixed operands, the comparison operators and the counting loops. Shown: over all combinations of
    Fixnums and big numbers the operators compute in the ring of integers (locale \<^verbatim>\<open>exact_operator\<close>), division is
    floored, bits are those of the two's complement, shifts are exact or never return, and \<^verbatim>\<open>upto\<close>, \<^verbatim>\<open>downto\<close> and
    \<^verbatim>\<open>step\<close> end and visit the integers they should.

  \<^item> \<^verbatim>\<open>Array_Heap\<close>, \<^verbatim>\<open>Array_Core\<close>, \<^verbatim>\<open>Array_More\<close> (\<^verbatim>\<open>array.c\<close>, with the allocation of \<^verbatim>\<open>gc.c\<close> and \<^verbatim>\<open>rb_range_beg_len\<close> of
    \<^verbatim>\<open>range.c\<close>): arrays, shared roots and buffers are maps of a heap record, an operation takes and returns
    the heap. Each operation has one lemma that says what becomes of the elements, that the invariant
    is kept and that no other array changes; the rules \<^verbatim>\<open>gives\<close>, \<^verbatim>\<open>makes\<close>, \<^verbatim>\<open>yields\<close> and \<^verbatim>\<open>creates\<close> compose them.

  \<^item> \<^verbatim>\<open>Hash_Keys\<close> (\<^verbatim>\<open>hash.c\<close>, \<^verbatim>\<open>string.c\<close>, \<^verbatim>\<open>re.c\<close>): comparison and hash of keys. Under the laws of \<^verbatim>\<open>eql?\<close> and
    \<^verbatim>\<open>hash\<close> (locale \<^verbatim>\<open>any_hash_laws\<close>) the table type \<^verbatim>\<open>objhash\<close> obeys \<^verbatim>\<open>st_hash_laws\<close>.

  \<^item> \<^verbatim>\<open>Hash_Object\<close>, \<^verbatim>\<open>Hash_Live\<close>, \<^verbatim>\<open>Hash_Iter\<close>, \<^verbatim>\<open>Hash_Maps\<close> (\<^verbatim>\<open>hash.c\<close>, \<^verbatim>\<open>rb_obj_dup\<close> of \<^verbatim>\<open>object.c\<close>): the record \<^verbatim>\<open>rhash\<close> has the table,
    the iteration level, the default and the flags; a block is a function that gives the operations it runs on
    the hash, and \<^verbatim>\<open>st_foreach\<close> walks the table as they change it (\<^verbatim>\<open>live_chain\<close>). Inside an iteration a deletion only
    marks; the locale \<^verbatim>\<open>marked_keys\<close> shows that operations on a marked table act as on the table without the marked
    entries. Shown: the invariant under iterations with blocks that insert and delete, errors included; what a deleting
    block sees; \<^verbatim>\<open>delete_if\<close>; hashes as finite maps; merging, copying, rehashing and equality.

  \<^item> \<^verbatim>\<open>Array_Sets\<close>: the set operations, proved from the dictionary contract only.

  \<^item> \<^verbatim>\<open>Array_Props\<close>: the properties of arrays, among them that push, pop, shift and unshift in any order
    implement a double-ended queue (locale \<^verbatim>\<open>bounded_deque\<close>) and that a slice is isolated from the array it
    shares its buffer with.

  \<^item> \<^verbatim>\<open>Pack_Codecs\<close>, \<^verbatim>\<open>Pack_Format\<close>, \<^verbatim>\<open>Pack_Props\<close>, \<^verbatim>\<open>Pack_Results\<close> (\<^verbatim>\<open>pack.c\<close>): the encoders and decoders of bytes (base 64,
    uuencoding, quoted-printable, digits, BER, UTF-8), then the interpreter of formats with every directive. Shown: what is
    packed is unpacked again, with the exact ranges and exceptions; unpacked integers are canonical for every
    format and string.

  \<^item> \<^verbatim>\<open>String_Core\<close>, \<^verbatim>\<open>String_Props\<close>, \<^verbatim>\<open>String_Text\<close>, \<^verbatim>\<open>Text_Sets\<close>, \<^verbatim>\<open>Text_Props\<close> (\<^verbatim>\<open>string.c\<close>): strings as byte lists with their
    flags; subscripts, splices, search, successors, case, character sets and translation, lines, words, stripping,
    dump and inspection. Shown: splices change exactly the section named; search finds the first and last occurrence;
    \<^verbatim>\<open>upto\<close> ends, with its exact extent, or never does; sets and translation agree with the meaning of descriptions; dump
    can be read back; lines end where the separator does.

  \<^bold>\<open>Choices.\<close> The data model is LP64 (\<^verbatim>\<open>int\<close> of 32, \<^verbatim>\<open>long\<close> and pointers of 64 bits), signed overflow wraps.
  An exception is an \<^verbatim>\<open>Inl\<close> value; the state at the raise is not kept. What C leaves undefined ends in an
  error value of its own: an access outside an object, a division by zero that reaches the processor, the
  use of an unset variable. A loop that need not end is a \<^verbatim>\<open>partial_function\<close>, so that not returning is
  \<^verbatim>\<open>None\<close>, and its results are proved with the claim that it returns. There is no fuel. Fresh memory holds
  arbitrary contents. The heap grants up to \<^verbatim>\<open>2**47\<close> bytes, the user address space, so array sizes below
  \<^verbatim>\<open>2**44\<close> cells can be allocated; theorems on growing operations take lengths below \<^verbatim>\<open>2**40\<close>, which no
  process exceeds and which keeps the arithmetic on capacities away from its bounds. The calls beyond
  these bounds are treated by theorems of their own. Big numbers that are printed have less than \<^verbatim>\<open>2**40\<close>
  digits.

  \<^bold>\<open>Parameters.\<close> The methods that the sources call on objects (\<^verbatim>\<open>==\<close>, \<^verbatim>\<open>eql?\<close>, \<^verbatim>\<open>hash\<close>, \<^verbatim>\<open><=>\<close>), blocks, the conversion of
  floats and foreign objects, and the coercion protocol are arguments of the definitions. Blocks and
  methods are functions of their values: that a block changes the array or string it is run on is not covered;
  the blocks of hash iterations are functions that also give the changes they make to the hash.

  \<^bold>\<open>Not modelled.\<close> The evaluator, the parser and the collector work on the C stack (\<^verbatim>\<open>setjmp\<close>, conservative
  marking) or are generated. Files, processes, sockets, time and the extensions are system calls. Floats
  are opaque: the operators of Float and the conversions of big numbers from and to \<^verbatim>\<open>double\<close> are left out, and
  the conversions that \<^verbatim>\<open>pack.c\<close> uses are parameters. Of \<^verbatim>\<open>array.c\<close> the iteration methods that only call a block,
  sorting (\<^verbatim>\<open>qsort\<close>), flattening, joining and inspection are not treated; of \<^verbatim>\<open>hash.c\<close> the environment (ENV),
  sorting and the joining of pairs; of \<^verbatim>\<open>string.c\<close> what needs regular expressions, the sharing and capacity of
  buffers, \<^verbatim>\<open>crypt\<close>, symbols and formatting. The pointer comparison that detects a rehash during an iteration is
  modelled as a change of the number of bins. \<^verbatim>\<open>regex.c\<close>, \<^verbatim>\<open>oniguruma\<close>, \<^verbatim>\<open>sprintf.c\<close>, \<^verbatim>\<open>marshal.c\<close>, \<^verbatim>\<open>random.c\<close> and
  \<^verbatim>\<open>util.c\<close> are not modelled.
\<close>

end
